(* ===== verification/Prelude.thy ===== *)
theory Prelude
  imports Main "HOL-Library.AList" "HOL-Library.List_Lexorder" "HOL-Library.Product_Lexorder"
    "HOL-Library.Char_ord" "HOL-Library.Multiset"
begin

text \<open>
  Shared vocabulary of the development: Python's dictionaries as association lists in
  insertion order, the dictionary interface as a locale with its instance, results of code
  that raises, and the generic list facts the components use.

  Python integers are \<open>int\<close> (unbounded). A Python \<open>str\<close> is a \<open>string\<close>, one \<open>char\<close> per code
  point, so the model covers strings over the code points 0 to 255; the theories
  \<open>List_Lexorder\<close> and \<open>Char_ord\<close> order strings by code point, as Python does.
\<close>

named_theorems dict_simps "lookup after a dictionary operation"
named_theorems wf_intros "well-formedness is kept by an operation"
named_theorems result_simps "results of operations that may raise"

section \<open>Dictionaries\<close>

type_synonym ('k, 'v) dict = "('k \<times> 'v) list"

abbreviation dict_get :: "('k, 'v) dict \<Rightarrow> 'k \<Rightarrow> 'v option" where
  "dict_get \<equiv> map_of"

abbreviation dict_put :: "'k \<Rightarrow> 'v \<Rightarrow> ('k, 'v) dict \<Rightarrow> ('k, 'v) dict" where
  "dict_put \<equiv> AList.update"

abbreviation dict_pop :: "'k \<Rightarrow> ('k, 'v) dict \<Rightarrow> ('k, 'v) dict" where
  "dict_pop \<equiv> AList.delete"

abbreviation dict_keys :: "('k, 'v) dict \<Rightarrow> 'k list" where
  "dict_keys d \<equiv> map fst d"

definition dict_wf :: "('k, 'v) dict \<Rightarrow> bool" where
  "dict_wf d \<longleftrightarrow> distinct (dict_keys d)"

definition dict_get_or :: "('k, 'v) dict \<Rightarrow> 'k \<Rightarrow> 'v \<Rightarrow> 'v" where
  "dict_get_or d k v = (case dict_get d k of None \<Rightarrow> v | Some w \<Rightarrow> w)"

lemma dict_wf_Nil [simp, wf_intros]: "dict_wf []"
  by (simp add: dict_wf_def)

lemma dict_wf_single [simp]: "dict_wf [x]"
  by (simp add: dict_wf_def)

lemma dict_wf_put [simp, wf_intros]: "dict_wf d \<Longrightarrow> dict_wf (dict_put k v d)"
  by (simp add: dict_wf_def distinct_update)

lemma dict_wf_pop [simp, wf_intros]: "dict_wf d \<Longrightarrow> dict_wf (dict_pop k d)"
  by (simp add: dict_wf_def distinct_delete)

lemma dict_get_put [dict_simps]: "dict_get (dict_put k v d) j = (if j = k then Some v else dict_get d j)"
  by (simp add: update_conv')

lemma dict_get_pop [dict_simps]: "dict_get (dict_pop k d) j = (if j = k then None else dict_get d j)"
  by (simp add: delete_conv')

lemma dict_keys_set: "set (dict_keys d) = dom (dict_get d)"
  by (simp add: dom_map_of_conv_image_fst)

lemma dict_get_SomeD: "dict_get d k = Some v \<Longrightarrow> (k, v) \<in> set d"
  by (rule map_of_SomeD)

lemma dict_mem_get: "dict_wf d \<Longrightarrow> (k, v) \<in> set d \<longleftrightarrow> dict_get d k = Some v"
  by (auto simp: dict_wf_def dest: map_of_SomeD)

lemma dict_empty_iff: "d = [] \<longleftrightarrow> (\<forall>k. dict_get d k = None)"
proof (cases d)
  case Nil
  then show ?thesis by simp
next
  case (Cons p e)
  then have "dict_get d (fst p) = Some (snd p)" by (cases p) simp
  with Cons show ?thesis by (metis list.distinct(1) option.distinct(1))
qed

lemma dict_get_or_put [dict_simps]:
  "dict_get_or (dict_put k v d) j w = (if j = k then v else dict_get_or d j w)"
  by (simp add: dict_get_or_def dict_simps)

lemma sum_put: "sum_list (map snd (dict_put k v d)) = sum_list (map snd d) - dict_get_or d k 0 + (v :: int)"
  by (induction d) (auto simp: dict_get_or_def split: option.splits)

text \<open>Two well-formed dictionaries with the same lookups hold the same items, in some order.\<close>

lemma dict_eq_mset:
  assumes "dict_wf d" "dict_wf e" "dict_get d = dict_get e"
  shows "mset d = mset e"
proof -
  have "distinct d" "distinct e"
    using assms by (auto simp: dict_wf_def distinct_map)
  moreover have "set d = set e"
  proof (rule set_eqI)
    fix x show "x \<in> set d \<longleftrightarrow> x \<in> set e"
      using dict_mem_get [OF assms(1)] dict_mem_get [OF assms(2)] assms(3)
      by (cases x) simp
  qed
  ultimately show ?thesis by (simp add: set_eq_iff_mset_eq_distinct)
qed

text \<open>
  The dictionary interface: what the components rely on when they look up, store and delete
  keys, independent of the order a dictionary remembers.
\<close>

locale keyed_store =
  fixes empty :: 'd
    and get :: "'d \<Rightarrow> 'k \<Rightarrow> 'v option"
    and put :: "'k \<Rightarrow> 'v \<Rightarrow> 'd \<Rightarrow> 'd"
    and pop :: "'k \<Rightarrow> 'd \<Rightarrow> 'd"
    and wf :: "'d \<Rightarrow> bool"
  assumes get_empty: "get empty k = None"
    and get_put: "get (put k v d) j = (if j = k then Some v else get d j)"
    and get_pop: "get (pop k d) j = (if j = k then None else get d j)"
    and wf_empty: "wf empty"
    and wf_put: "wf d \<Longrightarrow> wf (put k v d)"
    and wf_pop: "wf d \<Longrightarrow> wf (pop k d)"
begin

lemma wf_fold_put: "wf d \<Longrightarrow> wf (fold (\<lambda>(k, v). put k v) xs d)"
  by (induction xs arbitrary: d) (auto intro: wf_put)

lemma get_fold_put_notin:
  "k \<notin> fst ` set xs \<Longrightarrow> get (fold (\<lambda>(k, v). put k v) xs d) k = get d k"
  by (induction xs arbitrary: d) (auto simp: get_put)

lemma get_fold_put:
  "distinct (map fst xs) \<Longrightarrow>
   get (fold (\<lambda>(k, v). put k v) xs d) k = (case map_of xs k of None \<Rightarrow> get d k | Some v \<Rightarrow> Some v)"
proof (induction xs arbitrary: d)
  case Nil
  then show ?case by simp
next
  case (Cons x xs)
  obtain a b where x: "x = (a, b)" by fastforce
  with Cons.prems have "a \<notin> set (map fst xs)" by simp
  then have "map_of xs a = None" by (simp add: map_of_eq_None_iff)
  with Cons x show ?case by (auto simp: get_put split: option.splits)
qed

lemma pop_put_same: "get (pop k (put k v d)) = get (pop k d)"
  by (rule ext) (simp add: get_put get_pop)

lemma put_put_same: "get (put k v (put k w d)) = get (put k v d)"
  by (rule ext) (simp add: get_put)

lemma put_pop_comm: "k \<noteq> j \<Longrightarrow> get (put k v (pop j d)) = get (pop j (put k v d))"
  by (rule ext) (simp add: get_put get_pop)

end

interpretation pydict: keyed_store "[] :: ('k, 'v) dict" dict_get dict_put dict_pop dict_wf
  by unfold_locales (simp_all add: dict_simps wf_intros)

section \<open>Optional values compared as Python does\<close>

definition opt_max :: "'a::linorder list \<Rightarrow> 'a option" where
  "opt_max xs = (if xs = [] then None else Some (Max (set xs)))"

definition opt_min :: "'a::linorder list \<Rightarrow> 'a option" where
  "opt_min xs = (if xs = [] then None else Some (Min (set xs)))"

lemma opt_max_Nil [simp]: "opt_max [] = None"
  by (simp add: opt_max_def)

lemma opt_min_Nil [simp]: "opt_min [] = None"
  by (simp add: opt_min_def)

lemma opt_max_cong: "set xs = set ys \<Longrightarrow> opt_max xs = opt_max ys"
  by (auto simp: opt_max_def)

lemma opt_min_cong: "set xs = set ys \<Longrightarrow> opt_min xs = opt_min ys"
  by (auto simp: opt_min_def)

lemma opt_max_Some_iff: "opt_max xs = Some m \<longleftrightarrow> m \<in> set xs \<and> (\<forall>x\<in>set xs. x \<le> m)"
  by (auto simp: opt_max_def intro: Max_eqI)

lemma opt_min_Some_iff: "opt_min xs = Some m \<longleftrightarrow> m \<in> set xs \<and> (\<forall>x\<in>set xs. m \<le> x)"
  by (auto simp: opt_min_def intro: Min_eqI)

lemma opt_max_None_iff [simp]: "opt_max xs = None \<longleftrightarrow> xs = []"
  by (simp add: opt_max_def)

lemma opt_min_None_iff [simp]: "opt_min xs = None \<longleftrightarrow> xs = []"
  by (simp add: opt_min_def)

section \<open>Code that raises\<close>

text \<open>A computation that may raise returns \<open>Inl\<close> of the error or \<open>Inr\<close> of its value.\<close>

type_synonym ('err, 'val) result = "'err + 'val"

fun result_bind :: "('err, 'v) result \<Rightarrow> ('v \<Rightarrow> ('err, 'w) result) \<Rightarrow> ('err, 'w) result" where
  "result_bind (Inl e) f = Inl e"
| "result_bind (Inr x) f = f x"

fun result_list :: "('v \<Rightarrow> ('err, 'w) result) \<Rightarrow> 'v list \<Rightarrow> ('err, 'w list) result" where
  "result_list f [] = Inr []"
| "result_list f (x # xs) =
     result_bind (f x) (\<lambda>y. result_bind (result_list f xs) (\<lambda>ys. Inr (y # ys)))"

lemma result_bind_Inr [result_simps]:
  "result_bind r f = Inr y \<longleftrightarrow> (\<exists>x. r = Inr x \<and> f x = Inr y)"
  by (cases r) auto

lemma result_bind_Inl [result_simps]:
  "result_bind r f = Inl e \<longleftrightarrow> r = Inl e \<or> (\<exists>x. r = Inr x \<and> f x = Inl e)"
  by (cases r) auto

end
