(* ===== verification/Fixedpoint.thy ===== *)
theory Fixedpoint
  imports Prelude
begin

text \<open>
  \<^verbatim>\<open>tape/fixedpoint.py\<close>: decimal strings to integers in fixed units and back.

  The regular expression \<^verbatim>\<open>^-?\d+(\.\d+)?$\<close> is \<open>match_decimal\<close>, including Python's reading of
  \<^verbatim>\<open>$\<close>, which also matches before one trailing newline. \<^verbatim>\<open>decimal.Decimal\<close> is modelled by sign,
  coefficient and exponent; \<^verbatim>\<open>scaleb\<close> rounds its result half-even to the 28 significant digits
  of the default context, as the standard library documents. The exponent limits of that
  context (texts of about a million characters) are not modelled.
\<close>

datatype fixed_point_error =
    NotPlainDecimal string
  | TooManyDecimals string
  | PriceOutOfRange string
  | NegativeCount string

definition PRICE_SCALE :: int where "PRICE_SCALE = 10000"
definition COUNT_SCALE :: int where "COUNT_SCALE = 100"
definition DOLLARS_SCALE :: int where "DOLLARS_SCALE = 1000000"
definition PRICE_MAX :: int where "PRICE_MAX = PRICE_SCALE"
definition PRICE_DECIMALS :: nat where "PRICE_DECIMALS = 4"
definition COUNT_DECIMALS :: nat where "COUNT_DECIMALS = 2"
definition DOLLARS_DECIMALS :: nat where "DOLLARS_DECIMALS = 6"

section \<open>Digits\<close>

definition digit_val :: "char \<Rightarrow> nat option" where
  "digit_val c = map_of (zip ''0123456789'' [0, 1, 2, 3, 4, 5, 6, 7, 8, 9]) c"

definition digit_char :: "nat \<Rightarrow> char" where
  "digit_char n = ''0123456789'' ! n"

definition is_digit :: "char \<Rightarrow> bool" where
  "is_digit c \<longleftrightarrow> digit_val c \<noteq> None"

definition digits_to_nat :: "nat list \<Rightarrow> nat" where
  "digits_to_nat ds = foldl (\<lambda>n d. 10 * n + d) 0 ds"

fun digits_of :: "nat \<Rightarrow> nat list" where
  "digits_of n = (if n < 10 then [n] else digits_of (n div 10) @ [n mod 10])"

declare digits_of.simps [simp del]

lemma digits_of_eval: "n < 10 \<Longrightarrow> digits_of n = [n]"
  "10 \<le> n \<Longrightarrow> digits_of n = digits_of (n div 10) @ [n mod 10]"
  by (simp_all add: digits_of.simps [of n])

definition ndigits :: "nat \<Rightarrow> nat" where
  "ndigits n = length (digits_of n)"

section \<open>Decimals\<close>

datatype dec = Dec (dec_neg: bool) (dec_coeff: nat) (dec_exp: int)

definition CONTEXT_PREC :: nat where "CONTEXT_PREC = 28"

definition round_half_even :: "nat \<Rightarrow> nat \<Rightarrow> nat" where
  "round_half_even c k =
     (let q = c div 10 ^ k; r = c mod 10 ^ k
      in if 2 * r < 10 ^ k \<or> (2 * r = 10 ^ k \<and> even q) then q else q + 1)"

definition dec_fix :: "dec \<Rightarrow> dec" where
  "dec_fix x =
     (let n = ndigits (dec_coeff x)
      in if n \<le> CONTEXT_PREC then x
         else Dec (dec_neg x) (round_half_even (dec_coeff x) (n - CONTEXT_PREC))
                  (dec_exp x + int (n - CONTEXT_PREC)))"

definition dec_scaleb :: "dec \<Rightarrow> nat \<Rightarrow> dec" where
  "dec_scaleb x n = dec_fix (Dec (dec_neg x) (dec_coeff x) (dec_exp x + int n))"

definition dec_is_integral :: "dec \<Rightarrow> bool" where
  "dec_is_integral x \<longleftrightarrow> 0 \<le> dec_exp x \<or> dec_coeff x mod 10 ^ nat (- dec_exp x) = 0"

definition dec_int :: "dec \<Rightarrow> int" where
  "dec_int x =
     (let m = (if 0 \<le> dec_exp x then dec_coeff x * 10 ^ nat (dec_exp x)
               else dec_coeff x div 10 ^ nat (- dec_exp x))
      in if dec_neg x then - int m else int m)"

section \<open>Parsing\<close>

definition match_decimal :: "string \<Rightarrow> (bool \<times> nat list \<times> nat list) option" where
  "match_decimal t =
     (let neg = (t \<noteq> [] \<and> hd t = CHR ''-'');
          u = (if neg then tl t else t);
          ip = takeWhile is_digit u;
          r = dropWhile is_digit u;
          vals = map (\<lambda>c. the (digit_val c))
      in if ip = [] then None
         else if r = [] \<or> r = [CHR 0x0A] then Some (neg, vals ip, [])
         else if hd r = CHR ''.'' then
           (let fp = takeWhile is_digit (tl r); r' = dropWhile is_digit (tl r)
            in if fp \<noteq> [] \<and> (r' = [] \<or> r' = [CHR 0x0A]) then Some (neg, vals ip, vals fp)
               else None)
         else None)"

definition decimal_of_match :: "bool \<times> nat list \<times> nat list \<Rightarrow> dec" where
  "decimal_of_match m =
     (case m of (neg, ip, fp) \<Rightarrow> Dec neg (digits_to_nat (ip @ fp)) (- int (length fp)))"

definition parse_scaled :: "string \<Rightarrow> nat \<Rightarrow> fixed_point_error + int" where
  "parse_scaled text decimals =
     (case match_decimal text of
        None \<Rightarrow> Inl (NotPlainDecimal text)
      | Some m \<Rightarrow>
          (let v = dec_scaleb (decimal_of_match m) decimals
           in if \<not> dec_is_integral v then Inl (TooManyDecimals text) else Inr (dec_int v)))"

definition parse_price :: "string \<Rightarrow> fixed_point_error + int" where
  "parse_price text =
     result_bind (parse_scaled text PRICE_DECIMALS)
       (\<lambda>v. if v < 0 \<or> v > PRICE_SCALE then Inl (PriceOutOfRange text) else Inr v)"

definition parse_count :: "string \<Rightarrow> fixed_point_error + int" where
  "parse_count text =
     result_bind (parse_scaled text COUNT_DECIMALS)
       (\<lambda>v. if v < 0 then Inl (NegativeCount text) else Inr v)"

definition parse_signed_count :: "string \<Rightarrow> fixed_point_error + int" where
  "parse_signed_count text = parse_scaled text COUNT_DECIMALS"

definition parse_dollars :: "string \<Rightarrow> fixed_point_error + int" where
  "parse_dollars text = parse_scaled text DOLLARS_DECIMALS"

section \<open>Formatting\<close>

definition show_nat :: "nat \<Rightarrow> string" where
  "show_nat n = map digit_char (digits_of n)"

definition zero_pad :: "nat \<Rightarrow> string \<Rightarrow> string" where
  "zero_pad k s = replicate (k - length s) (CHR ''0'') @ s"

definition format_scaled :: "int \<Rightarrow> nat \<Rightarrow> string" where
  "format_scaled value decimals =
     (let sign = (if value < 0 then ''-'' else '''');
          magnitude = nat \<bar>value\<bar>;
          scale = 10 ^ decimals
      in sign @ show_nat (magnitude div scale) @ ''.'' @
         zero_pad decimals (show_nat (magnitude mod scale)))"

definition format_price :: "int \<Rightarrow> string" where
  "format_price price = format_scaled price PRICE_DECIMALS"

definition format_count :: "int \<Rightarrow> string" where
  "format_count cnt = format_scaled cnt COUNT_DECIMALS"

definition format_dollars :: "int \<Rightarrow> string" where
  "format_dollars dollars = format_scaled dollars DOLLARS_DECIMALS"

section \<open>Arithmetic\<close>

definition complement :: "int \<Rightarrow> int" where
  "complement price = PRICE_SCALE - price"

definition notional_e6 :: "int \<Rightarrow> int \<Rightarrow> int" where
  "notional_e6 price cnt = price * cnt"

datatype zero_division = ZeroDivisionError

definition div_ceil :: "int \<Rightarrow> int \<Rightarrow> zero_division + int" where
  "div_ceil numerator denominator =
     (if denominator = 0 then Inl ZeroDivisionError else Inr (- ((- numerator) div denominator)))"

definition div_floor :: "int \<Rightarrow> int \<Rightarrow> zero_division + int" where
  "div_floor numerator denominator =
     (if denominator = 0 then Inl ZeroDivisionError else Inr (numerator div denominator))"

section \<open>Digit lists\<close>

lemma digits_to_nat_append: "digits_to_nat (xs @ [d]) = 10 * digits_to_nat xs + d"
  by (simp add: digits_to_nat_def)

lemma digits_to_nat_concat:
  "digits_to_nat (xs @ ys) = digits_to_nat xs * 10 ^ length ys + digits_to_nat ys"
proof (induction ys rule: rev_induct)
  case Nil
  then show ?case by (simp add: digits_to_nat_def)
next
  case (snoc d ys)
  have "digits_to_nat (xs @ ys @ [d]) = 10 * digits_to_nat (xs @ ys) + d"
    using digits_to_nat_append [of "xs @ ys" d] by simp
  with snoc show ?case by (simp add: digits_to_nat_append algebra_simps)
qed

lemma digits_to_nat_replicate: "digits_to_nat (replicate k 0) = 0"
  by (induction k) (simp_all add: digits_to_nat_def)

lemma digits_to_nat_pad: "digits_to_nat (replicate k 0 @ ds) = digits_to_nat ds"
  by (simp add: digits_to_nat_concat digits_to_nat_replicate)

lemma digits_to_nat_of [simp]: "digits_to_nat (digits_of n) = n"
proof (induction n rule: digits_of.induct)
  case (1 n)
  show ?case
  proof (cases "n < 10")
    case True
    then show ?thesis by (simp add: digits_of.simps [of n] digits_to_nat_def)
  next
    case False
    with 1 show ?thesis by (simp add: digits_of.simps [of n] digits_to_nat_append)
  qed
qed

lemma digits_of_small: "d \<in> set (digits_of n) \<Longrightarrow> d < 10"
proof (induction n rule: digits_of.induct)
  case (1 n)
  then show ?case by (auto simp: digits_of.simps [of n] split: if_splits)
qed

lemma digits_of_nonempty [simp]: "digits_of n \<noteq> []"
  by (simp add: digits_of.simps [of n])

lemma ndigits_le: "0 < k \<Longrightarrow> n < 10 ^ k \<Longrightarrow> ndigits n \<le> k"
proof (induction n arbitrary: k rule: digits_of.induct)
  case (1 n)
  show ?case
  proof (cases "n < 10")
    case True
    with 1 show ?thesis by (simp add: ndigits_def digits_of.simps [of n])
  next
    case False
    with 1 obtain j where k: "k = Suc j" and j: "0 < j"
      by (cases k; cases "k - 1") auto
    with 1 have "n div 10 < 10 ^ j" by (simp add: div_less_iff_less_mult mult.commute)
    with 1 False j have "ndigits (n div 10) \<le> j" by simp
    with False k show ?thesis by (simp add: ndigits_def digits_of.simps [of n])
  qed
qed

lemma ndigits_gt: "10 ^ k \<le> n \<Longrightarrow> k < ndigits n"
proof (induction n arbitrary: k rule: digits_of.induct)
  case (1 n)
  show ?case
  proof (cases k)
    case 0
    then show ?thesis by (simp add: ndigits_def)
  next
    case (Suc j)
    with 1 have "10 \<le> n" "10 ^ j \<le> n div 10"
      by (auto simp: less_eq_div_iff_mult_less_eq mult.commute intro: order_trans [rotated])
    with 1 Suc show ?thesis by (simp add: ndigits_def digits_of_eval)
  qed
qed

lemma ndigits_eqI: "0 < k \<Longrightarrow> 10 ^ (k - 1) \<le> n \<Longrightarrow> n < 10 ^ k \<Longrightarrow> ndigits n = k"
  using ndigits_le [of k n] ndigits_gt [of "k - 1" n] by simp

lemma digits_to_nat_bound:
  "(\<And>d. d \<in> set ds \<Longrightarrow> d < 10) \<Longrightarrow> digits_to_nat ds < 10 ^ length ds"
proof (induction ds rule: rev_induct)
  case Nil
  then show ?case by (simp add: digits_to_nat_def)
next
  case (snoc d ds)
  then have "digits_to_nat ds < 10 ^ length ds" "d < 10" by auto
  then show ?case by (simp add: digits_to_nat_append)
qed

lemma lt10_cases: "(n::nat) < 10 \<Longrightarrow> n \<in> set (rev [9, 8, 7, 6, 5, 4, 3, 2, 1, 0])"
  by (simp, arith)

lemma digit_val_char [simp]: "n < 10 \<Longrightarrow> digit_val (digit_char n) = Some n"
  by (drule lt10_cases) (auto simp: digit_val_def digit_char_def)

lemma digit_val_less: "digit_val c = Some d \<Longrightarrow> d < 10"
  by (auto simp: digit_val_def split: if_splits)

lemma is_digit_char [simp]: "n < 10 \<Longrightarrow> is_digit (digit_char n)"
  by (simp add: is_digit_def)

lemma digit_char_0: "digit_char 0 = CHR ''0''"
  by (simp add: digit_char_def)

lemma not_digit [simp]: "\<not> is_digit (CHR ''-'')" "\<not> is_digit (CHR ''.'')" "\<not> is_digit (CHR 0x0A)"
  by (simp_all add: is_digit_def digit_val_def)

section \<open>The text of a scaled integer\<close>

text \<open>A digit string is the image of a list of digits below ten.\<close>

lemma digit_string_span:
  assumes "\<And>d. d \<in> set ds \<Longrightarrow> d < 10" "r = [] \<or> \<not> is_digit (hd r)"
  shows "takeWhile is_digit (map digit_char ds @ r) = map digit_char ds"
    and "dropWhile is_digit (map digit_char ds @ r) = r"
  using assms by (cases r; simp add: takeWhile_append dropWhile_append)+

lemma digit_string_vals:
  "(\<And>d. d \<in> set ds \<Longrightarrow> d < 10) \<Longrightarrow> map (\<lambda>c. the (digit_val c)) (map digit_char ds) = ds"
  by (induction ds) auto

definition pad_digits :: "nat \<Rightarrow> nat \<Rightarrow> nat list" where
  "pad_digits k n = replicate (k - length (digits_of n)) 0 @ digits_of n"

lemma pad_digits_small: "d \<in> set (pad_digits k n) \<Longrightarrow> d < 10"
  by (auto simp: pad_digits_def dest: digits_of_small)

lemma digits_to_nat_pad_digits [simp]: "digits_to_nat (pad_digits k n) = n"
  by (simp add: pad_digits_def digits_to_nat_pad)

lemma length_pad_digits: "0 < k \<Longrightarrow> n < 10 ^ k \<Longrightarrow> length (pad_digits k n) = k"
  using ndigits_le [of k n] by (simp add: pad_digits_def ndigits_def)

lemma zero_pad_show: "zero_pad k (show_nat n) = map digit_char (pad_digits k n)"
  by (simp add: zero_pad_def show_nat_def pad_digits_def digit_char_0)

lemma match_decimal_digits:
  assumes ip: "ip \<noteq> []" "\<And>d. d \<in> set ip \<Longrightarrow> d < 10"
    and fp: "fp \<noteq> []" "\<And>d. d \<in> set fp \<Longrightarrow> d < 10"
  shows "match_decimal ((if neg then ''-'' else '''') @ map digit_char ip @ ''.'' @ map digit_char fp)
           = Some (neg, ip, fp)"
proof -
  obtain d ds where ipd: "ip = d # ds" using ip by (cases ip) auto
  have "digit_char d \<noteq> CHR ''-''"
    using is_digit_char [of d] ip ipd not_digit(1) by fastforce
  then have first: "hd (map digit_char ip @ ''.'' @ map digit_char fp) \<noteq> CHR ''-''"
    using ipd by simp
  note span1 = digit_string_span [of ip "''.'' @ map digit_char fp", OF ip(2)]
  have span2: "takeWhile is_digit (map digit_char fp) = map digit_char fp"
    "dropWhile is_digit (map digit_char fp) = []"
    using digit_string_span [of fp "[]", OF fp(2)] by simp_all
  have vals: "map ((\<lambda>c. the (digit_val c)) \<circ> digit_char) ip = ip"
    "map ((\<lambda>c. the (digit_val c)) \<circ> digit_char) fp = fp"
    using digit_string_vals [OF ip(2)] digit_string_vals [OF fp(2)] by simp_all
  have ne: "ip \<noteq> []" "fp \<noteq> []" using ip fp by auto
  show ?thesis
  proof (cases neg)
    case True
    then show ?thesis using span1 ne by (simp add: match_decimal_def Let_def span2 vals)
  next
    case False
    then show ?thesis using span1 ne first by (simp add: match_decimal_def Let_def span2 vals)
  qed
qed

lemma round_fix_small: "dec_coeff x < 10 ^ CONTEXT_PREC \<Longrightarrow> dec_fix x = x"
  using ndigits_le [of CONTEXT_PREC "dec_coeff x"] by (simp add: dec_fix_def CONTEXT_PREC_def Let_def)

lemma parse_format_scaled:
  assumes d: "0 < d" and v: "\<bar>v\<bar> < 10 ^ CONTEXT_PREC"
  shows "parse_scaled (format_scaled v d) d = Inr v"
proof -
  define m where "m = nat \<bar>v\<bar>"
  let ?ip = "digits_of (m div 10 ^ d)" and ?fp = "pad_digits d (m mod 10 ^ d)"
  have form: "format_scaled v d =
      (if v < 0 then ''-'' else '''') @ map digit_char ?ip @ ''.'' @ map digit_char ?fp"
    by (simp add: format_scaled_def Let_def m_def zero_pad_show) (simp add: show_nat_def)
  have len: "length ?fp = d" using d by (simp add: length_pad_digits)
  have fp: "?fp \<noteq> []" using len d by (metis less_irrefl list.size(3))
  have match: "match_decimal (format_scaled v d) = Some (v < 0, ?ip, ?fp)"
    unfolding form
    by (rule match_decimal_digits) (auto simp: fp dest: digits_of_small pad_digits_small)
  have coeff: "digits_to_nat (?ip @ ?fp) = m"
    by (simp add: digits_to_nat_concat len del: div_mult_mod_eq) (rule div_mult_mod_eq)
  have small: "m < 10 ^ CONTEXT_PREC" using v by (simp add: m_def nat_less_iff)
  have "dec_scaleb (decimal_of_match (v < 0, ?ip, ?fp)) d = Dec (v < 0) m 0"
    using small by (simp add: dec_scaleb_def decimal_of_match_def coeff len round_fix_small)
  then show ?thesis
    by (simp add: parse_scaled_def match dec_is_integral_def dec_int_def m_def Let_def)
qed

section \<open>Exactness\<close>

lemma match_decimal_digits_small:
  assumes "match_decimal t = Some (neg, ip, fp)"
  shows "d \<in> set (ip @ fp) \<Longrightarrow> d < 10"
proof -
  have small: "d \<in> set (map (\<lambda>c. the (digit_val c)) (takeWhile is_digit u)) \<Longrightarrow> d < 10" for u d
    by (auto simp: is_digit_def dest!: set_takeWhileD intro: digit_val_less)
  show "d \<in> set (ip @ fp) \<Longrightarrow> d < 10"
    using assms small [of d] by (auto simp: match_decimal_def Let_def split: if_splits)
qed

lemma dec_scaleb_small:
  "dec_coeff x < 10 ^ CONTEXT_PREC \<Longrightarrow>
   dec_scaleb x n = Dec (dec_neg x) (dec_coeff x) (dec_exp x + int n)"
  by (simp add: dec_scaleb_def round_fix_small)

lemma scaled_value_iff:
  fixes N v :: int
  assumes "k \<le> d"
  shows "v = N * 10 ^ (d - k) \<longleftrightarrow> v * 10 ^ k = N * 10 ^ d"
proof -
  have "(10::int) ^ d = 10 ^ (d - k) * 10 ^ k"
    using assms by (simp flip: power_add)
  then have "N * 10 ^ d = (N * 10 ^ (d - k)) * 10 ^ k" by simp
  then show ?thesis by (metis mult_cancel_right power_not_zero zero_neq_numeral)
qed

lemma scaled_quotient_iff:
  fixes N v :: int
  assumes "d < k"
  shows "v * 10 ^ k = N * 10 ^ d \<longleftrightarrow> N = v * 10 ^ (k - d)"
proof -
  have "(10::int) ^ k = 10 ^ (k - d) * 10 ^ d"
    using assms by (simp flip: power_add)
  then have "v * 10 ^ k = (v * 10 ^ (k - d)) * 10 ^ d" by simp
  then show ?thesis by (metis mult_cancel_right power_not_zero zero_neq_numeral)
qed

lemma int_mod_div_iff:
  fixes n p :: nat and v :: int
  assumes p: "0 < p"
  shows "n mod p = 0 \<and> v = (if neg then - int (n div p) else int (n div p)) \<longleftrightarrow>
    (if neg then - int n else int n) = v * int p"
proof
  assume "n mod p = 0 \<and> v = (if neg then - int (n div p) else int (n div p))"
  then have "n = n div p * p" "v = (if neg then - int (n div p) else int (n div p))" by auto
  then show "(if neg then - int n else int n) = v * int p"
    by (metis int_ops(7) mult_minus_left)
next
  assume *: "(if neg then - int n else int n) = v * int p"
  then have "int n = (if neg then - v else v) * int p" by (auto split: if_splits)
  then have "int p dvd int n" by simp
  then have "p dvd n" by simp
  then have "n mod p = 0" by simp
  moreover have "int (n div p) = (if neg then - v else v)"
    using \<open>int n = (if neg then - v else v) * int p\<close> p by (simp add: zdiv_int)
  ultimately show "n mod p = 0 \<and> v = (if neg then - int (n div p) else int (n div p))"
    by auto
qed

lemma parse_scaled_exact:
  assumes m: "match_decimal t = Some (neg, ip, fp)" and len: "length (ip @ fp) \<le> CONTEXT_PREC"
  shows "parse_scaled t d = Inr v \<longleftrightarrow>
    v * 10 ^ length fp = (if neg then - 1 else 1) * int (digits_to_nat (ip @ fp)) * 10 ^ d"
proof -
  define n where "n = digits_to_nat (ip @ fp)"
  have "n < 10 ^ length (ip @ fp)"
    unfolding n_def by (rule digits_to_nat_bound) (rule match_decimal_digits_small [OF m])
  also have "\<dots> \<le> 10 ^ CONTEXT_PREC" using len by (simp add: power_increasing)
  finally have n: "n < 10 ^ CONTEXT_PREC" .
  define sn where "sn = (if neg then - int n else int n)"
  have rhs: "(if neg then - 1 else 1) * int (digits_to_nat (ip @ fp)) * 10 ^ d = sn * 10 ^ d"
    by (simp add: sn_def n_def)
  have scale: "dec_scaleb (decimal_of_match (neg, ip, fp)) d = Dec neg n (int d - int (length fp))"
    using n by (simp add: decimal_of_match_def n_def dec_scaleb_small)
  show ?thesis
  proof (cases "length fp \<le> d")
    case True
    then have "parse_scaled t d = Inr (sn * 10 ^ (d - length fp))"
      using nat_diff_distrib [of "int (length fp)" "int d"]
      by (simp add: parse_scaled_def m scale dec_is_integral_def dec_int_def Let_def sn_def)
    then have "parse_scaled t d = Inr v \<longleftrightarrow> v = sn * 10 ^ (d - length fp)" by auto
    then show ?thesis using scaled_value_iff [OF True, of v sn] by (simp only: rhs)
  next
    case False
    then have lt: "d < length fp" by simp
    let ?p = "10 ^ (length fp - d) :: nat"
    have nat: "nat (int (length fp) - int d) = length fp - d" by simp
    have "parse_scaled t d = Inr v \<longleftrightarrow>
      n mod ?p = 0 \<and> v = (if neg then - int (n div ?p) else int (n div ?p))"
      using lt by (auto simp: parse_scaled_def m scale dec_is_integral_def dec_int_def Let_def nat)
    also have "\<dots> \<longleftrightarrow> sn = v * int ?p" unfolding sn_def by (rule int_mod_div_iff) simp
    finally show ?thesis using scaled_quotient_iff [OF lt, of v sn] by (simp add: rhs)
  qed
qed

lemmas parse_eval = parse_price_def parse_count_def parse_dollars_def parse_signed_count_def
  parse_scaled_def match_decimal_def Let_def is_digit_def digit_val_def decimal_of_match_def
  digits_to_nat_def dec_scaleb_def dec_fix_def ndigits_def digits_of_eval CONTEXT_PREC_def
  dec_is_integral_def dec_int_def round_half_even_def PRICE_DECIMALS_def PRICE_SCALE_def
  COUNT_DECIMALS_def DOLLARS_DECIMALS_def

lemma parse_price_range: "parse_price t = Inr p \<Longrightarrow> 0 \<le> p \<and> p \<le> PRICE_MAX"
  by (auto simp: parse_price_def PRICE_MAX_def result_simps split: if_splits)

lemma parse_count_nonneg: "parse_count t = Inr c \<Longrightarrow> 0 \<le> c"
  by (auto simp: parse_count_def result_simps split: if_splits)

lemma complement_range: "0 \<le> complement p \<and> complement p \<le> PRICE_MAX \<longleftrightarrow> 0 \<le> p \<and> p \<le> PRICE_MAX"
  by (auto simp: complement_def PRICE_MAX_def)

lemma complement_complement [simp]: "complement (complement p) = p"
  by (simp add: complement_def)

lemma complement_less [simp]: "complement p < complement q \<longleftrightarrow> q < p"
  by (simp add: complement_def)

lemma complement_eq [simp]: "complement p = complement q \<longleftrightarrow> p = q"
  by (auto simp: complement_def)

lemma parse_format_price: "0 \<le> p \<Longrightarrow> p \<le> PRICE_MAX \<Longrightarrow> parse_price (format_price p) = Inr p"
  using parse_format_scaled [of PRICE_DECIMALS p]
  by (simp add: parse_price_def format_price_def PRICE_MAX_def PRICE_SCALE_def
      PRICE_DECIMALS_def CONTEXT_PREC_def)

lemma parse_format_count: "0 \<le> c \<Longrightarrow> c < 10 ^ CONTEXT_PREC \<Longrightarrow> parse_count (format_count c) = Inr c"
  using parse_format_scaled [of COUNT_DECIMALS c]
  by (simp add: parse_count_def format_count_def COUNT_DECIMALS_def)

lemma parse_format_dollars: "\<bar>v\<bar> < 10 ^ CONTEXT_PREC \<Longrightarrow> parse_dollars (format_dollars v) = Inr v"
  using parse_format_scaled [of DOLLARS_DECIMALS v]
  by (simp add: parse_dollars_def format_dollars_def DOLLARS_DECIMALS_def)

section \<open>Properties\<close>

text \<open>
  C40. Round trip: every price in range, every count and every dollar amount of magnitude below
  ten to the 28 in its unit, formatted and parsed again, is itself.
\<close>

theorem format_parse_roundtrip:
  "(0 \<le> p \<and> p \<le> PRICE_MAX \<longrightarrow> parse_price (format_price p) = Inr p) \<and>
   (0 \<le> c \<and> c < 10 ^ CONTEXT_PREC \<longrightarrow> parse_count (format_count c) = Inr c) \<and>
   (\<bar>v\<bar> < 10 ^ CONTEXT_PREC \<longrightarrow> parse_dollars (format_dollars v) = Inr v)"
  by (simp add: parse_format_price parse_format_count parse_format_dollars)

theorem format_parse_roundtrip_witness:
  "parse_price (format_price 5600) = Inr 5600 \<and> parse_count (format_count 1250) = Inr 1250 \<and>
   parse_dollars (format_dollars (-10000)) = Inr (-10000)"
  using format_parse_roundtrip [of 5600 1250 "-10000"]
  by (simp add: PRICE_MAX_def PRICE_SCALE_def CONTEXT_PREC_def)

text \<open>
  Exactness: on a plain decimal of at most 28 digits, parsing to a unit of \<open>d\<close> decimals
  returns \<open>v\<close> exactly when \<open>v\<close> units equal the written value; where no integer does, it raises.
\<close>

theorem parse_scaled_is_exact:
  assumes "match_decimal t = Some (neg, ip, fp)" and "length (ip @ fp) \<le> CONTEXT_PREC"
  shows "(parse_scaled t d = Inr v \<longleftrightarrow>
      v * 10 ^ length fp = (if neg then - 1 else 1) * int (digits_to_nat (ip @ fp)) * 10 ^ d) \<and>
    ((\<exists>e. parse_scaled t d = Inl e) \<longleftrightarrow>
      (\<nexists>w. w * 10 ^ length fp = (if neg then - 1 else 1) * int (digits_to_nat (ip @ fp)) * 10 ^ d))"
proof -
  have "(\<exists>e. parse_scaled t d = Inl e) \<longleftrightarrow> (\<nexists>w. parse_scaled t d = Inr w)"
    by (cases "parse_scaled t d") auto
  then show ?thesis using parse_scaled_exact [OF assms] by blast
qed

theorem parse_scaled_is_exact_witness:
  "match_decimal ''-12.505'' = Some (True, [1, 2], [5, 0, 5]) \<and>
   (parse_scaled ''-12.505'' 4 = Inr (-125050)) \<and> (\<exists>e. parse_scaled ''-12.505'' 2 = Inl e)"
proof -
  have m: "match_decimal ''-12.505'' = Some (True, [1, 2], [5, 0, 5])" by (simp add: parse_eval)
  have len: "length ([1, 2] @ [5, 0, 5 :: nat]) \<le> CONTEXT_PREC" by (simp add: CONTEXT_PREC_def)
  have n: "digits_to_nat ([1, 2] @ [5, 0, 5]) = 12505" by (simp add: digits_to_nat_def)
  have "parse_scaled ''-12.505'' 4 = Inr (-125050)"
    using parse_scaled_is_exact [OF m len, of 4 "-125050", THEN conjunct1] n by simp
  moreover have "\<nexists>w. w * 10 ^ length [5, 0, 5 :: nat] = (if True then - 1 else 1) *
      int (digits_to_nat ([1, 2] @ [5, 0, 5])) * 10 ^ 2"
    unfolding n by simp presburger
  then have "\<exists>e. parse_scaled ''-12.505'' 2 = Inl e"
    using parse_scaled_is_exact [OF m len, of 2 0, THEN conjunct2] by blast
  ultimately show ?thesis using m by blast
qed

text \<open>
  Beyond 28 significant digits parsing is not exact: a price above one dollar is accepted as
  one dollar, a count with a hundredth too many digits loses it, and a text with a trailing
  newline is accepted.
\<close>

theorem parse_beyond_precision:
  "parse_price ''1.00000000000000000000000000001'' = Inr PRICE_MAX \<and>
   parse_count ''100000000000000000000000000.01'' = Inr (10 ^ 28) \<and>
   parse_price (''0.5600'' @ [CHR 0x0A]) = Inr 5600"
proof -
  have m1: "match_decimal ''1.00000000000000000000000000001'' =
      Some (False, [1], [0, 0, 0, 0, 0, 0, 0, 0, 0, 0, 0, 0, 0, 0,
      0, 0, 0, 0, 0, 0, 0, 0, 0, 0, 0, 0, 0, 0, 1])"
    by (simp add: match_decimal_def is_digit_def digit_val_def)
  have n1: "ndigits 100000000000000000000000000001 = 30"
    by (rule ndigits_eqI) simp_all
  have "parse_price ''1.00000000000000000000000000001'' = Inr PRICE_MAX"
    by (simp add: parse_price_def parse_scaled_def m1 decimal_of_match_def dec_scaleb_def
        dec_fix_def n1 CONTEXT_PREC_def round_half_even_def dec_is_integral_def dec_int_def
        digits_to_nat_def PRICE_MAX_def PRICE_SCALE_def PRICE_DECIMALS_def)
  moreover
  have m2: "match_decimal ''100000000000000000000000000.01'' =
      Some (False, [1, 0, 0, 0, 0, 0, 0, 0, 0, 0, 0, 0, 0, 0, 0,
      0, 0, 0, 0, 0, 0, 0, 0, 0, 0, 0, 0], [0, 1])"
    by (simp add: match_decimal_def is_digit_def digit_val_def)
  have n2: "ndigits 10000000000000000000000000001 = 29"
    by (rule ndigits_eqI) simp_all
  have "parse_count ''100000000000000000000000000.01'' = Inr (10 ^ 28)"
    by (simp add: parse_count_def parse_scaled_def m2 decimal_of_match_def dec_scaleb_def
        dec_fix_def n2 CONTEXT_PREC_def round_half_even_def dec_is_integral_def dec_int_def
        digits_to_nat_def COUNT_DECIMALS_def)
  moreover have "parse_price (''0.5600'' @ [CHR 0x0A]) = Inr 5600"
    by (simp add: parse_eval)
  ultimately show ?thesis by simp
qed

end
