(* ===== verification/Timeutil.thy ===== *)
theory Timeutil
  imports Prelude
begin

text \<open>
  \<^verbatim>\<open>tape/timeutil.py\<close>: the units of time and the frozen clock. Reading the system clock is
  input: every operation that reads a clock takes the reading as an argument.
\<close>

definition NS_PER_MS :: int where "NS_PER_MS = 1000000"
definition NS_PER_S :: int where "NS_PER_S = 1000000000"
definition MS_PER_S :: int where "MS_PER_S = 1000"

definition ms_to_ns :: "int \<Rightarrow> int" where
  "ms_to_ns ms = ms * NS_PER_MS"

definition ns_to_ms :: "int \<Rightarrow> int" where
  "ns_to_ms ns = ns div NS_PER_MS"

definition s_to_ms :: "int \<Rightarrow> int" where
  "s_to_ms seconds = seconds * MS_PER_S"

record frozen_clock =
  fc_mono :: int
  fc_wall :: int

datatype clock_error = ClockBackwards

definition fc_advance :: "frozen_clock \<Rightarrow> int \<Rightarrow> clock_error + frozen_clock" where
  "fc_advance c delta_ns =
     (if delta_ns < 0 then Inl ClockBackwards
      else Inr (c\<lparr>fc_mono := fc_mono c + delta_ns, fc_wall := fc_wall c + delta_ns\<rparr>))"

lemma ns_to_ms_floor: "ms_to_ns (ns_to_ms ns) \<le> ns \<and> ns < ms_to_ns (ns_to_ms ns + 1)"
  by (simp add: ms_to_ns_def ns_to_ms_def NS_PER_MS_def) presburger

lemma ms_to_ns_to_ms [simp]: "ns_to_ms (ms_to_ns ms) = ms"
  by (simp add: ms_to_ns_def ns_to_ms_def NS_PER_MS_def)

lemma fc_advance_monotone:
  "fc_advance c d = Inr c' \<Longrightarrow> fc_mono c \<le> fc_mono c' \<and> fc_wall c' - fc_wall c = fc_mono c' - fc_mono c"
  by (auto simp: fc_advance_def split: if_splits)

end
