(* ===== verification/Events.thy ===== *)
theory Events
  imports Prelude
begin

text \<open>
  \<^verbatim>\<open>tape/events.py\<close>: the event structs shared by the recorder, the bus and the API, in the
  fixed-point form of \<^verbatim>\<open>tape.fixedpoint\<close> (prices, counts and times are \<open>int\<close>).
\<close>

datatype side = BID | ASK

fun side_int :: "side \<Rightarrow> int" where
  "side_int BID = 0"
| "side_int ASK = 1"

instantiation side :: linorder
begin

definition less_eq_side :: "side \<Rightarrow> side \<Rightarrow> bool" where
  "less_eq_side a b \<longleftrightarrow> side_int a \<le> side_int b"

definition less_side :: "side \<Rightarrow> side \<Rightarrow> bool" where
  "less_side a b \<longleftrightarrow> side_int a < side_int b"

instance
proof
  fix x y z :: side
  show "(x < y) = (x \<le> y \<and> \<not> y \<le> x)" by (auto simp: less_side_def less_eq_side_def)
  show "x \<le> x" by (simp add: less_eq_side_def)
  show "x \<le> y \<Longrightarrow> y \<le> z \<Longrightarrow> x \<le> z" by (simp add: less_eq_side_def)
  show "x \<le> y \<Longrightarrow> y \<le> x \<Longrightarrow> x = y" by (cases x; cases y) (simp_all add: less_eq_side_def)
  show "x \<le> y \<or> y \<le> x" by (auto simp: less_eq_side_def)
qed

end

lemma side_int_inject [simp]: "side_int a = side_int b \<longleftrightarrow> a = b"
  by (cases a; cases b) simp_all

lemma all_side: "(\<forall>s. P s) \<longleftrightarrow> P BID \<and> P ASK"
  by (metis side.exhaust)

record receipt =
  rc_conn_id :: int
  rc_recv_mono_ns :: int
  rc_recv_wall_ns :: int

datatype level = Level (lv_price: int) (lv_count: int)

record book_snapshot =
  bs_ticker :: string
  bs_ts_ms :: "int option"
  bs_receipt :: receipt
  bs_sid :: int
  bs_seq :: "int option"
  bs_bids :: "level list"
  bs_asks :: "level list"

record book_delta =
  bd_ticker :: string
  bd_ts_ms :: "int option"
  bd_receipt :: receipt
  bd_sid :: int
  bd_seq :: "int option"
  bd_side :: side
  bd_price :: int
  bd_delta :: int
  bd_own_client_order_id :: "string option"

record trade =
  tr_ticker :: string
  tr_ts_ms :: int
  tr_receipt :: receipt
  tr_sid :: int
  tr_seq :: "int option"
  tr_trade_id :: string
  tr_price :: int
  tr_count :: int
  tr_taker_side :: side
  tr_is_block :: bool

record ticker_event =
  tk_ticker :: string
  tk_ts_ms :: int
  tk_receipt :: receipt
  tk_sid :: int
  tk_last :: "int option"
  tk_bid :: "int option"
  tk_ask :: "int option"
  tk_bid_size :: "int option"
  tk_ask_size :: "int option"
  tk_volume :: int
  tk_open_interest :: int

record lifecycle =
  lc_ticker :: string
  lc_receipt :: receipt
  lc_sid :: int
  lc_seq :: "int option"
  lc_event_type :: string
  lc_payload_json :: string
  lc_close_ts :: "int option"

record book_refresh =
  br_ticker :: string
  br_ts_ms :: "int option"
  br_receipt :: receipt
  br_stale :: bool
  br_bids :: "level list"
  br_asks :: "level list"

record gap_event =
  ge_receipt :: receipt
  ge_sid :: int
  ge_expected_seq :: int
  ge_got_seq :: int

record catalog_entry =
  ce_ticker :: string
  ce_series_ticker :: string
  ce_event_ticker :: string
  ce_volume_24h :: int
  ce_close_ts :: "int option"
  ce_showcase :: bool

record connection_report =
  cr_conn_id :: int
  cr_taped :: bool
  cr_frames :: int
  cr_gaps :: int
  cr_reconnects :: int
  cr_stale_books :: int
  cr_sink_dropped :: int

record status_report =
  sr_interval_s :: int
  sr_universe_size :: int
  sr_subscribed_markets :: int
  sr_connections :: "connection_report list"

datatype bus_event =
    EvSnapshot book_snapshot
  | EvDelta book_delta
  | EvTrade trade
  | EvTicker ticker_event
  | EvLifecycle lifecycle
  | EvGap gap_event
  | EvRefresh book_refresh
  | EvCatalog "catalog_entry list"
  | EvStatus status_report

text \<open>A change a supervisor applies to a book: a snapshot or a delta.\<close>

datatype book_change = ChSnapshot book_snapshot | ChDelta book_delta

fun change_ticker :: "book_change \<Rightarrow> string" where
  "change_ticker (ChSnapshot s) = bs_ticker s"
| "change_ticker (ChDelta d) = bd_ticker d"

fun change_receipt :: "book_change \<Rightarrow> receipt" where
  "change_receipt (ChSnapshot s) = bs_receipt s"
| "change_receipt (ChDelta d) = bd_receipt d"

fun change_event :: "book_change \<Rightarrow> bus_event" where
  "change_event (ChSnapshot s) = EvSnapshot s"
| "change_event (ChDelta d) = EvDelta d"

end
