(* ===== verification/Book.thy ===== *)
theory Book
  imports Events "HOL-Library.Word"
begin

text \<open>
  \<^verbatim>\<open>tape/book/book.py\<close>: one market's order book in YES space, its operations, its 64-bit
  checksum, the comparison of two books, and keyframe rows. Every mutating method returns the
  book it leaves behind together with its outcome: a raised \<^verbatim>\<open>BookInvariantError\<close> is an error
  value, and the book beside it is the state the exception leaves.
\<close>

unbundle bit_operations_syntax

datatype book_error =
    CrossedSnapshot string int int
  | NonPositiveCount string side int
  | DuplicatePrice string side int
  | NegativeLevel string side int int int
  | CrossedAfterDelta string int int

record book =
  bk_ticker :: string
  bk_bids :: "(int, int) dict"
  bk_asks :: "(int, int) dict"
  bk_best_bid :: "int option"
  bk_best_ask :: "int option"
  bk_stale :: bool
  bk_last_ts_ms :: "int option"

definition new_book :: "string \<Rightarrow> book" where
  "new_book ticker =
     \<lparr>bk_ticker = ticker, bk_bids = [], bk_asks = [], bk_best_bid = None, bk_best_ask = None,
      bk_stale = True, bk_last_ts_ms = None\<rparr>"

section \<open>Mutation\<close>

fun side_levels :: "side \<Rightarrow> book \<Rightarrow> (int, int) dict" where
  "side_levels BID b = bk_bids b"
| "side_levels ASK b = bk_asks b"

fun set_side_levels :: "side \<Rightarrow> (int, int) dict \<Rightarrow> book \<Rightarrow> book" where
  "set_side_levels BID d b = b\<lparr>bk_bids := d\<rparr>"
| "set_side_levels ASK d b = b\<lparr>bk_asks := d\<rparr>"

fun collect_levels ::
  "string \<Rightarrow> side \<Rightarrow> level list \<Rightarrow> (int, int) dict \<Rightarrow> book_error + (int, int) dict" where
  "collect_levels ticker s [] out = Inr out"
| "collect_levels ticker s (l # ls) out =
     (if lv_count l \<le> 0 then Inl (NonPositiveCount ticker s (lv_price l))
      else if dict_get out (lv_price l) \<noteq> None then Inl (DuplicatePrice ticker s (lv_price l))
      else collect_levels ticker s ls (dict_put (lv_price l) (lv_count l) out))"

fun crossed :: "int option \<Rightarrow> int option \<Rightarrow> bool" where
  "crossed (Some bid) (Some ask) = (bid \<ge> ask)"
| "crossed _ _ = False"

definition mark_stale :: "book \<Rightarrow> book" where
  "mark_stale b = b\<lparr>bk_stale := True\<rparr>"

definition apply_snapshot ::
  "level list \<Rightarrow> level list \<Rightarrow> int option \<Rightarrow> book \<Rightarrow> book \<times> (book_error + unit)" where
  "apply_snapshot bids asks ts_ms b =
     (case collect_levels (bk_ticker b) BID bids [] of
        Inl e \<Rightarrow> (mark_stale b, Inl e)
      | Inr new_bids \<Rightarrow>
     (case collect_levels (bk_ticker b) ASK asks [] of
        Inl e \<Rightarrow> (mark_stale b, Inl e)
      | Inr new_asks \<Rightarrow>
          (let best_bid = opt_max (dict_keys new_bids); best_ask = opt_min (dict_keys new_asks)
           in if crossed best_bid best_ask then
                (mark_stale b, Inl (CrossedSnapshot (bk_ticker b) (the best_bid) (the best_ask)))
              else
                (b\<lparr>bk_bids := new_bids, bk_asks := new_asks, bk_best_bid := best_bid,
                   bk_best_ask := best_ask, bk_stale := False, bk_last_ts_ms := ts_ms\<rparr>,
                 Inr ()))))"

fun raise_best_if_better :: "side \<Rightarrow> int \<Rightarrow> book \<Rightarrow> book" where
  "raise_best_if_better BID price b =
     (case bk_best_bid b of
        None \<Rightarrow> b\<lparr>bk_best_bid := Some price\<rparr>
      | Some best \<Rightarrow> if price > best then b\<lparr>bk_best_bid := Some price\<rparr> else b)"
| "raise_best_if_better ASK price b =
     (case bk_best_ask b of
        None \<Rightarrow> b\<lparr>bk_best_ask := Some price\<rparr>
      | Some best \<Rightarrow> if price < best then b\<lparr>bk_best_ask := Some price\<rparr> else b)"

fun drop_best_if_removed :: "side \<Rightarrow> int \<Rightarrow> book \<Rightarrow> book" where
  "drop_best_if_removed BID price b =
     (if bk_best_bid b = Some price then b\<lparr>bk_best_bid := opt_max (dict_keys (bk_bids b))\<rparr> else b)"
| "drop_best_if_removed ASK price b =
     (if bk_best_ask b = Some price then b\<lparr>bk_best_ask := opt_min (dict_keys (bk_asks b))\<rparr> else b)"

definition change_level :: "side \<Rightarrow> int \<Rightarrow> int \<Rightarrow> book \<Rightarrow> book" where
  "change_level s price updated b =
     (if updated = 0
      then drop_best_if_removed s price (set_side_levels s (dict_pop price (side_levels s b)) b)
      else raise_best_if_better s price (set_side_levels s (dict_put price updated (side_levels s b)) b))"

definition apply_delta ::
  "side \<Rightarrow> int \<Rightarrow> int \<Rightarrow> int option \<Rightarrow> book \<Rightarrow> book \<times> (book_error + bool)" where
  "apply_delta s price delta ts_ms b =
     (if bk_stale b then (b, Inr False)
      else
        (let current = dict_get_or (side_levels s b) price 0; updated = current + delta
         in if updated < 0 then
              (mark_stale b, Inl (NegativeLevel (bk_ticker b) s price current delta))
            else
              (let b1 = change_level s price updated b
               in if crossed (bk_best_bid b1) (bk_best_ask b1) then
                    (mark_stale b1, Inl (CrossedAfterDelta (bk_ticker b) (the (bk_best_bid b1))
                                          (the (bk_best_ask b1))))
                  else
                    ((case ts_ms of None \<Rightarrow> b1 | Some t \<Rightarrow> b1\<lparr>bk_last_ts_ms := Some t\<rparr>), Inr True))))"

section \<open>Queries\<close>

definition is_stale :: "book \<Rightarrow> bool" where
  "is_stale b = bk_stale b"

text \<open>Python's lookup of the best level raises a KeyError when the pointer names no level.\<close>

datatype key_error = KeyError int

definition best_of :: "int option \<Rightarrow> (int, int) dict \<Rightarrow> key_error + level option" where
  "best_of best d =
     (case best of
        None \<Rightarrow> Inr None
      | Some p \<Rightarrow> (case dict_get d p of None \<Rightarrow> Inl (KeyError p) | Some c \<Rightarrow> Inr (Some (Level p c))))"

definition best_bid :: "book \<Rightarrow> key_error + level option" where
  "best_bid b = best_of (bk_best_bid b) (bk_bids b)"

definition best_ask :: "book \<Rightarrow> key_error + level option" where
  "best_ask b = best_of (bk_best_ask b) (bk_asks b)"

definition size_at :: "side \<Rightarrow> int \<Rightarrow> book \<Rightarrow> int" where
  "size_at s price b = dict_get_or (side_levels s b) price 0"

fun levels :: "side \<Rightarrow> book \<Rightarrow> level list" where
  "levels BID b = map (\<lambda>(p, c). Level p c) (rev (sort (bk_bids b)))"
| "levels ASK b = map (\<lambda>(p, c). Level p c) (sort (bk_asks b))"

datatype depth_error = NegativeDepth

definition depth :: "side \<Rightarrow> int \<Rightarrow> book \<Rightarrow> depth_error + level list" where
  "depth s n b = (if n < 0 then Inl NegativeDepth else Inr (take (nat n) (levels s b)))"

definition level_count :: "side \<Rightarrow> book \<Rightarrow> nat" where
  "level_count s b = length (side_levels s b)"

section \<open>Checksum\<close>

definition xorshift :: "nat \<Rightarrow> 64 word \<Rightarrow> 64 word" where
  "xorshift k v = v XOR drop_bit k v"

definition mix64 :: "64 word \<Rightarrow> 64 word" where
  "mix64 v = xorshift 31 (xorshift 27 (xorshift 30 v * 0xBF58476D1CE4E5B9) * 0x94D049BB133111EB)"

definition level_key :: "side \<Rightarrow> int \<Rightarrow> int \<Rightarrow> 64 word" where
  "level_key s price cnt =
     push_bit 63 (word_of_int (side_int s)) OR push_bit 44 (word_of_int price AND 0x7FFFF)
       OR (word_of_int cnt AND mask 44)"

definition checksum :: "book \<Rightarrow> int" where
  "checksum b =
     uint ((\<Sum>(p, c)\<leftarrow>bk_bids b. mix64 (level_key BID p c)) +
           (\<Sum>(p, c)\<leftarrow>bk_asks b. mix64 (level_key ASK p c)))"

section \<open>Comparison\<close>

record level_diff =
  ld_side :: side
  ld_price :: int
  ld_count_a :: int
  ld_count_b :: int

datatype diff_error = DifferentTickers string string

definition levels_dict :: "level list \<Rightarrow> (int, int) dict" where
  "levels_dict ls = fold (\<lambda>l d. dict_put (lv_price l) (lv_count l) d) ls []"

definition diff_side :: "side \<Rightarrow> book \<Rightarrow> book \<Rightarrow> level_diff list" where
  "diff_side s a b =
     (let levels_a = levels_dict (levels s a);
          levels_b = levels_dict (levels s b);
          prices = sorted_list_of_set (set (dict_keys levels_a) \<union> set (dict_keys levels_b))
      in concat (map (\<lambda>price.
           (let count_a = dict_get_or levels_a price 0; count_b = dict_get_or levels_b price 0
            in if count_a \<noteq> count_b
               then [\<lparr>ld_side = s, ld_price = price, ld_count_a = count_a, ld_count_b = count_b\<rparr>]
               else [])) prices))"

definition diff :: "book \<Rightarrow> book \<Rightarrow> diff_error + level_diff list" where
  "diff a b =
     (if bk_ticker a \<noteq> bk_ticker b then Inl (DifferentTickers (bk_ticker a) (bk_ticker b))
      else Inr (diff_side BID a b @ diff_side ASK a b))"

section \<open>Keyframes\<close>

record keyframe_row =
  kf_ticker :: string
  kf_side :: int
  kf_price_e4 :: int
  kf_count_e2 :: int
  kf_as_of_recv_ns :: int
  kf_last_ts_ms :: "int option"
  kf_stale :: bool

definition EMPTY_SIDE :: int where "EMPTY_SIDE = -1"

definition keyframe_row_of :: "book \<Rightarrow> int \<Rightarrow> int \<Rightarrow> int \<Rightarrow> int \<Rightarrow> keyframe_row" where
  "keyframe_row_of b as_of s price cnt =
     \<lparr>kf_ticker = bk_ticker b, kf_side = s, kf_price_e4 = price, kf_count_e2 = cnt,
      kf_as_of_recv_ns = as_of, kf_last_ts_ms = bk_last_ts_ms b, kf_stale = bk_stale b\<rparr>"

definition to_keyframe :: "book \<Rightarrow> int \<Rightarrow> keyframe_row list" where
  "to_keyframe b as_of =
     (let rows = map (\<lambda>(p, c). keyframe_row_of b as_of (side_int BID) p c) (bk_bids b) @
                 map (\<lambda>(p, c). keyframe_row_of b as_of (side_int ASK) p c) (bk_asks b)
      in if rows = [] then [keyframe_row_of b as_of EMPTY_SIDE 0 0] else rows)"

definition group_rows :: "keyframe_row list \<Rightarrow> (string, keyframe_row list) dict" where
  "group_rows rows =
     fold (\<lambda>r g. dict_put (kf_ticker r) (dict_get_or g (kf_ticker r) [] @ [r]) g) rows []"

definition rows_side :: "side \<Rightarrow> keyframe_row list \<Rightarrow> level list" where
  "rows_side s rows =
     map (\<lambda>r. Level (kf_price_e4 r) (kf_count_e2 r)) (filter (\<lambda>r. kf_side r = side_int s) rows)"

definition book_of_rows :: "string \<Rightarrow> keyframe_row list \<Rightarrow> book_error + book" where
  "book_of_rows ticker rows =
     (case apply_snapshot (rows_side BID rows) (rows_side ASK rows)
             (kf_last_ts_ms (hd rows)) (new_book ticker) of
        (_, Inl e) \<Rightarrow> Inl e
      | (b, Inr _) \<Rightarrow> Inr (if kf_stale (hd rows) then mark_stale b else b))"

fun books_of_groups ::
  "(string, keyframe_row list) dict \<Rightarrow> (string, book) dict \<Rightarrow> book_error + (string, book) dict" where
  "books_of_groups [] books = Inr books"
| "books_of_groups ((ticker, rows) # gs) books =
     result_bind (book_of_rows ticker rows) (\<lambda>b. books_of_groups gs (dict_put ticker b books))"

definition books_from_keyframe_rows :: "keyframe_row list \<Rightarrow> book_error + (string, book) dict" where
  "books_from_keyframe_rows rows = books_of_groups (group_rows rows) []"

section \<open>The book invariant\<close>

definition counts_positive :: "(int, int) dict \<Rightarrow> bool" where
  "counts_positive d \<longleftrightarrow> (\<forall>x\<in>set d. 0 < snd x)"

definition wf_book :: "book \<Rightarrow> bool" where
  "wf_book b \<longleftrightarrow>
     dict_wf (bk_bids b) \<and> dict_wf (bk_asks b) \<and>
     counts_positive (bk_bids b) \<and> counts_positive (bk_asks b) \<and>
     bk_best_bid b = opt_max (dict_keys (bk_bids b)) \<and>
     bk_best_ask b = opt_min (dict_keys (bk_asks b)) \<and>
     (\<not> bk_stale b \<longrightarrow> \<not> crossed (bk_best_bid b) (bk_best_ask b))"

abbreviation level_pair :: "level \<Rightarrow> int \<times> int" where
  "level_pair l \<equiv> (lv_price l, lv_count l)"

lemma dict_put_new: "k \<notin> set (dict_keys d) \<Longrightarrow> dict_put k v d = d @ [(k, v)]"
  by (induction d) auto

lemma dict_get_None_iff: "dict_get d k = None \<longleftrightarrow> k \<notin> set (dict_keys d)"
  by (simp add: map_of_eq_None_iff)

lemma collect_levels_iff:
  "collect_levels t s ls out = Inr d \<longleftrightarrow>
     (\<forall>l\<in>set ls. 0 < lv_count l) \<and> distinct (map lv_price ls) \<and>
     set (map lv_price ls) \<inter> set (dict_keys out) = {} \<and> d = out @ map level_pair ls"
proof (induction ls arbitrary: out)
  case Nil
  then show ?case by auto
next
  case (Cons l ls)
  show ?case
  proof (cases "lv_count l \<le> 0 \<or> lv_price l \<in> set (dict_keys out)")
    case True
    then show ?thesis by (auto simp: dict_get_None_iff)
  next
    case False
    then have "dict_put (lv_price l) (lv_count l) out = out @ [level_pair l]"
      by (simp add: dict_put_new)
    with False Cons [of "out @ [level_pair l]"] show ?thesis
      by (auto simp: dict_get_None_iff)
  qed
qed

lemma collect_levels_empty_iff:
  "collect_levels t s ls [] = Inr d \<longleftrightarrow>
     (\<forall>l\<in>set ls. 0 < lv_count l) \<and> distinct (map lv_price ls) \<and> d = map level_pair ls"
  by (simp add: collect_levels_iff)

lemma dict_keys_level_pair [simp]: "dict_keys (map level_pair ls) = map lv_price ls"
  by simp

lemma collected_wf:
  "collect_levels t s ls [] = Inr d \<Longrightarrow> dict_wf d \<and> counts_positive d"
  by (auto simp: collect_levels_empty_iff dict_wf_def counts_positive_def comp_def)

lemma counts_positive_put: "0 < v \<Longrightarrow> counts_positive d \<Longrightarrow> counts_positive (dict_put k v d)"
  by (induction d) (auto simp: counts_positive_def)

lemma counts_positive_single [simp]: "counts_positive [(k, v)] \<longleftrightarrow> 0 < v"
  by (simp add: counts_positive_def)

lemma counts_positive_pop: "counts_positive d \<Longrightarrow> counts_positive (dict_pop k d)"
  by (auto simp: counts_positive_def AList.delete_eq)

lemma wf_book_new [wf_intros]: "wf_book (new_book t)"
  by (simp add: wf_book_def new_book_def counts_positive_def)

lemma wf_book_mark_stale [wf_intros]: "wf_book b \<Longrightarrow> wf_book (mark_stale b)"
  by (simp add: wf_book_def mark_stale_def)

lemma wf_book_apply_snapshot [wf_intros]:
  "wf_book b \<Longrightarrow> wf_book (fst (apply_snapshot bids asks ts b))"
  using collected_wf [of "bk_ticker b" BID bids] collected_wf [of "bk_ticker b" ASK asks]
  by (auto simp: apply_snapshot_def Let_def wf_book_mark_stale wf_book_def mark_stale_def
      split: sum.splits)

section \<open>Cached best pointers\<close>

lemma opt_max_insert:
  "opt_max xs = m \<Longrightarrow> set ys = insert x (set xs) \<Longrightarrow>
   opt_max ys = (case m of None \<Rightarrow> Some x | Some b \<Rightarrow> if x > b then Some x else Some b)"
  by (cases m) (auto simp: opt_max_Some_iff)

lemma opt_min_insert:
  "opt_min xs = m \<Longrightarrow> set ys = insert x (set xs) \<Longrightarrow>
   opt_min ys = (case m of None \<Rightarrow> Some x | Some b \<Rightarrow> if x < b then Some x else Some b)"
  by (cases m) (auto simp: opt_min_Some_iff)

lemma opt_max_remove:
  "opt_max xs \<noteq> Some x \<Longrightarrow> set ys = set xs - {x} \<Longrightarrow> opt_max ys = opt_max xs"
  using opt_max_Some_iff [of xs] opt_max_Some_iff [of ys] by (cases "opt_max xs") auto

lemma opt_min_remove:
  "opt_min xs \<noteq> Some x \<Longrightarrow> set ys = set xs - {x} \<Longrightarrow> opt_min ys = opt_min xs"
  using opt_min_Some_iff [of xs] opt_min_Some_iff [of ys] by (cases "opt_min xs") auto

lemma keys_put_set: "set (dict_keys (dict_put k v d)) = insert k (set (dict_keys d))"
  by (induction d) auto

lemma keys_pop_set: "set (dict_keys (dict_pop k d)) = set (dict_keys d) - {k}"
  by (auto simp: AList.delete_eq)

text \<open>The invariant apart from crossing, which holds between the two writes of a delta.\<close>

definition wf_levels :: "book \<Rightarrow> bool" where
  "wf_levels b \<longleftrightarrow>
     dict_wf (bk_bids b) \<and> dict_wf (bk_asks b) \<and>
     counts_positive (bk_bids b) \<and> counts_positive (bk_asks b) \<and>
     bk_best_bid b = opt_max (dict_keys (bk_bids b)) \<and>
     bk_best_ask b = opt_min (dict_keys (bk_asks b))"

lemma wf_book_levels:
  "wf_book b \<longleftrightarrow> wf_levels b \<and> (\<not> bk_stale b \<longrightarrow> \<not> crossed (bk_best_bid b) (bk_best_ask b))"
  by (auto simp: wf_book_def wf_levels_def)

lemma wf_levels_change_level:
  assumes "wf_levels b" "0 \<le> updated"
  shows "wf_levels (change_level s price updated b)"
proof (cases "updated = 0")
  case True
  then show ?thesis
    using assms(1) opt_max_remove [OF _ keys_pop_set [of price "bk_bids b"]]
      opt_min_remove [OF _ keys_pop_set [of price "bk_asks b"]]
    by (cases s) (auto simp: change_level_def wf_levels_def counts_positive_pop)
next
  case False
  with assms have "0 < updated" by simp
  then show ?thesis
    using assms(1) opt_max_insert [OF refl keys_put_set [of price updated "bk_bids b"]]
      opt_min_insert [OF refl keys_put_set [of price updated "bk_asks b"]]
    by (cases s) (auto simp: change_level_def wf_levels_def counts_positive_put split: option.splits)
qed

lemma change_level_stale [simp]: "bk_stale (change_level s p u b) = bk_stale b"
  by (cases s) (auto simp: change_level_def split: option.splits)

lemma change_level_ticker [simp]: "bk_ticker (change_level s p u b) = bk_ticker b"
  by (cases s) (auto simp: change_level_def split: option.splits)

lemma wf_levels_frame [simp]:
  "wf_levels (b\<lparr>bk_stale := x\<rparr>) = wf_levels b" "wf_levels (b\<lparr>bk_last_ts_ms := t\<rparr>) = wf_levels b"
  by (simp_all add: wf_levels_def)

lemma wf_book_apply_delta [wf_intros]:
  "wf_book b \<Longrightarrow> wf_book (fst (apply_delta s price delta ts b))"
  using wf_levels_change_level [of b "dict_get_or (side_levels s b) price 0 + delta" s price]
  by (auto simp: apply_delta_def Let_def wf_book_levels mark_stale_def split: option.splits)

section \<open>Sizes: the abstract book\<close>

text \<open>
  The abstraction of a book: whether it is stale, and the resting count at every price of
  either side, zero where no level exists. The abstract operations say what a snapshot and a
  delta do to it, with no pointers, dictionaries or orders.
\<close>

record abs_book =
  ab_stale :: bool
  ab_size :: "side \<Rightarrow> int \<Rightarrow> int"

definition abs_of :: "book \<Rightarrow> abs_book" where
  "abs_of b = \<lparr>ab_stale = bk_stale b, ab_size = (\<lambda>s p. size_at s p b)\<rparr>"

definition abs_crossed :: "(side \<Rightarrow> int \<Rightarrow> int) \<Rightarrow> bool" where
  "abs_crossed sz \<longleftrightarrow> (\<exists>p q. 0 < sz BID p \<and> 0 < sz ASK q \<and> q \<le> p)"

definition size_of_levels :: "level list \<Rightarrow> int \<Rightarrow> int" where
  "size_of_levels ls p = dict_get_or (map level_pair ls) p 0"

definition valid_levels :: "level list \<Rightarrow> bool" where
  "valid_levels ls \<longleftrightarrow> (\<forall>l\<in>set ls. 0 < lv_count l) \<and> distinct (map lv_price ls)"

definition levels_sizes :: "level list \<Rightarrow> level list \<Rightarrow> side \<Rightarrow> int \<Rightarrow> int" where
  "levels_sizes bids asks s p = size_of_levels (case s of BID \<Rightarrow> bids | ASK \<Rightarrow> asks) p"

definition valid_image :: "level list \<Rightarrow> level list \<Rightarrow> bool" where
  "valid_image bids asks \<longleftrightarrow>
     valid_levels bids \<and> valid_levels asks \<and> \<not> abs_crossed (levels_sizes bids asks)"

definition abs_snapshot :: "level list \<Rightarrow> level list \<Rightarrow> abs_book \<Rightarrow> abs_book" where
  "abs_snapshot bids asks a =
     (if valid_image bids asks then \<lparr>ab_stale = False, ab_size = levels_sizes bids asks\<rparr>
      else a\<lparr>ab_stale := True\<rparr>)"

definition abs_update :: "(side \<Rightarrow> int \<Rightarrow> int) \<Rightarrow> side \<Rightarrow> int \<Rightarrow> int \<Rightarrow> side \<Rightarrow> int \<Rightarrow> int" where
  "abs_update sz s p v = sz(s := (sz s)(p := v))"

definition abs_delta :: "side \<Rightarrow> int \<Rightarrow> int \<Rightarrow> abs_book \<Rightarrow> abs_book" where
  "abs_delta s p delta a =
     (if ab_stale a then a
      else if ab_size a s p + delta < 0 then a\<lparr>ab_stale := True\<rparr>
      else (let sz = abs_update (ab_size a) s p (ab_size a s p + delta)
            in \<lparr>ab_stale = abs_crossed sz, ab_size = sz\<rparr>))"

lemma dict_get_or_pos_iff:
  "dict_wf d \<Longrightarrow> counts_positive d \<Longrightarrow> 0 < dict_get_or d p 0 \<longleftrightarrow> p \<in> set (dict_keys d)"
  by (cases "dict_get d p")
    (auto simp: dict_get_or_def dict_get_None_iff counts_positive_def map_of_eq_None_iff
      dest!: map_of_SomeD intro: rev_image_eqI split: option.splits)

lemma size_at_nonneg: "wf_levels b \<Longrightarrow> 0 \<le> size_at s p b"
  by (cases s; cases "dict_get (side_levels s b) p")
    (auto simp: size_at_def dict_get_or_def wf_levels_def counts_positive_def dest!: map_of_SomeD
      intro: order_less_imp_le)

lemma size_at_pos_iff: "wf_levels b \<Longrightarrow> 0 < size_at s p b \<longleftrightarrow> p \<in> set (dict_keys (side_levels s b))"
  by (cases s) (simp_all add: size_at_def wf_levels_def dict_get_or_pos_iff)

lemma crossed_iff:
  assumes "wf_levels b"
  shows "crossed (bk_best_bid b) (bk_best_ask b) \<longleftrightarrow> abs_crossed (\<lambda>s p. size_at s p b)"
proof -
  have iff: "crossed (opt_max xs) (opt_min ys) \<longleftrightarrow> (\<exists>p\<in>set xs. \<exists>q\<in>set ys. q \<le> p)"
    for xs ys :: "int list"
  proof (cases "opt_max xs"; cases "opt_min ys")
    fix m n assume "opt_max xs = Some m" "opt_min ys = Some n"
    then have "m \<in> set xs" "\<forall>x\<in>set xs. x \<le> m" "n \<in> set ys" "\<forall>x\<in>set ys. n \<le> x"
      by (simp_all add: opt_max_Some_iff opt_min_Some_iff)
    moreover have "crossed (opt_max xs) (opt_min ys) \<longleftrightarrow> n \<le> m"
      using \<open>opt_max xs = Some m\<close> \<open>opt_min ys = Some n\<close> by simp
    ultimately show ?thesis by (meson order_trans)
  qed (auto simp: opt_max_def opt_min_def split: if_splits)
  show ?thesis
    using assms by (simp add: abs_crossed_def size_at_pos_iff iff wf_levels_def Bex_def)
qed

lemma size_at_change_level:
  "0 \<le> u \<Longrightarrow> size_at s' p' (change_level s p u b) = abs_update (\<lambda>s p. size_at s p b) s p u s' p'"
  by (cases s; cases s')
    (auto simp: size_at_def change_level_def abs_update_def dict_simps dict_get_or_def
      split: option.splits)

lemma size_at_frame [simp]:
  "size_at s p (b\<lparr>bk_stale := x\<rparr>) = size_at s p b" "size_at s p (b\<lparr>bk_last_ts_ms := t\<rparr>) = size_at s p b"
  by (cases s; simp add: size_at_def)+

lemma size_at_mark_stale [simp]: "size_at s p (mark_stale b) = size_at s p b"
  by (simp add: mark_stale_def)

lemma abs_of_mark_stale: "abs_of (mark_stale b) = (abs_of b)\<lparr>ab_stale := True\<rparr>"
  by (simp add: abs_of_def mark_stale_def)

lemma abs_of_apply_delta:
  assumes "wf_book b"
  shows "abs_of (fst (apply_delta s p delta ts b)) = abs_delta s p delta (abs_of b)"
proof (cases "bk_stale b \<or> size_at s p b + delta < 0")
  case True
  then show ?thesis
    by (auto simp: apply_delta_def abs_delta_def Let_def abs_of_def mark_stale_def
        simp flip: size_at_def)
next
  case False
  let ?u = "size_at s p b + delta"
  let ?b1 = "change_level s p ?u b"
  have wf: "wf_levels ?b1"
    using False assms by (simp add: wf_levels_change_level wf_book_levels)
  have size: "(\<lambda>s' p'. size_at s' p' ?b1) = abs_update (\<lambda>s p. size_at s p b) s p ?u"
    using False by (intro ext) (simp add: size_at_change_level)
  show ?thesis
    using False crossed_iff [OF wf]
    by (auto simp: apply_delta_def abs_delta_def Let_def abs_of_def mark_stale_def size
        simp flip: size_at_def split: option.splits)
qed

text \<open>What an applied delta and an accepted snapshot are.\<close>

lemma apply_delta_applied_iff:
  assumes "wf_book b"
  shows "snd (apply_delta s p delta ts b) = Inr True \<longleftrightarrow>
    \<not> bk_stale b \<and> 0 \<le> size_at s p b + delta \<and>
    \<not> abs_crossed (abs_update (\<lambda>s p. size_at s p b) s p (size_at s p b + delta))"
proof (cases "bk_stale b \<or> size_at s p b + delta < 0")
  case True
  then show ?thesis by (auto simp: apply_delta_def Let_def simp flip: size_at_def)
next
  case False
  let ?u = "size_at s p b + delta"
  have wf: "wf_levels (change_level s p ?u b)"
    using False assms by (simp add: wf_levels_change_level wf_book_levels)
  have size: "(\<lambda>s' p'. size_at s' p' (change_level s p ?u b)) = abs_update (\<lambda>s p. size_at s p b) s p ?u"
    using False by (intro ext) (simp add: size_at_change_level)
  show ?thesis
    using False crossed_iff [OF wf] by (auto simp: apply_delta_def Let_def size simp flip: size_at_def)
qed

lemma valid_levels_collect: "valid_levels ls \<longleftrightarrow> (\<exists>d. collect_levels t s ls [] = Inr d)"
  by (simp add: valid_levels_def collect_levels_empty_iff)

lemma collect_valid: "valid_levels ls \<Longrightarrow> collect_levels t s ls [] = Inr (map level_pair ls)"
  by (simp add: valid_levels_def collect_levels_empty_iff)

lemma collect_invalid: "\<not> valid_levels ls \<Longrightarrow> \<exists>e. collect_levels t s ls [] = Inl e"
  using valid_levels_collect [of ls t s] by (cases "collect_levels t s ls []") auto

definition image_book :: "level list \<Rightarrow> level list \<Rightarrow> int option \<Rightarrow> book \<Rightarrow> book" where
  "image_book bids asks ts b =
     b\<lparr>bk_bids := map level_pair bids, bk_asks := map level_pair asks,
       bk_best_bid := opt_max (map lv_price bids), bk_best_ask := opt_min (map lv_price asks),
       bk_stale := False, bk_last_ts_ms := ts\<rparr>"

lemma wf_levels_image:
  "valid_levels bids \<Longrightarrow> valid_levels asks \<Longrightarrow> wf_levels (image_book bids asks ts b)"
  by (auto simp: wf_levels_def image_book_def valid_levels_def dict_wf_def counts_positive_def comp_def)

lemma size_at_image: "size_at s p (image_book bids asks ts b) = levels_sizes bids asks s p"
  by (cases s) (simp_all add: size_at_def image_book_def levels_sizes_def size_of_levels_def)

lemma apply_snapshot_collected:
  assumes "valid_levels bids" "valid_levels asks"
  shows "apply_snapshot bids asks ts b =
    (if abs_crossed (levels_sizes bids asks) then
       (mark_stale b, Inl (CrossedSnapshot (bk_ticker b) (the (opt_max (map lv_price bids)))
                             (the (opt_min (map lv_price asks)))))
     else (image_book bids asks ts b, Inr ()))"
proof -
  have "crossed (opt_max (map lv_price bids)) (opt_min (map lv_price asks)) \<longleftrightarrow>
      abs_crossed (\<lambda>s p. size_at s p (image_book bids asks ts b))"
    using crossed_iff [OF wf_levels_image [OF assms], of ts b] by (simp add: image_book_def)
  then have "crossed (opt_max (map lv_price bids)) (opt_min (map lv_price asks)) \<longleftrightarrow>
      abs_crossed (levels_sizes bids asks)"
    by (simp add: size_at_image)
  then show ?thesis
    using assms by (simp add: apply_snapshot_def collect_valid Let_def comp_def image_book_def)
qed

lemma apply_snapshot_valid:
  "valid_image bids asks \<Longrightarrow> apply_snapshot bids asks ts b = (image_book bids asks ts b, Inr ())"
  by (simp add: valid_image_def apply_snapshot_collected)

lemma apply_snapshot_invalid:
  assumes "\<not> valid_image bids asks"
  shows "\<exists>e. apply_snapshot bids asks ts b = (mark_stale b, Inl e)"
proof (cases "valid_levels bids \<and> valid_levels asks")
  case True
  then show ?thesis using assms by (simp add: valid_image_def apply_snapshot_collected)
next
  case False
  then show ?thesis
    using collect_invalid [of bids "bk_ticker b" BID] collect_invalid [of asks "bk_ticker b" ASK]
    by (cases "valid_levels bids") (auto simp: apply_snapshot_def collect_valid)
qed

lemma abs_of_apply_snapshot:
  "abs_of (fst (apply_snapshot bids asks ts b)) = abs_snapshot bids asks (abs_of b)"
proof (cases "valid_image bids asks")
  case True
  then show ?thesis
    by (simp add: apply_snapshot_valid abs_snapshot_def abs_of_def size_at_image)
      (simp add: image_book_def)
next
  case False
  then show ?thesis
    using apply_snapshot_invalid [OF False, of ts b] by (auto simp: abs_snapshot_def abs_of_mark_stale)
qed

section \<open>Runs of operations\<close>

datatype book_op =
    OpSnapshot "level list" "level list" "int option"
  | OpDelta side int int "int option"
  | OpMarkStale

fun book_step :: "book_op \<Rightarrow> book \<Rightarrow> book" where
  "book_step (OpSnapshot bids asks ts) b = fst (apply_snapshot bids asks ts b)"
| "book_step (OpDelta s p d ts) b = fst (apply_delta s p d ts b)"
| "book_step OpMarkStale b = mark_stale b"

fun abs_step :: "book_op \<Rightarrow> abs_book \<Rightarrow> abs_book" where
  "abs_step (OpSnapshot bids asks ts) a = abs_snapshot bids asks a"
| "abs_step (OpDelta s p d ts) a = abs_delta s p d a"
| "abs_step OpMarkStale a = a\<lparr>ab_stale := True\<rparr>"

definition book_run :: "book_op list \<Rightarrow> book \<Rightarrow> book" where
  "book_run ops b = fold book_step ops b"

definition abs_init :: abs_book where
  "abs_init = \<lparr>ab_stale = True, ab_size = (\<lambda>s p. 0)\<rparr>"

lemma wf_book_step [wf_intros]: "wf_book b \<Longrightarrow> wf_book (book_step op b)"
  by (cases op) (simp_all add: wf_intros)

lemma abs_of_step: "wf_book b \<Longrightarrow> abs_of (book_step op b) = abs_step op (abs_of b)"
  by (cases op) (simp_all add: abs_of_apply_snapshot abs_of_apply_delta abs_of_mark_stale)

lemma book_run_simulation:
  "wf_book b \<Longrightarrow> wf_book (book_run ops b) \<and> abs_of (book_run ops b) = fold abs_step ops (abs_of b)"
  by (induction ops arbitrary: b) (simp_all add: book_run_def wf_book_step abs_of_step)

lemma abs_of_new: "abs_of (new_book t) = abs_init"
  by (auto simp: abs_of_def abs_init_def new_book_def size_at_def dict_get_or_def fun_eq_iff all_side)

section \<open>What the queries return\<close>

lemma dict_get_size:
  assumes "wf_levels b"
  shows "dict_get (side_levels s b) p = (if size_at s p b = 0 then None else Some (size_at s p b))"
proof (cases "dict_get (side_levels s b) p")
  case None
  then show ?thesis by (simp add: size_at_def dict_get_or_def)
next
  case (Some v)
  then have "(p, v) \<in> set (side_levels s b)" by (rule map_of_SomeD)
  with assms have "0 < v" by (cases s) (auto simp: wf_levels_def counts_positive_def)
  with Some show ?thesis by (simp add: size_at_def dict_get_or_def)
qed

lemma wf_levels_side: "wf_levels b \<Longrightarrow> dict_wf (side_levels s b) \<and> counts_positive (side_levels s b)"
  by (cases s) (simp_all add: wf_levels_def)

lemma side_levels_mset:
  assumes "wf_levels a" "wf_levels b" "\<And>p. size_at s p a = size_at s p b"
  shows "mset (side_levels s a) = mset (side_levels s b)"
  by (rule dict_eq_mset)
    (use assms wf_levels_side in \<open>auto simp: dict_get_size fun_eq_iff\<close>)

lemma sort_mset: "mset xs = mset ys \<Longrightarrow> sort xs = sort (ys :: 'a::linorder list)"
  by (rule properties_for_sort) simp_all

lemma levels_eq:
  "levels s b = map (\<lambda>(p, c). Level p c)
     ((if s = BID then rev else id) (sort (side_levels s b)))"
  by (cases s) simp_all

lemma levels_cong:
  assumes "wf_levels a" "wf_levels b" "\<And>p. size_at s p a = size_at s p b"
  shows "levels s a = levels s b"
proof -
  have "sort (side_levels s a) = sort (side_levels s b)"
    by (rule sort_mset) (rule side_levels_mset [OF assms])
  then show ?thesis by (simp only: levels_eq)
qed

lemma level_count_cong:
  assumes "wf_levels a" "wf_levels b" "\<And>p. size_at s p a = size_at s p b"
  shows "level_count s a = level_count s b"
  using side_levels_mset [OF assms] unfolding level_count_def by (rule mset_eq_length)

lemma set_levels: "set (levels s b) = (\<lambda>(p, c). Level p c) ` set (side_levels s b)"
  by (auto simp: levels_eq)

lemma mset_levels: "image_mset level_pair (mset (levels s b)) = mset (side_levels s b)"
  by (simp add: levels_eq image_mset.compositionality comp_def case_prod_unfold)

lemma levels_mem_iff:
  assumes "wf_levels b"
  shows "Level p c \<in> set (levels s b) \<longleftrightarrow> c \<noteq> 0 \<and> c = size_at s p b"
proof -
  have "Level p c \<in> set (levels s b) \<longleftrightarrow> dict_get (side_levels s b) p = Some c"
    using wf_levels_side [OF assms] by (auto simp: set_levels dict_mem_get intro: rev_image_eqI)
  then show ?thesis by (auto simp: dict_get_size [OF assms])
qed

definition best_first :: "side \<Rightarrow> level list \<Rightarrow> bool" where
  "best_first s ls \<longleftrightarrow>
     sorted_wrt (\<lambda>l m. case s of BID \<Rightarrow> lv_price m < lv_price l | ASK \<Rightarrow> lv_price l < lv_price m) ls"

lemma sorted_fst_strict:
  "sorted xs \<Longrightarrow> distinct (map fst xs) \<Longrightarrow> sorted_wrt (\<lambda>x y. fst x < fst y) (xs :: (int \<times> int) list)"
  by (induction xs) (auto simp: less_eq_prod_def order.strict_iff_order intro: rev_image_eqI)

lemma sorted_keys_strict:
  assumes "dict_wf (d :: (int, int) dict)"
  shows "sorted_wrt (\<lambda>x y. fst x < fst y) (sort d)"
proof (rule sorted_fst_strict)
  have "mset (map fst (sort d)) = mset (map fst d)" by simp
  then show "distinct (map fst (sort d))"
    using assms unfolding dict_wf_def by (rule mset_eq_imp_distinct_iff [THEN iffD2])
qed simp

lemma levels_best_first: "wf_levels b \<Longrightarrow> best_first s (levels s b)"
  using sorted_keys_strict [of "side_levels s b"] wf_levels_side [of b s]
  by (cases s)
    (auto simp: best_first_def sorted_wrt_map sorted_wrt_rev case_prod_unfold)

section \<open>The checksum distinguishes levels\<close>

lemma xor_cancel: "a XOR (a XOR b) = (b :: 64 word)"
  by (simp flip: xor.assoc)

lemma xorshift_unshift:
  assumes "64 \<le> 3 * k"
  shows "xorshift k v XOR drop_bit k (xorshift k v) XOR drop_bit (2 * k) (xorshift k v) = v"
proof -
  have "drop_bit (k + k + k) v = 0"
    using assms by (intro bit_eqI) (simp add: bit_drop_bit_eq bit_word.rep_eq)
  then show ?thesis
    by (simp add: xorshift_def drop_bit_xor mult_2 xor_cancel xor.assoc)
qed

lemma inj_xorshift: "64 \<le> 3 * k \<Longrightarrow> inj (xorshift k)"
  by (rule inj_on_inverseI [where g = "\<lambda>y. y XOR drop_bit k y XOR drop_bit (2 * k) y"])
    (rule xorshift_unshift)

lemma inj_mult_odd: "c * d = (1 :: 64 word) \<Longrightarrow> inj (\<lambda>x. x * c)"
  by (rule inj_on_inverseI [where g = "\<lambda>y. y * d"]) (simp add: mult.assoc)

lemma inj_mix64: "inj mix64"
proof -
  have m1: "inj (\<lambda>x :: 64 word. x * 0xBF58476D1CE4E5B9)"
    by (rule inj_mult_odd [where d = "0x96de1b173f119089"]) simp
  have m2: "inj (\<lambda>x :: 64 word. x * 0x94D049BB133111EB)"
    by (rule inj_mult_odd [where d = "0x319642b2d24d8ec3"]) simp
  have eq: "mix64 = xorshift 31 \<circ> (\<lambda>x. x * 0x94D049BB133111EB) \<circ> xorshift 27 \<circ>
      (\<lambda>x. x * 0xBF58476D1CE4E5B9) \<circ> xorshift 30"
    by (simp add: mix64_def fun_eq_iff)
  show ?thesis unfolding eq by (intro inj_compose inj_xorshift m1 m2) simp_all
qed

lemma mix64_zero: "mix64 0 = 0"
  by (simp add: mix64_def xorshift_def)

lemma mix64_eq_zero [simp]: "mix64 v = 0 \<longleftrightarrow> v = 0"
  using inj_mix64 mix64_zero by (metis injD)

lemma take_bit_range: "0 \<le> c \<Longrightarrow> c < 2 ^ n \<Longrightarrow> take_bit n c = (c :: int)"
  by (simp add: take_bit_int_eq_self_iff)

lemma mask_44: "level_key s p c AND mask 44 = word_of_int c AND mask 44"
proof (rule bit_word_eqI)
  fix n assume "n < LENGTH(64)"
  then show "bit (level_key s p c AND mask 44) n = bit (word_of_int c AND mask 44 :: 64 word) n"
    by (auto simp: level_key_def bit_and_iff bit_or_iff bit_push_bit_iff bit_mask_iff)
qed

lemma level_key_count:
  assumes "level_key s p c = level_key s p c'" "0 \<le> c" "c < 2 ^ 44" "0 \<le> c'" "c' < 2 ^ 44"
  shows "c = c'"
proof -
  have "word_of_int c AND mask 44 = (word_of_int c' AND mask 44 :: 64 word)"
    using assms(1) mask_44 by metis
  then have "take_bit 44 (word_of_int c) = (take_bit 44 (word_of_int c') :: 64 word)"
    by (simp add: take_bit_eq_mask)
  then have "take_bit 44 (uint (word_of_int c :: 64 word)) = take_bit 44 (uint (word_of_int c' :: 64 word))"
    by (metis unsigned_take_bit_eq)
  then have "take_bit 44 c = take_bit 44 c'"
    by (simp add: unsigned_of_int take_bit_take_bit)
  then show ?thesis using assms by (simp add: take_bit_range)
qed

lemma level_key_zero_count: "level_key s p 0 = 0 \<Longrightarrow> level_key s p c = 0 \<Longrightarrow> 0 \<le> c \<Longrightarrow> c < 2 ^ 44 \<Longrightarrow> c = 0"
  using level_key_count [of s p c 0] by simp

lemma level_key_nonzero:
  assumes "0 < c" "c < 2 ^ 44"
  shows "level_key s p c \<noteq> 0"
proof
  assume "level_key s p c = 0"
  then have "word_of_int c AND mask 44 = (0 :: 64 word)" using mask_44 [of s p c] by simp
  then have "take_bit 44 (uint (word_of_int c :: 64 word)) = 0"
    by (metis take_bit_eq_mask unsigned_take_bit_eq unsigned_0)
  then show False using assms by (simp add: unsigned_of_int take_bit_take_bit take_bit_range)
qed

definition side_sum :: "side \<Rightarrow> (int, int) dict \<Rightarrow> 64 word" where
  "side_sum s d = (\<Sum>x\<in>#mset d. mix64 (level_key s (fst x) (snd x)))"

lemma checksum_sides: "checksum b = uint (side_sum BID (bk_bids b) + side_sum ASK (bk_asks b))"
  by (simp add: checksum_def side_sum_def case_prod_unfold flip: sum_mset_sum_list)

lemma checksum_cong:
  "wf_levels a \<Longrightarrow> wf_levels b \<Longrightarrow> (\<And>s p. size_at s p a = size_at s p b) \<Longrightarrow> checksum a = checksum b"
  using side_levels_mset [of a b BID] side_levels_mset [of a b ASK]
  by (simp add: checksum_sides side_sum_def)

definition level_term :: "side \<Rightarrow> int \<Rightarrow> int \<Rightarrow> 64 word" where
  "level_term s p v = (if v = 0 then 0 else mix64 (level_key s p v))"

lemma mset_put_none:
  "dict_get d k = None \<Longrightarrow> mset (dict_put k v d) = add_mset (k, v) (mset d)"
  by (simp add: dict_put_new dict_get_None_iff)

lemma side_sum_split:
  assumes "dict_wf d"
  shows "side_sum s d = side_sum s (dict_pop p d) +
    (case dict_get d p of None \<Rightarrow> 0 | Some v \<Rightarrow> mix64 (level_key s p v))"
proof (cases "dict_get d p")
  case None
  then have "dict_pop p d = d" by (auto simp: AList.delete_eq filter_id_conv dict_get_None_iff intro: rev_image_eqI)
  with None show ?thesis by simp
next
  case (Some v)
  then have "mset d = add_mset (p, v) (mset (dict_pop p d))"
    using dict_eq_mset [of d "dict_put p v (dict_pop p d)"] assms
    by (simp add: mset_put_none dict_simps fun_eq_iff)
  with Some show ?thesis by (simp add: side_sum_def)
qed

lemma side_sum_level:
  assumes "wf_levels b"
  shows "side_sum s (side_levels s b) =
    side_sum s (dict_pop p (side_levels s b)) + level_term s p (size_at s p b)"
  using side_sum_split [of "side_levels s b" s p] wf_levels_side [OF assms, of s]
  by (simp add: dict_get_size [OF assms] level_term_def)

lemma level_term_inject:
  assumes "level_term s p c = level_term s p c'" "0 \<le> c" "c < 2 ^ 44" "0 \<le> c'" "c' < 2 ^ 44"
  shows "c = c'"
proof (cases "c = 0 \<or> c' = 0")
  case True
  then show ?thesis using assms level_key_nonzero [of c s p] level_key_nonzero [of c' s p]
    by (auto simp: level_term_def split: if_splits)
next
  case False
  then show ?thesis using assms level_key_count [of s p c c'] inj_mix64
    by (auto simp: level_term_def dest: injD)
qed

lemma pop_side_sum_cong:
  assumes "wf_levels a" "wf_levels b" "\<And>q. q \<noteq> p \<Longrightarrow> size_at s q a = size_at s q b"
  shows "side_sum s (dict_pop p (side_levels s a)) = side_sum s (dict_pop p (side_levels s b))"
  unfolding side_sum_def
  by (subst dict_eq_mset [of "dict_pop p (side_levels s a)" "dict_pop p (side_levels s b)"])
    (use assms wf_levels_side in \<open>auto simp: dict_simps dict_get_size fun_eq_iff\<close>)

lemma checksum_one_level:
  assumes wf: "wf_levels a" "wf_levels b"
    and same: "\<And>s' q. s' \<noteq> s \<or> q \<noteq> p \<Longrightarrow> size_at s' q a = size_at s' q b"
    and small: "size_at s p a < 2 ^ 44" "size_at s p b < 2 ^ 44"
    and eq: "checksum a = checksum b"
  shows "size_at s p a = size_at s p b"
proof -
  let ?other = "if s = BID then ASK else BID"
  have "mset (side_levels ?other a) = mset (side_levels ?other b)"
    by (rule side_levels_mset [OF wf], rule same) (cases s; simp)
  then have other: "side_sum ?other (side_levels ?other a) = side_sum ?other (side_levels ?other b)"
    unfolding side_sum_def by (simp only:)
  have "checksum x = uint (side_sum s (side_levels s x) + side_sum ?other (side_levels ?other x))" for x
    by (cases s) (simp_all add: checksum_sides add.commute)
  with eq other have "side_sum s (side_levels s a) = side_sum s (side_levels s b)"
    by (simp add: word_uint_eq_iff [symmetric])
  then have "level_term s p (size_at s p a) = level_term s p (size_at s p b)"
    using side_sum_level [OF wf(1), of s p] side_sum_level [OF wf(2), of s p]
      pop_side_sum_cong [OF wf, of p s] same by simp
  then show ?thesis
    by (rule level_term_inject) (use small wf size_at_nonneg in auto)
qed

section \<open>What a comparison reports\<close>

lemma levels_dict_get:
  assumes "wf_levels b"
  shows "dict_get (levels_dict (levels s b)) = dict_get (side_levels s b)"
proof -
  let ?xs = "map level_pair (levels s b)"
  have xs: "mset ?xs = mset (side_levels s b)"
    using mset_levels [of s b] by simp
  have distinct: "distinct (map fst ?xs)"
    using wf_levels_side [OF assms, of s] mset_eq_imp_distinct_iff [of "map fst ?xs" "dict_keys (side_levels s b)"] xs
    by (metis dict_wf_def mset_map)
  have "levels_dict (levels s b) = fold (\<lambda>(k, v). dict_put k v) ?xs []"
    by (simp add: levels_dict_def fold_map comp_def)
  then have "dict_get (levels_dict (levels s b)) = map_of ?xs"
    using pydict.get_fold_put [OF distinct, of "[]"] by (auto simp: fun_eq_iff split: option.splits)
  also have "\<dots> = dict_get (side_levels s b)"
    using distinct wf_levels_side [OF assms, of s] mset_eq_setD [OF xs]
    by (intro map_of_inject_set [THEN iffD2]) (simp_all add: dict_wf_def)
  finally show ?thesis .
qed

definition side_diff :: "side \<Rightarrow> (side \<Rightarrow> int \<Rightarrow> int) \<Rightarrow> (side \<Rightarrow> int \<Rightarrow> int) \<Rightarrow> int \<Rightarrow> level_diff" where
  "side_diff s sa sb p = \<lparr>ld_side = s, ld_price = p, ld_count_a = sa s p, ld_count_b = sb s p\<rparr>"

lemma concat_map_if: "concat (map (\<lambda>x. if P x then [f x] else []) xs) = map f (filter P xs)"
  by (induction xs) auto

lemma diff_side_filter:
  assumes "wf_levels a" "wf_levels b"
  shows "diff_side s a b =
    map (side_diff s (\<lambda>s p. size_at s p a) (\<lambda>s p. size_at s p b))
      (filter (\<lambda>p. size_at s p a \<noteq> size_at s p b)
        (sorted_list_of_set (set (dict_keys (side_levels s a)) \<union> set (dict_keys (side_levels s b)))))"
proof -
  have get: "dict_get_or (levels_dict (levels s x)) p 0 = size_at s p x" if "wf_levels x" for x p
    by (simp add: dict_get_or_def levels_dict_get [OF that] size_at_def)
  have keys: "set (dict_keys (levels_dict (levels s x))) = set (dict_keys (side_levels s x))"
    if "wf_levels x" for x
    by (simp only: dict_keys_set levels_dict_get [OF that])
  show ?thesis
    unfolding diff_side_def Let_def get [OF assms(1)] get [OF assms(2)] keys [OF assms(1)] keys [OF assms(2)]
    by (simp add: side_diff_def concat_map_if)
qed

lemma diff_side_mem:
  assumes "wf_levels a" "wf_levels b"
  shows "x \<in> set (diff_side s a b) \<longleftrightarrow>
    ld_side x = s \<and> ld_count_a x = size_at s (ld_price x) a \<and>
    ld_count_b x = size_at s (ld_price x) b \<and> ld_count_a x \<noteq> ld_count_b x"
proof -
  have mem: "p \<in> set (dict_keys (side_levels s a)) \<or> p \<in> set (dict_keys (side_levels s b))"
    if "size_at s p a \<noteq> size_at s p b" for p
    using that size_at_pos_iff [OF assms(1), of s p] size_at_pos_iff [OF assms(2), of s p]
      size_at_nonneg [OF assms(1), of s p] size_at_nonneg [OF assms(2), of s p] by linarith
  show ?thesis
    unfolding diff_side_filter [OF assms] using mem
    by (cases x) (auto simp: side_diff_def image_iff)
qed

lemma diff_side_sorted:
  "wf_levels a \<Longrightarrow> wf_levels b \<Longrightarrow> sorted_wrt (\<lambda>x y. ld_price x < ld_price y) (diff_side s a b)"
  by (simp add: diff_side_filter side_diff_def sorted_wrt_map strict_sorted_iff sorted_wrt_filter)

lemma diff_side_empty_iff:
  "wf_levels a \<Longrightarrow> wf_levels b \<Longrightarrow> diff_side s a b = [] \<longleftrightarrow> (\<forall>p. size_at s p a = size_at s p b)"
proof
  assume wf: "wf_levels a" "wf_levels b" and e: "diff_side s a b = []"
  show "\<forall>p. size_at s p a = size_at s p b"
  proof (rule allI, rule ccontr)
    fix p assume "size_at s p a \<noteq> size_at s p b"
    then have "side_diff s (\<lambda>s p. size_at s p a) (\<lambda>s p. size_at s p b) p \<in> set (diff_side s a b)"
      using wf by (simp add: diff_side_mem side_diff_def)
    with e show False by simp
  qed
qed (simp add: diff_side_filter)

lemma diff_empty_iff:
  "wf_levels a \<Longrightarrow> wf_levels b \<Longrightarrow> bk_ticker a = bk_ticker b \<Longrightarrow>
   diff a b = Inr [] \<longleftrightarrow> (\<forall>s p. size_at s p a = size_at s p b)"
  by (simp add: diff_def diff_side_empty_iff all_side)

section \<open>Keyframe rows read back\<close>

lemma group_rows_append_one:
  assumes "\<forall>r\<in>set rows. kf_ticker r = t" "t \<notin> set (dict_keys g)" "rows \<noteq> []"
  shows "fold (\<lambda>r g. dict_put (kf_ticker r) (dict_get_or g (kf_ticker r) [] @ [r]) g) rows g = g @ [(t, rows)]"
  using assms
proof (induction rows rule: rev_induct)
  case (snoc r rows)
  show ?case
  proof (cases "rows = []")
    case True
    moreover have "dict_get g t = None" using snoc.prems(2) by (simp only: dict_get_None_iff simp_thms)
    ultimately show ?thesis using snoc.prems by (simp add: dict_put_new dict_get_or_def)
  next
    case False
    have upd: "dict_put t v (g @ [(t, rows)]) = g @ [(t, v)]" for v
      using snoc.prems(2) by (induction g) auto
    have "dict_get g t = None" using snoc.prems(2) by (simp only: dict_get_None_iff simp_thms)
    then have "dict_get_or (g @ [(t, rows)]) t [] = rows"
      by (simp add: dict_get_or_def map_add_def)
    with False snoc upd show ?thesis by simp
  qed
qed simp

lemma to_keyframe_nonempty: "to_keyframe b t \<noteq> []"
  by (simp add: to_keyframe_def Let_def)

lemma to_keyframe_rows:
  assumes "r \<in> set (to_keyframe b t)"
  shows "kf_ticker r = bk_ticker b \<and> kf_stale r = bk_stale b \<and> kf_last_ts_ms r = bk_last_ts_ms b"
  using assms by (auto simp: to_keyframe_def Let_def keyframe_row_of_def split: if_splits)

lemma group_rows_keyframes:
  "distinct (map bk_ticker bs) \<Longrightarrow>
   group_rows (concat (map (\<lambda>b. to_keyframe b t) bs)) = map (\<lambda>b. (bk_ticker b, to_keyframe b t)) bs"
proof (induction bs rule: rev_induct)
  case Nil
  then show ?case by (simp add: group_rows_def)
next
  case (snoc b bs)
  then show ?case
    using group_rows_append_one [of "to_keyframe b t" "bk_ticker b" "map (\<lambda>b. (bk_ticker b, to_keyframe b t)) bs"]
    by (auto simp: group_rows_def to_keyframe_nonempty to_keyframe_rows comp_def)
qed

lemma level_pairs_id [simp]: "map (\<lambda>x. level_pair (Level (fst x) (snd x))) d = d"
  by simp

lemma rows_side_keyframe:
  "rows_side s (to_keyframe b t) = map (\<lambda>x. Level (fst x) (snd x)) (side_levels s b)"
  by (cases s)
    (auto simp: rows_side_def to_keyframe_def Let_def keyframe_row_of_def EMPTY_SIDE_def
      filter_map comp_def case_prod_unfold)

definition book_crossed :: "book \<Rightarrow> bool" where
  "book_crossed b \<longleftrightarrow> crossed (bk_best_bid b) (bk_best_ask b)"

lemma valid_image_of_book:
  assumes "wf_levels b"
  shows "valid_image (map (\<lambda>x. Level (fst x) (snd x)) (bk_bids b))
      (map (\<lambda>x. Level (fst x) (snd x)) (bk_asks b)) \<longleftrightarrow> \<not> book_crossed b"
proof -
  have "levels_sizes (map (\<lambda>x. Level (fst x) (snd x)) (bk_bids b))
      (map (\<lambda>x. Level (fst x) (snd x)) (bk_asks b)) = (\<lambda>s p. size_at s p b)"
    by (auto simp: fun_eq_iff levels_sizes_def size_of_levels_def size_at_def all_side comp_def
        simp del: level_pairs_id)
  moreover have "valid_levels (map (\<lambda>x. Level (fst x) (snd x)) d)" if "dict_wf d" "counts_positive d" for d
    using that by (auto simp: valid_levels_def dict_wf_def counts_positive_def comp_def)
  ultimately show ?thesis
    using assms crossed_iff [OF assms] by (auto simp: valid_image_def book_crossed_def wf_levels_def)
qed

lemma book_of_rows_keyframe:
  assumes wf: "wf_book b"
  shows "if book_crossed b then \<exists>e. book_of_rows (bk_ticker b) (to_keyframe b t) = Inl e
    else book_of_rows (bk_ticker b) (to_keyframe b t) = Inr b"
proof -
  let ?bids = "map (\<lambda>x. Level (fst x) (snd x)) (bk_bids b)"
  let ?asks = "map (\<lambda>x. Level (fst x) (snd x)) (bk_asks b)"
  have lv: "wf_levels b" using wf by (simp add: wf_book_levels)
  have hd: "kf_last_ts_ms (hd (to_keyframe b t)) = bk_last_ts_ms b" "kf_stale (hd (to_keyframe b t)) = bk_stale b"
    using to_keyframe_rows [of "hd (to_keyframe b t)" b t] by (simp_all add: to_keyframe_nonempty)
  show ?thesis
  proof (cases "book_crossed b")
    case True
    then show ?thesis
      using apply_snapshot_invalid [of ?bids ?asks "bk_last_ts_ms b" "new_book (bk_ticker b)"]
        valid_image_of_book [OF lv]
      by (auto simp: book_of_rows_def rows_side_keyframe hd)
  next
    case False
    then have v: "valid_image ?bids ?asks" by (simp add: valid_image_of_book [OF lv])
    have "image_book ?bids ?asks (bk_last_ts_ms b) (new_book (bk_ticker b)) = b\<lparr>bk_stale := False\<rparr>"
      using lv by (simp add: image_book_def new_book_def wf_levels_def comp_def)
    then show ?thesis
      using False by (simp add: book_of_rows_def rows_side_keyframe hd apply_snapshot_valid [OF v] mark_stale_def)
  qed
qed

lemma books_of_groups_keyframes:
  assumes "\<forall>b\<in>set bs. wf_book b" "distinct (map bk_ticker bs)"
    "set (map bk_ticker bs) \<inter> set (dict_keys books) = {}"
  shows "if \<exists>b\<in>set bs. book_crossed b
    then \<exists>e. books_of_groups (map (\<lambda>b. (bk_ticker b, to_keyframe b t)) bs) books = Inl e
    else books_of_groups (map (\<lambda>b. (bk_ticker b, to_keyframe b t)) bs) books =
      Inr (books @ map (\<lambda>b. (bk_ticker b, b)) bs)"
  using assms
proof (induction bs arbitrary: books)
  case Nil
  then show ?case by simp
next
  case (Cons b bs)
  show ?case
  proof (cases "book_crossed b")
    case True
    then show ?thesis using book_of_rows_keyframe [of b t] Cons.prems by auto
  next
    case False
    then have "book_of_rows (bk_ticker b) (to_keyframe b t) = Inr b"
      using book_of_rows_keyframe [of b t] Cons.prems by simp
    with False show ?thesis
      using Cons.IH [of "books @ [(bk_ticker b, b)]"] Cons.prems by (simp add: dict_put_new)
  qed
qed

section \<open>Best levels\<close>

lemma best_of_max:
  assumes "wf_levels b"
  shows "\<exists>r. best_bid b = Inr r \<and> (r = None \<longleftrightarrow> (\<forall>p. size_at BID p b = 0)) \<and>
    (\<forall>l. r = Some l \<longrightarrow> lv_count l = size_at BID (lv_price l) b \<and> 0 < lv_count l \<and>
      (\<forall>p. 0 < size_at BID p b \<longrightarrow> p \<le> lv_price l) \<and> bk_best_bid b = Some (lv_price l))"
proof (cases "bk_best_bid b")
  case None
  then have "bk_bids b = []" using assms by (auto simp: wf_levels_def opt_max_def split: if_splits)
  with None show ?thesis by (simp add: best_bid_def best_of_def size_at_def dict_get_or_def)
next
  case (Some m)
  then have m: "m \<in> set (dict_keys (bk_bids b))" "\<forall>p\<in>set (dict_keys (bk_bids b)). p \<le> m"
    using assms opt_max_Some_iff [of "dict_keys (bk_bids b)" m] by (simp_all add: wf_levels_def)
  then have pos: "0 < size_at BID m b" by (simp add: size_at_pos_iff [OF assms])
  then have "best_bid b = Inr (Some (Level m (size_at BID m b)))"
    using dict_get_size [OF assms, of BID m] Some by (simp add: best_bid_def best_of_def)
  moreover have "p \<le> m" if "0 < size_at BID p b" for p
    using that m by (auto simp: size_at_pos_iff [OF assms])
  ultimately show ?thesis using pos Some by (auto intro: exI [of _ m])
qed

lemma best_of_min:
  assumes "wf_levels b"
  shows "\<exists>r. best_ask b = Inr r \<and> (r = None \<longleftrightarrow> (\<forall>p. size_at ASK p b = 0)) \<and>
    (\<forall>l. r = Some l \<longrightarrow> lv_count l = size_at ASK (lv_price l) b \<and> 0 < lv_count l \<and>
      (\<forall>p. 0 < size_at ASK p b \<longrightarrow> lv_price l \<le> p) \<and> bk_best_ask b = Some (lv_price l))"
proof (cases "bk_best_ask b")
  case None
  then have "bk_asks b = []" using assms by (auto simp: wf_levels_def opt_min_def split: if_splits)
  with None show ?thesis by (simp add: best_ask_def best_of_def size_at_def dict_get_or_def)
next
  case (Some m)
  then have m: "m \<in> set (dict_keys (bk_asks b))" "\<forall>p\<in>set (dict_keys (bk_asks b)). m \<le> p"
    using assms opt_min_Some_iff [of "dict_keys (bk_asks b)" m] by (simp_all add: wf_levels_def)
  then have pos: "0 < size_at ASK m b" by (simp add: size_at_pos_iff [OF assms])
  then have "best_ask b = Inr (Some (Level m (size_at ASK m b)))"
    using dict_get_size [OF assms, of ASK m] Some by (simp add: best_ask_def best_of_def)
  moreover have "m \<le> p" if "0 < size_at ASK p b" for p
    using that m by (auto simp: size_at_pos_iff [OF assms])
  ultimately show ?thesis using pos Some by (auto intro: exI [of _ m])
qed

section \<open>An example\<close>

definition example_book :: book where
  "example_book = book_run [OpSnapshot [Level 5600 100, Level 5500 250] [Level 5700 40] (Some 7),
     OpDelta BID 5600 (-100) (Some 8)] (new_book ''KXA-1'')"

lemma example_book_eq:
  "example_book = \<lparr>bk_ticker = ''KXA-1'', bk_bids = [(5500, 250)], bk_asks = [(5700, 40)],
     bk_best_bid = Some 5500, bk_best_ask = Some 5700, bk_stale = False, bk_last_ts_ms = Some 8\<rparr>"
  by (simp add: example_book_def book_run_def apply_snapshot_def apply_delta_def new_book_def
      opt_max_def opt_min_def change_level_def dict_get_or_def Let_def AList.delete_eq)

lemma wf_book_ticker: "wf_book (b\<lparr>bk_ticker := t\<rparr>) = wf_book b"
  by (auto simp: wf_book_def)

lemma wf_example_book: "wf_book example_book"
  unfolding example_book_def using book_run_simulation [OF wf_book_new] by blast

section \<open>Properties\<close>

text \<open>
  C18. Refinement: a book, whatever operations it went through since it was made, holds exactly
  the sizes and the stale flag that the abstract snapshot and delta give, and its invariant
  holds: unique prices, positive counts, exact best pointers, and no cross unless stale.
\<close>

theorem book_refines_abstract:
  "wf_book (book_run ops (new_book t)) \<and>
   abs_of (book_run ops (new_book t)) = fold abs_step ops abs_init"
  using book_run_simulation [OF wf_book_new, of ops t] by (simp add: abs_of_new)

text \<open>
  Best levels: in a well-formed book \<open>best_bid\<close> and \<open>best_ask\<close> never raise; they return
  the level with the highest bid and the lowest ask price, or nothing when the side is empty,
  and in a fresh book the bid is below the ask.
\<close>

theorem best_levels_exact:
  assumes "wf_book b"
  shows "\<exists>bid ask. best_bid b = Inr bid \<and> best_ask b = Inr ask \<and>
    (bid = None \<longleftrightarrow> (\<forall>p. size_at BID p b = 0)) \<and> (ask = None \<longleftrightarrow> (\<forall>p. size_at ASK p b = 0)) \<and>
    (\<forall>l. bid = Some l \<longrightarrow> lv_count l = size_at BID (lv_price l) b \<and>
       (\<forall>p. 0 < size_at BID p b \<longrightarrow> p \<le> lv_price l)) \<and>
    (\<forall>l. ask = Some l \<longrightarrow> lv_count l = size_at ASK (lv_price l) b \<and>
       (\<forall>p. 0 < size_at ASK p b \<longrightarrow> lv_price l \<le> p)) \<and>
    (\<forall>l m. \<not> bk_stale b \<and> bid = Some l \<and> ask = Some m \<longrightarrow> lv_price l < lv_price m)"
proof -
  have wf: "wf_levels b" and fresh: "\<not> bk_stale b \<Longrightarrow> \<not> crossed (bk_best_bid b) (bk_best_ask b)"
    using assms by (auto simp: wf_book_levels)
  show ?thesis using best_of_max [OF wf] best_of_min [OF wf] fresh by fastforce
qed

theorem best_levels_exact_witness:
  "wf_book example_book \<and> best_bid example_book = Inr (Some (Level 5500 250))"
  using best_levels_exact [OF wf_example_book] wf_example_book
  by (simp add: example_book_eq best_bid_def best_of_def)

text \<open>
  A delta is applied exactly when the book is fresh, the level does not go negative and the
  result does not cross; it is ignored exactly when the book is stale, and then nothing changes;
  in every other case it raises and leaves the book stale.
\<close>

theorem apply_delta_outcomes:
  assumes "wf_book b"
  shows "(snd (apply_delta s p delta ts b) = Inr True \<longleftrightarrow>
      \<not> bk_stale b \<and> 0 \<le> size_at s p b + delta \<and>
      \<not> abs_crossed (abs_update (\<lambda>s p. size_at s p b) s p (size_at s p b + delta))) \<and>
    (snd (apply_delta s p delta ts b) = Inr False \<longleftrightarrow> bk_stale b) \<and>
    (bk_stale b \<longrightarrow> fst (apply_delta s p delta ts b) = b) \<and>
    (\<forall>e. snd (apply_delta s p delta ts b) = Inl e \<longrightarrow>
       bk_stale (fst (apply_delta s p delta ts b)) \<and>
       (size_at s p b + delta < 0 \<longrightarrow>
         (\<forall>s' q. size_at s' q (fst (apply_delta s p delta ts b)) = size_at s' q b)))"
proof -
  have "snd (apply_delta s p delta ts b) = Inr False \<longleftrightarrow> bk_stale b"
    and "bk_stale b \<longrightarrow> fst (apply_delta s p delta ts b) = b"
    by (auto simp: apply_delta_def Let_def)
  moreover have "bk_stale (fst (apply_delta s p delta ts b)) \<and> (size_at s p b + delta < 0 \<longrightarrow>
      (\<forall>s' q. size_at s' q (fst (apply_delta s p delta ts b)) = size_at s' q b))"
    if "snd (apply_delta s p delta ts b) = Inl e" for e
    using that by (auto simp: apply_delta_def Let_def mark_stale_def simp flip: size_at_def split: if_splits)
  ultimately show ?thesis using apply_delta_applied_iff [OF assms] by blast
qed

theorem apply_delta_outcomes_witness:
  "wf_book example_book \<and> snd (apply_delta BID 5650 10 None example_book) = Inr True \<and>
   (\<exists>e. snd (apply_delta BID 5700 10 None example_book) = Inl e) \<and>
   (\<exists>e. snd (apply_delta BID 5500 (-251) None example_book) = Inl e)"
  using apply_delta_outcomes [OF wf_example_book, of BID 5650 10 None] wf_example_book
  by (simp add: example_book_eq apply_delta_def dict_get_or_def Let_def change_level_def)

text \<open>
  Comparison: for two well-formed books of one market, \<open>diff\<close> lists every price of every side
  at which the sizes differ, once, with both sizes, bids before asks and prices ascending; so it
  is empty exactly when the books hold the same levels. Books of different markets raise.
\<close>

theorem diff_exact:
  assumes "wf_book a" "wf_book b" "bk_ticker a = bk_ticker b"
  shows "\<exists>ds. diff a b = Inr ds \<and>
    (\<forall>x. x \<in> set ds \<longleftrightarrow> ld_count_a x = size_at (ld_side x) (ld_price x) a \<and>
       ld_count_b x = size_at (ld_side x) (ld_price x) b \<and> ld_count_a x \<noteq> ld_count_b x) \<and>
    sorted_wrt (\<lambda>x y. (ld_side x, ld_price x) < (ld_side y, ld_price y)) ds \<and>
    (ds = [] \<longleftrightarrow> (\<forall>s p. size_at s p a = size_at s p b))"
proof -
  have wf: "wf_levels a" "wf_levels b" using assms by (simp_all add: wf_book_levels)
  let ?ds = "diff_side BID a b @ diff_side ASK a b"
  have "x \<in> set ?ds \<longleftrightarrow> ld_count_a x = size_at (ld_side x) (ld_price x) a \<and>
      ld_count_b x = size_at (ld_side x) (ld_price x) b \<and> ld_count_a x \<noteq> ld_count_b x" for x
    by (cases "ld_side x") (auto simp: diff_side_mem [OF wf])
  moreover have "sorted_wrt (\<lambda>x y. (ld_side x, ld_price x) < (ld_side y, ld_price y)) (diff_side s a b)" for s
    by (rule sorted_wrt_mono_rel [OF _ diff_side_sorted [OF wf]]) (auto simp: diff_side_mem [OF wf])
  then have "sorted_wrt (\<lambda>x y. (ld_side x, ld_price x) < (ld_side y, ld_price y)) ?ds"
    by (auto simp: sorted_wrt_append diff_side_mem [OF wf] less_side_def)
  moreover have "?ds = [] \<longleftrightarrow> (\<forall>s p. size_at s p a = size_at s p b)"
    by (simp add: diff_side_empty_iff [OF wf] all_side)
  ultimately show ?thesis using assms(3) by (simp add: diff_def)
qed

theorem diff_exact_witness:
  "\<exists>ds. diff example_book (fst (apply_delta BID 5500 1 None example_book)) = Inr ds \<and> ds \<noteq> []"
proof -
  let ?b = "fst (apply_delta BID 5500 1 None example_book)"
  have "wf_book ?b" by (rule wf_book_apply_delta) (rule wf_example_book)
  moreover have "bk_ticker example_book = bk_ticker ?b" "size_at BID 5500 example_book \<noteq> size_at BID 5500 ?b"
    by (simp_all add: example_book_eq apply_delta_def size_at_def dict_get_or_def Let_def change_level_def)
  ultimately show ?thesis using diff_exact [OF wf_example_book, of ?b] by metis
qed

text \<open>
  Checksums: two well-formed books with the same levels have the same checksum, and two that
  differ at one level only, its presence included, have different checksums whenever the counts
  fit the 44 bits the level key gives them.
\<close>

theorem checksum_separates:
  assumes "wf_book a" "wf_book b"
  shows "((\<forall>s q. size_at s q a = size_at s q b) \<longrightarrow> checksum a = checksum b) \<and>
    ((\<forall>s' q. s' \<noteq> s \<or> q \<noteq> p \<longrightarrow> size_at s' q a = size_at s' q b) \<and>
     size_at s p a \<noteq> size_at s p b \<and> size_at s p a < 2 ^ 44 \<and> size_at s p b < 2 ^ 44 \<longrightarrow>
     checksum a \<noteq> checksum b)"
proof -
  have wf: "wf_levels a" "wf_levels b" using assms by (simp_all add: wf_book_levels)
  show ?thesis
    using checksum_cong [OF wf] checksum_one_level [OF wf, of s p] by metis
qed

theorem checksum_separates_witness:
  "wf_book example_book \<and> checksum example_book \<noteq> checksum (fst (apply_delta BID 5500 1 None example_book))"
proof -
  let ?b = "fst (apply_delta BID 5500 1 None example_book)"
  have wf: "wf_book ?b" by (rule wf_book_apply_delta) (rule wf_example_book)
  have "size_at s' q example_book = size_at s' q ?b" if "s' \<noteq> BID \<or> q \<noteq> 5500" for s' q
    using that by (cases s') (simp_all add: example_book_eq apply_delta_def size_at_def dict_get_or_def
        Let_def change_level_def)
  moreover have "size_at BID 5500 example_book = 250" "size_at BID 5500 ?b = 251"
    by (simp_all add: example_book_eq apply_delta_def size_at_def dict_get_or_def Let_def change_level_def)
  ultimately show ?thesis
    using checksum_separates [OF wf_example_book wf, of BID 5500] wf_example_book by simp
qed

text \<open>
  C35. Keyframes: the rows of any books of distinct markets, read back, are exactly those books,
  stale flags, times and level order included, provided none is crossed; a book that a raising
  delta left stale and crossed makes reading the rows of all of them raise.
\<close>

theorem keyframe_roundtrip:
  assumes "\<forall>b\<in>set bs. wf_book b" "distinct (map bk_ticker bs)"
  shows "((\<forall>b\<in>set bs. \<not> book_crossed b) \<longrightarrow>
      books_from_keyframe_rows (concat (map (\<lambda>b. to_keyframe b as_of) bs)) =
        Inr (map (\<lambda>b. (bk_ticker b, b)) bs)) \<and>
    ((\<exists>b\<in>set bs. book_crossed b) \<longrightarrow>
      (\<exists>e. books_from_keyframe_rows (concat (map (\<lambda>b. to_keyframe b as_of) bs)) = Inl e))"
  using books_of_groups_keyframes [OF assms, of "[]" as_of]
  by (auto simp: books_from_keyframe_rows_def group_rows_keyframes [OF assms(2)] split: if_splits)

theorem keyframe_roundtrip_witness:
  "books_from_keyframe_rows (to_keyframe example_book 9) = Inr [(''KXA-1'', example_book)] \<and>
   (\<exists>e. books_from_keyframe_rows (to_keyframe example_book 9 @
       to_keyframe (fst (apply_delta BID 5700 10 None (example_book\<lparr>bk_ticker := ''KXA-2''\<rparr>))) 9) = Inl e)"
proof -
  let ?c = "fst (apply_delta BID 5700 10 None (example_book\<lparr>bk_ticker := ''KXA-2''\<rparr>))"
  have "wf_book (example_book\<lparr>bk_ticker := ''KXA-2''\<rparr>)" using wf_example_book wf_book_ticker by simp
  then have wf: "wf_book ?c" by (rule wf_book_apply_delta)
  have t: "bk_ticker example_book = ''KXA-1''" "bk_ticker ?c = ''KXA-2''" "book_crossed ?c"
    "\<not> book_crossed example_book"
    by (simp_all add: example_book_eq apply_delta_def dict_get_or_def Let_def change_level_def
        mark_stale_def book_crossed_def)
  show ?thesis
    using keyframe_roundtrip [of "[example_book]" 9] keyframe_roundtrip [of "[example_book, ?c]" 9]
      wf wf_example_book t by auto
qed

end
