(* ===== verification/Gaps.thy ===== *)
theory Gaps
  imports Prelude
begin

text \<open>
  \<^verbatim>\<open>tape/recorder/gaps.py\<close>: sequence-gap detection per subscription. The tracker is a dictionary
  from \<^verbatim>\<open>sid\<close> to the state of that subscription; \<open>observe\<close> returns the tracker it leaves and
  the verdict on one message.
\<close>

datatype gap_verdict = VOk | VFirstMessage | VGap int int | VDuplicate int int

record sid_state =
  ss_last_seq :: "int option"
  ss_messages :: int
  ss_gaps :: int
  ss_duplicates :: int

type_synonym gap_tracker = "(int, sid_state) dict"

definition new_sid_state :: sid_state where
  "new_sid_state = \<lparr>ss_last_seq = None, ss_messages = 0, ss_gaps = 0, ss_duplicates = 0\<rparr>"

definition new_gap_tracker :: gap_tracker where
  "new_gap_tracker = []"

definition observe_state :: "int option \<Rightarrow> sid_state \<Rightarrow> sid_state \<times> gap_verdict" where
  "observe_state seq st0 =
     (let st = st0\<lparr>ss_messages := ss_messages st0 + 1\<rparr>
      in case seq of
           None \<Rightarrow> (st, VOk)
         | Some q \<Rightarrow>
             (case ss_last_seq st of
                None \<Rightarrow> (st\<lparr>ss_last_seq := Some q\<rparr>, VFirstMessage)
              | Some last_seq \<Rightarrow>
                  (let expected = last_seq + 1
                   in if q = expected then (st\<lparr>ss_last_seq := Some q\<rparr>, VOk)
                      else if q > expected then
                        (st\<lparr>ss_last_seq := Some q, ss_gaps := ss_gaps st + 1\<rparr>, VGap expected q)
                      else (st\<lparr>ss_duplicates := ss_duplicates st + 1\<rparr>, VDuplicate expected q))))"

definition observe :: "int \<Rightarrow> int option \<Rightarrow> gap_tracker \<Rightarrow> gap_tracker \<times> gap_verdict" where
  "observe sid seq g =
     (let st0 = dict_get_or g sid new_sid_state
      in case observe_state seq st0 of (st, v) \<Rightarrow> (dict_put sid st g, v))"

definition gt_reset :: "int \<Rightarrow> gap_tracker \<Rightarrow> gap_tracker" where
  "gt_reset sid g =
     (case dict_get g sid of None \<Rightarrow> g | Some st \<Rightarrow> dict_put sid (st\<lparr>ss_last_seq := None\<rparr>) g)"

definition gt_forget :: "int \<Rightarrow> gap_tracker \<Rightarrow> gap_tracker" where
  "gt_forget sid g = dict_pop sid g"

definition gt_sids :: "gap_tracker \<Rightarrow> int list" where
  "gt_sids g = sort (dict_keys g)"

definition gt_messages :: "int \<Rightarrow> gap_tracker \<Rightarrow> int" where
  "gt_messages sid g = (case dict_get g sid of None \<Rightarrow> 0 | Some st \<Rightarrow> ss_messages st)"

definition gt_gaps :: "int \<Rightarrow> gap_tracker \<Rightarrow> int" where
  "gt_gaps sid g = (case dict_get g sid of None \<Rightarrow> 0 | Some st \<Rightarrow> ss_gaps st)"

definition gt_duplicates :: "int \<Rightarrow> gap_tracker \<Rightarrow> int" where
  "gt_duplicates sid g = (case dict_get g sid of None \<Rightarrow> 0 | Some st \<Rightarrow> ss_duplicates st)"

section \<open>Runs\<close>

datatype gap_op = GObserve int "int option" | GReset int | GForget int

fun gap_step :: "gap_op \<Rightarrow> gap_tracker \<Rightarrow> gap_tracker" where
  "gap_step (GObserve sid seq) g = fst (observe sid seq g)"
| "gap_step (GReset sid) g = gt_reset sid g"
| "gap_step (GForget sid) g = gt_forget sid g"

definition counters_ok :: "sid_state \<Rightarrow> bool" where
  "counters_ok st \<longleftrightarrow> 0 \<le> ss_gaps st \<and> 0 \<le> ss_duplicates st \<and> ss_gaps st + ss_duplicates st \<le> ss_messages st"

definition gaps_wf :: "gap_tracker \<Rightarrow> bool" where
  "gaps_wf g \<longleftrightarrow> dict_wf g \<and> (\<forall>sid st. dict_get g sid = Some st \<longrightarrow> counters_ok st)"

lemma counters_ok_observe: "counters_ok st \<Longrightarrow> counters_ok (fst (observe_state seq st))"
  by (auto simp: counters_ok_def observe_state_def Let_def split: option.splits)

lemma counters_ok_new: "counters_ok new_sid_state"
  by (simp add: counters_ok_def new_sid_state_def)

lemma gaps_wf_get_or: "gaps_wf g \<Longrightarrow> counters_ok (dict_get_or g sid new_sid_state)"
  by (auto simp: gaps_wf_def dict_get_or_def counters_ok_new split: option.splits)

lemma gaps_wf_put: "gaps_wf g \<Longrightarrow> counters_ok st \<Longrightarrow> gaps_wf (dict_put sid st g)"
  by (auto simp: gaps_wf_def dict_simps)

lemma gaps_wf_step [wf_intros]:
  assumes "gaps_wf g"
  shows "gaps_wf (gap_step op g)"
proof (cases op)
  case (GObserve sid seq)
  then show ?thesis
    using assms counters_ok_observe [OF gaps_wf_get_or [OF assms]]
    by (auto simp: observe_def Let_def gaps_wf_put split: prod.splits) (metis fst_conv gaps_wf_put)
next
  case (GReset sid)
  have "counters_ok (st\<lparr>ss_last_seq := None\<rparr>)" if "dict_get g sid = Some st" for st
    using that assms by (auto simp: gaps_wf_def counters_ok_def)
  then show ?thesis
    using GReset assms by (auto simp: gt_reset_def gaps_wf_put split: option.splits)
next
  case (GForget sid)
  then show ?thesis using assms by (auto simp: gt_forget_def gaps_wf_def dict_simps)
qed

lemma gaps_wf_run: "gaps_wf g \<Longrightarrow> gaps_wf (fold gap_step ops g)"
  by (induction ops arbitrary: g) (auto intro: gaps_wf_step)

section \<open>What one message covers\<close>

text \<open>
  A log holds, for each message of one subscription in order, its number and the verdict on it.
  An in-order or first message covers its own number; a gap covers the skipped numbers and the
  one that ended it; a duplicate and an unsequenced message cover nothing.
\<close>

fun covers :: "int option \<times> gap_verdict \<Rightarrow> int \<Rightarrow> bool" where
  "covers (Some q, VOk) n = (n = q)"
| "covers (Some q, VFirstMessage) n = (n = q)"
| "covers (Some q, VGap e g) n = (e \<le> n \<and> n \<le> g)"
| "covers _ n = False"

fun observe_all :: "(int \<times> int option) list \<Rightarrow> gap_tracker \<Rightarrow> gap_tracker \<times> (int \<times> int option \<times> gap_verdict) list" where
  "observe_all [] g = (g, [])"
| "observe_all ((sid, seq) # ms) g =
     (case observe sid seq g of (g', v) \<Rightarrow>
        (case observe_all ms g' of (g'', log) \<Rightarrow> (g'', (sid, seq, v) # log)))"

definition sid_log :: "int \<Rightarrow> (int \<times> int option \<times> gap_verdict) list \<Rightarrow> (int option \<times> gap_verdict) list" where
  "sid_log sid log = map snd (filter (\<lambda>m. fst m = sid) log)"

definition baseline :: "int \<Rightarrow> gap_tracker \<Rightarrow> int option" where
  "baseline sid g = (case dict_get g sid of None \<Rightarrow> None | Some st \<Rightarrow> ss_last_seq st)"

lemma observe_sid:
  "observe sid seq g = (g', v) \<Longrightarrow>
   observe_state seq (dict_get_or g sid new_sid_state) = (the (dict_get g' sid), v)"
  by (auto simp: observe_def Let_def dict_simps split: prod.splits)

lemma observe_other:
  "observe sid seq g = (g', v) \<Longrightarrow> j \<noteq> sid \<Longrightarrow> dict_get g' j = dict_get g j"
  by (auto simp: observe_def Let_def dict_simps split: prod.splits)

lemma observe_baseline:
  assumes "observe sid seq g = (g', v)"
  shows "case seq of
      None \<Rightarrow> v = VOk \<and> baseline sid g' = baseline sid g
    | Some q \<Rightarrow> (case baseline sid g of
        None \<Rightarrow> v = VFirstMessage \<and> baseline sid g' = Some q
      | Some l \<Rightarrow> if q = l + 1 then v = VOk \<and> baseline sid g' = Some q
          else if q > l + 1 then v = VGap (l + 1) q \<and> baseline sid g' = Some q
          else v = VDuplicate (l + 1) q \<and> baseline sid g' = Some l)"
proof -
  have get: "dict_get g' sid = Some (fst (observe_state seq (dict_get_or g sid new_sid_state)))"
    and v: "v = snd (observe_state seq (dict_get_or g sid new_sid_state))"
    using assms by (auto simp: observe_def Let_def dict_simps split: prod.splits)
  have old: "ss_last_seq (dict_get_or g sid new_sid_state) = baseline sid g"
    by (auto simp: baseline_def dict_get_or_def new_sid_state_def split: option.splits)
  have new: "baseline sid g' = ss_last_seq (fst (observe_state seq (dict_get_or g sid new_sid_state)))"
    by (simp add: baseline_def get)
  show ?thesis
    unfolding v new using old by (auto simp: observe_state_def Let_def split: option.splits)
qed

text \<open>One message extends the numbers covered by exactly those up to the new baseline.\<close>

lemma observe_covers:
  assumes "observe sid seq g = (g', v)"
  shows "case baseline sid g of
      None \<Rightarrow> (case seq of None \<Rightarrow> baseline sid g' = None \<and> (\<forall>n. \<not> covers (seq, v) n)
               | Some q \<Rightarrow> baseline sid g' = Some q \<and> (\<forall>n. covers (seq, v) n \<longleftrightarrow> n = q))
    | Some l \<Rightarrow> (\<exists>l'. baseline sid g' = Some l' \<and> l \<le> l' \<and> (\<forall>n. covers (seq, v) n \<longleftrightarrow> l < n \<and> n \<le> l'))"
  using observe_baseline [OF assms] by (auto split: option.splits if_splits)

fun cover_count :: "int \<Rightarrow> (int option \<times> gap_verdict) list \<Rightarrow> nat" where
  "cover_count n [] = 0"
| "cover_count n (m # ms) = (if covers m n then 1 else 0) + cover_count n ms"

lemma cover_count_0: "cover_count n ms = 0 \<longleftrightarrow> (\<forall>m\<in>set ms. \<not> covers m n)"
  by (induction ms) auto

fun first_seq :: "(int option \<times> gap_verdict) list \<Rightarrow> int option" where
  "first_seq [] = None"
| "first_seq ((None, v) # ms) = first_seq ms"
| "first_seq ((Some q, v) # ms) = Some q"

lemma observe_all_covers:
  assumes "observe_all ms g = (g', log)"
  shows "case baseline sid g of
      Some l \<Rightarrow> (\<exists>l'. baseline sid g' = Some l' \<and> l \<le> l' \<and>
        (\<forall>n. cover_count n (sid_log sid log) = (if l < n \<and> n \<le> l' then 1 else 0)))
    | None \<Rightarrow> (case first_seq (sid_log sid log) of
        None \<Rightarrow> baseline sid g' = None \<and>
          (\<forall>n. cover_count n (sid_log sid log) = 0)
      | Some q \<Rightarrow> (\<exists>l'. baseline sid g' = Some l' \<and> q \<le> l' \<and>
        (\<forall>n. cover_count n (sid_log sid log) = (if q \<le> n \<and> n \<le> l' then 1 else 0))))"
  using assms
proof (induction ms arbitrary: g log)
  case Nil
  then show ?case by (auto simp: sid_log_def split: option.splits)
next
  case (Cons m ms)
  obtain j seq where m: "m = (j, seq)" by fastforce
  obtain g1 v where o: "observe j seq g = (g1, v)" by fastforce
  obtain log1 where l1: "observe_all ms g1 = (g', log1)" and log: "log = (j, seq, v) # log1"
    using Cons.prems by (auto simp: m o split: prod.splits)
  note IH = Cons.IH [OF l1]
  show ?case
  proof (cases "j = sid")
    case False
    then have "baseline sid g1 = baseline sid g" using observe_other [OF o, of sid] by (simp add: baseline_def)
    moreover have "sid_log sid log = sid_log sid log1" using False by (simp add: log sid_log_def)
    ultimately show ?thesis using IH by (simp only:)
  next
    case True
    then have sl: "sid_log sid log = (seq, v) # sid_log sid log1" by (simp add: log sid_log_def)
    note c = observe_covers [OF o, unfolded True]
    show ?thesis
    proof (cases "baseline sid g")
      case None
      then show ?thesis using IH c sl by (cases seq) (auto split: option.splits)
    next
      case (Some l)
      with c obtain l1 where "baseline sid g1 = Some l1" "l \<le> l1"
        "\<And>n. covers (seq, v) n \<longleftrightarrow> l < n \<and> n \<le> l1" by auto
      then show ?thesis using IH Some sl by fastforce
    qed
  qed
qed

section \<open>Properties\<close>

text \<open>
  Every number is reported exactly once: for each subscription, from its first sequenced
  message up to its baseline, every number is covered by exactly one message's verdict (it
  arrived in order, or one gap names it), and no verdict covers any other number; duplicates and
  unsequenced messages cover nothing. Messages of other subscriptions do not matter.
\<close>

theorem gaps_reported_once:
  assumes "observe_all ms new_gap_tracker = (g, log)"
  shows "case first_seq (sid_log sid log) of
      None \<Rightarrow> baseline sid g = None \<and> (\<forall>m\<in>set (sid_log sid log). \<forall>n. \<not> covers m n)
    | Some q \<Rightarrow> (\<exists>l. baseline sid g = Some l \<and> q \<le> l \<and>
        (\<forall>n. cover_count n (sid_log sid log) = (if q \<le> n \<and> n \<le> l then 1 else 0)))"
proof -
  have b: "baseline sid new_gap_tracker = None" by (simp add: new_gap_tracker_def baseline_def)
  note c = observe_all_covers [OF assms, of sid, unfolded b option.case]
  show ?thesis
  proof (cases "first_seq (sid_log sid log)")
    case None
    with c show ?thesis by (simp add: cover_count_0)
  next
    case (Some q)
    with c show ?thesis by simp
  qed
qed

theorem gaps_reported_once_witness:
  "\<exists>g log. observe_all [(1, Some 5), (2, Some 9), (1, Some 6), (1, Some 9), (1, Some 9)] new_gap_tracker = (g, log) \<and>
     map snd (sid_log 1 log) = [VFirstMessage, VOk, VGap 7 9, VDuplicate 10 9] \<and>
     cover_count 8 (sid_log 1 log) = 1"
proof -
  obtain g log where r: "observe_all [(1, Some 5), (2, Some 9), (1, Some 6), (1, Some 9), (1, Some 9)] new_gap_tracker = (g, log)"
    by fastforce
  then have l: "sid_log 1 log = [(Some 5, VFirstMessage), (Some 6, VOk), (Some 9, VGap 7 9), (Some 9, VDuplicate 10 9)]"
    and b: "baseline 1 g = Some 9"
    by (auto simp: new_gap_tracker_def observe_def observe_state_def dict_get_or_def new_sid_state_def
        sid_log_def baseline_def Let_def)
  from gaps_reported_once [OF r, of 1] l b have "cover_count 8 (sid_log 1 log) = 1"
    by simp
  with r l show ?thesis by auto
qed

text \<open>
  Bookkeeping: whatever messages, resets and forgettings a tracker went through, its
  counters satisfy gaps plus duplicates at most messages for every subscription, and one message
  never moves a baseline backwards nor touches another subscription.
\<close>

theorem gap_tracker_bookkeeping:
  "0 \<le> gt_gaps sid (fold gap_step ops new_gap_tracker) \<and>
   gt_gaps sid (fold gap_step ops new_gap_tracker) + gt_duplicates sid (fold gap_step ops new_gap_tracker)
     \<le> gt_messages sid (fold gap_step ops new_gap_tracker) \<and>
   (\<forall>l. baseline sid (fold gap_step ops new_gap_tracker) = Some l \<longrightarrow>
     (\<exists>l'\<ge>l. baseline sid (gap_step (GObserve sid' seq) (fold gap_step ops new_gap_tracker)) = Some l'))"
proof -
  have "gaps_wf new_gap_tracker" by (simp add: gaps_wf_def new_gap_tracker_def)
  then have wf: "gaps_wf (fold gap_step ops new_gap_tracker)" by (rule gaps_wf_run)
  have "\<exists>l'\<ge>l. baseline sid (fst (observe sid' seq g)) = Some l'" if "baseline sid g = Some l" for l g
    using that observe_covers [of sid' seq g "fst (observe sid' seq g)" "snd (observe sid' seq g)"]
      observe_other [of sid' seq g "fst (observe sid' seq g)" "snd (observe sid' seq g)" sid]
    by (cases "sid = sid'") (auto simp: baseline_def)
  with wf show ?thesis
    by (auto simp: gaps_wf_def counters_ok_def gt_gaps_def gt_duplicates_def gt_messages_def
        split: option.splits)
qed

theorem gap_tracker_bookkeeping_witness:
  "baseline 1 (fold gap_step [GObserve 1 (Some 5), GObserve 1 (Some 5)] new_gap_tracker) = Some 5 \<and>
   (\<exists>l'\<ge>5. baseline 1 (gap_step (GObserve 1 (Some 3)) (fold gap_step [GObserve 1 (Some 5), GObserve 1 (Some 5)] new_gap_tracker)) = Some l')"
proof -
  have b: "baseline 1 (fold gap_step [GObserve 1 (Some 5), GObserve 1 (Some 5)] new_gap_tracker) = Some 5"
    by (simp add: new_gap_tracker_def observe_def observe_state_def dict_get_or_def new_sid_state_def
        baseline_def Let_def)
  then show ?thesis
    using gap_tracker_bookkeeping [of 1 "[GObserve 1 (Some 5), GObserve 1 (Some 5)]" 1 "Some 3"] by blast
qed

end
