(* ===== verification/Ratelimit.thy ===== *)
theory Ratelimit
  imports Prelude Timeutil
begin

text \<open>
  \<^verbatim>\<open>tape/client/ratelimit.py\<close>: the local copy of the exchange's token buckets. A bucket never
  reads a clock; every operation takes the time and returns the bucket it leaves. \<open>acquire_on\<close> is
  the waiting loop of \<^verbatim>\<open>BucketRateLimiter.acquire\<close> on the bucket the call captured, run on the clock
  readings it gets (one per \<^verbatim>\<open>try_take\<close>, one per \<^verbatim>\<open>wait_ns\<close>); the lock of a bucket makes its
  acquisitions follow one another, so a run of the limiter is a sequence of them.
\<close>

record bucket_limits =
  bl_refill_per_s :: int
  bl_capacity :: int

datatype bucket_error =
    LimitsNotPositive bucket_limits
  | CapacityBelowRefill bucket_limits
  | TokensNotPositive int
  | RequestExceedsCapacity int int

record token_bucket =
  tb_refill_per_s :: int
  tb_capacity :: int
  tb_tokens_e9 :: int
  tb_last_ns :: int

definition DEFAULT_TOKEN_COST :: int where "DEFAULT_TOKEN_COST = 10"

definition BASIC_READ :: bucket_limits where
  "BASIC_READ = \<lparr>bl_refill_per_s = 200, bl_capacity = 400\<rparr>"

definition BASIC_WRITE :: bucket_limits where
  "BASIC_WRITE = \<lparr>bl_refill_per_s = 100, bl_capacity = 100\<rparr>"

definition new_token_bucket :: "bucket_limits \<Rightarrow> int \<Rightarrow> bucket_error + token_bucket" where
  "new_token_bucket limits now_ns =
     (if bl_refill_per_s limits \<le> 0 \<or> bl_capacity limits \<le> 0 then Inl (LimitsNotPositive limits)
      else if bl_capacity limits < bl_refill_per_s limits then Inl (CapacityBelowRefill limits)
      else Inr \<lparr>tb_refill_per_s = bl_refill_per_s limits, tb_capacity = bl_capacity limits,
        tb_tokens_e9 = bl_capacity limits * NS_PER_S, tb_last_ns = now_ns\<rparr>)"

definition check_tokens :: "int \<Rightarrow> token_bucket \<Rightarrow> bucket_error + unit" where
  "check_tokens tokens b =
     (if tokens \<le> 0 then Inl (TokensNotPositive tokens)
      else if tokens > tb_capacity b then Inl (RequestExceedsCapacity tokens (tb_capacity b))
      else Inr ())"

definition refill :: "int \<Rightarrow> token_bucket \<Rightarrow> token_bucket" where
  "refill now_ns b =
     (let elapsed = now_ns - tb_last_ns b
      in if elapsed \<le> 0 then b\<lparr>tb_last_ns := max (tb_last_ns b) now_ns\<rparr>
         else b\<lparr>tb_last_ns := now_ns,
                tb_tokens_e9 := min (tb_capacity b * NS_PER_S) (tb_tokens_e9 b + elapsed * tb_refill_per_s b)\<rparr>)"

definition tokens_at :: "int \<Rightarrow> token_bucket \<Rightarrow> token_bucket \<times> int" where
  "tokens_at now_ns b = (let b' = refill now_ns b in (b', tb_tokens_e9 b' div NS_PER_S))"

definition try_take :: "int \<Rightarrow> int \<Rightarrow> token_bucket \<Rightarrow> token_bucket \<times> (bucket_error + bool)" where
  "try_take tokens now_ns b =
     (case check_tokens tokens b of
        Inl e \<Rightarrow> (b, Inl e)
      | Inr _ \<Rightarrow>
          (let b' = refill now_ns b; cost_e9 = tokens * NS_PER_S
           in if tb_tokens_e9 b' < cost_e9 then (b', Inr False)
              else (b'\<lparr>tb_tokens_e9 := tb_tokens_e9 b' - cost_e9\<rparr>, Inr True)))"

definition wait_ns :: "int \<Rightarrow> int \<Rightarrow> token_bucket \<Rightarrow> token_bucket \<times> (bucket_error + int)" where
  "wait_ns tokens now_ns b =
     (case check_tokens tokens b of
        Inl e \<Rightarrow> (b, Inl e)
      | Inr _ \<Rightarrow>
          (let b' = refill now_ns b; shortfall_e9 = tokens * NS_PER_S - tb_tokens_e9 b'
           in if shortfall_e9 \<le> 0 then (b', Inr 0)
              else (b', Inr (- ((- shortfall_e9) div tb_refill_per_s b')))))"

text \<open>
  The waiting loop. \<open>Waiting\<close> means that the readings given ended while the call still slept.
\<close>

datatype acquire_outcome = Acquired | AcquireFailed bucket_error | Waiting

fun acquire_on :: "int \<Rightarrow> int list \<Rightarrow> token_bucket \<Rightarrow> token_bucket \<times> acquire_outcome" where
  "acquire_on cost [] b = (b, Waiting)"
| "acquire_on cost (t # ts) b =
     (case try_take cost t b of
        (b1, Inl e) \<Rightarrow> (b1, AcquireFailed e)
      | (b1, Inr True) \<Rightarrow> (b1, Acquired)
      | (b1, Inr False) \<Rightarrow>
          (case ts of
             [] \<Rightarrow> (b1, Waiting)
           | u # us \<Rightarrow>
               (case wait_ns cost u b1 of
                  (b2, Inl e) \<Rightarrow> (b2, AcquireFailed e)
                | (b2, Inr delay_ns) \<Rightarrow> acquire_on cost us b2)))"

datatype bucket_name = ReadBucket | WriteBucket

record rate_limiter =
  rl_read :: token_bucket
  rl_write :: token_bucket

definition new_rate_limiter :: "bucket_limits \<Rightarrow> bucket_limits \<Rightarrow> int \<Rightarrow> int \<Rightarrow> bucket_error + rate_limiter" where
  "new_rate_limiter read_limits write_limits now_read now_write =
     result_bind (new_token_bucket read_limits now_read) (\<lambda>r.
     result_bind (new_token_bucket write_limits now_write) (\<lambda>w. Inr \<lparr>rl_read = r, rl_write = w\<rparr>))"

definition acquire :: "int \<Rightarrow> bucket_name \<Rightarrow> int list \<Rightarrow> rate_limiter \<Rightarrow> rate_limiter \<times> acquire_outcome" where
  "acquire cost bucket readings rl =
     (case bucket of
        ReadBucket \<Rightarrow> (case acquire_on cost readings (rl_read rl) of (b, r) \<Rightarrow> (rl\<lparr>rl_read := b\<rparr>, r))
      | WriteBucket \<Rightarrow> (case acquire_on cost readings (rl_write rl) of (b, r) \<Rightarrow> (rl\<lparr>rl_write := b\<rparr>, r)))"

definition resize :: "bucket_limits \<Rightarrow> bucket_limits \<Rightarrow> int \<Rightarrow> rate_limiter \<Rightarrow> rate_limiter \<times> (bucket_error + unit)" where
  "resize read_limits write_limits now rl =
     (case new_rate_limiter read_limits write_limits now now of
        Inl e \<Rightarrow> (rl, Inl e)
      | Inr rl' \<Rightarrow> (rl', Inr ()))"

definition null_acquire :: "int \<Rightarrow> bucket_error + unit" where
  "null_acquire cost = (if cost \<le> 0 then Inl (TokensNotPositive cost) else Inr ())"

section \<open>The invariant of a bucket\<close>

definition wf_bucket :: "token_bucket \<Rightarrow> bool" where
  "wf_bucket b \<longleftrightarrow> 0 < tb_refill_per_s b \<and> tb_refill_per_s b \<le> tb_capacity b \<and>
     0 \<le> tb_tokens_e9 b \<and> tb_tokens_e9 b \<le> tb_capacity b * NS_PER_S"

lemma NS_PER_S_pos [simp]: "0 < NS_PER_S" by (simp add: NS_PER_S_def)

lemma wf_bucket_new [wf_intros]: "new_token_bucket limits now = Inr b \<Longrightarrow> wf_bucket b"
  by (auto simp: new_token_bucket_def wf_bucket_def NS_PER_S_def split: if_splits)

lemma refill_fields [simp]:
  "tb_refill_per_s (refill now b) = tb_refill_per_s b"
  "tb_capacity (refill now b) = tb_capacity b"
  "tb_last_ns (refill now b) = max (tb_last_ns b) now"
  by (auto simp: refill_def Let_def)

lemma refill_tokens:
  "wf_bucket b \<Longrightarrow> tb_tokens_e9 (refill now b) =
     min (tb_capacity b * NS_PER_S) (tb_tokens_e9 b + max 0 (now - tb_last_ns b) * tb_refill_per_s b)"
  by (auto simp: refill_def Let_def wf_bucket_def max_def)

lemma wf_bucket_refill [wf_intros]: "wf_bucket b \<Longrightarrow> wf_bucket (refill now b)"
  using refill_tokens [of b now] by (auto simp: wf_bucket_def)

lemma wf_bucket_take [wf_intros]: "wf_bucket b \<Longrightarrow> wf_bucket (fst (try_take n now b))"
  using wf_bucket_refill [of b now]
  by (auto simp: try_take_def check_tokens_def Let_def wf_bucket_def NS_PER_S_def)

lemma wf_bucket_wait [wf_intros]: "wf_bucket b \<Longrightarrow> wf_bucket (fst (wait_ns n now b))"
  using wf_bucket_refill [of b now] by (auto simp: wait_ns_def check_tokens_def Let_def)

lemma wf_bucket_acquire [wf_intros]: "wf_bucket b \<Longrightarrow> wf_bucket (fst (acquire_on cost ts b))"
proof (induction cost ts b rule: acquire_on.induct)
  case (2 cost t ts b)
  note take = wf_bucket_take [OF "2.prems", of cost t]
  then show ?case
    using "2.IH" wf_bucket_wait [of "fst (try_take cost t b)" cost "hd ts"]
    by (fastforce split: prod.splits sum.splits bool.splits list.splits)
qed simp

section \<open>The metering contract\<close>

text \<open>
  A metered resource: every operation pays out of a potential. Whatever the sequence of
  operations, what was paid never exceeds the drop of the potential.
\<close>

locale metered =
  fixes step :: "'o \<Rightarrow> 's \<Rightarrow> 's"
    and paid :: "'o \<Rightarrow> 's \<Rightarrow> int"
    and potential :: "'s \<Rightarrow> int"
    and inv :: "'s \<Rightarrow> bool"
  assumes inv_step: "inv s \<Longrightarrow> inv (step op s)"
    and pays: "inv s \<Longrightarrow> paid op s + potential (step op s) \<le> potential s"
begin

fun total_paid :: "'o list \<Rightarrow> 's \<Rightarrow> int" where
  "total_paid [] s = 0"
| "total_paid (op # ops) s = paid op s + total_paid ops (step op s)"

lemma inv_run: "inv s \<Longrightarrow> inv (fold step ops s)"
  by (induction ops arbitrary: s) (auto intro: inv_step)

lemma total_paid_bound: "inv s \<Longrightarrow> total_paid ops s + potential (fold step ops s) \<le> potential s"
proof (induction ops arbitrary: s)
  case (Cons op ops)
  have "total_paid ops (step op s) + potential (fold step ops (step op s)) \<le> potential (step op s)"
    by (rule Cons.IH [OF inv_step [OF Cons.prems]])
  with pays [OF Cons.prems, of op] show ?case by (simp only: total_paid.simps fold_simps)
qed simp

lemma total_paid_append:
  "total_paid (xs @ ys) s = total_paid xs s + total_paid ys (fold step xs s)"
  by (induction xs arbitrary: s) auto

end

datatype bucket_op = OpTake int int | OpTokens int | OpWait int int | OpAcquire int "int list"

fun bucket_step :: "bucket_op \<Rightarrow> token_bucket \<Rightarrow> token_bucket" where
  "bucket_step (OpTake n now) b = fst (try_take n now b)"
| "bucket_step (OpTokens now) b = fst (tokens_at now b)"
| "bucket_step (OpWait n now) b = fst (wait_ns n now b)"
| "bucket_step (OpAcquire n ts) b = fst (acquire_on n ts b)"

text \<open>The tokens an operation was granted.\<close>

fun granted :: "bucket_op \<Rightarrow> token_bucket \<Rightarrow> int" where
  "granted (OpTake n now) b = (if snd (try_take n now b) = Inr True then n else 0)"
| "granted (OpAcquire n ts) b = (if snd (acquire_on n ts b) = Acquired then n else 0)"
| "granted _ b = 0"

fun total_granted :: "bucket_op list \<Rightarrow> token_bucket \<Rightarrow> int" where
  "total_granted [] b = 0"
| "total_granted (op # ops) b = granted op b + total_granted ops (bucket_step op b)"

definition bucket_potential :: "token_bucket \<Rightarrow> int" where
  "bucket_potential b = tb_tokens_e9 b - tb_refill_per_s b * tb_last_ns b"

definition same_limits :: "token_bucket \<Rightarrow> token_bucket \<Rightarrow> bool" where
  "same_limits b b' \<longleftrightarrow> tb_refill_per_s b' = tb_refill_per_s b \<and> tb_capacity b' = tb_capacity b"

lemma limits_take: "same_limits b (fst (try_take n t b))"
  by (auto simp: same_limits_def try_take_def Let_def split: sum.splits)

lemma limits_wait: "same_limits b (fst (wait_ns n t b))"
  by (auto simp: same_limits_def wait_ns_def Let_def split: sum.splits)

lemma same_limits_trans: "same_limits a b \<Longrightarrow> same_limits b c \<Longrightarrow> same_limits a c"
  by (simp add: same_limits_def)

lemma limits_acquire: "same_limits b (fst (acquire_on n ts b))"
proof (induction n ts b rule: acquire_on.induct)
  case (1 n b)
  then show ?case by (simp add: same_limits_def)
next
  case (2 n t ts b)
  obtain b1 r where take: "try_take n t b = (b1, r)" by fastforce
  have l1: "same_limits b b1" using limits_take [of b n t] by (simp add: take)
  show ?case
  proof (cases "r = Inr False \<and> ts \<noteq> []")
    case False
    then show ?thesis using l1 by (auto simp: take split: sum.splits bool.splits list.splits)
  next
    case True
    then obtain u us where ts: "ts = u # us" by (cases ts) auto
    obtain b2 w where wait: "wait_ns n u b1 = (b2, w)" by fastforce
    have l2: "same_limits b b2" using same_limits_trans [OF l1] limits_wait [of b1 n u] by (simp add: wait)
    then show ?thesis
      using "2.IH" [of b1 r False u us b2 w] True
      by (auto simp: take ts wait intro: same_limits_trans split: sum.splits)
  qed
qed

lemma limits_step: "same_limits b (bucket_step op b)"
  by (cases op) (simp_all add: limits_take limits_wait limits_acquire tokens_at_def Let_def, simp add: same_limits_def)

lemma limits_run: "same_limits b (fold bucket_step ops b)"
proof (induction ops arbitrary: b)
  case (Cons op ops)
  then show ?case using same_limits_trans [OF limits_step, of op b] by (simp add: Cons.IH)
qed (simp add: same_limits_def)

lemma potential_refill: "wf_bucket b \<Longrightarrow> bucket_potential (refill now b) \<le> bucket_potential b"
  by (auto simp: bucket_potential_def refill_tokens max_def algebra_simps)

lemma potential_take:
  "wf_bucket b \<Longrightarrow> (if snd (try_take n now b) = Inr True then n else 0) * NS_PER_S +
     bucket_potential (fst (try_take n now b)) \<le> bucket_potential b"
  using potential_refill [of b now]
  by (auto simp: try_take_def Let_def bucket_potential_def split: sum.splits)

lemma potential_wait: "wf_bucket b \<Longrightarrow> bucket_potential (fst (wait_ns n now b)) \<le> bucket_potential b"
  using potential_refill [of b now] by (auto simp: wait_ns_def Let_def split: sum.splits)

lemma potential_acquire:
  "wf_bucket b \<Longrightarrow> (if snd (acquire_on n ts b) = Acquired then n else 0) * NS_PER_S +
     bucket_potential (fst (acquire_on n ts b)) \<le> bucket_potential b"
proof (induction n ts b rule: acquire_on.induct)
  case (2 n t ts b)
  obtain b1 r where take: "try_take n t b = (b1, r)" by fastforce
  have wf1: "wf_bucket b1" and pot1: "(if r = Inr True then n else 0) * NS_PER_S + bucket_potential b1 \<le> bucket_potential b"
    using wf_bucket_take [OF "2.prems", of n t] potential_take [OF "2.prems", of n t] by (simp_all add: take)
  show ?case
  proof (cases "r = Inr False \<and> ts \<noteq> []")
    case False
    then show ?thesis using pot1 by (auto simp: take split: sum.splits bool.splits list.splits)
  next
    case True
    then obtain u us where ts: "ts = u # us" by (cases ts) auto
    obtain b2 w where wait: "wait_ns n u b1 = (b2, w)" by fastforce
    have "wf_bucket b2" "bucket_potential b2 \<le> bucket_potential b1"
      using wf_bucket_wait [OF wf1, of n u] potential_wait [OF wf1, of n u] by (simp_all add: wait)
    then show ?thesis
      using "2.IH" [of b1 r False u us b2 w] pot1 True by (auto simp: take ts wait split: sum.splits)
  qed
qed simp

interpretation bucket_meter: metered bucket_step "\<lambda>op b. granted op b * NS_PER_S" bucket_potential wf_bucket
proof
  fix op b assume wf: "wf_bucket b"
  show "wf_bucket (bucket_step op b)"
    using wf by (cases op) (auto simp: tokens_at_def Let_def intro: wf_intros)
  show "granted op b * NS_PER_S + bucket_potential (bucket_step op b) \<le> bucket_potential b"
    using potential_take [OF wf] potential_refill [OF wf] potential_wait [OF wf] potential_acquire [OF wf]
    by (cases op) (simp_all add: tokens_at_def Let_def)
qed


lemma total_paid_granted: "bucket_meter.total_paid ops b = total_granted ops b * NS_PER_S"
  by (induction ops arbitrary: b) (simp_all add: distrib_right)

section \<open>Waiting\<close>

lemma int_ceil_le: "0 < r \<Longrightarrow> - ((- x) div r) \<le> d \<longleftrightarrow> x \<le> d * (r :: int)"
  by (smt (verit, best) div_mult_mod_eq minus_mult_left mult.commute mult_le_cancel_left_pos
      pos_mod_bound pos_mod_sign zdiv_mono1 nonzero_mult_div_cancel_left)

lemma check_tokens_ok: "0 < n \<Longrightarrow> n \<le> tb_capacity b \<Longrightarrow> check_tokens n b = Inr ()"
  by (simp add: check_tokens_def)

lemma try_take_ok:
  assumes "wf_bucket b" "0 < n" "n \<le> tb_capacity b"
  shows "snd (try_take n t b) = Inr (n * NS_PER_S \<le> tb_tokens_e9 b + max 0 (t - tb_last_ns b) * tb_refill_per_s b)"
proof -
  have "n * NS_PER_S \<le> tb_capacity b * NS_PER_S" using assms(3) by (simp add: NS_PER_S_def)
  then show ?thesis
    using assms by (auto simp: try_take_def check_tokens_ok Let_def refill_tokens min_less_iff_disj)
qed

lemma wait_ns_ok:
  assumes "wf_bucket b" "0 < n" "n \<le> tb_capacity b"
  shows "\<exists>w. wait_ns n now b = (refill now b, Inr w) \<and> 0 \<le> w \<and>
    (\<forall>d\<ge>0. w \<le> d \<longleftrightarrow> n * NS_PER_S \<le> tb_tokens_e9 (refill now b) + d * tb_refill_per_s b)"
proof -
  let ?s = "n * NS_PER_S - tb_tokens_e9 (refill now b)"
  have r: "0 < tb_refill_per_s b" using assms by (simp add: wf_bucket_def)
  show ?thesis
  proof (cases "?s \<le> 0")
    case True
    have "n * NS_PER_S \<le> tb_tokens_e9 (refill now b) + d * tb_refill_per_s b" if "0 \<le> d" for d
      using True that r by (smt (verit) mult_nonneg_nonneg)
    with True show ?thesis using assms by (simp add: wait_ns_def check_tokens_ok Let_def)
  next
    case False
    then have "0 \<le> - ((- ?s) div tb_refill_per_s b)"
      using int_ceil_le [OF r, of ?s "-1"] r by (smt (verit) mult_minus1)
    moreover have "- ((- ?s) div tb_refill_per_s b) \<le> d \<longleftrightarrow>
        n * NS_PER_S \<le> tb_tokens_e9 (refill now b) + d * tb_refill_per_s b" for d
      using int_ceil_le [OF r, of ?s d] by linarith
    ultimately show ?thesis using False assms by (simp add: wait_ns_def check_tokens_ok Let_def)
  qed
qed

lemma refill_short:
  assumes "wf_bucket b" "n \<le> tb_capacity b" "tb_tokens_e9 (refill t b) < n * NS_PER_S"
  shows "tb_tokens_e9 (refill t b) = tb_tokens_e9 b + (tb_last_ns (refill t b) - tb_last_ns b) * tb_refill_per_s b"
proof -
  have "n * NS_PER_S \<le> tb_capacity b * NS_PER_S" using assms(2) by (simp add: NS_PER_S_def)
  moreover have "max 0 (t - tb_last_ns b) = max (tb_last_ns b) t - tb_last_ns b" by (simp add: max_def)
  ultimately show ?thesis using assms refill_tokens [OF assms(1), of t] by (simp only: refill_fields)
qed

lemma try_take_False:
  assumes "try_take n t b = (b', Inr False)"
  shows "b' = refill t b" "tb_tokens_e9 b' < n * NS_PER_S"
  using assms by (auto simp: try_take_def Let_def split: if_splits sum.splits)

lemma acquire_waiting_short:
  assumes "snd (acquire_on n ts b) = Waiting" "odd (length ts)" "sorted ts"
    "wf_bucket b" "0 < n" "n \<le> tb_capacity b"
  shows "tb_tokens_e9 b + max 0 (last ts - tb_last_ns b) * tb_refill_per_s b < n * NS_PER_S"
  using assms
proof (induction n ts b rule: acquire_on.induct)
  case (1 n b)
  then show ?case by simp
next
  case (2 n t ts b)
  obtain b1 r where take: "try_take n t b = (b1, r)" by fastforce
  have r: "r = Inr (n * NS_PER_S \<le> tb_tokens_e9 b + max 0 (t - tb_last_ns b) * tb_refill_per_s b)"
    using try_take_ok [OF "2.prems"(4-6), of t] by (simp add: take)
  have no: "r = Inr False" using "2.prems"(1) r by (auto simp: take split: bool.splits)
  note short = try_take_False [OF take [unfolded no]]
  show ?case
  proof (cases ts)
    case Nil
    then show ?thesis using r no by simp
  next
    case (Cons u us)
    have "us \<noteq> []" using "2.prems"(2) Cons by auto
    then have us: "last (t # ts) = last us" "last us \<in> set us" "us \<noteq> []" using Cons by auto
    define b2 where "b2 = refill u b1"
    have wf1: "wf_bucket b1" using short wf_bucket_refill "2.prems" by simp
    then have wf2: "wf_bucket b2" by (simp add: b2_def wf_bucket_refill)
    have lim: "tb_capacity b2 = tb_capacity b" "tb_refill_per_s b2 = tb_refill_per_s b"
      "tb_capacity b1 = tb_capacity b" "tb_refill_per_s b1 = tb_refill_per_s b"
      by (simp_all add: b2_def short)
    obtain w where wait: "wait_ns n u b1 = (b2, Inr w)"
      using wait_ns_ok [OF wf1 "2.prems"(5), of u] "2.prems"(6) by (auto simp: lim b2_def)
    have IH: "tb_tokens_e9 b2 + max 0 (last us - tb_last_ns b2) * tb_refill_per_s b < n * NS_PER_S"
      using "2.IH" [of b1 r False u us b2 "Inr w" w] "2.prems" wf2
      by (simp add: take no Cons wait lim)
    have "0 < tb_refill_per_s b" using "2.prems"(4) by (simp add: wf_bucket_def)
    then have short2: "tb_tokens_e9 b2 < n * NS_PER_S" using IH by (smt (verit) mult_nonneg_nonneg)
    have "tb_tokens_e9 b2 = tb_tokens_e9 b + (tb_last_ns b2 - tb_last_ns b) * tb_refill_per_s b"
      using refill_short [OF "2.prems"(4,6), of t] refill_short [OF wf1, of n u] short short2 "2.prems"(6)
      by (simp add: b2_def lim algebra_simps)
    moreover have "tb_last_ns b2 = max (max (tb_last_ns b) t) u" by (simp add: b2_def short)
    moreover have "t \<le> last us" "u \<le> last us" using "2.prems"(3) us Cons by auto
    ultimately show ?thesis
    proof (cases "tb_last_ns b \<le> last us")
      case True
      with \<open>t \<le> last us\<close> \<open>u \<le> last us\<close> \<open>tb_last_ns b2 = _\<close> have "tb_last_ns b2 \<le> last us" by simp
      then show ?thesis
        unfolding us(1) using IH True \<open>tb_tokens_e9 b2 = _\<close> by (simp add: algebra_simps)
    next
      case False
      with \<open>t \<le> last us\<close> \<open>u \<le> last us\<close> \<open>tb_last_ns b2 = _\<close> have "tb_last_ns b2 = tb_last_ns b" by simp
      then show ?thesis
        unfolding us(1) using short2 False \<open>tb_tokens_e9 b2 = _\<close> by simp
    qed
  qed
qed

lemma acquire_not_failed:
  "wf_bucket b \<Longrightarrow> 0 < n \<Longrightarrow> n \<le> tb_capacity b \<Longrightarrow> snd (acquire_on n ts b) \<noteq> AcquireFailed e"
proof (induction n ts b rule: acquire_on.induct)
  case (2 n t ts b)
  obtain b1 r where take: "try_take n t b = (b1, r)" by fastforce
  then obtain x where r: "r = Inr x" using try_take_ok [OF "2.prems", of t] by simp
  have cap: "tb_capacity b1 = tb_capacity b"
    using take by (auto simp: try_take_def Let_def split: if_splits sum.splits)
  have wf1: "wf_bucket b1" using wf_bucket_take [OF "2.prems"(1), of n t] by (simp add: take)
  show ?case
  proof (cases "x \<or> ts = []")
    case True
    then show ?thesis by (cases x; cases ts) (auto simp: take r)
  next
    case False
    then obtain u us where ts: "ts = u # us" by (cases ts) auto
    obtain w where wait: "wait_ns n u b1 = (refill u b1, Inr w)"
      using wait_ns_ok [OF wf1 "2.prems"(2), of u] "2.prems"(3) cap by auto
    have "snd (acquire_on n us (refill u b1)) \<noteq> AcquireFailed e"
      using "2.IH" [of b1 r False u us "refill u b1" "Inr w" w] "2.prems" wf1 cap False
      by (simp add: take r ts wait wf_bucket_refill)
    then show ?thesis using False by (simp add: take r ts wait)
  qed
qed simp

section \<open>Properties\<close>

definition example_bucket :: token_bucket where
  "example_bucket = \<lparr>tb_refill_per_s = 100, tb_capacity = 100, tb_tokens_e9 = 5000000000, tb_last_ns = 0\<rparr>"

text \<open>
  C37. The rate is never exceeded: over any sequence of takes, queries, waits and whole
  acquisitions, at any times, the tokens granted by a bucket are at most its capacity plus the
  refill rate times the time between its creation and the last reading it accepted.
\<close>

theorem bucket_rate_bound:
  assumes "new_token_bucket limits now = Inr b"
  shows "total_granted ops b * NS_PER_S \<le>
    bl_capacity limits * NS_PER_S + bl_refill_per_s limits * (tb_last_ns (fold bucket_step ops b) - now)"
proof -
  have wf: "wf_bucket b" by (rule wf_bucket_new [OF assms])
  have r: "tb_refill_per_s (fold bucket_step ops b) = tb_refill_per_s b"
    using limits_run [of b ops] by (simp add: same_limits_def)
  have "0 \<le> tb_tokens_e9 (fold bucket_step ops b)"
    using bucket_meter.inv_run [OF wf, of ops] by (simp add: wf_bucket_def)
  then show ?thesis
    using bucket_meter.total_paid_bound [OF wf, of ops] assms r total_paid_granted [of ops b]
    by (auto simp: bucket_potential_def new_token_bucket_def algebra_simps split: if_splits)
qed

theorem bucket_rate_bound_witness:
  "total_granted [OpTake 100 0, OpTake 10 1, OpAcquire 10 [2, 3, 100000003]]
     (example_bucket\<lparr>tb_tokens_e9 := 100 * NS_PER_S\<rparr>) = 110 \<and>
   110 * NS_PER_S \<le> 100 * NS_PER_S + 100 * (100000003 - 0)"
proof -
  let ?b = "example_bucket\<lparr>tb_tokens_e9 := 100 * NS_PER_S\<rparr>"
  let ?ops = "[OpTake 100 0, OpTake 10 1, OpAcquire 10 [2, 3, 100000003]]"
  have "new_token_bucket BASIC_WRITE 0 = Inr ?b"
    by (simp add: example_bucket_def new_token_bucket_def BASIC_WRITE_def)
  note bound = bucket_rate_bound [OF this, of ?ops]
  have "total_granted ?ops ?b = 110"
    by (simp add: example_bucket_def NS_PER_S_def try_take_def wait_ns_def check_tokens_def refill_def Let_def)
  moreover have "tb_last_ns (fold bucket_step ?ops ?b) = 100000003"
    by (simp add: example_bucket_def NS_PER_S_def try_take_def wait_ns_def check_tokens_def refill_def Let_def)
  ultimately show ?thesis using bound by (simp add: BASIC_WRITE_def)
qed

text \<open>
  The wait is exact: the delay \<open>wait_ns\<close> computes is the least one after which the tokens can
  be taken, never a nanosecond short and never one too long.
\<close>

theorem wait_is_exact:
  assumes "wf_bucket b" "0 < n" "n \<le> tb_capacity b" "tb_last_ns b \<le> now" "0 \<le> d"
  shows "\<exists>w\<ge>0. wait_ns n now b = (refill now b, Inr w) \<and>
    (snd (try_take n (now + d) (refill now b)) = Inr True \<longleftrightarrow> w \<le> d)"
proof -
  obtain w where w: "wait_ns n now b = (refill now b, Inr w)" "0 \<le> w"
    "w \<le> d \<longleftrightarrow> n * NS_PER_S \<le> tb_tokens_e9 (refill now b) + d * tb_refill_per_s b"
    using wait_ns_ok [OF assms(1-3), of now] assms(5) by blast
  have "now + d - max (tb_last_ns b) now = d" using assms(4) by (simp add: max_def)
  then show ?thesis
    using w try_take_ok [OF wf_bucket_refill [OF assms(1), of now] assms(2), of "now + d"] assms
    by (auto simp: max_def)
qed

theorem wait_is_exact_witness:
  "new_token_bucket BASIC_WRITE 0 = Inr (example_bucket\<lparr>tb_tokens_e9 := 100 * NS_PER_S\<rparr>) \<and>
   wait_ns 10 5 example_bucket = (refill 5 example_bucket, Inr 49999995) \<and>
   snd (try_take 10 50000000 (refill 5 example_bucket)) = Inr True"
proof -
  have w: "wait_ns 10 5 example_bucket = (refill 5 example_bucket, Inr 49999995)"
    by (simp add: example_bucket_def wait_ns_def check_tokens_def refill_def NS_PER_S_def Let_def)
  moreover have "wf_bucket example_bucket" "tb_capacity example_bucket = 100" "tb_last_ns example_bucket = 0"
    by (simp_all add: example_bucket_def wf_bucket_def NS_PER_S_def)
  then have "snd (try_take 10 (5 + 49999995) (refill 5 example_bucket)) = Inr True"
    using wait_is_exact [of example_bucket 10 5 49999995] w by simp
  ultimately show ?thesis
    by (simp add: example_bucket_def new_token_bucket_def BASIC_WRITE_def)
qed

text \<open>
  C36. Acquiring returns: on a clock that never goes back and passes every time, however long the
  sleeps between readings last, the waiting loop takes the tokens after finitely many readings, and
  a cost the bucket admits never makes it fail.
\<close>

theorem acquire_returns:
  assumes "wf_bucket b" "0 < n" "n \<le> tb_capacity b" "mono clock" "\<And>m. \<exists>i. m \<le> clock i"
  shows "\<exists>k. snd (acquire_on n (map clock [0..<k]) b) = Acquired"
proof -
  obtain i where i: "tb_last_ns b + n * NS_PER_S \<le> clock i" using assms(5) by blast
  let ?ts = "map clock [0..<Suc (2 * i)]"
  have "sorted (map clock [0..<k])" for k using assms(4) by (induction k) (auto simp: sorted_append mono_def)
  then have "sorted ?ts" by blast
  moreover have "last ?ts = clock (2 * i)" by simp
  moreover have "clock i \<le> clock (2 * i)" using assms(4) by (simp add: mono_def)
  moreover have "1 \<le> tb_refill_per_s b" "0 \<le> tb_tokens_e9 b" using assms(1) by (auto simp: wf_bucket_def)
  then have "n * NS_PER_S \<le> tb_tokens_e9 b + max 0 (m - tb_last_ns b) * tb_refill_per_s b"
    if "tb_last_ns b + n * NS_PER_S \<le> m" for m
    using that mult_left_mono [of 1 "tb_refill_per_s b" "max 0 (m - tb_last_ns b)"] by simp
  ultimately have "\<not> tb_tokens_e9 b + max 0 (last ?ts - tb_last_ns b) * tb_refill_per_s b < n * NS_PER_S"
    using i by (metis leD order_trans)
  then have "snd (acquire_on n ?ts b) \<noteq> Waiting"
    using acquire_waiting_short [OF _ _ \<open>sorted ?ts\<close> assms(1-3)] by auto
  then show ?thesis using acquire_not_failed [OF assms(1-3)] acquire_outcome.exhaust by metis
qed

theorem acquire_returns_witness:
  "\<exists>k. snd (acquire_on 10 (map (\<lambda>i. 1000000 * int i) [0..<k]) example_bucket) = Acquired"
proof -
  have "wf_bucket example_bucket" "10 \<le> tb_capacity example_bucket"
    by (simp_all add: example_bucket_def wf_bucket_def NS_PER_S_def)
  moreover have "mono (\<lambda>i. 1000000 * int i)" by (simp add: mono_def)
  moreover have "\<exists>i. m \<le> 1000000 * int i" for m by (rule exI [of _ "nat m"]) simp
  ultimately show ?thesis using acquire_returns [of example_bucket 10 "\<lambda>i. 1000000 * int i"] by simp
qed

end
