(* ===== verification/Convert.thy ===== *)
theory Convert
  imports Fixedpoint Events Book
begin

text \<open>
  \<^verbatim>\<open>tape/wire/ws.py\<close>, \<^verbatim>\<open>tape/wire/rest.py\<close> (the order book) and \<^verbatim>\<open>tape/wire/convert.py\<close>: the decoded
  messages and their conversion to events. Decoding JSON is msgspec's; a message here is what its
  decoder returned. Fields no conversion reads are left out of the message records. The payload
  of an envelope is its bytes, and \<open>utf8\<close> is the decoding of bytes to text, which may fail.
\<close>

record envelope =
  en_type :: string
  en_sid :: "int option"
  en_seq :: "int option"
  en_id :: "int option"
  en_msg :: string

datatype market_side = MsYes | MsNo
datatype book_side = BsBid | BsAsk

record orderbook_snapshot_msg =
  osm_market_ticker :: string
  osm_yes_dollars_fp :: "(string \<times> string) list option"
  osm_no_dollars_fp :: "(string \<times> string) list option"

record orderbook_delta_msg =
  odm_market_ticker :: string
  odm_price_dollars :: string
  odm_delta_fp :: string
  odm_side :: market_side
  odm_client_order_id :: "string option"
  odm_ts_ms :: "int option"

record trade_msg =
  tm_trade_id :: string
  tm_market_ticker :: string
  tm_yes_price_dollars :: string
  tm_count_fp :: string
  tm_taker_book_side :: book_side
  tm_ts_ms :: int
  tm_is_block_trade :: bool

record ticker_msg =
  tkm_market_ticker :: string
  tkm_ts_ms :: int
  tkm_price_dollars :: "string option"
  tkm_yes_bid_dollars :: "string option"
  tkm_yes_ask_dollars :: "string option"
  tkm_yes_bid_size_fp :: "string option"
  tkm_yes_ask_size_fp :: "string option"
  tkm_volume_fp :: "string option"
  tkm_open_interest_fp :: "string option"

record market_lifecycle_msg =
  mlm_event_type :: string
  mlm_market_ticker :: string
  mlm_close_ts :: "int option"

record orderbook_count_fp =
  oc_yes_dollars :: "(string \<times> string) list"
  oc_no_dollars :: "(string \<times> string) list"

datatype convert_error = WireError string | FixedPointError fixed_point_error | UnicodeError

fun fixed :: "fixed_point_error + 'a \<Rightarrow> convert_error + 'a" where
  "fixed (Inl e) = Inl (FixedPointError e)"
| "fixed (Inr x) = Inr x"

section \<open>Conversions\<close>

fun wire_levels :: "bool \<Rightarrow> (string \<times> string) list \<Rightarrow> fixed_point_error + level list" where
  "wire_levels to_yes [] = Inr []"
| "wire_levels to_yes ((price_text, count_text) # pairs) =
     result_bind (parse_price price_text) (\<lambda>price.
     result_bind (parse_count count_text) (\<lambda>count.
       if count = 0 then wire_levels to_yes pairs
       else result_bind (wire_levels to_yes pairs) (\<lambda>out.
         Inr (Level (if to_yes then complement price else price) count # out))))"

definition opt_levels :: "bool \<Rightarrow> (string \<times> string) list option \<Rightarrow> fixed_point_error + level list" where
  "opt_levels to_yes pairs = (case pairs of None \<Rightarrow> Inr [] | Some ps \<Rightarrow> wire_levels to_yes ps)"

definition rest_orderbook_levels :: "orderbook_count_fp \<Rightarrow> fixed_point_error + (level list \<times> level list)" where
  "rest_orderbook_levels book =
     result_bind (wire_levels False (oc_yes_dollars book)) (\<lambda>bids.
     result_bind (wire_levels True (oc_no_dollars book)) (\<lambda>asks. Inr (bids, asks)))"

definition to_book_snapshot ::
  "orderbook_snapshot_msg \<Rightarrow> envelope \<Rightarrow> receipt \<Rightarrow> bool \<Rightarrow> convert_error + book_snapshot" where
  "to_book_snapshot msg env rc use_yes_price =
     (case en_sid env of
        None \<Rightarrow> Inl (WireError ''orderbook_snapshot without sid'')
      | Some sid \<Rightarrow>
          fixed (result_bind (opt_levels False (osm_yes_dollars_fp msg)) (\<lambda>bids.
                 result_bind (opt_levels (\<not> use_yes_price) (osm_no_dollars_fp msg)) (\<lambda>asks.
                 Inr \<lparr>bs_ticker = osm_market_ticker msg, bs_ts_ms = None, bs_receipt = rc, bs_sid = sid,
                   bs_seq = en_seq env, bs_bids = bids, bs_asks = asks\<rparr>))))"

definition to_book_delta ::
  "orderbook_delta_msg \<Rightarrow> envelope \<Rightarrow> receipt \<Rightarrow> bool \<Rightarrow> convert_error + book_delta" where
  "to_book_delta msg env rc use_yes_price =
     (case en_sid env of
        None \<Rightarrow> Inl (WireError ''orderbook_delta without sid'')
      | Some sid \<Rightarrow>
          fixed (result_bind (parse_price (odm_price_dollars msg)) (\<lambda>price0.
            let s = (if odm_side msg = MsYes then BID else ASK);
                price = (if odm_side msg = MsYes then price0
                         else if \<not> use_yes_price then complement price0 else price0)
            in result_bind (parse_signed_count (odm_delta_fp msg)) (\<lambda>delta.
                 Inr \<lparr>bd_ticker = odm_market_ticker msg, bd_ts_ms = odm_ts_ms msg, bd_receipt = rc,
                   bd_sid = sid, bd_seq = en_seq env, bd_side = s, bd_price = price, bd_delta = delta,
                   bd_own_client_order_id = odm_client_order_id msg\<rparr>))))"

definition to_trade :: "trade_msg \<Rightarrow> envelope \<Rightarrow> receipt \<Rightarrow> convert_error + trade" where
  "to_trade msg env rc =
     (case en_sid env of
        None \<Rightarrow> Inl (WireError ''trade without sid'')
      | Some sid \<Rightarrow>
          fixed (result_bind (parse_price (tm_yes_price_dollars msg)) (\<lambda>price.
                 result_bind (parse_count (tm_count_fp msg)) (\<lambda>count.
                 Inr \<lparr>tr_ticker = tm_market_ticker msg, tr_ts_ms = tm_ts_ms msg, tr_receipt = rc,
                   tr_sid = sid, tr_seq = en_seq env, tr_trade_id = tm_trade_id msg, tr_price = price,
                   tr_count = count, tr_taker_side = (if tm_taker_book_side msg = BsBid then BID else ASK),
                   tr_is_block = tm_is_block_trade msg\<rparr>))))"

definition opt_price :: "string option \<Rightarrow> fixed_point_error + int option" where
  "opt_price t = (case t of None \<Rightarrow> Inr None | Some s \<Rightarrow> result_bind (parse_price s) (\<lambda>p. Inr (Some p)))"

definition opt_count :: "string option \<Rightarrow> fixed_point_error + int option" where
  "opt_count t = (case t of None \<Rightarrow> Inr None | Some s \<Rightarrow> result_bind (parse_count s) (\<lambda>c. Inr (Some c)))"

text \<open>\<^verbatim>\<open>value or CountE2(0)\<close>: an absent and a zero count are both zero.\<close>

definition or_zero :: "int option \<Rightarrow> int" where
  "or_zero c = (case c of None \<Rightarrow> 0 | Some n \<Rightarrow> if n = 0 then 0 else n)"

definition to_ticker :: "ticker_msg \<Rightarrow> envelope \<Rightarrow> receipt \<Rightarrow> convert_error + ticker_event" where
  "to_ticker msg env rc =
     (case en_sid env of
        None \<Rightarrow> Inl (WireError ''ticker without sid'')
      | Some sid \<Rightarrow>
          fixed (result_bind (opt_price (tkm_price_dollars msg)) (\<lambda>last_price.
                 result_bind (opt_price (tkm_yes_bid_dollars msg)) (\<lambda>bid.
                 result_bind (opt_price (tkm_yes_ask_dollars msg)) (\<lambda>ask.
                 result_bind (opt_count (tkm_yes_bid_size_fp msg)) (\<lambda>bid_size.
                 result_bind (opt_count (tkm_yes_ask_size_fp msg)) (\<lambda>ask_size.
                 result_bind (opt_count (tkm_volume_fp msg)) (\<lambda>volume.
                 result_bind (opt_count (tkm_open_interest_fp msg)) (\<lambda>open_interest.
                 Inr \<lparr>tk_ticker = tkm_market_ticker msg, tk_ts_ms = tkm_ts_ms msg, tk_receipt = rc,
                   tk_sid = sid, tk_last = last_price, tk_bid = bid, tk_ask = ask, tk_bid_size = bid_size,
                   tk_ask_size = ask_size, tk_volume = or_zero volume,
                   tk_open_interest = or_zero open_interest\<rparr>)))))))))"

definition to_lifecycle ::
  "(string \<Rightarrow> string option) \<Rightarrow> market_lifecycle_msg \<Rightarrow> envelope \<Rightarrow> receipt \<Rightarrow> convert_error + lifecycle" where
  "to_lifecycle utf8 msg env rc =
     (case en_sid env of
        None \<Rightarrow> Inl (WireError ''market_lifecycle_v2 without sid'')
      | Some sid \<Rightarrow>
          (case utf8 (en_msg env) of
             None \<Rightarrow> Inl UnicodeError
           | Some text \<Rightarrow>
               Inr \<lparr>lc_ticker = mlm_market_ticker msg, lc_receipt = rc, lc_sid = sid, lc_seq = en_seq env,
                 lc_event_type = mlm_event_type msg, lc_payload_json = text,
                 lc_close_ts = mlm_close_ts msg\<rparr>))"

section \<open>What the levels are\<close>

lemma complement_in [simp]:
  "0 \<le> p \<Longrightarrow> p \<le> PRICE_MAX \<Longrightarrow> 0 \<le> complement p"
  "0 \<le> p \<Longrightarrow> p \<le> PRICE_MAX \<Longrightarrow> complement p \<le> PRICE_MAX"
  using complement_range by blast+

lemma fixed_simps [simp]:
  "fixed r = Inr x \<longleftrightarrow> r = Inr x"
  "fixed r = Inl e \<longleftrightarrow> (\<exists>f. r = Inl f \<and> e = FixedPointError f)"
  by (cases r; auto)+

text \<open>One parsed pair, before zero counts are dropped.\<close>

definition parse_pair :: "string \<times> string \<Rightarrow> fixed_point_error + (int \<times> int)" where
  "parse_pair pc = result_bind (parse_price (fst pc)) (\<lambda>p. result_bind (parse_count (snd pc)) (\<lambda>c. Inr (p, c)))"

definition yes_level :: "bool \<Rightarrow> int \<times> int \<Rightarrow> level" where
  "yes_level to_yes pc = Level (if to_yes then complement (fst pc) else fst pc) (snd pc)"

lemma wire_levels_spec:
  "wire_levels to_yes pairs =
     result_bind (result_list parse_pair pairs) (\<lambda>pcs. Inr (map (yes_level to_yes) (filter (\<lambda>pc. snd pc \<noteq> 0) pcs)))"
proof (induction pairs)
  case (Cons pair pairs)
  obtain pt ct where pair: "pair = (pt, ct)" by fastforce
  have "parse_pair (pt, ct) = result_bind (parse_price pt) (\<lambda>p. result_bind (parse_count ct) (\<lambda>c. Inr (p, c)))"
    by (simp add: parse_pair_def)
  then show ?case
    by (cases "parse_price pt"; cases "parse_count ct"; cases "result_list parse_pair pairs")
      (simp_all add: pair Cons.IH yes_level_def)
qed simp

lemma parse_pair_range: "parse_pair pc = Inr (p, c) \<Longrightarrow> 0 \<le> p \<and> p \<le> PRICE_MAX \<and> 0 \<le> c"
  using parse_price_range parse_count_nonneg by (auto simp: parse_pair_def result_simps)

lemma result_list_mem: "result_list f xs = Inr ys \<Longrightarrow> y \<in> set ys \<Longrightarrow> \<exists>x\<in>set xs. f x = Inr y"
  by (induction xs arbitrary: ys) (auto simp: result_simps)

lemma wire_levels_range:
  assumes "wire_levels to_yes pairs = Inr ls" "l \<in> set ls"
  shows "0 \<le> lv_price l \<and> lv_price l \<le> PRICE_MAX \<and> 0 < lv_count l"
proof -
  obtain pcs where pcs: "result_list parse_pair pairs = Inr pcs"
      "ls = map (yes_level to_yes) (filter (\<lambda>pc. snd pc \<noteq> 0) pcs)"
    using assms(1) by (auto simp: wire_levels_spec result_simps)
  then obtain p c where "l = yes_level to_yes (p, c)" "(p, c) \<in> set pcs" "c \<noteq> 0"
    using assms(2) by auto
  moreover from this have "0 \<le> p \<and> p \<le> PRICE_MAX \<and> 0 \<le> c"
    using result_list_mem [OF pcs(1)] parse_pair_range by blast
  ultimately show ?thesis by (auto simp: yes_level_def)
qed

definition priced :: "(int \<times> int) list \<Rightarrow> (string \<times> string) list" where
  "priced pcs = map (\<lambda>(p, c). (format_price p, format_count c)) pcs"

definition in_range :: "int \<times> int \<Rightarrow> bool" where
  "in_range pc \<longleftrightarrow> 0 \<le> fst pc \<and> fst pc \<le> PRICE_MAX \<and> 0 \<le> snd pc \<and> snd pc < 10 ^ CONTEXT_PREC"

lemma wire_levels_priced:
  "list_all in_range pcs \<Longrightarrow>
   wire_levels to_yes (priced pcs) = Inr (map (yes_level to_yes) (filter (\<lambda>pc. snd pc \<noteq> 0) pcs))"
proof -
  assume r: "list_all in_range pcs"
  have "result_list parse_pair (priced pcs) = Inr pcs"
    using r by (induction pcs) (auto simp: priced_def parse_pair_def in_range_def parse_format_price parse_format_count)
  then show ?thesis by (simp add: wire_levels_spec)
qed

section \<open>Properties\<close>

text \<open>
  C39. One book, three wire forms: a NO bid at a price is a YES ask at its complement. Given any
  book as YES bids and NO bids, the snapshot of a subscription in NO prices, the snapshot of one
  in YES prices and the REST order book convert to the same bids and asks, and these are the
  levels with a positive count.
\<close>

theorem wire_forms_agree:
  assumes "list_all in_range yes" "list_all in_range no" "en_sid env = Some sid"
  shows "\<exists>bids asks.
    rest_orderbook_levels \<lparr>oc_yes_dollars = priced yes, oc_no_dollars = priced no\<rparr> = Inr (bids, asks) \<and>
    to_book_snapshot \<lparr>osm_market_ticker = t, osm_yes_dollars_fp = Some (priced yes),
        osm_no_dollars_fp = Some (priced no)\<rparr> env rc False =
      to_book_snapshot \<lparr>osm_market_ticker = t, osm_yes_dollars_fp = Some (priced yes),
        osm_no_dollars_fp = Some (priced (map (\<lambda>(q, c). (complement q, c)) no))\<rparr> env rc True \<and>
    to_book_snapshot \<lparr>osm_market_ticker = t, osm_yes_dollars_fp = Some (priced yes),
        osm_no_dollars_fp = Some (priced no)\<rparr> env rc False =
      Inr \<lparr>bs_ticker = t, bs_ts_ms = None, bs_receipt = rc, bs_sid = sid, bs_seq = en_seq env,
        bs_bids = bids, bs_asks = asks\<rparr> \<and>
    (\<forall>p c. Level p c \<in> set bids \<longleftrightarrow> (p, c) \<in> set yes \<and> c \<noteq> 0) \<and>
    (\<forall>q c. Level (complement q) c \<in> set asks \<longleftrightarrow> (q, c) \<in> set no \<and> c \<noteq> 0)"
proof -
  let ?no = "map (\<lambda>(q, c). (complement q, c)) no"
  have "list_all in_range ?no" using assms(2) by (auto simp: list_all_iff in_range_def)
  moreover have "map (yes_level False) (filter (\<lambda>pc. snd pc \<noteq> 0) ?no) =
      map (yes_level True) (filter (\<lambda>pc. snd pc \<noteq> 0) no)"
    by (induction no) (auto simp: yes_level_def)
  ultimately show ?thesis
    using assms(1,2)
    by (auto simp: rest_orderbook_levels_def to_book_snapshot_def opt_levels_def assms(3) wire_levels_priced
        yes_level_def image_iff)
qed

theorem wire_forms_agree_witness:
  "list_all in_range [(5600, 100), (5500, 0)] \<and> list_all in_range [(4300, 40)] \<and>
   (\<exists>bids asks. rest_orderbook_levels \<lparr>oc_yes_dollars = priced [(5600, 100), (5500, 0)],
       oc_no_dollars = priced [(4300, 40)]\<rparr> = Inr (bids, asks) \<and>
     Level 5600 100 \<in> set bids \<and> (\<forall>c. Level 5500 c \<notin> set bids) \<and> Level 5700 40 \<in> set asks)"
proof -
  have r: "list_all in_range [(5600, 100), (5500, 0)]" "list_all in_range [(4300, 40)]"
    by (simp_all add: in_range_def PRICE_MAX_def PRICE_SCALE_def CONTEXT_PREC_def)
  have c: "complement 4300 = 5700" by (simp add: complement_def PRICE_SCALE_def)
  let ?env = "\<lparr>en_type = ''orderbook_snapshot'', en_sid = Some 1, en_seq = Some 1, en_id = None, en_msg = ''''\<rparr>"
  have env: "en_sid ?env = Some 1" by simp
  obtain bids asks where b: "rest_orderbook_levels \<lparr>oc_yes_dollars = priced [(5600, 100), (5500, 0)],
       oc_no_dollars = priced [(4300, 40)]\<rparr> = Inr (bids, asks)"
    "\<And>p c. Level p c \<in> set bids \<longleftrightarrow> (p, c) \<in> set [(5600, 100), (5500, 0)] \<and> c \<noteq> 0"
    "\<And>q c. Level (complement q) c \<in> set asks \<longleftrightarrow> (q, c) \<in> set [(4300, 40)] \<and> c \<noteq> 0"
    using wire_forms_agree [OF r env, of "''KXA-1''" "\<lparr>rc_conn_id = 0, rc_recv_mono_ns = 1, rc_recv_wall_ns = 2\<rparr>"]
    by (elim exE conjE) blast
  from b(3) [of 4300 40] c have "Level 5700 40 \<in> set asks" by simp
  with b(1) b(2) [of 5600 100] b(2) [of 5500] r show ?thesis by auto
qed

text \<open>
  Conversion guards the book: a converted snapshot carries only prices of the YES scale and
  positive counts, so applying it fails for a duplicate price or a crossed image and for nothing
  else; a converted delta carries a price of the scale. Without a \<^verbatim>\<open>sid\<close> every conversion fails
  before it parses anything.
\<close>

theorem conversion_guards_book:
  "(to_book_snapshot msg env rc yes = Inr s \<longrightarrow>
      (\<forall>l\<in>set (bs_bids s @ bs_asks s). 0 \<le> lv_price l \<and> lv_price l \<le> PRICE_MAX \<and> 0 < lv_count l) \<and>
      (snd (apply_snapshot (bs_bids s) (bs_asks s) ts b) = Inr () \<longleftrightarrow>
        distinct (map lv_price (bs_bids s)) \<and> distinct (map lv_price (bs_asks s)) \<and>
        \<not> abs_crossed (levels_sizes (bs_bids s) (bs_asks s)))) \<and>
   (to_book_delta dmsg env rc yes = Inr d \<longrightarrow>
      0 \<le> bd_price d \<and> bd_price d \<le> PRICE_MAX \<and> (bd_side d = BID \<longleftrightarrow> odm_side dmsg = MsYes)) \<and>
   (en_sid env = None \<longrightarrow>
      to_book_snapshot msg env rc yes = Inl (WireError ''orderbook_snapshot without sid'') \<and>
      to_book_delta dmsg env rc yes = Inl (WireError ''orderbook_delta without sid'') \<and>
      to_trade tmsg env rc = Inl (WireError ''trade without sid'') \<and>
      to_ticker kmsg env rc = Inl (WireError ''ticker without sid'') \<and>
      to_lifecycle utf8 lmsg env rc = Inl (WireError ''market_lifecycle_v2 without sid''))"
proof -
  have range: "\<forall>l\<in>set (bs_bids s @ bs_asks s). 0 \<le> lv_price l \<and> lv_price l \<le> PRICE_MAX \<and> 0 < lv_count l"
    if "to_book_snapshot msg env rc yes = Inr s"
    using that by (auto simp: to_book_snapshot_def opt_levels_def result_simps dest!: wire_levels_range
        split: option.splits)
  have "snd (apply_snapshot (bs_bids s) (bs_asks s) ts b) = Inr () \<longleftrightarrow>
      valid_image (bs_bids s) (bs_asks s)"
    using apply_snapshot_valid [of "bs_bids s" "bs_asks s" ts b] apply_snapshot_invalid [of "bs_bids s" "bs_asks s" ts b]
    by (cases "valid_image (bs_bids s) (bs_asks s)") auto
  moreover have "0 \<le> bd_price d \<and> bd_price d \<le> PRICE_MAX \<and> (bd_side d = BID \<longleftrightarrow> odm_side dmsg = MsYes)"
    if "to_book_delta dmsg env rc yes = Inr d"
    using that
    by (auto simp: to_book_delta_def result_simps Let_def dest!: parse_price_range split: option.splits if_splits)
  ultimately show ?thesis using range
    by (auto simp: valid_image_def valid_levels_def to_book_snapshot_def to_book_delta_def to_trade_def
        to_ticker_def to_lifecycle_def)
qed

theorem conversion_guards_book_witness:
  "to_book_delta \<lparr>odm_market_ticker = ''KXA-1'', odm_price_dollars = format_price 4300, odm_delta_fp = ''5.00'',
       odm_side = MsNo, odm_client_order_id = None, odm_ts_ms = Some 9\<rparr>
     \<lparr>en_type = ''orderbook_delta'', en_sid = None, en_seq = Some 2, en_id = None, en_msg = ''''\<rparr> \<lparr>rc_conn_id = 0, rc_recv_mono_ns = 1, rc_recv_wall_ns = 2\<rparr> False =
   Inl (WireError ''orderbook_delta without sid'')"
  using conversion_guards_book [where env = "\<lparr>en_type = ''orderbook_delta'', en_sid = None, en_seq = Some 2, en_id = None, en_msg = ''''\<rparr>"]
  by simp

end
