(* ===== verification/Bus.thy ===== *)
theory Bus
  imports Prelude Events
begin

text \<open>
  \<^verbatim>\<open>tape/bus/ports.py\<close>, \<^verbatim>\<open>tape/bus/envelope.py\<close> and the publisher of \<^verbatim>\<open>tape/bus/sockets.py\<close>: the
  numbered envelope, topics, the publishing transport and its counters. The ZeroMQ socket is not
  part of the program: what it does with one send is an argument, and the frames handed to it are
  kept in \<open>zp_wire\<close>. MessagePack encoding is msgspec's; \<open>encode\<close> is a parameter that may fail.
\<close>

definition MARKET_DATA_PREFIX :: string where "MARKET_DATA_PREFIX = ''md.''"
definition CONTROL_PREFIX :: string where "CONTROL_PREFIX = ''ctl.''"
definition LIFECYCLE_TOPIC :: string where "LIFECYCLE_TOPIC = ''ctl.lifecycle''"
definition GAP_TOPIC :: string where "GAP_TOPIC = ''ctl.gap''"
definition CATALOG_TOPIC :: string where "CATALOG_TOPIC = ''ctl.catalog''"
definition STATUS_TOPIC :: string where "STATUS_TOPIC = ''ctl.status''"
definition FIRST_BUS_SEQ :: int where "FIRST_BUS_SEQ = 1"

record bus_envelope =
  be_epoch :: int
  be_seq :: int
  be_event :: bus_event

fun topic_for :: "bus_event \<Rightarrow> string" where
  "topic_for (EvLifecycle e) = LIFECYCLE_TOPIC"
| "topic_for (EvGap e) = GAP_TOPIC"
| "topic_for (EvCatalog e) = CATALOG_TOPIC"
| "topic_for (EvStatus e) = STATUS_TOPIC"
| "topic_for (EvSnapshot e) = MARKET_DATA_PREFIX @ bs_ticker e"
| "topic_for (EvDelta e) = MARKET_DATA_PREFIX @ bd_ticker e"
| "topic_for (EvTrade e) = MARKET_DATA_PREFIX @ tr_ticker e"
| "topic_for (EvTicker e) = MARKET_DATA_PREFIX @ tk_ticker e"
| "topic_for (EvRefresh e) = MARKET_DATA_PREFIX @ br_ticker e"

section \<open>The transport\<close>

record publisher_stats =
  ps_sent :: int
  ps_dropped :: int
  ps_errors :: int

datatype send_result = SendOk | SendAgain | SendError

record 'p zmq_publisher =
  zp_closed :: bool
  zp_sent :: int
  zp_dropped :: int
  zp_errors :: int
  zp_wire :: "(string \<times> 'p) list"

definition new_zmq_publisher :: "'p zmq_publisher" where
  "new_zmq_publisher = \<lparr>zp_closed = False, zp_sent = 0, zp_dropped = 0, zp_errors = 0, zp_wire = []\<rparr>"

lemma new_zmq_counters [simp]:
  "zp_sent new_zmq_publisher = 0" "zp_dropped new_zmq_publisher = 0" "zp_errors new_zmq_publisher = 0"
  by (simp_all add: new_zmq_publisher_def)

definition zp_stats :: "'p zmq_publisher \<Rightarrow> publisher_stats" where
  "zp_stats z = \<lparr>ps_sent = zp_sent z, ps_dropped = zp_dropped z, ps_errors = zp_errors z\<rparr>"

definition zp_publish :: "send_result \<Rightarrow> string \<Rightarrow> 'p \<Rightarrow> 'p zmq_publisher \<Rightarrow> 'p zmq_publisher" where
  "zp_publish outcome topic payload z =
     (if zp_closed z then z\<lparr>zp_errors := zp_errors z + 1\<rparr>
      else case outcome of
        SendAgain \<Rightarrow> z\<lparr>zp_dropped := zp_dropped z + 1\<rparr>
      | SendError \<Rightarrow> z\<lparr>zp_errors := zp_errors z + 1\<rparr>
      | SendOk \<Rightarrow> z\<lparr>zp_sent := zp_sent z + 1, zp_wire := zp_wire z @ [(topic, payload)]\<rparr>)"

definition zp_close :: "'p zmq_publisher \<Rightarrow> 'p zmq_publisher" where
  "zp_close z = (if zp_closed z then z else z\<lparr>zp_closed := True\<rparr>)"

section \<open>Numbering\<close>

record sequenced_publisher =
  sp_epoch :: int
  sp_last_seq :: int
  sp_failures :: int

datatype publisher_error = NegativeEpoch int

definition new_sequenced_publisher :: "int \<Rightarrow> publisher_error + sequenced_publisher" where
  "new_sequenced_publisher epoch =
     (if epoch < 0 then Inl (NegativeEpoch epoch)
      else Inr \<lparr>sp_epoch = epoch, sp_last_seq = FIRST_BUS_SEQ - 1, sp_failures = 0\<rparr>)"

definition next_envelope :: "bus_event \<Rightarrow> sequenced_publisher \<Rightarrow> bus_envelope" where
  "next_envelope ev sp = \<lparr>be_epoch = sp_epoch sp, be_seq = sp_last_seq sp + 1, be_event = ev\<rparr>"

text \<open>\<open>pub\<close> is the transport's \<^verbatim>\<open>publish\<close>; an encoding that raises is counted and swallowed.\<close>

definition sp_publish ::
  "(bus_envelope \<Rightarrow> 'p option) \<Rightarrow> (string \<Rightarrow> 'p \<Rightarrow> 't \<Rightarrow> 't) \<Rightarrow> bus_event \<Rightarrow>
   sequenced_publisher \<times> 't \<Rightarrow> sequenced_publisher \<times> 't" where
  "sp_publish encode pub ev st =
     (case st of (sp, t) \<Rightarrow>
        (let env = next_envelope ev sp; sp' = sp\<lparr>sp_last_seq := sp_last_seq sp + 1\<rparr>
         in case encode env of
              None \<Rightarrow> (sp'\<lparr>sp_failures := sp_failures sp' + 1\<rparr>, t)
            | Some payload \<Rightarrow> (sp', pub (topic_for ev) payload t)))"

definition sp_stats :: "publisher_stats \<Rightarrow> sequenced_publisher \<Rightarrow> publisher_stats" where
  "sp_stats stats sp = stats\<lparr>ps_errors := ps_errors stats + sp_failures sp\<rparr>"

section \<open>The transport contract\<close>

text \<open>
  The promise of \<^verbatim>\<open>Publisher\<close> in \<^verbatim>\<open>ports.py\<close>: each call to \<open>pub\<close> adds one to exactly one of the
  three counters; what the outside world decides about a send is the argument \<open>'i\<close>.
\<close>

locale transport =
  fixes pub :: "'i \<Rightarrow> string \<Rightarrow> 'p \<Rightarrow> 't \<Rightarrow> 't"
    and close :: "'t \<Rightarrow> 't"
    and stats :: "'t \<Rightarrow> publisher_stats"
  assumes pub_counts: "ps_sent (stats (pub i topic p t)) + ps_dropped (stats (pub i topic p t)) +
      ps_errors (stats (pub i topic p t)) =
      ps_sent (stats t) + ps_dropped (stats t) + ps_errors (stats t) + 1"
    and close_counts: "stats (close t) = stats t"
    and close_idempotent: "close (close t) = close t"
begin

definition attempts :: "'t \<Rightarrow> int" where
  "attempts t = ps_sent (stats t) + ps_dropped (stats t) + ps_errors (stats t)"

lemma attempts_publish:
  "attempts (snd (sp_publish encode (pub i) ev (sp, t))) + sp_failures (fst (sp_publish encode (pub i) ev (sp, t))) =
   attempts t + sp_failures sp + 1"
  by (auto simp: sp_publish_def Let_def attempts_def pub_counts split: option.splits)

lemma attempts_run:
  "attempts (snd (fold (\<lambda>(i, ev). sp_publish encode (pub i) ev) evs (sp, t))) +
   sp_failures (fst (fold (\<lambda>(i, ev). sp_publish encode (pub i) ev) evs (sp, t))) =
   attempts t + sp_failures sp + int (length evs)"
proof (induction evs arbitrary: sp t)
  case (Cons ie evs)
  obtain i ev where ie: "ie = (i, ev)" by fastforce
  obtain sp' t' where r: "sp_publish encode (pub i) ev (sp, t) = (sp', t')" by fastforce
  then show ?case using Cons.IH [of sp' t'] attempts_publish [of encode i ev sp t] by (simp add: ie r)
qed simp

end

interpretation zmq: transport zp_publish zp_close zp_stats
  by unfold_locales (auto simp: zp_publish_def zp_stats_def zp_close_def split: send_result.splits)

section \<open>Runs of the publisher\<close>

datatype bus_op = BusPublish send_result bus_event | BusClose

definition bus_step ::
  "(bus_envelope \<Rightarrow> 'p option) \<Rightarrow> bus_op \<Rightarrow> sequenced_publisher \<times> 'p zmq_publisher \<Rightarrow>
   sequenced_publisher \<times> 'p zmq_publisher" where
  "bus_step encode op st =
     (case op of
        BusPublish outcome ev \<Rightarrow> sp_publish encode (zp_publish outcome) ev st
      | BusClose \<Rightarrow> (case st of (sp, z) \<Rightarrow> (sp, zp_close z)))"

text \<open>The events publishing was attempted for, in order: number \<open>k\<close> is event \<open>k - 1\<close>.\<close>

fun attempted :: "bus_op list \<Rightarrow> bus_event list" where
  "attempted [] = []"
| "attempted (BusPublish outcome ev # ops) = ev # attempted ops"
| "attempted (BusClose # ops) = attempted ops"

lemma attempted_append: "attempted (xs @ ys) = attempted xs @ attempted ys"
  by (induction xs rule: attempted.induct) auto

lemma bus_step_attempts:
  "zmq.attempts (snd (bus_step encode op st)) + sp_failures (fst (bus_step encode op st)) =
   zmq.attempts (snd st) + sp_failures (fst st) + int (length (attempted [op]))"
  using zmq.attempts_publish [where encode = encode and sp = "fst st" and t = "snd st"]
  by (cases op; cases st) (auto simp: bus_step_def zmq.attempts_def zmq.close_counts)

lemma bus_run_attempts:
  "zmq.attempts (snd (fold (bus_step encode) ops st)) + sp_failures (fst (fold (bus_step encode) ops st)) =
   zmq.attempts (snd st) + sp_failures (fst st) + int (length (attempted ops))"
proof (induction ops arbitrary: st)
  case (Cons op ops)
  have "attempted (op # ops) = attempted [op] @ attempted ops" using attempted_append [of "[op]" ops] by simp
  then show ?case using Cons.IH [of "bus_step encode op st"] bus_step_attempts [of encode op st] by simp
qed simp

lemma bus_step_epoch [simp]: "sp_epoch (fst (bus_step encode op st)) = sp_epoch (fst st)"
  by (cases op; cases st) (auto simp: bus_step_def sp_publish_def Let_def split: option.splits)

lemma bus_run_epoch [simp]: "sp_epoch (fst (fold (bus_step encode) ops st)) = sp_epoch (fst st)"
  by (induction ops arbitrary: st) simp_all

lemma bus_step_seq: "sp_last_seq (fst (bus_step encode op st)) = sp_last_seq (fst st) + int (length (attempted [op]))"
  by (cases op; cases st) (auto simp: bus_step_def sp_publish_def Let_def split: option.splits)

lemma bus_run_seq: "sp_last_seq (fst (fold (bus_step encode) ops st)) = sp_last_seq (fst st) + int (length (attempted ops))"
proof (induction ops arbitrary: st)
  case (Cons op ops)
  have "attempted (op # ops) = attempted [op] @ attempted ops" using attempted_append [of "[op]" ops] by simp
  then show ?case using Cons.IH [of "bus_step encode op st"] bus_step_seq [of encode op st] by simp
qed simp

text \<open>A frame on the wire carries the number of the attempt that made it.\<close>

definition frame_of :: "(bus_envelope \<Rightarrow> 'p option) \<Rightarrow> int \<Rightarrow> bus_event list \<Rightarrow> nat \<Rightarrow> string \<times> 'p \<Rightarrow> bool" where
  "frame_of encode epoch evs k frame \<longleftrightarrow> k < length evs \<and> fst frame = topic_for (evs ! k) \<and>
     encode \<lparr>be_epoch = epoch, be_seq = int k + 1, be_event = evs ! k\<rparr> = Some (snd frame)"

lemma frame_of_append: "frame_of encode epoch evs k frame \<Longrightarrow> frame_of encode epoch (evs @ evs') k frame"
  by (auto simp: frame_of_def nth_append)

lemma bus_wire:
  assumes "sp = \<lparr>sp_epoch = epoch, sp_last_seq = 0, sp_failures = 0\<rparr>"
  shows "\<exists>ks. sorted_wrt (<) ks \<and>
    list_all2 (frame_of encode epoch (attempted ops)) ks (zp_wire (snd (fold (bus_step encode) ops (sp, new_zmq_publisher))))"
proof (induction ops rule: rev_induct)
  case Nil
  then show ?case by (intro exI [of _ "[]"]) (simp add: new_zmq_publisher_def)
next
  case (snoc op ops)
  then obtain ks where ks: "sorted_wrt (<) ks"
      "list_all2 (frame_of encode epoch (attempted ops)) ks (zp_wire (snd (fold (bus_step encode) ops (sp, new_zmq_publisher))))"
    by blast
  define st where "st = fold (bus_step encode) ops (sp, new_zmq_publisher)"
  have seq: "sp_last_seq (fst st) = int (length (attempted ops))" "sp_epoch (fst st) = epoch"
    using bus_run_seq [of encode ops "(sp, new_zmq_publisher)"] assms by (simp_all add: st_def)
  have old: "list_all2 (frame_of encode epoch (attempted (ops @ [op]))) ks (zp_wire (snd st))"
    using ks(2) by (auto simp: st_def attempted_append elim!: list_all2_mono intro: frame_of_append)
  have below: "\<forall>k\<in>set ks. k < length (attempted ops)"
    using ks(2) by (auto simp: list_all2_conv_all_nth frame_of_def in_set_conv_nth)
  show ?case
  proof (cases "zp_wire (snd (bus_step encode op st)) = zp_wire (snd st)")
    case True
    then show ?thesis using ks(1) old by (auto simp: st_def)
  next
    case False
    then obtain ev payload where new: "op = BusPublish SendOk ev"
        "encode (next_envelope ev (fst st)) = Some payload"
        "zp_wire (snd (bus_step encode op st)) = zp_wire (snd st) @ [(topic_for ev, payload)]"
      by (cases op; cases st)
        (auto simp: bus_step_def sp_publish_def Let_def zp_publish_def zp_close_def
          split: option.splits send_result.splits if_splits)
    let ?k = "length (attempted ops)"
    have "frame_of encode epoch (attempted (ops @ [op])) ?k (topic_for ev, payload)"
      using new(1,2) seq by (auto simp: frame_of_def attempted_append next_envelope_def add.commute)
    then have "list_all2 (frame_of encode epoch (attempted (ops @ [op]))) (ks @ [?k])
        (zp_wire (snd (fold (bus_step encode) (ops @ [op]) (sp, new_zmq_publisher))))"
      using old new(3) by (simp add: st_def list_all2_appendI)
    moreover have "sorted_wrt (<) (ks @ [?k])" using ks(1) below by (simp add: sorted_wrt_append)
    ultimately show ?thesis by blast
  qed
qed

section \<open>Properties\<close>

text \<open>
  C38. Every attempt is accounted for and numbered: after any events and closings, whatever the
  socket does and whichever events fail to encode, the publisher's last number is the number of
  events it was given, sent, dropped and errors add up to it, and the frames on the wire are, in
  order and without repetition, the encodings of attempts under their own numbers on their topics.
\<close>

theorem publisher_accounts:
  assumes "new_sequenced_publisher epoch = Inr sp"
    "fold (bus_step encode) ops (sp, new_zmq_publisher) = (sp', z)"
  shows "sp_last_seq sp' = int (length (attempted ops)) \<and>
    ps_sent (sp_stats (zp_stats z) sp') + ps_dropped (sp_stats (zp_stats z) sp') +
      ps_errors (sp_stats (zp_stats z) sp') = sp_last_seq sp' \<and>
    (\<exists>ks. sorted_wrt (<) ks \<and> list_all2 (frame_of encode epoch (attempted ops)) ks (zp_wire z))"
proof -
  have sp: "sp = \<lparr>sp_epoch = epoch, sp_last_seq = 0, sp_failures = 0\<rparr>"
    using assms(1) by (auto simp: new_sequenced_publisher_def FIRST_BUS_SEQ_def split: if_splits)

  show ?thesis
    using bus_run_seq [of encode ops "(sp, new_zmq_publisher)"] bus_wire [OF sp, of encode ops]
      bus_run_attempts [of encode ops "(sp, new_zmq_publisher)"] assms(2) sp
    by (simp add: zmq.attempts_def sp_stats_def zp_stats_def add.assoc)
qed

definition example_gap :: gap_event where
  "example_gap = \<lparr>ge_receipt = \<lparr>rc_conn_id = 1, rc_recv_mono_ns = 2, rc_recv_wall_ns = 3\<rparr>,
     ge_sid = 4, ge_expected_seq = 5, ge_got_seq = 7\<rparr>"

theorem publisher_accounts_witness:
  "\<exists>sp sp' z. new_sequenced_publisher 5 = Inr sp \<and>
     fold (bus_step (\<lambda>env. if be_event env = EvCatalog [] then None else Some (be_seq env)))
       [BusPublish SendOk (EvCatalog []), BusPublish SendAgain (EvGap example_gap),
        BusPublish SendOk (EvGap example_gap), BusClose, BusPublish SendOk (EvGap example_gap)]
       (sp, new_zmq_publisher) = (sp', z) \<and>
     sp_last_seq sp' = 4 \<and> zp_wire z = [(GAP_TOPIC, 3)]"
proof -
  let ?enc = "\<lambda>env. if be_event env = EvCatalog [] then None else Some (be_seq env)"
  let ?ops = "[BusPublish SendOk (EvCatalog []), BusPublish SendAgain (EvGap example_gap),
        BusPublish SendOk (EvGap example_gap), BusClose, BusPublish SendOk (EvGap example_gap)]"
  obtain sp where sp: "new_sequenced_publisher 5 = Inr sp" by (simp add: new_sequenced_publisher_def)
  obtain sp' z where run: "fold (bus_step ?enc) ?ops (sp, new_zmq_publisher) = (sp', z)" by fastforce
  from publisher_accounts [OF sp run] have "sp_last_seq sp' = 4" by simp
  moreover have "zp_wire z = [(GAP_TOPIC, 3)]"
    using run sp by (auto simp: new_sequenced_publisher_def FIRST_BUS_SEQ_def bus_step_def sp_publish_def
        next_envelope_def zp_publish_def zp_close_def new_zmq_publisher_def)
  ultimately show ?thesis using sp run by blast
qed

end
