(* ===== verification/Livebooks.thy ===== *)
theory Livebooks
  imports Prelude Events Book Bus "HOL-Library.Sublist"
begin

text \<open>
  \<^verbatim>\<open>tape/bus/livebooks.py\<close>: a bus consumer's copies of the publisher's books. \<open>observe_envelope\<close> is
  \<^verbatim>\<open>LiveBooks.observe\<close>. The second half models what a recorder publishes for one book
  (\<^verbatim>\<open>recorder/supervisor.py\<close>, \<^verbatim>\<open>_on_snapshot\<close> and \<^verbatim>\<open>_on_delta\<close>; \<^verbatim>\<open>recorder/recorder.py\<close>,
  \<^verbatim>\<open>_publish_refreshes\<close>) and shows that a lossy consumer follows it.
\<close>

datatype book_status = BookUnknown | BookFresh | BookStale
datatype reset_reason = ResetStart | ResetEpoch | ResetGap

record status_change =
  sc_ticker :: string
  sc_before :: book_status
  sc_after :: book_status

record observation =
  ob_reset :: "reset_reason option"
  ob_missed :: int
  ob_applied :: bool
  ob_changes :: "status_change list"

record live_books =
  lb_books :: "(string, book) dict"
  lb_epoch :: "int option"
  lb_last_seq :: "int option"
  lb_messages :: int
  lb_resets :: int
  lb_missed :: int
  lb_refreshes :: int
  lb_ignored :: int
  lb_book_errors :: int

definition new_live_books :: live_books where
  "new_live_books = \<lparr>lb_books = [], lb_epoch = None, lb_last_seq = None, lb_messages = 0, lb_resets = 0,
     lb_missed = 0, lb_refreshes = 0, lb_ignored = 0, lb_book_errors = 0\<rparr>"

definition lb_status :: "string \<Rightarrow> live_books \<Rightarrow> book_status" where
  "lb_status ticker lb =
     (case dict_get (lb_books lb) ticker of
        None \<Rightarrow> BookUnknown
      | Some b \<Rightarrow> if is_stale b then BookStale else BookFresh)"

definition follow :: "bus_envelope \<Rightarrow> live_books \<Rightarrow> live_books \<times> reset_reason option \<times> int" where
  "follow env lb =
     (let lb' = lb\<lparr>lb_epoch := Some (be_epoch env), lb_last_seq := Some (be_seq env)\<rparr>
      in case (lb_epoch lb, lb_last_seq lb) of
           (Some previous_epoch, Some previous_seq) \<Rightarrow>
             if be_epoch env \<noteq> previous_epoch then (lb', Some ResetEpoch, be_seq env - FIRST_BUS_SEQ)
             else if be_seq env \<noteq> previous_seq + 1 then
               (lb', Some ResetGap, max (be_seq env - previous_seq - 1) 0)
             else (lb', None, 0)
         | _ \<Rightarrow> (lb', Some ResetStart, 0))"

definition adopt :: "book_refresh \<Rightarrow> live_books \<Rightarrow> live_books \<times> bool" where
  "adopt r lb =
     (case apply_snapshot (br_bids r) (br_asks r) (br_ts_ms r) (new_book (br_ticker r)) of
        (b, Inl e) \<Rightarrow>
          (lb\<lparr>lb_book_errors := lb_book_errors lb + 1, lb_books := dict_pop (br_ticker r) (lb_books lb)\<rparr>, False)
      | (b, Inr _) \<Rightarrow>
          (let b' = (if br_stale r then mark_stale b else b)
           in (lb\<lparr>lb_books := dict_put (br_ticker r) b' (lb_books lb), lb_refreshes := lb_refreshes lb + 1\<rparr>, True)))"

fun apply_change :: "book_change \<Rightarrow> book \<Rightarrow> book \<times> (book_error + bool)" where
  "apply_change (ChSnapshot s) b =
     (case apply_snapshot (bs_bids s) (bs_asks s) (bs_ts_ms s) b of
        (b', Inl e) \<Rightarrow> (b', Inl e) | (b', Inr _) \<Rightarrow> (b', Inr True))"
| "apply_change (ChDelta d) b = apply_delta (bd_side d) (bd_price d) (bd_delta d) (bd_ts_ms d) b"

definition change_copy :: "book_change \<Rightarrow> live_books \<Rightarrow> live_books \<times> bool" where
  "change_copy c lb =
     (case dict_get (lb_books lb) (change_ticker c) of
        None \<Rightarrow> (lb\<lparr>lb_ignored := lb_ignored lb + 1\<rparr>, False)
      | Some b \<Rightarrow>
          (case apply_change c b of
             (b', Inl e) \<Rightarrow>
               (lb\<lparr>lb_book_errors := lb_book_errors lb + 1, lb_books := dict_pop (change_ticker c) (lb_books lb)\<rparr>, False)
           | (b', Inr applied) \<Rightarrow>
               (let lb' = lb\<lparr>lb_books := dict_put (change_ticker c) b' (lb_books lb)\<rparr>
                in (if applied then lb' else lb'\<lparr>lb_ignored := lb_ignored lb' + 1\<rparr>, applied))))"

definition status_diff :: "string \<Rightarrow> live_books \<Rightarrow> live_books \<Rightarrow> status_change list" where
  "status_diff ticker lb lb' =
     (if lb_status ticker lb' \<noteq> lb_status ticker lb then
        [\<lparr>sc_ticker = ticker, sc_before = lb_status ticker lb, sc_after = lb_status ticker lb'\<rparr>] else [])"

definition apply_event :: "bus_event \<Rightarrow> live_books \<Rightarrow> live_books \<times> bool \<times> status_change list" where
  "apply_event ev lb =
     (case ev of
        EvRefresh r \<Rightarrow> (case adopt r lb of (lb', applied) \<Rightarrow> (lb', applied, status_diff (br_ticker r) lb lb'))
      | EvSnapshot s \<Rightarrow> (case change_copy (ChSnapshot s) lb of (lb', applied) \<Rightarrow> (lb', applied, status_diff (bs_ticker s) lb lb'))
      | EvDelta d \<Rightarrow> (case change_copy (ChDelta d) lb of (lb', applied) \<Rightarrow> (lb', applied, status_diff (bd_ticker d) lb lb'))
      | _ \<Rightarrow> (lb, False, []))"

definition reset_books :: "reset_reason option \<Rightarrow> int \<Rightarrow> live_books \<Rightarrow> live_books \<times> status_change list" where
  "reset_books reset missed lb =
     (if reset = None then (lb, [])
      else (lb\<lparr>lb_resets := lb_resets lb + 1, lb_missed := lb_missed lb + missed, lb_books := []\<rparr>,
            map (\<lambda>t. \<lparr>sc_ticker = t, sc_before = lb_status t lb, sc_after = BookUnknown\<rparr>)
              (sort (dict_keys (lb_books lb)))))"

definition observe_envelope :: "bus_envelope \<Rightarrow> live_books \<Rightarrow> live_books \<times> observation" where
  "observe_envelope env lb0 =
     (case follow env (lb0\<lparr>lb_messages := lb_messages lb0 + 1\<rparr>) of (lb1, reset, missed) \<Rightarrow>
      case reset_books reset missed lb1 of (lb2, changes) \<Rightarrow>
      case apply_event (be_event env) lb2 of (lb3, applied, more_changes) \<Rightarrow>
        (lb3, \<lparr>ob_reset = reset, ob_missed = missed, ob_applied = applied, ob_changes = changes @ more_changes\<rparr>))"

section \<open>The copies are well-formed books\<close>

definition wf_copies :: "live_books \<Rightarrow> bool" where
  "wf_copies lb \<longleftrightarrow> dict_wf (lb_books lb) \<and>
     (\<forall>t b. dict_get (lb_books lb) t = Some b \<longrightarrow> wf_book b \<and> bk_ticker b = t)"

lemma snapshot_ticker [simp]: "bk_ticker (fst (apply_snapshot bids asks ts b)) = bk_ticker b"
  by (auto simp: apply_snapshot_def mark_stale_def Let_def split: sum.splits)

lemma delta_ticker [simp]: "bk_ticker (fst (apply_delta s p d ts b)) = bk_ticker b"
  by (auto simp: apply_delta_def mark_stale_def Let_def split: option.splits)

lemma apply_change_ticker [simp]: "bk_ticker (fst (apply_change c b)) = bk_ticker b"
proof (cases c)
  case (ChSnapshot s)
  then show ?thesis using snapshot_ticker [of "bs_bids s" "bs_asks s" "bs_ts_ms s" b]
    by (cases "apply_snapshot (bs_bids s) (bs_asks s) (bs_ts_ms s) b") (auto split: sum.splits)
qed simp

lemma wf_book_apply_change [wf_intros]: "wf_book b \<Longrightarrow> wf_book (fst (apply_change c b))"
proof (cases c)
  case (ChSnapshot s)
  then show "wf_book b \<Longrightarrow> ?thesis"
    using wf_book_apply_snapshot [of b "bs_bids s" "bs_asks s" "bs_ts_ms s"] by (auto split: prod.splits sum.splits)
qed (simp add: wf_book_apply_delta)

lemma wf_copies_put: "wf_copies lb \<Longrightarrow> wf_book b \<Longrightarrow> bk_ticker b = t \<Longrightarrow> lb_books lb' = dict_put t b (lb_books lb) \<Longrightarrow> wf_copies lb'"
  by (auto simp: wf_copies_def dict_simps)

lemma wf_copies_pop: "wf_copies lb \<Longrightarrow> lb_books lb' = dict_pop t (lb_books lb) \<Longrightarrow> wf_copies lb'"
  by (auto simp: wf_copies_def dict_simps)

lemma wf_copies_cong: "lb_books lb' = lb_books lb \<Longrightarrow> wf_copies lb' = wf_copies lb"
  by (simp add: wf_copies_def)

lemma wf_copies_adopt: "wf_copies lb \<Longrightarrow> wf_copies (fst (adopt r lb))"
proof -
  assume wf: "wf_copies lb"
  obtain b res where s: "apply_snapshot (br_bids r) (br_asks r) (br_ts_ms r) (new_book (br_ticker r)) = (b, res)"
    by fastforce
  have b: "wf_book b" "bk_ticker b = br_ticker r"
    using wf_book_apply_snapshot [OF wf_book_new, of "br_bids r" "br_asks r" "br_ts_ms r" "br_ticker r"]
      snapshot_ticker [of "br_bids r" "br_asks r" "br_ts_ms r" "new_book (br_ticker r)"]
    by (simp_all only: s fst_conv) (simp add: new_book_def)
  then have "wf_book (mark_stale b)" "bk_ticker (mark_stale b) = br_ticker r"
    by (simp add: wf_book_mark_stale, simp add: mark_stale_def)
  with b wf show ?thesis
    by (auto simp: adopt_def s Let_def split: sum.splits intro: wf_copies_put wf_copies_pop)
qed

lemma wf_copies_change: "wf_copies lb \<Longrightarrow> wf_copies (fst (change_copy c lb))"
proof -
  assume wf: "wf_copies lb"
  show ?thesis
  proof (cases "dict_get (lb_books lb) (change_ticker c)")
    case None
    then show ?thesis using wf by (simp add: change_copy_def wf_copies_def)
  next
    case (Some b)
    obtain b' res where r: "apply_change c b = (b', res)" by fastforce
    have b': "wf_book b'" "bk_ticker b' = change_ticker c"
      using wf Some wf_book_apply_change [of b c] apply_change_ticker [of c b]
      by (simp_all add: wf_copies_def r del: apply_change_ticker)
    show ?thesis
      using wf_copies_put [OF wf b'] wf_copies_pop [OF wf]
      by (auto simp: change_copy_def Some r Let_def split: sum.splits)
  qed
qed

lemma follow_books: "follow env lb = (lb', r, m) \<Longrightarrow> lb_books lb' = lb_books lb"
  by (auto simp: follow_def Let_def split: option.splits if_splits)

lemma wf_copies_event: "wf_copies lb \<Longrightarrow> wf_copies (fst (apply_event ev lb))"
  using wf_copies_adopt [of lb] wf_copies_change [of lb]
  by (auto simp: apply_event_def split: bus_event.splits prod.splits) (metis fst_conv)+

lemma wf_copies_reset: "wf_copies lb \<Longrightarrow> wf_copies (fst (reset_books r m lb))"
  by (auto simp: reset_books_def wf_copies_def)

lemma wf_copies_observe [wf_intros]:
  assumes "wf_copies lb" shows "wf_copies (fst (observe_envelope env lb))"
proof -
  obtain lb1 r m where f: "follow env (lb\<lparr>lb_messages := lb_messages lb + 1\<rparr>) = (lb1, r, m)"
    by (metis prod.exhaust)
  have "wf_copies lb1" using assms follow_books [OF f] by (simp add: wf_copies_def)
  then have "wf_copies (fst (apply_event (be_event env) (fst (reset_books r m lb1))))"
    by (intro wf_copies_event wf_copies_reset)
  then show ?thesis by (simp add: observe_envelope_def f split: prod.splits) (metis fst_conv)
qed

section \<open>What the publisher publishes\<close>

type_synonym registry = "(string, book) dict"

text \<open>
  What a recorder does to a book and what it publishes of it: a snapshot or a delta goes out only
  when it was applied, a book goes stale or is forgotten without a message, and a refresh image is
  the book as it stands.
\<close>

datatype pub_op =
    PubSnapshot book_snapshot
  | PubDelta book_delta
  | PubStale string
  | PubForget string
  | PubRefresh string receipt
  | PubOther bus_event

definition refresh_image :: "receipt \<Rightarrow> string \<Rightarrow> book \<Rightarrow> book_refresh" where
  "refresh_image rc ticker b = \<lparr>br_ticker = ticker, br_ts_ms = bk_last_ts_ms b, br_receipt = rc,
     br_stale = is_stale b, br_bids = levels BID b, br_asks = levels ASK b\<rparr>"

fun is_book_event :: "bus_event \<Rightarrow> bool" where
  "is_book_event (EvSnapshot s) = True"
| "is_book_event (EvDelta d) = True"
| "is_book_event (EvRefresh r) = True"
| "is_book_event _ = False"

fun pub_effect :: "pub_op \<Rightarrow> registry \<Rightarrow> registry \<times> bus_event option" where
  "pub_effect (PubSnapshot s) books =
     (let b = dict_get_or books (bs_ticker s) (new_book (bs_ticker s))
      in case apply_snapshot (bs_bids s) (bs_asks s) (bs_ts_ms s) b of
           (b', Inl e) \<Rightarrow> (dict_put (bs_ticker s) b' books, None)
         | (b', Inr _) \<Rightarrow> (dict_put (bs_ticker s) b' books, Some (EvSnapshot s)))"
| "pub_effect (PubDelta d) books =
     (case dict_get books (bd_ticker d) of
        None \<Rightarrow> (books, None)
      | Some b \<Rightarrow>
          (case apply_delta (bd_side d) (bd_price d) (bd_delta d) (bd_ts_ms d) b of
             (b', Inl e) \<Rightarrow> (dict_put (bd_ticker d) b' books, None)
           | (b', Inr applied) \<Rightarrow>
               (dict_put (bd_ticker d) b' books, if applied then Some (EvDelta d) else None)))"
| "pub_effect (PubStale t) books =
     (case dict_get books t of None \<Rightarrow> (books, None) | Some b \<Rightarrow> (dict_put t (mark_stale b) books, None))"
| "pub_effect (PubForget t) books = (dict_pop t books, None)"
| "pub_effect (PubRefresh t rc) books =
     (case dict_get books t of None \<Rightarrow> (books, None) | Some b \<Rightarrow> (books, Some (EvRefresh (refresh_image rc t b))))"
| "pub_effect (PubOther ev) books = (books, if is_book_event ev then None else Some ev)"

text \<open>The messages an epoch publishes, each with the publisher's books as of it.\<close>

fun pub_log :: "int \<Rightarrow> int \<Rightarrow> registry \<Rightarrow> pub_op list \<Rightarrow> (bus_envelope \<times> registry) list" where
  "pub_log epoch n books [] = []"
| "pub_log epoch n books (op # ops) =
     (case pub_effect op books of
        (books', None) \<Rightarrow> pub_log epoch n books' ops
      | (books', Some ev) \<Rightarrow>
          (\<lparr>be_epoch = epoch, be_seq = n + 1, be_event = ev\<rparr>, books') # pub_log epoch (n + 1) books' ops)"

fun quiet :: "pub_op list \<Rightarrow> registry \<Rightarrow> bool" where
  "quiet [] books = True"
| "quiet (op # ops) books = (snd (pub_effect op books) = None \<and> quiet ops (fst (pub_effect op books)))"

definition wf_registry :: "registry \<Rightarrow> bool" where
  "wf_registry books \<longleftrightarrow> dict_wf books \<and> (\<forall>t b. dict_get books t = Some b \<longrightarrow> wf_book b \<and> bk_ticker b = t)"

text \<open>What a consumer is promised of one book \<open>c\<close> it holds, given the publisher's book \<open>b\<close>.\<close>

definition coupled :: "book \<Rightarrow> book \<Rightarrow> bool" where
  "coupled b c \<longleftrightarrow> (bk_stale c \<longrightarrow> bk_stale b) \<and>
     (\<not> bk_stale b \<longrightarrow> (\<forall>s p. size_at s p c = size_at s p b))"

definition coupled_all :: "registry \<Rightarrow> live_books \<Rightarrow> bool" where
  "coupled_all books lb \<longleftrightarrow>
     (\<forall>t b c. dict_get books t = Some b \<and> dict_get (lb_books lb) t = Some c \<longrightarrow> coupled b c)"

section \<open>The simulation\<close>

lemma coupled_abs: "abs_of b = abs_of c \<Longrightarrow> coupled b c"
  by (auto simp: coupled_def abs_of_def fun_eq_iff)

lemma coupled_fresh_abs: "coupled b c \<Longrightarrow> \<not> bk_stale b \<Longrightarrow> abs_of c = abs_of b"
  by (auto simp: coupled_def abs_of_def)

lemma coupled_stale: "bk_stale b \<Longrightarrow> coupled b c"
  by (simp add: coupled_def)

lemma snapshot_error_stale: "apply_snapshot bids asks ts b = (b', Inl e) \<Longrightarrow> bk_stale b'"
  by (auto simp: apply_snapshot_def mark_stale_def Let_def split: sum.splits if_splits)

lemma delta_error_stale: "apply_delta s p d ts b = (b', Inl e) \<Longrightarrow> bk_stale b'"
  by (auto simp: apply_delta_def mark_stale_def Let_def split: if_splits)

lemma delta_ignored_same: "apply_delta s p d ts b = (b', Inr False) \<Longrightarrow> b' = b"
  by (auto simp: apply_delta_def Let_def split: if_splits)

lemma delta_applied_fresh: "apply_delta s p d ts b = (b', Inr True) \<Longrightarrow> \<not> bk_stale b"
  by (auto simp: apply_delta_def Let_def split: if_splits)

lemma wf_registry_put:
  "wf_registry books \<Longrightarrow> wf_book b \<Longrightarrow> bk_ticker b = t \<Longrightarrow> wf_registry (dict_put t b books)"
  by (auto simp: wf_registry_def dict_simps)

lemma wf_registry_get_or: "wf_registry books \<Longrightarrow> wf_book (dict_get_or books t (new_book t)) \<and> bk_ticker (dict_get_or books t (new_book t)) = t"
  by (auto simp: wf_registry_def dict_get_or_def wf_book_new new_book_def [of t] split: option.splits)
     (metis new_book_def wf_book_new)

lemma wf_registry_effect [wf_intros]: "wf_registry books \<Longrightarrow> wf_registry (fst (pub_effect op books))"
proof (cases op)
  case (PubSnapshot s)
  assume wf: "wf_registry books"
  let ?b = "dict_get_or books (bs_ticker s) (new_book (bs_ticker s))"
  obtain b' r where a: "apply_snapshot (bs_bids s) (bs_asks s) (bs_ts_ms s) ?b = (b', r)" by fastforce
  have "wf_book b'" "bk_ticker b' = bs_ticker s"
    using wf_registry_get_or [OF wf, of "bs_ticker s"] wf_book_apply_snapshot [of ?b "bs_bids s" "bs_asks s" "bs_ts_ms s"]
      snapshot_ticker [of "bs_bids s" "bs_asks s" "bs_ts_ms s" ?b] by (simp_all add: a)
  then show ?thesis using wf_registry_put [OF wf] PubSnapshot by (simp add: a Let_def split: sum.splits)
next
  case (PubDelta d)
  assume wf: "wf_registry books"
  show ?thesis
  proof (cases "dict_get books (bd_ticker d)")
    case None
    then show ?thesis using wf PubDelta by simp
  next
    case (Some b)
    obtain b' r where a: "apply_delta (bd_side d) (bd_price d) (bd_delta d) (bd_ts_ms d) b = (b', r)" by fastforce
    have "wf_book b'" "bk_ticker b' = bd_ticker d"
      using wf Some wf_book_apply_delta [of b "bd_side d" "bd_price d" "bd_delta d" "bd_ts_ms d"]
        delta_ticker [of "bd_side d" "bd_price d" "bd_delta d" "bd_ts_ms d" b]
      by (simp_all add: a wf_registry_def)
    then show ?thesis using wf_registry_put [OF wf] PubDelta Some by (simp add: a split: sum.splits)
  qed
next
  case (PubStale t)
  assume wf: "wf_registry books"
  have "wf_book (mark_stale b) \<and> bk_ticker (mark_stale b) = t" if "dict_get books t = Some b" for b
    using wf that wf_book_mark_stale [of b] by (auto simp: wf_registry_def mark_stale_def)
  then show ?thesis using PubStale wf wf_registry_put [OF wf] by (auto split: option.splits)
next
  case (PubForget t)
  assume "wf_registry books"
  then show ?thesis using PubForget by (auto simp: wf_registry_def dict_simps)
qed (auto split: option.splits)

lemma coupled_put:
  assumes "coupled_all books lb" "\<And>c. dict_get (lb_books lb) t = Some c \<Longrightarrow> coupled b c"
  shows "coupled_all (dict_put t b books) lb"
  using assms by (auto simp: coupled_all_def dict_simps)

lemma coupled_silent:
  assumes "coupled_all books lb" "snd (pub_effect op books) = None"
  shows "coupled_all (fst (pub_effect op books)) lb"
proof (cases op)
  case (PubSnapshot s)
  then show ?thesis using assms
    by (auto simp: Let_def split: prod.splits sum.splits intro!: coupled_put coupled_stale dest: snapshot_error_stale)
next
  case (PubDelta d)
  show ?thesis
  proof (cases "dict_get books (bd_ticker d)")
    case None
    then show ?thesis using assms PubDelta by simp
  next
    case (Some b)
    obtain b' r where a: "apply_delta (bd_side d) (bd_price d) (bd_delta d) (bd_ts_ms d) b = (b', r)" by fastforce
    then have "b' = b \<or> bk_stale b'"
      using assms(2) PubDelta Some delta_error_stale delta_ignored_same by (cases r) (auto split: if_splits)
    then have "coupled_all (dict_put (bd_ticker d) b' books) lb"
      by (intro coupled_put [OF assms(1)]) (use assms(1) Some in \<open>auto simp: coupled_all_def coupled_stale\<close>)
    then show ?thesis using PubDelta Some by (simp add: a split: sum.splits)
  qed
next
  case (PubStale t)
  then show ?thesis using assms
    by (auto split: option.splits intro!: coupled_put coupled_stale simp: mark_stale_def)
next
  case (PubForget t)
  then show ?thesis using assms by (auto simp: coupled_all_def dict_simps)
qed (use assms in \<open>auto split: option.splits\<close>)

lemma coupled_put_both:
  assumes "coupled_all books lb" "lb_books lb' = dict_put t c (lb_books lb)" "coupled b c"
  shows "coupled_all (dict_put t b books) lb'"
  using assms by (auto simp: coupled_all_def dict_simps)

lemma coupled_pop_copy:
  assumes "coupled_all books lb" "lb_books lb' = dict_pop t (lb_books lb)"
  shows "coupled_all (dict_put t b books) lb'"
  using assms by (auto simp: coupled_all_def dict_simps)

lemma levels_sizes_levels:
  assumes "wf_levels b"
  shows "levels_sizes (levels BID b) (levels ASK b) = (\<lambda>s p. size_at s p b)"
proof -
  have "size_of_levels (levels s b) p = size_at s p b" for s p
  proof -
    let ?xs = "map level_pair (levels s b)"
    have xs: "mset ?xs = mset (side_levels s b)" using mset_levels [of s b] by simp
    have distinct: "distinct (map fst ?xs)"
      using wf_levels_side [OF assms, of s] mset_eq_imp_distinct_iff [of "map fst ?xs" "dict_keys (side_levels s b)"] xs
      by (metis dict_wf_def mset_map)
    have "map_of ?xs = dict_get (side_levels s b)"
      using distinct wf_levels_side [OF assms, of s] mset_eq_setD [OF xs]
      by (intro map_of_inject_set [THEN iffD2]) (simp_all add: dict_wf_def)
    then show ?thesis by (simp add: size_of_levels_def size_at_def dict_get_or_def)
  qed
  then show ?thesis by (auto simp: fun_eq_iff levels_sizes_def simp del: levels.simps split: side.splits)
qed

lemma coupled_snapshot_event:
  assumes "coupled_all books lb" "pub_effect (PubSnapshot s) books = (books', Some ev)"
  shows "coupled_all books' (fst (apply_event ev lb))"
proof -
  let ?b = "dict_get_or books (bs_ticker s) (new_book (bs_ticker s))"
  let ?snap = "\<lambda>b. apply_snapshot (bs_bids s) (bs_asks s) (bs_ts_ms s) b"
  have valid: "valid_image (bs_bids s) (bs_asks s)"
    using assms(2) apply_snapshot_invalid [of "bs_bids s" "bs_asks s" "bs_ts_ms s" ?b]
    by (auto simp: Let_def split: prod.splits sum.splits)
  let ?img = "\<lambda>b. image_book (bs_bids s) (bs_asks s) (bs_ts_ms s) b"
  have pub: "ev = EvSnapshot s" "books' = dict_put (bs_ticker s) (?img ?b) books"
    using assms(2) by (simp_all add: Let_def apply_snapshot_valid [OF valid])
  have same: "coupled (?img b) (?img c)" for b c
    by (rule coupled_abs) (simp add: abs_of_def size_at_image, simp add: image_book_def)
  show ?thesis
  proof (cases "dict_get (lb_books lb) (bs_ticker s)")
    case None
    then show ?thesis
      using assms(1) unfolding pub
      by (auto simp: apply_event_def change_copy_def coupled_all_def dict_simps)
  next
    case (Some c)
    then show ?thesis
      unfolding pub
      by (auto simp: apply_event_def change_copy_def apply_snapshot_valid [OF valid] Let_def
          intro!: coupled_put_both [OF assms(1) _ same])
  qed
qed

lemma coupled_delta_event:
  assumes "wf_registry books" "wf_copies lb" "coupled_all books lb"
    "pub_effect (PubDelta d) books = (books', Some ev)"
  shows "coupled_all books' (fst (apply_event ev lb))"
proof -
  let ?delta = "\<lambda>b. apply_delta (bd_side d) (bd_price d) (bd_delta d) (bd_ts_ms d) b"
  obtain b b' where b: "dict_get books (bd_ticker d) = Some b" "?delta b = (b', Inr True)"
      and pub: "ev = EvDelta d" "books' = dict_put (bd_ticker d) b' books"
    using assms(4) by (auto split: option.splits prod.splits sum.splits if_splits)
  have wf: "wf_book b" using assms(1) b(1) by (simp add: wf_registry_def)
  show ?thesis
  proof (cases "dict_get (lb_books lb) (bd_ticker d)")
    case None
    then show ?thesis
      using assms(3) unfolding pub
      by (auto simp: apply_event_def change_copy_def coupled_all_def dict_simps)
  next
    case (Some c)
    obtain c' r where c: "?delta c = (c', r)" by fastforce
    have "wf_book c" using assms(2) Some by (simp add: wf_copies_def)
    have "abs_of c = abs_of b"
      using assms(3) Some b(1) delta_applied_fresh [OF b(2)]
      by (auto simp: coupled_all_def intro!: coupled_fresh_abs)
    then have "abs_of b' = abs_of c'"
      using abs_of_apply_delta [OF wf, of "bd_side d" "bd_price d" "bd_delta d" "bd_ts_ms d"]
        abs_of_apply_delta [OF \<open>wf_book c\<close>, of "bd_side d" "bd_price d" "bd_delta d" "bd_ts_ms d"]
      by (simp add: b(2) c)
    then have same: "coupled b' c'" by (rule coupled_abs)
    show ?thesis
    proof (cases r)
      case (Inl e)
      then show ?thesis
        unfolding pub
        by (auto simp: apply_event_def change_copy_def Some c intro!: coupled_pop_copy [OF assms(3)])
    next
      case (Inr applied)
      then show ?thesis
        unfolding pub
        by (auto simp: apply_event_def change_copy_def Some c Let_def
            intro!: coupled_put_both [OF assms(3) _ same])
    qed
  qed
qed

lemma coupled_refresh_event:
  assumes "wf_registry books" "coupled_all books lb" "dict_get books t = Some b"
  shows "coupled_all books (fst (apply_event (EvRefresh (refresh_image rc t b)) lb))"
proof -
  have wf: "wf_levels b" using assms(1,3) by (auto simp: wf_registry_def wf_book_levels)
  let ?img = "image_book (levels BID b) (levels ASK b) (bk_last_ts_ms b) (new_book t)"
  let ?c = "if bk_stale b then mark_stale ?img else ?img"
  have same: "coupled b ?c"
    by (auto simp: coupled_def size_at_image levels_sizes_levels [OF wf] simp del: levels.simps)
      (simp_all add: image_book_def)

  have "dict_get (dict_put t b books) = dict_get books" by (rule ext) (simp add: dict_simps assms(3))
  then have eq: "coupled_all books lb' = coupled_all (dict_put t b books) lb'" for lb'
    by (simp add: coupled_all_def)
  show ?thesis
  proof (cases "valid_image (levels BID b) (levels ASK b)")
    case True
    then show ?thesis
      unfolding eq
      by (auto simp: apply_event_def adopt_def refresh_image_def apply_snapshot_valid is_stale_def Let_def
          simp del: levels.simps intro!: coupled_put_both [OF assms(2) _ same])
  next
    case False
    then obtain e where "apply_snapshot (levels BID b) (levels ASK b) (bk_last_ts_ms b) (new_book t) = (mark_stale (new_book t), Inl e)"
      using apply_snapshot_invalid by blast
    then show ?thesis
      unfolding eq
      by (auto simp: apply_event_def adopt_def refresh_image_def simp del: levels.simps
          intro!: coupled_pop_copy [OF assms(2)])
  qed
qed

lemma coupled_event:
  assumes "wf_registry books" "wf_copies lb" "coupled_all books lb" "pub_effect op books = (books', Some ev)"
  shows "coupled_all books' (fst (apply_event ev lb))"
proof (cases op)
  case (PubRefresh t rc)
  then show ?thesis
    using assms(4) coupled_refresh_event [OF assms(1,3), of t _ rc] by (auto split: option.splits)
next
  case (PubOther ev')
  then show ?thesis
    using assms(3,4) by (cases ev') (auto simp: apply_event_def split: if_splits)
qed (use assms coupled_snapshot_event coupled_delta_event in \<open>auto split: option.splits\<close>)

lemma coupled_books_cong: "lb_books lb' = lb_books lb \<Longrightarrow> coupled_all books lb' = coupled_all books lb"
  by (simp add: coupled_all_def)

lemma apply_event_numbers [simp]:
  "lb_epoch (fst (apply_event ev lb)) = lb_epoch lb"
  "lb_last_seq (fst (apply_event ev lb)) = lb_last_seq lb"
  by (auto simp: apply_event_def adopt_def change_copy_def Let_def split: bus_event.splits prod.splits
      option.splits sum.splits if_splits)

lemma observe_fst:
  "follow env (lb\<lparr>lb_messages := lb_messages lb + 1\<rparr>) = (lb1, r, m) \<Longrightarrow>
   fst (observe_envelope env lb) = fst (apply_event (be_event env) (fst (reset_books r m lb1)))"
  by (simp add: observe_envelope_def split: prod.splits)

lemma follow_fst:
  "fst (follow env lb) = lb\<lparr>lb_epoch := Some (be_epoch env), lb_last_seq := Some (be_seq env)\<rparr>"
  by (simp add: follow_def Let_def split: option.split)

lemma follow_None_iff:
  "fst (snd (follow env lb)) = None \<longleftrightarrow> lb_epoch lb = Some (be_epoch env) \<and> lb_last_seq lb = Some (be_seq env - 1)"
  by (auto simp: follow_def Let_def split: option.split)

lemma follow_numbers:
  assumes "follow env lb = (lb1, r, m)"
  shows "lb_epoch lb1 = Some (be_epoch env) \<and> lb_last_seq lb1 = Some (be_seq env)"
  using follow_fst [of env lb] by (simp add: assms)

lemma reset_books_fields [simp]:
  "lb_epoch (fst (reset_books r m lb)) = lb_epoch lb"
  "lb_last_seq (fst (reset_books r m lb)) = lb_last_seq lb"
  "lb_books (fst (reset_books r m lb)) = (if r = None then lb_books lb else [])"
  by (simp_all add: reset_books_def)

lemma observe_numbers:
  "lb_epoch (fst (observe_envelope env lb)) = Some (be_epoch env)"
  "lb_last_seq (fst (observe_envelope env lb)) = Some (be_seq env)"
proof -
  obtain lb1 r m where f: "follow env (lb\<lparr>lb_messages := lb_messages lb + 1\<rparr>) = (lb1, r, m)"
    by (metis prod.exhaust)
  then show "lb_epoch (fst (observe_envelope env lb)) = Some (be_epoch env)"
    "lb_last_seq (fst (observe_envelope env lb)) = Some (be_seq env)"
    using follow_numbers [OF f] by (simp_all add: observe_fst [OF f])
qed

text \<open>
  Between observations: when the consumer has observed the publisher's last message, its copies
  are coupled; when it has missed some, its number is behind.
\<close>

definition in_step :: "int \<Rightarrow> int \<Rightarrow> registry \<Rightarrow> live_books \<Rightarrow> bool" where
  "in_step epoch n books lb \<longleftrightarrow> wf_registry books \<and> wf_copies lb \<and>
     (lb_epoch lb = Some epoch \<longrightarrow>
       (\<exists>m. lb_last_seq lb = Some m \<and> m \<le> n \<and> (m = n \<longrightarrow> coupled_all books lb)))"

lemma observe_in_step:
  assumes "in_step epoch n books lb" "pub_effect op books = (books', Some ev)"
  shows "coupled_all books' (fst (observe_envelope \<lparr>be_epoch = epoch, be_seq = n + 1, be_event = ev\<rparr> lb))"
proof -
  let ?env = "\<lparr>be_epoch = epoch, be_seq = n + 1, be_event = ev\<rparr>"
  obtain lb1 r m where f: "follow ?env (lb\<lparr>lb_messages := lb_messages lb + 1\<rparr>) = (lb1, r, m)"
    by (metis prod.exhaust)
  let ?lb2 = "fst (reset_books r m lb1)"
  have books1: "lb_books lb1 = lb_books lb" using follow_books [OF f] by simp
  have "wf_copies ?lb2" using assms(1) books1 by (auto simp: in_step_def wf_copies_def)
  moreover have "coupled_all books ?lb2"
  proof (cases "r = None")
    case True
    then have "lb_epoch lb = Some epoch" "lb_last_seq lb = Some n"
      using follow_None_iff [of ?env "lb\<lparr>lb_messages := lb_messages lb + 1\<rparr>"] by (simp_all add: f)
    then show ?thesis using assms(1) books1 True by (auto simp: in_step_def coupled_all_def)
  next
    case False
    then have "lb_books ?lb2 = []" by (cases r) simp_all
    then show ?thesis by (simp only: coupled_all_def) simp
  qed
  ultimately show ?thesis
    using coupled_event [of books ?lb2 op books' ev] assms by (simp add: observe_fst [OF f] in_step_def)
qed

lemma in_step_observed:
  assumes "in_step epoch n books lb" "pub_effect op books = (books', Some ev)"
  shows "in_step epoch (n + 1) books' (fst (observe_envelope \<lparr>be_epoch = epoch, be_seq = n + 1, be_event = ev\<rparr> lb))"
proof -
  have "wf_registry books'" using wf_registry_effect [of books op] assms by (simp add: in_step_def)
  moreover have "wf_copies (fst (observe_envelope env lb))" for env
    using assms(1) by (simp add: in_step_def wf_copies_observe)
  ultimately show ?thesis
    using observe_in_step [OF assms] by (simp add: in_step_def observe_numbers)
qed

lemma in_step_lost:
  "in_step epoch n books lb \<Longrightarrow> pub_effect op books = (books', Some ev) \<Longrightarrow> in_step epoch (n + 1) books' lb"
  using wf_registry_effect [of books op] by (auto simp: in_step_def)

lemma in_step_silent:
  "in_step epoch n books lb \<Longrightarrow> snd (pub_effect op books) = None \<Longrightarrow> in_step epoch n (fst (pub_effect op books)) lb"
  using wf_registry_effect [of books op] coupled_silent [of books lb op] by (auto simp: in_step_def)

definition observe_many :: "bus_envelope list \<Rightarrow> live_books \<Rightarrow> live_books" where
  "observe_many envs lb = fold (\<lambda>env lb. fst (observe_envelope env lb)) envs lb"

lemma observe_many_coupled:
  assumes "in_step epoch n books lb" "subseq seen (pub_log epoch n books ops)" "seen \<noteq> []"
  shows "coupled_all (snd (last seen)) (observe_many (map fst seen) lb) \<and>
    wf_registry (snd (last seen)) \<and> wf_copies (observe_many (map fst seen) lb)"
  using assms
proof (induction ops arbitrary: n books lb seen)
  case (Cons op ops)
  obtain books' res where eff: "pub_effect op books = (books', res)" by fastforce
  show ?case
  proof (cases res)
    case None
    then show ?thesis
      using Cons.IH [of n books' lb seen] Cons.prems in_step_silent [OF Cons.prems(1), of op] eff by simp
  next
    case (Some ev)
    let ?env = "\<lparr>be_epoch = epoch, be_seq = n + 1, be_event = ev\<rparr>"
    let ?rest = "pub_log epoch (n + 1) books' ops"
    note eff = eff [unfolded Some]
    have log: "pub_log epoch n books (op # ops) = (?env, books') # ?rest" by (simp add: eff)
    have "subseq seen ?rest \<or> (\<exists>seen'. seen = (?env, books') # seen' \<and> subseq seen' ?rest)"
      using Cons.prems(2) unfolding log by (cases seen) (auto split: if_splits)
    then show ?thesis
    proof (elim disjE exE conjE)
      assume "subseq seen ?rest"
      then show ?thesis using Cons.IH [OF in_step_lost [OF Cons.prems(1) eff]] Cons.prems(3) by blast
    next
      fix seen' assume s: "seen = (?env, books') # seen'" "subseq seen' ?rest"
      let ?lb' = "fst (observe_envelope ?env lb)"
      note step = in_step_observed [OF Cons.prems(1) eff]
      show ?thesis
      proof (cases "seen' = []")
        case True
        then show ?thesis
          using observe_in_step [OF Cons.prems(1) eff] step by (simp add: s observe_many_def in_step_def)
      next
        case False
        then show ?thesis using Cons.IH [OF step s(2)] by (simp add: s observe_many_def)
      qed
    qed
  qed
qed simp

lemma quiet_coupled:
  "quiet ops books \<Longrightarrow> coupled_all books lb \<Longrightarrow> coupled_all (fold (\<lambda>op b. fst (pub_effect op b)) ops books) lb"
  by (induction ops arbitrary: books) (auto intro: coupled_silent)

section \<open>Status changes and losses\<close>

text \<open>A list of changes of one market, each starting where the one before it ended.\<close>

fun change_chain :: "book_status \<Rightarrow> status_change list \<Rightarrow> book_status option" where
  "change_chain st [] = Some st"
| "change_chain st (c # cs) =
     (if sc_before c = st \<and> sc_after c \<noteq> st then change_chain (sc_after c) cs else None)"

definition changes_of :: "string \<Rightarrow> status_change list \<Rightarrow> status_change list" where
  "changes_of t cs = filter (\<lambda>c. sc_ticker c = t) cs"

lemma change_chain_append:
  "change_chain st (xs @ ys) = (case change_chain st xs of None \<Rightarrow> None | Some st' \<Rightarrow> change_chain st' ys)"
  by (induction xs arbitrary: st) auto

lemma filter_unique: "distinct xs \<Longrightarrow> filter (\<lambda>x. x = a) xs = (if a \<in> set xs then [a] else [])"
  by (induction xs) auto

lemma status_books_cong: "lb_books lb' = lb_books lb \<Longrightarrow> lb_status t lb' = lb_status t lb"
  by (simp add: lb_status_def)

lemma reset_chain:
  assumes "wf_copies lb"
  shows "change_chain (lb_status t lb) (changes_of t (snd (reset_books r m lb))) =
    Some (lb_status t (fst (reset_books r m lb)))"
proof (cases r)
  case None
  then show ?thesis by (simp add: reset_books_def changes_of_def)
next
  case (Some reason)
  let ?f = "\<lambda>t. \<lparr>sc_ticker = t, sc_before = lb_status t lb, sc_after = BookUnknown\<rparr>"
  have "distinct (sort (dict_keys (lb_books lb)))" using assms by (simp add: wf_copies_def dict_wf_def)
  then have "changes_of t (map ?f (sort (dict_keys (lb_books lb)))) =
      map ?f (if t \<in> set (dict_keys (lb_books lb)) then [t] else [])"
    by (simp add: changes_of_def filter_map comp_def filter_unique)
  moreover have "lb_status t lb = BookUnknown \<longleftrightarrow> t \<notin> set (dict_keys (lb_books lb))"
    using dict_get_None_iff [of "lb_books lb" t]
    by (cases "dict_get (lb_books lb) t") (simp_all add: lb_status_def)
  ultimately show ?thesis
    by (auto simp: reset_books_def Some lb_status_def)
qed

definition event_ticker :: "bus_event \<Rightarrow> string" where
  "event_ticker ev = (case ev of EvRefresh r \<Rightarrow> br_ticker r | EvSnapshot s \<Rightarrow> bs_ticker s | EvDelta d \<Rightarrow> bd_ticker d | _ \<Rightarrow> [])"

lemma other_copies:
  "t \<noteq> event_ticker ev \<or> \<not> is_book_event ev \<Longrightarrow>
   dict_get (lb_books (fst (apply_event ev lb))) t = dict_get (lb_books lb) t"
  by (cases ev) (auto simp: apply_event_def event_ticker_def adopt_def change_copy_def Let_def dict_simps
      split: prod.splits sum.splits option.splits)

lemma event_chain:
  "change_chain (lb_status t lb) (changes_of t (snd (snd (apply_event ev lb)))) =
   Some (lb_status t (fst (apply_event ev lb)))"
proof (cases "is_book_event ev")
  case False
  then show ?thesis by (cases ev) (simp_all add: apply_event_def changes_of_def)
next
  case True
  then have d: "snd (snd (apply_event ev lb)) = status_diff (event_ticker ev) lb (fst (apply_event ev lb))"
    by (cases ev) (simp_all add: apply_event_def event_ticker_def split: prod.splits)
  show ?thesis
  proof (cases "t = event_ticker ev")
    case True
    then show ?thesis by (auto simp: d status_diff_def changes_of_def)
  next
    case False
    then have "lb_status t (fst (apply_event ev lb)) = lb_status t lb"
      using other_copies [of t ev lb] by (simp add: lb_status_def)
    with False show ?thesis by (auto simp: d status_diff_def changes_of_def)
  qed
qed

lemma observe_chain:
  assumes "wf_copies lb"
  shows "change_chain (lb_status t lb) (changes_of t (ob_changes (snd (observe_envelope env lb)))) =
    Some (lb_status t (fst (observe_envelope env lb)))"
proof -
  obtain lb1 r m where f: "follow env (lb\<lparr>lb_messages := lb_messages lb + 1\<rparr>) = (lb1, r, m)"
    by (metis prod.exhaust)
  have books: "lb_books lb1 = lb_books lb" using follow_books [OF f] by simp
  then have wf: "wf_copies lb1" using assms by (simp add: wf_copies_def)
  obtain lb2 cs where r: "reset_books r m lb1 = (lb2, cs)" by fastforce
  have "ob_changes (snd (observe_envelope env lb)) = cs @ snd (snd (apply_event (be_event env) lb2))"
    by (simp add: observe_envelope_def f r split: prod.splits)
  then show ?thesis
    using reset_chain [OF wf, of t r m] event_chain [of t lb2 "be_event env"] status_books_cong [OF books, of t]
    by (simp add: r observe_fst [OF f] changes_of_def change_chain_append)
qed

lemma observe_counters:
  "lb_messages (fst (observe_envelope env lb)) = lb_messages lb + 1"
  "lb_missed (fst (observe_envelope env lb)) = lb_missed lb +
     (if ob_reset (snd (observe_envelope env lb)) = None then 0 else ob_missed (snd (observe_envelope env lb)))"
proof -
  obtain lb1 r m where f: "follow env (lb\<lparr>lb_messages := lb_messages lb + 1\<rparr>) = (lb1, r, m)"
    by (metis prod.exhaust)
  have e: "lb_messages (fst (apply_event ev lb)) = lb_messages lb" "lb_missed (fst (apply_event ev lb)) = lb_missed lb" for ev lb
    by (auto simp: apply_event_def adopt_def change_copy_def Let_def split: bus_event.splits prod.splits
      option.splits sum.splits if_splits)
  have l: "lb_messages lb1 = lb_messages lb + 1" "lb_missed lb1 = lb_missed lb"
    using follow_fst [of env "lb\<lparr>lb_messages := lb_messages lb + 1\<rparr>"] by (simp_all add: f)
  have o: "ob_reset (snd (observe_envelope env lb)) = r" "ob_missed (snd (observe_envelope env lb)) = m"
    by (simp_all add: observe_envelope_def f split: prod.splits)
  show "lb_messages (fst (observe_envelope env lb)) = lb_messages lb + 1"
    "lb_missed (fst (observe_envelope env lb)) = lb_missed lb +
     (if ob_reset (snd (observe_envelope env lb)) = None then 0 else ob_missed (snd (observe_envelope env lb)))"
    by (simp_all add: observe_fst [OF f] e l o reset_books_def)
qed

lemma observe_gap:
  assumes "lb_epoch lb = Some (be_epoch env)" "lb_last_seq lb = Some n" "n < be_seq env"
  shows "lb_missed (fst (observe_envelope env lb)) = lb_missed lb + (be_seq env - n - 1)"
proof -
  have "follow env (lb\<lparr>lb_messages := lb_messages lb + 1\<rparr>) =
      (lb\<lparr>lb_messages := lb_messages lb + 1, lb_epoch := Some (be_epoch env), lb_last_seq := Some (be_seq env)\<rparr>,
       if be_seq env \<noteq> n + 1 then Some ResetGap else None, be_seq env - n - 1)"
    using assms by (simp add: follow_def Let_def)
  then have "ob_reset (snd (observe_envelope env lb)) = (if be_seq env \<noteq> n + 1 then Some ResetGap else None)"
    "ob_missed (snd (observe_envelope env lb)) = be_seq env - n - 1"
    by (simp_all add: observe_envelope_def split: prod.splits)
  then show ?thesis by (simp add: observe_counters)
qed

lemma observe_many_losses:
  assumes "lb_epoch lb = Some epoch" "lb_last_seq lb = Some n"
    "\<forall>env\<in>set envs. be_epoch env = epoch" "sorted_wrt (<) (n # map be_seq envs)"
  shows "lb_missed (observe_many envs lb) + lb_messages (observe_many envs lb) =
    lb_missed lb + lb_messages lb + (last (n # map be_seq envs) - n)"
  using assms
proof (induction envs arbitrary: lb n)
  case (Cons env envs)
  let ?lb' = "fst (observe_envelope env lb)"
  have "lb_missed (observe_many envs ?lb') + lb_messages (observe_many envs ?lb') =
      lb_missed ?lb' + lb_messages ?lb' + (last (be_seq env # map be_seq envs) - be_seq env)"
    by (rule Cons.IH) (use Cons.prems in \<open>auto simp: observe_numbers\<close>)
  moreover have "lb_missed ?lb' + lb_messages ?lb' = lb_missed lb + lb_messages lb + (be_seq env - n)"
    using observe_gap [of lb env n] Cons.prems by (simp add: observe_counters(1))
  ultimately show ?case by (simp add: observe_many_def)
qed (simp add: observe_many_def)

section \<open>Properties\<close>

text \<open>
  C1. A lossy consumer is never wrong about a book it calls fresh. Whatever a publisher does in an
  epoch and whichever of its messages are lost, once a consumer that never saw this epoch has
  observed some of them, then for every book it holds, at the publisher's books as of the last
  message observed and for as long as the publisher publishes nothing more: a copy that is
  stale is stale at the publisher, and if the publisher's book is fresh the copy has its levels.
\<close>

theorem consumer_follows_publisher:
  assumes "wf_registry books" "wf_copies lb" "lb_epoch lb \<noteq> Some epoch"
    "subseq seen (pub_log epoch 0 books ops)" "seen \<noteq> []" "quiet silent (snd (last seen))"
    "dict_get (fold (\<lambda>op b. fst (pub_effect op b)) silent (snd (last seen))) t = Some b"
    "dict_get (lb_books (observe_many (map fst seen) lb)) t = Some c"
  shows "(bk_stale c \<longrightarrow> bk_stale b) \<and>
    (\<not> bk_stale b \<longrightarrow> \<not> bk_stale c \<and> (\<forall>s p. size_at s p c = size_at s p b))"
proof -
  have "in_step epoch 0 books lb" using assms(1-3) by (simp add: in_step_def)
  then have "coupled_all (snd (last seen)) (observe_many (map fst seen) lb)"
    using observe_many_coupled assms(4,5) by blast
  then have "coupled b c" using quiet_coupled [OF assms(6)] assms(7,8) by (auto simp: coupled_all_def)
  then show ?thesis by (auto simp: coupled_def)
qed

definition example_rc :: receipt where
  "example_rc = \<lparr>rc_conn_id = 1, rc_recv_mono_ns = 2, rc_recv_wall_ns = 3\<rparr>"

definition example_delta :: book_delta where
  "example_delta = \<lparr>bd_ticker = ''KXA-1'', bd_ts_ms = Some 9, bd_receipt = example_rc, bd_sid = 1,
     bd_seq = Some 2, bd_side = BID, bd_price = 5500, bd_delta = 1, bd_own_client_order_id = None\<rparr>"

theorem consumer_follows_publisher_witness:
  "\<exists>c. dict_get (lb_books (observe_many (map fst (tl (pub_log 5 0 [(''KXA-1'', example_book)]
        [PubDelta example_delta, PubRefresh ''KXA-1'' example_rc]))) new_live_books)) ''KXA-1'' = Some c \<and>
     \<not> bk_stale c \<and> size_at BID 5500 c = 251"
proof -
  let ?books = "[(''KXA-1'', example_book)]"
  obtain b' where d: "apply_delta BID 5500 1 (Some 9) example_book = (b', Inr True)"
    and b: "b' = \<lparr>bk_ticker = ''KXA-1'', bk_bids = [(5500, 251)], bk_asks = [(5700, 40)],
     bk_best_bid = Some 5500, bk_best_ask = Some 5700, bk_stale = False, bk_last_ts_ms = Some 9\<rparr>"
    by (simp add: example_book_eq apply_delta_def dict_get_or_def Let_def change_level_def)
  let ?seen = "[(\<lparr>be_epoch = 5, be_seq = 2, be_event = EvRefresh (refresh_image example_rc ''KXA-1'' b')\<rparr>, [(''KXA-1'', b')])]"
  have log: "tl (pub_log 5 0 ?books [PubDelta example_delta, PubRefresh ''KXA-1'' example_rc]) = ?seen"
    by (simp add: example_delta_def d)
  have wf: "wf_registry ?books" using wf_example_book by (simp add: wf_registry_def example_book_eq)
  have new: "wf_copies new_live_books" "lb_epoch new_live_books \<noteq> Some 5"
    by (simp_all add: wf_copies_def new_live_books_def)
  have sub: "subseq ?seen (pub_log 5 0 ?books [PubDelta example_delta, PubRefresh ''KXA-1'' example_rc])"
    unfolding log [symmetric] by (metis list.collapse list_emb_Nil2 list_emb_Cons subseq_order.order_refl tl_Nil)
  obtain c where c: "dict_get (lb_books (observe_many (map fst ?seen) new_live_books)) ''KXA-1'' = Some c"
    by (simp add: observe_many_def observe_envelope_def follow_def new_live_books_def reset_books_def apply_event_def
        adopt_def refresh_image_def b apply_snapshot_def opt_max_def opt_min_def new_book_def is_stale_def Let_def)
  have get: "dict_get (fold (\<lambda>op b. fst (pub_effect op b)) [] (snd (last ?seen))) ''KXA-1'' = Some b'" by simp
  have "(bk_stale c \<longrightarrow> bk_stale b') \<and> (\<not> bk_stale b' \<longrightarrow> \<not> bk_stale c \<and> (\<forall>s p. size_at s p c = size_at s p b'))"
    by (rule consumer_follows_publisher [OF wf new sub _ _ get c]) simp_all
  moreover have "\<not> bk_stale b'" "size_at BID 5500 b' = 251" by (simp_all add: b size_at_def dict_get_or_def)
  ultimately have "\<not> bk_stale c" "size_at BID 5500 c = 251" by auto
  with c show ?thesis unfolding log by blast
qed

text \<open>
  Every status change is reported exactly once and in order: for every market, the changes
  one observation reports lead from the market's status before the message to its status after
  it, each starting where the previous one ended and none leaving the status as it was.
\<close>

theorem status_changes_exact:
  assumes "wf_copies lb"
  shows "change_chain (lb_status t lb) (changes_of t (ob_changes (snd (observe_envelope env lb)))) =
      Some (lb_status t (fst (observe_envelope env lb))) \<and>
    wf_copies (fst (observe_envelope env lb))"
  using observe_chain [OF assms] wf_copies_observe [OF assms] by blast

theorem status_changes_exact_witness:
  "wf_copies new_live_books \<and>
   change_chain BookUnknown (changes_of ''KXA-1'' (ob_changes (snd (observe_envelope
     \<lparr>be_epoch = 5, be_seq = 2, be_event = EvRefresh (refresh_image example_rc ''KXA-1'' example_book)\<rparr>
     new_live_books)))) = Some BookFresh"
proof -
  let ?env = "\<lparr>be_epoch = 5, be_seq = 2, be_event = EvRefresh (refresh_image example_rc ''KXA-1'' example_book)\<rparr>"
  have new: "wf_copies new_live_books" by (simp add: wf_copies_def new_live_books_def)
  have "lb_status ''KXA-1'' (fst (observe_envelope ?env new_live_books)) = BookFresh"
    by (simp add: observe_envelope_def follow_def new_live_books_def reset_books_def apply_event_def lb_status_def
        adopt_def refresh_image_def example_book_eq apply_snapshot_def opt_max_def opt_min_def new_book_def
        is_stale_def Let_def)
  moreover have "lb_status ''KXA-1'' new_live_books = BookUnknown" by (simp add: lb_status_def new_live_books_def)
  ultimately show ?thesis using status_changes_exact [OF new, of "''KXA-1''" ?env] new by simp
qed

text \<open>
  Losses are counted exactly: a consumer that starts within an epoch and receives some of its
  messages in order has, when it has observed the last of them, counted as observed or missed
  every number from the first it saw to the last.
\<close>

theorem losses_counted:
  assumes "\<forall>env\<in>set (first # envs). be_epoch env = epoch" "sorted_wrt (<) (map be_seq (first # envs))"
  shows "lb_missed (observe_many (first # envs) new_live_books) +
      lb_messages (observe_many (first # envs) new_live_books) =
    be_seq (last (first # envs)) - be_seq first + 1 \<and>
    lb_messages (observe_many (first # envs) new_live_books) = int (length (first # envs))"
proof -
  let ?lb = "fst (observe_envelope first new_live_books)"
  have "follow first (new_live_books\<lparr>lb_messages := lb_messages new_live_books + 1\<rparr>) =
      (new_live_books\<lparr>lb_messages := 1, lb_epoch := Some (be_epoch first), lb_last_seq := Some (be_seq first)\<rparr>, Some ResetStart, 0)"
    by (simp add: follow_def new_live_books_def)
  then have "ob_missed (snd (observe_envelope first new_live_books)) = 0"
    by (simp add: observe_envelope_def split: prod.splits)
  then have start: "lb_missed ?lb = 0" "lb_messages ?lb = 1"
    by (auto simp: observe_counters new_live_books_def)
  have len: "lb_messages (observe_many envs lb) = lb_messages lb + int (length envs)" for envs lb
    by (induction envs arbitrary: lb) (simp_all add: observe_many_def observe_counters)
  have "last (be_seq first # map be_seq envs) = be_seq (last (first # envs))"
    by (cases envs rule: rev_cases) simp_all
  then show ?thesis
    using observe_many_losses [of ?lb epoch "be_seq first" envs] assms start len [of envs ?lb]
    by (simp add: observe_numbers observe_many_def)
qed

theorem losses_counted_witness:
  "lb_missed (observe_many [\<lparr>be_epoch = 5, be_seq = 3, be_event = EvCatalog []\<rparr>,
      \<lparr>be_epoch = 5, be_seq = 7, be_event = EvCatalog []\<rparr>] new_live_books) = 3"
  using losses_counted [of "\<lparr>be_epoch = 5, be_seq = 3, be_event = EvCatalog []\<rparr>"
      "[\<lparr>be_epoch = 5, be_seq = 7, be_event = EvCatalog []\<rparr>]" 5]
  by simp

end
