(* ===== verification/Tap.thy ===== *)
theory Tap
  imports Livebooks
begin

text \<open>
  \<^verbatim>\<open>tape/recorder/tap.py\<close>: book taps. A supervisor's live books are a dictionary from ticker to a
  numbered book object, because closing a tap asks whether the book is still the same object;
  \<open>live_step\<close> is what a supervisor does to one book (\<^verbatim>\<open>supervisor.py\<close>, \<^verbatim>\<open>_on_snapshot\<close>,
  \<^verbatim>\<open>_on_delta\<close> and the places that mark books stale or drop them), with what it reports to taps.
\<close>

datatype tap_fault = FaultNoBook | FaultStale | FaultOverflow

record book_image =
  bi_bids :: "level list"
  bi_asks :: "level list"

definition image_of :: "book \<Rightarrow> book_image" where
  "image_of b = \<lparr>bi_bids = levels BID b, bi_asks = levels ASK b\<rparr>"

definition to_book :: "string \<Rightarrow> book_image \<Rightarrow> book_error + book" where
  "to_book ticker img =
     (case apply_snapshot (bi_bids img) (bi_asks img) None (new_book ticker) of
        (b, Inl e) \<Rightarrow> Inl e | (b, Inr _) \<Rightarrow> Inr b)"

record tap_window =
  tw_ticker :: string
  tw_start :: "book_image option"
  tw_events :: "book_change list"
  tw_fault :: "tap_fault option"

datatype tap_error = MaxEventsNotPositive int | StartFaultMismatch string | EventsWithoutStart string

definition new_tap_window ::
  "string \<Rightarrow> book_image option \<Rightarrow> book_change list \<Rightarrow> tap_fault option \<Rightarrow> tap_error + tap_window" where
  "new_tap_window ticker start events fault =
     (if (start = None) \<noteq> (fault = Some FaultNoBook) then Inl (StartFaultMismatch ticker)
      else if start = None \<and> events \<noteq> [] then Inl (EventsWithoutStart ticker)
      else Inr \<lparr>tw_ticker = ticker, tw_start = start, tw_events = events, tw_fault = fault\<rparr>)"

definition absent_window :: "string \<Rightarrow> tap_window" where
  "absent_window ticker = \<lparr>tw_ticker = ticker, tw_start = None, tw_events = [], tw_fault = Some FaultNoBook\<rparr>"

record recording =
  re_book :: "nat option"
  re_start :: "book_image option"
  re_events :: "book_change list"
  re_fault :: "tap_fault option"

record live_registry =
  lr_books :: "(string, nat \<times> book) dict"
  lr_next :: nat

record live_tap =
  lt_tickers :: "string list"
  lt_max_events :: int
  lt_recordings :: "(string, recording) dict"
  lt_windows :: "(string, tap_window) dict option"

definition open_recording :: "live_registry \<Rightarrow> string \<Rightarrow> recording" where
  "open_recording live ticker =
     (case dict_get (lr_books live) ticker of
        None \<Rightarrow> \<lparr>re_book = None, re_start = None, re_events = [], re_fault = Some FaultNoBook\<rparr>
      | Some (n, b) \<Rightarrow>
          if is_stale b then \<lparr>re_book = None, re_start = None, re_events = [], re_fault = Some FaultNoBook\<rparr>
          else \<lparr>re_book = Some n, re_start = Some (image_of b), re_events = [], re_fault = None\<rparr>)"

definition new_live_tap :: "string list \<Rightarrow> live_registry \<Rightarrow> int \<Rightarrow> tap_error + live_tap" where
  "new_live_tap tickers live max_events =
     (if max_events \<le> 0 then Inl (MaxEventsNotPositive max_events)
      else Inr \<lparr>lt_tickers = remdups tickers, lt_max_events = max_events,
        lt_recordings = map (\<lambda>t. (t, open_recording live t)) (sort (remdups tickers)), lt_windows = None\<rparr>)"

definition tap_closed :: "live_tap \<Rightarrow> bool" where
  "tap_closed tap \<longleftrightarrow> lt_windows tap \<noteq> None"

definition record_change :: "int \<Rightarrow> book_change \<Rightarrow> bool \<Rightarrow> recording \<Rightarrow> recording" where
  "record_change max_events change was_stale r =
     (if re_fault r \<noteq> None then r
      else if was_stale then r\<lparr>re_fault := Some FaultStale\<rparr>
      else if int (length (re_events r)) \<ge> max_events then r\<lparr>re_fault := Some FaultOverflow\<rparr>
      else r\<lparr>re_events := re_events r @ [change]\<rparr>)"

definition tap_record :: "book_change \<Rightarrow> bool \<Rightarrow> live_tap \<Rightarrow> live_tap" where
  "tap_record change was_stale tap =
     (case dict_get (lt_recordings tap) (change_ticker change) of
        None \<Rightarrow> tap
      | Some r \<Rightarrow> tap\<lparr>lt_recordings :=
          dict_put (change_ticker change) (record_change (lt_max_events tap) change was_stale r) (lt_recordings tap)\<rparr>)"

definition finish_recording :: "live_registry \<Rightarrow> string \<Rightarrow> recording \<Rightarrow> tap_error + tap_window" where
  "finish_recording live ticker r =
     (let gone = (case dict_get (lr_books live) ticker of
                    None \<Rightarrow> True | Some (n, b) \<Rightarrow> Some n \<noteq> re_book r \<or> is_stale b);
          fault = (if re_fault r = None \<and> gone then Some FaultStale else re_fault r)
      in new_tap_window ticker (re_start r) (re_events r) fault)"

definition tap_close :: "live_registry \<Rightarrow> live_tap \<Rightarrow> live_tap \<times> (tap_error + (string, tap_window) dict)" where
  "tap_close live tap =
     (case lt_windows tap of
        Some ws \<Rightarrow> (tap, Inr ws)
      | None \<Rightarrow>
          (case result_list (\<lambda>(t, r). result_bind (finish_recording live t r) (\<lambda>w. Inr (t, w))) (lt_recordings tap) of
             Inl e \<Rightarrow> (tap, Inl e)
           | Inr ws \<Rightarrow> (tap\<lparr>lt_windows := Some ws, lt_recordings := []\<rparr>, Inr ws)))"

section \<open>Several taps closed as one\<close>

record composite_tap =
  ct_taps :: "(live_registry \<times> live_tap) list"
  ct_uncovered :: "string list"
  ct_windows :: "(string, tap_window) dict option"

definition merge_windows :: "(string, tap_window) dict \<Rightarrow> (string, tap_window) dict \<Rightarrow> (string, tap_window) dict" where
  "merge_windows new ws = fold (\<lambda>(t, w). dict_put t w) new ws"

definition composite_close :: "composite_tap \<Rightarrow> composite_tap \<times> (tap_error + (string, tap_window) dict)" where
  "composite_close ct =
     (case ct_windows ct of
        Some ws \<Rightarrow> (ct, Inr ws)
      | None \<Rightarrow>
          (let absent = map (\<lambda>t. (t, absent_window t)) (sort (remdups (ct_uncovered ct)))
           in case result_list (\<lambda>(live, tap). snd (tap_close live tap)) (ct_taps ct) of
                Inl e \<Rightarrow> (ct, Inl e)
              | Inr wss \<Rightarrow>
                  (let ws = fold merge_windows wss absent
                   in (ct\<lparr>ct_windows := Some ws, ct_taps := []\<rparr>, Inr ws))))"

section \<open>What a supervisor does to its books\<close>

datatype live_op = LvSnapshot book_snapshot | LvDelta book_delta | LvStale string | LvDrop string

definition put_book :: "string \<Rightarrow> nat \<Rightarrow> book \<Rightarrow> live_registry \<Rightarrow> live_registry" where
  "put_book t n b live = live\<lparr>lr_books := dict_put t (n, b) (lr_books live)\<rparr>"

text \<open>The registry after an operation, and the change reported to taps with the stale flag before it.\<close>

fun live_step :: "live_op \<Rightarrow> live_registry \<Rightarrow> live_registry \<times> (book_change \<times> bool) option" where
  "live_step (LvSnapshot s) live =
     (let t = bs_ticker s;
          (live1, n, b) = (case dict_get (lr_books live) t of
             Some (n, b) \<Rightarrow> (live, n, b)
           | None \<Rightarrow> (live\<lparr>lr_next := lr_next live + 1\<rparr>, lr_next live, new_book t));
          was_stale = is_stale b
      in case apply_snapshot (bs_bids s) (bs_asks s) (bs_ts_ms s) b of
           (b', Inl e) \<Rightarrow> (put_book t n b' live1, None)
         | (b', Inr _) \<Rightarrow> (put_book t n b' live1, Some (ChSnapshot s, was_stale)))"
| "live_step (LvDelta d) live =
     (case dict_get (lr_books live) (bd_ticker d) of
        None \<Rightarrow> (live, None)
      | Some (n, b) \<Rightarrow>
          (case apply_delta (bd_side d) (bd_price d) (bd_delta d) (bd_ts_ms d) b of
             (b', Inl e) \<Rightarrow> (put_book (bd_ticker d) n b' live, None)
           | (b', Inr applied) \<Rightarrow>
               (put_book (bd_ticker d) n b' live, if applied then Some (ChDelta d, False) else None)))"
| "live_step (LvStale t) live =
     (case dict_get (lr_books live) t of
        None \<Rightarrow> (live, None) | Some (n, b) \<Rightarrow> (put_book t n (mark_stale b) live, None))"
| "live_step (LvDrop t) live = (live\<lparr>lr_books := dict_pop t (lr_books live)\<rparr>, None)"

definition tap_step :: "live_op \<Rightarrow> live_registry \<times> live_tap \<Rightarrow> live_registry \<times> live_tap" where
  "tap_step op st =
     (case st of (live, tap) \<Rightarrow>
        (case live_step op live of
           (live', None) \<Rightarrow> (live', tap)
         | (live', Some (change, was_stale)) \<Rightarrow> (live', tap_record change was_stale tap)))"

section \<open>Replaying changes\<close>

text \<open>
  The replay contract: applying one change to states that look the same succeeds on both or on
  neither and leaves states that look the same. The tap and the auditor rest on it.
\<close>

locale replayable =
  fixes app :: "'c \<Rightarrow> 's \<Rightarrow> 'e + 's"
    and same :: "'s \<Rightarrow> 's \<Rightarrow> bool"
  assumes app_same: "same a b \<Longrightarrow> app c a = Inr a' \<Longrightarrow> \<exists>b'. app c b = Inr b' \<and> same a' b'"
begin

fun replay_all :: "'c list \<Rightarrow> 's \<Rightarrow> 'e + 's" where
  "replay_all [] s = Inr s"
| "replay_all (c # cs) s = result_bind (app c s) (replay_all cs)"

lemma replay_all_append: "replay_all (xs @ ys) s = result_bind (replay_all xs s) (replay_all ys)"
proof (induction xs arbitrary: s)
  case (Cons c cs)
  then show ?case by (cases "app c s") simp_all
qed simp

lemma replay_all_same: "same a b \<Longrightarrow> replay_all cs a = Inr a' \<Longrightarrow> \<exists>b'. replay_all cs b = Inr b' \<and> same a' b'"
proof (induction cs arbitrary: a b)
  case (Cons c cs)
  then obtain a1 where a1: "app c a = Inr a1" "replay_all cs a1 = Inr a'" by (auto simp: result_simps)
  with app_same [OF Cons.prems(1)] obtain b1 where "app c b = Inr b1" "same a1 b1" by blast
  with Cons.IH a1(2) show ?case by simp
qed simp

lemma replay_all_prefix: "replay_all cs s = Inr s' \<Longrightarrow> \<exists>sk. replay_all (take k cs) s = Inr sk"
  using replay_all_append [of "take k cs" "drop k cs" s] by (cases "replay_all (take k cs) s") auto

end

text \<open>A change that applies: the rebuilt book, or the invariant it breaks.\<close>

definition replay_change :: "book_change \<Rightarrow> book \<Rightarrow> book_error + book" where
  "replay_change c b = (case apply_change c b of (b', Inl e) \<Rightarrow> Inl e | (b', Inr _) \<Rightarrow> Inr b')"

definition fresh_same :: "book \<Rightarrow> book \<Rightarrow> bool" where
  "fresh_same a b \<longleftrightarrow> wf_book a \<and> wf_book b \<and> \<not> bk_stale a \<and> \<not> bk_stale b \<and> (\<forall>s p. size_at s p a = size_at s p b)"

lemma fresh_same_abs: "fresh_same a b \<longleftrightarrow> wf_book a \<and> wf_book b \<and> \<not> bk_stale a \<and> abs_of a = abs_of b"
  by (auto simp: fresh_same_def abs_of_def fun_eq_iff)

lemma delta_applied_stays_fresh: "apply_delta s p d ts b = (b', Inr True) \<Longrightarrow> \<not> bk_stale b'"
  by (auto simp: apply_delta_def Let_def mark_stale_def split: if_splits option.splits)

lemma delta_fresh_True: "apply_delta s p d ts b = (b', Inr x) \<Longrightarrow> \<not> bk_stale b \<Longrightarrow> x"
  by (auto simp: apply_delta_def Let_def split: if_splits)

lemma replay_snapshot_same:
  assumes "fresh_same a b" "replay_change (ChSnapshot s) a = Inr a'"
  shows "\<exists>b'. replay_change (ChSnapshot s) b = Inr b' \<and> fresh_same a' b'"
proof -
  let ?snap = "apply_snapshot (bs_bids s) (bs_asks s) (bs_ts_ms s)"
  have valid: "valid_image (bs_bids s) (bs_asks s)"
    using assms(2) apply_snapshot_invalid [of "bs_bids s" "bs_asks s" "bs_ts_ms s" a]
    by (cases "valid_image (bs_bids s) (bs_asks s)") (auto simp: replay_change_def)
  then have a': "a' = fst (?snap a)" "replay_change (ChSnapshot s) b = Inr (fst (?snap b))"
    using assms(2) by (simp_all add: replay_change_def apply_snapshot_valid)
  have "abs_of (fst (?snap a)) = abs_of (fst (?snap b))"
    by (simp only: abs_of_apply_snapshot) (simp add: abs_snapshot_def valid)
  moreover have "\<not> bk_stale (fst (?snap a))"
    by (simp add: apply_snapshot_valid [OF valid]) (simp add: image_book_def)
  ultimately show ?thesis
    using assms(1) a' by (simp add: fresh_same_abs wf_book_apply_snapshot)
qed

lemma replay_delta_same:
  assumes "fresh_same a b" "replay_change (ChDelta d) a = Inr a'"
  shows "\<exists>b'. replay_change (ChDelta d) b = Inr b' \<and> fresh_same a' b'"
proof -
  let ?delta = "apply_delta (bd_side d) (bd_price d) (bd_delta d) (bd_ts_ms d)"
  have wf: "wf_book a" "wf_book b" and fresh: "\<not> bk_stale a" and eq: "abs_of a = abs_of b"
    using assms(1) by (simp_all add: fresh_same_abs)
  obtain x where a: "?delta a = (a', Inr x)"
    using assms(2) by (auto simp: replay_change_def split: prod.splits sum.splits)
  then have a1: "?delta a = (a', Inr True)" using delta_fresh_True [OF a fresh] by simp
  then have "snd (?delta b) = Inr True"
    using apply_delta_applied_iff [OF wf(1)] apply_delta_applied_iff [OF wf(2)] eq
    by (metis (no_types, lifting) abs_book.ext_inject abs_of_def snd_conv)
  then obtain b' where b: "?delta b = (b', Inr True)" by (metis prod.collapse)
  have "abs_of a' = abs_of b'"
    using abs_of_apply_delta [OF wf(1), of "bd_side d" "bd_price d" "bd_delta d" "bd_ts_ms d"]
      abs_of_apply_delta [OF wf(2), of "bd_side d" "bd_price d" "bd_delta d" "bd_ts_ms d"]
    by (simp add: a b eq)
  moreover have "wf_book a'" "wf_book b'"
    using wf_book_apply_delta [OF wf(1), of "bd_side d" "bd_price d" "bd_delta d" "bd_ts_ms d"]
      wf_book_apply_delta [OF wf(2), of "bd_side d" "bd_price d" "bd_delta d" "bd_ts_ms d"]
    by (simp_all add: a b)
  ultimately have "fresh_same a' b'"
    using delta_applied_stays_fresh [OF a1] by (simp add: fresh_same_abs)
  moreover have "replay_change (ChDelta d) b = Inr b'" by (simp add: replay_change_def b)
  ultimately show ?thesis by blast
qed

interpretation replay: replayable replay_change fresh_same
proof
  fix a b c a' assume "fresh_same a b" "replay_change c a = Inr a'"
  then show "\<exists>b'. replay_change c b = Inr b' \<and> fresh_same a' b'"
    using replay_snapshot_same replay_delta_same by (cases c) blast+
qed

section \<open>One market while a tap is open\<close>

definition wf_live :: "live_registry \<Rightarrow> bool" where
  "wf_live live \<longleftrightarrow> dict_wf (lr_books live) \<and>
     (\<forall>t n b. dict_get (lr_books live) t = Some (n, b) \<longrightarrow> wf_book b \<and> bk_ticker b = t)"

definition book_at :: "live_registry \<Rightarrow> string \<Rightarrow> (nat \<times> book) option" where
  "book_at live t = dict_get (lr_books live) t"

lemma book_at_put: "book_at (put_book t n b live) u = (if u = t then Some (n, b) else book_at live u)"
  by (simp add: book_at_def put_book_def dict_simps)

lemma wf_live_put: "wf_live live \<Longrightarrow> wf_book b \<Longrightarrow> bk_ticker b = t \<Longrightarrow> wf_live (put_book t n b live)"
  by (auto simp: wf_live_def put_book_def dict_simps)

text \<open>What an operation did to one market: nothing, left it stale or gone in silence, or applied
  a change that it reported.\<close>

definition untouched :: "string \<Rightarrow> live_registry \<Rightarrow> live_registry \<Rightarrow> (book_change \<times> bool) option \<Rightarrow> bool" where
  "untouched t live live' rep \<longleftrightarrow> book_at live' t = book_at live t \<and>
     (\<forall>c w. rep = Some (c, w) \<longrightarrow> change_ticker c \<noteq> t)"

definition silenced :: "string \<Rightarrow> live_registry \<Rightarrow> (book_change \<times> bool) option \<Rightarrow> bool" where
  "silenced t live' rep \<longleftrightarrow> rep = None \<and> (\<forall>n b. book_at live' t = Some (n, b) \<longrightarrow> bk_stale b)"

definition reported :: "string \<Rightarrow> live_registry \<Rightarrow> live_registry \<Rightarrow> (book_change \<times> bool) option \<Rightarrow> bool" where
  "reported t live live' rep \<longleftrightarrow> (\<exists>c n b b'. rep = Some (c, bk_stale b) \<and> change_ticker c = t \<and>
     book_at live' t = Some (n, b') \<and> replay_change c b = Inr b' \<and> \<not> bk_stale b' \<and> wf_book b \<and>
     (book_at live t = Some (n, b) \<or> bk_stale b))"

lemma live_step_snapshot:
  assumes "wf_live live" "live_step (LvSnapshot s) live = (live', rep)"
  shows "wf_live live' \<and> (untouched t live live' rep \<or> silenced t live' rep \<or> reported t live live' rep)"
proof -
  define live1 where "live1 = (if book_at live (bs_ticker s) = None then live\<lparr>lr_next := lr_next live + 1\<rparr> else live)"
  define n where "n = (case book_at live (bs_ticker s) of None \<Rightarrow> lr_next live | Some (n, b) \<Rightarrow> n)"
  define b where "b = (case book_at live (bs_ticker s) of None \<Rightarrow> new_book (bs_ticker s) | Some (n, b) \<Rightarrow> b)"
  have b: "wf_book b" "bk_ticker b = bs_ticker s" "book_at live (bs_ticker s) = Some (n, b) \<or> bk_stale b"
    using assms(1) wf_book_new [of "bs_ticker s"]
    by (auto simp: b_def n_def wf_live_def book_at_def new_book_def split: option.splits)
  have at1: "book_at live1 u = book_at live u" for u by (simp add: live1_def book_at_def)
  have wf1: "wf_live live1" using assms(1) by (simp add: live1_def wf_live_def)
  obtain b' r where a: "apply_snapshot (bs_bids s) (bs_asks s) (bs_ts_ms s) b = (b', r)" by fastforce
  have b': "wf_book b'" "bk_ticker b' = bs_ticker s"
    using wf_book_apply_snapshot [OF b(1), of "bs_bids s" "bs_asks s" "bs_ts_ms s"] b(2)
      snapshot_ticker [of "bs_bids s" "bs_asks s" "bs_ts_ms s" b] by (simp_all add: a)
  have step: "live_step (LvSnapshot s) live = (case r of Inl e \<Rightarrow> (put_book (bs_ticker s) n b' live1, None)
      | Inr _ \<Rightarrow> (put_book (bs_ticker s) n b' live1, Some (ChSnapshot s, bk_stale b)))"
    using a by (cases "book_at live (bs_ticker s)")
      (auto simp: live1_def n_def b_def book_at_def is_stale_def Let_def split: sum.splits prod.splits)
  have live': "live' = put_book (bs_ticker s) n b' live1" using assms(2) step by (auto split: sum.splits)
  have wf': "wf_live live'" unfolding live' by (rule wf_live_put [OF wf1 b'])
  show ?thesis
  proof (cases "bs_ticker s = t")
    case False
    then have "untouched t live live' rep"
      using assms(2) step by (auto simp: untouched_def live' book_at_put at1 split: sum.splits)
    then show ?thesis using wf' by simp
  next
    case True
    show ?thesis
    proof (cases r)
      case (Inl e)
      then have "silenced t live' rep"
        using assms(2) step a snapshot_error_stale True by (auto simp: silenced_def live' book_at_put)
      then show ?thesis using wf' by simp
    next
      case (Inr u)
      then have valid: "valid_image (bs_bids s) (bs_asks s)"
        using a apply_snapshot_invalid [of "bs_bids s" "bs_asks s" "bs_ts_ms s" b] by auto
      then have "\<not> bk_stale b'" using a by (simp add: apply_snapshot_valid) (auto simp: image_book_def)
      then have "reported t live live' rep"
        using assms(2) step a b True Inr
        by (auto simp: reported_def live' book_at_put replay_change_def intro!: exI [of _ "ChSnapshot s"] exI [of _ n] exI [of _ b])
      then show ?thesis using wf' by simp
    qed
  qed
qed

lemma live_step_delta:
  assumes "wf_live live" "live_step (LvDelta d) live = (live', rep)"
  shows "wf_live live' \<and> (untouched t live live' rep \<or> silenced t live' rep \<or> reported t live live' rep)"
proof (cases "dict_get (lr_books live) (bd_ticker d)")
  case None
  then show ?thesis using assms by (simp add: untouched_def)
next
  case (Some nb)
  obtain n b where nb: "nb = (n, b)" by fastforce
  have b: "wf_book b" "bk_ticker b = bd_ticker d" using assms(1) Some by (auto simp: nb wf_live_def)
  obtain b' r where a: "apply_delta (bd_side d) (bd_price d) (bd_delta d) (bd_ts_ms d) b = (b', r)" by fastforce
  have b': "wf_book b'" "bk_ticker b' = bd_ticker d"
    using wf_book_apply_delta [OF b(1), of "bd_side d" "bd_price d" "bd_delta d" "bd_ts_ms d"] b(2)
      delta_ticker [of "bd_side d" "bd_price d" "bd_delta d" "bd_ts_ms d" b] by (simp_all add: a)
  have live': "live' = put_book (bd_ticker d) n b' live" and rep: "rep = (if r = Inr True then Some (ChDelta d, False) else None)"
    using assms(2) by (auto simp: Some nb a split: sum.splits if_splits)
  have wf': "wf_live live'" unfolding live' by (rule wf_live_put [OF assms(1) b'])
  show ?thesis
  proof (cases "bd_ticker d = t")
    case False
    then have "untouched t live live' rep" by (auto simp: untouched_def live' book_at_put rep)
    then show ?thesis using wf' by simp
  next
    case True
    show ?thesis
    proof (cases "r = Inr True")
      case True
      then have "\<not> bk_stale b" "\<not> bk_stale b'"
        using a delta_applied_fresh delta_applied_stays_fresh by blast+
      then have "reported t live live' rep"
        using \<open>bd_ticker d = t\<close> True a b Some
        unfolding reported_def live' book_at_put rep
        by (intro exI [of _ "ChDelta d"] exI [of _ n] exI [of _ b] exI [of _ b'])
          (simp add: replay_change_def book_at_def nb)
      then show ?thesis using wf' by simp
    next
      case False
      have "bk_stale b'"
      proof (cases r)
        case (Inl e)
        then show ?thesis using a delta_error_stale by blast
      next
        case (Inr x)
        then show ?thesis
          using False delta_ignored_same [of "bd_side d" "bd_price d" "bd_delta d" "bd_ts_ms d" b b']
            delta_fresh_True [OF a [unfolded Inr]] a by (cases x) auto
      qed
      then have "silenced t live' rep"
        using \<open>bd_ticker d = t\<close> False by (auto simp: silenced_def live' book_at_put rep)
      then show ?thesis using wf' by simp
    qed
  qed
qed

lemma live_step_effect:
  assumes "wf_live live" "live_step op live = (live', rep)"
  shows "wf_live live' \<and> (untouched t live live' rep \<or> silenced t live' rep \<or> reported t live live' rep)"
proof (cases op)
  case (LvSnapshot s)
  then show ?thesis using live_step_snapshot assms by blast
next
  case (LvDelta d)
  then show ?thesis using live_step_delta assms by blast
next
  case (LvStale u)
  have "wf_book (mark_stale b) \<and> bk_ticker (mark_stale b) = u \<and> bk_stale (mark_stale b)"
    if "dict_get (lr_books live) u = Some (n, b)" for n b
    using assms(1) that wf_book_mark_stale [of b] by (auto simp: wf_live_def mark_stale_def)
  then show ?thesis
    using assms wf_live_put [OF assms(1)] LvStale
    by (cases "u = t") (auto simp: untouched_def silenced_def book_at_put split: option.splits)
next
  case (LvDrop u)
  then show ?thesis
    using assms by (cases "u = t") (auto simp: untouched_def silenced_def book_at_def wf_live_def dict_simps split: if_splits)
qed

text \<open>The recording of one market, as the tap's own record changes it.\<close>

definition rec_step :: "int \<Rightarrow> string \<Rightarrow> (book_change \<times> bool) option \<Rightarrow> recording \<Rightarrow> recording" where
  "rec_step max_events t rep r =
     (case rep of None \<Rightarrow> r
      | Some (c, w) \<Rightarrow> if change_ticker c = t then record_change max_events c w r else r)"

lemma tap_step_recording:
  assumes "live_step op live = (live', rep)"
  shows "fst (tap_step op (live, tap)) = live' \<and>
    dict_get (lt_recordings (snd (tap_step op (live, tap)))) t =
      map_option (rec_step (lt_max_events tap) t rep) (dict_get (lt_recordings tap) t) \<and>
    lt_max_events (snd (tap_step op (live, tap))) = lt_max_events tap \<and>
    lt_windows (snd (tap_step op (live, tap))) = lt_windows tap \<and>
    dict_keys (lt_recordings (snd (tap_step op (live, tap)))) = dict_keys (lt_recordings tap)"
proof -
  have keys: "dict_keys (dict_put k v d) = dict_keys d" if "dict_get d k = Some w" for k v w and d :: "(string, recording) dict"
    using that by (simp add: update_keys map_of_SomeD image_iff) (metis fst_conv map_of_SomeD)
  show ?thesis
    using keys by (cases rep; cases "dict_get (lt_recordings tap) t")
      (auto simp: tap_step_def assms rec_step_def tap_record_def dict_simps split: option.splits prod.splits)
qed

text \<open>A book that the tap can no longer vouch for.\<close>

definition lost :: "live_registry \<Rightarrow> string \<Rightarrow> recording \<Rightarrow> bool" where
  "lost live t r \<longleftrightarrow> (case book_at live t of None \<Rightarrow> True | Some (n, b) \<Rightarrow> Some n \<noteq> re_book r \<or> bk_stale b)"

definition rec_ok :: "live_registry \<Rightarrow> string \<Rightarrow> recording \<Rightarrow> bool" where
  "rec_ok live t r \<longleftrightarrow> (re_start r = None \<longleftrightarrow> re_fault r = Some FaultNoBook) \<and> (re_start r = None \<longrightarrow> re_events r = []) \<and>
     (re_fault r = None \<and> \<not> lost live t r \<longrightarrow>
       (\<exists>img n b c0 c. re_start r = Some img \<and> book_at live t = Some (n, b) \<and> to_book t img = Inr c0 \<and>
          replay.replay_all (re_events r) c0 = Inr c \<and> fresh_same c b))"

lemma rec_step_fault: "re_fault r \<noteq> None \<Longrightarrow> rec_step m t rep r = r"
  by (auto simp: rec_step_def record_change_def split: option.splits)

lemma rec_step_fields [simp]:
  "re_book (rec_step m t rep r) = re_book r" "re_start (rec_step m t rep r) = re_start r"
  by (auto simp: rec_step_def record_change_def split: option.splits)

lemma rec_step_events: "\<exists>more_events. re_events (rec_step m t rep r) = re_events r @ more_events"
  by (auto simp: rec_step_def record_change_def split: option.splits)

lemma rec_step_NoBook: "re_fault (rec_step m t rep r) = Some FaultNoBook \<longleftrightarrow> re_fault r = Some FaultNoBook"
  by (auto simp: rec_step_def record_change_def split: option.splits)

lemma lost_step:
  assumes "wf_live live" "live_step op live = (live', rep)" "lost live t r" "re_fault (rec_step m t rep r) = None"
  shows "lost live' t (rec_step m t rep r)"
proof -
  consider "untouched t live live' rep" | "silenced t live' rep" | "reported t live live' rep"
    using live_step_effect [OF assms(1,2)] by blast
  then show ?thesis
  proof cases
    case 1
    then show ?thesis using assms(3) by (auto simp: untouched_def lost_def split: option.splits)
  next
    case 2
    then show ?thesis by (auto simp: silenced_def lost_def split: option.splits)
  next
    case 3
    then obtain c n b b' where r: "rep = Some (c, bk_stale b)" "change_ticker c = t" "book_at live' t = Some (n, b')"
        "book_at live t = Some (n, b) \<or> bk_stale b"
      unfolding reported_def by blast
    then have "\<not> bk_stale b"
      using assms(4) by (auto simp: rec_step_def record_change_def split: if_splits)
    then show ?thesis using r assms(3) by (auto simp: lost_def)
  qed
qed

lemma rec_ok_step:
  assumes "wf_live live" "live_step op live = (live', rep)" "rec_ok live t r"
  shows "rec_ok live' t (rec_step m t rep r)"
proof -
  let ?r = "rec_step m t rep r"
  have struct: "(re_start ?r = None \<longleftrightarrow> re_fault ?r = Some FaultNoBook) \<and> (re_start ?r = None \<longrightarrow> re_events ?r = [])"
    using assms(3) rec_step_fault [of r m t rep] by (auto simp: rec_ok_def rec_step_NoBook)
  have "\<exists>img n b c0 c. re_start ?r = Some img \<and> book_at live' t = Some (n, b) \<and> to_book t img = Inr c0 \<and>
      replay.replay_all (re_events ?r) c0 = Inr c \<and> fresh_same c b"
    if ok: "re_fault ?r = None" and held: "\<not> lost live' t ?r"
  proof -
    have ok0: "re_fault r = None" using ok rec_step_fault [of r m t rep] by fastforce
    have held0: "\<not> lost live t r" using lost_step [OF assms(1,2) _ ok] held by blast
    obtain img n b c0 c where old: "re_start r = Some img" "book_at live t = Some (n, b)" "to_book t img = Inr c0"
        "replay.replay_all (re_events r) c0 = Inr c" "fresh_same c b"
      using assms(3) ok0 held0 unfolding rec_ok_def by blast
    consider "untouched t live live' rep" | "silenced t live' rep" | "reported t live live' rep"
      using live_step_effect [OF assms(1,2)] by blast
    then show ?thesis
    proof cases
      case 1
      then have "?r = r" by (auto simp: untouched_def rec_step_def split: option.splits)
      then show ?thesis using old 1 by (auto simp: untouched_def)
    next
      case 2
      then show ?thesis using held by (auto simp: silenced_def lost_def split: option.splits)
    next
      case 3
      then obtain ch n' b0 b' where r: "rep = Some (ch, bk_stale b0)" "change_ticker ch = t" "book_at live' t = Some (n', b')"
          "replay_change ch b0 = Inr b'" "book_at live t = Some (n', b0) \<or> bk_stale b0" "wf_book b0"
        unfolding reported_def by blast
      have "\<not> bk_stale b0" using ok r(1,2) by (auto simp: rec_step_def record_change_def split: if_splits)
      then have b0: "b0 = b" using r(5) old(2) by auto
      have ev: "re_events ?r = re_events r @ [ch]"
        using ok ok0 r(1,2) by (auto simp: rec_step_def record_change_def split: if_splits)
      have "fresh_same b c" using old(5) by (auto simp: fresh_same_def)
      then obtain c' where c': "replay_change ch c = Inr c'" "fresh_same b' c'"
        using replay.app_same r(4) b0 by blast
      then have "replay.replay_all (re_events ?r) c0 = Inr c'" "fresh_same c' b'"
        by (simp_all add: ev replay.replay_all_append old(4)) (auto simp: fresh_same_def)
      then show ?thesis using old(1,3) r(3) by auto
    qed
  qed
  then show ?thesis using struct unfolding rec_ok_def by blast
qed

lemma valid_levels_of_book:
  assumes "wf_levels b" shows "valid_levels (levels s b)"
proof -
  let ?xs = "map level_pair (levels s b)"
  have xs: "mset ?xs = mset (side_levels s b)" using mset_levels [of s b] by simp
  have "distinct (map fst ?xs)"
    using wf_levels_side [OF assms, of s] mset_eq_imp_distinct_iff [of "map fst ?xs" "dict_keys (side_levels s b)"] xs
    by (metis dict_wf_def mset_map)
  then have "distinct (map lv_price (levels s b))" by (simp add: comp_def del: levels.simps)
  moreover have "0 < lv_count l" if "l \<in> set (levels s b)" for l
  proof -
    have "level_pair l \<in> set (side_levels s b)" using that mset_eq_setD [OF xs] by auto
    then show ?thesis using wf_levels_side [OF assms, of s] by (auto simp: counts_positive_def)
  qed
  ultimately show ?thesis by (simp add: valid_levels_def del: levels.simps)
qed

lemma rec_ok_open:
  assumes "wf_live live"
  shows "rec_ok live t (open_recording live t)"
proof (cases "book_at live t")
  case None
  then show ?thesis by (simp add: rec_ok_def open_recording_def book_at_def)
next
  case (Some nb)
  obtain n b where nb: "nb = (n, b)" by fastforce
  have wf: "wf_book b" using assms Some by (auto simp: nb wf_live_def book_at_def)
  show ?thesis
  proof (cases "bk_stale b")
    case True
    then show ?thesis using Some by (simp add: rec_ok_def open_recording_def book_at_def nb is_stale_def)
  next
    case False
    have lv: "wf_levels b" using wf by (simp add: wf_book_levels)
    have "abs_crossed (\<lambda>s p. size_at s p b) = False"
      using crossed_iff [OF lv] wf False by (auto simp: wf_book_levels)
    moreover have "valid_levels (levels s b)" for s
      by (rule valid_levels_of_book [OF lv])
    ultimately have valid: "valid_image (levels BID b) (levels ASK b)"
      by (simp add: valid_image_def levels_sizes_levels [OF lv] del: levels.simps)
    let ?c = "image_book (levels BID b) (levels ASK b) None (new_book t)"
    have c: "to_book t (image_of b) = Inr ?c"
      by (simp add: to_book_def image_of_def apply_snapshot_valid [OF valid] del: levels.simps)
    have "wf_book ?c" using wf_book_apply_snapshot [OF wf_book_new, of "levels BID b" "levels ASK b" None t]
      by (simp add: apply_snapshot_valid [OF valid] del: levels.simps)
    moreover have "\<not> bk_stale ?c" by (simp add: image_book_def)
    ultimately have "fresh_same ?c b"
      using wf False by (simp add: fresh_same_def size_at_image levels_sizes_levels [OF lv] del: levels.simps)
    then show ?thesis
      using Some False c by (auto simp: rec_ok_def open_recording_def book_at_def nb is_stale_def lost_def)
  qed
qed

section \<open>A whole window\<close>

definition tap_run :: "live_op list \<Rightarrow> live_registry \<times> live_tap \<Rightarrow> live_registry \<times> live_tap" where
  "tap_run ops st = fold tap_step ops st"

definition tap_inv :: "live_registry \<times> live_tap \<Rightarrow> bool" where
  "tap_inv st \<longleftrightarrow> wf_live (fst st) \<and> lt_windows (snd st) = None \<and> dict_wf (lt_recordings (snd st)) \<and>
     (\<forall>t r. dict_get (lt_recordings (snd st)) t = Some r \<longrightarrow>
        rec_ok (fst st) t r \<and> int (length (re_events r)) \<le> lt_max_events (snd st))"

lemma rec_step_bounded: "int (length (re_events r)) \<le> m \<Longrightarrow> int (length (re_events (rec_step m t rep r))) \<le> m"
  by (auto simp: rec_step_def record_change_def split: option.splits)

lemma tap_inv_step: "tap_inv st \<Longrightarrow> tap_inv (tap_step op st)"
proof -
  assume inv: "tap_inv st"
  obtain live tap where st: "st = (live, tap)" by fastforce
  obtain live' rep where step: "live_step op live = (live', rep)" by fastforce
  note tr = tap_step_recording [OF step, of tap]
  have "wf_live live" using inv by (simp add: tap_inv_def st)
  then show ?thesis
    using inv tr rec_ok_step [OF _ step] rec_step_bounded live_step_effect [OF _ step]
    unfolding tap_inv_def st dict_wf_def by (auto simp: map_option_eq_Some)
qed

lemma tap_inv_run: "tap_inv st \<Longrightarrow> tap_inv (tap_run ops st)"
  unfolding tap_run_def by (induction ops arbitrary: st) (simp, simp only: fold_simps tap_inv_step)

lemma map_of_pairs: "map_of (map (\<lambda>t. (t, f t)) ts) t = (if t \<in> set ts then Some (f t) else None)"
  by (induction ts) auto

lemma open_events [simp]: "re_events (open_recording live t) = []"
  by (auto simp: open_recording_def split: option.splits)

lemma tap_inv_open: "wf_live live \<Longrightarrow> new_live_tap tickers live m = Inr tap \<Longrightarrow> tap_inv (live, tap)"
  by (auto simp: tap_inv_def new_live_tap_def map_of_pairs dict_wf_def comp_def rec_ok_open split: if_splits)

lemma tap_run_fields:
  "lt_max_events (snd (tap_run ops st)) = lt_max_events (snd st) \<and>
   dict_keys (lt_recordings (snd (tap_run ops st))) = dict_keys (lt_recordings (snd st))"
proof (induction ops arbitrary: st)
  case (Cons op ops)
  obtain live tap where st: "st = (live, tap)" by fastforce
  obtain live' rep where step: "live_step op live = (live', rep)" by fastforce
  note tr = tap_step_recording [OF step, of tap]
  have "tap_run (op # ops) st = tap_run ops (tap_step op st)" by (simp add: tap_run_def)
  then show ?case using Cons.IH [of "tap_step op st"] tr by (simp only: st snd_conv)
qed (simp add: tap_run_def)

text \<open>How one market's recording evolves over a run.\<close>

lemma tap_run_recording:
  assumes "tap_inv st" "dict_get (lt_recordings (snd st)) t = Some r"
  shows "\<exists>r'. dict_get (lt_recordings (snd (tap_run ops st))) t = Some r' \<and>
    re_start r' = re_start r \<and> re_book r' = re_book r \<and> (\<exists>evs. re_events r' = re_events r @ evs) \<and>
    (re_fault r \<noteq> None \<longrightarrow> r' = r) \<and>
    (re_fault r' = None \<and> lost (fst st) t r \<longrightarrow> lost (fst (tap_run ops st)) t r')"
  using assms
proof (induction ops arbitrary: st r)
  case Nil
  then show ?case by (simp add: tap_run_def)
next
  case (Cons op ops)
  obtain live tap where st: "st = (live, tap)" by fastforce
  obtain live' rep where step: "live_step op live = (live', rep)" by fastforce
  note tr = tap_step_recording [OF step, of tap t]
  let ?r1 = "rec_step (lt_max_events tap) t rep r"
  have run: "tap_run (op # ops) st = tap_run ops (tap_step op st)" by (simp add: tap_run_def)
  have r1: "dict_get (lt_recordings (snd (tap_step op st))) t = Some ?r1"
    using tr Cons.prems(2) by (simp add: st)
  obtain r' where r': "dict_get (lt_recordings (snd (tap_run ops (tap_step op st)))) t = Some r'"
      "re_start r' = re_start ?r1" "re_book r' = re_book ?r1" "\<exists>evs. re_events r' = re_events ?r1 @ evs"
      "re_fault ?r1 \<noteq> None \<longrightarrow> r' = ?r1"
      "re_fault r' = None \<and> lost (fst (tap_step op st)) t ?r1 \<longrightarrow> lost (fst (tap_run ops (tap_step op st))) t r'"
    using Cons.IH [OF tap_inv_step [OF Cons.prems(1)] r1] by blast
  have "wf_live live" using Cons.prems(1) by (simp add: tap_inv_def st)
  then have lost: "lost live t r \<Longrightarrow> re_fault ?r1 = None \<Longrightarrow> lost live' t ?r1" using lost_step [OF _ step] by blast
  have "re_fault r' = None \<Longrightarrow> re_fault ?r1 = None" using r'(5) by fastforce
  then have "re_fault r' = None \<and> lost live t r \<longrightarrow> lost (fst (tap_run ops (tap_step op st))) t r'"
    using r'(6) lost tr by (simp add: st)
  moreover have "\<exists>evs. re_events r' = re_events r @ evs"
    using r'(4) rec_step_events [of "lt_max_events tap" t rep r] by auto
  moreover have "re_fault r \<noteq> None \<longrightarrow> r' = r"
    using r'(5) rec_step_fault [of r "lt_max_events tap" t rep] by auto
  ultimately show ?case
    using r'(1-3) unfolding run by (intro exI [of _ r']) (simp add: st)
qed

lemma finish_total:
  assumes "rec_ok live t r"
  shows "\<exists>w. finish_recording live t r = Inr w \<and> tw_ticker w = t \<and> tw_start w = re_start r \<and> tw_events w = re_events r \<and>
    (tw_fault w = None \<longleftrightarrow> re_fault r = None \<and> \<not> lost live t r)"
proof -
  have gone: "(case dict_get (lr_books live) t of None \<Rightarrow> True | Some (n, b) \<Rightarrow> Some n \<noteq> re_book r \<or> is_stale b) = lost live t r"
    by (auto simp: lost_def book_at_def is_stale_def split: option.split)
  have struct: "(re_start r = None) = (re_fault r = Some FaultNoBook)" "re_start r = None \<longrightarrow> re_events r = []"
    using assms by (simp_all add: rec_ok_def)
  show ?thesis
    unfolding finish_recording_def gone Let_def new_tap_window_def
    using struct by (cases "re_fault r"; cases "re_start r"; cases "lost live t r") auto
qed

lemma result_list_total: "\<forall>x\<in>set xs. \<exists>y. f x = Inr y \<Longrightarrow> \<exists>ys. result_list f xs = Inr ys"
  by (induction xs) auto

lemma result_list_assoc:
  assumes "result_list (\<lambda>(t, r). result_bind (f t r) (\<lambda>w. Inr (t, w))) xs = Inr ws"
  shows "map fst ws = map fst xs \<and> (map_of ws t = Some w \<longleftrightarrow> (\<exists>r. map_of xs t = Some r \<and> f t r = Inr w))"
  using assms by (induction xs arbitrary: ws) (auto simp: result_simps)

lemma tap_close_windows:
  assumes "tap_inv (live, tap)"
  shows "\<exists>ws. tap_close live tap = (tap\<lparr>lt_windows := Some ws, lt_recordings := []\<rparr>, Inr ws) \<and>
    dict_keys ws = dict_keys (lt_recordings tap) \<and>
    (\<forall>t w. dict_get ws t = Some w \<longleftrightarrow> (\<exists>r. dict_get (lt_recordings tap) t = Some r \<and> finish_recording live t r = Inr w))"
proof -
  have "\<forall>x\<in>set (lt_recordings tap). \<exists>y. (\<lambda>(t, r). result_bind (finish_recording live t r) (\<lambda>w. Inr (t, w))) x = Inr y"
  proof
    fix x assume x: "x \<in> set (lt_recordings tap)"
    obtain t r where tr: "x = (t, r)" by fastforce
    have "dict_get (lt_recordings tap) t = Some r"
      using x assms by (simp add: tr tap_inv_def dict_wf_def)
    then have "rec_ok live t r" using assms by (simp add: tap_inv_def)
    from finish_total [OF this] show "\<exists>y. (\<lambda>(t, r). result_bind (finish_recording live t r) (\<lambda>w. Inr (t, w))) x = Inr y"
      by (auto simp: tr)
  qed
  from result_list_total [OF this] obtain ws where
    ws: "result_list (\<lambda>(t, r). result_bind (finish_recording live t r) (\<lambda>w. Inr (t, w))) (lt_recordings tap) = Inr ws"
    by blast
  have "lt_windows tap = None" using assms by (simp add: tap_inv_def)
  then show ?thesis using result_list_assoc [OF ws] by (simp add: tap_close_def ws)
qed

lemma closed_tap_run: "lt_windows tap = Some ws \<Longrightarrow> lt_windows (snd (tap_run ops (live, tap))) = Some ws"
proof (induction ops arbitrary: live tap)
  case (Cons op ops)
  obtain live' rep where step: "live_step op live = (live', rep)" by fastforce
  have "lt_windows (snd (tap_step op (live, tap))) = Some ws" using tap_step_recording [OF step, of tap] Cons.prems by simp
  then show ?case using Cons.IH [of "snd (tap_step op (live, tap))" "fst (tap_step op (live, tap))"] by (simp add: tap_run_def)
qed (simp add: tap_run_def)

lemma tap_window_replays:
  assumes "wf_live live" "new_live_tap tickers live m = Inr tap"
    "tap_run ops1 (live, tap) = (live1, tap1)" "tap_run ops2 (live1, tap1) = (live2, tap2)"
    "snd (tap_close live2 tap2) = Inr ws" "dict_get ws t = Some w" "tw_fault w = None"
  shows "\<exists>img n b c0 c k. tw_start w = Some img \<and> to_book t img = Inr c0 \<and>
    book_at live1 t = Some (n, b) \<and> k \<le> length (tw_events w) \<and>
    replay.replay_all (take k (tw_events w)) c0 = Inr c \<and> fresh_same c b \<and>
    (ops1 = [] \<longrightarrow> k = 0) \<and> (ops2 = [] \<longrightarrow> k = length (tw_events w))"
proof -
  have inv0: "tap_inv (live, tap)" by (rule tap_inv_open [OF assms(1,2)])
  have inv1: "tap_inv (live1, tap1)" using tap_inv_run [OF inv0, of ops1] assms(3) by simp
  have inv2: "tap_inv (live2, tap2)" using tap_inv_run [OF inv1, of ops2] assms(4) by simp
  obtain r2 where r2: "dict_get (lt_recordings tap2) t = Some r2" "finish_recording live2 t r2 = Inr w"
    using tap_close_windows [OF inv2] assms(5,6) by auto
  have w: "tw_start w = re_start r2" "tw_events w = re_events r2" "re_fault r2 = None" "\<not> lost live2 t r2"
    using finish_total [of live2 t r2] r2 inv2 assms(7) by (auto simp: tap_inv_def)
  have "t \<in> set (dict_keys (lt_recordings tap1))"
    using tap_run_fields [of ops2 "(live1, tap1)"] assms(4) dict_get_None_iff [of "lt_recordings tap2" t] r2(1) by simp
  then obtain r1 where r1: "dict_get (lt_recordings tap1) t = Some r1"
    by (metis dict_get_None_iff not_None_eq)
  obtain r2' where "dict_get (lt_recordings tap2) t = Some r2'" "re_start r2' = re_start r1"
      "\<exists>evs. re_events r2' = re_events r1 @ evs" "re_fault r1 \<noteq> None \<longrightarrow> r2' = r1"
      "re_fault r2' = None \<and> lost live1 t r1 \<longrightarrow> lost live2 t r2'"
    using tap_run_recording [OF inv1, of t r1 ops2] r1 assms(4) by auto
  with r2(1) have step: "re_start r2 = re_start r1" "\<exists>evs. re_events r2 = re_events r1 @ evs"
      "re_fault r1 \<noteq> None \<longrightarrow> r2 = r1" "re_fault r2 = None \<and> lost live1 t r1 \<longrightarrow> lost live2 t r2" by auto
  have ok1: "re_fault r1 = None" "\<not> lost live1 t r1" using step w(3,4) by auto
  then obtain img n b c0 c where now: "re_start r1 = Some img" "book_at live1 t = Some (n, b)" "to_book t img = Inr c0"
      "replay.replay_all (re_events r1) c0 = Inr c" "fresh_same c b"
    using inv1 r1 unfolding tap_inv_def rec_ok_def by fastforce
  have "re_events r1 = []" if "ops1 = []"
    using that assms(2,3) r1
    by (auto simp: tap_run_def new_live_tap_def map_of_pairs open_recording_def split: if_splits option.splits)
  moreover have "re_events r2 = re_events r1" if "ops2 = []"
    using that assms(4) r1 r2(1) by (simp add: tap_run_def)
  moreover have "take (length (re_events r1)) (tw_events w) = re_events r1" "length (re_events r1) \<le> length (tw_events w)"
    using step(2) w(2) by auto
  ultimately show ?thesis
    using now step(1) w(1,2)
    by (intro exI [of _ img] exI [of _ n] exI [of _ b] exI [of _ c0] exI [of _ c] exI [of _ "length (re_events r1)"]) auto
qed

section \<open>An example\<close>

definition example_live :: live_registry where
  "example_live = \<lparr>lr_books = [(''KXA-1'', 0, example_book)], lr_next = 1\<rparr>"

definition example_image :: book_image where
  "example_image = \<lparr>bi_bids = [Level 5500 250], bi_asks = [Level 5700 40]\<rparr>"

lemma wf_example_live: "wf_live example_live"
  using wf_example_book by (simp add: wf_live_def example_live_def example_book_eq)

lemma example_tap: "new_live_tap [''KXA-1''] example_live 2 = Inr \<lparr>lt_tickers = [''KXA-1''], lt_max_events = 2,
    lt_recordings = [(''KXA-1'', \<lparr>re_book = Some 0, re_start = Some example_image, re_events = [], re_fault = None\<rparr>)],
    lt_windows = None\<rparr>"
  by (simp add: new_live_tap_def open_recording_def example_live_def example_book_eq is_stale_def image_of_def
      example_image_def)

section \<open>Properties\<close>

text \<open>
  C19. A faultless window tells the whole story. However the supervisor changed, staled, dropped
  and recreated books while a tap was open: if a market's window closes without a fault, then at
  every moment of it the market had a fresh book, and replaying some number of the window's
  changes onto its starting copy rebuilds a fresh book with the same levels; all of them rebuild
  the book at closing, and none rebuilds the book at opening.
\<close>

theorem tap_window_faithful:
  assumes "wf_live live" "new_live_tap tickers live m = Inr tap"
    "tap_run ops1 (live, tap) = (live1, tap1)" "tap_run ops2 (live1, tap1) = (live2, tap2)"
    "snd (tap_close live2 tap2) = Inr ws" "dict_get ws t = Some w" "tw_fault w = None"
  shows "\<exists>img n b c0 c k. tw_start w = Some img \<and> to_book t img = Inr c0 \<and>
    book_at live1 t = Some (n, b) \<and> k \<le> length (tw_events w) \<and>
    replay.replay_all (take k (tw_events w)) c0 = Inr c \<and> fresh_same c b \<and>
    (ops1 = [] \<longrightarrow> k = 0) \<and> (ops2 = [] \<longrightarrow> k = length (tw_events w))"
  using tap_window_replays [OF assms] .

theorem tap_window_faithful_witness:
  "\<exists>tap live1 tap1 ws w. new_live_tap [''KXA-1''] example_live 2 = Inr tap \<and>
     tap_run [LvDelta example_delta] (example_live, tap) = (live1, tap1) \<and>
     snd (tap_close live1 tap1) = Inr ws \<and> dict_get ws ''KXA-1'' = Some w \<and> tw_fault w = None \<and>
     tw_events w = [ChDelta example_delta] \<and>
     (\<exists>c0 c. to_book ''KXA-1'' example_image = Inr c0 \<and> replay.replay_all (tw_events w) c0 = Inr c \<and> size_at BID 5500 c = 251)"
proof -
  obtain b' where d: "apply_delta BID 5500 1 (Some 9) example_book = (b', Inr True)"
    and b: "b' = \<lparr>bk_ticker = ''KXA-1'', bk_bids = [(5500, 251)], bk_asks = [(5700, 40)],
     bk_best_bid = Some 5500, bk_best_ask = Some 5700, bk_stale = False, bk_last_ts_ms = Some 9\<rparr>"
    by (simp add: example_book_eq apply_delta_def dict_get_or_def Let_def change_level_def)
  let ?r = "\<lparr>re_book = Some 0, re_start = Some example_image, re_events = [ChDelta example_delta], re_fault = None\<rparr>"
  let ?tap = "\<lparr>lt_tickers = [''KXA-1''], lt_max_events = 2, lt_recordings = [(''KXA-1'', ?r)], lt_windows = None\<rparr>"
  let ?live = "\<lparr>lr_books = [(''KXA-1'', 0, b')], lr_next = 1\<rparr>"
  let ?w = "\<lparr>tw_ticker = ''KXA-1'', tw_start = Some example_image, tw_events = [ChDelta example_delta], tw_fault = None\<rparr>"
  note tap = example_tap
  have run: "tap_run [LvDelta example_delta] (example_live, \<lparr>lt_tickers = [''KXA-1''], lt_max_events = 2,
    lt_recordings = [(''KXA-1'', \<lparr>re_book = Some 0, re_start = Some example_image, re_events = [], re_fault = None\<rparr>)],
    lt_windows = None\<rparr>) = (?live, ?tap)"
    by (simp add: tap_run_def tap_step_def example_live_def example_delta_def d put_book_def tap_record_def record_change_def)
  have close: "snd (tap_close ?live ?tap) = Inr [(''KXA-1'', ?w)]"
    by (simp add: tap_close_def finish_recording_def new_tap_window_def b is_stale_def Let_def)
  have w: "dict_get [(''KXA-1'', ?w)] ''KXA-1'' = Some ?w" "tw_fault ?w = None" by simp_all
  have rest: "tap_run [] (?live, ?tap) = (?live, ?tap)" by (simp add: tap_run_def)
  obtain c0 c n bb where c: "to_book ''KXA-1'' example_image = Inr c0" "book_at ?live ''KXA-1'' = Some (n, bb)"
      "replay.replay_all (tw_events ?w) c0 = Inr c" "fresh_same c bb"
    using tap_window_faithful [OF wf_example_live tap run rest close w] by auto
  have "bb = b'" using c(2) by (simp add: book_at_def)
  moreover have "size_at BID 5500 b' = 251" by (simp add: b size_at_def dict_get_or_def)
  ultimately have "size_at BID 5500 c = 251" using c(4) by (simp add: fresh_same_def)
  then show ?thesis
    using tap run close w c(1,3) by (intro exI conjI) (assumption | simp)+
qed

text \<open>
  C29. Closing always works: a tap opened over any markets can be closed at any moment; it yields
  exactly one window per market, each within its bound, and closing it again, whatever the
  supervisor does in between, yields the same windows.
\<close>

theorem tap_close_total:
  assumes "wf_live live" "new_live_tap tickers live m = Inr tap" "tap_run ops (live, tap) = (live1, tap1)"
  shows "\<exists>tap' ws. tap_close live1 tap1 = (tap', Inr ws) \<and> dict_keys ws = sort (remdups tickers) \<and>
    (\<forall>t w. dict_get ws t = Some w \<longrightarrow> tw_ticker w = t \<and> int (length (tw_events w)) \<le> m) \<and>
    (\<forall>later live2 tap2. tap_run later (live1, tap') = (live2, tap2) \<longrightarrow> tap_close live2 tap2 = (tap2, Inr ws))"
proof -
  have inv0: "tap_inv (live, tap)" by (rule tap_inv_open [OF assms(1,2)])
  have inv1: "tap_inv (live1, tap1)" using tap_inv_run [OF inv0, of ops] assms(3) by simp
  note fields = tap_run_fields [of ops]
  have tap0: "lt_max_events tap = m" "dict_keys (lt_recordings tap) = sort (remdups tickers)"
    using assms(2) by (auto simp: new_live_tap_def comp_def split: if_splits)
  let ?tap' = "\<lambda>ws. tap1\<lparr>lt_windows := Some ws, lt_recordings := []\<rparr>"
  obtain ws where ws: "tap_close live1 tap1 = (?tap' ws, Inr ws)"
      "dict_keys ws = dict_keys (lt_recordings tap1)"
      "\<And>t w. dict_get ws t = Some w \<longleftrightarrow> (\<exists>r. dict_get (lt_recordings tap1) t = Some r \<and> finish_recording live1 t r = Inr w)"
    using tap_close_windows [OF inv1] by blast
  have "tw_ticker w = t \<and> int (length (tw_events w)) \<le> m" if "dict_get ws t = Some w" for t w
  proof -
    have "\<exists>r. dict_get (lt_recordings tap1) t = Some r \<and> finish_recording live1 t r = Inr w"
      using that by (simp only: ws(3))
    then obtain r where r: "dict_get (lt_recordings tap1) t = Some r" "finish_recording live1 t r = Inr w"
      by blast
    then have "rec_ok live1 t r" "int (length (re_events r)) \<le> lt_max_events tap1" using inv1 by (auto simp: tap_inv_def)
    then show ?thesis using finish_total [of live1 t r] r(2) fields [of "(live, tap)"] assms(3) tap0 by auto
  qed
  moreover have "tap_close live2 tap2 = (tap2, Inr ws)" if "tap_run later (live1, ?tap' ws) = (live2, tap2)" for later live2 tap2
    using closed_tap_run [of "?tap' ws" ws later live1] that by (simp add: tap_close_def)
  ultimately show ?thesis using ws(1,2) fields [of "(live, tap)"] assms(3) tap0 by auto
qed

theorem tap_close_total_witness:
  "\<exists>tap tap1 live1 tap' ws. new_live_tap [''KXA-1''] example_live 2 = Inr tap \<and>
     tap_run [LvDelta example_delta, LvStale ''KXA-1''] (example_live, tap) = (live1, tap1) \<and>
     tap_close live1 tap1 = (tap', Inr ws) \<and> dict_keys ws = [''KXA-1''] \<and>
     tap_close example_live (snd (tap_run [LvDrop ''KXA-1''] (live1, tap'))) =
       (snd (tap_run [LvDrop ''KXA-1''] (live1, tap')), Inr ws)"
proof -
  obtain tap where tap: "new_live_tap [''KXA-1''] example_live 2 = Inr tap" using example_tap by blast
  obtain live1 tap1 where run: "tap_run [LvDelta example_delta, LvStale ''KXA-1''] (example_live, tap) = (live1, tap1)"
    by fastforce
  obtain tap' ws where ws: "tap_close live1 tap1 = (tap', Inr ws)" "dict_keys ws = sort (remdups [''KXA-1''])"
      "\<And>later live2 tap2. tap_run later (live1, tap') = (live2, tap2) \<Longrightarrow> tap_close live2 tap2 = (tap2, Inr ws)"
    using tap_close_total [OF wf_example_live tap run] by blast
  obtain live2 tap2 where later: "tap_run [LvDrop ''KXA-1''] (live1, tap') = (live2, tap2)" by fastforce
  have "lt_windows tap' = Some ws" using ws(1) by (auto simp: tap_close_def split: option.splits sum.splits)
  then have "lt_windows tap2 = Some ws" using closed_tap_run [of tap' ws "[LvDrop ''KXA-1'']" live1] later by simp
  then have "tap_close example_live tap2 = (tap2, Inr ws)" by (simp add: tap_close_def)
  then show ?thesis using tap run ws(1,2) later
    by (intro exI [of _ tap] exI [of _ tap1] exI [of _ live1] exI [of _ tap'] exI [of _ ws]) simp
qed

end
