(* ===== verification/Auditor.thy ===== *)
theory Auditor
  imports Tap Convert
begin

text \<open>
  \<^verbatim>\<open>tape/recorder/auditor.py\<close>: the rotation that samples books, the classification of a REST book
  against every state of a tap window, and a round of audits with its counters and tape records.
  The exchange, the taps and the clock are outside a round: what one batch's window and request
  came to is a value of type \<open>fetched_batch\<close>, an argument of the round.
\<close>

datatype audit_outcome = OutExact | OutConsistent | OutInconsistent | OutUndecidable

record window_verdict =
  wv_outcome :: audit_outcome
  wv_match_index :: "nat option"
  wv_reply_state :: "book_image option"

definition undecidable_verdict :: window_verdict where
  "undecidable_verdict = \<lparr>wv_outcome = OutUndecidable, wv_match_index = None, wv_reply_state = None\<rparr>"

datatype audit_error =
    NegativeCount int
  | CannotClassify string string
  | WindowDoesNotReplay book_error
  | CannotCompare diff_error
  | BadSetting string int
  | ReplyUndecodable

section \<open>The rotation\<close>

definition round_robin_choice :: "string list \<Rightarrow> int \<Rightarrow> int \<Rightarrow> audit_error + (string list \<times> int)" where
  "round_robin_choice tickers sample cursor =
     (if sample < 0 then Inl (NegativeCount sample)
      else let unique = sort (remdups tickers); total = length unique
        in if total = 0 then Inr ([], 0)
           else let take_n = min sample (int total); start = cursor mod int total
             in Inr (map (\<lambda>i. unique ! nat ((start + int i) mod int total)) [0..<nat take_n],
                     (start + take_n) mod int total))"

section \<open>Classifying a window\<close>

fun received_by :: "book_change list \<Rightarrow> int \<Rightarrow> nat" where
  "received_by [] reply_mono_ns = 0"
| "received_by (ev # evs) reply_mono_ns =
     (if rc_recv_mono_ns (change_receipt ev) > reply_mono_ns then 0 else Suc (received_by evs reply_mono_ns))"

text \<open>\<^verbatim>\<open>diff\<close> raises for books of different markets, which \<^verbatim>\<open>classify_window\<close> has excluded.\<close>

definition same_levels :: "(book \<Rightarrow> int) \<Rightarrow> int \<Rightarrow> book \<Rightarrow> book \<Rightarrow> bool" where
  "same_levels checksum_fn rest_checksum rest local \<longleftrightarrow>
     level_count BID local = level_count BID rest \<and> level_count ASK local = level_count ASK rest \<and>
     checksum_fn local = rest_checksum \<and> (case diff rest local of Inl e \<Rightarrow> False | Inr ds \<Rightarrow> ds = [])"

text \<open>States up to the reply: the index of the latest match so far, starting at state \<open>i\<close>.\<close>

fun scan_before :: "(book \<Rightarrow> bool) \<Rightarrow> nat \<Rightarrow> book \<Rightarrow> book_change list \<Rightarrow> nat option \<Rightarrow> book_error + (book \<times> nat option)" where
  "scan_before same i b [] nearest = Inr (b, if same b then Some i else nearest)"
| "scan_before same i b (ev # evs) nearest =
     result_bind (replay_change ev b) (\<lambda>b'. scan_before same (Suc i) b' evs (if same b then Some i else nearest))"

text \<open>States after the reply: the first match.\<close>

fun scan_after :: "(book \<Rightarrow> bool) \<Rightarrow> nat \<Rightarrow> book \<Rightarrow> book_change list \<Rightarrow> book_error + nat option" where
  "scan_after same i b [] = Inr None"
| "scan_after same i b (ev # evs) =
     result_bind (replay_change ev b) (\<lambda>b'. if same b' then Inr (Some (Suc i)) else scan_after same (Suc i) b' evs)"

definition classify_window :: "(book \<Rightarrow> int) \<Rightarrow> tap_window \<Rightarrow> book \<Rightarrow> int \<Rightarrow> audit_error + window_verdict" where
  "classify_window checksum_fn window rest_book reply_mono_ns =
     (if bk_ticker rest_book \<noteq> tw_ticker window then Inl (CannotClassify (bk_ticker rest_book) (tw_ticker window))
      else case (tw_fault window, tw_start window) of
        (None, Some start) \<Rightarrow>
          (let events = tw_events window; reply_index = received_by events reply_mono_ns;
               same = same_levels checksum_fn (checksum_fn rest_book) rest_book
           in case result_bind (to_book (tw_ticker window) start)
                     (\<lambda>b0. scan_before same 0 b0 (take reply_index events) None) of
                Inl e \<Rightarrow> Inl (WindowDoesNotReplay e)
              | Inr (b, nearest) \<Rightarrow>
                  (let reply_state = Some (image_of b)
                   in if nearest = Some reply_index then
                        Inr \<lparr>wv_outcome = OutExact, wv_match_index = nearest, wv_reply_state = reply_state\<rparr>
                      else
                        (let last_index = (case nearest of None \<Rightarrow> length events
                              | Some k \<Rightarrow> min (length events) (2 * reply_index - k - 1))
                         in case scan_after same reply_index b
                                  (take (last_index - reply_index) (drop reply_index events)) of
                              Inl e \<Rightarrow> Inl (WindowDoesNotReplay e)
                            | Inr (Some k) \<Rightarrow>
                                Inr \<lparr>wv_outcome = OutConsistent, wv_match_index = Some k, wv_reply_state = reply_state\<rparr>
                            | Inr None \<Rightarrow>
                                (case nearest of
                                   None \<Rightarrow> Inr \<lparr>wv_outcome = OutInconsistent, wv_match_index = None, wv_reply_state = reply_state\<rparr>
                                 | Some k \<Rightarrow> Inr \<lparr>wv_outcome = OutConsistent, wv_match_index = Some k, wv_reply_state = reply_state\<rparr>))))
      | _ \<Rightarrow> Inr undecidable_verdict)"

section \<open>A round of audits\<close>

record timing =
  ti_window_open_mono_ns :: int
  ti_send_mono_ns :: int
  ti_send_wall_ns :: int
  ti_recv_mono_ns :: int
  ti_recv_wall_ns :: int
  ti_window_close_mono_ns :: int

record audit_result =
  ar_ticker :: string
  ar_outcome :: audit_outcome
  ar_timing :: timing
  ar_window_events :: nat
  ar_match_index :: "nat option"
  ar_levels_rest :: nat
  ar_levels_local :: "nat option"
  ar_mismatched_levels :: "nat option"
  ar_max_abs_diff_e2 :: "int option"
  ar_fault :: "tap_fault option"

definition max_default :: "int list \<Rightarrow> int" where
  "max_default xs = (if xs = [] then 0 else Max (set xs))"

definition audit_result_of :: "tap_window \<Rightarrow> book \<Rightarrow> window_verdict \<Rightarrow> timing \<Rightarrow> audit_error + audit_result" where
  "audit_result_of window rest_book verdict timing =
     (let result = (\<lambda>levels_local mismatched max_diff.
        \<lparr>ar_ticker = tw_ticker window, ar_outcome = wv_outcome verdict, ar_timing = timing,
         ar_window_events = length (tw_events window), ar_match_index = wv_match_index verdict,
         ar_levels_rest = level_count BID rest_book + level_count ASK rest_book,
         ar_levels_local = levels_local, ar_mismatched_levels = mismatched, ar_max_abs_diff_e2 = max_diff,
         ar_fault = (if wv_outcome verdict = OutUndecidable then tw_fault window else None)\<rparr>)
      in case wv_reply_state verdict of
           None \<Rightarrow> Inr (result None None None)
         | Some img \<Rightarrow>
             (case to_book (tw_ticker window) img of
                Inl e \<Rightarrow> Inl (WindowDoesNotReplay e)
              | Inr b \<Rightarrow>
                  (case diff rest_book b of
                     Inl e \<Rightarrow> Inl (CannotCompare e)
                   | Inr ds \<Rightarrow>
                       Inr (result (Some (length (bi_bids img) + length (bi_asks img))) (Some (length ds))
                         (Some (max_default (map (\<lambda>d. \<bar>ld_count_a d - ld_count_b d\<bar>) ds)))))))"

text \<open>An audit record as written to a tape: the result, with both books when they disagree.\<close>

record audit_record =
  ad_conn_id :: int
  ad_result :: audit_result
  ad_rest_levels :: "book_image option"
  ad_local_levels :: "book_image option"

record auditor =
  au_sample_size :: int
  au_lead_ns :: int
  au_settle_ns :: int
  au_tap_max_events :: int
  au_cursor :: int
  au_rounds :: int
  au_exact :: int
  au_consistent :: int
  au_inconsistent :: int
  au_undecidable :: int
  au_skipped_stale :: int
  au_missing_local :: int
  au_invalid_rest :: int
  au_levels_mismatched :: int
  au_tape :: "audit_record list"

definition new_auditor :: "int \<Rightarrow> int \<Rightarrow> int \<Rightarrow> int \<Rightarrow> audit_error + auditor" where
  "new_auditor sample_size lead_ns settle_ns tap_max_events =
     (if sample_size \<le> 0 then Inl (BadSetting ''sample_size'' sample_size)
      else if tap_max_events \<le> 0 then Inl (BadSetting ''tap_max_events'' tap_max_events)
      else if lead_ns < 0 then Inl (BadSetting ''lead_ns'' lead_ns)
      else if settle_ns < 0 then Inl (BadSetting ''settle_ns'' settle_ns)
      else Inr \<lparr>au_sample_size = sample_size, au_lead_ns = lead_ns, au_settle_ns = settle_ns, au_tap_max_events = tap_max_events,
             au_cursor = 0, au_rounds = 0, au_exact = 0, au_consistent = 0, au_inconsistent = 0,
             au_undecidable = 0, au_skipped_stale = 0, au_missing_local = 0, au_invalid_rest = 0,
             au_levels_mismatched = 0, au_tape = []\<rparr>)"

record audit_stats =
  as_rounds :: int
  as_books_sampled :: int
  as_books_exact :: int
  as_books_consistent :: int
  as_books_inconsistent :: int
  as_books_mismatched :: int
  as_books_undecidable :: int
  as_books_skipped_stale :: int
  as_books_missing_local :: int
  as_books_invalid_rest :: int
  as_levels_mismatched :: int

definition auditor_stats :: "auditor \<Rightarrow> audit_stats" where
  "auditor_stats a =
     \<lparr>as_rounds = au_rounds a, as_books_sampled = au_exact a + au_consistent a + au_inconsistent a,
      as_books_exact = au_exact a, as_books_consistent = au_consistent a, as_books_inconsistent = au_inconsistent a,
      as_books_mismatched = au_consistent a + au_inconsistent a, as_books_undecidable = au_undecidable a,
      as_books_skipped_stale = au_skipped_stale a, as_books_missing_local = au_missing_local a,
      as_books_invalid_rest = au_invalid_rest a, as_levels_mismatched = au_levels_mismatched a\<rparr>"

definition exact_ratio :: "audit_stats \<Rightarrow> int \<times> int" where
  "exact_ratio s = (as_books_exact s, as_books_sampled s)"

definition consistency_ratio :: "audit_stats \<Rightarrow> int \<times> int" where
  "consistency_ratio s =
     (let passed = as_books_exact s + as_books_consistent s in (passed, passed + as_books_inconsistent s))"

record market_orderbook =
  mo_ticker :: string
  mo_orderbook_fp :: orderbook_count_fp

definition rest_book_of :: "market_orderbook \<Rightarrow> auditor \<Rightarrow> auditor \<times> book option" where
  "rest_book_of entry a =
     (let invalid = (a\<lparr>au_invalid_rest := au_invalid_rest a + 1\<rparr>, None)
      in case rest_orderbook_levels (mo_orderbook_fp entry) of
           Inl e \<Rightarrow> invalid
         | Inr (bids, asks) \<Rightarrow>
             (case apply_snapshot bids asks None (new_book (mo_ticker entry)) of
                (b, Inl e) \<Rightarrow> invalid
              | (b, Inr _) \<Rightarrow> (a, Some b)))"

definition classify_or_undecidable :: "tap_window \<Rightarrow> book \<Rightarrow> int \<Rightarrow> audit_error + window_verdict" where
  "classify_or_undecidable window rest_book reply_mono_ns =
     (case classify_window checksum window rest_book reply_mono_ns of
        Inl (WindowDoesNotReplay e) \<Rightarrow> Inr undecidable_verdict | r \<Rightarrow> r)"

definition count_result :: "audit_result \<Rightarrow> tap_window \<Rightarrow> auditor \<Rightarrow> auditor" where
  "count_result r window a0 =
     (let a1 = (case ar_outcome r of
            OutExact \<Rightarrow> a0\<lparr>au_exact := au_exact a0 + 1\<rparr>
          | OutConsistent \<Rightarrow> a0\<lparr>au_consistent := au_consistent a0 + 1\<rparr>
          | OutInconsistent \<Rightarrow> a0\<lparr>au_inconsistent := au_inconsistent a0 + 1\<rparr>
          | OutUndecidable \<Rightarrow> a0\<lparr>au_undecidable := au_undecidable a0 + 1\<rparr>);
          a2 = (case ar_mismatched_levels r of
            None \<Rightarrow> a1 | Some n \<Rightarrow> a1\<lparr>au_levels_mismatched := au_levels_mismatched a1 + int n\<rparr>)
      in if ar_outcome r = OutUndecidable \<and> tw_fault window = Some FaultNoBook then
           a2\<lparr>au_missing_local := au_missing_local a2 + 1\<rparr>
         else a2)"

definition write_record ::
  "(string \<Rightarrow> int option) \<Rightarrow> audit_result \<Rightarrow> book_image \<Rightarrow> book_image option \<Rightarrow> auditor \<Rightarrow> auditor" where
  "write_record sink_for r rest_levels reply_state a =
     (case sink_for (ar_ticker r) of
        None \<Rightarrow> a
      | Some conn_id \<Rightarrow>
          (let both = ar_outcome r = OutInconsistent \<and> reply_state \<noteq> None
           in a\<lparr>au_tape := au_tape a @ [\<lparr>ad_conn_id = conn_id, ad_result = r,
                ad_rest_levels = (if both then Some rest_levels else None),
                ad_local_levels = (if both then reply_state else None)\<rparr>]\<rparr>))"

text \<open>A step of the auditor: its state after it, and what it returns or raises.\<close>

type_synonym 'a audit_run = "auditor \<times> (audit_error + 'a)"

definition audit_bind :: "'a audit_run \<Rightarrow> ('a \<Rightarrow> auditor \<Rightarrow> 'b audit_run) \<Rightarrow> 'b audit_run" where
  "audit_bind run f = (case run of (a, Inl e) \<Rightarrow> (a, Inl e) | (a, Inr x) \<Rightarrow> f x a)"

definition audit_entry ::
  "(string \<Rightarrow> int option) \<Rightarrow> market_orderbook \<Rightarrow> tap_window \<Rightarrow> timing \<Rightarrow> auditor \<Rightarrow> audit_result option audit_run" where
  "audit_entry sink_for entry window timing a =
     (case rest_book_of entry a of
        (a, None) \<Rightarrow> (a, Inr None)
      | (a, Some rest_book) \<Rightarrow>
          (case result_bind (classify_or_undecidable window rest_book (ti_recv_mono_ns timing)) (\<lambda>verdict.
                result_bind (audit_result_of window rest_book verdict timing) (\<lambda>r. Inr (verdict, r))) of
             Inl e \<Rightarrow> (a, Inl e)
           | Inr (verdict, r) \<Rightarrow>
               (write_record sink_for r (image_of rest_book) (wv_reply_state verdict) (count_result r window a), Inr (Some r))))"

fun audit_entries ::
  "(string \<Rightarrow> int option) \<Rightarrow> market_orderbook list \<Rightarrow> (string, tap_window) dict \<Rightarrow> timing \<Rightarrow> auditor \<Rightarrow>
   audit_result list audit_run" where
  "audit_entries sink_for [] windows timing a = (a, Inr [])"
| "audit_entries sink_for (entry # entries) windows timing a =
     audit_bind (audit_entry sink_for entry
         (dict_get_or windows (mo_ticker entry) (absent_window (mo_ticker entry))) timing a) (\<lambda>r a.
     audit_bind (audit_entries sink_for entries windows timing a) (\<lambda>rs a.
       (a, Inr (case r of None \<Rightarrow> rs | Some x \<Rightarrow> x # rs))))"

text \<open>
  What a batch came to: the windows of its tap, and how its request ended. An HTTP error or a
  failing transport is caught; a reply whose body is not what was asked for is not.
\<close>

datatype fetch_reply = RequestFailed | UndecodableBody | Fetched "market_orderbook list" timing

type_synonym fetched_batch = "(string, tap_window) dict \<times> fetch_reply"

definition audit_batch :: "(string \<Rightarrow> int option) \<Rightarrow> fetched_batch \<Rightarrow> auditor \<Rightarrow> audit_result list audit_run" where
  "audit_batch sink_for batch a =
     (case batch of
        (windows, RequestFailed) \<Rightarrow> (a, Inr [])
      | (windows, UndecodableBody) \<Rightarrow> (a, Inl ReplyUndecodable)
      | (windows, Fetched orderbooks timing) \<Rightarrow> audit_entries sink_for orderbooks windows timing a)"

definition MAX_BATCH_TICKERS :: nat where "MAX_BATCH_TICKERS = 100"

function batches_of :: "nat \<Rightarrow> 'a list \<Rightarrow> 'a list list" where
  "batches_of n xs = (if xs = [] \<or> n = 0 then [] else take n xs # batches_of n (drop n xs))"
  by auto
termination by (relation "measure (\<lambda>(n, xs). length xs)") auto

fun audit_batches ::
  "(string \<Rightarrow> int option) \<Rightarrow> (string list \<Rightarrow> fetched_batch) \<Rightarrow> string list list \<Rightarrow> auditor \<Rightarrow> audit_result list audit_run" where
  "audit_batches sink_for fetch [] a = (a, Inr [])"
| "audit_batches sink_for fetch (batch # batches) a =
     audit_bind (audit_batch sink_for (fetch batch) a) (\<lambda>rs a.
     audit_bind (audit_batches sink_for fetch batches a) (\<lambda>rs' a. (a, Inr (rs @ rs'))))"

definition audit_once ::
  "(string \<Rightarrow> int option) \<Rightarrow> (string list \<Rightarrow> fetched_batch) \<Rightarrow> (string, book) dict \<Rightarrow> auditor \<Rightarrow> audit_result list audit_run" where
  "audit_once sink_for fetch books a =
     (case round_robin_choice (dict_keys books) (au_sample_size a) (au_cursor a) of
        Inl e \<Rightarrow> (a, Inl e)
      | Inr (chosen, cursor) \<Rightarrow>
          (let usable = (\<lambda>t. case dict_get books t of None \<Rightarrow> False | Some b \<Rightarrow> \<not> is_stale b);
               to_fetch = filter usable chosen;
               a = a\<lparr>au_cursor := cursor,
                 au_skipped_stale := au_skipped_stale a + int (length (filter (\<lambda>t. \<not> usable t) chosen))\<rparr>
           in audit_bind (audit_batches sink_for fetch (batches_of MAX_BATCH_TICKERS to_fetch) a) (\<lambda>rs a.
                (a\<lparr>au_rounds := au_rounds a + 1\<rparr>, Inr rs))))"

declare batches_of.simps [simp del]

lemma concat_batches: "0 < n \<Longrightarrow> concat (batches_of n xs) = xs"
  by (induction n xs rule: batches_of.induct) (subst batches_of.simps, simp)

lemma batch_length: "b \<in> set (batches_of n xs) \<Longrightarrow> 0 < length b \<and> length b \<le> n"
proof (induction n xs rule: batches_of.induct)
  case (1 n xs)
  then show ?case by (subst (asm) (2) batches_of.simps) (auto split: if_splits)
qed

section \<open>The scan over states\<close>

text \<open>The books of a replay that succeeds, by index.\<close>

definition states :: "book \<Rightarrow> book_change list \<Rightarrow> nat \<Rightarrow> book" where
  "states b0 evs k = (case replay.replay_all (take k evs) b0 of Inl e \<Rightarrow> b0 | Inr b \<Rightarrow> b)"

definition replays :: "book \<Rightarrow> book_change list \<Rightarrow> bool" where
  "replays b0 evs \<longleftrightarrow> (\<exists>b. replay.replay_all evs b0 = Inr b)"

lemma states_0 [simp]: "states b0 evs 0 = b0"
  by (simp add: states_def)

lemma states_step:
  assumes "replays b0 evs" "k < length evs"
  shows "replay_change (evs ! k) (states b0 evs k) = Inr (states b0 evs (Suc k))"
proof -
  obtain b where b: "replay.replay_all evs b0 = Inr b" using assms(1) by (auto simp: replays_def)
  obtain bk where bk: "replay.replay_all (take k evs) b0 = Inr bk" using replay.replay_all_prefix [OF b] by blast
  obtain bs where bs: "replay.replay_all (take (Suc k) evs) b0 = Inr bs" using replay.replay_all_prefix [OF b] by blast
  have "take (Suc k) evs = take k evs @ [evs ! k]" using assms(2) by (rule take_Suc_conv_app_nth)
  then have "replay_change (evs ! k) bk = Inr bs"
    using bs by (auto simp: replay.replay_all_append bk result_simps)
  then show ?thesis by (simp add: states_def bk bs)
qed

text \<open>The latest match in a range, as the first loop keeps it.\<close>

definition latest :: "(book \<Rightarrow> bool) \<Rightarrow> (nat \<Rightarrow> book) \<Rightarrow> nat list \<Rightarrow> nat option \<Rightarrow> nat option" where
  "latest same st ks nearest = fold (\<lambda>k acc. if same (st k) then Some k else acc) ks nearest"

lemma scan_before_states:
  assumes "replays b0 evs" "i + m \<le> length evs"
  shows "scan_before same i (states b0 evs i) (take m (drop i evs)) nearest =
    Inr (states b0 evs (i + m), latest same (states b0 evs) [i..<Suc (i + m)] nearest)"
  using assms(2)
proof (induction m arbitrary: i nearest)
  case 0
  then show ?case by (simp add: latest_def)
next
  case (Suc m)
  have d: "drop i evs = evs ! i # drop (Suc i) evs" using Suc.prems by (simp add: Cons_nth_drop_Suc)
  have u: "[i..<Suc (Suc (i + m))] = i # [Suc i..<Suc (Suc (i + m))]" by (simp add: upt_conv_Cons del: upt_Suc)
  show ?case
    using Suc.IH [of "Suc i"] Suc.prems states_step [OF assms(1), of i]
    by (simp add: d u latest_def del: upt_Suc)
qed

lemma scan_after_states:
  assumes "replays b0 evs" "i + m \<le> length evs"
  shows "scan_after same i (states b0 evs i) (take m (drop i evs)) =
    Inr (List.find (\<lambda>k. same (states b0 evs k)) [Suc i..<Suc (i + m)])"
  using assms(2)
proof (induction m arbitrary: i)
  case 0
  then show ?case by simp
next
  case (Suc m)
  have d: "drop i evs = evs ! i # drop (Suc i) evs" using Suc.prems by (simp add: Cons_nth_drop_Suc)
  have u: "[Suc i..<Suc (Suc (i + m))] = Suc i # [Suc (Suc i)..<Suc (Suc (i + m))]"
    by (simp add: upt_conv_Cons del: upt_Suc)
  show ?case
    using Suc.IH [of "Suc i"] Suc.prems states_step [OF assms(1), of i]
    by (simp add: d u del: upt_Suc)
qed

lemma latest_Some_iff:
  assumes "sorted_wrt (<) ks"
  shows "latest same st ks None = Some k \<longleftrightarrow> k \<in> set ks \<and> same (st k) \<and> (\<forall>j\<in>set ks. same (st j) \<longrightarrow> j \<le> k)"
  using assms
proof (induction ks rule: rev_induct)
  case (snoc a ks)
  then show ?case by (auto simp: latest_def sorted_wrt_append)
qed (simp add: latest_def)

lemma latest_None_iff: "latest same st ks None = None \<longleftrightarrow> (\<forall>k\<in>set ks. \<not> same (st k))"
  by (induction ks rule: rev_induct) (auto simp: latest_def)

lemma find_upt_Some_iff:
  "List.find P [a..<b] = Some k \<longleftrightarrow> a \<le> k \<and> k < b \<and> P k \<and> (\<forall>j. a \<le> j \<and> j < k \<longrightarrow> \<not> P j)"
proof
  assume "List.find P [a..<b] = Some k"
  then obtain i where i: "i < b - a" "P (a + i)" "k = a + i" "\<forall>j<i. \<not> P (a + j)"
    by (auto simp: find_Some_iff)
  have "\<not> P j" if "a \<le> j" "j < k" for j
    using i(3,4) that by (metis add_less_cancel_left le_add_diff_inverse)
  with i show "a \<le> k \<and> k < b \<and> P k \<and> (\<forall>j. a \<le> j \<and> j < k \<longrightarrow> \<not> P j)" by auto
next
  assume "a \<le> k \<and> k < b \<and> P k \<and> (\<forall>j. a \<le> j \<and> j < k \<longrightarrow> \<not> P j)"
  then show "List.find P [a..<b] = Some k"
    by (auto simp: find_Some_iff intro!: exI [of _ "k - a"])
qed

section \<open>What a verdict says\<close>

text \<open>A checksum the comparison may use: books with the same levels have the same one.\<close>

definition fair_checksum :: "(book \<Rightarrow> int) \<Rightarrow> bool" where
  "fair_checksum f \<longleftrightarrow> (\<forall>a b. wf_levels a \<and> wf_levels b \<and> (\<forall>s p. size_at s p a = size_at s p b) \<longrightarrow> f a = f b)"

lemma fair_checksum_checksum: "fair_checksum checksum"
  using checksum_cong by (simp add: fair_checksum_def)

definition same_book :: "book \<Rightarrow> book \<Rightarrow> bool" where
  "same_book a b \<longleftrightarrow> (\<forall>s p. size_at s p a = size_at s p b)"

lemma same_levels_iff:
  assumes "wf_book rest" "wf_book b" "bk_ticker rest = bk_ticker b" "fair_checksum f"
  shows "same_levels f (f rest) rest b \<longleftrightarrow> same_book rest b"
proof -
  have wf: "wf_levels rest" "wf_levels b" using assms(1,2) by (simp_all add: wf_book_levels)
  have d: "(case diff rest b of Inl e \<Rightarrow> False | Inr ds \<Rightarrow> ds = []) \<longleftrightarrow> same_book rest b"
    using diff_empty_iff [OF wf assms(3)] by (auto simp: same_book_def split: sum.splits)
  have "same_book rest b \<Longrightarrow> level_count s b = level_count s rest" for s
    using level_count_cong [OF wf, of s] by (simp add: same_book_def)
  moreover have "same_book rest b \<Longrightarrow> f b = f rest"
    using assms(4) wf by (simp add: fair_checksum_def same_book_def)
  ultimately show ?thesis using d by (auto simp: same_levels_def)
qed

lemma wf_to_book: "to_book t img = Inr b \<Longrightarrow> wf_book b \<and> bk_ticker b = t \<and> \<not> bk_stale b"
  using wf_book_apply_snapshot [OF wf_book_new, of "bi_bids img" "bi_asks img" None t]
    snapshot_ticker [of "bi_bids img" "bi_asks img" None "new_book t"]
    apply_snapshot_invalid [of "bi_bids img" "bi_asks img" None "new_book t"]
    apply_snapshot_valid [of "bi_bids img" "bi_asks img" None "new_book t"]
  by (cases "valid_image (bi_bids img) (bi_asks img)")
    (auto simp: to_book_def image_book_def new_book_def [of t])

lemma wf_replay_change:
  assumes "replay_change c b = Inr b'" "wf_book b" "\<not> bk_stale b"
  shows "wf_book b' \<and> bk_ticker b' = bk_ticker b \<and> \<not> bk_stale b'"
proof -
  have "fresh_same b b" using assms(2,3) by (simp add: fresh_same_def)
  with replay.app_same assms(1) have "fresh_same b' b'" by fastforce
  moreover have "b' = fst (apply_change c b)"
    using assms(1) by (cases "apply_change c b") (auto simp: replay_change_def simp del: apply_change.simps split: sum.splits)
  ultimately show ?thesis by (simp add: fresh_same_def)
qed

lemma wf_replay_all:
  "replay.replay_all evs b = Inr b' \<Longrightarrow> wf_book b \<Longrightarrow> \<not> bk_stale b \<Longrightarrow>
   wf_book b' \<and> bk_ticker b' = bk_ticker b \<and> \<not> bk_stale b'"
proof (induction evs arbitrary: b)
  case (Cons c evs)
  then obtain b1 where b1: "replay_change c b = Inr b1" "replay.replay_all evs b1 = Inr b'"
    by (auto simp: result_simps)
  note w = wf_replay_change [OF b1(1) Cons.prems(2,3)]
  then have "wf_book b' \<and> bk_ticker b' = bk_ticker b1 \<and> \<not> bk_stale b'" using Cons.IH [OF b1(2)] by blast
  with w show ?case by simp
qed simp

lemma wf_states:
  assumes "wf_book b0" "\<not> bk_stale b0"
  shows "wf_book (states b0 evs k) \<and> bk_ticker (states b0 evs k) = bk_ticker b0 \<and> \<not> bk_stale (states b0 evs k)"
proof (cases "replay.replay_all (take k evs) b0")
  case (Inr b)
  then show ?thesis using wf_replay_all [OF Inr assms] by (simp add: states_def)
qed (use assms in \<open>simp add: states_def\<close>)

text \<open>How far a state is from the reply; of two at the same distance the earlier is nearer.\<close>

definition reply_distance :: "nat \<Rightarrow> nat \<Rightarrow> nat" where
  "reply_distance r k = (if k \<le> r then r - k else k - r)"

definition nearer :: "nat \<Rightarrow> nat \<Rightarrow> nat \<Rightarrow> bool" where
  "nearer r k j \<longleftrightarrow> reply_distance r k < reply_distance r j \<or> (reply_distance r k = reply_distance r j \<and> k \<le> j)"

definition nearest_match :: "(nat \<Rightarrow> bool) \<Rightarrow> nat \<Rightarrow> nat \<Rightarrow> nat \<Rightarrow> bool" where
  "nearest_match P r n k \<longleftrightarrow> k \<le> n \<and> P k \<and> (\<forall>j\<le>n. P j \<longrightarrow> nearer r k j)"

lemma nearest_match_unique: "nearest_match P r n k \<Longrightarrow> nearest_match P r n j \<Longrightarrow> k = j"
  by (fastforce simp: nearest_match_def nearer_def)

lemma uniq_match: "nearest_match P r n k \<Longrightarrow> nearest_match P r n j \<longleftrightarrow> k = j"
  using nearest_match_unique by blast

lemma received_by_le: "received_by evs t \<le> length evs"
  by (induction evs) auto

lemma nearest_before_and_after:
  assumes "r \<le> n" "k < r" "P k" "\<forall>j\<le>r. P j \<longrightarrow> j \<le> k"
  shows "(\<forall>j. r < j \<and> j \<le> min n (2 * r - k - 1) \<longrightarrow> \<not> P j) \<Longrightarrow> nearest_match P r n k"
    and "r < m \<Longrightarrow> m \<le> min n (2 * r - k - 1) \<Longrightarrow> P m \<Longrightarrow> (\<forall>j. r < j \<and> j < m \<longrightarrow> \<not> P j) \<Longrightarrow> nearest_match P r n m"
proof -
  assume none: "\<forall>j. r < j \<and> j \<le> min n (2 * r - k - 1) \<longrightarrow> \<not> P j"
  have "nearer r k j" if "j \<le> n" "P j" for j
  proof (cases "j \<le> r")
    case True
    then show ?thesis using assms that by (auto simp: nearer_def reply_distance_def)
  next
    case False
    then have "\<not> j \<le> 2 * r - k - 1" using none that by auto
    then show ?thesis using assms False by (auto simp: nearer_def reply_distance_def)
  qed
  then show "nearest_match P r n k" using assms by (simp add: nearest_match_def)
next
  assume m: "r < m" "m \<le> min n (2 * r - k - 1)" "P m" "\<forall>j. r < j \<and> j < m \<longrightarrow> \<not> P j"
  have "nearer r m j" if "j \<le> n" "P j" for j
  proof (cases "j \<le> r")
    case True
    then have "j \<le> k" using assms that by blast
    then show ?thesis using assms m True by (auto simp: nearer_def reply_distance_def)
  next
    case False
    then have "m \<le> j" using m that by (meson not_le)
    then show ?thesis using m False by (auto simp: nearer_def reply_distance_def)
  qed
  then show "nearest_match P r n m" using m by (simp add: nearest_match_def)
qed

lemma nearest_first_after:
  assumes "\<forall>j\<le>r. \<not> P j" "r < m" "m \<le> n" "P m" "\<forall>j. r < j \<and> j < m \<longrightarrow> \<not> P j"
  shows "nearest_match P r n m"
proof -
  have "nearer r m j" if "j \<le> n" "P j" for j
  proof -
    have "m \<le> j" using assms that by (metis not_le)
    then show ?thesis using assms(2) by (auto simp: nearer_def reply_distance_def)
  qed
  then show ?thesis using assms by (simp add: nearest_match_def)
qed

lemma classify_window_spec:
  fixes t :: int
  assumes "tw_fault w = None" "tw_start w = Some img" "to_book (tw_ticker w) img = Inr b0"
    "replays b0 (tw_events w)" "wf_book rest" "bk_ticker rest = tw_ticker w" "fair_checksum f"
  defines "r \<equiv> received_by (tw_events w) t" and "n \<equiv> length (tw_events w)"
    and "P \<equiv> (\<lambda>k. same_book rest (states b0 (tw_events w) k))"
  shows "\<exists>v. classify_window f w rest t = Inr v \<and> wv_outcome v \<noteq> OutUndecidable \<and>
    (wv_outcome v = OutExact \<longleftrightarrow> P r) \<and> (wv_outcome v = OutInconsistent \<longleftrightarrow> (\<forall>k\<le>n. \<not> P k)) \<and>
    (\<forall>k. wv_match_index v = Some k \<longleftrightarrow> nearest_match P r n k) \<and>
    wv_reply_state v = Some (image_of (states b0 (tw_events w) r))"
proof -
  let ?evs = "tw_events w" and ?same = "same_levels f (f rest) rest"
  let ?st = "states b0 ?evs"
  have b0: "wf_book b0" "bk_ticker b0 = tw_ticker w" "\<not> bk_stale b0" using wf_to_book [OF assms(3)] by auto
  have same: "?same (?st k) = P k" for k
    using same_levels_iff [OF assms(5) _ _ assms(7)] wf_states [OF b0(1,3)] assms(6) b0(2) by (simp add: P_def)
  have rn: "r \<le> n" by (simp add: r_def n_def received_by_le)
  define near where "near = latest ?same ?st [0..<Suc r] None"
  have before: "scan_before ?same 0 b0 (take r ?evs) None = Inr (?st r, near)"
    using scan_before_states [OF assms(4), of 0 r ?same None] rn by (simp add: n_def near_def)
  have near_Some: "near = Some k \<longleftrightarrow> k \<le> r \<and> P k \<and> (\<forall>j\<le>r. P j \<longrightarrow> j \<le> k)" for k
    unfolding near_def by (subst latest_Some_iff) (auto simp: same less_Suc_eq_le simp del: upt_Suc)
  have near_None: "near = None \<longleftrightarrow> (\<forall>j\<le>r. \<not> P j)"
    unfolding near_def by (auto simp: latest_None_iff same less_Suc_eq_le simp del: upt_Suc)
  have after: "scan_after ?same r (?st r) (take (l - r) (drop r ?evs)) = Inr (List.find P [Suc r..<Suc l])"
    if "r \<le> l" "l \<le> n" for l
    using scan_after_states [OF assms(4), of r "l - r" ?same] that by (simp add: n_def same)
  have cw: "classify_window f w rest t =
      (if near = Some r then Inr \<lparr>wv_outcome = OutExact, wv_match_index = near, wv_reply_state = Some (image_of (?st r))\<rparr>
       else let l = (case near of None \<Rightarrow> n | Some k \<Rightarrow> min n (2 * r - k - 1))
         in case List.find P [Suc r..<Suc l] of
              Some k \<Rightarrow> Inr \<lparr>wv_outcome = OutConsistent, wv_match_index = Some k, wv_reply_state = Some (image_of (?st r))\<rparr>
            | None \<Rightarrow> (case near of
                None \<Rightarrow> Inr \<lparr>wv_outcome = OutInconsistent, wv_match_index = None, wv_reply_state = Some (image_of (?st r))\<rparr>
              | Some k \<Rightarrow> Inr \<lparr>wv_outcome = OutConsistent, wv_match_index = Some k, wv_reply_state = Some (image_of (?st r))\<rparr>))"
  proof -
    have l: "r \<le> (case near of None \<Rightarrow> n | Some k \<Rightarrow> min n (2 * r - k - 1))"
        "(case near of None \<Rightarrow> n | Some k \<Rightarrow> min n (2 * r - k - 1)) \<le> n" if "near \<noteq> Some r"
    proof -
      have "k < r" if "near = Some k" for k using near_Some that \<open>near \<noteq> Some r\<close> by (metis le_neq_implies_less)
      then have "r \<le> 2 * r - k - 1" if "near = Some k" for k using that by fastforce
      then show "r \<le> (case near of None \<Rightarrow> n | Some k \<Rightarrow> min n (2 * r - k - 1))"
        "(case near of None \<Rightarrow> n | Some k \<Rightarrow> min n (2 * r - k - 1)) \<le> n"
        using rn by (auto split: option.split)
    qed
    define l where "l = (case near of None \<Rightarrow> n | Some k \<Rightarrow> min n (2 * r - k - 1))"
    have scan: "near \<noteq> Some r \<Longrightarrow> scan_after ?same r (?st r) (take (l - r) (drop r ?evs)) = Inr (List.find P [Suc r..<Suc l])"
      unfolding l_def using after l by blast
    have start: "result_bind (to_book (tw_ticker w) img) (\<lambda>b0. scan_before ?same 0 b0 (take r ?evs) None) = Inr (?st r, near)"
      by (simp add: assms(3) before)
    show ?thesis
      unfolding classify_window_def Let_def assms(1,2,6) option.case prod.case r_def [symmetric] n_def [symmetric]
        start sum.case l_def [symmetric]
      using scan by (simp del: upt_Suc split: option.split)
  qed
  show ?thesis
  proof (cases near)
    case None
    then have no: "\<forall>j\<le>r. \<not> P j" using near_None by blast
    show ?thesis
    proof (cases "List.find P [Suc r..<Suc n]")
      case None
      then have "\<not> P k" if "r < k" "k \<le> n" for k using that by (auto simp: find_None_iff simp del: upt_Suc)
      then have "\<forall>k\<le>n. \<not> P k" using no by (meson not_le)
      then show ?thesis using \<open>near = None\<close> None rn by (auto simp: cw nearest_match_def simp del: upt_Suc)
    next
      case (Some m)
      then have m: "nearest_match P r n m" "P m" "m \<le> n"
        using nearest_first_after [OF no, of m n] by (auto simp: find_upt_Some_iff simp del: upt_Suc)
      then show ?thesis
        using \<open>near = None\<close> Some no rn uniq_match [OF m(1)] by (auto simp: cw simp del: upt_Suc)
    qed
  next
    case (Some k)
    then have k: "k \<le> r" "P k" "\<forall>j\<le>r. P j \<longrightarrow> j \<le> k" using near_Some by auto
    show ?thesis
    proof (cases "k = r")
      case True
      then have "nearest_match P r n r"
        using k rn by (auto simp: nearest_match_def nearer_def reply_distance_def)
      then show ?thesis
        using True Some k rn by (auto simp: cw uniq_match simp del: upt_Suc)
    next
      case False
      then have kr: "k < r" "\<not> P r" using k by auto
      let ?l = "min n (2 * r - k - 1)"
      show ?thesis
      proof (cases "List.find P [Suc r..<Suc ?l]")
        case None
        then have "\<forall>j. r < j \<and> j \<le> ?l \<longrightarrow> \<not> P j"
          by (auto simp: find_None_iff less_Suc_eq_le simp del: upt_Suc)
        then have m: "nearest_match P r n k" using nearest_before_and_after(1) [OF rn kr(1) k(2,3)] by blast
        have "\<exists>j\<le>n. P j" using kr rn k by (intro exI [of _ k]) simp
        then show ?thesis
          using Some None False kr k rn uniq_match [OF m] by (auto simp: cw simp del: upt_Suc)
      next
        case (Some m)
        then have m: "nearest_match P r n m"
          using nearest_before_and_after(2) [OF rn kr(1) k(2,3), of m]
          by (auto simp: find_upt_Some_iff less_Suc_eq_le Suc_le_eq simp del: upt_Suc)
        have "\<exists>j\<le>n. P j" using kr rn k by (intro exI [of _ k]) simp
        then show ?thesis
          using m \<open>near = Some k\<close> Some False kr k rn uniq_match [OF m] by (auto simp: cw simp del: upt_Suc)
      qed
    qed
  qed
qed

section \<open>The rotation covers everything\<close>

text \<open>What \<open>k\<close> calls in a row choose from a fixed set of tickers.\<close>

fun rotation :: "nat \<Rightarrow> string list \<Rightarrow> int \<Rightarrow> int \<Rightarrow> audit_error + (string list \<times> int)" where
  "rotation 0 tickers sample cursor = Inr ([], cursor)"
| "rotation (Suc k) tickers sample cursor =
     result_bind (round_robin_choice tickers sample cursor) (\<lambda>(chosen, cursor').
     result_bind (rotation k tickers sample cursor') (\<lambda>(rest, cursor''). Inr (chosen @ rest, cursor'')))"

definition cycle_from :: "string list \<Rightarrow> int \<Rightarrow> nat \<Rightarrow> string list" where
  "cycle_from unique start m = map (\<lambda>i. unique ! nat ((start + int i) mod int (length unique))) [0..<m]"

lemma cycle_from_append:
  "cycle_from unique start (m + k) = cycle_from unique start m @ cycle_from unique (start + int m) k"
proof -
  have "map f [m..<m + k] = map (\<lambda>i. f (m + i)) [0..<k]" for f :: "nat \<Rightarrow> string"
    by (simp add: map_add_upt [symmetric] add.commute comp_def)
  then show ?thesis
    by (simp add: cycle_from_def upt_add_eq_append [of 0] add.assoc)
qed

lemma cycle_from_mod: "cycle_from unique (start mod int (length unique)) m = cycle_from unique start m"
  by (simp add: cycle_from_def mod_simps)

lemma round_robin_cycle:
  assumes "0 \<le> sample" "tickers \<noteq> []"
  defines "unique \<equiv> sort (remdups tickers)"
  shows "round_robin_choice tickers sample cursor =
    Inr (cycle_from unique cursor (nat (min sample (int (length unique)))),
         (cursor + min sample (int (length unique))) mod int (length unique))"
proof -
  have "sort (remdups tickers) \<noteq> []" using assms(2) by (metis set_empty set_remdups set_sort)
  then show ?thesis
    using assms(1) cycle_from_mod [of unique cursor]
    by (simp add: unique_def round_robin_choice_def cycle_from_def Let_def mod_simps)
qed

lemma rotation_cycle:
  assumes "0 \<le> sample" "tickers \<noteq> []"
  defines "unique \<equiv> sort (remdups tickers)"
  shows "\<exists>cursor'. rotation k tickers sample cursor =
    Inr (cycle_from unique cursor (k * nat (min sample (int (length unique)))), cursor')"
proof (induction k arbitrary: cursor)
  case 0
  then show ?case by (simp add: cycle_from_def)
next
  case (Suc k)
  let ?m = "min sample (int (length unique))"
  have m: "0 \<le> ?m" using assms(1) by simp
  obtain c' where "rotation k tickers sample ((cursor + ?m) mod int (length unique)) =
      Inr (cycle_from unique (cursor + ?m) (k * nat ?m), c')"
    using Suc.IH [of "(cursor + ?m) mod int (length unique)"] cycle_from_mod by metis
  then show ?case
    using round_robin_cycle [OF assms(1,2), of cursor] cycle_from_append [of unique cursor "nat ?m" "k * nat ?m"] m
    by (simp add: unique_def [symmetric])
qed

lemma cycle_covers: "unique \<noteq> [] \<Longrightarrow> length unique \<le> m \<Longrightarrow> set (cycle_from unique start m) = set unique"
proof
  assume ne: "unique \<noteq> []" and m: "length unique \<le> m"
  let ?n = "int (length unique)"
  have pos: "0 < ?n" using ne by simp
  show "set (cycle_from unique start m) \<subseteq> set unique"
    using pos by (auto simp: cycle_from_def nat_less_iff intro!: nth_mem)
  show "set unique \<subseteq> set (cycle_from unique start m)"
  proof
    fix x assume "x \<in> set unique"
    then obtain j where j: "j < length unique" "x = unique ! j" by (auto simp: in_set_conv_nth)
    let ?i = "nat ((int j - start) mod ?n)"
    have "(int j - start) mod ?n < ?n" "0 \<le> (int j - start) mod ?n" using pos by simp_all
    then have i: "?i < m" "int ?i = (int j - start) mod ?n" using m by linarith+
    have "(start + int ?i) mod ?n = int j" using i(2) j(1) by (simp add: mod_simps)
    then have "x = unique ! nat ((start + int ?i) mod ?n)" using j(2) by simp
    then show "x \<in> set (cycle_from unique start m)"
      unfolding cycle_from_def set_map using i(1) by (intro image_eqI [of _ _ ?i]) simp_all
  qed
qed

lemma cycle_distinct: "distinct unique \<Longrightarrow> m \<le> length unique \<Longrightarrow> distinct (cycle_from unique start m)"
proof -
  assume d: "distinct unique" and m: "m \<le> length unique"
  let ?n = "int (length unique)"
  have "i = j" if "i < m" "j < m" "unique ! nat ((start + int i) mod ?n) = unique ! nat ((start + int j) mod ?n)" for i j
  proof -
    have pos: "0 < ?n" using that(1) m by linarith
    then have "nat ((start + int i) mod ?n) = nat ((start + int j) mod ?n)"
      using nth_eq_iff_index_eq [OF d] that(3) by (simp add: nat_less_iff)
    then have "(start + int i) mod ?n = (start + int j) mod ?n" using pos by (simp add: eq_nat_nat_iff)
    then have "(int i - int j) mod ?n = 0" by (metis add_diff_cancel_left mod_eq_dvd_iff dvd_eq_mod_eq_0)
    then have "?n dvd int i - int j" by (simp add: dvd_eq_mod_eq_0)
    moreover have "\<bar>int i - int j\<bar> < ?n" using that(1,2) m by linarith
    ultimately show "i = j" using zdvd_imp_le [of ?n "\<bar>int i - int j\<bar>"] by (cases "i = j") auto
  qed
  then show ?thesis by (auto simp: cycle_from_def distinct_map inj_on_def)
qed

section \<open>One entry audited\<close>

lemma scan_before_result:
  assumes "scan_before same i b evs near = Inr (b', near')" "wf_book b" "\<not> bk_stale b" "\<forall>k. near = Some k \<longrightarrow> k < i"
  shows "wf_book b' \<and> \<not> bk_stale b' \<and> bk_ticker b' = bk_ticker b \<and> (near' = Some (i + length evs) \<longleftrightarrow> same b')"
  using assms
proof (induction evs arbitrary: i b near)
  case Nil
  then show ?case by (auto split: if_splits)
next
  case (Cons ev evs)
  then obtain b1 where b1: "replay_change ev b = Inr b1"
      "scan_before same (Suc i) b1 evs (if same b then Some i else near) = Inr (b', near')"
    by (auto simp: result_simps)
  note w = wf_replay_change [OF b1(1) Cons.prems(2,3)]
  have "\<forall>k. (if same b then Some i else near) = Some k \<longrightarrow> k < Suc i" using Cons.prems(4) by auto
  with Cons.IH [OF b1(2)] w show ?case by auto
qed

definition keyed_window :: "string \<Rightarrow> tap_window \<Rightarrow> bool" where
  "keyed_window t w \<longleftrightarrow> tw_ticker w = t"

text \<open>What a verdict without a replay failure is: undecidable and empty, or with the book as of the reply.\<close>

lemma classify_total:
  assumes "wf_book rest" "bk_ticker rest = tw_ticker w" "fair_checksum f"
  shows "(\<exists>e. classify_window f w rest t = Inl (WindowDoesNotReplay e)) \<or>
    classify_window f w rest t = Inr undecidable_verdict \<or>
    (\<exists>v b. classify_window f w rest t = Inr v \<and> wv_outcome v \<noteq> OutUndecidable \<and> wv_reply_state v = Some (image_of b) \<and>
       wf_book b \<and> \<not> bk_stale b \<and> bk_ticker b = tw_ticker w \<and> (wv_outcome v = OutExact \<longleftrightarrow> same_book rest b))"
proof (cases "tw_fault w = None \<and> tw_start w \<noteq> None")
  case False
  then show ?thesis using assms(2) by (auto simp: classify_window_def split: option.splits)
next
  case True
  then obtain img where start: "tw_fault w = None" "tw_start w = Some img" by auto
  let ?r = "received_by (tw_events w) t" and ?same = "same_levels f (f rest) rest"
  define scan where "scan = result_bind (to_book (tw_ticker w) img) (\<lambda>b0. scan_before ?same 0 b0 (take ?r (tw_events w)) None)"
  show ?thesis
  proof (cases scan)
    case (Inl e)
    then have "classify_window f w rest t = Inl (WindowDoesNotReplay e)"
      using start assms(2) by (simp add: classify_window_def scan_def Let_def)
    then show ?thesis by blast
  next
    case (Inr bn)
    obtain b near where bn: "bn = (b, near)" by fastforce
    obtain b0 where b0: "to_book (tw_ticker w) img = Inr b0"
        "scan_before ?same 0 b0 (take ?r (tw_events w)) None = Inr (b, near)"
      using Inr by (auto simp: scan_def bn result_simps)
    have wf: "wf_book b" "\<not> bk_stale b" "bk_ticker b = tw_ticker w" "near = Some ?r \<longleftrightarrow> ?same b"
      using scan_before_result [OF b0(2)] wf_to_book [OF b0(1)] received_by_le [of "tw_events w" t] by auto
    have eq: "?same b \<longleftrightarrow> same_book rest b"
      by (rule same_levels_iff [OF assms(1) wf(1) _ assms(3)]) (simp add: wf assms(2))
    let ?l = "case near of None \<Rightarrow> length (tw_events w) | Some k \<Rightarrow> min (length (tw_events w)) (2 * ?r - k - 1)"
    have cw: "classify_window f w rest t =
        (if near = Some ?r then Inr \<lparr>wv_outcome = OutExact, wv_match_index = near, wv_reply_state = Some (image_of b)\<rparr>
         else case scan_after ?same ?r b (take (?l - ?r) (drop ?r (tw_events w))) of
             Inl e \<Rightarrow> Inl (WindowDoesNotReplay e)
           | Inr (Some k) \<Rightarrow> Inr \<lparr>wv_outcome = OutConsistent, wv_match_index = Some k, wv_reply_state = Some (image_of b)\<rparr>
           | Inr None \<Rightarrow> (case near of
                None \<Rightarrow> Inr \<lparr>wv_outcome = OutInconsistent, wv_match_index = None, wv_reply_state = Some (image_of b)\<rparr>
              | Some k \<Rightarrow> Inr \<lparr>wv_outcome = OutConsistent, wv_match_index = Some k, wv_reply_state = Some (image_of b)\<rparr>))"
      using start assms(2) Inr unfolding scan_def bn by (simp add: classify_window_def Let_def)
    show ?thesis
      unfolding cw using wf eq
      by (cases "scan_after ?same ?r b (take (?l - ?r) (drop ?r (tw_events w)))"; cases near) (auto split: option.split)
  qed
qed

definition result_ok :: "audit_result \<Rightarrow> bool" where
  "result_ok r \<longleftrightarrow> (ar_outcome r = OutExact \<longleftrightarrow> ar_mismatched_levels r = Some 0) \<and>
     (ar_outcome r = OutUndecidable \<longleftrightarrow> ar_mismatched_levels r = None) \<and>
     (ar_outcome r = OutExact \<longrightarrow> ar_max_abs_diff_e2 r = Some 0) \<and>
     (ar_fault r \<noteq> None \<longrightarrow> ar_outcome r = OutUndecidable)"

lemma image_to_book:
  assumes "wf_book b" "\<not> bk_stale b"
  shows "\<exists>c. to_book t (image_of b) = Inr c \<and> fresh_same c b \<and> bk_ticker c = t"
proof -
  let ?live = "\<lparr>lr_books = [(bk_ticker b, 0, b)], lr_next = 1\<rparr> :: live_registry"
  have lv: "wf_levels b" using assms by (simp add: wf_book_levels)
  have "\<not> abs_crossed (\<lambda>s p. size_at s p b)" using crossed_iff [OF lv] assms by (auto simp: wf_book_levels)
  then have valid: "valid_image (levels BID b) (levels ASK b)"
    by (simp add: valid_image_def levels_sizes_levels [OF lv] valid_levels_of_book [OF lv] del: levels.simps)
  let ?c = "image_book (levels BID b) (levels ASK b) None (new_book t)"
  have c: "to_book t (image_of b) = Inr ?c"
    by (simp add: to_book_def image_of_def apply_snapshot_valid [OF valid] del: levels.simps)
  then show ?thesis
    using wf_to_book [OF c] assms
    by (auto simp: fresh_same_def size_at_image levels_sizes_levels [OF lv] simp del: levels.simps)
qed

lemma audit_result_total:
  assumes "wf_book rest" "bk_ticker rest = tw_ticker w"
    "v = undecidable_verdict \<or> (wv_outcome v \<noteq> OutUndecidable \<and> wv_reply_state v = Some (image_of b) \<and>
       wf_book b \<and> \<not> bk_stale b \<and> (wv_outcome v = OutExact \<longleftrightarrow> same_book rest b))"
  shows "\<exists>r. audit_result_of w rest v ti = Inr r \<and> result_ok r \<and> ar_outcome r = wv_outcome v \<and> ar_ticker r = tw_ticker w"
  using assms(3)
proof
  assume "v = undecidable_verdict"
  then show ?thesis by (simp add: audit_result_of_def undecidable_verdict_def result_ok_def Let_def)
next
  assume v: "wv_outcome v \<noteq> OutUndecidable \<and> wv_reply_state v = Some (image_of b) \<and>
       wf_book b \<and> \<not> bk_stale b \<and> (wv_outcome v = OutExact \<longleftrightarrow> same_book rest b)"
  then obtain c where c: "to_book (tw_ticker w) (image_of b) = Inr c" "fresh_same c b" "bk_ticker c = tw_ticker w"
    using image_to_book by blast
  have wf: "wf_levels rest" "wf_levels c" using assms(1) c(2) by (simp_all add: fresh_same_def wf_book_levels)
  obtain ds where ds: "diff rest c = Inr ds" using assms(2) c(3) by (simp add: diff_def)
  have "ds = [] \<longleftrightarrow> same_book rest b"
    using diff_empty_iff [OF wf] assms(2) c ds by (auto simp: same_book_def fresh_same_def)
  then show ?thesis
    using v by (auto simp: audit_result_of_def c ds result_ok_def max_default_def Let_def)
qed

definition audits :: "auditor \<Rightarrow> int" where
  "audits a = au_exact a + au_consistent a + au_inconsistent a + au_undecidable a"

lemma count_result_fields:
  "audits (count_result r w a) = audits a + 1"
  "au_invalid_rest (count_result r w a) = au_invalid_rest a"
  "au_levels_mismatched (count_result r w a) = au_levels_mismatched a + (case ar_mismatched_levels r of None \<Rightarrow> 0 | Some n \<Rightarrow> int n)"
  "au_exact (count_result r w a) = au_exact a + (if ar_outcome r = OutExact then 1 else 0)"
  "au_cursor (count_result r w a) = au_cursor a"
  "au_rounds (count_result r w a) = au_rounds a"
  "au_skipped_stale (count_result r w a) = au_skipped_stale a"
  "au_tape (count_result r w a) = au_tape a"
  by (auto simp: count_result_def audits_def Let_def split: audit_outcome.splits option.splits)

lemma write_record_fields [simp]:
  "audits (write_record s r x y a) = audits a"
  "au_invalid_rest (write_record s r x y a) = au_invalid_rest a"
  "au_levels_mismatched (write_record s r x y a) = au_levels_mismatched a"
  "au_exact (write_record s r x y a) = au_exact a"
  "au_cursor (write_record s r x y a) = au_cursor a"
  "au_rounds (write_record s r x y a) = au_rounds a"
  "au_skipped_stale (write_record s r x y a) = au_skipped_stale a"
  by (auto simp: write_record_def audits_def Let_def split: option.splits)

definition taped :: "(string \<Rightarrow> int option) \<Rightarrow> audit_result list \<Rightarrow> audit_result list" where
  "taped sink_for rs = filter (\<lambda>r. sink_for (ar_ticker r) \<noteq> None) rs"

lemma write_record_tape:
  "map ad_result (au_tape (write_record s r x y a)) = map ad_result (au_tape a) @ taped s [r]"
  by (auto simp: write_record_def taped_def Let_def split: option.splits)

definition mismatched_sum :: "audit_result list \<Rightarrow> int" where
  "mismatched_sum rs = sum_list (map (\<lambda>r. case ar_mismatched_levels r of None \<Rightarrow> 0 | Some n \<Rightarrow> int n) rs)"

text \<open>What a number of fetched entries add to an auditor.\<close>

definition accounted :: "(string \<Rightarrow> int option) \<Rightarrow> nat \<Rightarrow> auditor \<Rightarrow> auditor \<Rightarrow> audit_result list \<Rightarrow> bool" where
  "accounted sink_for fetched a a' rs \<longleftrightarrow>
     list_all result_ok rs \<and>
     audits a' = audits a + int (length rs) \<and>
     int (length rs) + (au_invalid_rest a' - au_invalid_rest a) = int fetched \<and> au_invalid_rest a \<le> au_invalid_rest a' \<and>
     au_exact a' = au_exact a + int (length (filter (\<lambda>r. ar_outcome r = OutExact) rs)) \<and>
     au_levels_mismatched a' = au_levels_mismatched a + mismatched_sum rs \<and>
     map ad_result (au_tape a') = map ad_result (au_tape a) @ taped sink_for rs \<and>
     au_cursor a' = au_cursor a \<and> au_rounds a' = au_rounds a \<and> au_skipped_stale a' = au_skipped_stale a"

lemma accounted_refl: "accounted s 0 a a []"
  by (simp add: accounted_def mismatched_sum_def taped_def)

lemma accounted_trans:
  "accounted s m a b rs \<Longrightarrow> accounted s n b c ts \<Longrightarrow> accounted s (m + n) a c (rs @ ts)"
  by (auto simp: accounted_def mismatched_sum_def taped_def)

lemma rest_book_of_cases:
  "(\<exists>b. rest_book_of entry a = (a, Some b) \<and> wf_book b \<and> bk_ticker b = mo_ticker entry) \<or>
   rest_book_of entry a = (a\<lparr>au_invalid_rest := au_invalid_rest a + 1\<rparr>, None)"
proof (cases "rest_orderbook_levels (mo_orderbook_fp entry)")
  case (Inr ba)
  obtain bids asks where ba: "ba = (bids, asks)" by fastforce
  obtain b r where s: "apply_snapshot bids asks None (new_book (mo_ticker entry)) = (b, r)" by fastforce
  have "wf_book b" "bk_ticker b = mo_ticker entry"
    using wf_book_apply_snapshot [OF wf_book_new, of bids asks None "mo_ticker entry"]
      snapshot_ticker [of bids asks None "new_book (mo_ticker entry)"]
    by (simp_all only: s fst_conv) (simp add: new_book_def)
  then show ?thesis by (simp add: rest_book_of_def Inr ba s Let_def split: sum.split)
qed (simp add: rest_book_of_def)

lemma audit_entry_total:
  assumes "keyed_window (mo_ticker entry) w"
  shows "\<exists>a' r. audit_entry s entry w ti a = (a', Inr r) \<and>
    accounted s 1 a a' (case r of None \<Rightarrow> [] | Some x \<Rightarrow> [x])"
  using rest_book_of_cases [of entry a]
proof
  assume "rest_book_of entry a = (a\<lparr>au_invalid_rest := au_invalid_rest a + 1\<rparr>, None)"
  then show ?thesis by (simp add: audit_entry_def accounted_def audits_def mismatched_sum_def taped_def)
next
  assume "\<exists>b. rest_book_of entry a = (a, Some b) \<and> wf_book b \<and> bk_ticker b = mo_ticker entry"
  then obtain rest where rest: "rest_book_of entry a = (a, Some rest)" "wf_book rest" "bk_ticker rest = tw_ticker w"
    using assms by (auto simp: keyed_window_def)
  obtain v b where v: "classify_or_undecidable w rest (ti_recv_mono_ns ti) = Inr v"
      "v = undecidable_verdict \<or> (wv_outcome v \<noteq> OutUndecidable \<and> wv_reply_state v = Some (image_of b) \<and>
         wf_book b \<and> \<not> bk_stale b \<and> (wv_outcome v = OutExact \<longleftrightarrow> same_book rest b))"
    using classify_total [OF rest(2,3) fair_checksum_checksum, of "ti_recv_mono_ns ti"]
    by (fastforce simp: classify_or_undecidable_def)
  obtain r where r: "audit_result_of w rest v ti = Inr r" "result_ok r" "ar_outcome r = wv_outcome v"
    using audit_result_total [OF rest(2,3) v(2)] by blast
  show ?thesis
    by (auto simp: audit_entry_def rest v r accounted_def count_result_fields write_record_tape mismatched_sum_def)
qed

lemma audit_entries_total:
  assumes "\<forall>t w. dict_get windows t = Some w \<longrightarrow> tw_ticker w = t"
  shows "\<exists>a' rs. audit_entries s entries windows ti a = (a', Inr rs) \<and> accounted s (length entries) a a' rs"
proof (induction entries arbitrary: a)
  case Nil
  then show ?case by (simp add: accounted_refl)
next
  case (Cons entry entries)
  let ?w = "dict_get_or windows (mo_ticker entry) (absent_window (mo_ticker entry))"
  have "keyed_window (mo_ticker entry) ?w"
    using assms by (auto simp: keyed_window_def dict_get_or_def absent_window_def split: option.splits)
  then obtain a1 r where one: "audit_entry s entry ?w ti a = (a1, Inr r)"
      "accounted s 1 a a1 (case r of None \<Rightarrow> [] | Some x \<Rightarrow> [x])"
    using audit_entry_total by blast
  obtain a2 rs where rest: "audit_entries s entries windows ti a1 = (a2, Inr rs)" "accounted s (length entries) a1 a2 rs"
    using Cons.IH by blast
  have "accounted s (length (entry # entries)) a a2 (case r of None \<Rightarrow> rs | Some x \<Rightarrow> x # rs)"
    using accounted_trans [OF one(2) rest(2)] by (cases r) simp_all
  then show ?case using one(1) rest(1) by (simp add: audit_bind_def)
qed

text \<open>What the outside world may answer: windows keyed by their own market.\<close>

definition honest_fetch :: "(string list \<Rightarrow> fetched_batch) \<Rightarrow> bool" where
  "honest_fetch fetch \<longleftrightarrow> (\<forall>batch t w. dict_get (fst (fetch batch)) t = Some w \<longrightarrow> tw_ticker w = t)"

definition fetched_entries :: "fetched_batch \<Rightarrow> nat" where
  "fetched_entries fb = (case snd fb of Fetched orderbooks timing \<Rightarrow> length orderbooks | _ \<Rightarrow> 0)"

text \<open>The batches a round gets through: all before the first whose reply does not decode.\<close>

definition answered :: "(string list \<Rightarrow> fetched_batch) \<Rightarrow> string list list \<Rightarrow> string list list" where
  "answered fetch batches = takeWhile (\<lambda>b. snd (fetch b) \<noteq> UndecodableBody) batches"

lemma audit_batches_total:
  assumes "honest_fetch fetch"
  shows "\<exists>a' rs. audit_batches s fetch batches a = (a', if answered fetch batches = batches then Inr rs else Inl ReplyUndecodable) \<and>
    accounted s (sum_list (map (\<lambda>b. fetched_entries (fetch b)) (answered fetch batches))) a a' rs"
proof (induction batches arbitrary: a)
  case Nil
  then show ?case using accounted_refl [of s a] by (auto simp: answered_def)
next
  case (Cons batch batches)
  obtain windows reply where fb: "fetch batch = (windows, reply)" by fastforce
  have keyed: "\<forall>t w. dict_get windows t = Some w \<longrightarrow> tw_ticker w = t"
    using assms fb by (metis fst_conv honest_fetch_def)
  show ?case
  proof (cases "reply = UndecodableBody")
    case True
    then show ?thesis using accounted_refl [of s a] by (auto simp: answered_def fb audit_batch_def audit_bind_def)
  next
    case False
    obtain a1 rs1 where one: "audit_batch s (fetch batch) a = (a1, Inr rs1)" "accounted s (fetched_entries (fetch batch)) a a1 rs1"
    proof (cases reply)
      case RequestFailed
      then show ?thesis using that [of a "[]"] by (simp add: fb audit_batch_def fetched_entries_def accounted_refl)
    next
      case (Fetched orderbooks timing)
      obtain a1 rs1 where "audit_entries s orderbooks windows timing a = (a1, Inr rs1)" "accounted s (length orderbooks) a a1 rs1"
        using audit_entries_total [OF keyed] by blast
      then show ?thesis using that [of a1 rs1] by (simp add: fb Fetched audit_batch_def fetched_entries_def)
    qed (use False in simp)
    have more: "answered fetch (batch # batches) = batch # answered fetch batches" using False by (simp add: answered_def fb)
    obtain a2 rs2 where rest: "audit_batches s fetch batches a1 = (a2, if answered fetch batches = batches then Inr rs2 else Inl ReplyUndecodable)"
        "accounted s (sum_list (map (\<lambda>b. fetched_entries (fetch b)) (answered fetch batches))) a1 a2 rs2"
      using Cons.IH by blast
    then show ?thesis using one accounted_trans [OF one(2) rest(2)]
      by (intro exI [of _ a2] exI [of _ "rs1 @ rs2"]) (simp add: more audit_bind_def)
  qed
qed

lemma filter_split_length: "length (filter P xs) + length (filter (\<lambda>x. \<not> P x) xs) = length xs"
  by (induction xs) auto

section \<open>Properties\<close>

text \<open>
  C27. The verdict on a window is what it says: for a window without a fault whose changes replay,
  a REST book is exact when it has the levels of the book as of the reply, inconsistent when it has
  those of no state in the window and consistent otherwise; the index reported is that of the
  matching state nearest the reply, the earlier of two equally near; and the checksum never
  matters, as long as equal levels have equal checksums.
\<close>

theorem verdict_is_nearest_match:
  fixes t :: int
  assumes "tw_fault w = None" "tw_start w = Some img" "to_book (tw_ticker w) img = Inr b0"
    "replays b0 (tw_events w)" "wf_book rest" "bk_ticker rest = tw_ticker w" "fair_checksum f"
  defines "r \<equiv> received_by (tw_events w) t" and "n \<equiv> length (tw_events w)"
    and "P \<equiv> (\<lambda>k. same_book rest (states b0 (tw_events w) k))"
  shows "\<exists>v. classify_window f w rest t = Inr v \<and> wv_outcome v \<noteq> OutUndecidable \<and>
    (wv_outcome v = OutExact \<longleftrightarrow> P r) \<and> (wv_outcome v = OutInconsistent \<longleftrightarrow> (\<forall>k\<le>n. \<not> P k)) \<and>
    (\<forall>k. wv_match_index v = Some k \<longleftrightarrow> nearest_match P r n k) \<and>
    wv_reply_state v = Some (image_of (states b0 (tw_events w) r))"
  unfolding r_def n_def P_def using assms(1-7) by (rule classify_window_spec)

definition example_window :: tap_window where
  "example_window = \<lparr>tw_ticker = ''KXA-1'', tw_start = Some example_image, tw_events = [ChDelta example_delta], tw_fault = None\<rparr>"

lemma example_window_start:
  "\<exists>b0. to_book ''KXA-1'' example_image = Inr b0 \<and> replays b0 [ChDelta example_delta] \<and> same_book example_book b0"
proof -
  obtain b0 where b0: "to_book ''KXA-1'' example_image = Inr b0"
      and b0_eq: "b0 = example_book\<lparr>bk_last_ts_ms := None\<rparr>"
    by (simp add: to_book_def example_image_def apply_snapshot_def opt_max_def opt_min_def new_book_def
        example_book_eq Let_def)
  have "replays b0 [ChDelta example_delta]"
    by (simp add: replays_def replay_change_def b0_eq example_book_eq example_delta_def apply_delta_def
        dict_get_or_def Let_def change_level_def)
  moreover have "same_book example_book b0" by (simp add: same_book_def b0_eq size_at_def all_side)
  ultimately show ?thesis using b0 by blast
qed

theorem verdict_is_nearest_match_witness:
  "\<exists>v. classify_window checksum example_window example_book 0 = Inr v \<and> wv_outcome v = OutExact"
proof -
  obtain b0 where b0: "to_book ''KXA-1'' example_image = Inr b0" "replays b0 [ChDelta example_delta]" "same_book example_book b0"
    using example_window_start by blast
  have w: "tw_fault example_window = None" "tw_start example_window = Some example_image"
    "to_book (tw_ticker example_window) example_image = Inr b0" "replays b0 (tw_events example_window)"
    "bk_ticker example_book = tw_ticker example_window"
    using b0 by (simp_all add: example_window_def example_book_eq)
  have "received_by (tw_events example_window) 0 = 0"
    by (simp add: example_window_def example_delta_def example_rc_def)
  then show ?thesis
    using verdict_is_nearest_match [OF w(1-4) wf_example_book w(5) fair_checksum_checksum, of 0] b0(3) by auto
qed

text \<open>
  The rotation is fair: over a fixed set of books, calls in a row choose each book once before
  any is chosen again, and once enough calls were made to choose as many as there are books, every
  book was chosen.
\<close>

theorem rotation_is_fair:
  assumes "0 \<le> sample" "tickers \<noteq> []"
  shows "\<exists>chosen cursor'. rotation k tickers sample cursor = Inr (chosen, cursor') \<and>
    length chosen = k * nat (min sample (int (card (set tickers)))) \<and>
    (length chosen \<le> card (set tickers) \<longrightarrow> distinct chosen) \<and>
    (card (set tickers) \<le> length chosen \<longrightarrow> set chosen = set tickers)"
proof -
  let ?u = "sort (remdups tickers)"
  have u: "?u \<noteq> []" "distinct ?u" "set ?u = set tickers" "length ?u = card (set tickers)"
    using assms(2) by (auto simp: length_remdups_card_conv) (metis set_empty set_remdups set_sort)
  obtain c' where rot: "rotation k tickers sample cursor =
      Inr (cycle_from ?u cursor (k * nat (min sample (int (length ?u)))), c')"
    using rotation_cycle [OF assms] by blast
  show ?thesis
    unfolding rot using cycle_covers [OF u(1)] cycle_distinct [OF u(2)] u(3,4) by (auto simp: cycle_from_def)
qed

theorem rotation_is_fair_witness:
  "\<exists>chosen cursor'. rotation 2 [''b'', ''a'', ''c''] 2 5 = Inr (chosen, cursor') \<and> set chosen = {''a'', ''b'', ''c''}"
  using rotation_is_fair [of 2 "[''b'', ''a'', ''c'']" 2 5] by auto

text \<open>
  C28. A round accounts for everything it gets through. Whatever the exchange answered and the
  windows hold, it audits the batches up to the first whose reply does not decode: one well-formed
  result per fetched book that is a book, the others counted as invalid, each result added to
  exactly one outcome and its mismatches to the sum, one record taped per result with a sink, and
  exactly the chosen stale books skipped. Where every reply decodes or its request failed, it
  returns the results and counts the round; such a reply, and nothing else, makes it raise, and
  then the results so far are not returned and the round is not counted.
\<close>

theorem audit_round_accounts:
  assumes "honest_fetch fetch" "0 < au_sample_size a"
  shows "\<exists>a' res rs chosen cursor. audit_once sink_for fetch books a = (a', res) \<and>
    round_robin_choice (dict_keys books) (au_sample_size a) (au_cursor a) = Inr (chosen, cursor) \<and>
    (let fresh = filter (\<lambda>t. case dict_get books t of None \<Rightarrow> False | Some b \<Rightarrow> \<not> is_stale b) chosen;
         batches = batches_of MAX_BATCH_TICKERS fresh; whole = answered fetch batches = batches in
      concat batches = fresh \<and>
      res = (if whole then Inr rs else Inl ReplyUndecodable) \<and>
      list_all result_ok rs \<and>
      audits a' = audits a + int (length rs) \<and>
      int (length rs) + (au_invalid_rest a' - au_invalid_rest a) =
        int (sum_list (map (\<lambda>b. fetched_entries (fetch b)) (answered fetch batches))) \<and>
      au_levels_mismatched a' = au_levels_mismatched a + mismatched_sum rs \<and>
      map ad_result (au_tape a') = map ad_result (au_tape a) @ taped sink_for rs \<and>
      au_skipped_stale a' = au_skipped_stale a + int (length chosen - length fresh) \<and>
      au_rounds a' = au_rounds a + (if whole then 1 else 0) \<and> au_cursor a' = cursor)"
proof -
  obtain chosen cursor where rr: "round_robin_choice (dict_keys books) (au_sample_size a) (au_cursor a) = Inr (chosen, cursor)"
    using assms(2) that by (cases "sort (remdups (dict_keys books)) = []") (simp_all add: round_robin_choice_def Let_def)
  define usable where "usable = (\<lambda>t. case dict_get books t of None \<Rightarrow> False | Some b \<Rightarrow> \<not> is_stale b)"
  define a1 where "a1 = a\<lparr>au_cursor := cursor, au_skipped_stale := au_skipped_stale a +
      int (length (filter (\<lambda>t. \<not> usable t) chosen))\<rparr>"
  define batches where "batches = batches_of MAX_BATCH_TICKERS (filter usable chosen)"
  obtain a2 rs where b: "audit_batches sink_for fetch batches a1 =
        (a2, if answered fetch batches = batches then Inr rs else Inl ReplyUndecodable)"
      "accounted sink_for (sum_list (map (\<lambda>b. fetched_entries (fetch b)) (answered fetch batches))) a1 a2 rs"
    using audit_batches_total [OF assms(1)] by blast
  define whole where "whole \<longleftrightarrow> answered fetch batches = batches"
  define a' where "a' = (if whole then a2\<lparr>au_rounds := au_rounds a2 + 1\<rparr> else a2)"
  define res where "res = (if whole then Inr rs else Inl ReplyUndecodable)"
  have once: "audit_once sink_for fetch books a = (a', res)"
    unfolding audit_once_def rr sum.case prod.case Let_def usable_def [symmetric] a1_def [symmetric] batches_def [symmetric] b(1)
    by (simp add: whole_def [symmetric] audit_bind_def a'_def res_def)
  have skipped: "int (length (filter (\<lambda>t. \<not> usable t) chosen)) = int (length chosen - length (filter usable chosen))"
    using filter_split_length [of usable chosen] by simp
  have all: "concat batches = filter usable chosen"
    unfolding batches_def by (rule concat_batches) (simp add: MAX_BATCH_TICKERS_def)
  show ?thesis
    by (rule exI [of _ a'], rule exI [of _ res], rule exI [of _ rs], rule exI [of _ chosen], rule exI [of _ cursor])
      (use b(2) skipped all in \<open>simp add: once rr Let_def usable_def [symmetric] batches_def [symmetric] whole_def [symmetric]
        res_def a'_def accounted_def audits_def a1_def\<close>)
qed

definition empty_reply :: "string list \<Rightarrow> fetched_batch" where
  "empty_reply batch = ([], Fetched (map (\<lambda>t. \<lparr>mo_ticker = t, mo_orderbook_fp = \<lparr>oc_yes_dollars = [], oc_no_dollars = []\<rparr>\<rparr>) batch)
     \<lparr>ti_window_open_mono_ns = 0, ti_send_mono_ns = 1, ti_send_wall_ns = 1, ti_recv_mono_ns = 2,
      ti_recv_wall_ns = 2, ti_window_close_mono_ns = 3\<rparr>)"

theorem audit_round_accounts_witness:
  "\<exists>a a1 rs a2. new_auditor 5 0 0 10 = Inr a \<and>
     audit_once (\<lambda>t. Some 3) empty_reply [(''KXA-1'', example_book)] a = (a1, Inr rs) \<and> au_rounds a1 = 1 \<and> list_all result_ok rs \<and>
     audit_once (\<lambda>t. Some 3) (\<lambda>batch. ([], UndecodableBody)) [(''KXA-1'', example_book)] a = (a2, Inl ReplyUndecodable) \<and>
     au_rounds a2 = 0"
proof -
  obtain a where a: "new_auditor 5 0 0 10 = Inr a" "au_sample_size a = 5" "au_rounds a = 0" "au_cursor a = 0"
    by (simp add: new_auditor_def)
  let ?bad = "\<lambda>batch :: string list. ([] :: (string, tap_window) dict, UndecodableBody)"
  have honest: "honest_fetch empty_reply" "honest_fetch ?bad" by (simp_all add: honest_fetch_def empty_reply_def)
  have size: "0 < au_sample_size a" by (simp add: a(2))
  let ?books = "[(''KXA-1'', example_book)]"
  have chosen: "round_robin_choice (dict_keys ?books) (au_sample_size a) (au_cursor a) = Inr ([''KXA-1''], 0)"
    by (simp add: a round_robin_choice_def Let_def)
  have fresh: "\<not> is_stale example_book" by (simp add: is_stale_def example_book_eq)
  have batches: "batches_of MAX_BATCH_TICKERS [''KXA-1''] = [[''KXA-1'']]"
    by (subst batches_of.simps, simp add: MAX_BATCH_TICKERS_def, subst batches_of.simps, simp)
  have all: "answered empty_reply [[''KXA-1'']] = [[''KXA-1'']]" "answered ?bad [[''KXA-1'']] \<noteq> [[''KXA-1'']]"
    by (simp_all add: answered_def empty_reply_def)
  obtain a1 rs where one: "audit_once (\<lambda>t. Some 3) empty_reply ?books a = (a1, Inr rs)" "au_rounds a1 = 1" "list_all result_ok rs"
    using audit_round_accounts [OF honest(1) size, of "\<lambda>t. Some 3" ?books] chosen fresh batches all a(3) by (auto simp: Let_def)
  obtain a2 where two: "audit_once (\<lambda>t. Some 3) ?bad ?books a = (a2, Inl ReplyUndecodable)" "au_rounds a2 = 0"
    using audit_round_accounts [OF honest(2) size, of "\<lambda>t. Some 3" ?books] chosen fresh batches all a(3) by (auto simp: Let_def)
  show ?thesis using a(1) one two by blast
qed

text \<open>
  C26. An honest exchange is never called inconsistent: if a tap's window of a market closes without
  a fault and the REST book has the levels the local book had at some moment of the window,
  however the supervisor changed its books around it, then the verdict is exact or consistent.
\<close>

theorem honest_rest_passes:
  fixes t :: int
  assumes "wf_live live" "new_live_tap tickers live m = Inr tap"
    "tap_run ops1 (live, tap) = (live1, tap1)" "tap_run ops2 (live1, tap1) = (live2, tap2)"
    "snd (tap_close live2 tap2) = Inr ws" "dict_get ws u = Some w" "tw_fault w = None" "tw_ticker w = u"
    "book_at live1 u = Some (i, b)" "wf_book rest" "bk_ticker rest = u" "same_book rest b"
  shows "\<exists>v. classify_window checksum w rest t = Inr v \<and> (wv_outcome v = OutExact \<or> wv_outcome v = OutConsistent)"
proof -
  obtain img n b1 c0 c k where w: "tw_start w = Some img" "to_book u img = Inr c0" "book_at live1 u = Some (n, b1)"
      "k \<le> length (tw_events w)" "replay.replay_all (take k (tw_events w)) c0 = Inr c" "fresh_same c b1"
    using tap_window_replays [OF assms(1-7)] by blast
  have run: "tap_run (ops1 @ ops2) (live, tap) = (live2, tap2)"
    using assms(3,4) by (simp add: tap_run_def)
  obtain img' n' b' c0' c' k' where w': "tw_start w = Some img'" "to_book u img' = Inr c0'"
      "replay.replay_all (take k' (tw_events w)) c0' = Inr c'" "k' = length (tw_events w)"
    using tap_window_replays [OF assms(1,2) run, of "[]" live2 tap2 ws u w] assms(5,6,7)
    by (auto simp: tap_run_def)
  then have rep: "replays c0 (tw_events w)" using w(1,2) by (auto simp: replays_def)
  have "b1 = b" using w(3) assms(9) by simp
  then have "same_book rest (states c0 (tw_events w) k)"
    using assms(12) w(5,6) by (auto simp: same_book_def states_def fresh_same_def)
  moreover obtain v where v: "classify_window checksum w rest t = Inr v" "wv_outcome v \<noteq> OutUndecidable"
      "wv_outcome v = OutInconsistent \<longleftrightarrow> (\<forall>k\<le>length (tw_events w). \<not> same_book rest (states c0 (tw_events w) k))"
    using classify_window_spec [OF assms(7) w(1) _ rep assms(10) _ fair_checksum_checksum, of t] w(2) assms(8,11) by auto
  ultimately have "wv_outcome v \<noteq> OutInconsistent" using w(4) by blast
  with v(1,2) show ?thesis using audit_outcome.exhaust by metis
qed

theorem honest_rest_passes_witness:
  "\<exists>tap ws w v. new_live_tap [''KXA-1''] example_live 2 = Inr tap \<and>
     snd (tap_close example_live tap) = Inr ws \<and> dict_get ws ''KXA-1'' = Some w \<and>
     classify_window checksum w example_book 3 = Inr v \<and> (wv_outcome v = OutExact \<or> wv_outcome v = OutConsistent)"
proof -
  let ?r = "\<lparr>re_book = Some 0, re_start = Some example_image, re_events = [], re_fault = None\<rparr>"
  let ?tap = "\<lparr>lt_tickers = [''KXA-1''], lt_max_events = 2, lt_recordings = [(''KXA-1'', ?r)], lt_windows = None\<rparr>"
  let ?w = "\<lparr>tw_ticker = ''KXA-1'', tw_start = Some example_image, tw_events = [], tw_fault = None\<rparr>"
  have run: "tap_run [] (example_live, ?tap) = (example_live, ?tap)" by (simp add: tap_run_def)
  have close: "snd (tap_close example_live ?tap) = Inr [(''KXA-1'', ?w)]"
    by (simp add: tap_close_def finish_recording_def new_tap_window_def example_live_def example_book_eq is_stale_def Let_def)
  have w: "dict_get [(''KXA-1'', ?w)] ''KXA-1'' = Some ?w" "tw_fault ?w = None" "tw_ticker ?w = ''KXA-1''" by simp_all
  have b: "book_at example_live ''KXA-1'' = Some (0, example_book)" "bk_ticker example_book = ''KXA-1''"
    "same_book example_book example_book"
    by (simp_all add: book_at_def example_live_def example_book_eq same_book_def)
  show ?thesis
    using honest_rest_passes [OF wf_example_live example_tap run run close w b(1) wf_example_book b(2,3), of 3]
      example_tap close w(1) by blast
qed

end
