(* ===== verification/Planner.thy ===== *)
theory Planner
  imports Prelude Fixedpoint
begin

text \<open>
  The planner (\<open>src/tape/recorder/planner.py\<close>): which markets each order-book connection
  carries, the changes that turn the running plan into the wanted one, their splitting into
  pieces of bounded size, and the WebSocket commands that realise them.

  A Python \<open>frozenset\<close> is a set; every plan the code builds has finite groups, which the
  invariant \<open>wf_plan\<close> says. The members being dealt are a dictionary from connection to the
  list of its tickers, and the heap of connections with room is the list \<open>heapq\<close> keeps, seen
  through its contract: popping takes a least element away.
\<close>

section \<open>Groups and plans\<close>

record group =
  gr_group_id :: string
  gr_conn_id :: int
  gr_tickers :: "string set"

datatype plan_error =
    GroupEmpty string
  | NegativeConn string int
  | GroupsUnsorted
  | ConnShared
  | GroupIdShared
  | TickerShared string string string
  | MaxPerGroup int
  | MaxConnections int
  | MaxMarkets int
  | NoChannels
  | NoMarkets
  | NoSid string

definition new_group :: "string \<Rightarrow> int \<Rightarrow> string set \<Rightarrow> plan_error + group" where
  "new_group gid conn ts =
     (if ts = {} then Inl (GroupEmpty gid)
      else if conn < 0 then Inl (NegativeConn gid conn)
      else Inr \<lparr>gr_group_id = gid, gr_conn_id = conn, gr_tickers = ts\<rparr>)"

definition group_sort_key :: "group \<Rightarrow> int" where
  "group_sort_key g = gr_conn_id g"

record conn_plan =
  pl_groups :: "group list"

text \<open>The duplicate-ticker scan of a plan: each ticker is claimed by the first group naming it.\<close>

fun claim_tickers :: "string \<Rightarrow> string list \<Rightarrow> (string, string) dict \<Rightarrow> plan_error + (string, string) dict" where
  "claim_tickers gid [] owner = Inr owner"
| "claim_tickers gid (t # ts) owner =
     (case dict_get owner t of
        None \<Rightarrow> claim_tickers gid ts (dict_put t gid owner)
      | Some previous \<Rightarrow>
          if previous \<noteq> gid then Inl (TickerShared t previous gid) else claim_tickers gid ts owner)"

fun claim_groups :: "group list \<Rightarrow> (string, string) dict \<Rightarrow> plan_error + (string, string) dict" where
  "claim_groups [] owner = Inr owner"
| "claim_groups (g # gs) owner =
     result_bind (claim_tickers (gr_group_id g) (sorted_list_of_set (gr_tickers g)) owner) (claim_groups gs)"

definition new_plan :: "group list \<Rightarrow> plan_error + conn_plan" where
  "new_plan groups =
     (let conn_ids = map group_sort_key groups in
      if conn_ids \<noteq> sort conn_ids then Inl GroupsUnsorted
      else if length (remdups conn_ids) \<noteq> length conn_ids then Inl ConnShared
      else if length (remdups (map gr_group_id groups)) \<noteq> length groups then Inl GroupIdShared
      else result_bind (claim_groups groups []) (\<lambda>_. Inr \<lparr>pl_groups = groups\<rparr>))"

definition plan_tickers :: "conn_plan \<Rightarrow> string set" where
  "plan_tickers p = \<Union> (gr_tickers ` set (pl_groups p))"

definition plan_by_id :: "conn_plan \<Rightarrow> (string, group) dict" where
  "plan_by_id p = fold (\<lambda>g. dict_put (gr_group_id g) g) (pl_groups p) []"

datatype plan_change =
    AddGroup group
  | RemoveGroup string
  | AddMarkets string "string list"
  | RemoveMarkets string "string list"

section \<open>Planning\<close>

definition GROUP_ID_DIGITS :: nat where "GROUP_ID_DIGITS = 4"

text \<open>\<open>f"g{conn_id:04d}"\<close>: zeros go after the sign.\<close>

definition group_id_of :: "int \<Rightarrow> string" where
  "group_id_of conn = ''g'' @ (if conn < 0
     then ''-'' @ zero_pad (GROUP_ID_DIGITS - 1) (show_nat (nat (- conn)))
     else zero_pad GROUP_ID_DIGITS (show_nat (nat conn)))"

text \<open>\<open>del xs[cap:]\<close>: a negative bound counts from the end.\<close>

definition keep_first :: "int \<Rightarrow> 'a list \<Rightarrow> 'a list" where
  "keep_first cap xs = take (nat (if 0 \<le> cap then cap else int (length xs) + cap)) xs"

definition kept_members :: "group \<Rightarrow> string set \<Rightarrow> int \<Rightarrow> string list" where
  "kept_members g desired cap = keep_first cap (sorted_list_of_set (gr_tickers g \<inter> desired))"

definition carry_over :: "conn_plan \<Rightarrow> string set \<Rightarrow> int \<Rightarrow> int \<Rightarrow> (int, string list) dict" where
  "carry_over previous desired cap max_connections =
     fold (\<lambda>g members.
         if max_connections \<le> gr_conn_id g then members
         else let kept = kept_members g desired cap
              in if kept = [] then members else dict_put (gr_conn_id g) kept members)
       (pl_groups previous) []"

definition heapify :: "(int \<times> int) list \<Rightarrow> (int \<times> int) list" where
  "heapify xs = sort xs"

definition heappush :: "int \<times> int \<Rightarrow> (int \<times> int) list \<Rightarrow> (int \<times> int) list" where
  "heappush x h = insort x h"

fun heappop :: "(int \<times> int) list \<Rightarrow> ((int \<times> int) \<times> (int \<times> int) list) option" where
  "heappop [] = None"
| "heappop (x # h) = Some (x, h)"

fun deal :: "int \<Rightarrow> string list \<Rightarrow> (int \<times> int) list \<Rightarrow> (int, string list) dict \<Rightarrow> (int, string list) dict" where
  "deal cap [] room members = members"
| "deal cap (t # ts) room members =
     (case heappop room of
        None \<Rightarrow> members
      | Some ((load, conn), room') \<Rightarrow>
          deal cap ts (if load + 1 < cap then heappush (load + 1, conn) room' else room')
            (dict_put conn (dict_get_or members conn [] @ [t]) members))"

definition fill :: "(int, string list) dict \<Rightarrow> string list \<Rightarrow> int \<Rightarrow> int \<Rightarrow> (int, string list) dict" where
  "fill members unplaced cap max_connections =
     (let load = (\<lambda>conn. int (length (dict_get_or members conn [])));
          room = map (\<lambda>conn. (load conn, conn)) (filter (\<lambda>conn. load conn < cap) [0..max_connections - 1])
      in deal cap unplaced (heapify room) members)"

definition plan :: "string list \<Rightarrow> int \<Rightarrow> int \<Rightarrow> conn_plan option \<Rightarrow> plan_error + conn_plan" where
  "plan tickers max_per_group max_connections previous =
     (if max_per_group < 1 then Inl (MaxPerGroup max_per_group)
      else if max_connections < 1 then Inl (MaxConnections max_connections)
      else let desired = set tickers;
               members = (case previous of None \<Rightarrow> []
                          | Some p \<Rightarrow> carry_over p desired max_per_group max_connections);
               placed = \<Union> (set ` snd ` set members);
               filled = fill members (sorted_list_of_set (desired - placed)) max_per_group max_connections
           in result_bind
                (result_list (\<lambda>(conn, kept). new_group (group_id_of conn) conn (set kept))
                   (sort_key fst filled))
                new_plan)"

section \<open>Differences, splitting and commands\<close>

definition must_rebuild :: "group \<Rightarrow> group \<Rightarrow> bool" where
  "must_rebuild old new \<longleftrightarrow> gr_conn_id new \<noteq> gr_conn_id old \<or> gr_tickers old \<inter> gr_tickers new = {}"

text \<open>One pass of the loop over the running groups: what it appends to each of its lists.\<close>

definition market_change :: "(string \<Rightarrow> string list \<Rightarrow> plan_change) \<Rightarrow> string \<Rightarrow> string set \<Rightarrow> plan_change list" where
  "market_change mk gid ts = (if ts = {} then [] else [mk gid (sorted_list_of_set ts)])"

record diff_lists =
  dl_drop_markets :: "plan_change list"
  dl_drop_groups :: "plan_change list"
  dl_add_markets :: "plan_change list"
  dl_rebuilt :: "string set"

definition diff_running :: "(string, group) dict \<Rightarrow> (string, group) dict \<Rightarrow> string \<Rightarrow> diff_lists \<Rightarrow> diff_lists" where
  "diff_running running wanted gid acc =
     (case dict_get running gid of
        None \<Rightarrow> acc
      | Some old \<Rightarrow>
          (case dict_get wanted gid of
             None \<Rightarrow> acc\<lparr>dl_drop_groups := dl_drop_groups acc @ [RemoveGroup gid]\<rparr>
           | Some new \<Rightarrow>
               if must_rebuild old new
               then acc\<lparr>dl_drop_groups := dl_drop_groups acc @ [RemoveGroup gid],
                        dl_rebuilt := insert gid (dl_rebuilt acc)\<rparr>
               else acc\<lparr>dl_drop_markets := dl_drop_markets acc @
                          market_change RemoveMarkets gid (gr_tickers old - gr_tickers new),
                        dl_add_markets := dl_add_markets acc @
                          market_change AddMarkets gid (gr_tickers new - gr_tickers old)\<rparr>))"

definition plan_diff :: "conn_plan \<Rightarrow> conn_plan \<Rightarrow> plan_change list" where
  "plan_diff current desired =
     (let running = plan_by_id current;
          wanted = plan_by_id desired;
          acc = fold (diff_running running wanted) (sort (dict_keys running))
                  \<lparr>dl_drop_markets = [], dl_drop_groups = [], dl_add_markets = [], dl_rebuilt = {}\<rparr>;
          add_groups = concat (map (\<lambda>gid.
              if gid \<notin> set (dict_keys running) \<or> gid \<in> dl_rebuilt acc
              then (case dict_get wanted gid of None \<Rightarrow> [] | Some g \<Rightarrow> [AddGroup g]) else [])
            (sort (dict_keys wanted)))
      in dl_drop_markets acc @ dl_drop_groups acc @ add_groups @ dl_add_markets acc)"

function chunks :: "nat \<Rightarrow> 'a list \<Rightarrow> 'a list list" where
  "chunks n xs = (if n = 0 \<or> xs = [] then [] else take n xs # chunks n (drop n xs))"
  by pat_completeness auto
termination by (relation "measure (length \<circ> snd)") auto

declare chunks.simps [simp del]

definition split_markets :: "(string \<Rightarrow> string list \<Rightarrow> plan_change) \<Rightarrow> string \<Rightarrow> string list \<Rightarrow> int \<Rightarrow> plan_change list" where
  "split_markets mk gid ts max_markets =
     (if int (length ts) \<le> max_markets then [mk gid ts]
      else map (mk gid) (chunks (nat max_markets) ts))"

definition split_change :: "plan_change \<Rightarrow> int \<Rightarrow> plan_error + plan_change list" where
  "split_change change max_markets =
     (if max_markets < 1 then Inl (MaxMarkets max_markets)
      else case change of
        RemoveGroup gid \<Rightarrow> Inr [change]
      | AddGroup g \<Rightarrow>
          let ts = sorted_list_of_set (gr_tickers g) in
          if int (length ts) \<le> max_markets then Inr [change]
          else Inr (AddGroup (g\<lparr>gr_tickers := set (take (nat max_markets) ts)\<rparr>) #
                    split_markets AddMarkets (gr_group_id g) (drop (nat max_markets) ts) max_markets)
      | AddMarkets gid ts \<Rightarrow> Inr (split_markets AddMarkets gid ts max_markets)
      | RemoveMarkets gid ts \<Rightarrow> Inr (split_markets RemoveMarkets gid ts max_markets))"

datatype update_action = AddMarketsAction | DeleteMarketsAction | GetSnapshotAction

datatype ws_command =
    SubscribeCommand (sc_channels: "string list") (sc_market_tickers: "string list option")
      (sc_use_yes_price: "bool option") (sc_send_initial_snapshot: "bool option")
  | UpdateSubscriptionCommand (uc_sid: int) (uc_action: update_action) (uc_market_tickers: "string list")
  | UnsubscribeCommand (us_sids: "int list")

definition new_subscribe :: "string list \<Rightarrow> string list option \<Rightarrow> bool option \<Rightarrow> plan_error + ws_command" where
  "new_subscribe channels ts yes =
     (if channels = [] then Inl NoChannels else if ts = Some [] then Inl NoMarkets
      else Inr (SubscribeCommand channels ts yes None))"

definition new_update :: "int \<Rightarrow> update_action \<Rightarrow> string list \<Rightarrow> plan_error + ws_command" where
  "new_update sid action ts = (if ts = [] then Inl NoMarkets else Inr (UpdateSubscriptionCommand sid action ts))"

definition sids :: "(string, int list) dict \<Rightarrow> string \<Rightarrow> plan_error + int list" where
  "sids sid_of gid =
     (let found = sort (remdups (dict_get_or sid_of gid [])) in
      if found = [] then Inl (NoSid gid) else Inr found)"

definition change_commands ::
  "string list \<Rightarrow> bool option \<Rightarrow> (string, int list) dict \<Rightarrow> plan_change \<Rightarrow> plan_error + ws_command list" where
  "change_commands channels yes sid_of change =
     (case change of
        AddGroup g \<Rightarrow> result_bind (new_subscribe channels (Some (sorted_list_of_set (gr_tickers g))) yes) (\<lambda>c. Inr [c])
      | RemoveGroup gid \<Rightarrow> result_bind (sids sid_of gid) (\<lambda>ss. Inr [UnsubscribeCommand ss])
      | AddMarkets gid ts \<Rightarrow> result_bind (sids sid_of gid) (result_list (\<lambda>sid. new_update sid AddMarketsAction ts))
      | RemoveMarkets gid ts \<Rightarrow> result_bind (sids sid_of gid) (result_list (\<lambda>sid. new_update sid DeleteMarketsAction ts)))"

definition to_commands ::
  "plan_change list \<Rightarrow> string list \<Rightarrow> bool option \<Rightarrow> (string, int list) dict \<Rightarrow> plan_error + ws_command list" where
  "to_commands changes channels yes sid_of =
     (if channels = [] then Inl NoChannels
      else result_bind (result_list (change_commands channels yes sid_of) changes) (\<lambda>cs. Inr (concat cs)))"

section \<open>Well-formed plans\<close>

definition wf_group :: "group \<Rightarrow> bool" where
  "wf_group g \<longleftrightarrow> finite (gr_tickers g) \<and> gr_tickers g \<noteq> {} \<and> 0 \<le> gr_conn_id g"

definition disjoint_groups :: "group list \<Rightarrow> bool" where
  "disjoint_groups gs \<longleftrightarrow> sorted_wrt (\<lambda>g h. gr_tickers g \<inter> gr_tickers h = {}) gs"

definition canonical :: "group list \<Rightarrow> bool" where
  "canonical gs \<longleftrightarrow> sorted_wrt (<) (map gr_conn_id gs) \<and> distinct (map gr_group_id gs) \<and> disjoint_groups gs"

definition wf_plan :: "conn_plan \<Rightarrow> bool" where
  "wf_plan p \<longleftrightarrow> list_all wf_group (pl_groups p) \<and> canonical (pl_groups p)"

definition within :: "int \<Rightarrow> int \<Rightarrow> conn_plan \<Rightarrow> bool" where
  "within cap n p \<longleftrightarrow> list_all (\<lambda>g. gr_conn_id g < n \<and> int (card (gr_tickers g)) \<le> cap) (pl_groups p)"

lemma length_remdups_iff: "length (remdups xs) = length xs \<longleftrightarrow> distinct xs"
  by (metis distinct_remdups distinct_remdups_id length_remdups_eq)

lemma sort_same_iff: "sort xs = xs \<longleftrightarrow> sorted xs"
  by (metis sorted_sort sorted_sort_id)

lemma claim_tickers_spec:
  "(\<exists>o'. claim_tickers gid ts owner = Inr o') \<longleftrightarrow>
     (\<forall>t\<in>set ts. dict_get owner t = None \<or> dict_get owner t = Some gid)"
  by (induction ts arbitrary: owner) (auto simp: dict_simps split: option.splits)

lemma claim_tickers_result:
  "claim_tickers gid ts owner = Inr o' \<Longrightarrow>
   dict_get o' t = (if t \<in> set ts then Some gid else dict_get owner t)"
  by (induction ts arbitrary: owner) (auto simp: dict_simps split: option.splits if_splits)

lemma claim_groups_spec:
  assumes "list_all (\<lambda>g. finite (gr_tickers g)) gs" "distinct (map gr_group_id gs)"
    "\<forall>t g. dict_get owner t = Some g \<longrightarrow> g \<notin> gr_group_id ` set gs"
  shows "(\<exists>o'. claim_groups gs owner = Inr o') \<longleftrightarrow>
     disjoint_groups gs \<and> (\<forall>g\<in>set gs. gr_tickers g \<inter> dom (dict_get owner) = {})"
  using assms
proof (induction gs arbitrary: owner)
  case Nil
  then show ?case by (simp add: disjoint_groups_def)
next
  case (Cons g gs)
  let ?ts = "sorted_list_of_set (gr_tickers g)"
  have ts: "set ?ts = gr_tickers g" using Cons.prems by simp
  show ?case
  proof (cases "claim_tickers (gr_group_id g) ?ts owner")
    case (Inl e)
    then have "\<exists>t\<in>gr_tickers g. dict_get owner t \<noteq> None"
      using claim_tickers_spec [of "gr_group_id g" ?ts owner] ts by auto
    with Inl show ?thesis by auto
  next
    case (Inr o1)
    have "\<And>t. t \<in> gr_tickers g \<Longrightarrow> dict_get owner t = None \<or> dict_get owner t = Some (gr_group_id g)"
      using claim_tickers_spec [of "gr_group_id g" ?ts owner] Inr ts by auto
    then have free: "gr_tickers g \<inter> dom (dict_get owner) = {}"
      using Cons.prems(3) by fastforce
    have o1: "dict_get o1 t = (if t \<in> gr_tickers g then Some (gr_group_id g) else dict_get owner t)" for t
      using claim_tickers_result [OF Inr] ts by simp
    have dom: "dom (dict_get o1) = gr_tickers g \<union> dom (dict_get owner)"
      using o1 by (auto simp: dom_def split: if_splits)
    have "\<forall>t h. dict_get o1 t = Some h \<longrightarrow> h \<notin> gr_group_id ` set gs"
      using o1 Cons.prems(2,3) by (auto split: if_splits)
    then have "(\<exists>o'. claim_groups gs o1 = Inr o') \<longleftrightarrow>
        disjoint_groups gs \<and> (\<forall>h\<in>set gs. gr_tickers h \<inter> dom (dict_get o1) = {})"
      using Cons.IH [of o1] Cons.prems by simp
    moreover have "(\<forall>h\<in>set gs. gr_tickers h \<inter> dom (dict_get o1) = {}) \<longleftrightarrow>
        (\<forall>h\<in>set gs. gr_tickers g \<inter> gr_tickers h = {}) \<and> (\<forall>h\<in>set gs. gr_tickers h \<inter> dom (dict_get owner) = {})"
      unfolding dom by (simp add: Int_Un_distrib Int_commute ball_conj_distrib)
    ultimately show ?thesis using Inr free by (simp add: disjoint_groups_def) blast
  qed
qed

lemma new_plan_accepts:
  assumes "list_all (\<lambda>g. finite (gr_tickers g)) gs"
  shows "new_plan gs = Inr p \<longleftrightarrow> canonical gs \<and> p = \<lparr>pl_groups = gs\<rparr>"
proof -
  have order: "sorted_wrt (<) (map gr_conn_id gs) \<longleftrightarrow> sorted (map gr_conn_id gs) \<and> distinct (map gr_conn_id gs)"
    by (rule strict_sorted_iff)
  have claims: "distinct (map gr_group_id gs) \<Longrightarrow> (\<exists>o'. claim_groups gs [] = Inr o') \<longleftrightarrow> disjoint_groups gs"
    using claim_groups_spec [OF assms, of "[]"] by simp
  have keys: "map group_sort_key gs = map gr_conn_id gs" by (simp add: group_sort_key_def)
  show ?thesis
  proof (cases "sorted_wrt (<) (map gr_conn_id gs) \<and> distinct (map gr_group_id gs)")
    case True
    then have "new_plan gs = result_bind (claim_groups gs []) (\<lambda>_. Inr \<lparr>pl_groups = gs\<rparr>)"
      using order sort_same_iff [of "map gr_conn_id gs"] length_remdups_iff [of "map gr_conn_id gs"]
        length_remdups_iff [of "map gr_group_id gs"]
      by (simp add: new_plan_def Let_def keys del: length_remdups_eq)
    then show ?thesis using True claims by (auto simp: canonical_def result_simps)
  next
    case False
    then have "\<exists>e. new_plan gs = Inl e"
      using order sort_same_iff [of "map gr_conn_id gs"] length_remdups_iff [of "map gr_conn_id gs"]
        length_remdups_iff [of "map gr_group_id gs"]
      by (auto simp: new_plan_def Let_def keys simp del: length_remdups_eq)
    with False show ?thesis by (auto simp: canonical_def)
  qed
qed

lemma group_id_inject:
  assumes "0 \<le> c" "0 \<le> d" "group_id_of c = group_id_of d"
  shows "c = d"
proof -
  have "map digit_char (pad_digits 4 (nat c)) = map digit_char (pad_digits 4 (nat d))"
    using assms by (simp add: group_id_of_def zero_pad_show GROUP_ID_DIGITS_def)
  then have "pad_digits 4 (nat c) = pad_digits 4 (nat d)"
    by (metis digit_string_vals pad_digits_small)
  then show ?thesis using assms digits_to_nat_pad_digits by (metis eq_nat_nat_iff)
qed

section \<open>Carrying members over\<close>

lemma keep_first_cap: "1 \<le> cap \<Longrightarrow> keep_first cap xs = take (nat cap) xs"
  by (simp add: keep_first_def)

lemma carry_over_get:
  assumes "distinct (map gr_conn_id gs)"
  shows "dict_get (fold (\<lambda>g members.
         if n \<le> gr_conn_id g then members
         else let kept = kept_members g desired cap
              in if kept = [] then members else dict_put (gr_conn_id g) kept members) gs m) c =
     (case find (\<lambda>g. gr_conn_id g = c) gs of
        Some g \<Rightarrow> if n \<le> c \<or> kept_members g desired cap = [] then dict_get m c else Some (kept_members g desired cap)
      | None \<Rightarrow> dict_get m c)"
  using assms
proof (induction gs arbitrary: m)
  case Nil
  then show ?case by simp
next
  case (Cons g gs)
  have none: "find (\<lambda>h. gr_conn_id h = gr_conn_id g) gs = None"
    using Cons.prems by (auto simp: find_None_iff image_iff)
  show ?case
    using Cons none by (cases "gr_conn_id g = c") (auto simp: Let_def dict_simps split: option.splits)
qed

lemma carry_over_wf: "dict_wf (carry_over p desired cap n)"
proof -
  have "dict_wf m \<Longrightarrow> dict_wf (fold (\<lambda>g members.
         if n \<le> gr_conn_id g then members
         else let kept = kept_members g desired cap
              in if kept = [] then members else dict_put (gr_conn_id g) kept members) gs m)" for m gs
    by (induction gs arbitrary: m) (auto simp: Let_def)
  then show ?thesis by (simp add: carry_over_def)
qed

definition members_of :: "(int, string list) dict \<Rightarrow> int \<Rightarrow> string list" where
  "members_of m c = dict_get_or m c []"

lemma members_of_put: "members_of (dict_put c xs m) d = (if d = c then xs else members_of m d)"
  by (simp add: members_of_def dict_simps)

section \<open>Dealing tickers out\<close>

text \<open>
  The state of the dealing loop: the heap holds exactly the connections with room, each with the
  number of its members, and no connection is over capacity.
\<close>

definition members_ok :: "int \<Rightarrow> int \<Rightarrow> (int, string list) dict \<Rightarrow> bool" where
  "members_ok cap n m \<longleftrightarrow> dict_wf m \<and>
     (\<forall>c xs. dict_get m c = Some xs \<longrightarrow> xs \<noteq> [] \<and> 0 \<le> c \<and> c < n \<and> int (length xs) \<le> cap)"

definition room_ok :: "int \<Rightarrow> int \<Rightarrow> (int \<times> int) list \<Rightarrow> (int, string list) dict \<Rightarrow> bool" where
  "room_ok cap n room m \<longleftrightarrow> members_ok cap n m \<and> sorted room \<and> distinct (map snd room) \<and>
     (\<forall>l c. (l, c) \<in> set room \<longleftrightarrow> 0 \<le> c \<and> c < n \<and> l = int (length (members_of m c)) \<and> l < cap)"

definition dealt_total :: "int \<Rightarrow> (int, string list) dict \<Rightarrow> string multiset" where
  "dealt_total n m = (\<Sum>c\<in>{0..<n}. mset (members_of m c))"

lemma members_ok_length: "members_ok cap n m \<Longrightarrow> 0 \<le> cap \<Longrightarrow> int (length (members_of m c)) \<le> cap"
  by (auto simp: members_ok_def members_of_def dict_get_or_def split: option.splits)

lemma members_ok_range: "members_ok cap n m \<Longrightarrow> members_of m c \<noteq> [] \<Longrightarrow> 0 \<le> c \<and> c < n"
  by (auto simp: members_ok_def members_of_def dict_get_or_def split: option.splits)

lemma members_of_get: "members_ok cap n m \<Longrightarrow>
    dict_get m c = (if members_of m c = [] then None else Some (members_of m c))"
  by (fastforce simp: members_ok_def members_of_def dict_get_or_def split: option.splits)

lemma room_step:
  assumes "room_ok cap n ((l, c) # room) m"
  shows "room_ok cap n (if l + 1 < cap then insort (l + 1, c) room else room)
           (dict_put c (members_of m c @ [t]) m)"
proof -
  let ?m = "dict_put c (members_of m c @ [t]) m"
  have lc: "0 \<le> c" "c < n" "l = int (length (members_of m c))" "l < cap"
    using assms by (auto simp: room_ok_def)
  have ok: "members_ok cap n ?m"
    using assms lc by (auto simp: room_ok_def members_ok_def dict_simps)
  have c: "c \<notin> snd ` set room" and d: "distinct (map snd room)" "sorted room"
    using assms by (simp_all add: room_ok_def)
  have old: "(k, e) \<in> set ((l, c) # room) \<longleftrightarrow> 0 \<le> e \<and> e < n \<and> k = int (length (members_of m e)) \<and> k < cap" for k e
    using assms by (simp add: room_ok_def)
  have mem: "(k, e) \<in> set room \<longleftrightarrow> e \<noteq> c \<and> 0 \<le> e \<and> e < n \<and> k = int (length (members_of m e)) \<and> k < cap" for k e
    using old [of k e] c by (cases "e = c") (auto simp: image_iff)
  show ?thesis
  proof (cases "l + 1 < cap")
    case True
    have "distinct (map snd (insort (l + 1, c) room))"
      using c d by (auto simp: distinct_map set_insort_key inj_on_def distinct_insort image_iff)
    then show ?thesis
      using True ok d lc mem by (auto simp: room_ok_def sorted_insort set_insort_key members_of_put)
  next
    case False
    then show ?thesis
      using ok d lc mem by (auto simp: room_ok_def members_of_put)
  qed
qed

lemma dealt_total_put:
  assumes "0 \<le> c" "c < n"
  shows "dealt_total n (dict_put c (members_of m c @ [t]) m) = dealt_total n m + {#t#}"
proof -
  have c: "c \<in> {0..<n}" using assms by simp
  have "(\<Sum>d\<in>{0..<n} - {c}. mset (members_of (dict_put c (members_of m c @ [t]) m) d)) =
        (\<Sum>d\<in>{0..<n} - {c}. mset (members_of m d))"
    by (rule sum.cong) (auto simp: members_of_put)
  then show ?thesis
    unfolding dealt_total_def by (simp add: sum.remove [OF _ c] members_of_put)
qed

lemma deal_result:
  assumes "room_ok cap n room m"
  shows "\<exists>k room'. k \<le> length ts \<and> (k = length ts \<or> room' = []) \<and> room_ok cap n room' (deal cap ts room m) \<and>
     dealt_total n (deal cap ts room m) = dealt_total n m + mset (take k ts) \<and>
     (\<forall>c. \<exists>zs. members_of (deal cap ts room m) c = members_of m c @ zs)"
  using assms
proof (induction ts arbitrary: room m)
  case Nil
  then show ?case by auto
next
  case (Cons t ts)
  show ?case
  proof (cases room)
    case Nil
    with Cons.prems show ?thesis by (intro exI [of _ 0] exI [of _ "[]"]) simp
  next
    case (Cons p rest)
    obtain l c where p: "p = (l, c)" by (cases p)
    let ?m = "dict_put c (members_of m c @ [t]) m"
    let ?room = "if l + 1 < cap then insort (l + 1, c) rest else rest"
    have c: "0 \<le> c" "c < n" using Cons.prems Cons p by (auto simp: room_ok_def)
    have eq: "deal cap (t # ts) room m = deal cap ts ?room ?m"
      by (simp add: Cons p heappush_def members_of_def)
    have "room_ok cap n ?room ?m" using room_step Cons.prems Cons p by blast
    from Cons.IH [OF this] obtain k room' where k: "k \<le> length ts" "k = length ts \<or> room' = []"
        "room_ok cap n room' (deal cap ts ?room ?m)"
        "dealt_total n (deal cap ts ?room ?m) = dealt_total n ?m + mset (take k ts)"
        "\<forall>d. \<exists>zs. members_of (deal cap ts ?room ?m) d = members_of ?m d @ zs"
      by blast
    have ext: "\<exists>zs. members_of (deal cap ts ?room ?m) d = members_of m d @ zs" for d
      using k(5) [rule_format, of d] by (auto simp: members_of_put split: if_splits)
    show ?thesis
      unfolding eq
      by (rule exI [of _ "Suc k"], rule exI [of _ room'])
        (use k ext dealt_total_put [OF c, of m t] in \<open>simp add: union_ac\<close>)
  qed
qed

lemma fill_room:
  assumes "members_ok cap n m"
  shows "room_ok cap n (heapify (map (\<lambda>c. (int (length (members_of m c)), c))
            (filter (\<lambda>c. int (length (members_of m c)) < cap) [0..n - 1]))) m"
proof -
  have "distinct (map snd (sort (map (\<lambda>c. (f c, c)) xs)))" if "distinct xs" for f :: "int \<Rightarrow> int" and xs
    using that by (auto simp: distinct_map inj_on_def)
  then show ?thesis using assms by (auto simp: room_ok_def heapify_def)
qed

text \<open>What filling achieves: everyone is placed, or every connection is full.\<close>

lemma fill_result:
  assumes "members_ok cap n m"
  obtains k where "k \<le> length ts" "members_ok cap n (fill m ts cap n)"
    "dealt_total n (fill m ts cap n) = dealt_total n m + mset (take k ts)"
    "k = length ts \<or> (\<forall>c. 0 \<le> c \<and> c < n \<longrightarrow> cap \<le> int (length (members_of (fill m ts cap n) c)))"
    "\<And>c. \<exists>zs. members_of (fill m ts cap n) c = members_of m c @ zs"
proof -
  obtain room where r: "room_ok cap n room m" "fill m ts cap n = deal cap ts room m"
    using fill_room [OF assms] by (simp add: fill_def Let_def members_of_def)
  from deal_result [OF r(1), of ts] obtain k room' where
      k: "k \<le> length ts" "k = length ts \<or> room' = []" "room_ok cap n room' (deal cap ts room m)"
        "dealt_total n (deal cap ts room m) = dealt_total n m + mset (take k ts)"
        "\<forall>c. \<exists>zs. members_of (deal cap ts room m) c = members_of m c @ zs"
    by blast
  have "room' = [] \<Longrightarrow> \<forall>c. 0 \<le> c \<and> c < n \<longrightarrow> cap \<le> int (length (members_of (deal cap ts room m) c))"
    using k(3) by (auto simp: room_ok_def not_less [symmetric])
  then show thesis using that [of k] k r(2) by (auto simp: room_ok_def)
qed

text \<open>Dealt from nothing, the connections differ in size by at most one.\<close>

definition level :: "int \<Rightarrow> (int, string list) dict \<Rightarrow> bool" where
  "level n m \<longleftrightarrow> (\<forall>c d. 0 \<le> c \<and> c < n \<and> 0 \<le> d \<and> d < n \<longrightarrow>
     length (members_of m c) \<le> length (members_of m d) + 1)"

lemma deal_level:
  assumes "room_ok cap n room m" "level n m" "0 \<le> cap"
  shows "level n (deal cap ts room m)"
  using assms
proof (induction ts arbitrary: room m)
  case Nil
  then show ?case by simp
next
  case (Cons t ts)
  show ?case
  proof (cases room)
    case Nil
    with Cons.prems show ?thesis by simp
  next
    case (Cons p rest)
    obtain l c where p: "p = (l, c)" by (cases p)
    let ?m = "dict_put c (members_of m c @ [t]) m"
    have lc: "0 \<le> c" "c < n" "l = int (length (members_of m c))" "l < cap"
      using Cons.prems Cons p by (auto simp: room_ok_def)
    have least: "length (members_of m c) \<le> length (members_of m d)" if "0 \<le> d" "d < n" for d
    proof (cases "int (length (members_of m d)) < cap")
      case True
      then have "(int (length (members_of m d)), d) \<in> set room"
        using Cons.prems(1) that by (simp add: room_ok_def)
      moreover have "sorted ((l, c) # rest)"
        using Cons.prems(1) Cons p by (simp only: room_ok_def)
      ultimately show ?thesis using lc(3) Cons p by (auto simp: less_eq_prod_def)
    next
      case False
      with lc show ?thesis by simp
    qed
    have "level n ?m"
      using Cons.prems(2) least by (auto simp: level_def members_of_put intro: le_SucI)
    then show ?thesis
      using Cons.IH [OF room_step [of cap n l c rest m t]] Cons.prems Cons p
      by (cases "l + 1 < cap") (simp_all add: heappush_def members_of_def)
  qed
qed

section \<open>From members to a plan\<close>

definition assigned :: "conn_plan \<Rightarrow> (string \<times> int) set" where
  "assigned p = (\<Union>g\<in>set (pl_groups p). (\<lambda>t. (t, gr_conn_id g)) ` gr_tickers g)"

definition group_of_members :: "int \<times> string list \<Rightarrow> group" where
  "group_of_members x = \<lparr>gr_group_id = group_id_of (fst x), gr_conn_id = fst x, gr_tickers = set (snd x)\<rparr>"

definition dealt_once :: "int \<Rightarrow> (int, string list) dict \<Rightarrow> bool" where
  "dealt_once n m \<longleftrightarrow> (\<forall>t. count (dealt_total n m) t \<le> 1)"

lemma dealt_total_mem: "t \<in># dealt_total n m \<longleftrightarrow> (\<exists>c. 0 \<le> c \<and> c < n \<and> t \<in> set (members_of m c))"
  by (auto simp: dealt_total_def set_mset_sum)

lemma dealt_once_disjoint:
  assumes "dealt_once n m" "0 \<le> c" "c < n" "0 \<le> d" "d < n" "c \<noteq> d"
  shows "set (members_of m c) \<inter> set (members_of m d) = {}"
proof (rule ccontr)
  assume "\<not> ?thesis"
  then obtain t where t: "t \<in># mset (members_of m c)" "t \<in># mset (members_of m d)" by auto
  have "dealt_total n m = mset (members_of m c) + mset (members_of m d) +
      (\<Sum>e\<in>{0..<n} - {c} - {d}. mset (members_of m e))"
    using assms(2-6) by (simp add: dealt_total_def sum.remove [of _ c] sum.remove [of _ d] add.assoc)
  moreover have "0 < count (mset (members_of m c)) t" "0 < count (mset (members_of m d)) t"
    using t by (simp_all only: count_greater_zero_iff)
  ultimately have "2 \<le> count (dealt_total n m) t"
    by (simp only: count_union)
  with assms(1) show False by (auto simp: dealt_once_def dest: spec [of _ t])
qed

lemma dealt_once_distinct:
  assumes "dealt_once n m" "0 \<le> c" "c < n"
  shows "distinct (members_of m c)"
proof -
  have "dealt_total n m = mset (members_of m c) + (\<Sum>e\<in>{0..<n} - {c}. mset (members_of m e))"
    using assms(2-3) by (simp add: dealt_total_def sum.remove [of _ c])
  then have "count (mset (members_of m c)) t \<le> 1" for t
    using assms(1) by (auto simp: dealt_once_def dest!: spec [of _ t])
  then show ?thesis
    by (metis distinct_count_atmost_1 le_0_eq le_eq_less_or_eq less_one not_in_iff set_mset_mset)
qed

lemma result_list_map:
  "(\<And>x. x \<in> set xs \<Longrightarrow> f x = Inr (g x)) \<Longrightarrow> result_list f xs = Inr (map g xs)"
  by (induction xs) auto

lemma members_groups:
  assumes "members_ok cap n m" "dealt_once n m" "1 \<le> cap"
  shows "result_bind (result_list (\<lambda>(c, kept). new_group (group_id_of c) c (set kept)) (sort_key fst m)) new_plan
      = Inr \<lparr>pl_groups = map group_of_members (sort_key fst m)\<rparr>"
    and "wf_plan \<lparr>pl_groups = map group_of_members (sort_key fst m)\<rparr>"
    and "within cap n \<lparr>pl_groups = map group_of_members (sort_key fst m)\<rparr>"
    and "assigned \<lparr>pl_groups = map group_of_members (sort_key fst m)\<rparr> = {(t, c). t \<in> set (members_of m c)}"
proof -
  let ?s = "sort_key fst m"
  let ?gs = "map group_of_members ?s"
  have wf: "dict_wf m" and item: "\<And>c xs. (c, xs) \<in> set m \<Longrightarrow> xs \<noteq> [] \<and> 0 \<le> c \<and> c < n \<and> int (length xs) \<le> cap"
    using assms(1) by (auto simp: members_ok_def dict_mem_get)
  have memb: "\<And>c xs. (c, xs) \<in> set m \<Longrightarrow> members_of m c = xs"
    using wf dict_mem_get by (fastforce simp: members_of_def dict_get_or_def)
  have keys: "sorted_wrt (<) (map fst ?s)"
    using wf by (simp add: strict_sorted_iff dict_wf_def distinct_map)
  have group: "new_group (group_id_of (fst x)) (fst x) (set (snd x)) = Inr (group_of_members x)"
      if "x \<in> set m" for x
    using item [of "fst x" "snd x"] that by (simp add: new_group_def group_of_members_def)
  have rl: "result_list (\<lambda>(c, kept). new_group (group_id_of c) c (set kept)) ?s = Inr ?gs"
    by (rule result_list_map) (use group in \<open>auto simp: split_beta\<close>)
  have conns: "map gr_conn_id ?gs = map fst ?s"
    by (simp add: group_of_members_def o_def)
  have ids: "map gr_group_id ?gs = map group_id_of (map fst ?s)"
    by (simp add: group_of_members_def o_def)
  have "inj_on group_id_of (fst ` set m)"
    using item group_id_inject by (fastforce simp: inj_on_def)
  then have dist: "distinct (map gr_group_id ?gs)"
    unfolding ids using keys by (simp add: distinct_map strict_sorted_iff comp_inj_on)
  have order: "sorted_wrt (\<lambda>x y. fst x < fst y) ?s" using keys by (simp add: sorted_wrt_map)
  have apart: "set (snd x) \<inter> set (snd y) = {}" if "x \<in> set ?s" "y \<in> set ?s" "fst x < fst y" for x y
  proof -
    obtain c xs d ys where xy: "x = (c, xs)" "y = (d, ys)" by fastforce
    then show ?thesis
      using dealt_once_disjoint [OF assms(2), of c d] item [of c xs] item [of d ys] memb [of c xs] memb [of d ys] that
      by simp
  qed
  have "sorted_wrt (\<lambda>x y. set (snd x) \<inter> set (snd y) = {}) ?s"
    by (rule sorted_wrt_mono_rel [OF apart order])
  then have "disjoint_groups ?gs"
    by (simp add: disjoint_groups_def sorted_wrt_map group_of_members_def)
  with keys dist have canon: "canonical ?gs" by (simp only: canonical_def conns)
  have fin: "list_all (\<lambda>g. finite (gr_tickers g)) ?gs"
    by (simp add: list_all_iff group_of_members_def)
  show "result_bind (result_list (\<lambda>(c, kept). new_group (group_id_of c) c (set kept)) ?s) new_plan
      = Inr \<lparr>pl_groups = ?gs\<rparr>"
    using rl new_plan_accepts [OF fin] canon by simp
  show "wf_plan \<lparr>pl_groups = ?gs\<rparr>"
    using canon item by (auto simp: wf_plan_def list_all_iff wf_group_def group_of_members_def)
  have "int (card (set xs)) \<le> cap" if "(c, xs) \<in> set m" for c xs
    using item [OF that] card_length [of xs] by linarith
  then show "within cap n \<lparr>pl_groups = ?gs\<rparr>"
    using item by (auto simp: within_def list_all_iff group_of_members_def)
  have "t \<in> set (members_of m c) \<longleftrightarrow> (\<exists>xs. (c, xs) \<in> set m \<and> t \<in> set xs)" for t c
  proof
    assume t: "t \<in> set (members_of m c)"
    then have "dict_get m c = Some (members_of m c)"
      using members_of_get [OF assms(1), of c] by auto
    with t show "\<exists>xs. (c, xs) \<in> set m \<and> t \<in> set xs" using dict_get_SomeD by fast
  qed (use memb in auto)
  moreover have "assigned \<lparr>pl_groups = ?gs\<rparr> = {(t, c). \<exists>xs. (c, xs) \<in> set m \<and> t \<in> set xs}"
    by (force simp: assigned_def group_of_members_def)
  ultimately show "assigned \<lparr>pl_groups = ?gs\<rparr> = {(t, c). t \<in> set (members_of m c)}"
    by simp
qed

section \<open>The plan\<close>

lemma find_key: "distinct (map f xs) \<Longrightarrow> x \<in> set xs \<Longrightarrow> find (\<lambda>y. f y = f x) xs = Some x"
  by (induction xs) (auto simp: image_iff)

lemma carry_over_members:
  assumes "wf_plan p" "1 \<le> cap"
  shows "members_ok cap n (carry_over p desired cap n)"
    and "g \<in> set (pl_groups p) \<Longrightarrow> gr_conn_id g < n \<Longrightarrow>
      members_of (carry_over p desired cap n) (gr_conn_id g) = kept_members g desired cap"
    and "members_of (carry_over p desired cap n) c \<noteq> [] \<Longrightarrow>
      \<exists>g\<in>set (pl_groups p). gr_conn_id g = c \<and> members_of (carry_over p desired cap n) c = kept_members g desired cap"
proof -
  let ?gs = "pl_groups p" and ?m = "carry_over p desired cap n"
  have wf: "list_all wf_group ?gs" "distinct (map gr_conn_id ?gs)"
    using assms(1) by (auto simp: wf_plan_def canonical_def strict_sorted_iff)
  have get: "dict_get ?m c = (case find (\<lambda>g. gr_conn_id g = c) ?gs of
        Some g \<Rightarrow> if n \<le> c \<or> kept_members g desired cap = [] then None else Some (kept_members g desired cap)
      | None \<Rightarrow> None)" for c
    unfolding carry_over_def using carry_over_get [OF wf(2), of n desired cap "[]" c]
    by (simp split: option.splits)
  have len: "int (length (kept_members h desired cap)) \<le> cap" for h
    using assms(2) by (simp add: kept_members_def keep_first_cap)
  show "members_ok cap n ?m"
    using carry_over_wf get len wf(1)
    by (auto simp: members_ok_def list_all_iff wf_group_def find_Some_iff split: option.splits if_splits)
  have mem: "members_of ?m c = (case find (\<lambda>g. gr_conn_id g = c) ?gs of
        Some g \<Rightarrow> if n \<le> c then [] else kept_members g desired cap | None \<Rightarrow> [])" for c
    by (simp add: members_of_def dict_get_or_def get split: option.splits)
  show "members_of ?m (gr_conn_id g) = kept_members g desired cap"
    if "g \<in> set ?gs" "gr_conn_id g < n" 
    using find_key [OF wf(2) that(1)] that(2) by (simp add: mem)
  show "\<exists>g\<in>set ?gs. gr_conn_id g = c \<and> members_of ?m c = kept_members g desired cap" if "members_of ?m c \<noteq> []"
  proof -
    from that obtain g where "find (\<lambda>g. gr_conn_id g = c) ?gs = Some g" "members_of ?m c = kept_members g desired cap"
      by (auto simp: mem split: option.splits if_splits)
    moreover from this(1) have "g \<in> set ?gs" "gr_conn_id g = c" by (auto simp: find_Some_iff)
    ultimately show ?thesis by blast
  qed
qed

lemma sum_mset_blocks:
  "finite J \<Longrightarrow> \<forall>c\<in>J. finite (block c) \<Longrightarrow> pairwise (\<lambda>c d. disjnt (block c) (block d)) J \<Longrightarrow>
   sum (mset_set \<circ> block) J = mset_set (\<Union> (block ` J))"
proof (induct J rule: finite_induct)
  case (insert c J)
  then have "disjnt (block c) (\<Union> (block ` J))" by (auto simp: pairwise_insert)
  then have "block c \<inter> \<Union> (block ` J) = {}" by (simp only: disjnt_def)
  with insert show ?case by (simp add: pairwise_insert mset_set_Union)
qed simp

lemma total_of_disjoint:
  assumes "\<And>c. distinct (members_of m c)"
    "\<And>c d. c \<noteq> d \<Longrightarrow> set (members_of m c) \<inter> set (members_of m d) = {}"
  shows "dealt_total n m = mset_set (\<Union>c\<in>{0..<n}. set (members_of m c))"
proof -
  have "dealt_total n m = (\<Sum>c\<in>{0..<n}. mset_set (set (members_of m c)))"
    using assms(1) by (simp add: dealt_total_def mset_set_set)
  also have "\<dots> = mset_set (\<Union>c\<in>{0..<n}. set (members_of m c))"
    using sum_mset_blocks [of "{0..<n}" "set \<circ> members_of m"] assms(2)
    by (simp add: pairwise_def disjnt_def comp_def)
  finally show ?thesis .
qed

lemma kept_members_set:
  "1 \<le> cap \<Longrightarrow> finite (gr_tickers g) \<Longrightarrow> set (kept_members g desired cap) \<subseteq> gr_tickers g \<inter> desired"
  "distinct (kept_members g desired cap)"
  by (auto simp: kept_members_def keep_first_def dest: in_set_takeD)

lemma disjoint_groups_mem:
  assumes "canonical gs" "g \<in> set gs" "h \<in> set gs" "gr_conn_id g \<noteq> gr_conn_id h"
  shows "gr_tickers g \<inter> gr_tickers h = {}"
  using assms
  by (induction gs) (auto simp: canonical_def disjoint_groups_def)

lemma placed_members:
  assumes "members_ok cap n m"
  shows "\<Union> (set ` snd ` set m) = (\<Union>c\<in>{0..<n}. set (members_of m c))"
proof -
  have "xs = members_of m c \<and> 0 \<le> c \<and> c < n" if "(c, xs) \<in> set m" for c xs
    using that assms by (auto simp: members_ok_def dict_mem_get members_of_def dict_get_or_def)
  moreover have "\<exists>xs. (c, xs) \<in> set m \<and> t \<in> set xs" if "t \<in> set (members_of m c)" for t c
  proof -
    have "dict_get m c = Some (members_of m c)"
      using that members_of_get [OF assms, of c] by auto
    with that show ?thesis using dict_get_SomeD by fast
  qed
  ultimately show ?thesis by (fastforce simp: image_iff)
qed

lemma carry_over_total:
  assumes "wf_plan p" "1 \<le> cap" and m_def: "m = carry_over p desired cap n"
  shows "dealt_total n m = mset_set (\<Union> (set ` snd ` set m))" "\<Union> (set ` snd ` set m) \<subseteq> desired"
proof -
  have mem: "\<And>c. members_of m c \<noteq> [] \<Longrightarrow>
      \<exists>g\<in>set (pl_groups p). gr_conn_id g = c \<and> members_of m c = kept_members g desired cap"
    unfolding m_def by (rule carry_over_members [OF assms(1,2)])
  have fin: "\<And>g. g \<in> set (pl_groups p) \<Longrightarrow> finite (gr_tickers g)"
    using assms(1) by (simp add: wf_plan_def wf_group_def list_all_iff)
  have "distinct (members_of m c)" for c
  proof (cases "members_of m c = []")
    case False
    then show ?thesis using mem [of c] kept_members_set(2) by metis
  qed simp
  moreover have "set (members_of m c) \<inter> set (members_of m d) = {}" if "c \<noteq> d" for c d
  proof (cases "members_of m c = [] \<or> members_of m d = []")
    case True
    then show ?thesis by auto
  next
    case False
    then obtain g h where gh: "g \<in> set (pl_groups p)" "gr_conn_id g = c" "members_of m c = kept_members g desired cap"
        "h \<in> set (pl_groups p)" "gr_conn_id h = d" "members_of m d = kept_members h desired cap"
      using mem by metis
    have "gr_tickers g \<inter> gr_tickers h = {}"
      using disjoint_groups_mem [of "pl_groups p" g h] assms(1) gh that by (simp add: wf_plan_def)
    then show ?thesis
      using kept_members_set(1) [OF assms(2) fin [OF gh(1)], of desired]
        kept_members_set(1) [OF assms(2) fin [OF gh(4)], of desired] unfolding gh(3,6) by blast
  qed
  ultimately have "dealt_total n m = mset_set (\<Union>c\<in>{0..<n}. set (members_of m c))"
    by (rule total_of_disjoint)
  moreover have placed: "\<Union> (set ` snd ` set m) = (\<Union>c\<in>{0..<n}. set (members_of m c))"
    using placed_members carry_over_members(1) [OF assms(1,2)] unfolding m_def .
  ultimately show "dealt_total n m = mset_set (\<Union> (set ` snd ` set m))" by simp
  have "set (members_of m c) \<subseteq> desired" for c
  proof (cases "members_of m c = []")
    case False
    then obtain g where g: "g \<in> set (pl_groups p)" "members_of m c = kept_members g desired cap"
      using mem [of c] by blast
    then show ?thesis using kept_members_set(1) [OF assms(2) fin [OF g(1)], of desired] by simp
  qed simp
  then show "\<Union> (set ` snd ` set m) \<subseteq> desired" unfolding placed by blast
qed

lemma size_total: "size (dealt_total n m) = (\<Sum>c\<in>{0..<n}. length (members_of m c))"
  by (simp add: dealt_total_def size_multiset_sum)

lemma plan_result:
  assumes "1 \<le> cap" "1 \<le> n" "\<And>q. previous = Some q \<Longrightarrow> wf_plan q"
  obtains p where "plan ts cap n previous = Inr p" "wf_plan p" "within cap n p" "plan_tickers p \<subseteq> set ts"
    "int (card (plan_tickers p)) = min (int (card (set ts))) (cap * n)"
    "\<And>q g t. previous = Some q \<Longrightarrow> g \<in> set (pl_groups q) \<Longrightarrow> gr_conn_id g < n \<Longrightarrow>
       t \<in> set (kept_members g (set ts) cap) \<Longrightarrow> (t, gr_conn_id g) \<in> assigned p"
    "\<And>t. t \<in> plan_tickers p \<longleftrightarrow> (\<exists>c. 0 \<le> c \<and> c < n \<and> (t, c) \<in> assigned p)"
proof -
  define m where "m = (case previous of None \<Rightarrow> [] | Some p \<Rightarrow> carry_over p (set ts) cap n)"
  define placed where "placed = \<Union> (set ` snd ` set m)"
  define us where "us = sorted_list_of_set (set ts - placed)"
  define m' where "m' = fill m us cap n"
  let ?p = "\<lparr>pl_groups = map group_of_members (sort_key fst m')\<rparr>"
  have m: "members_ok cap n m" "dealt_total n m = mset_set placed" "placed \<subseteq> set ts"
    using carry_over_members(1) [OF assms(3) assms(1)] carry_over_total [OF assms(3) assms(1) refl]
    by (cases previous; simp add: m_def placed_def members_ok_def dealt_total_def members_of_def dict_get_or_def)+
  have fin: "finite placed" using m(3) finite_subset by blast
  obtain k where k: "k \<le> length us" "members_ok cap n m'"
      "dealt_total n m' = dealt_total n m + mset (take k us)"
      "k = length us \<or> (\<forall>c. 0 \<le> c \<and> c < n \<longrightarrow> cap \<le> int (length (members_of m' c)))"
      "\<And>c. \<exists>zs. members_of m' c = members_of m c @ zs"
    using fill_result [OF m(1), of us] unfolding m'_def by blast
  have us: "set us = set ts - placed" "distinct us" by (simp_all add: us_def)
  have tk: "set (take k us) \<subseteq> set ts - placed" using us(1) set_take_subset by metis
  have total: "dealt_total n m' = mset_set (placed \<union> set (take k us))"
    using tk fin us(2) by (subst mset_set_Union) (auto simp: k(3) m(2) mset_set_set)
  have once: "dealt_once n m'"
    by (simp add: dealt_once_def total count_mset_set')
  note g = members_groups [OF k(2) once assms(1)]
  have plan: "plan ts cap n previous = Inr ?p"
    unfolding plan_def Let_def m_def [symmetric] placed_def [symmetric] us_def [symmetric] m'_def [symmetric] g(1)
    using assms(1,2) by simp
  have tick: "plan_tickers ?p = placed \<union> set (take k us)"
  proof -
    have "plan_tickers ?p = {t. \<exists>c. (t, c) \<in> assigned ?p}"
      by (auto simp: plan_tickers_def assigned_def)
    also have "\<dots> = set_mset (dealt_total n m')"
    proof -
      have "0 \<le> c \<and> c < n" if "t \<in> set (members_of m' c)" for t c
        using members_ok_range [OF k(2), of c] that by (cases "members_of m' c") simp_all
      then show ?thesis unfolding g(4) by (fastforce simp: dealt_total_mem)
    qed
    finally show ?thesis using fin by (simp add: total)
  qed
  have card: "card (plan_tickers ?p) = (\<Sum>c\<in>{0..<n}. length (members_of m' c))"
    using total size_total [of n m'] by (simp add: tick)
  have le: "int (length (members_of m' c)) \<le> cap" for c
    using members_ok_length [OF k(2)] assms(1) by simp
  have cardle: "int (card (plan_tickers ?p)) \<le> cap * n"
    using sum_bounded_above [of "{0..<n}" "\<lambda>c. int (length (members_of m' c))" cap] le assms(2)
    by (simp add: card mult.commute)
  have sub: "plan_tickers ?p \<subseteq> set ts" using m(3) tk by (auto simp: tick)
  then have csub: "card (plan_tickers ?p) \<le> card (set ts)" by (simp add: card_mono)
  have "int (card (plan_tickers ?p)) = min (int (card (set ts))) (cap * n)"
  proof (cases "k = length us")
    case True
    then have "plan_tickers ?p = set ts" using us(1) m(3) by (auto simp: tick)
    with cardle show ?thesis by simp
  next
    case False
    with k(4) have "cap \<le> int (length (members_of m' c))" if "c \<in> {0..<n}" for c using that by simp
    then have "cap * n \<le> int (card (plan_tickers ?p))"
      using sum_bounded_below [of "{0..<n}" cap "\<lambda>c. int (length (members_of m' c))"] assms(2)
      by (simp add: card mult.commute)
    with cardle csub show ?thesis by simp
  qed
  moreover have "(t, gr_conn_id h) \<in> assigned ?p"
    if "previous = Some q" "h \<in> set (pl_groups q)" "gr_conn_id h < n" "t \<in> set (kept_members h (set ts) cap)" for q h t
  proof -
    have "members_of m (gr_conn_id h) = kept_members h (set ts) cap"
      using carry_over_members(2) [OF assms(3) [OF that(1)] assms(1) that(2,3)] that(1) by (simp add: m_def)
    then show ?thesis using that(4) k(5) [of "gr_conn_id h"] unfolding g(4) by auto
  qed
  moreover have "t \<in> plan_tickers ?p \<longleftrightarrow> (\<exists>c. 0 \<le> c \<and> c < n \<and> (t, c) \<in> assigned ?p)" for t
    using g(2,3) by (auto simp: plan_tickers_def assigned_def wf_plan_def within_def wf_group_def list_all_iff)
  ultimately show thesis using that [OF plan g(2,3) sub] by blast
qed

lemma kept_card:
  assumes "1 \<le> cap" "finite (gr_tickers g)"
  shows "card (set (kept_members g desired cap)) = min (nat cap) (card (gr_tickers g \<inter> desired))"
proof -
  have "card (set (kept_members g desired cap)) = length (kept_members g desired cap)"
    by (rule distinct_card) (rule kept_members_set(2))
  then show ?thesis using assms by (simp add: kept_members_def keep_first_cap min.commute)
qed

lemma assigned_conn:
  assumes "wf_plan p" "within cap n p" "1 \<le> cap" "finite A" "A \<subseteq> {t. (t, c) \<in> assigned p}"
  shows "card A \<le> (if c < n then nat cap else 0)"
proof (cases "\<exists>g\<in>set (pl_groups p). gr_conn_id g = c")
  case True
  then obtain g where g: "g \<in> set (pl_groups p)" "gr_conn_id g = c" by blast
  have "distinct (map gr_conn_id (pl_groups p))"
    using assms(1) by (simp add: wf_plan_def canonical_def strict_sorted_iff)
  then have "{t. (t, c) \<in> assigned p} \<subseteq> gr_tickers g"
    using g by (auto simp: assigned_def distinct_map dest: inj_onD)
  then have "card A \<le> card (gr_tickers g)"
    using assms(1,5) g by (intro card_mono) (auto simp: wf_plan_def wf_group_def list_all_iff)
  moreover have "int (card (gr_tickers g)) \<le> cap" "c < n"
    using assms(2) g by (auto simp: within_def list_all_iff)
  ultimately show ?thesis by simp
next
  case False
  then have "A = {}" using assms(5) by (auto simp: assigned_def)
  then show ?thesis by simp
qed

lemma fewest_moves:
  assumes "1 \<le> cap" "1 \<le> n" "wf_plan q" "plan ts cap n (Some q) = Inr p"
    and "wf_plan r" "within cap n r" "plan_tickers r \<subseteq> set ts"
  shows "card (assigned q \<inter> assigned r) \<le> card (assigned q \<inter> assigned p)"
proof -
  obtain p' where "plan ts cap n (Some q) = Inr p'"
    and kept: "\<And>g t. g \<in> set (pl_groups q) \<Longrightarrow> gr_conn_id g < n \<Longrightarrow>
       t \<in> set (kept_members g (set ts) cap) \<Longrightarrow> (t, gr_conn_id g) \<in> assigned p'"
    by (rule plan_result [OF assms(1,2), of "Some q" ts]) (use assms(3) in auto)
  then have keep: "\<And>g t. g \<in> set (pl_groups q) \<Longrightarrow> gr_conn_id g < n \<Longrightarrow>
       t \<in> set (kept_members g (set ts) cap) \<Longrightarrow> (t, gr_conn_id g) \<in> assigned p"
    using assms(4) by simp
  let ?gs = "set (pl_groups q)"
  let ?R = "\<lambda>g. {t \<in> gr_tickers g. (t, gr_conn_id g) \<in> assigned r}"
  let ?K = "\<lambda>g. if gr_conn_id g < n then set (kept_members g (set ts) cap) else {}"
  have fin: "finite (gr_tickers g)" if "g \<in> ?gs" for g
    using assms(3) that by (simp add: wf_plan_def wf_group_def list_all_iff)
  have conn: "gr_conn_id g \<noteq> gr_conn_id h" if "g \<in> ?gs" "h \<in> ?gs" "g \<noteq> h" for g h
    using assms(3) that by (auto simp: wf_plan_def canonical_def strict_sorted_iff distinct_map dest: inj_onD)
  have rk: "card (?R g) \<le> card (?K g)" if "g \<in> ?gs" for g
  proof -
    have "card (?R g) \<le> (if gr_conn_id g < n then nat cap else 0)"
      by (rule assigned_conn [OF assms(5,6,1)]) (use fin [OF that] in auto)
    moreover have "?R g \<subseteq> gr_tickers g \<inter> set ts"
      using assms(7) by (auto simp: plan_tickers_def assigned_def)
    then have "card (?R g) \<le> card (gr_tickers g \<inter> set ts)"
      using fin [OF that] by (intro card_mono) auto
    ultimately show ?thesis using kept_card [OF assms(1) fin [OF that], of "set ts"]
      by (cases "gr_conn_id g < n") (simp_all del: card_eq_0_iff)
  qed
  have "assigned q \<inter> assigned r \<subseteq> (\<Union>g\<in>?gs. (\<lambda>t. (t, gr_conn_id g)) ` ?R g)"
    by (auto simp: assigned_def)
  then have "card (assigned q \<inter> assigned r) \<le> card (\<Union>g\<in>?gs. (\<lambda>t. (t, gr_conn_id g)) ` ?R g)"
    using fin by (intro card_mono) auto
  also have "\<dots> \<le> (\<Sum>g\<in>?gs. card ((\<lambda>t. (t, gr_conn_id g)) ` ?R g))"
    by (rule card_UN_le) simp
  also have "\<dots> = (\<Sum>g\<in>?gs. card (?R g))"
    by (simp add: card_image inj_on_def)
  also have "\<dots> \<le> (\<Sum>g\<in>?gs. card (?K g))"
    by (rule sum_mono) (rule rk)
  also have "\<dots> = (\<Sum>g\<in>?gs. card ((\<lambda>t. (t, gr_conn_id g)) ` ?K g))"
    by (simp add: card_image inj_on_def)
  also have "\<dots> = card (\<Union>g\<in>?gs. (\<lambda>t. (t, gr_conn_id g)) ` ?K g)"
    by (rule card_UN_disjoint [symmetric]) (use conn in auto)
  also have "\<dots> \<le> card (assigned q \<inter> assigned p)"
  proof (rule card_mono)
    show "finite (assigned q \<inter> assigned p)" using fin by (auto simp: assigned_def)
    show "(\<Union>g\<in>?gs. (\<lambda>t. (t, gr_conn_id g)) ` ?K g) \<subseteq> assigned q \<inter> assigned p"
    proof
      fix x assume "x \<in> (\<Union>g\<in>?gs. (\<lambda>t. (t, gr_conn_id g)) ` ?K g)"
      then obtain g t where g: "g \<in> ?gs" "gr_conn_id g < n" "t \<in> set (kept_members g (set ts) cap)"
          "x = (t, gr_conn_id g)" by (auto split: if_splits)
      then have "t \<in> gr_tickers g" using kept_members_set(1) [OF assms(1) fin [OF g(1)]] by blast
      then show "x \<in> assigned q \<inter> assigned p" using keep [OF g(1-3)] g by (auto simp: assigned_def)
    qed
  qed
  finally show ?thesis .
qed

section \<open>What a change does to the subscriptions\<close>

text \<open>
  The subscriptions the recorder holds: for each group id the connection and the markets. A
  change is only meaningful on subscriptions it applies to, and every state on the way must
  respect the limits: no empty or oversized group, one group per connection, no market twice.
\<close>

type_synonym subs = "string \<Rightarrow> (int \<times> string set) option"

definition subs_of :: "conn_plan \<Rightarrow> subs" where
  "subs_of p = map_of (map (\<lambda>g. (gr_group_id g, (gr_conn_id g, gr_tickers g))) (pl_groups p))"

definition legal :: "int \<Rightarrow> subs \<Rightarrow> bool" where
  "legal cap s \<longleftrightarrow>
     (\<forall>g c ts. s g = Some (c, ts) \<longrightarrow> finite ts \<and> ts \<noteq> {} \<and> int (card ts) \<le> cap) \<and>
     (\<forall>g h c d ts us. g \<noteq> h \<and> s g = Some (c, ts) \<and> s h = Some (d, us) \<longrightarrow> c \<noteq> d \<and> ts \<inter> us = {})"

fun apply_change :: "plan_change \<Rightarrow> subs \<Rightarrow> subs option" where
  "apply_change (AddGroup g) s =
     (case s (gr_group_id g) of None \<Rightarrow> Some (s(gr_group_id g \<mapsto> (gr_conn_id g, gr_tickers g))) | Some _ \<Rightarrow> None)"
| "apply_change (RemoveGroup gid) s =
     (case s gid of None \<Rightarrow> None | Some _ \<Rightarrow> Some (s(gid := None)))"
| "apply_change (AddMarkets gid ts) s =
     (case s gid of None \<Rightarrow> None
      | Some (c, old) \<Rightarrow> if ts = [] \<or> \<not> distinct ts \<or> set ts \<inter> old \<noteq> {} then None
                       else Some (s(gid \<mapsto> (c, old \<union> set ts))))"
| "apply_change (RemoveMarkets gid ts) s =
     (case s gid of None \<Rightarrow> None
      | Some (c, old) \<Rightarrow> if ts = [] \<or> \<not> distinct ts \<or> \<not> set ts \<subseteq> old then None
                       else Some (s(gid \<mapsto> (c, old - set ts))))"

fun run_changes :: "int \<Rightarrow> plan_change list \<Rightarrow> subs \<Rightarrow> subs option" where
  "run_changes cap [] s = Some s"
| "run_changes cap (c # cs) s =
     (case apply_change c s of None \<Rightarrow> None
      | Some s' \<Rightarrow> if legal cap s' then run_changes cap cs s' else None)"

lemma run_changes_append:
  "run_changes cap (xs @ ys) s = (case run_changes cap xs s of None \<Rightarrow> None | Some s' \<Rightarrow> run_changes cap ys s')"
  by (induction xs arbitrary: s) (auto split: option.splits)

definition below :: "subs \<Rightarrow> subs \<Rightarrow> bool" where
  "below s w \<longleftrightarrow> (\<forall>g c ts. s g = Some (c, ts) \<longrightarrow> ts \<noteq> {} \<and> (\<exists>us. w g = Some (c, us) \<and> ts \<subseteq> us))"

lemma legal_below:
  assumes "legal cap w" "below s w"
  shows "legal cap s"
proof -
  have part: "\<exists>us. w g = Some (c, us) \<and> ts \<subseteq> us \<and> finite us \<and> int (card us) \<le> cap"
    if "s g = Some (c, ts)" for g c ts
    using assms that unfolding below_def legal_def by metis
  show ?thesis
    unfolding legal_def
  proof (intro conjI allI impI)
    fix g c ts assume "s g = Some (c, ts)"
    with part obtain us where us: "ts \<subseteq> us" "finite us" "int (card us) \<le> cap" by metis
    show "finite ts" using us finite_subset by blast
    show "int (card ts) \<le> cap" using us card_mono [of us ts] by linarith
    show "ts \<noteq> {}" using assms(2) \<open>s g = Some (c, ts)\<close> by (auto simp: below_def)
  next
    fix g h c d ts us assume "g \<noteq> h \<and> s g = Some (c, ts) \<and> s h = Some (d, us)"
    then obtain ts' us' where "w g = Some (c, ts')" "ts \<subseteq> ts'" "w h = Some (d, us')" "us \<subseteq> us'" "g \<noteq> h"
      using part by metis
    then show "c \<noteq> d" "ts \<inter> us = {}" using assms(1) unfolding legal_def by (metis, blast)
  qed
qed

text \<open>A phase: each group id of a list is moved from its entry in \<open>a\<close> to its entry in \<open>b\<close>.\<close>

definition moves :: "(string \<Rightarrow> plan_change list) \<Rightarrow> string \<Rightarrow> subs \<Rightarrow> subs \<Rightarrow> bool" where
  "moves f gid a b \<longleftrightarrow> (f gid = [] \<and> b gid = a gid) \<or>
     (\<exists>c. f gid = [c] \<and> (\<forall>s. s gid = a gid \<longrightarrow> apply_change c s = Some (s(gid := b gid))))"

lemma run_phase:
  assumes "legal cap w" "below a w" "below b w" "distinct ids" "\<And>gid. gid \<in> set ids \<Longrightarrow> moves f gid a b"
  shows "run_changes cap (concat (map f ids)) a = Some (\<lambda>gid. if gid \<in> set ids then b gid else a gid)"
  using assms(2,4,5)
proof (induction ids arbitrary: a)
  case Nil
  then show ?case by simp
next
  case (Cons gid ids)
  let ?a = "a(gid := b gid)"
  have below: "below ?a w" using Cons.prems(1) assms(3) by (auto simp: below_def)
  have steps: "moves f i ?a b" if "i \<in> set ids" for i
  proof -
    have "?a i = a i" using that Cons.prems(2) by auto
    then show ?thesis using Cons.prems(3) [of i] that by (simp add: moves_def)
  qed
  have rest: "run_changes cap (concat (map f ids)) ?a = Some (\<lambda>i. if i \<in> set ids then b i else ?a i)"
    by (rule Cons.IH [OF below _ steps]) (use Cons.prems(2) in auto)
  have eq: "(\<lambda>i. if i \<in> set ids then b i else ?a i) = (\<lambda>i. if i \<in> set (gid # ids) then b i else a i)"
    by auto
  consider "f gid = []" "b gid = a gid" | c where "f gid = [c]" "apply_change c a = Some ?a"
    using Cons.prems(3) [of gid] by (auto simp: moves_def)
  then show ?case
  proof cases
    case 1
    then have "?a = a" by auto
    with rest eq 1 show ?thesis by simp
  next
    case 2
    then show ?thesis using rest legal_below [OF assms(1) below] eq by simp
  qed
qed

section \<open>The four phases of a difference\<close>

definition stays :: "(string, group) dict \<Rightarrow> (string, group) dict \<Rightarrow> string \<Rightarrow> bool" where
  "stays running wanted gid \<longleftrightarrow> (\<exists>old new. dict_get running gid = Some old \<and> dict_get wanted gid = Some new \<and>
     \<not> must_rebuild old new)"

definition drop_markets_of :: "(string, group) dict \<Rightarrow> (string, group) dict \<Rightarrow> string \<Rightarrow> plan_change list" where
  "drop_markets_of running wanted gid = (case (dict_get running gid, dict_get wanted gid) of
     (Some old, Some new) \<Rightarrow> if must_rebuild old new then []
       else market_change RemoveMarkets gid (gr_tickers old - gr_tickers new) | _ \<Rightarrow> [])"

definition add_markets_of :: "(string, group) dict \<Rightarrow> (string, group) dict \<Rightarrow> string \<Rightarrow> plan_change list" where
  "add_markets_of running wanted gid = (case (dict_get running gid, dict_get wanted gid) of
     (Some old, Some new) \<Rightarrow> if must_rebuild old new then []
       else market_change AddMarkets gid (gr_tickers new - gr_tickers old) | _ \<Rightarrow> [])"

definition drop_groups_of :: "(string, group) dict \<Rightarrow> (string, group) dict \<Rightarrow> string \<Rightarrow> plan_change list" where
  "drop_groups_of running wanted gid =
     (if dict_get running gid \<noteq> None \<and> \<not> stays running wanted gid then [RemoveGroup gid] else [])"

definition add_groups_of :: "(string, group) dict \<Rightarrow> (string, group) dict \<Rightarrow> string \<Rightarrow> plan_change list" where
  "add_groups_of running wanted gid =
     (if stays running wanted gid then []
      else case dict_get wanted gid of None \<Rightarrow> [] | Some g \<Rightarrow> [AddGroup g])"

lemma diff_running_step:
  "diff_running running wanted gid acc =
     \<lparr>dl_drop_markets = dl_drop_markets acc @ drop_markets_of running wanted gid,
      dl_drop_groups = dl_drop_groups acc @ drop_groups_of running wanted gid,
      dl_add_markets = dl_add_markets acc @ add_markets_of running wanted gid,
      dl_rebuilt = dl_rebuilt acc \<union> {g \<in> {gid}. dict_get running g \<noteq> None \<and> dict_get wanted g \<noteq> None \<and>
         \<not> stays running wanted g}\<rparr>"
  by (cases acc; cases "dict_get running gid"; cases "dict_get wanted gid")
    (auto simp: diff_running_def drop_markets_of_def drop_groups_of_def add_markets_of_def stays_def)

lemma diff_running_fold:
  "fold (diff_running running wanted) ids acc =
     \<lparr>dl_drop_markets = dl_drop_markets acc @ concat (map (drop_markets_of running wanted) ids),
      dl_drop_groups = dl_drop_groups acc @ concat (map (drop_groups_of running wanted) ids),
      dl_add_markets = dl_add_markets acc @ concat (map (add_markets_of running wanted) ids),
      dl_rebuilt = dl_rebuilt acc \<union> {gid \<in> set ids. dict_get running gid \<noteq> None \<and> dict_get wanted gid \<noteq> None \<and>
         \<not> stays running wanted gid}\<rparr>"
  by (induction ids arbitrary: acc) (auto simp: diff_running_step simp del: not_None_eq)

lemma plan_diff_phases:
  fixes current desired :: conn_plan
  assumes "running = plan_by_id current" "wanted = plan_by_id desired"
  shows "plan_diff current desired =
     concat (map (drop_markets_of running wanted) (sort (dict_keys running))) @
     concat (map (drop_groups_of running wanted) (sort (dict_keys running))) @
     concat (map (add_groups_of running wanted) (sort (dict_keys wanted))) @
     concat (map (add_markets_of running wanted) (sort (dict_keys running)))"
proof -
  have "(if gid \<notin> set (dict_keys running) \<or> gid \<in> {gid \<in> set (sort (dict_keys running)).
            dict_get running gid \<noteq> None \<and> dict_get wanted gid \<noteq> None \<and> \<not> stays running wanted gid}
         then (case dict_get wanted gid of None \<Rightarrow> [] | Some g \<Rightarrow> [AddGroup g]) else []) =
        add_groups_of running wanted gid" for gid
    unfolding add_groups_of_def dict_keys_set set_sort
    by (auto simp: stays_def dom_def split: option.splits)
  then show ?thesis
    by (simp add: plan_diff_def Let_def diff_running_fold assms [symmetric] del: set_sort)
qed

lemma plan_by_id_get:
  assumes "wf_plan p"
  shows "dict_wf (plan_by_id p)"
    and "dict_get (plan_by_id p) gid = map_of (map (\<lambda>g. (gr_group_id g, g)) (pl_groups p)) gid"
    and "subs_of p gid = map_option (\<lambda>g. (gr_conn_id g, gr_tickers g)) (dict_get (plan_by_id p) gid)"
    and "dict_get (plan_by_id p) gid = Some g \<Longrightarrow> g \<in> set (pl_groups p) \<and> gr_group_id g = gid"
proof -
  have fold: "fold (\<lambda>g. dict_put (gr_group_id g) g) gs d = fold (\<lambda>(k, v). dict_put k v) (map (\<lambda>g. (gr_group_id g, g)) gs) d" for gs d
    by (induction gs arbitrary: d) auto
  have dist: "distinct (map gr_group_id (pl_groups p))"
    using assms by (simp add: wf_plan_def canonical_def)
  show "dict_wf (plan_by_id p)"
    unfolding plan_by_id_def fold by (rule pydict.wf_fold_put) simp
  show get: "dict_get (plan_by_id p) gid = map_of (map (\<lambda>g. (gr_group_id g, g)) (pl_groups p)) gid" for gid
    unfolding plan_by_id_def fold
    by (subst pydict.get_fold_put) (use dist in \<open>auto simp: o_def split: option.splits\<close>)
  have "map_of (map (\<lambda>g. (gr_group_id g, (gr_conn_id g, gr_tickers g))) gs) gid =
        map_option (\<lambda>g. (gr_conn_id g, gr_tickers g)) (map_of (map (\<lambda>g. (gr_group_id g, g)) gs) gid)" for gs
    by (induction gs) auto
  then show "subs_of p gid = map_option (\<lambda>g. (gr_conn_id g, gr_tickers g)) (dict_get (plan_by_id p) gid)"
    by (simp add: subs_of_def get)
  show "dict_get (plan_by_id p) gid = Some g \<Longrightarrow> g \<in> set (pl_groups p) \<and> gr_group_id g = gid"
    unfolding get by (auto dest: map_of_SomeD)
qed

lemma subs_of_Some:
  assumes "wf_plan p" "subs_of p gid = Some (c, ts)"
  obtains g where "g \<in> set (pl_groups p)" "ts = gr_tickers g" "c = gr_conn_id g" "gr_group_id g = gid"
  using assms plan_by_id_get(3,4) [OF assms(1), of gid] by (cases "dict_get (plan_by_id p) gid") auto

lemma legal_subs_of:
  assumes "wf_plan p" "within cap n p"
  shows "legal cap (subs_of p)"
  unfolding legal_def
proof (intro conjI allI impI)
  fix gid c ts assume "subs_of p gid = Some (c, ts)"
  then obtain g where "g \<in> set (pl_groups p)" "ts = gr_tickers g"
    using subs_of_Some [OF assms(1)] by metis
  then show "finite ts" "ts \<noteq> {}" "int (card ts) \<le> cap"
    using assms by (auto simp: wf_plan_def wf_group_def within_def list_all_iff)
next
  fix gid hid c d ts us assume a: "gid \<noteq> hid \<and> subs_of p gid = Some (c, ts) \<and> subs_of p hid = Some (d, us)"
  obtain g where g: "g \<in> set (pl_groups p)" "ts = gr_tickers g" "c = gr_conn_id g" "gr_group_id g = gid"
    using subs_of_Some [OF assms(1)] a by metis
  obtain h where h: "h \<in> set (pl_groups p)" "us = gr_tickers h" "d = gr_conn_id h" "gr_group_id h = hid"
    using subs_of_Some [OF assms(1)] a by metis
  have canon: "canonical (pl_groups p)" using assms(1) by (simp add: wf_plan_def)
  have "inj_on gr_conn_id (set (pl_groups p))"
    using canon by (simp add: canonical_def strict_sorted_iff distinct_map)
  then show "c \<noteq> d" using a g h by (metis inj_onD)
  then show "ts \<inter> us = {}"
    using disjoint_groups_mem [OF canon g(1) h(1)] g h by simp
qed

text \<open>The subscriptions after each phase.\<close>

definition trimmed :: "conn_plan \<Rightarrow> conn_plan \<Rightarrow> subs" where
  "trimmed current desired gid =
     (case (dict_get (plan_by_id current) gid, dict_get (plan_by_id desired) gid) of
        (Some old, Some new) \<Rightarrow> if must_rebuild old new then None
           else Some (gr_conn_id new, gr_tickers old \<inter> gr_tickers new)
      | _ \<Rightarrow> None)"

definition only_trimmed :: "conn_plan \<Rightarrow> conn_plan \<Rightarrow> subs \<Rightarrow> subs" where
  "only_trimmed current desired s gid =
     (if stays (plan_by_id current) (plan_by_id desired) gid then trimmed current desired gid else s gid)"

lemma stays_trimmed:
  "stays (plan_by_id p) (plan_by_id q) gid \<Longrightarrow>
   \<exists>old new. dict_get (plan_by_id p) gid = Some old \<and> dict_get (plan_by_id q) gid = Some new \<and>
     \<not> must_rebuild old new \<and> gr_conn_id old = gr_conn_id new \<and> gr_tickers old \<inter> gr_tickers new \<noteq> {} \<and>
     trimmed p q gid = Some (gr_conn_id new, gr_tickers old \<inter> gr_tickers new)"
proof -
  assume "stays (plan_by_id p) (plan_by_id q) gid"
  then obtain old new where "dict_get (plan_by_id p) gid = Some old" "dict_get (plan_by_id q) gid = Some new"
      "\<not> must_rebuild old new" unfolding stays_def by blast
  then show ?thesis
    by (intro exI [of _ old] exI [of _ new]) (simp add: trimmed_def must_rebuild_def)
qed

lemma trimmed_None: "\<not> stays (plan_by_id p) (plan_by_id q) gid \<Longrightarrow> trimmed p q gid = None"
  by (auto simp: stays_def trimmed_def split: option.splits)

lemma below_refl:
  assumes "wf_plan p"
  shows "below (subs_of p) (subs_of p)"
proof -
  have "ts \<noteq> {}" if "subs_of p g = Some (c, ts)" for g c ts
    by (rule subs_of_Some [OF assms that]) (use assms in \<open>simp add: wf_plan_def wf_group_def list_all_iff\<close>)
  then show ?thesis by (auto simp: below_def)
qed

lemma below_only_trimmed:
  assumes "wf_plan p" "wf_plan q"
  shows "below (only_trimmed p q (subs_of p)) (subs_of p)" "below (only_trimmed p q (subs_of q)) (subs_of q)"
    "below (trimmed p q) (subs_of p)" "below (trimmed p q) (subs_of q)"
proof -
  have t: "ts \<noteq> {} \<and> (\<exists>us. subs_of p g = Some (c, us) \<and> ts \<subseteq> us) \<and> (\<exists>us. subs_of q g = Some (c, us) \<and> ts \<subseteq> us)"
    if "trimmed p q g = Some (c, ts)" for g c ts
  proof -
    have "stays (plan_by_id p) (plan_by_id q) g" using that trimmed_None by fastforce
    from stays_trimmed [OF this] show ?thesis
      using that plan_by_id_get(3) [OF assms(1), of g] plan_by_id_get(3) [OF assms(2), of g] by auto
  qed
  show "below (trimmed p q) (subs_of p)" "below (trimmed p q) (subs_of q)"
    using t by (auto simp: below_def)
  show "below (only_trimmed p q (subs_of p)) (subs_of p)" "below (only_trimmed p q (subs_of q)) (subs_of q)"
    using t below_refl [OF assms(1)] below_refl [OF assms(2)]
    by (auto simp: below_def only_trimmed_def split: if_splits)
qed

lemma moves_drop:
  assumes "finite old" "a gid = Some (c, old)" "b gid = Some (c, old \<inter> new)"
    "f gid = market_change RemoveMarkets gid (old - new)"
  shows "moves f gid a b"
proof (cases "old - new = {}")
  case True
  then have "old \<inter> new = old" by blast
  with True assms show ?thesis by (simp add: moves_def market_change_def)
next
  case False
  define xs where "xs = sorted_list_of_set (old - new)"
  have xs: "set xs = old - new" "distinct xs" using assms(1) by (simp_all add: xs_def)
  then have "xs \<noteq> []" "old - set xs = old \<inter> new" "set xs \<subseteq> old" using False by auto
  then show ?thesis
    unfolding moves_def assms(4) market_change_def if_not_P [OF False] xs_def [symmetric]
    using assms(2,3) xs(2) by simp
qed

lemma moves_add:
  assumes "finite new" "a gid = Some (c, old \<inter> new)" "b gid = Some (c, new)"
    "f gid = market_change AddMarkets gid (new - old)"
  shows "moves f gid a b"
proof (cases "new - old = {}")
  case True
  then have "old \<inter> new = new" by blast
  with True assms show ?thesis by (simp add: moves_def market_change_def)
next
  case False
  define xs where "xs = sorted_list_of_set (new - old)"
  have xs: "set xs = new - old" "distinct xs" using assms(1) by (simp_all add: xs_def)
  then have "xs \<noteq> []" "old \<inter> new \<union> set xs = new" "set xs \<inter> (old \<inter> new) = {}" using False by auto
  then show ?thesis
    unfolding moves_def assms(4) market_change_def if_not_P [OF False] xs_def [symmetric]
    using assms(2,3) xs(2) by simp
qed

lemma diff_moves:
  assumes "wf_plan p" "wf_plan q"
  defines "P \<equiv> plan_by_id p" and "Q \<equiv> plan_by_id q"
  shows "moves (drop_markets_of P Q) gid (subs_of p) (only_trimmed p q (subs_of p))"
    and "moves (drop_groups_of P Q) gid (only_trimmed p q (subs_of p)) (trimmed p q)"
    and "moves (add_groups_of P Q) gid (trimmed p q) (only_trimmed p q (subs_of q))"
    and "moves (add_markets_of P Q) gid (only_trimmed p q (subs_of q)) (subs_of q)"
proof -
  note sp = plan_by_id_get(3) [OF assms(1), of gid] and sq = plan_by_id_get(3) [OF assms(2), of gid]
  have fin: "finite (gr_tickers old)" "finite (gr_tickers new)"
      if "dict_get P gid = Some old" "dict_get Q gid = Some new" for old new
    using plan_by_id_get(4) [OF assms(1)] plan_by_id_get(4) [OF assms(2)] that assms(1,2)
    by (auto simp: P_def Q_def wf_plan_def wf_group_def list_all_iff)
  show "moves (drop_markets_of P Q) gid (subs_of p) (only_trimmed p q (subs_of p))"
  proof (cases "stays P Q gid")
    case True
    from stays_trimmed [OF this [unfolded P_def Q_def]] obtain old new where
        s: "dict_get P gid = Some old" "dict_get Q gid = Some new" "\<not> must_rebuild old new"
          "gr_conn_id old = gr_conn_id new" "trimmed p q gid = Some (gr_conn_id new, gr_tickers old \<inter> gr_tickers new)"
      by (auto simp: P_def Q_def)
    show ?thesis
      by (rule moves_drop [of "gr_tickers old" _ gid "gr_conn_id new" _ "gr_tickers new"])
        (use fin [OF s(1,2)] s sp True in \<open>simp_all add: drop_markets_of_def only_trimmed_def P_def Q_def\<close>)
  next
    case False
    then show ?thesis
      by (auto simp: moves_def drop_markets_of_def only_trimmed_def P_def Q_def stays_def split: option.splits)
  qed
  show "moves (drop_groups_of P Q) gid (only_trimmed p q (subs_of p)) (trimmed p q)"
    using sp trimmed_None [of p q gid]
    by (auto simp: moves_def drop_groups_of_def only_trimmed_def P_def Q_def)
  show "moves (add_groups_of P Q) gid (trimmed p q) (only_trimmed p q (subs_of q))"
    using sq trimmed_None [of p q gid] plan_by_id_get(4) [OF assms(2), of gid]
    by (auto simp: moves_def add_groups_of_def only_trimmed_def P_def Q_def split: option.splits)
  show "moves (add_markets_of P Q) gid (only_trimmed p q (subs_of q)) (subs_of q)"
  proof (cases "stays P Q gid")
    case True
    from stays_trimmed [OF this [unfolded P_def Q_def]] obtain old new where
        s: "dict_get P gid = Some old" "dict_get Q gid = Some new" "\<not> must_rebuild old new"
          "gr_conn_id old = gr_conn_id new" "trimmed p q gid = Some (gr_conn_id new, gr_tickers old \<inter> gr_tickers new)"
      by (auto simp: P_def Q_def)
    show ?thesis
      by (rule moves_add [of "gr_tickers new" _ gid "gr_conn_id new" "gr_tickers old"])
        (use fin [OF s(1,2)] s sq True in \<open>simp_all add: add_markets_of_def only_trimmed_def P_def Q_def\<close>)
  next
    case False
    then show ?thesis
      by (auto simp: moves_def add_markets_of_def only_trimmed_def P_def Q_def stays_def split: option.splits)
  qed
qed

lemma run_diff:
  assumes "wf_plan p" "wf_plan q" "within cap n p" "within cap n' q"
  shows "run_changes cap (plan_diff p q) (subs_of p) = Some (subs_of q)"
proof -
  let ?P = "plan_by_id p" and ?Q = "plan_by_id q"
  let ?rs = "sort (dict_keys ?P)" and ?ws = "sort (dict_keys ?Q)"
  have ids: "distinct ?rs" "distinct ?ws" "set ?rs = dom (dict_get ?P)" "set ?ws = dom (dict_get ?Q)"
    using plan_by_id_get(1) [OF assms(1)] plan_by_id_get(1) [OF assms(2)]
    by (simp_all add: dict_wf_def dom_map_of_conv_image_fst)
  have out: "gid \<notin> set ?rs \<Longrightarrow> subs_of p gid = None" "gid \<notin> set ?ws \<Longrightarrow> subs_of q gid = None"
    "gid \<notin> set ?rs \<Longrightarrow> \<not> stays ?P ?Q gid" "gid \<notin> set ?ws \<Longrightarrow> \<not> stays ?P ?Q gid" for gid
    using plan_by_id_get(3) [OF assms(1)] plan_by_id_get(3) [OF assms(2)] unfolding ids
    by (auto simp: dom_def stays_def)
  note legal = legal_subs_of [OF assms(1,3)] legal_subs_of [OF assms(2,4)]
  note below = below_only_trimmed [OF assms(1,2)] below_refl [OF assms(1)] below_refl [OF assms(2)]
  note moves = diff_moves [OF assms(1,2)]
  have 1: "run_changes cap (concat (map (drop_markets_of ?P ?Q) ?rs)) (subs_of p) = Some (only_trimmed p q (subs_of p))"
    by (subst run_phase [OF legal(1) below(5) below(1) ids(1) moves(1)])
      (use out(3) in \<open>auto simp: only_trimmed_def fun_eq_iff\<close>)
  have 2: "run_changes cap (concat (map (drop_groups_of ?P ?Q) ?rs)) (only_trimmed p q (subs_of p)) = Some (trimmed p q)"
    by (subst run_phase [OF legal(1) below(1) below(3) ids(1) moves(2)])
      (use out(1,3) trimmed_None in \<open>auto simp: only_trimmed_def fun_eq_iff\<close>)
  have 3: "run_changes cap (concat (map (add_groups_of ?P ?Q) ?ws)) (trimmed p q) = Some (only_trimmed p q (subs_of q))"
    by (subst run_phase [OF legal(2) below(4) below(2) ids(2) moves(3)])
      (use out(2,4) trimmed_None in \<open>auto simp: only_trimmed_def fun_eq_iff\<close>)
  have 4: "run_changes cap (concat (map (add_markets_of ?P ?Q) ?rs)) (only_trimmed p q (subs_of q)) = Some (subs_of q)"
    by (subst run_phase [OF legal(2) below(2) below(6) ids(1) moves(4)])
      (use out(3) in \<open>auto simp: only_trimmed_def fun_eq_iff\<close>)
  show ?thesis
    by (simp only: plan_diff_phases [OF refl refl] run_changes_append 1 2 3 4 option.case)
qed

section \<open>Splitting keeps the effect\<close>

lemma concat_chunks: "0 < n \<Longrightarrow> concat (chunks n xs) = xs"
  by (induction n xs rule: chunks.induct) (subst chunks.simps, auto)

lemma chunks_mem: "xs \<in> set (chunks n ys) \<Longrightarrow> xs \<noteq> [] \<and> length xs \<le> n"
proof (induction n ys rule: chunks.induct)
  case (1 n ys)
  show ?case
  proof (cases "n = 0 \<or> ys = []")
    case True
    with 1 show ?thesis by (simp add: chunks.simps [of n ys])
  next
    case False
    with 1 show ?thesis by (auto simp: chunks.simps [of n ys])
  qed
qed

lemma legal_nonempty: "legal cap s \<Longrightarrow> s g = Some (c, ts) \<Longrightarrow> ts \<noteq> {}"
  unfolding legal_def by blast

lemma run_add_chunks:
  assumes "list_all (\<lambda>x. x \<noteq> []) xss" "distinct (concat xss)" "set (concat xss) \<inter> old = {}"
    "s gid = Some (c, old)" "legal cap (s(gid \<mapsto> (c, old \<union> set (concat xss))))"
  shows "run_changes cap (map (AddMarkets gid) xss) s = Some (s(gid \<mapsto> (c, old \<union> set (concat xss))))"
  using assms
proof (induction xss arbitrary: s old)
  case Nil
  then show ?case by (auto simp: fun_upd_idem)
next
  case (Cons xs xss)
  let ?s = "s(gid \<mapsto> (c, old \<union> set xs))"
  have eq: "s(gid \<mapsto> (c, old \<union> set (concat (xs # xss)))) = ?s(gid \<mapsto> (c, (old \<union> set xs) \<union> set (concat xss)))"
    by (simp add: Un_assoc)
  have leg: "legal cap ?s"
  proof (rule legal_below [OF Cons.prems(5)])
    let ?w = "s(gid \<mapsto> (c, old \<union> set (concat (xs # xss))))"
    have "us \<noteq> {} \<and> (\<exists>vs. ?w h = Some (d, vs) \<and> us \<subseteq> vs)" if "?s h = Some (d, us)" for h d us
    proof (cases "h = gid")
      case True
      with that Cons.prems(1) show ?thesis by auto
    next
      case False
      with that have "?w h = Some (d, us)" by simp
      with legal_nonempty [OF Cons.prems(5) this] show ?thesis by blast
    qed
    then show "below ?s ?w" by (simp add: below_def)
  qed
  have "run_changes cap (map (AddMarkets gid) xss) ?s = Some (?s(gid \<mapsto> (c, (old \<union> set xs) \<union> set (concat xss))))"
    by (rule Cons.IH [OF _ _ _ _ Cons.prems(5) [unfolded eq]]) (use Cons.prems(1-4) in auto)
  moreover have "apply_change (AddMarkets gid xs) s = Some ?s"
    using Cons.prems(1-4) by auto
  ultimately show ?case
    unfolding eq using leg by (simp only: list.map run_changes.simps option.case if_True)
qed

lemma run_remove_chunks:
  assumes "list_all (\<lambda>x. x \<noteq> []) xss" "distinct (concat xss)" "set (concat xss) \<subseteq> old"
    "s gid = Some (c, old)" "legal cap s" "old - set (concat xss) \<noteq> {}"
  shows "run_changes cap (map (RemoveMarkets gid) xss) s = Some (s(gid \<mapsto> (c, old - set (concat xss))))"
  using assms
proof (induction xss arbitrary: s old)
  case Nil
  then show ?case by (auto simp: fun_upd_idem)
next
  case (Cons xs xss)
  let ?s = "s(gid \<mapsto> (c, old - set xs))"
  have eq: "s(gid \<mapsto> (c, old - set (concat (xs # xss)))) = ?s(gid \<mapsto> (c, (old - set xs) - set (concat xss)))"
    by (simp add: Diff_eq Int_assoc)
  have leg: "legal cap ?s"
  proof (rule legal_below [OF Cons.prems(5)])
    show "below ?s s"
      using Cons.prems(4-6) by (auto simp: below_def legal_def)
  qed
  have "run_changes cap (map (RemoveMarkets gid) xss) ?s = Some (?s(gid \<mapsto> (c, (old - set xs) - set (concat xss))))"
    by (rule Cons.IH [OF _ _ _ _ leg]) (use Cons.prems(1-4,6) in auto)
  moreover have "apply_change (RemoveMarkets gid xs) s = Some ?s"
    using Cons.prems(1-4) by auto
  ultimately show ?case
    unfolding eq using leg by (simp only: list.map run_changes.simps option.case if_True)
qed

definition named_markets :: "plan_change \<Rightarrow> nat" where
  "named_markets ch = (case ch of AddGroup g \<Rightarrow> card (gr_tickers g) | RemoveGroup gid \<Rightarrow> 0
     | AddMarkets gid ts \<Rightarrow> length ts | RemoveMarkets gid ts \<Rightarrow> length ts)"

lemma split_markets_names:
  assumes "1 \<le> k" "ch \<in> set (split_markets mk gid ts k)"
  obtains us where "ch = mk gid us" "int (length us) \<le> k"
proof (cases "int (length ts) \<le> k")
  case True
  with assms that show ?thesis by (simp add: split_markets_def)
next
  case False
  then obtain us where "us \<in> set (chunks (nat k) ts)" "ch = mk gid us"
    using assms(2) by (auto simp: split_markets_def)
  moreover from this(1) have "int (length us) \<le> k"
    using chunks_mem [of us "nat k" ts] assms(1) by linarith
  ultimately show ?thesis using that by blast
qed

lemma split_change_names:
  assumes "split_change ch k = Inr cs" "c \<in> set cs"
  shows "int (named_markets c) \<le> k"
proof -
  have k: "1 \<le> k" using assms(1) by (simp add: split_change_def split: if_splits)
  show ?thesis
  proof (cases ch)
    case (AddGroup g)
    let ?ts = "sorted_list_of_set (gr_tickers g)"
    have cut: "card (set (take (nat k) ?ts)) \<le> nat k"
      using card_length [of "take (nat k) ?ts"] by simp
    consider "int (length ?ts) \<le> k" "c = ch" | "c = AddGroup (g\<lparr>gr_tickers := set (take (nat k) ?ts)\<rparr>)"
      | "c \<in> set (split_markets AddMarkets (gr_group_id g) (drop (nat k) ?ts) k)"
      using assms k AddGroup by (auto simp: split_change_def Let_def split: if_splits)
    then show ?thesis
    proof cases
      case 1
      then show ?thesis using AddGroup by (simp add: named_markets_def)
    next
      case 2
      then show ?thesis using cut k by (simp add: named_markets_def)
    next
      case 3
      then show ?thesis by (rule split_markets_names [OF k]) (simp add: named_markets_def)
    qed
  next
    case (RemoveGroup gid)
    then show ?thesis using assms k by (auto simp: split_change_def named_markets_def)
  next
    case (AddMarkets gid ts)
    then have "c \<in> set (split_markets AddMarkets gid ts k)" using assms k by (auto simp: split_change_def)
    then show ?thesis by (rule split_markets_names [OF k]) (simp add: named_markets_def)
  next
    case (RemoveMarkets gid ts)
    then have "c \<in> set (split_markets RemoveMarkets gid ts k)" using assms k by (auto simp: split_change_def)
    then show ?thesis by (rule split_markets_names [OF k]) (simp add: named_markets_def)
  qed
qed

lemma chunks_parts:
  assumes "1 \<le> k"
  shows "concat (chunks (nat k) ts) = ts" "list_all (\<lambda>x. x \<noteq> []) (chunks (nat k) ts)"
proof -
  show "concat (chunks (nat k) ts) = ts" using assms by (intro concat_chunks) simp
  show "list_all (\<lambda>x. x \<noteq> []) (chunks (nat k) ts)"
    unfolding list_all_iff using chunks_mem by blast
qed

lemma run_split_add:
  assumes "1 \<le> k" "apply_change (AddMarkets gid ts) s = Some s'" "legal cap s'"
  shows "run_changes cap (split_markets AddMarkets gid ts k) s = Some s'"
proof (cases "int (length ts) \<le> k")
  case True
  then show ?thesis using assms by (simp add: split_markets_def)
next
  case False
  obtain c old where a: "s gid = Some (c, old)" "distinct ts" "set ts \<inter> old = {}" "s' = s(gid \<mapsto> (c, old \<union> set ts))"
    using assms(2) by (auto split: option.splits if_splits)
  show ?thesis
    using run_add_chunks [of "chunks (nat k) ts" old s gid c cap] a assms(3) False
    by (simp add: chunks_parts [OF assms(1)] split_markets_def)
qed

lemma run_split_remove:
  assumes "1 \<le> k" "apply_change (RemoveMarkets gid ts) s = Some s'" "legal cap s" "legal cap s'"
  shows "run_changes cap (split_markets RemoveMarkets gid ts k) s = Some s'"
proof (cases "int (length ts) \<le> k")
  case True
  then show ?thesis using assms by (simp add: split_markets_def)
next
  case False
  obtain c old where a: "s gid = Some (c, old)" "distinct ts" "set ts \<subseteq> old" "s' = s(gid \<mapsto> (c, old - set ts))"
    using assms(2) by (auto split: option.splits if_splits)
  have "old - set ts \<noteq> {}" using legal_nonempty [OF assms(4), of gid c] a(4) by simp
  then show ?thesis
    using run_remove_chunks [of "chunks (nat k) ts" old s gid c cap] a assms(3) False
    by (simp add: chunks_parts [OF assms(1)] split_markets_def)
qed

lemma run_split_group:
  assumes "1 \<le> k" "apply_change (AddGroup g) s = Some s'" "legal cap s'" "split_change (AddGroup g) k = Inr cs"
  shows "run_changes cap cs s = Some s'"
proof -
  let ?ts = "sorted_list_of_set (gr_tickers g)" and ?gid = "gr_group_id g"
  have s': "s ?gid = None" "s' = s(?gid \<mapsto> (gr_conn_id g, gr_tickers g))"
    using assms(2) by (auto split: option.splits)
  have fin: "finite (gr_tickers g)" using assms(3) s'(2) unfolding legal_def by (metis fun_upd_same)
  show ?thesis
  proof (cases "int (length ?ts) \<le> k")
    case True
    then have "cs = [AddGroup g]" using assms(1,4) by (simp add: split_change_def)
    then show ?thesis using assms(2,3) by simp
  next
    case False
    let ?a = "take (nat k) ?ts" and ?b = "drop (nat k) ?ts"
    have cs: "cs = AddGroup (g\<lparr>gr_tickers := set ?a\<rparr>) # split_markets AddMarkets ?gid ?b k"
      using assms(1,4) False by (simp add: split_change_def Let_def)
    have "distinct (?a @ ?b)" by simp
    then have parts: "distinct ?b" "set ?a \<inter> set ?b = {}" by (simp_all only: distinct_append)
    have "set (?a @ ?b) = gr_tickers g" using fin by simp
    then have union: "set ?a \<union> set ?b = gr_tickers g" by (simp only: set_append)
    have "length ?a \<noteq> 0" "length ?b \<noteq> 0" using False assms(1) by simp_all
    then have ne: "?a \<noteq> []" "?b \<noteq> []" by (simp_all only: length_0_conv not_False_eq_True)
    let ?s1 = "s(?gid \<mapsto> (gr_conn_id g, set ?a))"
    have upd: "?s1(?gid \<mapsto> (gr_conn_id g, gr_tickers g)) = s'" by (simp add: s'(2))
    have "us \<noteq> {} \<and> (\<exists>vs. s' h = Some (d, vs) \<and> us \<subseteq> vs)" if "?s1 h = Some (d, us)" for h d us
    proof (cases "h = ?gid")
      case True
      then have "us = set ?a" "d = gr_conn_id g" using that by simp_all
      then show ?thesis using True ne(1) union unfolding s'(2) by auto
    next
      case False
      then have "s' h = Some (d, us)" using that by (simp add: s'(2))
      then show ?thesis using legal_nonempty [OF assms(3)] by blast
    qed
    then have leg: "legal cap ?s1" by (intro legal_below [OF assms(3)]) (simp add: below_def)
    have app: "apply_change (AddGroup (g\<lparr>gr_tickers := set ?a\<rparr>)) s = Some ?s1"
      using s'(1) by simp
    have "apply_change (AddMarkets ?gid ?b) ?s1 = Some (?s1(?gid \<mapsto> (gr_conn_id g, set ?a \<union> set ?b)))"
      using ne(2) parts by (simp add: Int_commute)
    then have add: "apply_change (AddMarkets ?gid ?b) ?s1 = Some s'" by (simp only: union upd)
    show ?thesis
      unfolding cs using app leg run_split_add [OF assms(1) add assms(3)]
      by (simp only: run_changes.simps option.case if_True)
  qed
qed

lemma run_split:
  assumes "apply_change ch s = Some s'" "legal cap s" "legal cap s'" "split_change ch k = Inr cs"
  shows "run_changes cap cs s = Some s'"
proof -
  have k: "1 \<le> k" using assms(4) by (simp add: split_change_def split: if_splits)
  then show ?thesis
    using assms run_split_add [OF k] run_split_remove [OF k] run_split_group [OF k]
    by (cases ch) (auto simp: split_change_def simp del: apply_change.simps(1,3,4))
qed

lemma run_split_all:
  assumes "run_changes cap chs s = Some s'" "legal cap s" "result_list (\<lambda>c. split_change c k) chs = Inr css"
  shows "run_changes cap (concat css) s = Some s'"
  using assms
proof (induction chs arbitrary: s css)
  case Nil
  then show ?case by simp
next
  case (Cons c chs)
  from Cons.prems(1) obtain t where t: "apply_change c s = Some t" "legal cap t" "run_changes cap chs t = Some s'"
    by (auto split: option.splits if_splits)
  from Cons.prems(3) obtain cs rest where r: "split_change c k = Inr cs" "css = cs # rest"
      "result_list (\<lambda>c. split_change c k) chs = Inr rest"
    by (auto simp: result_simps)
  show ?case
    using run_split [OF t(1) Cons.prems(2) t(2) r(1)] Cons.IH [OF t(3,2) r(3)]
    by (simp add: r(2) run_changes_append)
qed

lemma split_change_total: "1 \<le> k \<Longrightarrow> \<exists>cs. split_change ch k = Inr cs"
  by (simp add: split_change_def Let_def split: plan_change.split)

lemma fresh_even:
  assumes "1 \<le> cap" "plan ts cap n None = Inr p" "0 \<le> c" "c < n" "0 \<le> d" "d < n"
  shows "card {t. (t, c) \<in> assigned p} \<le> card {t. (t, d) \<in> assigned p} + 1"
proof -
  define us where "us = sorted_list_of_set (set ts)"
  define m where "m = fill [] us cap n"
  have ok: "members_ok cap n []" by (simp add: members_ok_def)
  obtain k where k: "members_ok cap n m" "dealt_total n m = dealt_total n [] + mset (take k us)"
    using fill_result [OF ok, of us] unfolding m_def by blast
  have "dealt_total n [] = {#}" by (simp add: dealt_total_def members_of_def dict_get_or_def)
  moreover have "distinct (take k us)" by (simp add: us_def)
  ultimately have once: "dealt_once n m"
    by (simp add: dealt_once_def k(2) distinct_count_atmost_1)
  note g = members_groups [OF k(1) once assms(1)]
  have "p = \<lparr>pl_groups = map group_of_members (sort_key fst m)\<rparr>"
    using assms(2) g(1) assms(1)
    by (simp add: plan_def Let_def us_def [symmetric] m_def [symmetric] split: if_splits)
  then have "{t. (t, e) \<in> assigned p} = set (members_of m e)" for e
    by (simp add: g(4))
  moreover have "distinct (members_of m e)" if "0 \<le> e" "e < n" for e
    using dealt_once_distinct [OF once that] .
  moreover have "level n m"
  proof -
    have "level n []" by (simp add: level_def members_of_def dict_get_or_def)
    then show ?thesis
      using deal_level [OF fill_room [OF ok]] assms(1)
      by (simp add: m_def fill_def Let_def members_of_def)
  qed
  ultimately show ?thesis using assms(3-6) by (simp add: distinct_card level_def)
qed

text \<open>A small plan used in the concrete instances below.\<close>

definition example_group :: group where
  "example_group = \<lparr>gr_group_id = ''g0000'', gr_conn_id = 0, gr_tickers = {''A'', ''B''}\<rparr>"

definition example_plan :: conn_plan where
  "example_plan = \<lparr>pl_groups = [example_group]\<rparr>"

definition other_plan :: conn_plan where
  "other_plan = \<lparr>pl_groups = [example_group\<lparr>gr_tickers := {''B'', ''C'', ''D''}\<rparr>]\<rparr>"

lemma wf_example_plan [simp]:
  "wf_plan example_plan" "within 3 1 example_plan" "wf_plan other_plan" "within 3 1 other_plan"
  by (simp_all add: example_plan_def other_plan_def example_group_def wf_plan_def wf_group_def canonical_def
      disjoint_groups_def within_def)

section \<open>Properties\<close>

text \<open>
  C33. A plan is exactly a canonical set of groups: the constructor accepts groups precisely when
  they come in strictly increasing order of connection, no two share a group id and no ticker is in
  two of them; it raises on everything else and never changes the groups.
\<close>

theorem plan_constructor_accepts:
  assumes "list_all (\<lambda>g. finite (gr_tickers g)) gs"
  shows "new_plan gs = Inr p \<longleftrightarrow> p = \<lparr>pl_groups = gs\<rparr> \<and>
     sorted_wrt (<) (map gr_conn_id gs) \<and> distinct (map gr_group_id gs) \<and>
     (\<forall>i j. i < j \<and> j < length gs \<longrightarrow> gr_tickers (gs ! i) \<inter> gr_tickers (gs ! j) = {})"
proof -
  have "disjoint_groups gs \<longleftrightarrow> (\<forall>i j. i < j \<and> j < length gs \<longrightarrow> gr_tickers (gs ! i) \<inter> gr_tickers (gs ! j) = {})"
    unfolding disjoint_groups_def sorted_wrt_iff_nth_less by blast
  then show ?thesis unfolding new_plan_accepts [OF assms] canonical_def by blast
qed

theorem plan_constructor_accepts_witness:
  "\<exists>e. new_plan [example_group, example_group\<lparr>gr_conn_id := 1, gr_group_id := ''g0001''\<rparr>] = Inl e"
proof -
  let ?gs = "[example_group, example_group\<lparr>gr_conn_id := 1, gr_group_id := ''g0001''\<rparr>]"
  have "list_all (\<lambda>g. finite (gr_tickers g)) ?gs" by (simp add: example_group_def)
  from plan_constructor_accepts [OF this] have "new_plan ?gs \<noteq> Inr p" for p
    by (auto simp: example_group_def)
  then show ?thesis by (cases "new_plan ?gs") auto
qed

text \<open>
  C32. Planning never fails on sane limits and uses the capacity it is given: the plan is well
  formed, keeps every connection within \<open>max_per_group\<close> and below \<open>max_connections\<close>, holds only
  wanted tickers, and holds all of them unless every connection is full; without a running plan the
  connections differ in size by at most one.
\<close>

theorem plan_uses_capacity:
  assumes "1 \<le> cap" "1 \<le> n" "\<forall>q. previous = Some q \<longrightarrow> wf_plan q"
  shows "\<exists>p. plan ts cap n previous = Inr p \<and> wf_plan p \<and> within cap n p \<and> plan_tickers p \<subseteq> set ts \<and>
     int (card (plan_tickers p)) = min (int (card (set ts))) (cap * n) \<and>
     (previous = None \<longrightarrow> (\<forall>c d. 0 \<le> c \<and> c < n \<and> 0 \<le> d \<and> d < n \<longrightarrow>
        card {t. (t, c) \<in> assigned p} \<le> card {t. (t, d) \<in> assigned p} + 1))"
proof -
  obtain p where p: "plan ts cap n previous = Inr p" "wf_plan p" "within cap n p" "plan_tickers p \<subseteq> set ts"
      "int (card (plan_tickers p)) = min (int (card (set ts))) (cap * n)"
    by (rule plan_result [OF assms(1,2), of previous ts]) (use assms(3) in auto)
  moreover have "previous = None \<Longrightarrow> 0 \<le> c \<and> c < n \<and> 0 \<le> d \<and> d < n \<Longrightarrow>
      card {t. (t, c) \<in> assigned p} \<le> card {t. (t, d) \<in> assigned p} + 1" for c d
    using fresh_even [OF assms(1), of ts n p c d] p(1) by simp
  ultimately show ?thesis by blast
qed

theorem plan_uses_capacity_witness:
  "\<exists>p. plan [''C'', ''A'', ''B''] 2 1 (Some example_plan) = Inr p \<and> card (plan_tickers p) = 2"
  using plan_uses_capacity [of 2 1 "Some example_plan" "[''C'', ''A'', ''B'']"] by auto

text \<open>
  C31. Replanning costs the fewest resnapshots: among all plans within the same limits over the
  wanted tickers, none leaves more tickers of the running plan on the connection they are on; and
  what stays is what fits, the first \<open>max_per_group\<close> wanted tickers of each surviving connection.
\<close>

theorem replanning_moves_fewest:
  assumes "1 \<le> cap" "1 \<le> n" "wf_plan q" "plan ts cap n (Some q) = Inr p"
  shows "(\<forall>r. wf_plan r \<and> within cap n r \<and> plan_tickers r \<subseteq> set ts \<longrightarrow>
       card (assigned q \<inter> assigned r) \<le> card (assigned q \<inter> assigned p)) \<and>
     (\<forall>g\<in>set (pl_groups q). gr_conn_id g < n \<longrightarrow>
       (\<forall>t\<in>set (take (nat cap) (sorted_list_of_set (gr_tickers g \<inter> set ts))). (t, gr_conn_id g) \<in> assigned p))"
proof -
  obtain p' where "plan ts cap n (Some q) = Inr p'"
    and "\<And>g t. g \<in> set (pl_groups q) \<Longrightarrow> gr_conn_id g < n \<Longrightarrow>
       t \<in> set (kept_members g (set ts) cap) \<Longrightarrow> (t, gr_conn_id g) \<in> assigned p'"
    by (rule plan_result [OF assms(1,2), of "Some q" ts]) (use assms(3) in auto)
  then have "\<forall>g\<in>set (pl_groups q). gr_conn_id g < n \<longrightarrow>
       (\<forall>t\<in>set (take (nat cap) (sorted_list_of_set (gr_tickers g \<inter> set ts))). (t, gr_conn_id g) \<in> assigned p)"
    using assms(1,4) by (simp add: kept_members_def keep_first_cap)
  then show ?thesis using fewest_moves [OF assms] by blast
qed

theorem replanning_moves_fewest_witness:
  "\<exists>p. plan [''C'', ''B''] 3 1 (Some example_plan) = Inr p \<and> (''B'', 0) \<in> assigned p \<and>
     card (assigned example_plan \<inter> assigned example_plan) \<ge> card (assigned example_plan \<inter> assigned p)"
proof -
  obtain p where p: "plan [''C'', ''B''] 3 1 (Some example_plan) = Inr p"
    by (rule plan_result [of 3 1 "Some example_plan" "[''C'', ''B'']"]) auto
  have "finite (assigned example_plan)" by (simp add: assigned_def example_plan_def example_group_def)
  then have "card (assigned example_plan \<inter> assigned p) \<le> card (assigned example_plan \<inter> assigned example_plan)"
    by (intro card_mono) auto
  moreover have "(''B'', 0) \<in> assigned p"
    using replanning_moves_fewest [OF _ _ wf_example_plan(1) p]
    by (simp add: example_plan_def example_group_def insert_Collect)
  ultimately show ?thesis using p by blast
qed

text \<open>
  C30. Applying the changes between two plans, each split so that no command names more than
  \<open>max_markets\<close> markets, turns the running subscriptions into exactly the wanted ones; every piece
  applies to the state it meets, and on the way no group is empty or over capacity, no connection
  has two groups and no market is subscribed twice.
\<close>

theorem changes_reach_the_plan:
  assumes "wf_plan p" "wf_plan q" "within cap n p" "within cap n' q" "1 \<le> k"
  shows "\<exists>pieces. result_list (\<lambda>c. split_change c k) (plan_diff p q) = Inr pieces \<and>
     list_all (\<lambda>c. int (named_markets c) \<le> k) (concat pieces) \<and>
     run_changes cap (concat pieces) (subs_of p) = Some (subs_of q)"
proof -
  have "\<exists>css. result_list (\<lambda>c. split_change c k) cs = Inr css \<and> (\<forall>c\<in>set (concat css). int (named_markets c) \<le> k)" for cs
  proof (induction cs)
    case Nil
    then show ?case by simp
  next
    case (Cons c cs)
    obtain pieces where "split_change c k = Inr pieces" using split_change_total [OF assms(5)] by blast
    with Cons split_change_names [OF this] show ?case by auto
  qed
  then show ?thesis
    using run_split_all [OF run_diff [OF assms(1-4)] legal_subs_of [OF assms(1,3)]]
    unfolding list_all_iff by blast
qed

theorem changes_reach_the_plan_witness:
  "\<exists>pieces. result_list (\<lambda>c. split_change c 1) (plan_diff example_plan other_plan) = Inr pieces \<and>
     run_changes 3 (concat pieces) (subs_of example_plan) = Some (subs_of other_plan)"
  using changes_reach_the_plan [OF wf_example_plan(1,3,2,4), of 1] by auto

end
