(* ===== verification/Universe.thy ===== *)
theory Universe
  imports Prelude Fixedpoint
begin

text \<open>
  The market selector (\<open>src/tape/recorder/universe.py\<close>): which listed markets earn full capture,
  which group admits each, and the count of every reason a market is not recorded.

  Sort keys are tuples compared lexicographically, as Python compares them; \<open>sort_key\<close> is stable,
  like \<open>sorted\<close>. The functions that fill a caller's dictionary in place take it as an argument and
  return it. Decoding a listing entry needs the datetime parser and is not part of the model: the
  selector starts from summaries.
\<close>

section \<open>Slices and ordered deduplication\<close>

definition slice_to :: "int \<Rightarrow> 'a list \<Rightarrow> 'a list" where
  "slice_to n xs = take (nat (if 0 \<le> n then n else int (length xs) + n)) xs"

definition slice_from :: "int \<Rightarrow> 'a list \<Rightarrow> 'a list" where
  "slice_from n xs = drop (nat (if 0 \<le> n then n else int (length xs) + n)) xs"

lemma slice_append [simp]: "slice_to n xs @ slice_from n xs = xs"
  by (simp add: slice_to_def slice_from_def)

lemma length_slice_to: "0 \<le> n \<Longrightarrow> int (length (slice_to n xs)) \<le> n"
  by (simp add: slice_to_def)

text \<open>\<open>dict.fromkeys\<close>: the distinct elements in the order of their first occurrence.\<close>

fun fromkeys :: "'a list \<Rightarrow> 'a list" where
  "fromkeys [] = []"
| "fromkeys (x # xs) = x # filter (\<lambda>y. y \<noteq> x) (fromkeys xs)"

lemma set_fromkeys [simp]: "set (fromkeys xs) = set xs"
  by (induction xs) auto

lemma distinct_fromkeys [simp]: "distinct (fromkeys xs)"
  by (induction xs) auto

section \<open>Groups, policies and markets\<close>

definition MARKET_ORDER_VOLUME :: string where "MARKET_ORDER_VOLUME = ''volume''"
definition MARKET_ORDER_NEAR_PRICE :: string where "MARKET_ORDER_NEAR_PRICE = ''near_price''"

definition MARKET_ORDERS :: "string list" where
  "MARKET_ORDERS = [MARKET_ORDER_VOLUME, MARKET_ORDER_NEAR_PRICE]"

definition ACTIVE_STATUS :: string where "ACTIVE_STATUS = ''active''"

definition THRESHOLD_STRIKE_TYPES :: "string list" where
  "THRESHOLD_STRIKE_TYPES = [''greater'', ''greater_or_equal'', ''less'', ''less_or_equal'']"

definition SECONDS_PER_HOUR :: int where "SECONDS_PER_HOUR = 3600"
definition HALF_PRICE :: int where "HALF_PRICE = PRICE_SCALE div 2"

datatype reason =
    Duplicate | NotActive | Mve | Closed | BeyondHorizon | NoGroup | EventBeyondHorizon
  | BelowVolume | EventNotChosen | OverEventCap | OverGroupCap | OverCap

definition REASONS :: "reason list" where
  "REASONS = [Duplicate, NotActive, Mve, Closed, BeyondHorizon, NoGroup, EventBeyondHorizon,
     BelowVolume, EventNotChosen, OverEventCap, OverGroupCap, OverCap]"

record universe_group =
  ug_name :: string
  ug_events :: int
  ug_markets_per_event :: int
  ug_series :: "string list option"
  ug_category :: "string option"
  ug_max_markets :: "int option"
  ug_max_hours_to_close :: "int option"
  ug_market_order :: string

datatype universe_error =
    EmptyName | UnknownOrder string | SelectorCount | EmptySeries | RepeatedSeries "string list"
  | EmptyCategory | NotPositive string int | NegativeVolume int | NegativeBudget int
  | NonPositiveHorizon int | RepeatedNames "string list"

definition repeated :: "string list \<Rightarrow> string list" where
  "repeated xs = sort (remdups (filter (\<lambda>x. 1 < length (filter ((=) x) xs)) xs))"

fun check_positive :: "(string \<times> int option) list \<Rightarrow> universe_error option" where
  "check_positive [] = None"
| "check_positive ((field, value) # rest) =
     (case value of None \<Rightarrow> check_positive rest
      | Some v \<Rightarrow> if v \<le> 0 then Some (NotPositive field v) else check_positive rest)"

definition group_error :: "universe_group \<Rightarrow> universe_error option" where
  "group_error g =
     (if ug_name g = [] then Some EmptyName
      else if ug_market_order g \<notin> set MARKET_ORDERS then Some (UnknownOrder (ug_market_order g))
      else if (ug_series g = None) = (ug_category g = None) then Some SelectorCount
      else case ug_series g of
        Some series \<Rightarrow>
          if series = [] \<or> \<not> list_all (\<lambda>s. s \<noteq> []) series then Some EmptySeries
          else if repeated series \<noteq> [] then Some (RepeatedSeries (repeated series))
          else check_positive [(''events'', Some (ug_events g)), (''markets_per_event'', Some (ug_markets_per_event g)),
                 (''max_markets'', ug_max_markets g), (''max_hours_to_close'', ug_max_hours_to_close g)]
      | None \<Rightarrow>
          if ug_category g = Some [] then Some EmptyCategory
          else check_positive [(''events'', Some (ug_events g)), (''markets_per_event'', Some (ug_markets_per_event g)),
                 (''max_markets'', ug_max_markets g), (''max_hours_to_close'', ug_max_hours_to_close g)])"

record universe_policy =
  up_min_volume_24h :: int
  up_max_l2_markets :: int
  up_groups :: "universe_group list"
  up_exclude_mve :: bool
  up_max_seconds_to_close :: "int option"

definition policy_error :: "universe_policy \<Rightarrow> universe_error option" where
  "policy_error p =
     (if up_min_volume_24h p < 0 then Some (NegativeVolume (up_min_volume_24h p))
      else if up_max_l2_markets p < 0 then Some (NegativeBudget (up_max_l2_markets p))
      else case up_max_seconds_to_close p of
        Some s \<Rightarrow> if s \<le> 0 then Some (NonPositiveHorizon s)
                  else if repeated (map ug_name (up_groups p)) \<noteq> []
                  then Some (RepeatedNames (repeated (map ug_name (up_groups p)))) else None
      | None \<Rightarrow> if repeated (map ug_name (up_groups p)) \<noteq> []
                then Some (RepeatedNames (repeated (map ug_name (up_groups p)))) else None)"

definition policy_categories :: "universe_policy \<Rightarrow> string set" where
  "policy_categories p = {c. Some c \<in> ug_category ` set (up_groups p)}"

record market_summary =
  ms_ticker :: string
  ms_series_ticker :: string
  ms_event_ticker :: string
  ms_exchange_index :: int
  ms_status :: string
  ms_volume_24h :: int
  ms_close_ts :: "int option"
  ms_is_mve :: bool
  ms_strike_type :: "string option"
  ms_yes_bid :: "int option"
  ms_yes_ask :: "int option"
  ms_last_price :: "int option"

record group_selection =
  gs_name :: string
  gs_tickers :: "string list"
  gs_events :: nat
  gs_skipped_for_budget :: nat

record universe_decision =
  ud_l2_tickers :: "string set"
  ud_showcase :: "string set"
  ud_markets :: "market_summary list"
  ud_groups :: "group_selection list"
  ud_group_of :: "(string, string) dict"
  ud_dropped_for_cap :: int
  ud_reason_counts :: "(reason, int) dict"

definition series_of :: "string \<Rightarrow> string" where
  "series_of ticker = takeWhile (\<lambda>c. c \<noteq> CHR ''-'') ticker"

definition parse_quote :: "string \<Rightarrow> int \<Rightarrow> fixed_point_error + int option" where
  "parse_quote txt absent =
     (if txt = [] then Inr None
      else result_bind (parse_price txt) (\<lambda>price. Inr (if price = absent then None else Some price)))"

definition yes_mid :: "market_summary \<Rightarrow> int option" where
  "yes_mid m = (case (ms_yes_bid m, ms_yes_ask m) of
     (Some bid, Some ask) \<Rightarrow> Some ((bid + ask) div 2)
   | _ \<Rightarrow> ms_last_price m)"

definition rejection :: "market_summary \<Rightarrow> universe_policy \<Rightarrow> int \<Rightarrow> reason option" where
  "rejection m p now_ts =
     (if ms_status m \<noteq> ACTIVE_STATUS then Some NotActive
      else if up_exclude_mve p \<and> ms_is_mve m then Some Mve
      else case ms_close_ts m of
        None \<Rightarrow> None
      | Some close \<Rightarrow>
          if close \<le> now_ts then Some Closed
          else case up_max_seconds_to_close p of
            None \<Rightarrow> None
          | Some horizon \<Rightarrow> if horizon < close - now_ts then Some BeyondHorizon else None)"

section \<open>Sort keys\<close>

definition event_key :: "market_summary \<Rightarrow> string \<times> string" where
  "event_key m = (ms_series_ticker m, ms_event_ticker m)"

definition event_volume :: "market_summary list \<Rightarrow> int" where
  "event_volume event = sum_list (map ms_volume_24h event)"

definition close_order :: "int option \<Rightarrow> int \<times> int" where
  "close_order close_ts = (case close_ts of None \<Rightarrow> (1, 0) | Some c \<Rightarrow> (0, c))"

definition earliest_close :: "market_summary list \<Rightarrow> int option" where
  "earliest_close event = opt_min (List.map_filter ms_close_ts event)"

definition nearest_event_first :: "market_summary list \<Rightarrow> (int \<times> int) \<times> string" where
  "nearest_event_first event = (close_order (earliest_close event), ms_event_ticker (hd event))"

definition busiest_event_first :: "market_summary list \<Rightarrow> int \<times> (int \<times> int) \<times> string \<times> string" where
  "busiest_event_first event =
     (- event_volume event, close_order (earliest_close event),
      ms_event_ticker (hd event), ms_series_ticker (hd event))"

type_synonym market_rank = "int \<times> int \<times> int \<times> (int \<times> int) \<times> string"

definition volume_order :: "market_summary \<Rightarrow> int \<times> (int \<times> int) \<times> string" where
  "volume_order m = (- ms_volume_24h m, close_order (ms_close_ts m), ms_ticker m)"

definition busiest_market_first :: "market_summary \<Rightarrow> market_rank" where
  "busiest_market_first m = (0, 0, volume_order m)"

definition is_threshold :: "market_summary \<Rightarrow> bool" where
  "is_threshold m = (case ms_strike_type m of None \<Rightarrow> False | Some s \<Rightarrow> s \<in> set THRESHOLD_STRIKE_TYPES)"

definition market_ranking :: "string \<Rightarrow> market_summary list \<Rightarrow> market_summary \<Rightarrow> market_rank" where
  "market_ranking order event m =
     (if order \<noteq> MARKET_ORDER_NEAR_PRICE then busiest_market_first m
      else case yes_mid m of
        None \<Rightarrow> (1, 0, volume_order m)
      | Some mid \<Rightarrow> (0, if list_all is_threshold event then \<bar>mid - HALF_PRICE\<bar> else PRICE_MAX - mid, volume_order m))"

type_synonym freshness_key =
  "int \<times> int \<times> string \<times> string \<times> string \<times> int \<times> bool \<times> string \<times> int \<times> int \<times> int"

definition freshness :: "market_summary \<Rightarrow> freshness_key" where
  "freshness m =
     (ms_volume_24h m,
      case ms_close_ts m of None \<Rightarrow> -1 | Some c \<Rightarrow> c,
      ms_status m, ms_event_ticker m, ms_series_ticker m, ms_exchange_index m, ms_is_mve m,
      case ms_strike_type m of None \<Rightarrow> [] | Some s \<Rightarrow> s,
      case ms_yes_bid m of None \<Rightarrow> -1 | Some c \<Rightarrow> c,
      case ms_yes_ask m of None \<Rightarrow> -1 | Some c \<Rightarrow> c,
      case ms_last_price m of None \<Rightarrow> -1 | Some c \<Rightarrow> c)"

section \<open>Eligibility\<close>

type_synonym counts = "(reason, int) dict"

definition bump :: "reason \<Rightarrow> int \<Rightarrow> counts \<Rightarrow> counts" where
  "bump r n cs = dict_put r (dict_get_or cs r 0 + n) cs"

definition keep_newest ::
  "market_summary \<Rightarrow> (string, market_summary) dict \<times> counts \<Rightarrow> (string, market_summary) dict \<times> counts" where
  "keep_newest m st = (case st of (newest, cs) \<Rightarrow>
     (case dict_get newest (ms_ticker m) of
        None \<Rightarrow> (dict_put (ms_ticker m) m newest, cs)
      | Some held \<Rightarrow>
          (if freshness held < freshness m then dict_put (ms_ticker m) m newest else newest, bump Duplicate 1 cs)))"

definition sift :: "universe_policy \<Rightarrow> int \<Rightarrow> market_summary \<Rightarrow> market_summary list \<times> counts \<Rightarrow> market_summary list \<times> counts" where
  "sift p now_ts m st = (case st of (kept, cs) \<Rightarrow>
     (case rejection m p now_ts of None \<Rightarrow> (kept @ [m], cs) | Some r \<Rightarrow> (kept, bump r 1 cs)))"

definition eligible :: "market_summary list \<Rightarrow> universe_policy \<Rightarrow> int \<Rightarrow> counts \<Rightarrow> market_summary list \<times> counts" where
  "eligible markets p now_ts cs =
     (case fold keep_newest markets ([], cs) of (newest, cs1) \<Rightarrow>
        fold (sift p now_ts) (sort_key ms_ticker (map snd newest)) ([], cs1))"

section \<open>Choosing within a group\<close>

definition selects :: "universe_group \<Rightarrow> market_summary \<Rightarrow> (string, string) dict \<Rightarrow> bool" where
  "selects g m categories =
     (case ug_series g of
        Some series \<Rightarrow> ms_series_ticker m \<in> set series
      | None \<Rightarrow> dict_get categories (ms_series_ticker m) = ug_category g)"

type_synonym rejects = "(string, reason) dict"

definition setdefault :: "'k \<Rightarrow> 'v \<Rightarrow> ('k, 'v) dict \<Rightarrow> ('k, 'v) dict" where
  "setdefault k v d = (case dict_get d k of None \<Rightarrow> dict_put k v d | Some _ \<Rightarrow> d)"

definition reject :: "market_summary list \<Rightarrow> reason \<Rightarrow> rejects \<Rightarrow> rejects" where
  "reject markets r rejected = fold (\<lambda>m. setdefault (ms_ticker m) r) markets rejected"

definition reject_events :: "market_summary list list \<Rightarrow> reason \<Rightarrow> rejects \<Rightarrow> rejects" where
  "reject_events events r rejected = fold (\<lambda>event. reject event r) events rejected"

definition group_by :: "('a \<Rightarrow> 'k) \<Rightarrow> 'a list \<Rightarrow> ('k, 'a list) dict" where
  "group_by key xs = fold (\<lambda>x d. dict_put (key x) (dict_get_or d (key x) [] @ [x]) d) xs []"

definition in_horizon :: "int \<Rightarrow> market_summary list \<Rightarrow> bool" where
  "in_horizon latest event = (case earliest_close event of None \<Rightarrow> False | Some c \<Rightarrow> c \<le> latest)"

definition within_horizon ::
  "market_summary list list \<Rightarrow> universe_group \<Rightarrow> int \<Rightarrow> rejects \<Rightarrow> market_summary list list \<times> rejects" where
  "within_horizon events g now_ts rejected =
     (case ug_max_hours_to_close g of
        None \<Rightarrow> (events, rejected)
      | Some hours \<Rightarrow>
          let latest = now_ts + hours * SECONDS_PER_HOUR
          in (filter (in_horizon latest) events,
              reject_events (filter (\<lambda>e. \<not> in_horizon latest e) events) EventBeyondHorizon rejected))"

fun nearest_of_series ::
  "string list \<Rightarrow> (string, market_summary list list) dict \<Rightarrow> int \<Rightarrow> market_summary list list \<Rightarrow> rejects \<Rightarrow>
   market_summary list list \<times> rejects" where
  "nearest_of_series [] by_series n chosen rejected = (chosen, rejected)"
| "nearest_of_series (name # names) by_series n chosen rejected =
     (let ranked = sort_key nearest_event_first (dict_get_or by_series name [])
      in nearest_of_series names by_series n (chosen @ slice_to n ranked)
           (reject_events (slice_from n ranked) EventNotChosen rejected))"

definition nearest_events ::
  "market_summary list list \<Rightarrow> universe_group \<Rightarrow> string list \<Rightarrow> rejects \<Rightarrow> market_summary list list \<times> rejects" where
  "nearest_events events g series rejected =
     nearest_of_series series (group_by (\<lambda>event. ms_series_ticker (hd event)) events) (ug_events g) [] rejected"

definition busiest_events ::
  "market_summary list list \<Rightarrow> universe_group \<Rightarrow> int \<Rightarrow> rejects \<Rightarrow> market_summary list list \<times> rejects" where
  "busiest_events events g floor_volume rejected =
     (let qualified = filter (\<lambda>e. \<not> event_volume e < floor_volume) events;
          rejected1 = reject_events (filter (\<lambda>e. event_volume e < floor_volume) events) BelowVolume rejected;
          ranked = sort_key busiest_event_first qualified
      in (slice_to (ug_events g) ranked, reject_events (slice_from (ug_events g) ranked) EventNotChosen rejected1))"

fun take_markets ::
  "universe_group \<Rightarrow> market_summary list list \<Rightarrow> market_summary list \<Rightarrow> rejects \<Rightarrow> market_summary list \<times> rejects" where
  "take_markets g [] chosen rejected = (chosen, rejected)"
| "take_markets g (event # events) chosen rejected =
     (let ranked = sort_key (market_ranking (ug_market_order g) event) event
      in take_markets g events (chosen @ slice_to (ug_markets_per_event g) ranked)
           (reject (slice_from (ug_markets_per_event g) ranked) OverEventCap rejected))"

definition choose_events ::
  "universe_group \<Rightarrow> market_summary list list \<Rightarrow> int \<Rightarrow> rejects \<Rightarrow> market_summary list list \<times> rejects" where
  "choose_events g events floor_volume rejected =
     (case ug_series g of
        None \<Rightarrow> busiest_events events g floor_volume rejected
      | Some series \<Rightarrow> nearest_events events g series rejected)"

definition cap_markets :: "universe_group \<Rightarrow> market_summary list \<times> rejects \<Rightarrow> market_summary list \<times> rejects" where
  "cap_markets g cr =
     (case ug_max_markets g of
        None \<Rightarrow> cr
      | Some cap \<Rightarrow> (slice_to cap (fst cr), reject (slice_from cap (fst cr)) OverGroupCap (snd cr)))"

definition choose_markets ::
  "universe_group \<Rightarrow> market_summary list \<Rightarrow> int \<Rightarrow> int \<Rightarrow> rejects \<Rightarrow> market_summary list \<times> rejects" where
  "choose_markets g candidates floor_volume now_ts rejected =
     (let (events, rejected1) = within_horizon (map snd (group_by event_key candidates)) g now_ts rejected;
          (chosen_events, rejected2) = choose_events g events floor_volume rejected1
      in cap_markets g (take_markets g chosen_events [] rejected2))"

section \<open>Selecting\<close>

record select_state =
  ss_unchosen :: "(string, market_summary) dict"
  ss_passed_over :: rejects
  ss_group_of :: "(string, string) dict"
  ss_showcase :: "string set"
  ss_selections :: "group_selection list"
  ss_budget :: int
  ss_counts :: counts

definition chosen_by ::
  "universe_policy \<Rightarrow> int \<Rightarrow> (string, string) dict \<Rightarrow> (string, string list) dict \<Rightarrow> universe_group \<Rightarrow> select_state \<Rightarrow>
   market_summary list \<times> rejects" where
  "chosen_by p now_ts categories pinned g st =
     (case dict_get pinned (ug_name g) of
        None \<Rightarrow> choose_markets g (filter (\<lambda>m. selects g m categories) (map snd (ss_unchosen st)))
                  (up_min_volume_24h p) now_ts (ss_passed_over st)
      | Some held \<Rightarrow> (List.map_filter (dict_get (ss_unchosen st)) (fromkeys held), ss_passed_over st))"

definition apply_group ::
  "universe_policy \<Rightarrow> int \<Rightarrow> (string, string) dict \<Rightarrow> (string, string list) dict \<Rightarrow> universe_group \<Rightarrow> select_state \<Rightarrow> select_state" where
  "apply_group p now_ts categories pinned g st =
     (case chosen_by p now_ts categories pinned g st of (chosen, passed_over) \<Rightarrow>
      let admitted = slice_to (ss_budget st) chosen;
          skipped = length chosen - length admitted
      in \<lparr>ss_unchosen = fold (\<lambda>m. dict_pop (ms_ticker m)) chosen (ss_unchosen st),
          ss_passed_over = passed_over,
          ss_group_of = fold (\<lambda>m. dict_put (ms_ticker m) (ug_name g)) admitted (ss_group_of st),
          ss_showcase = (if ug_series g = None then ss_showcase st
                         else ss_showcase st \<union> ms_ticker ` set admitted),
          ss_selections = ss_selections st @
            [\<lparr>gs_name = ug_name g, gs_tickers = map ms_ticker admitted,
              gs_events = card (event_key ` set admitted), gs_skipped_for_budget = skipped\<rparr>],
          ss_budget = ss_budget st - int (length admitted),
          ss_counts = bump OverCap (int skipped) (ss_counts st)\<rparr>)"

definition start_state :: "market_summary list \<times> counts \<Rightarrow> int \<Rightarrow> select_state" where
  "start_state ec budget =
     \<lparr>ss_unchosen = fold (\<lambda>m. dict_put (ms_ticker m) m) (fst ec) [], ss_passed_over = [], ss_group_of = [],
      ss_showcase = {}, ss_selections = [], ss_budget = budget, ss_counts = snd ec\<rparr>"

definition select ::
  "market_summary list \<Rightarrow> universe_policy \<Rightarrow> int \<Rightarrow> (string, string) dict \<Rightarrow> (string, string list) dict \<Rightarrow> universe_decision" where
  "select markets p now_ts categories pinned =
     (let ec = eligible markets p now_ts (map (\<lambda>r. (r, 0)) REASONS);
          st = fold (apply_group p now_ts categories pinned) (up_groups p) (start_state ec (up_max_l2_markets p));
          cs = fold (\<lambda>t. bump (dict_get_or (ss_passed_over st) t NoGroup) 1) (dict_keys (ss_unchosen st)) (ss_counts st)
      in \<lparr>ud_l2_tickers = set (dict_keys (ss_group_of st)),
          ud_showcase = ss_showcase st,
          ud_markets = filter (\<lambda>m. ms_ticker m \<in> set (dict_keys (ss_group_of st))) (fst ec),
          ud_groups = ss_selections st,
          ud_group_of = ss_group_of st,
          ud_dropped_for_cap = dict_get_or cs OverCap 0,
          ud_reason_counts = cs\<rparr>)"

section \<open>Dictionaries of counts and groups\<close>

definition counts_sum :: "counts \<Rightarrow> int" where
  "counts_sum cs = sum_list (map snd cs)"

lemma counts_sum_bump [simp]: "counts_sum (bump r n cs) = counts_sum cs + n"
  by (simp add: counts_sum_def bump_def sum_put)

lemma get_bump [dict_simps]: "dict_get_or (bump r n cs) q 0 = dict_get_or cs q 0 + (if q = r then n else 0)"
  by (simp add: bump_def dict_simps)

lemma put_same: "dict_get d k = Some v \<Longrightarrow> dict_put k v d = d"
  by (induction d) (auto split: if_splits)

lemma put_put: "dict_put k v (dict_put k w d) = dict_put k v d"
  by (induction d) auto

lemma bump_bump: "bump r m (bump r n cs) = bump r (n + m) cs"
  by (simp add: bump_def dict_simps put_put add.assoc)

lemma bump_none: "dict_get cs r \<noteq> None \<Longrightarrow> bump r 0 cs = cs"
  by (auto simp: bump_def dict_get_or_def put_same)

lemma length_put: "length (dict_put k v d) = length d + (if dict_get d k = None then 1 else 0)"
  by (induction d) auto

lemma put_new_end: "dict_get d k = None \<Longrightarrow> dict_put k v d = d @ [(k, v)]"
  by (induction d) (auto split: if_splits)

lemma group_by_append: "group_by key (xs @ [x]) =
    dict_put (key x) (dict_get_or (group_by key xs) (key x) [] @ [x]) (group_by key xs)"
  by (simp add: group_by_def)

lemma group_by_get: "dict_get (group_by key xs) k = (if k \<in> key ` set xs then Some (filter (\<lambda>x. key x = k) xs) else None)"
proof (induction xs rule: rev_induct)
  case Nil
  then show ?case by (simp add: group_by_def)
next
  case (snoc x xs)
  have "key x \<notin> key ` set xs \<Longrightarrow> filter (\<lambda>y. key y = key x) xs = []"
    by (auto simp: filter_empty_conv image_iff)
  with snoc show ?case by (auto simp: group_by_append dict_simps dict_get_or_def)
qed

lemma group_by_wf: "dict_wf (group_by key xs)"
  by (induction xs rule: rev_induct) (simp_all add: group_by_def)

lemma mset_put_value:
  "mset (concat (map snd (dict_put k v d))) + mset (dict_get_or d k []) = mset (concat (map snd d)) + mset v"
  by (induction d) (auto simp: dict_get_or_def split: option.splits)

lemma group_by_mset: "mset (concat (map snd (group_by key xs))) = mset xs"
proof (induction xs rule: rev_induct)
  case Nil
  then show ?case by (simp add: group_by_def)
next
  case (snoc x xs)
  let ?d = "group_by key xs" and ?ys = "dict_get_or (group_by key xs) (key x) []"
  have "mset (concat (map snd (dict_put (key x) (?ys @ [x]) ?d))) + mset ?ys = mset xs + mset (?ys @ [x])"
    using mset_put_value [of "key x" "?ys @ [x]" ?d] snoc by simp
  then show ?case by (simp add: group_by_append)
qed

lemma group_by_item: "(k, ys) \<in> set (group_by key xs) \<Longrightarrow> ys = filter (\<lambda>x. key x = k) xs \<and> ys \<noteq> []"
  using dict_mem_get [OF group_by_wf, of k ys key xs]
  by (auto simp: group_by_get filter_empty_conv split: if_splits)

lemma mset_slice: "mset (slice_to n xs) \<subseteq># mset xs"
  by (metis mset_append mset_subset_eq_add_left slice_append)

lemma mset_concat_mono: "mset xs \<subseteq># mset ys \<Longrightarrow> mset (concat xs) \<subseteq># mset (concat ys)"
proof -
  assume "mset xs \<subseteq># mset ys"
  then obtain M where "mset ys = mset xs + M" by (metis mset_subset_eq_exists_conv)
  then have "\<Sum>\<^sub># (image_mset mset (mset ys)) = \<Sum>\<^sub># (image_mset mset (mset xs)) + \<Sum>\<^sub># (image_mset mset M)"
    by simp
  moreover have "mset (concat zs) = \<Sum>\<^sub># (image_mset mset (mset zs))" for zs :: "'a list list"
    by (induction zs) simp_all
  ultimately show ?thesis by simp
qed

lemma set_mono: "mset xs \<subseteq># mset ys \<Longrightarrow> set xs \<subseteq> set ys"
  by (metis set_mset_mono set_mset_mset)

lemma distinct_mono:
  assumes "mset xs \<subseteq># mset ys" "distinct ys"
  shows "distinct xs"
proof -
  obtain M where "mset ys = mset xs + M" using assms(1) by (metis mset_subset_eq_exists_conv)
  moreover obtain zs where "mset zs = M" by (metis ex_mset)
  ultimately have "mset ys = mset (xs @ zs)" by simp
  then show ?thesis using assms(2) mset_eq_imp_distinct_iff by fastforce
qed

section \<open>What the choice of a group takes\<close>

lemma take_markets_fst:
  "fst (take_markets g events chosen rejected) =
     chosen @ concat (map (\<lambda>e. slice_to (ug_markets_per_event g) (sort_key (market_ranking (ug_market_order g) e) e)) events)"
  by (induction g events chosen rejected rule: take_markets.induct) (simp_all add: Let_def)

lemma nearest_of_series_fst:
  "fst (nearest_of_series names d n chosen rejected) =
     chosen @ concat (map (\<lambda>s. slice_to n (sort_key nearest_event_first (dict_get_or d s []))) names)"
  by (induction names d n chosen rejected rule: nearest_of_series.induct) (simp_all add: Let_def)

lemma take_part: "mset (concat (map (\<lambda>e. slice_to k (sort_key (f e) e)) events)) \<subseteq># mset (concat events)"
proof (induction events)
  case (Cons e es)
  have "mset (slice_to k (sort_key (f e) e)) \<subseteq># mset e"
    using mset_slice [of k "sort_key (f e) e"] by simp
  with Cons show ?case by (simp add: subset_mset.add_mono)
qed simp

lemma series_part:
  assumes "distinct names"
  shows "mset (concat (map (\<lambda>s. slice_to n (sort_key f (dict_get_or d s []))) names)) \<subseteq># mset (concat (map snd d))"
  using assms
proof (induction names arbitrary: d)
  case Nil
  then show ?case by simp
next
  case (Cons s names)
  let ?d = "dict_put s [] d"
  have "map (\<lambda>s. slice_to n (sort_key f (dict_get_or ?d s []))) names = map (\<lambda>s. slice_to n (sort_key f (dict_get_or d s []))) names"
    using Cons.prems by (auto simp: dict_simps)
  moreover have "mset (slice_to n (sort_key f (dict_get_or d s []))) \<subseteq># mset (dict_get_or d s [])"
    using mset_slice [of n "sort_key f (dict_get_or d s [])"] by simp
  moreover have "mset (concat (map snd d)) = mset (dict_get_or d s []) + mset (concat (map snd ?d))"
    using mset_put_value [of s "[]" d] by (simp add: add.commute)
  moreover have "mset (concat (map (\<lambda>s. slice_to n (sort_key f (dict_get_or ?d s []))) names)) \<subseteq># mset (concat (map snd ?d))"
    using Cons.IH [of ?d] Cons.prems by simp
  ultimately show ?case by (simp only: list.map concat.simps mset_append subset_mset.add_mono)
qed

text \<open>The events a group ranks are homogeneous and each appears once.\<close>

definition events_ok :: "market_summary list list \<Rightarrow> bool" where
  "events_ok E \<longleftrightarrow> (\<forall>e\<in>set E. e \<noteq> [] \<and> (\<forall>m\<in>set e. event_key m = event_key (hd e))) \<and>
     distinct (map (\<lambda>e. event_key (hd e)) E)"

lemma events_okD: "events_ok E \<Longrightarrow> e \<in> set E \<Longrightarrow> m \<in> set e \<Longrightarrow> event_key m = event_key (hd e)"
  unfolding events_ok_def by blast

lemma events_ok_mono: "mset E' \<subseteq># mset E \<Longrightarrow> events_ok E \<Longrightarrow> events_ok E'"
proof -
  assume a: "mset E' \<subseteq># mset E" "events_ok E"
  have "mset (map (\<lambda>e. event_key (hd e)) E') \<subseteq># mset (map (\<lambda>e. event_key (hd e)) E)"
    using a(1) by (simp add: image_mset_subseteq_mono)
  then show ?thesis
    using a(2) set_mono [OF a(1)] distinct_mono unfolding events_ok_def by blast
qed

definition event_of :: "market_summary list \<Rightarrow> market_summary \<Rightarrow> market_summary list" where
  "event_of candidates m = filter (\<lambda>x. event_key x = event_key m) candidates"

lemma events_of_candidates:
  "events_ok (map snd (group_by event_key candidates))"
  "mset (concat (map snd (group_by event_key candidates))) = mset candidates"
  "e \<in> set (map snd (group_by event_key candidates)) \<Longrightarrow> m \<in> set e \<Longrightarrow> e = event_of candidates m"
  "m \<in> set candidates \<Longrightarrow> event_of candidates m \<in> set (map snd (group_by event_key candidates))"
proof -
  let ?d = "group_by event_key candidates"
  have item: "e = filter (\<lambda>x. event_key x = k) candidates \<and> e \<noteq> []" if "(k, e) \<in> set ?d" for k e
    using group_by_item [OF that] .
  have key: "event_key (hd e) = k" if "(k, e) \<in> set ?d" for k e
  proof -
    have e: "e = filter (\<lambda>x. event_key x = k) candidates" "e \<noteq> []" using item [OF that] by blast+
    have "set e \<subseteq> {x. event_key x = k}" unfolding e(1) by auto
    with hd_in_set [OF e(2)] show ?thesis by blast
  qed
  have keys: "map (\<lambda>e. event_key (hd e)) (map snd ?d) = map fst ?d"
    using key by auto
  show "events_ok (map snd ?d)"
    unfolding events_ok_def keys
  proof (intro conjI ballI)
    fix e assume "e \<in> set (map snd ?d)"
    then obtain k where k: "(k, e) \<in> set ?d" by auto
    show "e \<noteq> []" using item [OF k] by blast
    fix m assume "m \<in> set e"
    then show "event_key m = event_key (hd e)" using item [OF k] key [OF k] by auto
  qed (use group_by_wf [of event_key candidates] in \<open>simp add: dict_wf_def\<close>)
  show "mset (concat (map snd ?d)) = mset candidates" by (rule group_by_mset)
  show "e = event_of candidates m" if e: "e \<in> set (map snd ?d)" "m \<in> set e"
  proof -
    from e(1) obtain k where "(k, e) \<in> set ?d" by auto
    from item [OF this] show ?thesis using e(2) by (auto simp: event_of_def)
  qed
  show "event_of candidates m \<in> set (map snd ?d)" if m: "m \<in> set candidates"
  proof -
    have "dict_get ?d (event_key m) = Some (event_of candidates m)"
      using m by (simp add: group_by_get event_of_def)
    from dict_get_SomeD [OF this] show ?thesis by force
  qed
qed

lemma within_part: "mset (fst (within_horizon events g now rej)) \<subseteq># mset events"
  by (auto simp: within_horizon_def Let_def mset_filter split: option.splits)

lemma choose_events_part:
  assumes "\<And>series. ug_series g = Some series \<Longrightarrow> distinct series"
  shows "mset (fst (choose_events g events fl rej)) \<subseteq># mset events"
proof (cases "ug_series g")
  case None
  have "mset (slice_to n (sort_key busiest_event_first (filter P events))) \<subseteq># mset events" for n P
    using mset_slice [of n "sort_key busiest_event_first (filter P events)"] multiset_filter_subset [of P "mset events"]
    by (simp add: subset_mset.order_trans)
  with None show ?thesis by (simp add: choose_events_def busiest_events_def Let_def)
next
  case (Some series)
  let ?d = "group_by (\<lambda>event. ms_series_ticker (hd event)) events"
  have "mset (fst (choose_events g events fl rej)) \<subseteq># mset (concat (map snd ?d))"
    using series_part [of series "ug_events g" nearest_event_first ?d] assms [OF Some]
    by (simp add: choose_events_def Some nearest_events_def nearest_of_series_fst)
  then show ?thesis by (simp only: group_by_mset)
qed

definition ranked_events :: "universe_group \<Rightarrow> market_summary list \<Rightarrow> int \<Rightarrow> int \<Rightarrow> rejects \<Rightarrow> market_summary list list" where
  "ranked_events g candidates fl now_ts rejected =
     (let w = within_horizon (map snd (group_by event_key candidates)) g now_ts rejected
      in fst (choose_events g (fst w) fl (snd w)))"

definition taken :: "universe_group \<Rightarrow> market_summary list list \<Rightarrow> market_summary list" where
  "taken g events = concat (map (\<lambda>e. slice_to (ug_markets_per_event g) (sort_key (market_ranking (ug_market_order g) e) e)) events)"

lemma choose_fst:
  "fst (choose_markets g candidates fl now_ts rejected) =
     (case ug_max_markets g of None \<Rightarrow> taken g (ranked_events g candidates fl now_ts rejected)
      | Some cap \<Rightarrow> slice_to cap (taken g (ranked_events g candidates fl now_ts rejected)))"
  by (simp add: choose_markets_def ranked_events_def taken_def cap_markets_def take_markets_fst Let_def split_beta
      split: option.split)

lemma chosen_slice:
  "\<exists>n. fst (choose_markets g candidates fl now_ts rejected) = slice_to n (taken g (ranked_events g candidates fl now_ts rejected))"
proof (cases "ug_max_markets g")
  case None
  then show ?thesis
    by (intro exI [of _ "int (length (taken g (ranked_events g candidates fl now_ts rejected)))"])
      (simp add: choose_fst slice_to_def)
qed (auto simp: choose_fst)

definition distinct_series :: "universe_group \<Rightarrow> bool" where
  "distinct_series g \<longleftrightarrow> (\<forall>series. ug_series g = Some series \<longrightarrow> distinct series)"

lemma ranked_events_part:
  assumes "distinct_series g"
  shows "mset (ranked_events g candidates fl now_ts rejected) \<subseteq># mset (map snd (group_by event_key candidates))"
proof -
  let ?w = "within_horizon (map snd (group_by event_key candidates)) g now_ts rejected"
  have "mset (fst (choose_events g (fst ?w) fl (snd ?w))) \<subseteq># mset (fst ?w)"
    by (rule choose_events_part) (use assms in \<open>simp add: distinct_series_def\<close>)
  also have "\<dots> \<subseteq># mset (map snd (group_by event_key candidates))" by (rule within_part)
  finally show ?thesis by (simp add: ranked_events_def Let_def)
qed

lemma chosen_part:
  assumes "distinct_series g"
  shows "mset (fst (choose_markets g candidates fl now_ts rejected)) \<subseteq># mset candidates"
proof -
  let ?E = "ranked_events g candidates fl now_ts rejected"
  obtain n where "fst (choose_markets g candidates fl now_ts rejected) = slice_to n (taken g ?E)"
    using chosen_slice by blast
  then have "mset (fst (choose_markets g candidates fl now_ts rejected)) \<subseteq># mset (taken g ?E)"
    using mset_slice by metis
  also have "\<dots> \<subseteq># mset (concat ?E)" unfolding taken_def by (rule take_part)
  also have "\<dots> \<subseteq># mset (concat (map snd (group_by event_key candidates)))"
    by (rule mset_concat_mono) (rule ranked_events_part [OF assms])
  also have "\<dots> = mset candidates" by (rule group_by_mset)
  finally show ?thesis .
qed

lemma length_filter_slice: "0 \<le> n \<Longrightarrow> int (length (filter P (slice_to n xs))) \<le> n"
  using length_filter_le [of P "slice_to n xs"] length_slice_to [of n xs] by linarith

lemma filter_slice_le: "length (filter P (slice_to n xs)) \<le> length (filter P xs)"
  by (metis filter_append le_add1 length_append slice_append)

lemma in_slice: "x \<in> set (slice_to n xs) \<Longrightarrow> x \<in> set xs"
  unfolding slice_to_def by (rule in_set_takeD)

lemma taken_per_event:
  assumes "events_ok E" "0 \<le> ug_markets_per_event g"
  shows "int (length (filter (\<lambda>m. event_key m = k) (taken g E))) \<le> ug_markets_per_event g"
  using assms
proof (induction E)
  case Nil
  then show ?case by (simp add: taken_def)
next
  case (Cons e E)
  let ?s = "slice_to (ug_markets_per_event g) (sort_key (market_ranking (ug_market_order g) e) e)"
  have E: "events_ok E" by (rule events_ok_mono [OF _ Cons.prems(1)]) simp
  have cons: "taken g (e # E) = ?s @ taken g E" by (simp add: taken_def)
  have mem: "event_key m = event_key (hd e)" if "m \<in> set ?s" for m
  proof -
    have "m \<in> set e" using in_slice [OF that] by simp
    then show ?thesis using events_okD [OF Cons.prems(1)] by (metis list.set_intros(1))
  qed
  show ?case
  proof (cases "event_key (hd e) = k")
    case True
    have "m \<notin> set (taken g E)" if "event_key m = k" for m
    proof
      assume "m \<in> set (taken g E)"
      then obtain f where "f \<in> set E" "m \<in> set f" by (auto simp: taken_def dest: in_slice)
      then have "event_key (hd f) = k" using events_okD [OF E] that by metis
      moreover have "distinct (map (\<lambda>f. event_key (hd f)) (e # E))"
        using Cons.prems(1) unfolding events_ok_def by blast
      then have "event_key (hd e) \<notin> (\<lambda>f. event_key (hd f)) ` set E" by simp
      ultimately show False using True \<open>f \<in> set E\<close> by blast
    qed
    then have "filter (\<lambda>m. event_key m = k) (taken g E) = []" by (auto simp: filter_empty_conv)
    moreover have "int (length (filter (\<lambda>m. event_key m = k) ?s)) \<le> ug_markets_per_event g"
      by (rule length_filter_slice) (rule Cons.prems(2))
    ultimately show ?thesis by (simp add: cons)
  next
    case False
    then have "filter (\<lambda>m. event_key m = k) ?s = []" using mem by (auto simp: filter_empty_conv)
    then show ?thesis using Cons.IH [OF E Cons.prems(2)] by (simp add: cons)
  qed
qed

lemma taken_events: "event_key ` set (taken g E) \<subseteq> (\<lambda>e. event_key (hd e)) ` set E" if "events_ok E"
proof
  fix k assume "k \<in> event_key ` set (taken g E)"
  then obtain m e where "k = event_key m" "e \<in> set E" "m \<in> set e"
    by (auto simp: taken_def dest: in_slice)
  then show "k \<in> (\<lambda>e. event_key (hd e)) ` set E" using events_okD [OF that] by blast
qed

lemma ranked_category:
  assumes "ug_series g = None" "0 \<le> ug_events g"
  shows "int (length (ranked_events g candidates fl now_ts rejected)) \<le> ug_events g"
  using length_slice_to [OF assms(2)] assms(1)
  by (simp add: ranked_events_def Let_def choose_events_def busiest_events_def)

lemma ranked_series:
  assumes "ug_series g = Some series" "distinct series" "0 \<le> ug_events g"
  shows "int (length (filter (\<lambda>e. ms_series_ticker (hd e) = s) (ranked_events g candidates fl now_ts rejected))) \<le> ug_events g"
proof -
  define w where "w = within_horizon (map snd (group_by event_key candidates)) g now_ts rejected"
  let ?d = "group_by (\<lambda>event. ms_series_ticker (hd event)) (fst w)"
  let ?f = "\<lambda>t. slice_to (ug_events g) (sort_key nearest_event_first (dict_get_or ?d t []))"
  have ranked: "ranked_events g candidates fl now_ts rejected = concat (map ?f series)"
    by (simp add: ranked_events_def Let_def choose_events_def assms(1) nearest_events_def nearest_of_series_fst w_def)
  have key: "ms_series_ticker (hd e) = t" if "e \<in> set (?f t)" for e t
    using in_slice [OF that] by (auto simp: dict_get_or_def group_by_get split: if_splits)
  have "int (length (filter (\<lambda>e. ms_series_ticker (hd e) = s) (concat (map ?f names)))) \<le> ug_events g"
    if "distinct names" for names
    using that
  proof (induction names)
    case Nil
    then show ?case using assms(3) by simp
  next
    case (Cons t names)
    show ?case
    proof (cases "t = s")
      case True
      then have "filter (\<lambda>e. ms_series_ticker (hd e) = s) (concat (map ?f names)) = []"
        using Cons.prems key by (fastforce simp: filter_empty_conv)
      moreover have "int (length (filter (\<lambda>e. ms_series_ticker (hd e) = s) (?f t))) \<le> ug_events g"
        by (rule length_filter_slice) (rule assms(3))
      ultimately show ?thesis by simp
    next
      case False
      then have "filter (\<lambda>e. ms_series_ticker (hd e) = s) (?f t) = []"
        using key by (fastforce simp: filter_empty_conv)
      then show ?thesis using Cons by simp
    qed
  qed
  then show ?thesis using assms(2) by (simp only: ranked)
qed

section \<open>The state of a selection\<close>

lemma sum_list_counts_start: "counts_sum (map (\<lambda>r. (r, 0)) REASONS) = 0"
  by (simp add: counts_sum_def REASONS_def)

lemma newest_accounts:
  "fold keep_newest markets (d, cs) = (d', cs') \<Longrightarrow>
   counts_sum cs' + int (length d') = counts_sum cs + int (length d) + int (length markets) \<and>
   (r \<noteq> Duplicate \<longrightarrow> dict_get_or cs' r 0 = dict_get_or cs r 0)"
proof (induction markets arbitrary: d cs)
  case Nil
  then show ?case by simp
next
  case (Cons m markets)
  obtain e ds where step: "keep_newest m (d, cs) = (e, ds)" by fastforce
  have "counts_sum ds + int (length e) = counts_sum cs + int (length d) + 1"
    "r \<noteq> Duplicate \<longrightarrow> dict_get_or ds r 0 = dict_get_or cs r 0"
    using step by (auto simp: keep_newest_def length_put dict_simps split: option.splits if_splits)
  with Cons.IH [of e ds] Cons.prems step show ?case by simp
qed

lemma newest_wf:
  assumes "fold keep_newest markets (d, cs) = (d', cs')" "dict_wf d" "\<forall>(t, m)\<in>set d. ms_ticker m = t"
  shows "dict_wf d' \<and> (\<forall>(t, m)\<in>set d'. ms_ticker m = t \<and> m \<in> set markets \<union> snd ` set d)"
  using assms
proof (induction markets arbitrary: d cs)
  case Nil
  then show ?case by force
next
  case (Cons m markets)
  obtain e ds where step: "keep_newest m (d, cs) = (e, ds)" by fastforce
  have e: "e = d \<or> e = dict_put (ms_ticker m) m d"
    using step by (auto simp: keep_newest_def split: option.splits if_splits)
  then have wf: "dict_wf e" using Cons.prems(2) by auto
  have items: "ms_ticker x = t \<and> (x = m \<or> (t, x) \<in> set d)" if "(t, x) \<in> set e" for t x
    using that e Cons.prems(2,3) dict_mem_get [OF wf, of t x] dict_mem_get [OF Cons.prems(2), of t x]
    by (auto simp: dict_simps split: if_splits)
  then have keys: "\<forall>(t, x)\<in>set e. ms_ticker x = t" by blast
  from Cons.IH [of e ds, OF _ wf keys] Cons.prems(1) step
  show ?case using items by fastforce
qed

lemma sift_result:
  "fold (sift p now) xs (kept, cs) = (kept', cs') \<Longrightarrow>
   kept' = kept @ filter (\<lambda>m. rejection m p now = None) xs \<and>
   counts_sum cs' + int (length (filter (\<lambda>m. rejection m p now = None) xs)) = counts_sum cs + int (length xs) \<and>
   dict_get_or cs' OverCap 0 = dict_get_or cs OverCap 0"
proof (induction xs arbitrary: kept cs)
  case Nil
  then show ?case by simp
next
  case (Cons m xs)
  have "rejection m p now \<noteq> Some OverCap"
    by (auto simp: rejection_def split: option.splits if_splits)
  moreover obtain k ds where step: "sift p now m (kept, cs) = (k, ds)" by fastforce
  ultimately have "k = kept @ filter (\<lambda>m. rejection m p now = None) [m]"
    "counts_sum ds + int (length (filter (\<lambda>m. rejection m p now = None) [m])) = counts_sum cs + 1"
    "dict_get_or ds OverCap 0 = dict_get_or cs OverCap 0"
    by (auto simp: sift_def dict_simps split: option.splits)
  with Cons.IH [of k ds] Cons.prems step show ?case by (simp split: if_splits)
qed

definition eligible_ok :: "universe_policy \<Rightarrow> int \<Rightarrow> market_summary list \<Rightarrow> market_summary list \<Rightarrow> bool" where
  "eligible_ok p now markets E \<longleftrightarrow> sorted_wrt (<) (map ms_ticker E) \<and>
     (\<forall>m\<in>set E. m \<in> set markets \<and> rejection m p now = None)"

lemma eligible_result:
  assumes "eligible markets p now (map (\<lambda>r. (r, 0)) REASONS) = (E, cs)"
  shows "eligible_ok p now markets E" "counts_sum cs + int (length E) = int (length markets)"
    "dict_get_or cs OverCap 0 = 0"
proof -
  let ?zero = "map (\<lambda>r. (r, 0)) REASONS"
  obtain d cs1 where d: "fold keep_newest markets ([], ?zero) = (d, cs1)" by fastforce
  then have sift: "fold (sift p now) (sort_key ms_ticker (map snd d)) ([], cs1) = (E, cs)"
    using assms by (simp add: eligible_def)
  have zero: "dict_get_or ?zero r 0 = 0" for r
    by (cases r) (simp_all add: REASONS_def dict_get_or_def)
  note acc = newest_accounts [OF d, of OverCap] and wf = newest_wf [OF d]
  have res: "E = filter (\<lambda>m. rejection m p now = None) (sort_key ms_ticker (map snd d))"
    "counts_sum cs + int (length (filter (\<lambda>m. rejection m p now = None) (sort_key ms_ticker (map snd d)))) =
     counts_sum cs1 + int (length d)" "dict_get_or cs OverCap 0 = dict_get_or cs1 OverCap 0"
    using sift_result [OF sift] by simp_all
  have keys: "map ms_ticker (map snd d) = dict_keys d" using wf by auto
  have "sorted_wrt (<) (map ms_ticker (sort_key ms_ticker (map snd d)))"
  proof -
    have "distinct (map ms_ticker (map snd d))" unfolding keys using wf by (simp add: dict_wf_def)
    then have "distinct (map ms_ticker (sort_key ms_ticker (map snd d)))"
      by (metis mset_map mset_sort mset_eq_imp_distinct_iff)
    then show ?thesis by (simp add: strict_sorted_iff)
  qed
  then have "sorted_wrt (<) (map ms_ticker E)"
    using res by (auto simp: sorted_wrt_map intro: sorted_wrt_filter)
  then show "eligible_ok p now markets E" using res wf by (auto simp: eligible_ok_def)
  show "counts_sum cs + int (length E) = int (length markets)"
    using res(2) acc sum_list_counts_start unfolding res(1) by simp
  show "dict_get_or cs OverCap 0 = 0" using res acc zero by simp
qed

lemma repeated_Nil: "repeated xs = [] \<longleftrightarrow> distinct xs"
proof -
  have "repeated xs = [] \<longleftrightarrow> (\<forall>x\<in>set xs. count (mset xs) x \<le> 1)"
  proof -
    have "repeated xs = [] \<longleftrightarrow> set (repeated xs) = {}" by simp
    also have "set (repeated xs) = {x \<in> set xs. 1 < count (mset xs) x}"
      by (auto simp: repeated_def count_mset count_list_eq_length_filter)
    finally show ?thesis by (auto simp: not_less)
  qed
  also have "\<dots> \<longleftrightarrow> distinct xs"
    using count_greater_zero_iff [of "mset xs"]
    by (auto simp: distinct_count_atmost_1 le_Suc_eq)
  finally show ?thesis .
qed

lemma check_positive_None:
  "check_positive xs = None \<longleftrightarrow> (\<forall>(f, v)\<in>set xs. \<forall>x. v = Some x \<longrightarrow> 0 < x)"
  by (induction xs rule: check_positive.induct) (auto split: option.splits)

lemma valid_group:
  assumes "group_error g = None"
  shows "distinct_series g" "0 < ug_events g" "0 < ug_markets_per_event g"
    "ug_max_markets g = Some cap \<Longrightarrow> 0 < cap"
  using assms
  by (auto simp: group_error_def distinct_series_def check_positive_None repeated_Nil split: if_splits option.splits)

lemma valid_policy:
  assumes "policy_error p = None"
  shows "0 \<le> up_max_l2_markets p" "distinct (map ug_name (up_groups p))"
  using assms by (auto simp: policy_error_def repeated_Nil split: if_splits option.splits)

lemma pop_all: "fold (\<lambda>m. dict_pop (f m)) xs d = filter (\<lambda>(k, v). k \<notin> f ` set xs) d"
  by (induction xs arbitrary: d) (auto simp: AList.delete_eq intro!: filter_cong)

lemma length_pop_all:
  assumes "dict_wf d" "distinct (map f xs)" "f ` set xs \<subseteq> set (dict_keys d)"
  shows "length (fold (\<lambda>m. dict_pop (f m)) xs d) + length xs = length d"
proof -
  let ?d = "fold (\<lambda>m. dict_pop (f m)) xs d"
  have wf: "distinct (dict_keys ?d)"
    using assms(1) unfolding pop_all dict_wf_def by (simp add: distinct_map inj_on_def)
  have keys: "set (dict_keys ?d) = set (dict_keys d) - f ` set xs"
    unfolding pop_all by force
  have "length ?d = card (set (dict_keys d) - f ` set xs)"
    using distinct_card [OF wf] keys by simp
  also have "\<dots> = card (set (dict_keys d)) - card (f ` set xs)"
    using assms(3) by (intro card_Diff_subset) auto
  finally have "length ?d = length d - length xs"
    using distinct_card [of "dict_keys d"] distinct_card [OF assms(2)] assms(1) by (simp add: dict_wf_def)
  moreover have "length xs \<le> length d"
    using card_mono [OF _ assms(3)] distinct_card [of "dict_keys d"] distinct_card [OF assms(2)] assms(1)
    by (simp add: dict_wf_def)
  ultimately show ?thesis by simp
qed

lemma put_all:
  "distinct (map f xs) \<Longrightarrow> f ` set xs \<inter> set (dict_keys d) = {} \<Longrightarrow>
   fold (\<lambda>m. dict_put (f m) v) xs d = d @ map (\<lambda>m. (f m, v)) xs"
proof (induction xs arbitrary: d)
  case (Cons x xs)
  have "dict_get d (f x) = None" using Cons.prems(2) by (auto simp: map_of_eq_None_iff)
  then show ?case using Cons.IH [of "d @ [(f x, v)]"] Cons.prems by (auto simp: put_new_end)
qed simp

lemma distinct_part:
  assumes "distinct xs" "set xs \<subseteq> set ys"
  shows "mset xs \<subseteq># mset ys"
  using assms by (simp add: subseteq_mset_def distinct_count_atmost_1) (metis count_greater_eq_one_iff in_mono set_mset_mset zero_le)

definition group_limits :: "market_summary list \<Rightarrow> (string, string list) dict \<Rightarrow> universe_group \<Rightarrow> group_selection \<Rightarrow> bool" where
  "group_limits E pinned g s \<longleftrightarrow> gs_name s = ug_name g \<and>
     (case dict_get pinned (ug_name g) of
        Some held \<Rightarrow> set (gs_tickers s) \<subseteq> set held
      | None \<Rightarrow>
          (\<forall>cap. ug_max_markets g = Some cap \<longrightarrow> int (length (gs_tickers s)) \<le> cap) \<and>
          (\<forall>k. int (length (filter (\<lambda>m. ms_ticker m \<in> set (gs_tickers s) \<and> event_key m = k) E)) \<le> ug_markets_per_event g) \<and>
          (ug_series g = None \<longrightarrow> int (gs_events s) \<le> ug_events g) \<and>
          (\<forall>series. int (card {k \<in> event_key ` {m \<in> set E. ms_ticker m \<in> set (gs_tickers s)}. fst k = series}) \<le> ug_events g))"

definition sel_inv ::
  "market_summary list \<Rightarrow> (string, string list) dict \<Rightarrow> int \<Rightarrow> int \<Rightarrow> universe_group list \<Rightarrow> select_state \<Rightarrow> bool" where
  "sel_inv E pinned maxb listed groups st \<longleftrightarrow>
     dict_wf (ss_unchosen st) \<and> (\<forall>(t, m)\<in>set (ss_unchosen st). ms_ticker m = t \<and> m \<in> set E) \<and>
     distinct (dict_keys (ss_group_of st)) \<and> set (dict_keys (ss_group_of st)) \<subseteq> ms_ticker ` set E \<and>
     set (dict_keys (ss_unchosen st)) \<inter> set (dict_keys (ss_group_of st)) = {} \<and>
     counts_sum (ss_counts st) + int (length (ss_unchosen st)) + int (length (ss_group_of st)) = listed \<and>
     0 \<le> ss_budget st \<and> int (length (ss_group_of st)) + ss_budget st = maxb \<and>
     dict_get_or (ss_counts st) OverCap 0 = int (sum_list (map gs_skipped_for_budget (ss_selections st))) \<and>
     ss_group_of st = concat (map (\<lambda>s. map (\<lambda>t. (t, gs_name s)) (gs_tickers s)) (ss_selections st)) \<and>
     list_all2 (group_limits E pinned) groups (ss_selections st) \<and>
     (\<forall>t r. dict_get (ss_passed_over st) t = Some r \<longrightarrow> r \<noteq> OverCap)"

lemma chosen_by_part:
  assumes "sel_inv E pinned maxb listed groups st" "distinct_series g"
  shows "mset (fst (chosen_by p now cats pinned g st)) \<subseteq># mset (map snd (ss_unchosen st))"
proof (cases "dict_get pinned (ug_name g)")
  case None
  have "mset (fst (choose_markets g (filter (\<lambda>m. selects g m cats) (map snd (ss_unchosen st))) fl now rej))
      \<subseteq># mset (filter (\<lambda>m. selects g m cats) (map snd (ss_unchosen st)))" for fl rej
    by (rule chosen_part [OF assms(2)])
  also have "mset (filter (\<lambda>m. selects g m cats) (map snd (ss_unchosen st))) \<subseteq># mset (map snd (ss_unchosen st))"
    by (simp add: mset_filter)
  finally show ?thesis using None by (simp add: chosen_by_def)
next
  case (Some held)
  let ?get = "dict_get (ss_unchosen st)"
  have items: "\<forall>(t, m)\<in>set (ss_unchosen st). ms_ticker m = t \<and> m \<in> set E"
    using assms(1) unfolding sel_inv_def by blast
  have key: "ms_ticker m = t \<and> m \<in> snd ` set (ss_unchosen st)" if "?get t = Some m" for t m
    using items dict_get_SomeD [OF that] by force
  have "distinct (List.map_filter ?get xs)" if "distinct xs" for xs
    using that
  proof (induction xs)
    case (Cons x xs)
    have "y \<notin> set (List.map_filter ?get xs)" if "?get x = Some y" for y
    proof
      assume "y \<in> set (List.map_filter ?get xs)"
      then obtain z where "z \<in> set xs" "?get z = Some y" by (auto simp: map_filter_def)
      then show False using key [OF that] key [of z y] Cons.prems by auto
    qed
    then show ?case using Cons by (cases "?get x") (auto simp: map_filter_def)
  qed (simp add: map_filter_def)
  moreover have "set (List.map_filter ?get (fromkeys held)) \<subseteq> set (map snd (ss_unchosen st))"
    using key by (auto simp: map_filter_def)
  ultimately show ?thesis
    using distinct_part [of "List.map_filter ?get (fromkeys held)" "map snd (ss_unchosen st)"] Some
    by (simp add: chosen_by_def)
qed

lemma reject_values:
  "dict_get (reject ms r rej) t = Some q \<Longrightarrow> q = r \<or> dict_get rej t = Some q"
proof (induction ms arbitrary: rej)
  case (Cons m ms)
  have "dict_get (reject ms r (setdefault (ms_ticker m) r rej)) t = Some q"
    using Cons.prems by (simp add: reject_def)
  from Cons.IH [OF this] show ?case
    by (auto simp: setdefault_def dict_simps split: option.splits if_splits)
qed (simp add: reject_def)

lemma reject_events_values:
  "dict_get (reject_events es r rej) t = Some q \<Longrightarrow> q = r \<or> dict_get rej t = Some q"
proof (induction es arbitrary: rej)
  case (Cons e es)
  have "dict_get (reject_events es r (reject e r rej)) t = Some q"
    using Cons.prems by (simp add: reject_events_def)
  from Cons.IH [OF this] show ?case using reject_values [of e r rej t q] by blast
qed (simp add: reject_events_def)

definition no_cap :: "rejects \<Rightarrow> bool" where
  "no_cap rej \<longleftrightarrow> (\<forall>t r. dict_get rej t = Some r \<longrightarrow> r \<noteq> OverCap)"

lemma no_cap_reject: "no_cap rej \<Longrightarrow> r \<noteq> OverCap \<Longrightarrow> no_cap (reject ms r rej)"
  unfolding no_cap_def using reject_values by blast

lemma no_cap_reject_events: "no_cap rej \<Longrightarrow> r \<noteq> OverCap \<Longrightarrow> no_cap (reject_events es r rej)"
  unfolding no_cap_def using reject_events_values by blast

lemma no_cap_within: "no_cap rej \<Longrightarrow> no_cap (snd (within_horizon E g now rej))"
  by (auto simp: within_horizon_def Let_def no_cap_reject_events split: option.split)

lemma no_cap_nearest: "no_cap rej \<Longrightarrow> no_cap (snd (nearest_of_series names d n chosen rej))"
  by (induction names d n chosen rej rule: nearest_of_series.induct) (simp_all add: Let_def no_cap_reject_events)

lemma no_cap_take: "no_cap rej \<Longrightarrow> no_cap (snd (take_markets g E chosen rej))"
  by (induction g E chosen rej rule: take_markets.induct) (simp_all add: Let_def no_cap_reject)

lemma no_cap_events: "no_cap rej \<Longrightarrow> no_cap (snd (choose_events g E fl rej))"
  by (auto simp: choose_events_def busiest_events_def nearest_events_def Let_def no_cap_nearest no_cap_reject_events
      split: option.split)

lemma no_cap_choose: "no_cap rej \<Longrightarrow> no_cap (snd (choose_markets g cands fl now rej))"
  by (auto simp: choose_markets_def cap_markets_def split_beta Let_def intro!: no_cap_reject no_cap_take no_cap_events no_cap_within
      split: option.split)

lemma card_image_length: "card (f ` set xs) \<le> length xs"
  by (metis card_length length_map set_map)

lemma chosen_limits:
  assumes "group_error g = None"
  shows "ug_max_markets g = Some cap \<Longrightarrow> int (length (fst (choose_markets g cands fl now rej))) \<le> cap"
    and "int (length (filter (\<lambda>m. event_key m = k) (fst (choose_markets g cands fl now rej)))) \<le> ug_markets_per_event g"
    and "ug_series g = None \<Longrightarrow> int (card (event_key ` set (fst (choose_markets g cands fl now rej)))) \<le> ug_events g"
    and "int (card {k \<in> event_key ` set (fst (choose_markets g cands fl now rej)). fst k = s}) \<le> ug_events g"
proof -
  let ?E = "ranked_events g cands fl now rej" and ?c = "fst (choose_markets g cands fl now rej)"
  note g = valid_group [OF assms]
  obtain n where n: "?c = slice_to n (taken g ?E)" using chosen_slice by blast
  have ok: "events_ok ?E"
    by (rule events_ok_mono [OF ranked_events_part [OF g(1)] events_of_candidates(1)])
  have keys: "event_key ` set ?c \<subseteq> (\<lambda>e. event_key (hd e)) ` set ?E"
    using taken_events [OF ok] in_slice [of _ n "taken g ?E"] unfolding n by blast
  show "int (length ?c) \<le> cap" if "ug_max_markets g = Some cap"
    using length_slice_to [of cap] g(4) [OF that] that by (simp add: choose_fst)
  have "int (length (filter (\<lambda>m. event_key m = k) (taken g ?E))) \<le> ug_markets_per_event g"
    by (rule taken_per_event [OF ok]) (use g(3) in simp)
  then show "int (length (filter (\<lambda>m. event_key m = k) ?c)) \<le> ug_markets_per_event g"
    using filter_slice_le [of "\<lambda>m. event_key m = k" n "taken g ?E"] unfolding n by linarith
  show cat: "int (card (event_key ` set ?c)) \<le> ug_events g" if "ug_series g = None"
  proof -
    have "card (event_key ` set ?c) \<le> card ((\<lambda>e. event_key (hd e)) ` set ?E)"
      by (rule card_mono [OF _ keys]) simp
    also have "\<dots> \<le> length ?E" by (rule card_image_length)
    finally show ?thesis using ranked_category [OF that, of cands fl now rej] g(2) by linarith
  qed
  show "int (card {k \<in> event_key ` set ?c. fst k = s}) \<le> ug_events g"
  proof (cases "ug_series g")
    case None
    have "card {k \<in> event_key ` set ?c. fst k = s} \<le> card (event_key ` set ?c)"
      by (rule card_mono) auto
    with cat [OF None] show ?thesis by linarith
  next
    case (Some series)
    let ?F = "filter (\<lambda>e. ms_series_ticker (hd e) = s) ?E"
    have "{k \<in> event_key ` set ?c. fst k = s} \<subseteq> (\<lambda>e. event_key (hd e)) ` set ?F"
    proof
      fix k assume k: "k \<in> {k \<in> event_key ` set ?c. fst k = s}"
      with keys obtain e where "e \<in> set ?E" "k = event_key (hd e)" by blast
      then show "k \<in> (\<lambda>e. event_key (hd e)) ` set ?F" using k by (auto simp: event_key_def)
    qed
    then have "card {k \<in> event_key ` set ?c. fst k = s} \<le> card ((\<lambda>e. event_key (hd e)) ` set ?F)"
      by (intro card_mono) auto
    also have "\<dots> \<le> length ?F" by (rule card_image_length)
    finally have "int (card {k \<in> event_key ` set ?c. fst k = s}) \<le> int (length ?F)" by simp
    also have "\<dots> \<le> ug_events g"
      by (rule ranked_series [OF Some]) (use g(1,2) Some in \<open>auto simp: distinct_series_def\<close>)
    finally show ?thesis .
  qed
qed

lemma sel_invD:
  assumes "sel_inv E pinned maxb listed groups st"
  shows "dict_wf (ss_unchosen st)" "\<forall>(t, m)\<in>set (ss_unchosen st). ms_ticker m = t \<and> m \<in> set E"
    "distinct (dict_keys (ss_group_of st))" "set (dict_keys (ss_group_of st)) \<subseteq> ms_ticker ` set E"
    "set (dict_keys (ss_unchosen st)) \<inter> set (dict_keys (ss_group_of st)) = {}"
    "counts_sum (ss_counts st) + int (length (ss_unchosen st)) + int (length (ss_group_of st)) = listed"
    "0 \<le> ss_budget st" "int (length (ss_group_of st)) + ss_budget st = maxb"
    "dict_get_or (ss_counts st) OverCap 0 = int (sum_list (map gs_skipped_for_budget (ss_selections st)))"
    "ss_group_of st = concat (map (\<lambda>s. map (\<lambda>t. (t, gs_name s)) (gs_tickers s)) (ss_selections st))"
    "list_all2 (group_limits E pinned) groups (ss_selections st)"
    "no_cap (ss_passed_over st)"
  using assms unfolding sel_inv_def no_cap_def by blast+

lemma chosen_facts:
  assumes inv: "sel_inv E pinned maxb listed groups st" and g: "distinct_series g"
    and c_def: "c = fst (chosen_by p now cats pinned g st)"
  shows "distinct (map ms_ticker c)" "ms_ticker ` set c \<subseteq> set (dict_keys (ss_unchosen st))" "set c \<subseteq> set E"
proof -
  note i = sel_invD [OF inv]
  have part: "mset c \<subseteq># mset (map snd (ss_unchosen st))"
    unfolding c_def by (rule chosen_by_part [OF inv g])
  have keys: "map ms_ticker (map snd (ss_unchosen st)) = dict_keys (ss_unchosen st)"
    using i(2) by auto
  have sub: "mset (map ms_ticker c) \<subseteq># mset (dict_keys (ss_unchosen st))"
    using image_mset_subseteq_mono [OF part, of ms_ticker] unfolding keys [symmetric] mset_map .
  show "distinct (map ms_ticker c)"
    by (rule distinct_mono [OF sub]) (use i(1) in \<open>simp add: dict_wf_def\<close>)
  show "ms_ticker ` set c \<subseteq> set (dict_keys (ss_unchosen st))"
    using set_mono [OF sub] by (simp only: set_map)
  show "set c \<subseteq> set E" using set_mono [OF part] i(2) by fastforce
qed

lemma filter_tickers:
  assumes "distinct (map ms_ticker E)" "set a \<subseteq> set E" "distinct (map ms_ticker a)"
  shows "{m \<in> set E. ms_ticker m \<in> ms_ticker ` set a} = set a"
    and "length (filter (\<lambda>m. ms_ticker m \<in> ms_ticker ` set a \<and> Q m) E) = length (filter Q a)"
proof -
  have inj: "inj_on ms_ticker (set E)" "distinct E" using assms(1) by (simp_all add: distinct_map)
  show eq: "{m \<in> set E. ms_ticker m \<in> ms_ticker ` set a} = set a"
    using inj(1) assms(2) by (auto simp: inj_on_def)
  have "set (filter (\<lambda>m. ms_ticker m \<in> ms_ticker ` set a \<and> Q m) E) = set (filter Q a)"
    using eq by auto
  moreover have "distinct (filter (\<lambda>m. ms_ticker m \<in> ms_ticker ` set a \<and> Q m) E)" "distinct (filter Q a)"
    using inj(2) assms(3) by (simp_all add: distinct_map)
  ultimately show "length (filter (\<lambda>m. ms_ticker m \<in> ms_ticker ` set a \<and> Q m) E) = length (filter Q a)"
    by (metis distinct_card)
qed

lemma chosen_by_limits:
  assumes "group_error g = None" "distinct (map ms_ticker E)" "set a \<subseteq> set E" "distinct (map ms_ticker a)"
    "fst (chosen_by p now cats pinned g st) = a @ rest" "sel_inv E pinned maxb listed groups st"
  shows "group_limits E pinned g \<lparr>gs_name = ug_name g, gs_tickers = map ms_ticker a,
     gs_events = card (event_key ` set a), gs_skipped_for_budget = sk\<rparr>"
proof (cases "dict_get pinned (ug_name g)")
  case (Some held)
  have "set a \<subseteq> set (List.map_filter (dict_get (ss_unchosen st)) (fromkeys held))"
    using assms(5) Some by (auto simp: chosen_by_def)
  then have "\<exists>t\<in>set held. dict_get (ss_unchosen st) t = Some m" if "m \<in> set a" for m
    using that by (force simp: map_filter_def)
  then have "ms_ticker m \<in> set held" if "m \<in> set a" for m
    using that sel_invD(2) [OF assms(6)] dict_get_SomeD [of "ss_unchosen st"] by fastforce
  then show ?thesis using Some by (auto simp: group_limits_def)
next
  case None
  obtain cands fl rej where c: "fst (choose_markets g cands fl now rej) = a @ rest"
    using assms(5) None by (auto simp: chosen_by_def)
  note lim = chosen_limits [OF assms(1), where cands = cands and fl = fl and now = now and rej = rej, unfolded c]
  note ft = filter_tickers [OF assms(2,3,4)]
  have mono: "card (event_key ` set a) \<le> card (event_key ` set (a @ rest))"
    "card {k \<in> event_key ` set a. fst k = s} \<le> card {k \<in> event_key ` set (a @ rest). fst k = s}" for s
    by (auto intro!: card_mono)
  have "int (length a) \<le> cap" if "ug_max_markets g = Some cap" for cap
    using lim(1) [OF that] by simp
  moreover have "int (length (filter (\<lambda>m. event_key m = k) a)) \<le> ug_markets_per_event g" for k
    using lim(2) [of k] by simp
  moreover have "int (card (event_key ` set a)) \<le> ug_events g" if "ug_series g = None"
    using lim(3) [OF that] mono(1) by linarith
  moreover have "int (card {k \<in> event_key ` set a. fst k = s}) \<le> ug_events g" for s
    using lim(4) [of s] mono(2) [of s] by linarith
  ultimately show ?thesis
    using None by (simp add: group_limits_def ft)
qed

lemma apply_group_inv:
  assumes inv: "sel_inv E pinned maxb listed groups st" and g: "group_error g = None"
    and E: "distinct (map ms_ticker E)"
  shows "sel_inv E pinned maxb listed (groups @ [g]) (apply_group p now cats pinned g st)"
proof -
  define c where "c = fst (chosen_by p now cats pinned g st)"
  define a where "a = slice_to (ss_budget st) c"
  define rest where "rest = slice_from (ss_budget st) c"
  define st' where "st' = apply_group p now cats pinned g st"
  note i = sel_invD [OF inv]
  note cf = chosen_facts [OF inv valid_group(1) [OF g] c_def]
  have c: "c = a @ rest" by (simp add: a_def rest_def)
  have a: "distinct (map ms_ticker a)" "set a \<subseteq> set E" "int (length a) \<le> ss_budget st"
    using cf(1,3) length_slice_to [OF i(7), of c] unfolding c [symmetric] a_def [symmetric] by (auto simp: c)
  have free: "ms_ticker ` set a \<inter> set (dict_keys (ss_group_of st)) = {}"
    using cf(2) i(5) by (auto simp: c)
  have put: "fold (\<lambda>m. dict_put (ms_ticker m) (ug_name g)) a (ss_group_of st) =
      ss_group_of st @ map (\<lambda>m. (ms_ticker m, ug_name g)) a"
    by (rule put_all [OF a(1) free])
  have pop: "length (fold (\<lambda>m. dict_pop (ms_ticker m)) c (ss_unchosen st)) + length c = length (ss_unchosen st)"
    by (rule length_pop_all [OF i(1) cf(1,2)])
  let ?sel = "\<lparr>gs_name = ug_name g, gs_tickers = map ms_ticker a, gs_events = card (event_key ` set a),
      gs_skipped_for_budget = length rest\<rparr>"
  have st': "ss_unchosen st' = fold (\<lambda>m. dict_pop (ms_ticker m)) c (ss_unchosen st)"
    "ss_passed_over st' = snd (chosen_by p now cats pinned g st)"
    "ss_group_of st' = ss_group_of st @ map (\<lambda>m. (ms_ticker m, ug_name g)) a"
    "ss_selections st' = ss_selections st @ [?sel]"
    "ss_budget st' = ss_budget st - int (length a)"
    "ss_counts st' = bump OverCap (int (length rest)) (ss_counts st)"
    by (simp_all add: st'_def apply_group_def split_beta Let_def c_def [symmetric] a_def [symmetric] put)
      (simp_all add: c)
  have un: "ss_unchosen st' = filter (\<lambda>(k, v). k \<notin> ms_ticker ` set c) (ss_unchosen st)"
    unfolding st' by (rule pop_all)
  have "no_cap (snd (chosen_by p now cats pinned g st))"
    using i(12) no_cap_choose by (auto simp: chosen_by_def split: option.split)
  moreover have "dict_wf (ss_unchosen st')"
    using i(1) by (simp add: un dict_wf_def distinct_map inj_on_def)
  moreover have "\<forall>(t, m)\<in>set (ss_unchosen st'). ms_ticker m = t \<and> m \<in> set E"
    using i(2) by (auto simp: un)
  moreover have "distinct (dict_keys (ss_group_of st'))"
    using i(3) a(1) free by (simp add: st' o_def Int_commute)
  moreover have "set (dict_keys (ss_group_of st')) \<subseteq> ms_ticker ` set E"
    using i(4) a(2) by (auto simp: st')
  moreover have "set (dict_keys (ss_unchosen st')) \<inter> set (dict_keys (ss_group_of st')) = {}"
    using i(5) unfolding st'(3) un by (auto simp: c)
  moreover have "counts_sum (ss_counts st') + int (length (ss_unchosen st')) + int (length (ss_group_of st')) = listed"
    using i(6) pop unfolding st' by (simp add: c)
  moreover have "0 \<le> ss_budget st'" "int (length (ss_group_of st')) + ss_budget st' = maxb"
    using i(7,8) a(3) by (simp_all add: st')
  moreover have "dict_get_or (ss_counts st') OverCap 0 = int (sum_list (map gs_skipped_for_budget (ss_selections st')))"
    using i(9) by (simp add: st' dict_simps)
  moreover have "ss_group_of st' = concat (map (\<lambda>s. map (\<lambda>t. (t, gs_name s)) (gs_tickers s)) (ss_selections st'))"
    using i(10) by (simp add: st' o_def)
  moreover have "group_limits E pinned g ?sel"
    by (rule chosen_by_limits [OF g E a(2,1) c [unfolded c_def] inv])
  then have "list_all2 (group_limits E pinned) (groups @ [g]) (ss_selections st')"
    using i(11) by (simp add: st' list_all2_appendI)
  ultimately show ?thesis
    unfolding st'_def [symmetric] sel_inv_def no_cap_def [symmetric] st'(2) by blast
qed

lemma fold_groups_inv:
  assumes "sel_inv E pinned maxb listed groups st" "\<forall>g\<in>set gs. group_error g = None" "distinct (map ms_ticker E)"
  shows "sel_inv E pinned maxb listed (groups @ gs) (fold (apply_group p now cats pinned) gs st)"
  using assms
proof (induction gs arbitrary: groups st)
  case (Cons g gs)
  then show ?case
    using apply_group_inv [of E pinned maxb listed groups st g p now cats] Cons.IH [of "groups @ [g]"] by simp
qed simp

lemma start_inv:
  assumes "distinct (map ms_ticker E)" "0 \<le> maxb" "dict_get_or cs OverCap 0 = 0"
    "counts_sum cs + int (length E) = listed"
  shows "sel_inv E pinned maxb listed [] (start_state (E, cs) maxb)"
    and "ss_unchosen (start_state (E, cs) maxb) = map (\<lambda>m. (ms_ticker m, m)) E"
proof -
  have fold: "distinct (map ms_ticker xs) \<Longrightarrow> ms_ticker ` set xs \<inter> set (dict_keys d) = {} \<Longrightarrow>
      fold (\<lambda>m. dict_put (ms_ticker m) m) xs d = d @ map (\<lambda>m. (ms_ticker m, m)) xs" for xs d
  proof (induction xs arbitrary: d)
    case (Cons x xs)
    have "dict_get d (ms_ticker x) = None" using Cons.prems(2) by (auto simp: map_of_eq_None_iff)
    then show ?case using Cons.IH [of "d @ [(ms_ticker x, x)]"] Cons.prems by (auto simp: put_new_end)
  qed simp
  show un: "ss_unchosen (start_state (E, cs) maxb) = map (\<lambda>m. (ms_ticker m, m)) E"
    using fold [OF assms(1), of "[]"] by (simp add: start_state_def)
  show "sel_inv E pinned maxb listed [] (start_state (E, cs) maxb)"
    unfolding sel_inv_def un using assms by (auto simp: start_state_def dict_wf_def o_def)
qed

definition final_counts :: "select_state \<Rightarrow> counts" where
  "final_counts st =
     fold (\<lambda>t. bump (dict_get_or (ss_passed_over st) t NoGroup) 1) (dict_keys (ss_unchosen st)) (ss_counts st)"

lemma final_counts_sum: "counts_sum (final_counts st) = counts_sum (ss_counts st) + int (length (ss_unchosen st))"
proof -
  have "counts_sum (fold (\<lambda>t. bump (f t) 1) ts cs) = counts_sum cs + int (length ts)" for f ts cs
    by (induction ts arbitrary: cs) simp_all
  from this [of "\<lambda>t. dict_get_or (ss_passed_over st) t NoGroup"] show ?thesis
    by (simp add: final_counts_def)
qed

lemma final_counts_cap:
  assumes "no_cap (ss_passed_over st)"
  shows "dict_get_or (final_counts st) OverCap 0 = dict_get_or (ss_counts st) OverCap 0"
proof -
  have f: "dict_get_or (ss_passed_over st) t NoGroup \<noteq> OverCap" for t
    using assms by (auto simp: no_cap_def dict_get_or_def split: option.split)
  have "dict_get_or (fold (\<lambda>t. bump (dict_get_or (ss_passed_over st) t NoGroup) 1) ts cs) OverCap 0 = dict_get_or cs OverCap 0" for ts cs
    by (induction ts arbitrary: cs) (use f in \<open>simp_all add: dict_simps eq_commute [of OverCap]\<close>)
  then show ?thesis by (simp add: final_counts_def)
qed

lemma group_limits_admitted:
  assumes "group_limits E pinned g s" "set (gs_tickers s) \<subseteq> L"
  shows "group_limits (filter (\<lambda>m. ms_ticker m \<in> L) E) pinned g s"
proof -
  have "filter (\<lambda>m. ms_ticker m \<in> set (gs_tickers s) \<and> Q m) (filter (\<lambda>m. ms_ticker m \<in> L) E) =
      filter (\<lambda>m. ms_ticker m \<in> set (gs_tickers s) \<and> Q m) E" for Q
    unfolding filter_filter using assms(2) by (intro filter_cong) auto
  moreover have "{m \<in> set (filter (\<lambda>m. ms_ticker m \<in> L) E). ms_ticker m \<in> set (gs_tickers s)} =
      {m \<in> set E. ms_ticker m \<in> set (gs_tickers s)}"
    using assms(2) by auto
  ultimately show ?thesis using assms(1) by (simp only: group_limits_def)
qed

lemma select_result:
  assumes "policy_error p = None" "list_all (\<lambda>g. group_error g = None) (up_groups p)"
    "d = select markets p now cats pinned"
  shows "counts_sum (ud_reason_counts d) + int (card (ud_l2_tickers d)) = int (length markets)"
    "int (card (ud_l2_tickers d)) \<le> up_max_l2_markets p"
    "ud_dropped_for_cap d = int (sum_list (map gs_skipped_for_budget (ud_groups d)))"
    "ud_dropped_for_cap d = dict_get_or (ud_reason_counts d) OverCap 0"
    "ud_group_of d = concat (map (\<lambda>s. map (\<lambda>t. (t, gs_name s)) (gs_tickers s)) (ud_groups d))"
    "distinct (concat (map gs_tickers (ud_groups d)))"
    "ud_l2_tickers d = set (concat (map gs_tickers (ud_groups d)))"
    "list_all2 (group_limits (ud_markets d) pinned) (up_groups p) (ud_groups d)"
    "map ms_ticker (ud_markets d) = sorted_list_of_set (ud_l2_tickers d)"
    "\<forall>m\<in>set (ud_markets d). m \<in> set markets \<and> rejection m p now = None"
proof -
  obtain E cs where ec: "eligible markets p now (map (\<lambda>r. (r, 0)) REASONS) = (E, cs)" by fastforce
  note el = eligible_result [OF ec]
  have dist: "distinct (map ms_ticker E)" using el(1) by (simp add: eligible_ok_def strict_sorted_iff)
  define st where "st = fold (apply_group p now cats pinned) (up_groups p) (start_state (E, cs) (up_max_l2_markets p))"
  have inv: "sel_inv E pinned (up_max_l2_markets p) (int (length markets)) (up_groups p) st"
    using fold_groups_inv [OF start_inv(1) [OF dist valid_policy(1) [OF assms(1)] el(3,2)], of "up_groups p"]
      assms(2) dist by (simp add: st_def list_all_iff)
  note i = sel_invD [OF inv]
  have d: "ud_l2_tickers d = set (dict_keys (ss_group_of st))"
    "ud_markets d = filter (\<lambda>m. ms_ticker m \<in> set (dict_keys (ss_group_of st))) E"
    "ud_groups d = ss_selections st" "ud_group_of d = ss_group_of st"
    "ud_dropped_for_cap d = dict_get_or (final_counts st) OverCap 0" "ud_reason_counts d = final_counts st"
    by (simp_all add: assms(3) select_def Let_def ec st_def [symmetric] final_counts_def)
  have keys: "dict_keys (ss_group_of st) = concat (map gs_tickers (ss_selections st))"
    by (subst i(10)) (simp add: map_concat o_def)
  have card: "card (ud_l2_tickers d) = length (ss_group_of st)"
    unfolding d(1) using distinct_card [OF i(3)] by simp
  show "counts_sum (ud_reason_counts d) + int (card (ud_l2_tickers d)) = int (length markets)"
    using i(6) by (simp add: d(6) final_counts_sum card)
  show "int (card (ud_l2_tickers d)) \<le> up_max_l2_markets p" using i(7,8) by (simp add: card)
  show "ud_dropped_for_cap d = int (sum_list (map gs_skipped_for_budget (ud_groups d)))"
    using i(9) by (simp add: d(3,5) final_counts_cap [OF i(12)])
  show "ud_dropped_for_cap d = dict_get_or (ud_reason_counts d) OverCap 0" by (simp add: d(5,6))
  show "ud_group_of d = concat (map (\<lambda>s. map (\<lambda>t. (t, gs_name s)) (gs_tickers s)) (ud_groups d))"
    using i(10) by (simp only: d(3,4))
  show "distinct (concat (map gs_tickers (ud_groups d)))" using i(3) by (simp only: d(3) keys)
  show "ud_l2_tickers d = set (concat (map gs_tickers (ud_groups d)))" by (simp only: d(1,3) keys)
  have "set (gs_tickers s) \<subseteq> set (dict_keys (ss_group_of st))" if "s \<in> set (ss_selections st)" for s
    unfolding keys using that by auto
  then show "list_all2 (group_limits (ud_markets d) pinned) (up_groups p) (ud_groups d)"
    unfolding d(2,3) by (intro list.rel_mono_strong [OF i(11)] group_limits_admitted)
  have "sorted_wrt (<) (map ms_ticker (ud_markets d))"
    using el(1) unfolding d(2) eligible_ok_def by (auto simp: sorted_wrt_map intro: sorted_wrt_filter)
  moreover have "set (map ms_ticker (ud_markets d)) = ud_l2_tickers d"
  proof -
    have "{m \<in> set E. ms_ticker m \<in> set (dict_keys (ss_group_of st))} = {m \<in> set E. ms_ticker m \<in> ud_l2_tickers d}"
      by (simp add: d(1))
    then have "set (map ms_ticker (ud_markets d)) = ms_ticker ` {m \<in> set E. ms_ticker m \<in> ud_l2_tickers d}"
      unfolding d(2) by simp
    also have "\<dots> = ud_l2_tickers d" using i(4) unfolding d(1) [symmetric] by blast
    finally show ?thesis .
  qed
  ultimately show "map ms_ticker (ud_markets d) = sorted_list_of_set (ud_l2_tickers d)"
    by (metis sorted_list_of_set.idem_if_sorted_distinct strict_sorted_iff)
  show "\<forall>m\<in>set (ud_markets d). m \<in> set markets \<and> rejection m p now = None"
    using el(1) by (auto simp: d(2) eligible_ok_def)
qed

section \<open>The order of arrival does not matter\<close>

text \<open>
  A listing entry never carries an empty strike type, a negative price or the last second before
  the epoch as its close: those are the values the freshness key uses for absent fields.
\<close>

definition well_listed :: "market_summary \<Rightarrow> bool" where
  "well_listed m \<longleftrightarrow> ms_strike_type m \<noteq> Some [] \<and> ms_close_ts m \<noteq> Some (-1) \<and>
     ms_yes_bid m \<noteq> Some (-1) \<and> ms_yes_ask m \<noteq> Some (-1) \<and> ms_last_price m \<noteq> Some (-1)"

lemma freshness_inject:
  assumes "freshness m = freshness n" "ms_ticker m = ms_ticker n" "well_listed m" "well_listed n"
  shows "m = n"
  using assms
  by (cases m; cases n) (auto simp: freshness_def well_listed_def split: option.splits)

lemma keep_newest_new: "dict_get d (ms_ticker m) = None \<Longrightarrow> keep_newest m (d, cs) = (dict_put (ms_ticker m) m d, cs)"
  by (simp add: keep_newest_def)

lemma keep_newest_old: "dict_get d (ms_ticker m) = Some held \<Longrightarrow>
    keep_newest m (d, cs) = (if freshness held < freshness m then dict_put (ms_ticker m) m d else d, bump Duplicate 1 cs)"
  by (simp add: keep_newest_def)

lemma newest_spec:
  "dict_get (fst (fold keep_newest markets ([], cs))) t = Some m \<Longrightarrow>
     m \<in> set markets \<and> ms_ticker m = t \<and> (\<forall>n\<in>set markets. ms_ticker n = t \<longrightarrow> freshness n \<le> freshness m)"
  "t \<in> ms_ticker ` set markets \<Longrightarrow> dict_get (fst (fold keep_newest markets ([], cs))) t \<noteq> None"
proof (induction markets arbitrary: m rule: rev_induct)
  case Nil
  { case 1 then show ?case by simp }
  { case 2 then show ?case by simp }
next
  case (snoc x markets)
  obtain d ds where d: "fold keep_newest markets ([], cs) = (d, ds)" by fastforce
  have step: "fst (fold keep_newest (markets @ [x]) ([], cs)) = fst (keep_newest x (d, ds))"
    by (simp add: d)
  have other: "dict_get (fst (keep_newest x (d, ds))) t = dict_get d t" if "t \<noteq> ms_ticker x"
    using that by (auto simp: keep_newest_def dict_simps split: option.splits)
  { case 1
    show ?case
    proof (cases "t = ms_ticker x")
      case False
      then have "dict_get d t = Some m" using 1 unfolding step other [OF False] by blast
      then show ?thesis using snoc.IH(1) [of m] False d by auto
    next
      case True
      show ?thesis
      proof (cases "dict_get d t")
        case None
        then have "t \<notin> ms_ticker ` set markets" using snoc.IH(2) d by auto
        moreover have "m = x" using 1 None True unfolding step by (simp add: keep_newest_new dict_simps)
        ultimately show ?thesis using True by (auto simp: image_iff)
      next
        case (Some held)
        have h: "held \<in> set markets" "ms_ticker held = t" "\<forall>n\<in>set markets. ms_ticker n = t \<longrightarrow> freshness n \<le> freshness held"
          using snoc.IH(1) [of held] Some d by auto
        consider "freshness held < freshness x" "m = x" | "\<not> freshness held < freshness x" "m = held"
          using 1 Some True unfolding step
          by (cases "freshness held < freshness x") (simp_all add: keep_newest_old dict_simps)
        then show ?thesis
        proof cases
          case 1
          then have "\<forall>n\<in>set markets. ms_ticker n = t \<longrightarrow> freshness n \<le> freshness x"
            using h(3) by (meson order_trans less_imp_le)
          then show ?thesis using 1 True by simp
        next
          case 2
          then show ?thesis using h True by (simp add: not_less)
        qed
      qed
    qed }
  { case 2
    show ?case
    proof (cases "t = ms_ticker x")
      case True
      then show ?thesis unfolding step by (cases "dict_get d t") (simp_all add: keep_newest_new keep_newest_old dict_simps)
    next
      case False
      with 2 have "t \<in> ms_ticker ` set markets" by simp
      then show ?thesis using snoc.IH(2) d other [OF False] unfolding step by simp
    qed }
qed

lemma newest_counts:
  assumes "dict_get cs Duplicate \<noteq> None"
  shows "snd (fold keep_newest markets (d, cs)) =
    bump Duplicate (int (length d) + int (length markets) - int (length (fst (fold keep_newest markets (d, cs))))) cs"
  using assms
proof (induction markets arbitrary: d cs)
  case Nil
  then show ?case using bump_none by auto
next
  case (Cons m markets)
  show ?case
  proof (cases "dict_get d (ms_ticker m)")
    case None
    then show ?thesis
      using Cons.IH [OF Cons.prems, of "dict_put (ms_ticker m) m d"]
      by (simp add: keep_newest_new length_put algebra_simps)
  next
    case (Some held)
    obtain e where e: "keep_newest m (d, cs) = (e, bump Duplicate 1 cs)" "length e = length d"
      using Some by (auto simp: keep_newest_def length_put)
    have "dict_get (bump Duplicate 1 cs) Duplicate \<noteq> None" by (simp add: bump_def dict_simps)
    from Cons.IH [OF this, of e] show ?thesis by (simp add: e bump_bump algebra_simps)
  qed
qed

lemma keyed_inj:
  assumes "dict_wf d" "\<forall>(t, m)\<in>set d. f m = t"
  shows "inj_on f (snd ` set d)"
proof (rule inj_onI)
  fix m n assume "m \<in> snd ` set d" "n \<in> snd ` set d" "f m = f n"
  then obtain t where "(t, m) \<in> set d" "(t, n) \<in> set d" using assms(2) by fastforce
  then show "m = n" using dict_mem_get [OF assms(1)] by (metis option.inject)
qed

lemma eligible_perm:
  assumes "mset ms = mset ns" "list_all well_listed ms"
  shows "eligible ms p now (map (\<lambda>r. (r, 0)) REASONS) = eligible ns p now (map (\<lambda>r. (r, 0)) REASONS)"
proof -
  let ?zero = "map (\<lambda>r. (r, 0)) REASONS"
  let ?d = "fst (fold keep_newest ms ([], ?zero))" and ?e = "fst (fold keep_newest ns ([], ?zero))"
  have set: "set ms = set ns" using assms(1) mset_eq_setD by blast
  have half: "dict_get (fst (fold keep_newest ys ([], ?zero))) t = Some m"
    if "dict_get (fst (fold keep_newest xs ([], ?zero))) t = Some m" "set xs = set ms" "set ys = set ms" for xs ys t m
  proof -
    note m = newest_spec(1) [OF that(1)]
    then have "t \<in> ms_ticker ` set ys" using that by auto
    then obtain n where n: "dict_get (fst (fold keep_newest ys ([], ?zero))) t = Some n"
      using newest_spec(2) by fastforce
    note n' = newest_spec(1) [OF n]
    have "freshness m = freshness n" using m n' that(2,3) by (metis order_antisym)
    moreover have "well_listed m" "well_listed n" using m n' that(2,3) assms(2) by (auto simp: list_all_iff)
    ultimately have "m = n" using freshness_inject m n' by metis
    with n show ?thesis by simp
  qed
  have get: "dict_get ?d = dict_get ?e"
  proof
    fix t show "dict_get ?d t = dict_get ?e t"
    proof (cases "dict_get ?d t")
      case (Some m)
      with half [OF Some refl, of ns] set show ?thesis by simp
    next
      case None
      have "dict_get ?e t \<noteq> Some m" for m
      proof
        assume "dict_get ?e t = Some m"
        from half [OF this _ refl] set None show False by simp
      qed
      with None show ?thesis by (cases "dict_get ?e t") auto
    qed
  qed
  have wf: "dict_wf ?d \<and> (\<forall>(t, m)\<in>set ?d. ms_ticker m = t)" "dict_wf ?e"
    using newest_wf [of ms "[]" ?zero ?d "snd (fold keep_newest ms ([], ?zero))"]
      newest_wf [of ns "[]" ?zero ?e "snd (fold keep_newest ns ([], ?zero))"] by auto
  have eq: "mset ?d = mset ?e" by (rule dict_eq_mset [OF _ wf(2) get]) (use wf in simp)
  then have len: "length ?d = length ?e" by (rule mset_eq_length)
  have "inj_on ms_ticker (set (map snd ?d))"
    using keyed_inj [of ?d ms_ticker] wf(1) by simp
  moreover have "mset (map snd ?d) = mset (map snd ?e)" using eq by simp
  ultimately have sorted: "sort_key ms_ticker (map snd ?d) = sort_key ms_ticker (map snd ?e)"
    by (intro sort_key_inj_key_eq) simp_all
  have "dict_get ?zero Duplicate \<noteq> None" by (simp add: REASONS_def)
  from newest_counts [OF this, of ms "[]"] newest_counts [OF this, of ns "[]"]
  have "snd (fold keep_newest ms ([], ?zero)) = snd (fold keep_newest ns ([], ?zero))"
    using len mset_eq_length [OF assms(1)] by simp
  then show ?thesis by (simp add: eligible_def split_beta sorted)
qed

section \<open>The choice takes the best\<close>

lemma slice_sort_best:
  assumes "c \<in> set (slice_to n (sort_key f xs))" "m \<in> set xs" "m \<notin> set (slice_to n (sort_key f xs))"
  shows "f c \<le> f m"
proof -
  have "set (slice_to n (sort_key f xs)) \<union> set (slice_from n (sort_key f xs)) = set xs"
    by (metis set_append set_sort slice_append)
  then have "m \<in> set (slice_from n (sort_key f xs))" using assms(2,3) by blast
  moreover have "sorted (map f (slice_to n (sort_key f xs) @ slice_from n (sort_key f xs)))"
    by (simp only: slice_append sorted_sort_key)
  ultimately show ?thesis using assms(1) unfolding map_append sorted_append by auto
qed

lemma slice_nonempty: "0 < n \<Longrightarrow> xs \<noteq> [] \<Longrightarrow> slice_to n xs \<noteq> []"
  by (simp add: slice_to_def)

definition event_in_horizon :: "universe_group \<Rightarrow> int \<Rightarrow> market_summary list \<Rightarrow> bool" where
  "event_in_horizon g now_ts event \<longleftrightarrow>
     (case ug_max_hours_to_close g of None \<Rightarrow> True
      | Some hours \<Rightarrow> in_horizon (now_ts + hours * SECONDS_PER_HOUR) event)"

lemma within_fst: "fst (within_horizon events g now_ts rejected) = filter (event_in_horizon g now_ts) events"
proof (cases "ug_max_hours_to_close g")
  case None
  then show ?thesis by (simp add: within_horizon_def event_in_horizon_def)
next
  case (Some hours)
  then have "event_in_horizon g now_ts = in_horizon (now_ts + hours * SECONDS_PER_HOUR)"
    by (simp add: fun_eq_iff event_in_horizon_def)
  with Some show ?thesis by (simp add: within_horizon_def Let_def)
qed

lemma chosen_event:
  assumes "group_error g = None" "ug_max_markets g = None" "c \<in> set (fst (choose_markets g cands fl now rej))"
  shows "event_of cands c \<in> set (ranked_events g cands fl now rej)"
    "c \<in> set (slice_to (ug_markets_per_event g) (sort_key (market_ranking (ug_market_order g) (event_of cands c)) (event_of cands c)))"
proof -
  let ?E = "ranked_events g cands fl now rej"
  obtain e where e: "e \<in> set ?E"
      "c \<in> set (slice_to (ug_markets_per_event g) (sort_key (market_ranking (ug_market_order g) e) e))"
    using assms(2,3) by (auto simp: choose_fst taken_def)
  have "c \<in> set e" using in_slice [OF e(2)] by simp
  moreover have "e \<in> set (map snd (group_by event_key cands))"
    using set_mono [OF ranked_events_part [OF valid_group(1) [OF assms(1)]]] e(1) by blast
  ultimately have "e = event_of cands c" by (intro events_of_candidates(3))
  with e show "event_of cands c \<in> set ?E"
    "c \<in> set (slice_to (ug_markets_per_event g) (sort_key (market_ranking (ug_market_order g) (event_of cands c)) (event_of cands c)))"
    by simp_all
qed

lemma unchosen_event:
  assumes "group_error g = None" "ug_max_markets g = None" "m \<in> set cands"
    "\<forall>c\<in>set (fst (choose_markets g cands fl now rej)). event_key c \<noteq> event_key m"
  shows "event_of cands m \<notin> set (ranked_events g cands fl now rej)"
proof
  let ?e = "event_of cands m"
  let ?s = "slice_to (ug_markets_per_event g) (sort_key (market_ranking (ug_market_order g) ?e) ?e)"
  assume "?e \<in> set (ranked_events g cands fl now rej)"
  then have sub: "set ?s \<subseteq> set (fst (choose_markets g cands fl now rej))"
    using assms(2) by (auto simp: choose_fst taken_def)
  have "m \<in> set ?e" using assms(3) by (simp add: event_of_def)
  then have "sort_key (market_ranking (ug_market_order g) ?e) ?e \<noteq> []" by (metis empty_iff empty_set set_sort)
  then have "?s \<noteq> []" by (intro slice_nonempty valid_group(3) [OF assms(1)])
  then obtain x where x: "x \<in> set ?s" by (meson hd_in_set)
  then have "event_key x = event_key m" using in_slice [OF x] by (simp add: event_of_def)
  then show False using assms(4) sub x by blast
qed

lemma category_best:
  assumes "ug_series g = None" "e \<in> set (ranked_events g cands fl now rej)" "f \<notin> set (ranked_events g cands fl now rej)"
    "f \<in> set (map snd (group_by event_key cands))" "event_in_horizon g now f" "fl \<le> event_volume f"
  shows "busiest_event_first e \<le> busiest_event_first f"
proof -
  let ?Q = "filter (\<lambda>e. \<not> event_volume e < fl) (filter (event_in_horizon g now) (map snd (group_by event_key cands)))"
  have ranked: "ranked_events g cands fl now rej = slice_to (ug_events g) (sort_key busiest_event_first ?Q)"
    by (simp only: ranked_events_def Let_def choose_events_def assms(1) option.case busiest_events_def within_fst fst_conv)
  have "f \<in> set ?Q" using assms(4-6) by simp
  from slice_sort_best [OF assms(2) [unfolded ranked] this assms(3) [unfolded ranked]] show ?thesis .
qed

lemma series_best:
  assumes "ug_series g = Some series" "e \<in> set (ranked_events g cands fl now rej)" "f \<notin> set (ranked_events g cands fl now rej)"
    "f \<in> set (map snd (group_by event_key cands))" "event_in_horizon g now f"
    "ms_series_ticker (hd e) = ms_series_ticker (hd f)" "ms_series_ticker (hd f) \<in> set series"
  shows "nearest_event_first e \<le> nearest_event_first f"
proof -
  define W where "W = filter (event_in_horizon g now) (map snd (group_by event_key cands))"
  let ?s = "ms_series_ticker (hd f)"
  let ?d = "group_by (\<lambda>event. ms_series_ticker (hd event)) W"
  have ranked: "ranked_events g cands fl now rej =
      concat (map (\<lambda>s. slice_to (ug_events g) (sort_key nearest_event_first (dict_get_or ?d s []))) series)"
    by (simp add: ranked_events_def Let_def choose_events_def assms(1) nearest_events_def nearest_of_series_fst within_fst W_def)
  have of_series: "ms_series_ticker (hd x) = t" if "x \<in> set (dict_get_or ?d t [])" for x t
    using that by (auto simp: dict_get_or_def group_by_get split: if_splits)
  have fW: "f \<in> set W" using assms(4,5) by (simp add: W_def)
  then have f: "f \<in> set (dict_get_or ?d ?s [])" by (auto simp: dict_get_or_def group_by_get)
  obtain t where t: "e \<in> set (slice_to (ug_events g) (sort_key nearest_event_first (dict_get_or ?d t [])))"
    using assms(2) by (auto simp: ranked)
  then have "t = ?s" using of_series in_slice [OF t] assms(6) by simp
  moreover have "f \<notin> set (slice_to (ug_events g) (sort_key nearest_event_first (dict_get_or ?d ?s [])))"
    using assms(3,7) by (auto simp: ranked)
  ultimately show ?thesis using slice_sort_best [OF _ f] t by blast
qed

text \<open>A small universe used in the concrete instances below.\<close>

definition example_market :: "string \<Rightarrow> int \<Rightarrow> market_summary" where
  "example_market t v = \<lparr>ms_ticker = t, ms_series_ticker = ''S'', ms_event_ticker = ''S-E'', ms_exchange_index = 0,
     ms_status = ACTIVE_STATUS, ms_volume_24h = v, ms_close_ts = None, ms_is_mve = False,
     ms_strike_type = None, ms_yes_bid = None, ms_yes_ask = None, ms_last_price = None\<rparr>"

definition example_group :: universe_group where
  "example_group = \<lparr>ug_name = ''top'', ug_events = 1, ug_markets_per_event = 1, ug_series = Some [''S''],
     ug_category = None, ug_max_markets = None, ug_max_hours_to_close = None, ug_market_order = MARKET_ORDER_VOLUME\<rparr>"

definition example_policy :: universe_policy where
  "example_policy = \<lparr>up_min_volume_24h = 0, up_max_l2_markets = 5, up_groups = [example_group],
     up_exclude_mve = True, up_max_seconds_to_close = None\<rparr>"

lemma example_policy_ok [simp]: "policy_error example_policy = None" "group_error example_group = None"
  "list_all (\<lambda>g. group_error g = None) (up_groups example_policy)" "up_groups example_policy = [example_group]"
  "up_max_l2_markets example_policy = 5"
  by (simp_all add: example_policy_def policy_error_def group_error_def example_group_def MARKET_ORDERS_def
      MARKET_ORDER_VOLUME_def repeated_def)

section \<open>Properties\<close>

text \<open>
  C34. The selector's arithmetic adds up: the reason counts and the recorded markets together
  account for every market handed in, the budget is never exceeded, and the markets dropped for the
  budget are those the groups skipped.
\<close>

theorem selection_accounts_for_every_market:
  assumes "policy_error p = None" "list_all (\<lambda>g. group_error g = None) (up_groups p)"
  shows "let d = select markets p now cats pinned in
     sum_list (map snd (ud_reason_counts d)) + int (card (ud_l2_tickers d)) = int (length markets) \<and>
     int (card (ud_l2_tickers d)) \<le> up_max_l2_markets p \<and>
     ud_dropped_for_cap d = int (sum_list (map gs_skipped_for_budget (ud_groups d))) \<and>
     ud_dropped_for_cap d = dict_get_or (ud_reason_counts d) OverCap 0"
  using select_result(1-4) [OF assms refl, of markets now cats pinned]
  by (simp add: Let_def counts_sum_def)

theorem selection_accounts_for_every_market_witness:
  "sum_list (map snd (ud_reason_counts (select [example_market ''S-A'' 1, example_market ''S-B'' 2] example_policy 0 [] []))) +
     int (card (ud_l2_tickers (select [example_market ''S-A'' 1, example_market ''S-B'' 2] example_policy 0 [] []))) = 2"
  using selection_accounts_for_every_market [of example_policy "[example_market ''S-A'' 1, example_market ''S-B'' 2]" 0 "[]" "[]"]
  by (simp add: Let_def)

text \<open>
  Every admitted market is eligible, listed in ticker order, and admitted by exactly one group,
  whose name the decision records; and each group keeps its own limits: a pinned group admits only
  markets it is pinned to, any other at most \<open>max_markets\<close> markets, at most \<open>markets_per_event\<close> of an
  event, and at most \<open>events\<close> events, per series and, in a category group, in all.
\<close>

theorem groups_keep_their_limits:
  assumes "policy_error p = None" "list_all (\<lambda>g. group_error g = None) (up_groups p)"
  shows "let d = select markets p now cats pinned in
     map ms_ticker (ud_markets d) = sorted_list_of_set (ud_l2_tickers d) \<and>
     (\<forall>m\<in>set (ud_markets d). m \<in> set markets \<and> rejection m p now = None) \<and>
     ud_l2_tickers d = set (concat (map gs_tickers (ud_groups d))) \<and>
     distinct (concat (map gs_tickers (ud_groups d))) \<and>
     ud_group_of d = concat (map (\<lambda>s. map (\<lambda>t. (t, gs_name s)) (gs_tickers s)) (ud_groups d)) \<and>
     list_all2 (\<lambda>g s. gs_name s = ug_name g \<and>
       (case dict_get pinned (ug_name g) of
          Some held \<Rightarrow> set (gs_tickers s) \<subseteq> set held
        | None \<Rightarrow>
          (\<forall>cap. ug_max_markets g = Some cap \<longrightarrow> int (length (gs_tickers s)) \<le> cap) \<and>
          (\<forall>k. int (length (filter (\<lambda>m. ms_ticker m \<in> set (gs_tickers s) \<and> event_key m = k) (ud_markets d)))
                 \<le> ug_markets_per_event g) \<and>
          (ug_series g = None \<longrightarrow> int (gs_events s) \<le> ug_events g) \<and>
          (\<forall>series. int (card {k \<in> event_key ` {m \<in> set (ud_markets d). ms_ticker m \<in> set (gs_tickers s)}.
                 fst k = series}) \<le> ug_events g)))
       (up_groups p) (ud_groups d)"
  using select_result(5-10) [OF assms refl, of markets now cats pinned]
  unfolding Let_def group_limits_def by blast

theorem groups_keep_their_limits_witness:
  "set (ud_markets (select [example_market ''S-A'' 1, example_market ''S-B'' 2] example_policy 0 [] []))
     \<subseteq> {example_market ''S-A'' 1, example_market ''S-B'' 2}"
  using groups_keep_their_limits [of example_policy "[example_market ''S-A'' 1, example_market ''S-B'' 2]" 0 "[]" "[]"]
  by (auto simp: Let_def)

text \<open>
  Nothing depends on the order the markets arrive in: two listings with the same entries, in
  whatever order and with whatever repetitions, give the same decision.
\<close>

theorem arrival_order_is_irrelevant:
  assumes "mset ms = mset ns" "list_all well_listed ms"
  shows "select ms p now cats pinned = select ns p now cats pinned"
  using eligible_perm [OF assms] by (simp add: select_def Let_def)

theorem arrival_order_is_irrelevant_witness:
  "select [example_market ''S-A'' 1, example_market ''S-A'' 2] example_policy 0 [] [] =
   select [example_market ''S-A'' 2, example_market ''S-A'' 1] example_policy 0 [] []"
  by (rule arrival_order_is_irrelevant) (simp_all add: example_market_def well_listed_def)

text \<open>
  A group without \<open>max_markets\<close> takes the best of what it is offered: no market it leaves out of
  a chosen event ranks before one it takes of that event; in a category group no event it leaves out
  although within the horizon and above the floor is busier than a chosen one; in a series group no
  event of a series it leaves out is nearer than a chosen one of that series.
\<close>

theorem choice_takes_the_best:
  assumes "group_error g = None" "ug_max_markets g = None"
    "c \<in> set (fst (choose_markets g cands fl now rej))" "m \<in> set cands"
  shows "(event_key m = event_key c \<and> m \<notin> set (fst (choose_markets g cands fl now rej)) \<longrightarrow>
       market_ranking (ug_market_order g) (event_of cands c) c \<le> market_ranking (ug_market_order g) (event_of cands c) m) \<and>
     ((\<forall>x\<in>set (fst (choose_markets g cands fl now rej)). event_key x \<noteq> event_key m) \<and>
        event_in_horizon g now (event_of cands m) \<longrightarrow>
        (case ug_series g of
           None \<Rightarrow> fl \<le> event_volume (event_of cands m) \<longrightarrow>
             busiest_event_first (event_of cands c) \<le> busiest_event_first (event_of cands m)
         | Some series \<Rightarrow>
             ms_series_ticker m \<in> set series \<and> ms_series_ticker c = ms_series_ticker m \<longrightarrow>
             nearest_event_first (event_of cands c) \<le> nearest_event_first (event_of cands m)))"
proof -
  let ?C = "fst (choose_markets g cands fl now rej)"
  note ce = chosen_event [OF assms(1,2,3)]
  have first: "market_ranking (ug_market_order g) (event_of cands c) c \<le> market_ranking (ug_market_order g) (event_of cands c) m"
    if "event_key m = event_key c" "m \<notin> set ?C"
  proof (rule slice_sort_best [OF ce(2)])
    show "m \<in> set (event_of cands c)" using assms(4) that(1) by (simp add: event_of_def)
    show "m \<notin> set (slice_to (ug_markets_per_event g) (sort_key (market_ranking (ug_market_order g) (event_of cands c)) (event_of cands c)))"
      using that(2) ce(1) assms(2) by (auto simp: choose_fst taken_def)
  qed
  have heads: "ms_series_ticker (hd (event_of cands x)) = ms_series_ticker x" if "x \<in> set cands" for x
  proof -
    have "hd (event_of cands x) \<in> set (event_of cands x)"
      using that by (intro hd_in_set) (auto simp: event_of_def filter_empty_conv)
    then show ?thesis by (simp add: event_of_def event_key_def)
  qed
  have "c \<in> set cands" using in_slice [OF ce(2)] by (simp add: event_of_def)
  note sc = heads [OF this] and sm = heads [OF assms(4)]
  note mem = events_of_candidates(4) [OF assms(4)]
  have rest: "case ug_series g of
           None \<Rightarrow> fl \<le> event_volume (event_of cands m) \<longrightarrow>
             busiest_event_first (event_of cands c) \<le> busiest_event_first (event_of cands m)
         | Some series \<Rightarrow>
             ms_series_ticker m \<in> set series \<and> ms_series_ticker c = ms_series_ticker m \<longrightarrow>
             nearest_event_first (event_of cands c) \<le> nearest_event_first (event_of cands m)"
    if "\<forall>x\<in>set ?C. event_key x \<noteq> event_key m" "event_in_horizon g now (event_of cands m)"
  proof (cases "ug_series g")
    case None
    then show ?thesis
      using category_best [OF None ce(1) unchosen_event [OF assms(1,2,4) that(1)] mem that(2)] by simp
  next
    case (Some series)
    then show ?thesis
      using series_best [OF Some ce(1) unchosen_event [OF assms(1,2,4) that(1)] mem that(2)] sc sm by simp
  qed
  show ?thesis using first rest by blast
qed

theorem choice_takes_the_best_witness:
  "fst (choose_markets example_group [example_market ''S-A'' 1, example_market ''S-B'' 2] 0 0 []) = [example_market ''S-B'' 2] \<and>
   market_ranking MARKET_ORDER_VOLUME [example_market ''S-A'' 1, example_market ''S-B'' 2] (example_market ''S-B'' 2)
     \<le> market_ranking MARKET_ORDER_VOLUME [example_market ''S-A'' 1, example_market ''S-B'' 2] (example_market ''S-A'' 1)"
proof -
  let ?a = "example_market ''S-A'' 1" and ?b = "example_market ''S-B'' 2"
  have c: "fst (choose_markets example_group [?a, ?b] 0 0 []) = [?b]"
    by code_simp
  have "event_of [?a, ?b] ?b = [?a, ?b]" by (simp add: event_of_def event_key_def example_market_def)
  then show ?thesis
    using choice_takes_the_best [OF example_policy_ok(2), of ?b "[?a, ?b]" 0 0 "[]" ?a] c
    by (simp add: example_group_def event_key_def example_market_def)
qed

end
