(* ===== verification/Supervisor.thy ===== *)
theory Supervisor
  imports Complex_Main Convert Gaps Tap Planner Timeutil
begin

text \<open>
  \<^verbatim>\<open>tape/recorder/supervisor.py\<close>: one supervised WebSocket connection, with the sending half of its
  session (\<^verbatim>\<open>client/ws.py\<close>). The state is a record; a handler returns the state it leaves and a
  value or the error it raises, so a raise keeps what was done before it. Every coroutine is one
  step here: what other coroutines do while one of them awaits is seen as happening before or
  after it, except that a frame's sequence check and its dispatch are two definitions.

  JSON decoding (msgspec), the socket, the clock, the tape's writer and the event callback are
  parameters: the record \<open>sup_env\<close> and the outcome function of a session. Their answers are indexed
  by how often they were asked, so that a run is a function of its inputs. Logging is left out.
\<close>

section \<open>Configuration\<close>

definition ORDERBOOK_CHANNEL :: string where "ORDERBOOK_CHANNEL = ''orderbook_delta''"
definition FIREHOSE_GROUP_ID :: string where "FIREHOSE_GROUP_ID = ''*''"
definition MAX_RECENT_ERRORS :: nat where "MAX_RECENT_ERRORS = 64"
definition MAX_BACKOFF_DOUBLINGS :: int where "MAX_BACKOFF_DOUBLINGS = 62"
definition SNAPSHOT_TYPE :: string where "SNAPSHOT_TYPE = ''orderbook_snapshot''"
definition STOPPED :: string where "STOPPED = ''stopped''"

record sup_config =
  cf_conn_id :: int
  cf_group_channels :: "string list"
  cf_firehose_channels :: "string list"
  cf_use_yes_price :: bool
  cf_persist :: bool
  cf_max_markets_per_command :: int
  cf_backoff_initial_ns :: int
  cf_backoff_max_ns :: int
  cf_max_consecutive_failures :: "int option"
  cf_subscribe_timeout_ns :: int

datatype config_error =
    NegativeConnId int
  | NoChannelsAtAll
  | SharedChannels "string list"
  | MaxMarketsNotPositive int
  | BackoffRange int int
  | NegativeFailureLimit int
  | SubscribeTimeoutNotPositive int

definition config_error :: "sup_config \<Rightarrow> config_error option" where
  "config_error cf =
     (let shared = set (cf_group_channels cf) \<inter> set (cf_firehose_channels cf) in
      if cf_conn_id cf < 0 then Some (NegativeConnId (cf_conn_id cf))
      else if cf_group_channels cf = [] \<and> cf_firehose_channels cf = [] then Some NoChannelsAtAll
      else if shared \<noteq> {} then Some (SharedChannels (sorted_list_of_set shared))
      else if cf_max_markets_per_command cf \<le> 0 then Some (MaxMarketsNotPositive (cf_max_markets_per_command cf))
      else if cf_backoff_initial_ns cf \<le> 0 \<or> cf_backoff_max_ns cf < cf_backoff_initial_ns cf
        then Some (BackoffRange (cf_backoff_initial_ns cf) (cf_backoff_max_ns cf))
      else if (case cf_max_consecutive_failures cf of None \<Rightarrow> False | Some n \<Rightarrow> n < 0)
        then Some (NegativeFailureLimit (the (cf_max_consecutive_failures cf)))
      else if cf_subscribe_timeout_ns cf \<le> 0
        then Some (SubscribeTimeoutNotPositive (cf_subscribe_timeout_ns cf))
      else None)"

text \<open>The nominal delay is exact; the jittered one is a float in the code and a rational here.\<close>

definition backoff_nominal_ns :: "int \<Rightarrow> int \<Rightarrow> int \<Rightarrow> int" where
  "backoff_nominal_ns failures initial_ns max_ns =
     min max_ns (initial_ns * 2 ^ nat (min failures MAX_BACKOFF_DOUBLINGS))"

datatype backoff_error = NegativeFailures int | JitterRange rat | BackoffBounds int int

definition backoff_delay_s :: "int \<Rightarrow> int \<Rightarrow> int \<Rightarrow> rat \<Rightarrow> backoff_error + rat" where
  "backoff_delay_s failures initial_ns max_ns jitter =
     (if failures < 0 then Inl (NegativeFailures failures)
      else if \<not> (0 \<le> jitter \<and> jitter < 1) then Inl (JitterRange jitter)
      else if initial_ns \<le> 0 \<or> max_ns < initial_ns then Inl (BackoffBounds initial_ns max_ns)
      else Inr (of_int (backoff_nominal_ns failures initial_ns max_ns) * (1 / 2 + jitter / 2) / of_int NS_PER_S))"

section \<open>The session and the sink\<close>

datatype sup_error =
    WsClosed
  | TransportFailed
  | ConvertFailed convert_error
  | PlanFailed plan_error
  | NoAppliedGroup string

datatype send_outcome = SendOk | SendClosed | SendTimeout

text \<open>\<open>ws_wire\<close> holds the commands given to the socket, with their ids, whatever became of them.\<close>

record ws_session =
  ws_open :: bool
  ws_next_command_id :: int
  ws_wire :: "(int \<times> ws_command) list"
  ws_outcome :: "int \<Rightarrow> send_outcome"

definition new_ws_session :: "(int \<Rightarrow> send_outcome) \<Rightarrow> ws_session" where
  "new_ws_session outcome = \<lparr>ws_open = False, ws_next_command_id = 1, ws_wire = [], ws_outcome = outcome\<rparr>"

definition ws_send :: "ws_command \<Rightarrow> ws_session \<Rightarrow> ws_session \<times> (sup_error + int)" where
  "ws_send cmd ss =
     (if \<not> ws_open ss then (ss, Inl WsClosed)
      else let command_id = ws_next_command_id ss;
               ss' = ss\<lparr>ws_next_command_id := command_id + 1, ws_wire := ws_wire ss @ [(command_id, cmd)]\<rparr>
           in case ws_outcome ss command_id of
                SendOk \<Rightarrow> (ss', Inr command_id)
              | SendClosed \<Rightarrow> (ss', Inl WsClosed)
              | SendTimeout \<Rightarrow> (ss', Inl TransportFailed))"

definition ws_close :: "ws_session \<Rightarrow> ws_session" where
  "ws_close ss = ss\<lparr>ws_open := False\<rparr>"

datatype tape_payload =
    PlFrame string
  | PlCommand ws_command int
  | PlGap int int int
  | PlConnection string string

record tape_record =
  tp_conn_id :: int
  tp_mono_ns :: int
  tp_wall_ns :: int
  tp_payload :: tape_payload

datatype sink_entry = SkPut tape_record bool | SkRotate

record raw_frame =
  rf_payload :: string
  rf_recv_mono_ns :: int
  rf_recv_wall_ns :: int

record subscription_info =
  si_sid :: int
  si_channel :: string
  si_group_id :: string

record subscribed_msg =
  sm_channel :: string
  sm_sid :: int

record ok_msg =
  om_market_tickers :: "string list option"

record error_msg =
  em_code :: int
  em_msg :: string

record ws_protocol_error =
  we_code :: int
  we_message :: string
  we_sid :: "int option"

text \<open>
  The parameters: what msgspec decodes (\<open>None\<close> where it raises), whether the sink takes the n-th
  record, the n-th reading of the clocks, and the event callback, if any: whether it raises on the
  n-th event.
\<close>

record sup_env =
  ev_envelope :: "string \<Rightarrow> envelope option"
  ev_snapshot_msg :: "string \<Rightarrow> orderbook_snapshot_msg option"
  ev_delta_msg :: "string \<Rightarrow> orderbook_delta_msg option"
  ev_trade_msg :: "string \<Rightarrow> trade_msg option"
  ev_ticker_msg :: "string \<Rightarrow> ticker_msg option"
  ev_lifecycle_msg :: "string \<Rightarrow> market_lifecycle_msg option"
  ev_subscribed_msg :: "string \<Rightarrow> subscribed_msg option"
  ev_ok_msg :: "string \<Rightarrow> ok_msg option"
  ev_error_msg :: "string \<Rightarrow> error_msg option"
  ev_utf8 :: "string \<Rightarrow> string option"
  ev_accepts :: "nat \<Rightarrow> bool"
  ev_clock :: "nat \<Rightarrow> int \<times> int"
  ev_on_event :: "(nat \<Rightarrow> bool) option"

section \<open>The state\<close>

record pending_subscribe =
  pd_group_id :: string
  pd_channels :: "string set"

datatype reply_future = NoFuture | FutureWaiting | FutureFailed int

record supervisor =
  sv_config :: sup_config
  sv_desired :: "group option"
  sv_live :: live_registry
  sv_taps :: "(string, nat list) dict"
  sv_open_taps :: "(nat, live_tap) dict"
  sv_next_tap :: nat
  sv_session :: "ws_session option"
  sv_reply_failure :: reply_future
  sv_tracker :: gap_tracker
  sv_applied :: "group option"
  sv_subscriptions :: "(int, subscription_info) dict"
  sv_subscription_infos :: "subscription_info list"
  sv_channel_of_sid :: "(int, string) dict"
  sv_pending :: "(int, pending_subscribe) dict"
  sv_resyncing :: "(int, string set) dict"
  sv_reconcile_deferred :: bool
  sv_firehose_requested :: bool
  sv_frames_this_connection :: int
  sv_stop_requested :: bool
  sv_started :: bool
  sv_consecutive_failures :: int
  sv_frames :: int
  sv_records_not_persisted :: int
  sv_decode_errors :: int
  sv_gaps :: int
  sv_duplicates :: int
  sv_reconnects :: int
  sv_snapshots_requested :: int
  sv_book_errors :: int
  sv_callback_errors :: int
  sv_errors_by_code :: "(int, int) dict"
  sv_last_errors :: "ws_protocol_error list"
  sv_sink :: "sink_entry list option"
  sv_clock_reads :: nat
  sv_emitted :: "bus_event list"

datatype new_sup_error = SinkMissing int | SinkUnwanted int

definition new_supervisor :: "sup_config \<Rightarrow> bool \<Rightarrow> new_sup_error + supervisor" where
  "new_supervisor cf has_sink =
     (if cf_persist cf \<and> \<not> has_sink then Inl (SinkMissing (cf_conn_id cf))
      else if \<not> cf_persist cf \<and> has_sink then Inl (SinkUnwanted (cf_conn_id cf))
      else Inr \<lparr>sv_config = cf, sv_desired = None, sv_live = \<lparr>lr_books = [], lr_next = 0\<rparr>,
        sv_taps = [], sv_open_taps = [], sv_next_tap = 0,
        sv_session = None, sv_reply_failure = NoFuture, sv_tracker = new_gap_tracker,
        sv_applied = None, sv_subscriptions = [], sv_subscription_infos = [], sv_channel_of_sid = [],
        sv_pending = [], sv_resyncing = [], sv_reconcile_deferred = False, sv_firehose_requested = False,
        sv_frames_this_connection = 0, sv_stop_requested = False, sv_started = False,
        sv_consecutive_failures = 0, sv_frames = 0, sv_records_not_persisted = 0, sv_decode_errors = 0,
        sv_gaps = 0, sv_duplicates = 0, sv_reconnects = 0, sv_snapshots_requested = 0,
        sv_book_errors = 0, sv_callback_errors = 0, sv_errors_by_code = [], sv_last_errors = [],
        sv_sink = (if has_sink then Some [] else None), sv_clock_reads = 0, sv_emitted = []\<rparr>)"

text \<open>Sequencing: what is done before an error stays done.\<close>

type_synonym 'a outcome = "supervisor \<times> (sup_error + 'a)"

definition sv_bind :: "'a outcome \<Rightarrow> ('a \<Rightarrow> supervisor \<Rightarrow> 'b outcome) \<Rightarrow> 'b outcome" where
  "sv_bind r f = (case r of (st, Inl e) \<Rightarrow> (st, Inl e) | (st, Inr x) \<Rightarrow> f x st)"

section \<open>Outputs\<close>

definition put_record :: "sup_env \<Rightarrow> int \<Rightarrow> int \<Rightarrow> tape_payload \<Rightarrow> supervisor \<Rightarrow> supervisor" where
  "put_record ev mono_ns wall_ns payload st =
     (case sv_sink st of
        None \<Rightarrow> st
      | Some sunk \<Rightarrow>
          (let rec = \<lparr>tp_conn_id = cf_conn_id (sv_config st), tp_mono_ns = mono_ns, tp_wall_ns = wall_ns,
                      tp_payload = payload\<rparr>;
               taken = ev_accepts ev (length sunk)
           in st\<lparr>sv_sink := Some (sunk @ [SkPut rec taken]),
                 sv_records_not_persisted := sv_records_not_persisted st + (if taken then 0 else 1)\<rparr>))"

definition send_command :: "sup_env \<Rightarrow> ws_command \<Rightarrow> supervisor \<Rightarrow> int outcome" where
  "send_command ev cmd st =
     (case ev_clock ev (sv_clock_reads st) of (mono_ns, wall_ns) \<Rightarrow>
      (let st = st\<lparr>sv_clock_reads := sv_clock_reads st + 1\<rparr> in
       case sv_session st of
         None \<Rightarrow> (st, Inl WsClosed)
       | Some ss \<Rightarrow>
           (case ws_send cmd ss of
              (ss', Inl e) \<Rightarrow> (st\<lparr>sv_session := Some ss'\<rparr>, Inl e)
            | (ss', Inr command_id) \<Rightarrow>
                (put_record ev mono_ns wall_ns (PlCommand cmd command_id) (st\<lparr>sv_session := Some ss'\<rparr>),
                 Inr command_id))))"

definition record_connection_event :: "sup_env \<Rightarrow> string \<Rightarrow> string \<Rightarrow> supervisor \<Rightarrow> supervisor" where
  "record_connection_event ev event detail st =
     (case ev_clock ev (sv_clock_reads st) of (mono_ns, wall_ns) \<Rightarrow>
        put_record ev mono_ns wall_ns (PlConnection event detail) (st\<lparr>sv_clock_reads := sv_clock_reads st + 1\<rparr>))"

definition emit :: "sup_env \<Rightarrow> bus_event \<Rightarrow> supervisor \<Rightarrow> supervisor" where
  "emit ev event st =
     (case ev_on_event ev of
        None \<Rightarrow> st
      | Some raises \<Rightarrow>
          st\<lparr>sv_emitted := sv_emitted st @ [event],
             sv_callback_errors := sv_callback_errors st + (if raises (length (sv_emitted st)) then 1 else 0)\<rparr>)"

definition record_in_taps :: "book_change \<Rightarrow> bool \<Rightarrow> supervisor \<Rightarrow> supervisor" where
  "record_in_taps change was_stale st =
     fold (\<lambda>i st. case dict_get (sv_open_taps st) i of
             None \<Rightarrow> st
           | Some tap \<Rightarrow> st\<lparr>sv_open_taps := dict_put i (tap_record change was_stale tap) (sv_open_taps st)\<rparr>)
       (dict_get_or (sv_taps st) (change_ticker change) []) st"

definition decode_failed :: "supervisor \<Rightarrow> supervisor" where
  "decode_failed st = st\<lparr>sv_decode_errors := sv_decode_errors st + 1\<rparr>"

definition book_failed :: "supervisor \<Rightarrow> supervisor" where
  "book_failed st = st\<lparr>sv_book_errors := sv_book_errors st + 1\<rparr>"

definition publish_subscriptions :: "supervisor \<Rightarrow> supervisor" where
  "publish_subscriptions st = st\<lparr>sv_subscription_infos := map snd (sort_key fst (sv_subscriptions st))\<rparr>"

section \<open>Books\<close>

definition tickers_of :: "group option \<Rightarrow> string set" where
  "tickers_of g = (case g of None \<Rightarrow> {} | Some g \<Rightarrow> gr_tickers g)"

definition plan_of :: "group option \<Rightarrow> conn_plan" where
  "plan_of g = \<lparr>pl_groups = (case g of None \<Rightarrow> [] | Some g \<Rightarrow> [g])\<rparr>"

definition stale_book :: "string \<Rightarrow> supervisor \<Rightarrow> supervisor" where
  "stale_book t st =
     (case dict_get (lr_books (sv_live st)) t of
        None \<Rightarrow> st | Some (n, b) \<Rightarrow> st\<lparr>sv_live := put_book t n (mark_stale b) (sv_live st)\<rparr>)"

definition drop_book :: "string \<Rightarrow> supervisor \<Rightarrow> supervisor" where
  "drop_book t st = st\<lparr>sv_live := (sv_live st)\<lparr>lr_books := dict_pop t (lr_books (sv_live st))\<rparr>\<rparr>"

definition release_books :: "string list \<Rightarrow> supervisor \<Rightarrow> supervisor" where
  "release_books ts st =
     fold (\<lambda>t st. if t \<in> tickers_of (sv_desired st) then stale_book t st else drop_book t st) ts st"

definition prune_books :: "supervisor \<Rightarrow> supervisor" where
  "prune_books st =
     (let keep = tickers_of (sv_desired st) \<union> tickers_of (sv_applied st)
      in fold drop_book (filter (\<lambda>t. t \<notin> keep) (dict_keys (lr_books (sv_live st)))) st)"

definition book_fresh :: "string \<Rightarrow> supervisor \<Rightarrow> bool" where
  "book_fresh t st =
     (case dict_get (lr_books (sv_live st)) t of None \<Rightarrow> False | Some (n, b) \<Rightarrow> \<not> is_stale b)"

text \<open>The book a book message may touch, made when \<open>create\<close> allows; \<open>None\<close> for a straggler.\<close>

definition may_touch :: "int \<Rightarrow> string \<Rightarrow> supervisor \<Rightarrow> bool" where
  "may_touch sid ticker st =
     (case (dict_get (sv_subscriptions st) sid, sv_applied st) of
        (Some info, Some g) \<Rightarrow> si_channel info = ORDERBOOK_CHANNEL \<and> ticker \<in> gr_tickers g
      | _ \<Rightarrow> False)"

definition book_for :: "int \<Rightarrow> string \<Rightarrow> bool \<Rightarrow> supervisor \<Rightarrow> supervisor \<times> (nat \<times> book) option" where
  "book_for sid ticker create st =
     (if \<not> may_touch sid ticker st then (st, None)
      else case dict_get (lr_books (sv_live st)) ticker of
             Some nb \<Rightarrow> (st, Some nb)
           | None \<Rightarrow>
               if create then
                 (let n = lr_next (sv_live st); live = (sv_live st)\<lparr>lr_next := n + 1\<rparr>
                  in (st\<lparr>sv_live := put_book ticker n (new_book ticker) live\<rparr>, Some (n, new_book ticker)))
               else (st, None))"

section \<open>Resynchronisation\<close>

definition request_snapshot :: "sup_env \<Rightarrow> int \<Rightarrow> string set \<Rightarrow> supervisor \<Rightarrow> unit outcome" where
  "request_snapshot ev sid ts st =
     (let awaiting = dict_get_or (sv_resyncing st) sid {};
          wanted = sorted_list_of_set (ts - awaiting);
          st = st\<lparr>sv_resyncing := dict_put sid (awaiting \<union> set wanted) (sv_resyncing st)\<rparr>
      in if wanted = [] then (st, Inr ())
         else let st = st\<lparr>sv_snapshots_requested := sv_snapshots_requested st + 1\<rparr>
              in case sv_session st of
                   None \<Rightarrow> (st, Inl WsClosed)
                 | Some _ \<Rightarrow>
                     sv_bind (send_command ev (UpdateSubscriptionCommand sid GetSnapshotAction wanted) st)
                       (\<lambda>_ st. (st, Inr ())))"

definition finish_resync :: "int \<Rightarrow> string \<Rightarrow> supervisor \<Rightarrow> supervisor" where
  "finish_resync sid ticker st =
     (case dict_get (sv_resyncing st) sid of
        None \<Rightarrow> st
      | Some awaiting \<Rightarrow>
          st\<lparr>sv_resyncing := (if awaiting - {ticker} = {} then dict_pop sid (sv_resyncing st)
               else dict_put sid (awaiting - {ticker}) (sv_resyncing st))\<rparr>)"

definition resync_connection :: "sup_env \<Rightarrow> int \<Rightarrow> bool \<Rightarrow> supervisor \<Rightarrow> unit outcome" where
  "resync_connection ev sid ask_again st =
     (case (dict_get (sv_subscriptions st) sid, sv_applied st) of
        (Some info, Some g) \<Rightarrow>
          if si_channel info \<noteq> ORDERBOOK_CHANNEL then (st, Inr ())
          else let st = fold stale_book (sorted_list_of_set (gr_tickers g)) st;
                   st = (if ask_again then st\<lparr>sv_resyncing := dict_pop sid (sv_resyncing st)\<rparr> else st)
               in request_snapshot ev sid (gr_tickers g) st
      | _ \<Rightarrow> (st, Inr ()))"

definition on_gap :: "sup_env \<Rightarrow> int \<Rightarrow> int \<Rightarrow> int \<Rightarrow> receipt \<Rightarrow> supervisor \<Rightarrow> unit outcome" where
  "on_gap ev sid expected got rc st =
     (let st = st\<lparr>sv_gaps := sv_gaps st + 1\<rparr>;
          st = put_record ev (rc_recv_mono_ns rc) (rc_recv_wall_ns rc) (PlGap sid expected got) st;
          st = emit ev (EvGap \<lparr>ge_receipt = rc, ge_sid = sid, ge_expected_seq = expected, ge_got_seq = got\<rparr>) st
      in resync_connection ev sid True st)"

definition on_duplicate :: "sup_env \<Rightarrow> int \<Rightarrow> supervisor \<Rightarrow> unit outcome" where
  "on_duplicate ev sid st = resync_connection ev sid False (st\<lparr>sv_duplicates := sv_duplicates st + 1\<rparr>)"

section \<open>Book messages\<close>

text \<open>A payload that does not decode, and a conversion that fails, raise.\<close>

definition decoded :: "(string \<Rightarrow> 'm option) \<Rightarrow> envelope \<Rightarrow> convert_error + 'm" where
  "decoded dec env = (case dec (en_msg env) of None \<Rightarrow> Inl (WireError (''bad '' @ en_type env @ '' payload'')) | Some m \<Rightarrow> Inr m)"

definition converting :: "convert_error + 'a \<Rightarrow> ('a \<Rightarrow> 'b outcome) \<Rightarrow> supervisor \<Rightarrow> 'b outcome" where
  "converting r f st = (case r of Inl e \<Rightarrow> (st, Inl (ConvertFailed e)) | Inr x \<Rightarrow> f x)"

text \<open>A converted snapshot on the book it names: applied, reported to the taps, emitted.\<close>

definition apply_book_snapshot :: "sup_env \<Rightarrow> book_snapshot \<Rightarrow> supervisor \<Rightarrow> supervisor" where
  "apply_book_snapshot ev s st =
     (case book_for (bs_sid s) (bs_ticker s) True st of
        (st, None) \<Rightarrow> st
      | (st, Some (n, b)) \<Rightarrow>
          (let tapped = bs_ticker s \<in> set (dict_keys (sv_taps st));
               was_stale = (tapped \<and> is_stale b)
           in case apply_snapshot (bs_bids s) (bs_asks s) (bs_ts_ms s) b of
                (b', r) \<Rightarrow>
                  (let st = st\<lparr>sv_live := put_book (bs_ticker s) n b' (sv_live st)\<rparr>
                   in case r of
                        Inl e \<Rightarrow> book_failed st
                      | Inr _ \<Rightarrow>
                          emit ev (EvSnapshot s)
                            (if tapped then record_in_taps (ChSnapshot s) was_stale st else st))))"

definition on_snapshot :: "sup_env \<Rightarrow> envelope \<Rightarrow> receipt \<Rightarrow> supervisor \<Rightarrow> unit outcome" where
  "on_snapshot ev env rc st =
     converting (result_bind (decoded (ev_snapshot_msg ev) env)
         (\<lambda>msg. to_book_snapshot msg env rc (cf_use_yes_price (sv_config st))))
       (\<lambda>s. (apply_book_snapshot ev s (finish_resync (bs_sid s) (bs_ticker s) st), Inr ()))
       st"

text \<open>A converted delta on the book it names, and whether it broke the book's invariant.\<close>

definition apply_book_delta :: "sup_env \<Rightarrow> book_delta \<Rightarrow> supervisor \<Rightarrow> supervisor \<times> bool" where
  "apply_book_delta ev d st =
     (case book_for (bd_sid d) (bd_ticker d) False st of
        (st, None) \<Rightarrow> (st, False)
      | (st, Some (n, b)) \<Rightarrow>
          (case apply_delta (bd_side d) (bd_price d) (bd_delta d) (bd_ts_ms d) b of
             (b', r) \<Rightarrow>
               (let st = st\<lparr>sv_live := put_book (bd_ticker d) n b' (sv_live st)\<rparr>
                in case r of
                     Inl e \<Rightarrow> (book_failed st, True)
                   | Inr applied \<Rightarrow>
                       (if applied then
                          emit ev (EvDelta d)
                            (if bd_ticker d \<in> set (dict_keys (sv_taps st))
                             then record_in_taps (ChDelta d) False st else st)
                        else st, False))))"

definition on_delta :: "sup_env \<Rightarrow> envelope \<Rightarrow> receipt \<Rightarrow> supervisor \<Rightarrow> unit outcome" where
  "on_delta ev env rc st =
     converting (result_bind (decoded (ev_delta_msg ev) env)
         (\<lambda>msg. to_book_delta msg env rc (cf_use_yes_price (sv_config st))))
       (\<lambda>d. case apply_book_delta ev d st of
              (st, broken) \<Rightarrow> if broken then request_snapshot ev (bd_sid d) {bd_ticker d} st else (st, Inr ()))
       st"

section \<open>Subscriptions\<close>

definition subscribing :: "string \<Rightarrow> supervisor \<Rightarrow> bool" where
  "subscribing gid st = list_ex (\<lambda>(_, p). pd_group_id p = gid) (sv_pending st)"

text \<open>The \<^verbatim>\<open>sid\<close>s of each group, in ascending order.\<close>

definition sid_of :: "supervisor \<Rightarrow> (string, int list) dict" where
  "sid_of st =
     fold (\<lambda>(sid, info) out. dict_put (si_group_id info) (dict_get_or out (si_group_id info) [] @ [sid]) out)
       (sort_key fst (sv_subscriptions st)) []"

definition await_replies :: "int \<Rightarrow> string \<Rightarrow> string list \<Rightarrow> supervisor \<Rightarrow> supervisor" where
  "await_replies command_id gid channels st =
     st\<lparr>sv_pending := dict_put command_id \<lparr>pd_group_id = gid, pd_channels = set channels\<rparr> (sv_pending st)\<rparr>"

definition applied_group :: "string \<Rightarrow> supervisor \<Rightarrow> sup_error + group" where
  "applied_group gid st =
     (case sv_applied st of
        None \<Rightarrow> Inl (NoAppliedGroup gid)
      | Some g \<Rightarrow> if gr_group_id g \<noteq> gid then Inl (NoAppliedGroup gid) else Inr g)"

definition forget_sids :: "string \<Rightarrow> supervisor \<Rightarrow> supervisor" where
  "forget_sids gid st =
     fold (\<lambda>(sid, _) st. st\<lparr>sv_subscriptions := dict_pop sid (sv_subscriptions st),
                            sv_resyncing := dict_pop sid (sv_resyncing st)\<rparr>)
       (filter (\<lambda>(_, info). si_group_id info = gid) (sv_subscriptions st)) st"

definition record_plan_change :: "plan_change \<Rightarrow> supervisor \<Rightarrow> unit outcome" where
  "record_plan_change change st =
     (case change of
        AddGroup g \<Rightarrow> (st\<lparr>sv_applied := Some g\<rparr>, Inr ())
      | RemoveGroup gid \<Rightarrow>
          (case applied_group gid st of
             Inl e \<Rightarrow> (st, Inl e)
           | Inr g \<Rightarrow>
               (release_books (sorted_list_of_set (gr_tickers g))
                  (publish_subscriptions (forget_sids (gr_group_id g) (st\<lparr>sv_applied := None\<rparr>))), Inr ()))
      | AddMarkets gid ts \<Rightarrow>
          (case applied_group gid st of
             Inl e \<Rightarrow> (st, Inl e)
           | Inr g \<Rightarrow> (st\<lparr>sv_applied := Some (g\<lparr>gr_tickers := gr_tickers g \<union> set ts\<rparr>)\<rparr>, Inr ()))
      | RemoveMarkets gid ts \<Rightarrow>
          (case applied_group gid st of
             Inl e \<Rightarrow> (st, Inl e)
           | Inr g \<Rightarrow>
               (release_books ts (st\<lparr>sv_applied := Some (g\<lparr>gr_tickers := gr_tickers g - set ts\<rparr>)\<rparr>), Inr ())))"

definition group_use_yes_price :: "sup_config \<Rightarrow> bool option" where
  "group_use_yes_price cf = (if ORDERBOOK_CHANNEL \<in> set (cf_group_channels cf) then Some (cf_use_yes_price cf) else None)"

text \<open>The commands of one piece, sent one after the other.\<close>

fun send_commands :: "sup_env \<Rightarrow> plan_change \<Rightarrow> ws_command list \<Rightarrow> supervisor \<Rightarrow> unit outcome" where
  "send_commands ev piece [] st = (st, Inr ())"
| "send_commands ev piece (cmd # cmds) st =
     sv_bind (send_command ev cmd st) (\<lambda>command_id st.
       send_commands ev piece cmds
         (case piece of
            AddGroup g \<Rightarrow> await_replies command_id (gr_group_id g) (cf_group_channels (sv_config st)) st
          | _ \<Rightarrow> st))"

definition send_piece :: "sup_env \<Rightarrow> plan_change \<Rightarrow> supervisor \<Rightarrow> unit outcome" where
  "send_piece ev piece st =
     (case to_commands [piece] (cf_group_channels (sv_config st)) (group_use_yes_price (sv_config st)) (sid_of st) of
        Inl e \<Rightarrow> (st, Inl (PlanFailed e))
      | Inr cmds \<Rightarrow> sv_bind (send_commands ev piece cmds st) (\<lambda>_ st. record_plan_change piece st))"

text \<open>
  The two nested loops of a reconciliation. Both return whether the walk goes on: it ends early,
  with the work deferred, at a membership change of a group whose subscribe awaits a reply.
\<close>

definition piece_group :: "plan_change \<Rightarrow> string option" where
  "piece_group piece = (case piece of AddMarkets gid _ \<Rightarrow> Some gid | RemoveMarkets gid _ \<Rightarrow> Some gid | _ \<Rightarrow> None)"

fun reconcile_pieces :: "sup_env \<Rightarrow> plan_change list \<Rightarrow> supervisor \<Rightarrow> bool outcome" where
  "reconcile_pieces ev [] st = (st, Inr True)"
| "reconcile_pieces ev (piece # pieces) st =
     (if (case piece_group piece of None \<Rightarrow> False | Some gid \<Rightarrow> subscribing gid st)
      then (st\<lparr>sv_reconcile_deferred := True\<rparr>, Inr False)
      else sv_bind (send_piece ev piece st) (\<lambda>_ st. reconcile_pieces ev pieces st))"

fun reconcile_changes :: "sup_env \<Rightarrow> plan_change list \<Rightarrow> supervisor \<Rightarrow> bool outcome" where
  "reconcile_changes ev [] st = (st, Inr True)"
| "reconcile_changes ev (change # changes) st =
     (case split_change change (cf_max_markets_per_command (sv_config st)) of
        Inl e \<Rightarrow> (st, Inl (PlanFailed e))
      | Inr pieces \<Rightarrow>
          sv_bind (reconcile_pieces ev pieces st) (\<lambda>go_on st.
            if go_on then reconcile_changes ev changes st else (st, Inr False)))"

definition subscribe_firehose :: "sup_env \<Rightarrow> supervisor \<Rightarrow> unit outcome" where
  "subscribe_firehose ev st =
     (let firehose = cf_firehose_channels (sv_config st) in
      if firehose = [] \<or> sv_firehose_requested st then (st, Inr ())
      else sv_bind (send_command ev (SubscribeCommand firehose None None None) (st\<lparr>sv_firehose_requested := True\<rparr>))
             (\<lambda>command_id st. (await_replies command_id FIREHOSE_GROUP_ID firehose st, Inr ())))"

definition reconcile :: "sup_env \<Rightarrow> supervisor \<Rightarrow> unit outcome" where
  "reconcile ev st =
     (case sv_session st of
        None \<Rightarrow> (st, Inr ())
      | Some ss \<Rightarrow>
          if \<not> ws_open ss then (st, Inr ())
          else if sv_pending st \<noteq> [] then (st\<lparr>sv_reconcile_deferred := True\<rparr>, Inr ())
          else sv_bind (subscribe_firehose ev st) (\<lambda>_ st.
                 sv_bind (reconcile_changes ev (plan_diff (plan_of (sv_applied st)) (plan_of (sv_desired st))) st)
                   (\<lambda>_ st. (st, Inr ()))))"

definition resume_reconcile :: "sup_env \<Rightarrow> supervisor \<Rightarrow> unit outcome" where
  "resume_reconcile ev st =
     (if sv_reconcile_deferred st \<and> sv_pending st = []
      then reconcile ev (st\<lparr>sv_reconcile_deferred := False\<rparr>) else (st, Inr ()))"

definition expire_unanswered :: "int \<Rightarrow> supervisor \<Rightarrow> supervisor" where
  "expire_unanswered command_id st =
     (if dict_get (sv_pending st) command_id = None \<or> sv_reply_failure st \<noteq> FutureWaiting then st
      else st\<lparr>sv_reply_failure := FutureFailed command_id\<rparr>)"

definition answer :: "int \<Rightarrow> pending_subscribe \<Rightarrow> int \<Rightarrow> string \<Rightarrow> supervisor \<Rightarrow> supervisor" where
  "answer command_id p sid channel st =
     (let info = \<lparr>si_sid = sid, si_channel = channel, si_group_id = pd_group_id p\<rparr>;
          st = publish_subscriptions (st\<lparr>sv_subscriptions := dict_put sid info (sv_subscriptions st)\<rparr>);
          left = pd_channels p - {channel}
      in st\<lparr>sv_pending := (if left = {} then dict_pop command_id (sv_pending st)
                           else dict_put command_id (p\<lparr>pd_channels := left\<rparr>) (sv_pending st))\<rparr>)"

definition pending_of :: "envelope \<Rightarrow> supervisor \<Rightarrow> (int \<times> pending_subscribe) option" where
  "pending_of env st =
     (case en_id env of None \<Rightarrow> None
      | Some cid \<Rightarrow> (case dict_get (sv_pending st) cid of None \<Rightarrow> None | Some p \<Rightarrow> Some (cid, p)))"

definition on_subscribed :: "sup_env \<Rightarrow> envelope \<Rightarrow> supervisor \<Rightarrow> unit outcome" where
  "on_subscribed ev env st =
     converting (decoded (ev_subscribed_msg ev) env)
       (\<lambda>msg.
          let st = st\<lparr>sv_channel_of_sid := dict_put (sm_sid msg) (sm_channel msg) (sv_channel_of_sid st)\<rparr>
          in case pending_of env st of
               None \<Rightarrow> (st, Inr ())
             | Some (cid, p) \<Rightarrow> resume_reconcile ev (answer cid p (sm_sid msg) (sm_channel msg) st))
       st"

definition adopt_membership ::
  "sup_env \<Rightarrow> pending_subscribe \<Rightarrow> int \<Rightarrow> string \<Rightarrow> string list option \<Rightarrow> supervisor \<Rightarrow> unit outcome" where
  "adopt_membership ev p sid channel market_tickers st =
     (case (market_tickers, sv_applied st) of
        (Some (t # ts), Some g) \<Rightarrow>
          if gr_group_id g \<noteq> pd_group_id p then (st, Inr ())
          else let merged = set (t # ts);
                   st = (if merged = gr_tickers g then st
                         else st\<lparr>sv_applied := Some (g\<lparr>gr_tickers := merged\<rparr>), sv_reconcile_deferred := True\<rparr>)
               in if channel \<noteq> ORDERBOOK_CHANNEL then (st, Inr ())
                  else request_snapshot ev sid
                    {t \<in> merged \<inter> tickers_of (sv_desired st). \<not> book_fresh t st} st
      | _ \<Rightarrow> (st, Inr ()))"

definition on_ok :: "sup_env \<Rightarrow> envelope \<Rightarrow> supervisor \<Rightarrow> unit outcome" where
  "on_ok ev env st =
     (case pending_of env st of
        None \<Rightarrow> (st, Inr ())
      | Some (cid, p) \<Rightarrow>
          (case en_sid env of
             None \<Rightarrow> (st, Inr ())
           | Some sid \<Rightarrow>
               (case dict_get (sv_channel_of_sid st) sid of
                  None \<Rightarrow> (st, Inr ())
                | Some channel \<Rightarrow>
                    if channel \<notin> pd_channels p then (st, Inr ())
                    else converting (decoded (ev_ok_msg ev) env)
                      (\<lambda>msg. sv_bind (adopt_membership ev p sid channel (om_market_tickers msg)
                                        (answer cid p sid channel st))
                               (\<lambda>_ st. resume_reconcile ev st))
                      st)))"

definition on_error :: "sup_env \<Rightarrow> envelope \<Rightarrow> supervisor \<Rightarrow> unit outcome" where
  "on_error ev env st =
     converting (decoded (ev_error_msg ev) env)
       (\<lambda>msg.
          let errors = sv_last_errors st @ [\<lparr>we_code = em_code msg, we_message = em_msg msg, we_sid = en_sid env\<rparr>];
              st = st\<lparr>sv_errors_by_code := dict_put (em_code msg)
                        (dict_get_or (sv_errors_by_code st) (em_code msg) 0 + 1) (sv_errors_by_code st),
                      sv_last_errors := drop (length errors - MAX_RECENT_ERRORS) errors\<rparr>;
              st = (case en_sid env of None \<Rightarrow> st
                    | Some sid \<Rightarrow> st\<lparr>sv_resyncing := dict_pop sid (sv_resyncing st)\<rparr>)
          in case pending_of env st of
               None \<Rightarrow> (st, Inr ())
             | Some (cid, p) \<Rightarrow>
                 (let st = st\<lparr>sv_pending := dict_pop cid (sv_pending st)\<rparr>;
                      st = (if pd_group_id p = FIREHOSE_GROUP_ID then st\<lparr>sv_firehose_requested := False\<rparr>
                            else if list_all (\<lambda>(_, info). si_group_id info \<noteq> pd_group_id p) (sv_subscriptions st)
                            then st\<lparr>sv_applied := None\<rparr> else st)
                  in resume_reconcile ev st))
       st"

section \<open>Frames\<close>

definition dispatch :: "sup_env \<Rightarrow> envelope \<Rightarrow> receipt \<Rightarrow> supervisor \<Rightarrow> unit outcome" where
  "dispatch ev env rc st =
     (if en_type env = ''orderbook_snapshot'' then on_snapshot ev env rc st
      else if en_type env = ''orderbook_delta'' then on_delta ev env rc st
      else if en_type env = ''trade'' then
        converting (result_bind (decoded (ev_trade_msg ev) env) (\<lambda>msg. to_trade msg env rc))
          (\<lambda>t. (emit ev (EvTrade t) st, Inr ())) st
      else if en_type env = ''ticker'' then
        converting (result_bind (decoded (ev_ticker_msg ev) env) (\<lambda>msg. to_ticker msg env rc))
          (\<lambda>t. (emit ev (EvTicker t) st, Inr ())) st
      else if en_type env = ''market_lifecycle_v2'' then
        converting (result_bind (decoded (ev_lifecycle_msg ev) env) (\<lambda>msg. to_lifecycle (ev_utf8 ev) msg env rc))
          (\<lambda>l. (emit ev (EvLifecycle l) st, Inr ())) st
      else if en_type env = ''subscribed'' then on_subscribed ev env st
      else if en_type env = ''ok'' then on_ok ev env st
      else if en_type env = ''unsubscribed'' then
        ((case en_sid env of None \<Rightarrow> st | Some sid \<Rightarrow> st\<lparr>sv_tracker := gt_forget sid (sv_tracker st)\<rparr>), Inr ())
      else if en_type env = ''error'' then on_error ev env st
      else (st, Inr ()))"

definition check_sequence :: "sup_env \<Rightarrow> envelope \<Rightarrow> receipt \<Rightarrow> supervisor \<Rightarrow> unit outcome" where
  "check_sequence ev env rc st =
     (case en_sid env of
        None \<Rightarrow> (st, Inr ())
      | Some sid \<Rightarrow>
          (let tracker = (if en_type env = SNAPSHOT_TYPE \<and> sid \<in> set (dict_keys (sv_resyncing st))
                          then gt_reset sid (sv_tracker st) else sv_tracker st)
           in case observe sid (en_seq env) tracker of
                (tracker, verdict) \<Rightarrow>
                  (let st = st\<lparr>sv_tracker := tracker\<rparr>
                   in case verdict of
                        VGap expected got \<Rightarrow> on_gap ev sid expected got rc st
                      | VDuplicate _ _ \<Rightarrow> on_duplicate ev sid st
                      | _ \<Rightarrow> (st, Inr ()))))"

text \<open>Only \<^verbatim>\<open>WireError\<close> and \<^verbatim>\<open>FixedPointError\<close> are caught; any other error ends the connection.\<close>

definition caught :: "unit outcome \<Rightarrow> unit outcome" where
  "caught r = (case r of
     (st, Inl (ConvertFailed (WireError _))) \<Rightarrow> (decode_failed st, Inr ())
   | (st, Inl (ConvertFailed (FixedPointError _))) \<Rightarrow> (decode_failed st, Inr ())
   | _ \<Rightarrow> r)"

definition frame_receipt :: "raw_frame \<Rightarrow> supervisor \<Rightarrow> receipt" where
  "frame_receipt f st = \<lparr>rc_conn_id = cf_conn_id (sv_config st), rc_recv_mono_ns = rf_recv_mono_ns f,
     rc_recv_wall_ns = rf_recv_wall_ns f\<rparr>"

text \<open>A frame, once it is on its way to the tape.\<close>

definition interpret_frame :: "sup_env \<Rightarrow> raw_frame \<Rightarrow> supervisor \<Rightarrow> unit outcome" where
  "interpret_frame ev f st =
     (case ev_envelope ev (rf_payload f) of
        None \<Rightarrow> (decode_failed st, Inr ())
      | Some env \<Rightarrow>
          (let rc = frame_receipt f st
           in sv_bind (check_sequence ev env rc st) (\<lambda>_ st. caught (dispatch ev env rc st))))"

definition count_frame :: "supervisor \<Rightarrow> supervisor" where
  "count_frame st = st\<lparr>sv_frames := sv_frames st + 1, sv_frames_this_connection := sv_frames_this_connection st + 1\<rparr>"

definition on_frame :: "sup_env \<Rightarrow> raw_frame \<Rightarrow> supervisor \<Rightarrow> unit outcome" where
  "on_frame ev f st =
     interpret_frame ev f
       (put_record ev (rf_recv_mono_ns f) (rf_recv_wall_ns f) (PlFrame (rf_payload f)) (count_frame st))"

section \<open>Control\<close>

datatype set_group_error = GroupOfOtherConnection string int | NoGroupChannels int | SetGroupFailed sup_error

definition close_session :: "supervisor \<Rightarrow> supervisor" where
  "close_session st = st\<lparr>sv_session := map_option ws_close (sv_session st)\<rparr>"

definition set_group :: "sup_env \<Rightarrow> group option \<Rightarrow> supervisor \<Rightarrow> supervisor \<times> (set_group_error + unit)" where
  "set_group ev g st =
     (let cf = sv_config st;
          moved = (let (st, r) = reconcile ev (st\<lparr>sv_desired := g\<rparr>)
                   in case r of
                        Inr _ \<Rightarrow> (prune_books st, Inr ())
                      | Inl WsClosed \<Rightarrow> (prune_books (close_session st), Inr ())
                      | Inl TransportFailed \<Rightarrow> (prune_books (close_session st), Inr ())
                      | Inl e \<Rightarrow> (st, Inl (SetGroupFailed e)))
      in case g of
           None \<Rightarrow> moved
         | Some gr \<Rightarrow>
             if gr_conn_id gr \<noteq> cf_conn_id cf then (st, Inl (GroupOfOtherConnection (gr_group_id gr) (gr_conn_id gr)))
             else if cf_group_channels cf = [] then (st, Inl (NoGroupChannels (cf_conn_id cf)))
             else moved)"

definition open_tap :: "string list \<Rightarrow> int \<Rightarrow> supervisor \<Rightarrow> supervisor \<times> (tap_error + nat)" where
  "open_tap ts max_events st =
     (case new_live_tap ts (sv_live st) max_events of
        Inl e \<Rightarrow> (st, Inl e)
      | Inr tap \<Rightarrow>
          (let i = sv_next_tap st
           in (st\<lparr>sv_next_tap := i + 1, sv_open_taps := dict_put i tap (sv_open_taps st),
                  sv_taps := fold (\<lambda>t taps. dict_put t (dict_get_or taps t [] @ [i]) taps) (lt_tickers tap) (sv_taps st)\<rparr>,
               Inr i)))"

definition release_tap :: "nat \<Rightarrow> live_tap \<Rightarrow> (string, nat list) dict \<Rightarrow> (string, nat list) dict" where
  "release_tap i tap taps =
     fold (\<lambda>t taps. let remaining = filter (\<lambda>j. j \<noteq> i) (dict_get_or taps t [])
             in if remaining \<noteq> [] then dict_put t remaining taps else dict_pop t taps)
       (lt_tickers tap) taps"

text \<open>Closing a tap of this supervisor: its windows, and no more changes routed to it.\<close>

definition close_tap :: "nat \<Rightarrow> supervisor \<Rightarrow> supervisor \<times> (tap_error + (string, tap_window) dict) option" where
  "close_tap i st =
     (case dict_get (sv_open_taps st) i of
        None \<Rightarrow> (st, None)
      | Some tap \<Rightarrow>
          (case tap_close (sv_live st) tap of
             (tap', Inl e) \<Rightarrow> (st, Some (Inl e))
           | (tap', Inr ws) \<Rightarrow>
               (st\<lparr>sv_open_taps := dict_put i tap' (sv_open_taps st),
                   sv_taps := (if tap_closed tap then sv_taps st else release_tap i tap (sv_taps st))\<rparr>,
                Some (Inr ws))))"

section \<open>Connections\<close>

definition forget_connection :: "supervisor \<Rightarrow> supervisor" where
  "forget_connection st =
     (let st = st\<lparr>sv_session := None, sv_reply_failure := NoFuture, sv_tracker := new_gap_tracker,
                  sv_applied := None, sv_subscriptions := []\<rparr>
      in (publish_subscriptions st)\<lparr>sv_channel_of_sid := [], sv_pending := [], sv_resyncing := [],
            sv_reconcile_deferred := False, sv_firehose_requested := False, sv_frames_this_connection := 0\<rparr>)"

definition begin_connection :: "ws_session \<Rightarrow> supervisor \<Rightarrow> supervisor" where
  "begin_connection ss st = (forget_connection st)\<lparr>sv_session := Some ss, sv_reply_failure := FutureWaiting\<rparr>"

definition end_connection :: "sup_env \<Rightarrow> bool \<Rightarrow> string \<Rightarrow> supervisor \<Rightarrow> supervisor" where
  "end_connection ev opened detail st =
     (let st = forget_connection st
      in if opened then
           (let st = record_connection_event ev ''close'' detail st;
                st = fold stale_book (dict_keys (lr_books (sv_live st))) st
            in st\<lparr>sv_sink := map_option (\<lambda>sunk. sunk @ [SkRotate]) (sv_sink st)\<rparr>)
         else if detail \<noteq> STOPPED then record_connection_event ev ''error'' detail st
         else st)"

definition connection_opened :: "sup_env \<Rightarrow> supervisor \<Rightarrow> unit outcome" where
  "connection_opened ev st =
     reconcile ev (record_connection_event ev ''open'' ''connected''
       (st\<lparr>sv_session := map_option (\<lambda>ss. ss\<lparr>ws_open := True\<rparr>) (sv_session st)\<rparr>))"

datatype retry = GiveUp | RetryAfter rat | BadBackoff backoff_error

definition back_off :: "rat \<Rightarrow> supervisor \<Rightarrow> supervisor \<times> retry" where
  "back_off jitter st =
     (let st = (if sv_frames_this_connection st > 0 then st\<lparr>sv_consecutive_failures := 0\<rparr> else st);
          cf = sv_config st
      in case backoff_delay_s (sv_consecutive_failures st) (cf_backoff_initial_ns cf) (cf_backoff_max_ns cf) jitter of
           Inl e \<Rightarrow> (st, BadBackoff e)
         | Inr delay \<Rightarrow>
             (let st = st\<lparr>sv_consecutive_failures := sv_consecutive_failures st + 1\<rparr>
              in case cf_max_consecutive_failures cf of
                   Some limit \<Rightarrow> if sv_consecutive_failures st > limit then (st, GiveUp) else (st, RetryAfter delay)
                 | None \<Rightarrow> (st, RetryAfter delay)))"

section \<open>Running\<close>

text \<open>
  One connection from beginning to end, given what the exchange does with it: whether connecting
  succeeds, the frames that arrive, and how their stream ends. Other calls on the supervisor while
  it runs are steps of their own, below. The text of an error is a parameter.
\<close>

datatype connect_result = Connected | ConnectFailed string | ConnectStopped
datatype stream_end = StreamEnded | StreamFailed string
datatype connection_result = ConnectionStopped | ConnectionLost string | ConnectionCrashed sup_error

record attempt =
  at_outcome :: "int \<Rightarrow> send_outcome"
  at_connect :: connect_result
  at_frames :: "raw_frame list"
  at_end :: stream_end
  at_jitter :: rat

fun handle_frames :: "sup_env \<Rightarrow> raw_frame list \<Rightarrow> supervisor \<Rightarrow> unit outcome" where
  "handle_frames ev [] st = (st, Inr ())"
| "handle_frames ev (f # fs) st = sv_bind (on_frame ev f st) (\<lambda>_ st. handle_frames ev fs st)"

definition unrequested_end :: "sup_config \<Rightarrow> string" where
  "unrequested_end cf = ''connection '' @ show_nat (nat (cf_conn_id cf)) @ '' frame stream ended unrequested''"

definition consume :: "sup_env \<Rightarrow> attempt \<Rightarrow> supervisor \<Rightarrow> string option outcome" where
  "consume ev a st =
     sv_bind (handle_frames ev (at_frames a) st) (\<lambda>_ st. (st, Inr
       (case at_end a of
          StreamFailed d \<Rightarrow> Some d
        | StreamEnded \<Rightarrow> if sv_stop_requested st then None else Some (unrequested_end (sv_config st)))))"

definition run_connection ::
  "sup_env \<Rightarrow> (sup_error \<Rightarrow> string) \<Rightarrow> attempt \<Rightarrow> supervisor \<Rightarrow> supervisor \<times> connection_result" where
  "run_connection ev error_text a st =
     (let st = begin_connection (new_ws_session (at_outcome a)) st;
          opened = (at_connect a = Connected);
          (st, result) =
            (case at_connect a of
               ConnectStopped \<Rightarrow> (st, Inr None)
             | ConnectFailed d \<Rightarrow> (st, Inr (Some d))
             | Connected \<Rightarrow> sv_bind (connection_opened ev st) (\<lambda>_ st. consume ev a st));
          crashed = (case result of Inl WsClosed \<Rightarrow> None | Inl TransportFailed \<Rightarrow> None | Inl e \<Rightarrow> Some e | _ \<Rightarrow> None);
          failure = (if sv_stop_requested st then None
                     else case result of Inl e \<Rightarrow> Some (error_text e) | Inr f \<Rightarrow> f);
          detail = (if crashed \<noteq> None then ''supervisor failed''
                    else case failure of None \<Rightarrow> STOPPED | Some d \<Rightarrow> d)
      in (end_connection ev opened detail st,
          case crashed of
            Some e \<Rightarrow> ConnectionCrashed e
          | None \<Rightarrow> (case failure of None \<Rightarrow> ConnectionStopped | Some d \<Rightarrow> ConnectionLost d)))"

datatype run_result = RunStopped | RunAbandoned string | RunCrashed sup_error | RunBadBackoff backoff_error

text \<open>\<^verbatim>\<open>run\<close> over a list of attempts: how it ended, or \<open>None\<close> when the attempts are used up.\<close>

fun run_attempts ::
  "sup_env \<Rightarrow> (sup_error \<Rightarrow> string) \<Rightarrow> attempt list \<Rightarrow> supervisor \<Rightarrow> supervisor \<times> run_result option" where
  "run_attempts ev error_text [] st = (st, None)"
| "run_attempts ev error_text (a # as) st =
     (if sv_stop_requested st then (st, Some RunStopped)
      else case run_connection ev error_text a st of
             (st, ConnectionStopped) \<Rightarrow> (st, Some RunStopped)
           | (st, ConnectionCrashed e) \<Rightarrow> (st, Some (RunCrashed e))
           | (st, ConnectionLost d) \<Rightarrow>
               (case back_off (at_jitter a) st of
                  (st, GiveUp) \<Rightarrow> (st, Some (RunAbandoned d))
                | (st, BadBackoff e) \<Rightarrow> (st, Some (RunBadBackoff e))
                | (st, RetryAfter _) \<Rightarrow>
                    run_attempts ev error_text as
                      (if sv_stop_requested st then st else st\<lparr>sv_reconnects := sv_reconnects st + 1\<rparr>)))"

definition start :: "supervisor \<Rightarrow> supervisor option" where
  "start st = (if sv_started st then None else Some (st\<lparr>sv_started := True\<rparr>))"

definition stop :: "supervisor \<Rightarrow> supervisor" where
  "stop st = close_session (st\<lparr>sv_stop_requested := True\<rparr>)"

record sup_stats =
  su_frames :: int
  su_records_not_persisted :: int
  su_decode_errors :: int
  su_gaps :: int
  su_duplicates :: int
  su_reconnects :: int
  su_snapshots_requested :: int
  su_stale_books :: int
  su_book_errors :: int
  su_callback_errors :: int
  su_errors_by_code :: "(int, int) dict"

definition stats_of :: "supervisor \<Rightarrow> sup_stats" where
  "stats_of st = \<lparr>su_frames = sv_frames st, su_records_not_persisted = sv_records_not_persisted st,
     su_decode_errors = sv_decode_errors st, su_gaps = sv_gaps st, su_duplicates = sv_duplicates st,
     su_reconnects = sv_reconnects st, su_snapshots_requested = sv_snapshots_requested st,
     su_stale_books = int (length (filter (\<lambda>(_, _, b). is_stale b) (lr_books (sv_live st)))),
     su_book_errors = sv_book_errors st, su_callback_errors = sv_callback_errors st,
     su_errors_by_code = sv_errors_by_code st\<rparr>"

section \<open>The life of a supervisor\<close>

text \<open>
  One step of a supervisor: what \<^verbatim>\<open>run\<close> does around a connection (\<open>begins\<close>, \<open>opens\<close>, \<open>frame\<close>,
  \<open>ends\<close>, \<open>waits\<close>, \<open>retries\<close>), what its owner calls, and what happens to the socket and the timers.
\<close>

inductive sup_step :: "sup_env \<Rightarrow> supervisor \<Rightarrow> supervisor \<Rightarrow> bool" for ev where
  begins: "sv_session st = None \<Longrightarrow> \<not> sv_stop_requested st \<Longrightarrow>
     sup_step ev st (begin_connection (new_ws_session outcome) st)"
| opens: "sv_session st \<noteq> None \<Longrightarrow> sup_step ev st (fst (connection_opened ev st))"
| frame: "sv_session st \<noteq> None \<Longrightarrow> sup_step ev st (fst (on_frame ev f st))"
| expires: "sup_step ev st (expire_unanswered command_id st)"
| disconnects: "sup_step ev st (close_session st)"
| ends: "sv_session st \<noteq> None \<Longrightarrow> sup_step ev st (end_connection ev opened detail st)"
| waits: "sv_session st = None \<Longrightarrow> sup_step ev st (fst (back_off jitter st))"
| retries: "sv_session st = None \<Longrightarrow> sup_step ev st (st\<lparr>sv_reconnects := sv_reconnects st + 1\<rparr>)"
| stops: "sup_step ev st (stop st)"
| regroups: "sup_step ev st (fst (set_group ev g st))"
| taps: "sup_step ev st (fst (open_tap ts max_events st))"
| untaps: "sup_step ev st (fst (close_tap i st))"

definition sup_run :: "sup_env \<Rightarrow> supervisor \<Rightarrow> supervisor \<Rightarrow> bool" where
  "sup_run ev = (sup_step ev)\<^sup>*\<^sup>*"

end
