(* ===== verification/Supervision.thy ===== *)
theory Supervision
  imports Supervisor
begin

text \<open>
  Every handler of a supervisor at once (\<^verbatim>\<open>tape/recorder/supervisor.py\<close>). A locale states what a
  relation between the state before and after must be closed under, and proves that every handler,
  and then every step of a supervisor's life, keeps it. Its interpretations are the relations the
  properties need: the books and events of a publisher, the recordings of a tap, the growth of the
  tape, the order and size of the commands on a socket.
\<close>

section \<open>What a handler may do\<close>

text \<open>Everything of a supervisor that its owner, the exchange or the tape can see.\<close>

definition outputs where
  "outputs st = (sv_config st, sv_live st, sv_taps st, sv_open_taps st, sv_next_tap st, sv_session st,
     sv_sink st, sv_emitted st, sv_consecutive_failures st, sv_reconnects st, sv_stop_requested st)"

definition command_markets :: "ws_command \<Rightarrow> string list" where
  "command_markets cmd = (case cmd of
     SubscribeCommand _ (Some ts) _ _ \<Rightarrow> ts | UpdateSubscriptionCommand _ _ ts \<Rightarrow> ts | _ \<Rightarrow> [])"

fun asks_snapshot :: "ws_command \<Rightarrow> bool" where
  "asks_snapshot (UpdateSubscriptionCommand _ GetSnapshotAction _) = True"
| "asks_snapshot _ = False"

definition sendable :: "supervisor \<Rightarrow> ws_command \<Rightarrow> bool" where
  "sendable st cmd \<longleftrightarrow> asks_snapshot cmd \<or> command_markets cmd = [] \<or>
     int (length (command_markets cmd)) \<le> cf_max_markets_per_command (sv_config st)"

fun is_frame :: "tape_payload \<Rightarrow> bool" where
  "is_frame (PlFrame _) = True"
| "is_frame _ = False"

text \<open>
  A relation between the state before and after: reflexive, transitive, and kept by everything a
  handler is made of. Then every handler keeps it.
\<close>

locale sup_handlers =
  fixes ev :: sup_env and R :: "supervisor \<Rightarrow> supervisor \<Rightarrow> bool"
  assumes same: "outputs st' = outputs st \<Longrightarrow> R st st'"
    and trans: "R st st1 \<Longrightarrow> R st1 st2 \<Longrightarrow> R st st2"
    and put: "\<not> is_frame p \<Longrightarrow> R st (put_record ev m w p st)"
    and emitted: "\<not> is_book_event e \<Longrightarrow> R st (emit ev e st)"
    and sent: "sendable st cmd \<Longrightarrow> R st (fst (send_command ev cmd st))"
    and staled: "R st (stale_book t st)"
    and dropped: "R st (drop_book t st)"
    and snapshot_applied: "R st (apply_book_snapshot ev s st)"
    and delta_applied: "R st (fst (apply_book_delta ev d st))"
begin

lemma refl [simp, intro]: "R st st"
  by (rule same) simp

lemma fold_R: "(\<And>x st. R st (f x st)) \<Longrightarrow> R st (fold f xs st)"
  by (induction xs arbitrary: st) (auto intro: trans)

lemma bind_R:
  "R st (fst r) \<Longrightarrow> (\<And>x st1. r = (st1, Inr x) \<Longrightarrow> R st1 (fst (f x st1))) \<Longrightarrow> R st (fst (sv_bind r f))"
  by (cases r) (auto simp: sv_bind_def split: sum.splits intro: trans)

lemma converting_R: "(\<And>x. r = Inr x \<Longrightarrow> R st (fst (f x))) \<Longrightarrow> R st (fst (converting r f st))"
  by (auto simp: converting_def split: sum.splits)

lemma then_same: "R st st1 \<Longrightarrow> outputs st2 = outputs st1 \<Longrightarrow> R st st2"
  using same trans by blast

lemma after_same: "outputs st1 = outputs st \<Longrightarrow> R st1 st2 \<Longrightarrow> R st st2"
  using same trans by blast

lemma publish_R: "R st (publish_subscriptions st)"
  by (rule same) (simp add: outputs_def publish_subscriptions_def)

lemma release_books_R: "R st (release_books ts st)"
  unfolding release_books_def by (rule fold_R) (simp add: staled dropped)

lemma prune_books_R: "R st (prune_books st)"
  unfolding prune_books_def Let_def by (rule fold_R) (rule dropped)

lemma request_snapshot_R: "R st (fst (request_snapshot ev sid ts st))"
proof -
  let ?cmd = "UpdateSubscriptionCommand sid GetSnapshotAction
    (sorted_list_of_set (ts - dict_get_or (sv_resyncing st) sid {}))"
  have "R st1 (fst (sv_bind (send_command ev ?cmd st1) (\<lambda>_ st. (st, Inr ()))))" for st1
    by (rule bind_R) (simp_all add: sent sendable_def)
  moreover have "outputs (st\<lparr>sv_resyncing := a, sv_snapshots_requested := b\<rparr>) = outputs st"
      "outputs (st\<lparr>sv_resyncing := a\<rparr>) = outputs st" for a b
    by (simp_all add: outputs_def)
  ultimately show ?thesis
    unfolding request_snapshot_def Let_def
    by (auto split: option.splits intro: same after_same)
qed

lemma resync_R: "R st (fst (resync_connection ev sid ask_again st))"
proof -
  have "R st (fold stale_book ts st)" for ts by (rule fold_R) (rule staled)
  moreover from then_same [OF this] have "R st ((fold stale_book ts st)\<lparr>sv_resyncing := x\<rparr>)" for ts x
    by (simp add: outputs_def)
  ultimately show ?thesis
    unfolding resync_connection_def Let_def
    by (auto split: option.splits intro: trans [OF _ request_snapshot_R])
qed

lemma on_gap_R: "R st (fst (on_gap ev sid e g rc st))"
proof -
  let ?a = "st\<lparr>sv_gaps := sv_gaps st + 1\<rparr>"
  let ?b = "put_record ev (rc_recv_mono_ns rc) (rc_recv_wall_ns rc) (PlGap sid e g) ?a"
  have "R st ?a" by (rule same) (simp add: outputs_def)
  moreover have "R ?a ?b" by (rule put) simp
  moreover have "R ?b (emit ev (EvGap \<lparr>ge_receipt = rc, ge_sid = sid, ge_expected_seq = e, ge_got_seq = g\<rparr>) ?b)"
    by (rule emitted) simp
  ultimately show ?thesis unfolding on_gap_def Let_def by (blast intro: trans resync_R)
qed

lemma on_duplicate_R: "R st (fst (on_duplicate ev sid st))"
  unfolding on_duplicate_def by (rule after_same [OF _ resync_R]) (simp add: outputs_def)

lemma check_sequence_R: "R st (fst (check_sequence ev env rc st))"
proof -
  have "R st (st\<lparr>sv_tracker := x\<rparr>)" for x by (rule same) (simp add: outputs_def)
  then have "R st (fst (on_gap ev sid e g rc (st\<lparr>sv_tracker := x\<rparr>)))"
      "R st (fst (on_duplicate ev sid (st\<lparr>sv_tracker := x\<rparr>)))" for sid e g x
    by (blast intro: trans on_gap_R on_duplicate_R)+
  then show ?thesis
    using \<open>\<And>x. R st (st\<lparr>sv_tracker := x\<rparr>)\<close>
    by (auto simp: check_sequence_def Let_def split: option.splits prod.splits gap_verdict.splits)
qed

lemma on_snapshot_R: "R st (fst (on_snapshot ev env rc st))"
proof -
  have "R st (finish_resync sid t st)" for sid t
    by (rule same) (simp add: outputs_def finish_resync_def split: option.splits)
  then show ?thesis
    unfolding on_snapshot_def by (intro converting_R) (auto intro: trans [OF _ snapshot_applied])
qed

lemma on_delta_R: "R st (fst (on_delta ev env rc st))"
proof -
  have "R st (fst (case apply_book_delta ev d st of (st, broken) \<Rightarrow>
      if broken then request_snapshot ev (bd_sid d) {bd_ticker d} st else (st, Inr ())))" for d
    using delta_applied [of st d] by (auto split: prod.splits intro: trans [OF _ request_snapshot_R])
  then show ?thesis unfolding on_delta_def by (rule converting_R)
qed

end

section \<open>Reconciliation\<close>

lemma send_keeps [simp]:
  "sv_config (put_record ev m w p st) = sv_config st"
  "sv_config (fst (send_command ev cmd st)) = sv_config st"
  "sv_config (emit ev e st) = sv_config st"
  by (auto simp: put_record_def send_command_def emit_def Let_def split: option.splits prod.splits sum.splits)

lemma fold_keeps: "(\<And>x st. g (f x st) = g st) \<Longrightarrow> g (fold f xs st) = g st"
  by (induction xs arbitrary: st) auto

lemma release_books_config [simp]: "sv_config (release_books ts st) = sv_config st"
  unfolding release_books_def
  by (rule fold_keeps) (auto simp: stale_book_def drop_book_def split: option.splits)

lemma forget_sids_keeps [simp]:
  "sv_config (forget_sids gid st) = sv_config st"
  "outputs (forget_sids gid st) = outputs st"
  unfolding forget_sids_def
  by (rule fold_keeps; simp add: outputs_def split: prod.splits)+

lemma publish_config [simp]: "sv_config (publish_subscriptions st) = sv_config st"
  by (simp add: publish_subscriptions_def)

lemma record_plan_change_config [simp]: "sv_config (fst (record_plan_change c st)) = sv_config st"
  by (auto simp: record_plan_change_def split: plan_change.splits sum.splits)

lemma await_config [simp]: "sv_config (await_replies cid g cs st) = sv_config st"
  by (simp add: await_replies_def)

lemma sv_bind_config:
  "sv_config (fst r) = sv_config st \<Longrightarrow> (\<And>x st1. r = (st1, Inr x) \<Longrightarrow> sv_config (fst (f x st1)) = sv_config st1) \<Longrightarrow>
   sv_config (fst (sv_bind r f)) = sv_config st"
  by (cases r) (auto simp: sv_bind_def split: sum.splits)

lemma send_commands_config [simp]: "sv_config (fst (send_commands ev piece cmds st)) = sv_config st"
proof (induction cmds arbitrary: st)
  case (Cons cmd cmds)
  show ?case
    unfolding send_commands.simps by (rule sv_bind_config) (auto simp: Cons.IH split: plan_change.splits)
qed simp

lemma send_piece_config [simp]: "sv_config (fst (send_piece ev piece st)) = sv_config st"
  by (auto simp: send_piece_def split: sum.splits intro!: sv_bind_config)

text \<open>The commands of a piece of bounded size are bounded.\<close>

lemma result_list_Inr_mem: "result_list f xs = Inr ys \<Longrightarrow> y \<in> set ys \<Longrightarrow> \<exists>x\<in>set xs. f x = Inr y"
  by (induction xs arbitrary: ys) (auto simp: result_simps)

lemma piece_sendable:
  assumes "to_commands [piece] channels yes so = Inr cmds" "cmd \<in> set cmds"
    "int (named_markets piece) \<le> cf_max_markets_per_command (sv_config st)"
  shows "sendable st cmd"
proof -
  obtain ch where ch: "change_commands channels yes so piece = Inr ch" "cmds = ch"
    using assms(1) by (auto simp: to_commands_def result_simps split: if_splits)
  then show ?thesis
    using assms(2,3)
    by (cases piece) (auto simp: change_commands_def new_subscribe_def new_update_def sendable_def command_markets_def
      named_markets_def result_simps dest!: result_list_Inr_mem split: if_splits)
qed

context sup_handlers begin

lemma await_R: "R st (await_replies cid g cs st)"
  by (rule same) (simp add: outputs_def await_replies_def)

lemma record_plan_change_R: "R st (fst (record_plan_change c st))"
proof -
  have rel: "R st (release_books ts (st\<lparr>sv_applied := x\<rparr>))" for x ts
    by (rule after_same [OF _ release_books_R]) (simp add: outputs_def)
  have forgot: "outputs (publish_subscriptions (forget_sids gid (st\<lparr>sv_applied := x\<rparr>))) = outputs st" for gid x
    using forget_sids_keeps(2) [of gid "st\<lparr>sv_applied := x\<rparr>"] by (simp add: outputs_def publish_subscriptions_def)
  have "R st (release_books ts (publish_subscriptions (forget_sids gid (st\<lparr>sv_applied := x\<rparr>))))" for ts gid x
    by (rule after_same [OF forgot release_books_R])
  moreover have "R st (st\<lparr>sv_applied := x\<rparr>)" for x by (rule same) (simp add: outputs_def)
  ultimately show ?thesis
    using rel by (auto simp: record_plan_change_def split: plan_change.splits sum.splits)
qed

lemma send_commands_R:
  assumes "\<forall>cmd\<in>set cmds. \<forall>st'. sv_config st' = sv_config st \<longrightarrow> sendable st' cmd"
  shows "R st (fst (send_commands ev piece cmds st))"
  using assms
proof (induction cmds arbitrary: st)
  case (Cons cmd cmds)
  show ?case
    unfolding send_commands.simps
  proof (rule bind_R)
    show "R st (fst (send_command ev cmd st))" using Cons.prems by (auto intro: sent)
    fix x st1 assume sc: "send_command ev cmd st = (st1, Inr x)"
    have cf: "sv_config st1 = sv_config st" using send_keeps(2) [of ev cmd st] sc by simp
    have "R st1 (fst (send_commands ev piece cmds st1))" "R (await_replies x g cs st1)
        (fst (send_commands ev piece cmds (await_replies x g cs st1)))" for g cs
      using Cons.prems cf by (auto intro: Cons.IH)
    then show "R st1 (fst (send_commands ev piece cmds (case piece of
        AddGroup g \<Rightarrow> await_replies x (gr_group_id g) (cf_group_channels (sv_config st1)) st1 | _ \<Rightarrow> st1)))"
      by (cases piece) (auto intro: trans [OF await_R])
  qed
qed simp

lemma send_piece_R:
  assumes "int (named_markets piece) \<le> cf_max_markets_per_command (sv_config st)"
  shows "R st (fst (send_piece ev piece st))"
proof (cases "to_commands [piece] (cf_group_channels (sv_config st)) (group_use_yes_price (sv_config st)) (sid_of st)")
  case (Inr cmds)
  then have "\<forall>cmd\<in>set cmds. \<forall>st'. sv_config st' = sv_config st \<longrightarrow> sendable st' cmd"
    using piece_sendable assms by metis
  then have "R st (fst (send_commands ev piece cmds st))" by (rule send_commands_R)
  then have "R st (fst (sv_bind (send_commands ev piece cmds st) (\<lambda>_ st. record_plan_change piece st)))"
    by (rule bind_R) (rule record_plan_change_R)
  then show ?thesis by (simp add: send_piece_def Inr)
qed (simp add: send_piece_def)

lemma deferred_R: "R st (st\<lparr>sv_reconcile_deferred := x\<rparr>)"
  by (rule same) (simp add: outputs_def)

lemma reconcile_pieces_R:
  assumes "\<forall>piece\<in>set pieces. int (named_markets piece) \<le> cf_max_markets_per_command (sv_config st)"
  shows "R st (fst (reconcile_pieces ev pieces st))"
  using assms
proof (induction pieces arbitrary: st)
  case (Cons piece pieces)
  have "R st (fst (sv_bind (send_piece ev piece st) (\<lambda>_ st. reconcile_pieces ev pieces st)))"
  proof (rule bind_R)
    show "R st (fst (send_piece ev piece st))" using Cons.prems by (simp add: send_piece_R)
    fix x st1 assume "send_piece ev piece st = (st1, Inr x)"
    then have "sv_config st1 = sv_config st" by (metis fst_conv send_piece_config)
    then show "R st1 (fst (reconcile_pieces ev pieces st1))" using Cons.prems by (simp add: Cons.IH)
  qed
  then show ?case by (simp add: deferred_R)
qed simp

lemma reconcile_changes_R: "R st (fst (reconcile_changes ev changes st))"
proof (induction changes arbitrary: st)
  case (Cons change changes)
  show ?case
  proof (cases "split_change change (cf_max_markets_per_command (sv_config st))")
    case (Inr pieces)
    have "R st (fst (reconcile_pieces ev pieces st))"
      using split_change_names [OF Inr] by (auto intro: reconcile_pieces_R)
    then have "R st (fst (sv_bind (reconcile_pieces ev pieces st) (\<lambda>go_on st.
            if go_on then reconcile_changes ev changes st else (st, Inr False))))"
      by (rule bind_R) (simp add: Cons.IH)
    then show ?thesis by (simp add: Inr)
  qed simp
qed simp

lemma subscribe_firehose_R: "R st (fst (subscribe_firehose ev st))"
proof -
  let ?st = "st\<lparr>sv_firehose_requested := True\<rparr>"
  let ?cmd = "SubscribeCommand (cf_firehose_channels (sv_config st)) None None None"
  have "R ?st (fst (send_command ev ?cmd ?st))" by (rule sent) (simp add: sendable_def command_markets_def)
  then have "R st (fst (send_command ev ?cmd ?st))" by (rule after_same [rotated]) (simp add: outputs_def)
  then have "R st (fst (sv_bind (send_command ev ?cmd ?st)
      (\<lambda>cid st1. (await_replies cid FIREHOSE_GROUP_ID (cf_firehose_channels (sv_config st)) st1, Inr ()))))"
    by (rule bind_R) (simp add: await_R)
  then show ?thesis by (simp add: subscribe_firehose_def Let_def)
qed

lemma reconcile_R: "R st (fst (reconcile ev st))"
proof -
  have "R st (fst (sv_bind (subscribe_firehose ev st) (\<lambda>_ st.
          sv_bind (reconcile_changes ev (plan_diff (plan_of (sv_applied st)) (plan_of (sv_desired st))) st)
            (\<lambda>_ st. (st, Inr ())))))"
    by (intro bind_R) (simp_all add: subscribe_firehose_R reconcile_changes_R)
  then show ?thesis by (auto simp: reconcile_def deferred_R split: option.splits)
qed

lemma resume_reconcile_R: "R st (fst (resume_reconcile ev st))"
  by (auto simp: resume_reconcile_def intro: trans [OF deferred_R] reconcile_R)

lemma answer_R: "R st (answer cid p sid channel st)"
  by (rule same) (simp add: outputs_def answer_def publish_subscriptions_def Let_def)

lemma on_subscribed_R: "R st (fst (on_subscribed ev env st))"
proof -
  have "R st (st\<lparr>sv_channel_of_sid := x\<rparr>)" for x by (rule same) (simp add: outputs_def)
  then have "R st (fst (case pending_of env (st\<lparr>sv_channel_of_sid := x\<rparr>) of None \<Rightarrow> (st\<lparr>sv_channel_of_sid := x\<rparr>, Inr ())
      | Some (cid, p) \<Rightarrow> resume_reconcile ev (answer cid p sid c (st\<lparr>sv_channel_of_sid := x\<rparr>))))" for x sid c
    by (auto split: option.splits intro: trans [OF trans [OF _ answer_R] resume_reconcile_R])
  then show ?thesis unfolding on_subscribed_def Let_def by (rule converting_R)
qed

lemma adopt_membership_R: "R st (fst (adopt_membership ev p sid channel ts st))"
proof -
  have "R st (st\<lparr>sv_applied := x, sv_reconcile_deferred := y\<rparr>)" for x y by (rule same) (simp add: outputs_def)
  then show ?thesis
    by (auto simp: adopt_membership_def Let_def split: option.splits list.splits
        intro: request_snapshot_R trans [OF _ request_snapshot_R])
qed

lemma on_ok_R: "R st (fst (on_ok ev env st))"
proof -
  have "R st (fst (sv_bind (adopt_membership ev p sid channel ts (answer cid p sid channel st))
      (\<lambda>_ st. resume_reconcile ev st)))" for cid p sid channel ts
    by (rule bind_R) (auto intro: resume_reconcile_R trans [OF answer_R adopt_membership_R])
  then show ?thesis by (auto simp: on_ok_def split: option.splits intro!: converting_R)
qed

lemma on_error_R: "R st (fst (on_error ev env st))"
  unfolding on_error_def Let_def
  by (rule converting_R) (auto split: option.splits prod.splits simp: outputs_def
      intro!: same after_same [OF _ resume_reconcile_R])

lemma dispatch_R: "R st (fst (dispatch ev env rc st))"
proof -
  have "R st (st\<lparr>sv_tracker := x\<rparr>)" for x by (rule same) (simp add: outputs_def)
  then show ?thesis
    by (auto simp: dispatch_def on_snapshot_R on_delta_R on_subscribed_R on_ok_R on_error_R emitted
        split: option.splits intro!: converting_R)
qed

lemma caught_R: "R st (fst r) \<Longrightarrow> R st (fst (caught r))"
  by (auto simp: caught_def decode_failed_def outputs_def split: prod.splits sum.splits sup_error.splits convert_error.splits
      elim!: then_same)

lemma interpret_frame_R: "R st (fst (interpret_frame ev f st))"
proof -
  have "R st (fst (sv_bind (check_sequence ev env rc st) (\<lambda>_ st. caught (dispatch ev env rc st))))" for env rc
    by (rule bind_R) (simp_all add: check_sequence_R caught_R dispatch_R)
  moreover have "R st (decode_failed st)" by (rule same) (simp add: decode_failed_def outputs_def)
  ultimately show ?thesis by (auto simp: interpret_frame_def Let_def split: option.splits)
qed

end

text \<open>Beyond its handlers a supervisor frames the tape, takes a new session and rotates its segments.\<close>

definition lasting_outputs where
  "lasting_outputs st = (sv_config st, sv_live st, sv_taps st, sv_open_taps st, sv_next_tap st, sv_sink st, sv_emitted st,
     sv_consecutive_failures st, sv_reconnects st, sv_stop_requested st)"

text \<open>The counts of attempts and the wish to stop, which no handler touches.\<close>

definition recounted :: "supervisor \<Rightarrow> supervisor \<Rightarrow> bool" where
  "recounted st st' \<longleftrightarrow> st'\<lparr>sv_consecutive_failures := sv_consecutive_failures st, sv_reconnects := sv_reconnects st,
     sv_stop_requested := sv_stop_requested st\<rparr> = st"

lemma recounted_keeps:
  assumes "recounted st st'"
  shows "sv_config st' = sv_config st" "sv_live st' = sv_live st" "sv_taps st' = sv_taps st"
    "sv_open_taps st' = sv_open_taps st" "sv_next_tap st' = sv_next_tap st" "sv_session st' = sv_session st"
    "sv_sink st' = sv_sink st" "sv_emitted st' = sv_emitted st"
proof -
  let ?counted = "st'\<lparr>sv_consecutive_failures := sv_consecutive_failures st, sv_reconnects := sv_reconnects st,
     sv_stop_requested := sv_stop_requested st\<rparr>"
  have st: "st = ?counted" using assms by (simp add: recounted_def)
  show "sv_config st' = sv_config st" "sv_live st' = sv_live st" "sv_taps st' = sv_taps st"
    "sv_open_taps st' = sv_open_taps st" "sv_next_tap st' = sv_next_tap st" "sv_session st' = sv_session st"
    "sv_sink st' = sv_sink st" "sv_emitted st' = sv_emitted st"
    by (subst st, simp)+
qed

text \<open>A session forgotten, begun, or opened and closed: no command is given to the socket.\<close>

definition same_wire :: "ws_session option \<Rightarrow> ws_session option \<Rightarrow> bool" where
  "same_wire s s' \<longleftrightarrow> s' = None \<or> (\<exists>outcome. s' = Some (new_ws_session outcome)) \<or>
     (\<exists>ss ss'. s = Some ss \<and> s' = Some ss' \<and> ws_wire ss' = ws_wire ss \<and> ws_next_command_id ss' = ws_next_command_id ss)"

lemma same_wire_map [simp]:
  "same_wire s (map_option ws_close s)" "same_wire s (map_option (\<lambda>ss. ss\<lparr>ws_open := b\<rparr>) s)"
  "same_wire s None" "same_wire s (Some (new_ws_session outcome))"
  by (auto simp: same_wire_def ws_close_def map_option_case split: option.splits)

locale sup_life = sup_handlers +
  assumes put_any: "R st (put_record ev m w p st)"
    and new_session: "lasting_outputs st' = lasting_outputs st \<Longrightarrow> same_wire (sv_session st) (sv_session st') \<Longrightarrow> R st st'"
    and counted: "recounted st st' \<Longrightarrow> R st st'"
    and rotated: "R st (st\<lparr>sv_sink := map_option (\<lambda>sunk. sunk @ [SkRotate]) (sv_sink st)\<rparr>)"
begin

lemma on_frame_R: "R st (fst (on_frame ev f st))"
proof -
  have "R st (count_frame st)" by (rule same) (simp add: count_frame_def outputs_def)
  then show ?thesis
    unfolding on_frame_def by (rule trans [OF trans [OF _ put_any] interpret_frame_R])
qed

lemma connection_event_R: "R st (record_connection_event ev e d st)"
proof -
  have "R st (st\<lparr>sv_clock_reads := n\<rparr>)" for n by (rule same) (simp add: outputs_def)
  then show ?thesis by (auto simp: record_connection_event_def intro: trans [OF _ put_any] split: prod.split)
qed

lemma close_session_R: "R st (close_session st)"
  by (rule new_session) (simp_all add: lasting_outputs_def close_session_def)

lemma connection_opened_R: "R st (fst (connection_opened ev st))"
proof -
  have "R st (st\<lparr>sv_session := map_option (\<lambda>ss. ss\<lparr>ws_open := True\<rparr>) (sv_session st)\<rparr>)"
    by (rule new_session) (simp_all add: lasting_outputs_def)
  then show ?thesis
    unfolding connection_opened_def by (rule trans [OF trans [OF _ connection_event_R] reconcile_R])
qed

lemma forget_connection_R: "R st (forget_connection st)"
  by (rule new_session) (simp_all add: lasting_outputs_def forget_connection_def publish_subscriptions_def Let_def)

lemma begin_connection_R: "R st (begin_connection (new_ws_session outcome) st)"
  unfolding begin_connection_def
  by (rule trans [OF forget_connection_R new_session]) (simp_all add: lasting_outputs_def)

lemma end_connection_R: "R st (end_connection ev opened detail st)"
proof -
  let ?st = "record_connection_event ev ''close'' detail (forget_connection st)"
  have "R ?st (fold stale_book ts ?st)" for ts by (rule fold_R) (rule staled)
  then have "R (forget_connection st) (fold stale_book ts ?st)" for ts
    by (rule trans [OF connection_event_R])
  then show ?thesis
    unfolding end_connection_def Let_def
    by (auto intro: trans [OF forget_connection_R] trans [OF _ rotated] connection_event_R)
qed

lemma back_off_R: "R st (fst (back_off jitter st))"
  by (rule counted) (auto simp: recounted_def back_off_def Let_def split: sum.splits option.splits)

lemma set_group_R: "R st (fst (set_group ev g st))"
proof -
  have "R st (st\<lparr>sv_desired := g\<rparr>)" for g by (rule same) (simp add: outputs_def)
  then have rec: "R st (fst (reconcile ev (st\<lparr>sv_desired := g\<rparr>)))" by (rule trans [OF _ reconcile_R])
  then have "R st (prune_books (fst (reconcile ev (st\<lparr>sv_desired := g\<rparr>))))"
      "R st (prune_books (close_session (fst (reconcile ev (st\<lparr>sv_desired := g\<rparr>)))))"
    by (auto intro: trans [OF _ prune_books_R] trans [OF _ close_session_R])
  with rec show ?thesis
    by (auto simp: set_group_def Let_def split: prod.splits sum.splits sup_error.splits option.splits)
qed

lemma expire_R: "R st (expire_unanswered cid st)"
  by (auto simp: expire_unanswered_def outputs_def intro: same)

lemma stop_R: "R st (stop st)"
  unfolding stop_def by (rule trans [OF counted close_session_R]) (auto simp: recounted_def)

lemma retry_R: "R st (st\<lparr>sv_reconnects := n\<rparr>)"
  by (rule counted) (auto simp: recounted_def)

lemma step_R:
  assumes "sup_step ev st st'"
  shows "R st st' \<or> (\<exists>ts m. st' = fst (open_tap ts m st)) \<or> (\<exists>i. st' = fst (close_tap i st))"
  using assms
  by (cases rule: sup_step.cases)
    (blast intro: begin_connection_R connection_opened_R on_frame_R expire_R close_session_R end_connection_R back_off_R
      retry_R stop_R set_group_R)+

end

section \<open>A supervisor is a publisher\<close>

text \<open>The operations of a publisher (\<open>Livebooks\<close>) that touch a book, as operations on live books.\<close>

fun live_of :: "pub_op \<Rightarrow> live_op option" where
  "live_of (PubSnapshot s) = Some (LvSnapshot s)"
| "live_of (PubDelta d) = Some (LvDelta d)"
| "live_of (PubStale t) = Some (LvStale t)"
| "live_of (PubForget t) = Some (LvDrop t)"
| "live_of _ = None"

fun is_refresh :: "pub_op \<Rightarrow> bool" where
  "is_refresh (PubRefresh t rc) = True"
| "is_refresh _ = False"

definition books_of :: "live_registry \<Rightarrow> registry" where
  "books_of live = map (\<lambda>(t, n, b). (t, b)) (lr_books live)"

definition live_effect :: "pub_op \<Rightarrow> live_registry \<Rightarrow> live_registry" where
  "live_effect op live = (case live_of op of None \<Rightarrow> live | Some l \<Rightarrow> fst (live_step l live))"

definition pub_state :: "pub_op list \<Rightarrow> registry \<Rightarrow> registry" where
  "pub_state ops books = fold (\<lambda>op b. fst (pub_effect op b)) ops books"

fun pub_events :: "pub_op list \<Rightarrow> registry \<Rightarrow> bus_event list" where
  "pub_events [] books = []"
| "pub_events (op # ops) books =
     (case snd (pub_effect op books) of None \<Rightarrow> [] | Some e \<Rightarrow> [e]) @ pub_events ops (fst (pub_effect op books))"

lemma pub_events_append: "pub_events (xs @ ys) books = pub_events xs books @ pub_events ys (pub_state xs books)"
  by (induction xs arbitrary: books) (simp_all add: pub_state_def)

lemma pub_events_log: "map (be_event \<circ> fst) (pub_log epoch n books ops) = pub_events ops books"
  by (induction ops arbitrary: n books) (auto split: prod.splits option.splits)

lemma dict_get_books: "dict_get (books_of live) t = map_option snd (dict_get (lr_books live) t)"
proof -
  have "dict_get (map (\<lambda>(t, n, b). (t, b)) d) t = map_option snd (dict_get d t)" for d :: "(string, nat \<times> book) dict"
    by (induction d) auto
  then show ?thesis by (simp add: books_of_def)
qed

lemma map_snd_update: "map (\<lambda>(t, n, b). (t, b)) (dict_put t (n, b) d) = dict_put t b (map (\<lambda>(t, n, b). (t, b)) d)"
  by (induction d) auto

lemma map_snd_delete: "map (\<lambda>(t, n, b). (t, b)) (dict_pop t d) = dict_pop t (map (\<lambda>(t, n, b). (t, b)) d)"
  by (induction d) auto

lemma books_of_put [simp]: "books_of (put_book t n b live) = dict_put t b (books_of live)"
  by (simp add: books_of_def put_book_def map_snd_update)

lemma books_of_next [simp]: "books_of (live\<lparr>lr_next := n\<rparr>) = books_of live"
  by (simp add: books_of_def)

lemma live_step_publishes:
  assumes "live_of op = Some l"
  shows "pub_effect op (books_of live) =
    (books_of (fst (live_step l live)), map_option (change_event \<circ> fst) (snd (live_step l live)))"
  using assms
proof (cases op)
  case (PubSnapshot s)
  then show ?thesis using assms
    by (auto simp: Let_def dict_get_or_def dict_get_books split: option.splits prod.splits sum.splits)
next
  case (PubForget t)
  then show ?thesis using assms by (auto simp: books_of_def map_snd_delete)
qed (auto simp: dict_get_books split: option.splits prod.splits sum.splits)

lemma pub_effect_books:
  "\<not> is_refresh op \<Longrightarrow> fst (pub_effect op (books_of live)) = books_of (live_effect op live)"
  by (cases "live_of op") (cases op; simp add: live_effect_def live_step_publishes del: pub_effect.simps(1-4); simp)+

text \<open>What a supervisor did to its books and what it emitted are the run of a publisher.\<close>

definition publishes :: "sup_env \<Rightarrow> supervisor \<Rightarrow> supervisor \<Rightarrow> bool" where
  "publishes ev st st' \<longleftrightarrow> (\<exists>ops. list_all (\<lambda>op. \<not> is_refresh op) ops \<and>
     sv_live st' = fold live_effect ops (sv_live st) \<and>
     sv_emitted st' = sv_emitted st @ (if ev_on_event ev = None then [] else pub_events ops (books_of (sv_live st))))"

lemma publishes_books:
  "list_all (\<lambda>op. \<not> is_refresh op) ops \<Longrightarrow> pub_state ops (books_of live) = books_of (fold live_effect ops live)"
  by (induction ops arbitrary: live) (simp_all add: pub_state_def pub_effect_books)

lemma publishes_trans: "publishes ev st st1 \<Longrightarrow> publishes ev st1 st2 \<Longrightarrow> publishes ev st st2"
  unfolding publishes_def
proof (elim exE conjE)
  fix xs ys assume a: "list_all (\<lambda>op. \<not> is_refresh op) xs" "list_all (\<lambda>op. \<not> is_refresh op) ys"
    "sv_live st1 = fold live_effect xs (sv_live st)" "sv_live st2 = fold live_effect ys (sv_live st1)"
    "sv_emitted st1 = sv_emitted st @ (if ev_on_event ev = None then [] else pub_events xs (books_of (sv_live st)))"
    "sv_emitted st2 = sv_emitted st1 @ (if ev_on_event ev = None then [] else pub_events ys (books_of (sv_live st1)))"
  then show "\<exists>ops. list_all (\<lambda>op. \<not> is_refresh op) ops \<and> sv_live st2 = fold live_effect ops (sv_live st) \<and>
     sv_emitted st2 = sv_emitted st @ (if ev_on_event ev = None then [] else pub_events ops (books_of (sv_live st)))"
    by (intro exI [of _ "xs @ ys"]) (simp add: pub_events_append publishes_books)
qed

lemma publishes_nothing: "sv_live st' = sv_live st \<Longrightarrow> sv_emitted st' = sv_emitted st \<Longrightarrow> publishes ev st st'"
  unfolding publishes_def by (rule exI [of _ "[]"]) simp

lemma publishes_one:
  "\<not> is_refresh op \<Longrightarrow> sv_live st' = live_effect op (sv_live st) \<Longrightarrow>
   sv_emitted st' = sv_emitted st @ (if ev_on_event ev = None then []
     else case snd (pub_effect op (books_of (sv_live st))) of None \<Rightarrow> [] | Some e \<Rightarrow> [e]) \<Longrightarrow> publishes ev st st'"
  unfolding publishes_def by (rule exI [of _ "[op]"]) simp

lemma emit_live [simp]:
  "sv_live (emit ev e st) = sv_live st"
  "sv_emitted (emit ev e st) = sv_emitted st @ (if ev_on_event ev = None then [] else [e])"
  "sv_taps (emit ev e st) = sv_taps st" "sv_open_taps (emit ev e st) = sv_open_taps st"
  "sv_next_tap (emit ev e st) = sv_next_tap st" "sv_sink (emit ev e st) = sv_sink st"
  "sv_session (emit ev e st) = sv_session st"
  by (simp_all add: emit_def split: option.splits)

lemma record_in_taps_keeps [simp]:
  "sv_live (record_in_taps c w st) = sv_live st" "sv_emitted (record_in_taps c w st) = sv_emitted st"
  "sv_taps (record_in_taps c w st) = sv_taps st" "sv_next_tap (record_in_taps c w st) = sv_next_tap st"
  "sv_sink (record_in_taps c w st) = sv_sink st" "sv_session (record_in_taps c w st) = sv_session st"
  "sv_config (record_in_taps c w st) = sv_config st"
  unfolding record_in_taps_def by (rule fold_keeps; simp split: option.splits)+

lemma dict_put_twice [simp]: "dict_put k v (dict_put k w d) = dict_put k v d"
  by (induction d) auto

lemma put_book_twice [simp]: "put_book t n b (put_book t m c live) = put_book t n b live"
  by (simp add: put_book_def)

text \<open>What applying a snapshot or a delta does to the books: nothing, or one operation on them.\<close>

lemma apply_book_snapshot_live:
  "if may_touch (bs_sid s) (bs_ticker s) st
   then sv_live (apply_book_snapshot ev s st) = fst (live_step (LvSnapshot s) (sv_live st)) \<and>
     sv_emitted (apply_book_snapshot ev s st) = sv_emitted st @ (if ev_on_event ev = None \<or>
        snd (live_step (LvSnapshot s) (sv_live st)) = None then [] else [EvSnapshot s])
   else apply_book_snapshot ev s st = st"
  by (auto simp: apply_book_snapshot_def book_for_def book_failed_def Let_def
      split: option.splits prod.splits sum.splits)

lemma apply_book_delta_live:
  "if may_touch (bd_sid d) (bd_ticker d) st
   then sv_live (fst (apply_book_delta ev d st)) = fst (live_step (LvDelta d) (sv_live st)) \<and>
     sv_emitted (fst (apply_book_delta ev d st)) = sv_emitted st @ (if ev_on_event ev = None \<or>
        snd (live_step (LvDelta d) (sv_live st)) = None then [] else [EvDelta d])
   else apply_book_delta ev d st = (st, False)"
  by (auto simp: apply_book_delta_def book_for_def book_failed_def Let_def
      split: option.splits prod.splits sum.splits)

lemma live_step_snapshot_event: "snd (live_step (LvSnapshot s) live) = Some (c, w) \<Longrightarrow> c = ChSnapshot s"
  by (auto simp: Let_def split: option.splits prod.splits sum.splits)

lemma live_step_delta_event: "snd (live_step (LvDelta d) live) = Some (c, w) \<Longrightarrow> c = ChDelta d"
  by (auto simp: Let_def split: option.splits prod.splits sum.splits if_splits)

lemma publishes_snapshot: "publishes ev st (apply_book_snapshot ev s st)"
proof (cases "may_touch (bs_sid s) (bs_ticker s) st")
  case True
  then have a: "sv_live (apply_book_snapshot ev s st) = fst (live_step (LvSnapshot s) (sv_live st))"
      "sv_emitted (apply_book_snapshot ev s st) = sv_emitted st @ (if ev_on_event ev = None \<or>
        snd (live_step (LvSnapshot s) (sv_live st)) = None then [] else [EvSnapshot s])"
    using apply_book_snapshot_live [of s st ev] by (simp_all del: live_step.simps)
  have "snd (pub_effect (PubSnapshot s) (books_of (sv_live st))) =
      (if snd (live_step (LvSnapshot s) (sv_live st)) = None then None else Some (EvSnapshot s))"
    using live_step_publishes [of "PubSnapshot s"] live_step_snapshot_event [of s "sv_live st"]
    by (auto simp del: live_step.simps pub_effect.simps)
  then show ?thesis
    using a by (intro publishes_one [of "PubSnapshot s"]) (simp_all add: live_effect_def del: live_step.simps pub_effect.simps)
qed (use apply_book_snapshot_live [of s st ev] in \<open>simp add: publishes_nothing\<close>)

lemma publishes_delta: "publishes ev st (fst (apply_book_delta ev d st))"
proof (cases "may_touch (bd_sid d) (bd_ticker d) st")
  case True
  then have a: "sv_live (fst (apply_book_delta ev d st)) = fst (live_step (LvDelta d) (sv_live st))"
      "sv_emitted (fst (apply_book_delta ev d st)) = sv_emitted st @ (if ev_on_event ev = None \<or>
        snd (live_step (LvDelta d) (sv_live st)) = None then [] else [EvDelta d])"
    using apply_book_delta_live [of d st ev] by (simp_all del: live_step.simps)
  have "snd (pub_effect (PubDelta d) (books_of (sv_live st))) =
      (if snd (live_step (LvDelta d) (sv_live st)) = None then None else Some (EvDelta d))"
    using live_step_publishes [of "PubDelta d"] live_step_delta_event [of d "sv_live st"]
    by (auto simp del: live_step.simps pub_effect.simps)
  then show ?thesis
    using a by (intro publishes_one [of "PubDelta d"]) (simp_all add: live_effect_def del: live_step.simps pub_effect.simps)
qed (use apply_book_delta_live [of d st ev] in \<open>simp add: publishes_nothing\<close>)

lemma publishes_stale: "publishes ev st (stale_book t st)"
  by (rule publishes_one [of "PubStale t"])
    (auto simp: stale_book_def live_effect_def dict_get_books split: option.splits prod.splits)

lemma publishes_drop: "publishes ev st (drop_book t st)"
  by (rule publishes_one [of "PubForget t"]) (auto simp: drop_book_def live_effect_def)

lemma put_record_keeps [simp]:
  "sv_live (put_record ev m w p st) = sv_live st" "sv_emitted (put_record ev m w p st) = sv_emitted st"
  "sv_taps (put_record ev m w p st) = sv_taps st" "sv_open_taps (put_record ev m w p st) = sv_open_taps st"
  "sv_next_tap (put_record ev m w p st) = sv_next_tap st" "sv_session (put_record ev m w p st) = sv_session st"
  by (simp_all add: put_record_def Let_def split: option.splits)

lemma send_command_keeps [simp]:
  "sv_live (fst (send_command ev cmd st)) = sv_live st" "sv_emitted (fst (send_command ev cmd st)) = sv_emitted st"
  "sv_taps (fst (send_command ev cmd st)) = sv_taps st" "sv_open_taps (fst (send_command ev cmd st)) = sv_open_taps st"
  "sv_next_tap (fst (send_command ev cmd st)) = sv_next_tap st"
  by (auto simp: send_command_def Let_def split: option.splits prod.splits sum.splits)

interpretation publishing: sup_life ev "publishes ev"
proof
  show "publishes ev st st1 \<Longrightarrow> publishes ev st1 st2 \<Longrightarrow> publishes ev st st2" for st st1 st2
    by (rule publishes_trans)
  show "\<not> is_book_event e \<Longrightarrow> publishes ev st (emit ev e st)" for e st
    by (rule publishes_one [of "PubOther e"]) (simp_all add: live_effect_def)
qed (auto simp: outputs_def lasting_outputs_def recounted_keeps intro: publishes_nothing publishes_stale publishes_drop
    publishes_snapshot publishes_delta)

section \<open>Taps of a supervisor\<close>

text \<open>Every change of a market reaches the open taps on it, each once.\<close>

definition watchers :: "supervisor \<Rightarrow> string \<Rightarrow> nat list" where
  "watchers st t = dict_get_or (sv_taps st) t []"

definition routed :: "supervisor \<Rightarrow> bool" where
  "routed st \<longleftrightarrow>
     (\<forall>t. distinct (watchers st t) \<and> (\<forall>i\<in>set (watchers st t). i < sv_next_tap st)) \<and>
     (\<forall>i tap. dict_get (sv_open_taps st) i = Some tap \<longrightarrow> i < sv_next_tap st \<and>
        (\<forall>t. dict_get (lt_recordings tap) t \<noteq> None \<longrightarrow> i \<in> set (watchers st t)))"

definition live_run :: "live_op list \<Rightarrow> live_registry \<Rightarrow> live_registry" where
  "live_run ops live = fold (\<lambda>op l. fst (live_step op l)) ops live"

lemma tap_step_fst: "fst (tap_step op (live, tap)) = fst (live_step op live)"
  by (auto simp: tap_step_def split: prod.splits option.splits)

lemma tap_run_fst: "fst (tap_run ops (live, tap)) = live_run ops live"
proof (induction ops arbitrary: live tap)
  case (Cons op ops)
  obtain live' tap' where s: "tap_step op (live, tap) = (live', tap')" by fastforce
  with tap_step_fst [of op live tap] Cons [of live' tap'] show ?case by (simp add: tap_run_def live_run_def)
qed (simp add: tap_run_def live_run_def)

lemma tap_run_append: "tap_run (xs @ ys) st = tap_run ys (tap_run xs st)"
  by (simp add: tap_run_def)

text \<open>One tap, before and after: it recorded what was done to the books, unless it was closed.\<close>

definition watched :: "nat \<Rightarrow> supervisor \<Rightarrow> supervisor \<Rightarrow> bool" where
  "watched i st st' \<longleftrightarrow> (routed st \<longrightarrow> routed st' \<and>
     (\<exists>ops. sv_live st' = live_run ops (sv_live st) \<and>
        (\<forall>tap. dict_get (sv_open_taps st) i = Some tap \<longrightarrow>
           (\<exists>tap'. dict_get (sv_open_taps st') i = Some tap' \<and>
              (tap_closed tap' \<or> tap' = snd (tap_run ops (sv_live st, tap)))))))"

lemma tap_record_windows [simp]: "lt_windows (tap_record c w tap) = lt_windows tap"
  by (simp add: tap_record_def split: option.splits)

lemma tap_run_windows [simp]: "lt_windows (snd (tap_run ops (live, tap))) = lt_windows tap"
proof (induction ops arbitrary: live tap)
  case (Cons op ops)
  obtain live' tap' where s: "tap_step op (live, tap) = (live', tap')" by fastforce
  moreover have "lt_windows tap' = lt_windows tap"
    using s by (auto simp: tap_step_def split: prod.splits option.splits)
  ultimately show ?case using Cons [of live' tap'] by (simp add: tap_run_def)
qed (simp add: tap_run_def)

lemma watched_trans: "watched i st st1 \<Longrightarrow> watched i st1 st2 \<Longrightarrow> watched i st st2"
proof -
  assume a: "watched i st st1" "watched i st1 st2"
  show "watched i st st2"
    unfolding watched_def
  proof (intro impI conjI)
    assume r: "routed st"
    with a show "routed st2" by (simp add: watched_def)
    from r a(1) obtain xs where xs: "routed st1" "sv_live st1 = live_run xs (sv_live st)"
        "\<And>tap. dict_get (sv_open_taps st) i = Some tap \<Longrightarrow> \<exists>tap'. dict_get (sv_open_taps st1) i = Some tap' \<and>
           (tap_closed tap' \<or> tap' = snd (tap_run xs (sv_live st, tap)))"
      unfolding watched_def by blast
    from xs(1) a(2) obtain ys where ys: "sv_live st2 = live_run ys (sv_live st1)"
        "\<And>tap. dict_get (sv_open_taps st1) i = Some tap \<Longrightarrow> \<exists>tap'. dict_get (sv_open_taps st2) i = Some tap' \<and>
           (tap_closed tap' \<or> tap' = snd (tap_run ys (sv_live st1, tap)))"
      unfolding watched_def by blast
    have "\<exists>tap'. dict_get (sv_open_taps st2) i = Some tap' \<and>
        (tap_closed tap' \<or> tap' = snd (tap_run (xs @ ys) (sv_live st, tap)))"
      if tap: "dict_get (sv_open_taps st) i = Some tap" for tap
    proof -
      obtain tap1 where t1: "dict_get (sv_open_taps st1) i = Some tap1"
          "tap_closed tap1 \<or> tap1 = snd (tap_run xs (sv_live st, tap))" using xs(3) [OF tap] by blast
      obtain tap2 where t2: "dict_get (sv_open_taps st2) i = Some tap2"
          "tap_closed tap2 \<or> tap2 = snd (tap_run ys (sv_live st1, tap1))" using ys(2) [OF t1(1)] by blast
      have mid: "tap_run xs (sv_live st, tap) = (sv_live st1, snd (tap_run xs (sv_live st, tap)))"
        using tap_run_fst [of xs "sv_live st" tap] xs(2) by (metis prod.collapse)
      show ?thesis
      proof (cases "tap_closed tap1")
        case True
        then have "tap_closed tap2" using t2(2) by (auto simp: tap_closed_def)
        with t2(1) show ?thesis by blast
      next
        case False
        with t1(2) mid have "tap_run xs (sv_live st, tap) = (sv_live st1, tap1)" by simp
        with t2 show ?thesis by (auto simp: tap_run_append)
      qed
    qed
    then show "\<exists>ops. sv_live st2 = live_run ops (sv_live st) \<and>
        (\<forall>tap. dict_get (sv_open_taps st) i = Some tap \<longrightarrow> (\<exists>tap'. dict_get (sv_open_taps st2) i = Some tap' \<and>
           (tap_closed tap' \<or> tap' = snd (tap_run ops (sv_live st, tap)))))"
      using xs(2) ys(1) by (intro exI [of _ "xs @ ys"]) (simp add: live_run_def)
  qed
qed

lemma watched_nothing:
  assumes "sv_live st' = sv_live st" "sv_taps st' = sv_taps st" "sv_open_taps st' = sv_open_taps st"
    "sv_next_tap st' = sv_next_tap st"
  shows "watched i st st'"
proof -
  have "routed st' \<longleftrightarrow> routed st" using assms by (simp add: routed_def watchers_def)
  then show ?thesis
    using assms unfolding watched_def
    by (intro impI conjI exI [of _ "[]"]) (auto simp: live_run_def tap_run_def)
qed

text \<open>An operation on a book whose change, if it reports one, was given to the taps.\<close>

lemma fold_taps:
  "distinct js \<Longrightarrow>
   dict_get (sv_open_taps (fold (\<lambda>i st. case dict_get (sv_open_taps st) i of None \<Rightarrow> st
       | Some tap \<Rightarrow> st\<lparr>sv_open_taps := dict_put i (f tap) (sv_open_taps st)\<rparr>) js st)) i =
   (if i \<in> set js then map_option f (dict_get (sv_open_taps st) i) else dict_get (sv_open_taps st) i)"
proof (induction js arbitrary: st)
  case (Cons j js)
  let ?st = "case dict_get (sv_open_taps st) j of None \<Rightarrow> st
       | Some tap \<Rightarrow> st\<lparr>sv_open_taps := dict_put j (f tap) (sv_open_taps st)\<rparr>"
  have "dict_get (sv_open_taps ?st) i = (if i = j then map_option f (dict_get (sv_open_taps st) j) else dict_get (sv_open_taps st) i)"
    by (auto simp: dict_simps split: option.splits)
  with Cons.IH [of ?st] Cons.prems show ?case by auto
qed simp

lemma record_in_taps_open:
  assumes "routed st" "dict_get (sv_open_taps st) i = Some tap"
  shows "dict_get (sv_open_taps (record_in_taps c w st)) i = Some (tap_record c w tap)"
proof -
  have "distinct (watchers st (change_ticker c))" using assms(1) by (simp add: routed_def)
  then have g: "dict_get (sv_open_taps (record_in_taps c w st)) i =
      (if i \<in> set (watchers st (change_ticker c)) then Some (tap_record c w tap) else Some tap)"
    unfolding record_in_taps_def watchers_def by (simp add: fold_taps assms(2))
  show ?thesis
  proof (cases "i \<in> set (watchers st (change_ticker c))")
    case False
    then have "dict_get (lt_recordings tap) (change_ticker c) = None"
      using assms unfolding routed_def by (metis not_None_eq)
    with False g show ?thesis by (simp add: tap_record_def)
  qed (simp add: g)
qed

lemma record_in_taps_none:
  "distinct (watchers st (change_ticker c)) \<Longrightarrow> dict_get (sv_open_taps st) i = None \<Longrightarrow>
   dict_get (sv_open_taps (record_in_taps c w st)) i = None"
  unfolding record_in_taps_def watchers_def by (simp add: fold_taps)

lemma tap_record_keys: "dict_get (lt_recordings (tap_record c w tap)) t \<noteq> None \<Longrightarrow> dict_get (lt_recordings tap) t \<noteq> None"
  by (auto simp: tap_record_def dict_simps split: option.splits if_splits)

lemma routed_record: "routed st \<Longrightarrow> routed (record_in_taps c w st)"
proof -
  assume r: "routed st"
  have w: "watchers (record_in_taps c w st) = watchers st" by (simp add: watchers_def fun_eq_iff)
  have "i < sv_next_tap st \<and> (\<forall>t. dict_get (lt_recordings tap') t \<noteq> None \<longrightarrow> i \<in> set (watchers st t))"
    if tap': "dict_get (sv_open_taps (record_in_taps c w st)) i = Some tap'" for i tap'
  proof -
    obtain tap where tap: "dict_get (sv_open_taps st) i = Some tap"
      using record_in_taps_none [of st c i w] r tap' by (cases "dict_get (sv_open_taps st) i") (auto simp: routed_def)
    then have "tap' = tap_record c w tap" using record_in_taps_open [OF r tap, of c w] tap' by simp
    with tap r tap_record_keys show ?thesis unfolding routed_def by blast
  qed
  with r show ?thesis by (simp add: routed_def w)
qed

lemma routed_cong:
  "sv_taps st' = sv_taps st \<Longrightarrow> sv_open_taps st' = sv_open_taps st \<Longrightarrow> sv_next_tap st' = sv_next_tap st \<Longrightarrow>
   routed st' \<longleftrightarrow> routed st"
  by (simp add: routed_def watchers_def)

lemma watched_step:
  assumes "sv_live st' = fst (live_step op (sv_live st))"
    "case snd (live_step op (sv_live st)) of
       None \<Rightarrow> sv_open_taps st' = sv_open_taps st
     | Some (c, w) \<Rightarrow> sv_open_taps st' = sv_open_taps (record_in_taps c w st)"
    "sv_taps st' = sv_taps st" "sv_next_tap st' = sv_next_tap st"
  shows "watched i st st'"
proof (cases "snd (live_step op (sv_live st))")
  case None
  then have "routed st \<Longrightarrow> routed st'" using assms routed_cong [of st' st] by simp
  moreover have "tap_run [op] (sv_live st, tap) = (sv_live st', tap)" for tap
    using None assms(1) by (auto simp: tap_run_def tap_step_def split: prod.splits option.splits)
  ultimately show ?thesis
    using None assms(1,2) unfolding watched_def by (intro impI conjI exI [of _ "[op]"]) (auto simp: live_run_def)
next
  case (Some cw)
  obtain c w where cw: "cw = (c, w)" by fastforce
  have "routed st' = routed (record_in_taps c w st)" using assms Some cw by (intro routed_cong) simp_all
  moreover have "tap_run [op] (sv_live st, tap) = (sv_live st', tap_record c w tap)" for tap
    using Some cw assms(1) by (auto simp: tap_run_def tap_step_def split: prod.splits option.splits)
  ultimately show ?thesis
    using Some cw assms(1,2) routed_record record_in_taps_open unfolding watched_def
    by (intro impI conjI exI [of _ "[op]"]) (auto simp: live_run_def)
qed

definition recorded where
  "recorded c w taps opens = fold (\<lambda>i d. case dict_get d i of None \<Rightarrow> d
     | Some tap \<Rightarrow> dict_put i (tap_record c w tap) d) (dict_get_or taps (change_ticker c) []) opens"

lemma record_in_taps_opens: "sv_open_taps (record_in_taps c w st) = recorded c w (sv_taps st) (sv_open_taps st)"
proof -
  have "sv_open_taps (fold (\<lambda>i st. case dict_get (sv_open_taps st) i of None \<Rightarrow> st
      | Some tap \<Rightarrow> st\<lparr>sv_open_taps := dict_put i (f tap) (sv_open_taps st)\<rparr>) js st) =
    fold (\<lambda>i d. case dict_get d i of None \<Rightarrow> d | Some tap \<Rightarrow> dict_put i (f tap) d) js (sv_open_taps st)" for f js
    by (induction js arbitrary: st) (simp_all split: option.splits)
  then show ?thesis by (simp add: record_in_taps_def recorded_def)
qed

lemma recorded_untapped: "change_ticker c \<notin> fst ` set taps \<Longrightarrow> recorded c w taps opens = opens"
proof -
  assume "change_ticker c \<notin> fst ` set taps"
  then have "dict_get taps (change_ticker c) = None" by (simp add: map_of_eq_None_iff)
  then show ?thesis by (simp add: recorded_def dict_get_or_def)
qed

lemma watched_snapshot: "watched i st (apply_book_snapshot ev s st)"
proof (cases "may_touch (bs_sid s) (bs_ticker s) st")
  case True
  show ?thesis
  proof (rule watched_step [of _ "LvSnapshot s"])
    show "sv_live (apply_book_snapshot ev s st) = fst (live_step (LvSnapshot s) (sv_live st))"
      using apply_book_snapshot_live [of s st ev] True by (simp del: live_step.simps)
    show "case snd (live_step (LvSnapshot s) (sv_live st)) of None \<Rightarrow> sv_open_taps (apply_book_snapshot ev s st) = sv_open_taps st
        | Some (c, w) \<Rightarrow> sv_open_taps (apply_book_snapshot ev s st) = sv_open_taps (record_in_taps c w st)"
      using True by (auto simp: apply_book_snapshot_def book_for_def book_failed_def record_in_taps_opens recorded_untapped Let_def
          split: option.splits prod.splits sum.splits)
  qed (auto simp: apply_book_snapshot_def book_for_def book_failed_def Let_def split: option.splits prod.splits sum.splits)
qed (use apply_book_snapshot_live [of s st ev] in \<open>simp add: watched_nothing\<close>)

lemma watched_delta: "watched i st (fst (apply_book_delta ev d st))"
proof (cases "may_touch (bd_sid d) (bd_ticker d) st")
  case True
  show ?thesis
  proof (rule watched_step [of _ "LvDelta d"])
    show "sv_live (fst (apply_book_delta ev d st)) = fst (live_step (LvDelta d) (sv_live st))"
      using apply_book_delta_live [of d st ev] True by (simp del: live_step.simps)
    show "case snd (live_step (LvDelta d) (sv_live st)) of None \<Rightarrow> sv_open_taps (fst (apply_book_delta ev d st)) = sv_open_taps st
        | Some (c, w) \<Rightarrow> sv_open_taps (fst (apply_book_delta ev d st)) = sv_open_taps (record_in_taps c w st)"
      using True by (auto simp: apply_book_delta_def book_for_def book_failed_def record_in_taps_opens recorded_untapped Let_def
          split: option.splits prod.splits sum.splits)
  qed (auto simp: apply_book_delta_def book_for_def book_failed_def Let_def split: option.splits prod.splits sum.splits)
qed (use apply_book_delta_live [of d st ev] in \<open>simp add: watched_nothing\<close>)

lemma watched_stale: "watched i st (stale_book t st)"
  by (rule watched_step [of _ "LvStale t"]) (auto simp: stale_book_def split: option.splits prod.splits)

lemma watched_drop: "watched i st (drop_book t st)"
  by (rule watched_step [of _ "LvDrop t"]) (auto simp: drop_book_def)

interpretation watching: sup_life ev "watched i"
proof
  show "watched i st st1 \<Longrightarrow> watched i st1 st2 \<Longrightarrow> watched i st st2" for st st1 st2
    by (rule watched_trans)
qed (auto simp: outputs_def lasting_outputs_def recounted_keeps intro: watched_nothing watched_stale watched_drop
    watched_snapshot watched_delta)

text \<open>Opening a tap and closing another one.\<close>

lemma fold_watchers:
  "distinct ts \<Longrightarrow> dict_get_or (fold (\<lambda>t taps. dict_put t (dict_get_or taps t [] @ [i]) taps) ts taps) t [] =
     dict_get_or taps t [] @ (if t \<in> set ts then [i] else [])"
  by (induction ts arbitrary: taps) (auto simp: dict_simps)

lemma fold_release:
  "dict_get_or (fold (\<lambda>t taps. let remaining = filter (\<lambda>j. j \<noteq> i) (dict_get_or taps t [])
             in if remaining \<noteq> [] then dict_put t remaining taps else dict_pop t taps) ts taps) t [] =
     (if t \<in> set ts then filter (\<lambda>j. j \<noteq> i) (dict_get_or taps t []) else dict_get_or taps t [])"
  by (induction ts arbitrary: taps) (auto simp: dict_get_or_def dict_simps Let_def)

lemma open_tap_result:
  assumes "open_tap ts m st = (st', Inr i)"
  shows "i = sv_next_tap st" "\<exists>tap. new_live_tap ts (sv_live st) m = Inr tap \<and> dict_get (sv_open_taps st') i = Some tap \<and>
      (\<forall>j. j \<noteq> i \<longrightarrow> dict_get (sv_open_taps st') j = dict_get (sv_open_taps st) j)"
    "sv_live st' = sv_live st"
  using assms by (auto simp: open_tap_def Let_def dict_simps split: sum.splits)

lemma open_tap_failed: "snd (open_tap ts m st) = Inl e \<Longrightarrow> fst (open_tap ts m st) = st"
  by (auto simp: open_tap_def Let_def split: sum.splits)

lemma routed_open: "routed st \<Longrightarrow> routed (fst (open_tap ts m st))"
proof (cases "new_live_tap ts (sv_live st) m")
  case (Inr tap)
  assume r: "routed st"
  let ?i = "sv_next_tap st"
  let ?st = "fst (open_tap ts m st)"
  have tap: "lt_tickers tap = remdups ts" "dict_keys (lt_recordings tap) = sort (remdups ts)"
    using Inr by (auto simp: new_live_tap_def comp_def split: if_splits)
  have w: "watchers ?st t = watchers st t @ (if t \<in> set ts then [?i] else [])" for t
    by (simp add: open_tap_def Inr watchers_def fold_watchers tap Let_def)
  have o: "dict_get (sv_open_taps ?st) j = (if j = ?i then Some tap else dict_get (sv_open_taps st) j)" "sv_next_tap ?st = ?i + 1" for j
    by (simp_all add: open_tap_def Inr dict_simps Let_def)
  have "t \<in> set ts" if "dict_get (lt_recordings tap) t \<noteq> None" for t
    using that tap(2) dict_get_None_iff [of "lt_recordings tap" t] by simp
  then show ?thesis using r unfolding routed_def w o by (fastforce split: if_splits)
qed (simp add: open_tap_def)

lemma watched_open: "watched i st (fst (open_tap ts m st))"
proof (cases "snd (open_tap ts m st)")
  case (Inr j)
  then obtain st' where st': "open_tap ts m st = (st', Inr j)" by (metis prod.collapse)
  have "routed st \<Longrightarrow> dict_get (sv_open_taps st) i = Some tap \<Longrightarrow> dict_get (sv_open_taps st') i = Some tap" for tap
    using open_tap_result [OF st'] unfolding routed_def by (metis less_irrefl)
  then show ?thesis
    using open_tap_result(3) [OF st'] routed_open [of st ts m] unfolding watched_def
    by (intro impI conjI exI [of _ "[]"]) (simp_all add: st' live_run_def tap_run_def)
qed (simp add: open_tap_failed watched_nothing)

lemma close_tap_cases:
  obtains "fst (close_tap i st) = st"
    | tap ws where "dict_get (sv_open_taps st) i = Some tap" "tap_close (sv_live st) tap = (tap\<lparr>lt_windows := Some ws, lt_recordings := []\<rparr>, Inr ws)"
      "\<not> tap_closed tap"
      "fst (close_tap i st) = st\<lparr>sv_open_taps := dict_put i (tap\<lparr>lt_windows := Some ws, lt_recordings := []\<rparr>) (sv_open_taps st),
         sv_taps := release_tap i tap (sv_taps st)\<rparr>"
    | tap where "dict_get (sv_open_taps st) i = Some tap" "tap_closed tap"
      "fst (close_tap i st) = st\<lparr>sv_open_taps := dict_put i tap (sv_open_taps st)\<rparr>"
proof (cases "dict_get (sv_open_taps st) i")
  case None
  then show ?thesis by (intro that(1)) (simp add: close_tap_def)
next
  case (Some tap)
  note tap = this
  show ?thesis
  proof (cases "lt_windows tap")
    case (Some ws)
    then show ?thesis by (intro that(3) [of tap]) (simp_all add: close_tap_def tap_close_def tap_closed_def tap)
  next
    case None
    then have "tap_close (sv_live st) tap = (case result_list (\<lambda>(t, r). result_bind (finish_recording (sv_live st) t r)
          (\<lambda>w. Inr (t, w))) (lt_recordings tap) of Inl e \<Rightarrow> (tap, Inl e)
        | Inr ws \<Rightarrow> (tap\<lparr>lt_windows := Some ws, lt_recordings := []\<rparr>, Inr ws))"
      by (simp add: tap_close_def)
    then consider e where "tap_close (sv_live st) tap = (tap, Inl e)"
      | ws where "tap_close (sv_live st) tap = (tap\<lparr>lt_windows := Some ws, lt_recordings := []\<rparr>, Inr ws)"
      by (auto split: sum.splits)
    then show ?thesis
    proof cases
      case 1
      then show ?thesis by (intro that(1)) (simp add: close_tap_def tap)
    next
      case (2 ws)
      with None show ?thesis by (intro that(2) [of tap ws]) (simp_all add: close_tap_def tap_closed_def tap)
    qed
  qed
qed

lemma routed_close: "routed st \<Longrightarrow> routed (fst (close_tap i st))"
proof (cases rule: close_tap_cases [of i st])
  case (2 tap ws)
  assume r: "routed st"
  let ?st = "fst (close_tap i st)"
  have w: "watchers ?st t = (if t \<in> set (lt_tickers tap) then filter (\<lambda>j. j \<noteq> i) (watchers st t) else watchers st t)" for t
    by (simp add: 2(4) watchers_def release_tap_def fold_release)
  have o: "dict_get (sv_open_taps ?st) j = (if j = i then Some (tap\<lparr>lt_windows := Some ws, lt_recordings := []\<rparr>)
      else dict_get (sv_open_taps st) j)" "sv_next_tap ?st = sv_next_tap st" for j
    by (simp_all add: 2(4) dict_simps)
  show ?thesis using r 2(1) unfolding routed_def w o by (auto split: if_splits)
next
  case (3 tap)
  assume r: "routed st"
  show ?thesis using r 3(1) unfolding routed_def watchers_def 3(3) by (auto simp: dict_simps)
qed simp

lemma watched_close: "watched i st (fst (close_tap j st))"
proof (cases rule: close_tap_cases [of j st])
  case 1
  then show ?thesis by (simp add: watched_nothing)
next
  case (2 tap ws)
  then show ?thesis
    using routed_close [of st j] unfolding watched_def
    by (intro impI conjI exI [of _ "[]"]) (auto simp: live_run_def tap_run_def dict_simps tap_closed_def)
next
  case (3 tap)
  then show ?thesis
    using routed_close [of st j] unfolding watched_def
    by (intro impI conjI exI [of _ "[]"]) (auto simp: live_run_def tap_run_def dict_simps)
qed

lemma watched_run: "sup_run ev st st' \<Longrightarrow> watched i st st'"
  unfolding sup_run_def
proof (induction rule: rtranclp_induct)
  case (step st1 st2)
  have "watched i st1 st2" using watching.step_R [OF step(2), of i] watched_open watched_close by blast
  with step(3) show ?case by (rule watched_trans)
qed (rule watched_nothing; simp)

lemma publishes_run: "sup_run ev st st' \<Longrightarrow> publishes ev st st'"
  unfolding sup_run_def
proof (induction rule: rtranclp_induct)
  case (step st1 st2)
  have "publishes ev st (fst (open_tap ts m st))" "publishes ev st (fst (close_tap i st))" for st ts m i
    by (rule publishes_nothing; cases rule: close_tap_cases [of i st]; simp add: open_tap_def Let_def split: sum.split)+
  with publishing.step_R [OF step(2)] have "publishes ev st1 st2" by blast
  with step(3) show ?case by (rule publishes_trans)
qed (rule publishes_nothing; simp)

lemma wf_live_run: "wf_live live \<Longrightarrow> wf_live (live_run ops live)"
proof (induction ops arbitrary: live)
  case (Cons op ops)
  have "wf_live (fst (live_step op live))" using live_step_effect [OF Cons.prems] by (metis prod.collapse)
  then show ?case using Cons.IH by (simp add: live_run_def)
qed (simp add: live_run_def)

lemma started:
  assumes "new_supervisor cf sink = Inr s0" "sup_run ev s0 st"
  shows "routed st" "wf_live (sv_live st)"
proof -
  have "routed s0" "wf_live (sv_live s0)"
    using assms(1) by (auto simp: new_supervisor_def routed_def watchers_def dict_get_or_def wf_live_def split: if_splits)
  then show "routed st" "wf_live (sv_live st)"
    using watched_run [OF assms(2), of 0] wf_live_run by (auto simp: watched_def)
qed

section \<open>The tape\<close>

fun not_frame :: "sink_entry \<Rightarrow> bool" where
  "not_frame (SkPut r taken) = (\<not> is_frame (tp_payload r))"
| "not_frame SkRotate = True"

definition tape_grows :: "supervisor \<Rightarrow> supervisor \<Rightarrow> bool" where
  "tape_grows st st' \<longleftrightarrow> (case sv_sink st of
     None \<Rightarrow> sv_sink st' = None
   | Some sunk \<Rightarrow> \<exists>new. sv_sink st' = Some (sunk @ new) \<and> list_all not_frame new)"

lemma tape_grows_trans: "tape_grows st st1 \<Longrightarrow> tape_grows st1 st2 \<Longrightarrow> tape_grows st st2"
  by (auto simp: tape_grows_def split: option.splits)

lemma tape_same: "sv_sink st' = sv_sink st \<Longrightarrow> tape_grows st st'"
  by (auto simp: tape_grows_def split: option.splits)

lemma tape_put: "\<not> is_frame p \<Longrightarrow> tape_grows st (put_record ev m w p st)"
  by (auto simp: tape_grows_def put_record_def Let_def split: option.splits)

lemma tape_send: "tape_grows st (fst (send_command ev cmd st))"
proof -
  have "tape_grows st (st\<lparr>sv_clock_reads := n, sv_session := ss\<rparr>)" for n ss by (rule tape_same) simp
  moreover have "tape_grows st (st\<lparr>sv_clock_reads := n\<rparr>)" for n by (rule tape_same) simp
  ultimately show ?thesis
    by (auto simp: send_command_def Let_def split: option.splits prod.splits sum.splits
        intro: tape_grows_trans [OF _ tape_put])
qed

lemma apply_book_sink:
  "sv_sink (apply_book_snapshot ev s st) = sv_sink st" "sv_sink (fst (apply_book_delta ev d st)) = sv_sink st"
  "sv_session (apply_book_snapshot ev s st) = sv_session st" "sv_session (fst (apply_book_delta ev d st)) = sv_session st"
  "sv_config (apply_book_snapshot ev s st) = sv_config st" "sv_config (fst (apply_book_delta ev d st)) = sv_config st"
  by (auto simp: apply_book_snapshot_def apply_book_delta_def book_for_def book_failed_def Let_def
      split: option.splits prod.splits sum.splits)

lemma touch_book_keeps [simp]:
  "sv_sink (stale_book t st) = sv_sink st" "sv_sink (drop_book t st) = sv_sink st"
  "sv_session (stale_book t st) = sv_session st" "sv_session (drop_book t st) = sv_session st"
  "sv_config (stale_book t st) = sv_config st" "sv_config (drop_book t st) = sv_config st"
  by (auto simp: stale_book_def drop_book_def split: option.splits prod.splits)

interpretation taping: sup_handlers ev tape_grows
proof
  show "tape_grows st st1 \<Longrightarrow> tape_grows st1 st2 \<Longrightarrow> tape_grows st st2" for st st1 st2
    by (rule tape_grows_trans)
qed (auto simp: outputs_def apply_book_sink intro: tape_same tape_put tape_send)

section \<open>The errors a handler may raise\<close>

definition raises_only :: "sup_error set \<Rightarrow> 'a outcome \<Rightarrow> bool" where
  "raises_only E r \<longleftrightarrow> (\<forall>e. snd r = Inl e \<longrightarrow> e \<in> E)"

definition io_errors :: "sup_error set" where
  "io_errors = {WsClosed, TransportFailed} \<union> range PlanFailed"

lemma raises_bind:
  "raises_only E r \<Longrightarrow> (\<And>x st. r = (st, Inr x) \<Longrightarrow> raises_only E (f x st)) \<Longrightarrow> raises_only E (sv_bind r f)"
  by (cases r) (auto simp: raises_only_def sv_bind_def split: sum.splits)

lemma raises_value [simp]: "raises_only E (st, Inr x)"
  by (simp add: raises_only_def)

lemma raises_error [simp]: "raises_only E (st, Inl e) \<longleftrightarrow> e \<in> E"
  by (simp add: raises_only_def)

lemma send_raises: "raises_only io_errors (send_command ev cmd st)"
  by (auto simp: send_command_def ws_send_def raises_only_def io_errors_def Let_def
      split: option.splits prod.splits sum.splits send_outcome.splits if_splits)

lemma request_raises: "raises_only io_errors (request_snapshot ev sid ts st)"
proof -
  have "raises_only io_errors (sv_bind (send_command ev cmd st) (\<lambda>_ st. (st, Inr ())))" for cmd st
    by (rule raises_bind [OF send_raises]) simp
  then show ?thesis
    by (auto simp: request_snapshot_def Let_def io_errors_def split: option.splits)
qed

lemma resync_raises: "raises_only io_errors (resync_connection ev sid ask st)"
  by (auto simp: resync_connection_def Let_def request_raises split: option.splits)

lemma check_sequence_raises: "raises_only io_errors (check_sequence ev env rc st)"
  by (auto simp: check_sequence_def on_gap_def on_duplicate_def Let_def resync_raises
      split: option.splits prod.splits gap_verdict.splits)

text \<open>A change always finds the group it names: the group applied when its turn comes.\<close>

fun chained :: "plan_change list \<Rightarrow> string option \<Rightarrow> bool" where
  "chained [] gid = True"
| "chained (AddGroup g # cs) gid = chained cs (Some (gr_group_id g))"
| "chained (RemoveGroup h # cs) gid = (gid = Some h \<and> chained cs None)"
| "chained (AddMarkets h ts # cs) gid = (gid = Some h \<and> chained cs gid)"
| "chained (RemoveMarkets h ts # cs) gid = (gid = Some h \<and> chained cs gid)"

definition applied_id :: "supervisor \<Rightarrow> string option" where
  "applied_id st = map_option gr_group_id (sv_applied st)"

lemma applied_keeps [simp]:
  "sv_applied (put_record ev m w p st) = sv_applied st"
  "sv_applied (fst (send_command ev cmd st)) = sv_applied st"
  "sv_applied (await_replies cid g cs st) = sv_applied st"
  by (auto simp: put_record_def send_command_def await_replies_def Let_def split: option.splits prod.splits sum.splits)

lemma send_command_inv:
  "send_command ev cmd st = (st1, r) \<Longrightarrow> sv_applied st1 = sv_applied st \<and> sv_config st1 = sv_config st \<and>
     sv_live st1 = sv_live st \<and> sv_emitted st1 = sv_emitted st"
  using applied_keeps(2) [of ev cmd st] send_keeps(2) [of ev cmd st] send_command_keeps(1,2) [of ev cmd st] by auto

lemma send_commands_applied: "sv_applied (fst (send_commands ev piece cmds st)) = sv_applied st"
proof (induction cmds arbitrary: st)
  case (Cons cmd cmds)
  obtain st1 r where s: "send_command ev cmd st = (st1, r)" by fastforce
  then show ?case
    using send_command_inv [OF s] by (cases r) (auto simp: sv_bind_def Cons.IH split: plan_change.split)
qed simp

lemma send_commands_raises: "raises_only io_errors (send_commands ev piece cmds st)"
proof (induction cmds arbitrary: st)
  case (Cons cmd cmds)
  show ?case unfolding send_commands.simps by (rule raises_bind [OF send_raises]) (rule Cons.IH)
qed simp

lemma release_books_applied [simp]: "sv_applied (release_books ts st) = sv_applied st"
  unfolding release_books_def
  by (rule fold_keeps) (auto simp: stale_book_def drop_book_def split: option.splits)

lemma forget_sids_applied [simp]: "sv_applied (forget_sids gid st) = sv_applied st"
  unfolding forget_sids_def by (rule fold_keeps) (simp split: prod.splits)

lemma publish_applied [simp]: "sv_applied (publish_subscriptions st) = sv_applied st"
  by (simp add: publish_subscriptions_def)

lemma record_change_chained:
  assumes "chained (c # cs) (applied_id st)"
  shows "\<exists>st'. record_plan_change c st = (st', Inr ()) \<and> chained cs (applied_id st')"
  using assms by (cases c) (auto simp: record_plan_change_def applied_group_def applied_id_def)

lemma send_piece_chained:
  assumes "chained (c # cs) (applied_id st)"
  shows "raises_only io_errors (send_piece ev c st) \<and>
    (\<forall>st' x. send_piece ev c st = (st', Inr x) \<longrightarrow> chained cs (applied_id st'))"
proof (cases "to_commands [c] (cf_group_channels (sv_config st)) (group_use_yes_price (sv_config st)) (sid_of st)")
  case (Inr cmds)
  obtain st1 r where s: "send_commands ev c cmds st = (st1, r)" by fastforce
  have "applied_id st1 = applied_id st"
    using send_commands_applied [of ev c cmds st] s by (simp add: applied_id_def)
  then obtain st2 where "record_plan_change c st1 = (st2, Inr ())" "chained cs (applied_id st2)"
    using record_change_chained [of c cs st1] assms by auto
  moreover have "raises_only io_errors (st1, r)" using send_commands_raises [of ev c cmds st] s by simp
  ultimately show ?thesis
    by (cases r) (simp_all add: send_piece_def Inr s sv_bind_def)
qed (simp add: send_piece_def io_errors_def)

lemma reconcile_pieces_chained:
  assumes "chained (ps @ cs) (applied_id st)"
  shows "raises_only io_errors (reconcile_pieces ev ps st) \<and>
    (\<forall>st'. reconcile_pieces ev ps st = (st', Inr True) \<longrightarrow> chained cs (applied_id st'))"
  using assms
proof (induction ps arbitrary: st)
  case (Cons p ps)
  obtain st1 r where s: "send_piece ev p st = (st1, r)" by fastforce
  note sp = send_piece_chained [of p "ps @ cs" st ev, unfolded s] 
  show ?case
  proof (cases r)
    case (Inl e)
    with sp Cons.prems s show ?thesis by (auto simp: sv_bind_def)
  next
    case (Inr x)
    with sp Cons.prems have "chained (ps @ cs) (applied_id st1)" by simp
    from Cons.IH [OF this] Inr s show ?thesis by (auto simp: sv_bind_def)
  qed
qed simp

lemma chained_split:
  assumes "chained (c # cs) gid" "split_change c k = Inr ps"
  shows "chained (ps @ cs) gid"
proof -
  have k: "1 \<le> k" using assms(2) by (simp add: split_change_def split: if_splits)
  have adds: "chained (split_markets AddMarkets h ts k @ cs) (Some h) \<longleftrightarrow> chained cs (Some h)" for h ts
  proof -
    have "chained (map (AddMarkets h) tss @ cs) (Some h) \<longleftrightarrow> chained cs (Some h)" for tss by (induction tss) auto
    then show ?thesis by (simp add: split_markets_def)
  qed
  have removes: "chained (split_markets RemoveMarkets h ts k @ cs) (Some h) \<longleftrightarrow> chained cs (Some h)" for h ts
  proof -
    have "chained (map (RemoveMarkets h) tss @ cs) (Some h) \<longleftrightarrow> chained cs (Some h)" for tss by (induction tss) auto
    then show ?thesis by (simp add: split_markets_def)
  qed
  show ?thesis
    using assms k adds removes by (cases c) (auto simp: split_change_def Let_def split: if_splits)
qed

lemma reconcile_changes_chained:
  "chained cs (applied_id st) \<Longrightarrow> raises_only io_errors (reconcile_changes ev cs st)"
proof (induction cs arbitrary: st)
  case (Cons c cs)
  show ?case
  proof (cases "split_change c (cf_max_markets_per_command (sv_config st))")
    case (Inr ps)
    note rp = reconcile_pieces_chained [OF chained_split [OF Cons.prems Inr], of ev]
    have "raises_only io_errors (sv_bind (reconcile_pieces ev ps st)
        (\<lambda>go_on st. if go_on then reconcile_changes ev cs st else (st, Inr False)))"
      using rp Cons.IH by (intro raises_bind) auto
    then show ?thesis by (simp add: Inr)
  qed (simp add: io_errors_def)
qed simp

text \<open>The difference between a connection's groups, written out.\<close>

lemma one_group_diff:
  "plan_diff (plan_of None) (plan_of None) = []"
  "plan_diff (plan_of None) (plan_of (Some h)) = [AddGroup h]"
  "plan_diff (plan_of (Some g)) (plan_of None) = [RemoveGroup (gr_group_id g)]"
  "plan_diff (plan_of (Some g)) (plan_of (Some h)) =
     (if gr_group_id g = gr_group_id h \<and> \<not> must_rebuild g h
      then market_change RemoveMarkets (gr_group_id g) (gr_tickers g - gr_tickers h) @
           market_change AddMarkets (gr_group_id g) (gr_tickers h - gr_tickers g)
      else [RemoveGroup (gr_group_id g), AddGroup h])"
  by (auto simp: plan_diff_def plan_of_def plan_by_id_def diff_running_def)

lemma diff_chained: "chained (plan_diff (plan_of (sv_applied st)) (plan_of d)) (applied_id st)"
  by (cases "sv_applied st"; cases d) (auto simp: one_group_diff applied_id_def market_change_def)

lemma firehose_raises: "raises_only io_errors (subscribe_firehose ev st)"
  unfolding subscribe_firehose_def Let_def by (auto intro: raises_bind send_raises)

lemma reconcile_raises: "raises_only io_errors (reconcile ev st)"
proof -
  have "raises_only io_errors (sv_bind (subscribe_firehose ev st) (\<lambda>_ st.
         sv_bind (reconcile_changes ev (plan_diff (plan_of (sv_applied st)) (plan_of (sv_desired st))) st)
           (\<lambda>_ st. (st, Inr ()))))"
    by (intro raises_bind firehose_raises reconcile_changes_chained diff_chained) simp
  then show ?thesis by (auto simp: reconcile_def split: option.splits)
qed

lemma resume_raises: "raises_only io_errors (resume_reconcile ev st)"
  by (simp add: resume_reconcile_def reconcile_raises)

lemma converting_raises:
  "(\<And>x. r = Inr x \<Longrightarrow> raises_only E (f x)) \<Longrightarrow> (\<And>e. r = Inl e \<Longrightarrow> ConvertFailed e \<in> E) \<Longrightarrow> raises_only E (converting r f st)"
  by (auto simp: converting_def split: sum.splits)

lemma raises_mono: "raises_only E r \<Longrightarrow> E \<subseteq> F \<Longrightarrow> raises_only F r"
  by (auto simp: raises_only_def)

lemma dispatch_raises: "raises_only (io_errors \<union> range ConvertFailed) (dispatch ev env rc st)"
proof -
  have io: "raises_only (io_errors \<union> range ConvertFailed) r" if "raises_only io_errors r" for r :: "'a outcome"
    by (rule raises_mono [OF that]) simp
  note simple = io [OF resume_raises] io [OF request_raises]
  have adopt: "raises_only io_errors (adopt_membership ev p sid ch ts st)" for p sid ch ts st
    by (auto simp: adopt_membership_def Let_def request_raises split: option.splits list.splits)
  have "raises_only (io_errors \<union> range ConvertFailed) (on_ok ev env st)"
    by (auto simp: on_ok_def split: option.splits intro!: converting_raises raises_bind simple io [OF adopt])
  moreover have "raises_only (io_errors \<union> range ConvertFailed) (on_subscribed ev env st)"
    unfolding on_subscribed_def Let_def by (rule converting_raises) (auto split: option.splits intro!: simple)
  moreover have "raises_only (io_errors \<union> range ConvertFailed) (on_error ev env st)"
    unfolding on_error_def Let_def by (rule converting_raises) (auto split: option.splits intro!: simple)
  moreover have "raises_only (io_errors \<union> range ConvertFailed) (on_snapshot ev env rc st)"
    unfolding on_snapshot_def by (rule converting_raises) auto
  moreover have "raises_only (io_errors \<union> range ConvertFailed) (on_delta ev env rc st)"
    unfolding on_delta_def by (rule converting_raises) (auto split: prod.splits intro!: simple)
  ultimately show ?thesis
    by (auto simp: dispatch_def intro!: converting_raises split: option.splits)
qed

lemma interpret_raises: "raises_only (io_errors \<union> {ConvertFailed UnicodeError}) (interpret_frame ev f st)"
proof -
  have caught: "raises_only (io_errors \<union> {ConvertFailed UnicodeError}) (caught r)"
    if "raises_only (io_errors \<union> range ConvertFailed) r" for r
  proof (cases r)
    case (Pair st1 x)
    show ?thesis
    proof (cases x)
      case (Inl e)
      with that Pair have "e \<in> io_errors \<union> range ConvertFailed" by simp
      then show ?thesis using Pair Inl
        by (cases e) (auto simp: caught_def split: convert_error.splits)
    qed (simp add: Pair caught_def)
  qed
  have "raises_only (io_errors \<union> {ConvertFailed UnicodeError}) (sv_bind (check_sequence ev env rc st)
          (\<lambda>_ st. caught (dispatch ev env rc st)))" for env rc
    by (rule raises_bind [OF raises_mono [OF check_sequence_raises]]) (blast, rule caught [OF dispatch_raises])
  then show ?thesis by (simp add: interpret_frame_def Let_def split: option.split)
qed

section \<open>The socket\<close>

definition within_limit :: "sup_config \<Rightarrow> ws_command \<Rightarrow> bool" where
  "within_limit cf cmd \<longleftrightarrow> asks_snapshot cmd \<or> int (length (command_markets cmd)) \<le> cf_max_markets_per_command cf"

definition wire_ok :: "supervisor \<Rightarrow> bool" where
  "wire_ok st \<longleftrightarrow> (\<forall>ss. sv_session st = Some ss \<longrightarrow>
     ws_next_command_id ss = 1 + int (length (ws_wire ss)) \<and>
     map fst (ws_wire ss) = [1..int (length (ws_wire ss))] \<and>
     list_all (\<lambda>(_, cmd). within_limit (sv_config st) cmd) (ws_wire ss))"

definition orderly :: "supervisor \<Rightarrow> supervisor \<Rightarrow> bool" where
  "orderly st st' \<longleftrightarrow> sv_config st' = sv_config st \<and>
     (0 \<le> cf_max_markets_per_command (sv_config st) \<and> wire_ok st \<longrightarrow> wire_ok st')"

lemma orderly_same: "sv_config st' = sv_config st \<Longrightarrow> sv_session st' = sv_session st \<Longrightarrow> orderly st st'"
  by (simp add: orderly_def wire_ok_def)

lemma upto_snoc: "[1..int n] @ [1 + int n] = [1..1 + int n]"
  using upto_rec2 [of 1 "1 + int n"] by simp

lemma ws_send_wire:
  "ws_send cmd ss = (ss', r) \<Longrightarrow> ss' = ss \<or>
     (ws_wire ss' = ws_wire ss @ [(ws_next_command_id ss, cmd)] \<and> ws_next_command_id ss' = ws_next_command_id ss + 1)"
  by (auto simp: ws_send_def Let_def split: if_splits send_outcome.splits)

lemma send_command_session:
  "sv_session (fst (send_command ev cmd st)) = map_option (\<lambda>ss. fst (ws_send cmd ss)) (sv_session st)"
  by (auto simp: send_command_def Let_def split: option.splits prod.splits sum.splits)

lemma orderly_send:
  assumes "sendable st cmd"
  shows "orderly st (fst (send_command ev cmd st))"
proof -
  have "wire_ok (fst (send_command ev cmd st))" if ok: "0 \<le> cf_max_markets_per_command (sv_config st)" "wire_ok st"
    unfolding wire_ok_def send_keeps
  proof (intro allI impI)
    fix ss' assume "sv_session (fst (send_command ev cmd st)) = Some ss'"
    then obtain ss where ss: "sv_session st = Some ss" "ss' = fst (ws_send cmd ss)"
      by (auto simp: send_command_session)
    then have w: "ss' = ss \<or>
        (ws_wire ss' = ws_wire ss @ [(ws_next_command_id ss, cmd)] \<and> ws_next_command_id ss' = ws_next_command_id ss + 1)"
      using ws_send_wire [of cmd ss ss' "snd (ws_send cmd ss)"] by (simp add: prod_eq_iff)
    have "within_limit (sv_config st) cmd" using assms ok(1) by (auto simp: sendable_def within_limit_def)
    with w ok(2) ss(1) upto_snoc [of "length (ws_wire ss)"]
    show "ws_next_command_id ss' = 1 + int (length (ws_wire ss')) \<and>
       map fst (ws_wire ss') = [1..int (length (ws_wire ss'))] \<and>
       list_all (\<lambda>(_, cmd). within_limit (sv_config st) cmd) (ws_wire ss')"
      by (auto simp: wire_ok_def)
  qed
  then show ?thesis by (simp add: orderly_def)
qed

interpretation ordering: sup_life ev orderly
proof
  show "orderly st st1 \<Longrightarrow> orderly st1 st2 \<Longrightarrow> orderly st st2" for st st1 st2 by (simp add: orderly_def)
  show "orderly st st'" if "lasting_outputs st' = lasting_outputs st" "same_wire (sv_session st) (sv_session st')" for st st'
    using that by (auto simp: orderly_def wire_ok_def lasting_outputs_def same_wire_def new_ws_session_def)
qed (auto simp: outputs_def apply_book_sink recounted_keeps intro: orderly_same orderly_send)

lemma orderly_run: "sup_run ev st st' \<Longrightarrow> orderly st st'"
  unfolding sup_run_def
proof (induction rule: rtranclp_induct)
  case (step st1 st2)
  have "orderly st (fst (open_tap ts m st))" "orderly st (fst (close_tap i st))" for st ts m i
    by (rule orderly_same; cases rule: close_tap_cases [of i st]; simp add: open_tap_def Let_def split: sum.split)+
  with ordering.step_R [OF step(2)] have "orderly st1 st2" by blast
  with step(3) show ?case by (simp add: orderly_def)
qed (simp add: orderly_same)

section \<open>A gap on the books\<close>

lemma stale_book_fresh [simp]: "book_fresh t (stale_book u st) \<longleftrightarrow> t \<noteq> u \<and> book_fresh t st"
  by (cases "dict_get (lr_books (sv_live st)) u"; cases "t = u")
    (auto simp: stale_book_def book_fresh_def put_book_def dict_simps is_stale_def mark_stale_def split: prod.splits)

lemma stale_books_fresh: "book_fresh t (fold stale_book ts st) \<longleftrightarrow> t \<notin> set ts \<and> book_fresh t st"
  by (induction ts arbitrary: st) auto

lemma stale_books_keep: "\<exists>live. fold stale_book ts st = st\<lparr>sv_live := live\<rparr>"
proof (induction ts arbitrary: st)
  case Nil
  show ?case by (rule exI [of _ "sv_live st"]) simp
next
  case (Cons t ts)
  have "\<exists>l. stale_book t st = st\<lparr>sv_live := l\<rparr>"
    by (cases "dict_get (lr_books (sv_live st)) t")
      (auto simp: stale_book_def split: prod.splits intro: exI [of _ "sv_live st"])
  then obtain l where l: "stale_book t st = st\<lparr>sv_live := l\<rparr>" ..
  obtain l' where "fold stale_book ts (st\<lparr>sv_live := l\<rparr>) = st\<lparr>sv_live := l\<rparr>\<lparr>sv_live := l'\<rparr>"
    using Cons by blast
  with l show ?case by auto
qed

lemma book_fresh_live: "sv_live st' = sv_live st \<Longrightarrow> book_fresh t st' = book_fresh t st"
  by (simp add: book_fresh_def)

lemma dict_get_or_simps [simp]:
  "dict_get_or (dict_pop k d) k x = x"
  by (simp add: dict_get_or_def dict_simps)

lemma gap_handled:
  assumes "en_sid env = Some sid" "\<not> (en_type env = SNAPSHOT_TYPE \<and> sid \<in> set (dict_keys (sv_resyncing st)))"
    "snd (observe sid (en_seq env) (sv_tracker st)) = VGap e g"
    "dict_get (sv_subscriptions st) sid = Some info" "si_channel info = ORDERBOOK_CHANNEL"
    "sv_applied st = Some gr" "finite (gr_tickers gr)" "gr_tickers gr \<noteq> {}" "sv_session st = Some ss"
    "check_sequence ev env rc st = (st', r)"
  shows "sv_gaps st' = sv_gaps st + 1" "\<forall>t\<in>gr_tickers gr. \<not> book_fresh t st'"
    "dict_get (sv_resyncing st') sid = Some (gr_tickers gr)"
    "sv_emitted st' = sv_emitted st @ (if ev_on_event ev = None then [] else
       [EvGap \<lparr>ge_receipt = rc, ge_sid = sid, ge_expected_seq = e, ge_got_seq = g\<rparr>])"
    "sv_session st' = Some (fst (ws_send (UpdateSubscriptionCommand sid GetSnapshotAction
       (sorted_list_of_set (gr_tickers gr))) ss))"
    "\<exists>more. sv_sink st' = map_option (\<lambda>sunk. sunk @
       SkPut \<lparr>tp_conn_id = cf_conn_id (sv_config st), tp_mono_ns = rc_recv_mono_ns rc, tp_wall_ns = rc_recv_wall_ns rc,
         tp_payload = PlGap sid e g\<rparr> (ev_accepts ev (length sunk)) # more) (sv_sink st)"
proof -
  let ?ts = "gr_tickers gr"
  let ?cmd = "UpdateSubscriptionCommand sid GetSnapshotAction (sorted_list_of_set ?ts)"
  define st1 where "st1 = st\<lparr>sv_tracker := fst (observe sid (en_seq env) (sv_tracker st))\<rparr>\<lparr>sv_gaps := sv_gaps st + 1\<rparr>"
  define st2 where "st2 = put_record ev (rc_recv_mono_ns rc) (rc_recv_wall_ns rc) (PlGap sid e g) st1"
  define st3 where "st3 = emit ev (EvGap \<lparr>ge_receipt = rc, ge_sid = sid, ge_expected_seq = e, ge_got_seq = g\<rparr>) st2"
  obtain live where live: "fold stale_book (sorted_list_of_set ?ts) st3 = st3\<lparr>sv_live := live\<rparr>"
    using stale_books_keep by blast
  define st4 where "st4 = st3\<lparr>sv_live := live, sv_resyncing := dict_put sid ?ts (dict_pop sid (sv_resyncing st3)),
      sv_snapshots_requested := sv_snapshots_requested st3 + 1\<rparr>"
  have keep: "sv_subscriptions st3 = sv_subscriptions st" "sv_applied st3 = Some gr" "sv_session st3 = Some ss"
      "sv_config st3 = sv_config st" "sv_gaps st3 = sv_gaps st + 1"
    using assms(6,9) by (auto simp: st3_def st2_def st1_def emit_def put_record_def Let_def split: option.splits)
  have ts: "sorted_list_of_set ?ts \<noteq> []" "set (sorted_list_of_set ?ts) = ?ts" using assms(7,8) by auto
  obtain tr where obs: "observe sid (en_seq env) (sv_tracker st) = (tr, VGap e g)"
    using assms(3) by (metis prod.collapse)
  have "check_sequence ev env rc st = on_gap ev sid e g rc (st\<lparr>sv_tracker := tr\<rparr>)"
    using assms(1,2) obs by (auto simp: check_sequence_def Let_def)
  also have "\<dots> = resync_connection ev sid True st3"
    using obs by (simp add: on_gap_def Let_def st3_def st2_def st1_def)
  also have "\<dots> = request_snapshot ev sid ?ts (st3\<lparr>sv_live := live, sv_resyncing := dict_pop sid (sv_resyncing st3)\<rparr>)"
    using assms(4,5) keep live by (simp add: resync_connection_def Let_def)
  also have "\<dots> = sv_bind (send_command ev ?cmd st4) (\<lambda>_ st. (st, Inr ()))"
    using keep ts by (simp add: request_snapshot_def Let_def st4_def)
  finally have st': "st' = fst (send_command ev ?cmd st4)"
    using assms(10) by (cases "send_command ev ?cmd st4"; cases "snd (send_command ev ?cmd st4)") (auto simp: sv_bind_def)
  have other: "sv_gaps (fst (send_command ev cmd st)) = sv_gaps st"
      "sv_resyncing (fst (send_command ev cmd st)) = sv_resyncing st" for cmd st
    by (auto simp: send_command_def put_record_def Let_def split: option.splits prod.splits sum.splits)
  show "sv_gaps st' = sv_gaps st + 1" "dict_get (sv_resyncing st') sid = Some ?ts"
    using keep by (simp_all add: st' other st4_def dict_simps)
  show "sv_emitted st' = sv_emitted st @ (if ev_on_event ev = None then [] else
       [EvGap \<lparr>ge_receipt = rc, ge_sid = sid, ge_expected_seq = e, ge_got_seq = g\<rparr>])"
    by (simp add: st' st4_def st3_def st2_def st1_def)
  show "sv_session st' = Some (fst (ws_send ?cmd ss))"
    using keep by (simp add: st' send_command_session st4_def)
  have "book_fresh t st' = book_fresh t (fold stale_book (sorted_list_of_set ?ts) st3)" for t
    unfolding live by (rule book_fresh_live) (simp add: st' st4_def)
  then show "\<forall>t\<in>?ts. \<not> book_fresh t st'" using ts(2) by (simp add: stale_books_fresh)
  have "tape_grows st4 st'" unfolding st' by (rule tape_send)
  moreover have "sv_sink st4 = map_option (\<lambda>sunk. sunk @
       [SkPut \<lparr>tp_conn_id = cf_conn_id (sv_config st), tp_mono_ns = rc_recv_mono_ns rc, tp_wall_ns = rc_recv_wall_ns rc,
         tp_payload = PlGap sid e g\<rparr> (ev_accepts ev (length sunk))]) (sv_sink st)"
    by (simp add: st4_def st3_def st2_def st1_def put_record_def Let_def split: option.split)
  ultimately show "\<exists>more. sv_sink st' = map_option (\<lambda>sunk. sunk @
       SkPut \<lparr>tp_conn_id = cf_conn_id (sv_config st), tp_mono_ns = rc_recv_mono_ns rc, tp_wall_ns = rc_recv_wall_ns rc,
         tp_payload = PlGap sid e g\<rparr> (ev_accepts ev (length sunk)) # more) (sv_sink st)"
    by (cases "sv_sink st") (auto simp: tape_grows_def)
qed

section \<open>Backing off\<close>

lemma backoff_total:
  assumes "config_error cf = None" "0 \<le> n" "0 \<le> j" "j < 1"
  obtains d where "backoff_delay_s n (cf_backoff_initial_ns cf) (cf_backoff_max_ns cf) j = Inr d"
  using assms by (auto simp: config_error_def backoff_delay_s_def Let_def split: if_splits)

lemma backoff_nominal_range:
  assumes "0 < i" "i \<le> m" "0 \<le> n"
  shows "i \<le> backoff_nominal_ns n i m \<and> backoff_nominal_ns n i m \<le> m"
proof -
  have "1 \<le> (2::int) ^ k" for k :: nat by simp
  then have "i \<le> i * 2 ^ nat (min n MAX_BACKOFF_DOUBLINGS)"
    using assms(1) mult_left_mono [of 1 "2 ^ nat (min n MAX_BACKOFF_DOUBLINGS)" i] by simp
  with assms(2) show ?thesis by (simp add: backoff_nominal_ns_def)
qed

lemma end_connection_counts:
  "sv_consecutive_failures (end_connection ev opened detail st) = sv_consecutive_failures st"
  "sv_frames_this_connection (end_connection ev opened detail st) = 0"
  "sv_config (end_connection ev opened detail st) = sv_config st"
proof -
  have put: "sv_consecutive_failures (put_record ev m w p st) = sv_consecutive_failures st"
      "sv_frames_this_connection (put_record ev m w p st) = sv_frames_this_connection st" for m w p st
    by (simp_all add: put_record_def Let_def split: option.split)
  have fold: "sv_consecutive_failures (fold stale_book ts st) = sv_consecutive_failures st"
      "sv_frames_this_connection (fold stale_book ts st) = sv_frames_this_connection st"
      "sv_config (fold stale_book ts st) = sv_config st" for ts st
    using stale_books_keep [of ts st] by auto
  show "sv_consecutive_failures (end_connection ev opened detail st) = sv_consecutive_failures st"
    "sv_frames_this_connection (end_connection ev opened detail st) = 0"
    "sv_config (end_connection ev opened detail st) = sv_config st"
    by (auto simp: end_connection_def record_connection_event_def forget_connection_def publish_subscriptions_def
        put fold Let_def split: prod.splits)
qed

text \<open>Handling frames and commands leaves the counts of attempts alone.\<close>

definition uncounted :: "supervisor \<Rightarrow> supervisor \<Rightarrow> bool" where
  "uncounted st st' \<longleftrightarrow> sv_config st' = sv_config st \<and> sv_consecutive_failures st' = sv_consecutive_failures st \<and>
     sv_reconnects st' = sv_reconnects st \<and> sv_stop_requested st' = sv_stop_requested st"

lemma uncounted_trans: "uncounted a b \<Longrightarrow> uncounted b c \<Longrightarrow> uncounted a c"
  by (simp add: uncounted_def)

lemma uncounted_put: "uncounted st (put_record ev m w p st)"
  by (simp add: uncounted_def put_record_def Let_def split: option.split)

lemma uncounted_taps: "uncounted st (record_in_taps c w st)"
  unfolding uncounted_def record_in_taps_def by (intro conjI; rule fold_keeps; simp split: option.split)

lemma uncounted_send: "uncounted st (fst (send_command ev cmd st))"
proof -
  have "uncounted st (st\<lparr>sv_clock_reads := n, sv_session := ss\<rparr>)" "uncounted st (st\<lparr>sv_clock_reads := n\<rparr>)" for n ss
    by (simp_all add: uncounted_def)
  then show ?thesis
    by (auto simp: send_command_def Let_def split: option.splits prod.splits sum.splits
        intro: uncounted_trans [OF _ uncounted_put])
qed

lemma record_in_taps_uncounted [simp]:
  "sv_consecutive_failures (record_in_taps c w st) = sv_consecutive_failures st"
  "sv_reconnects (record_in_taps c w st) = sv_reconnects st"
  "sv_stop_requested (record_in_taps c w st) = sv_stop_requested st"
  using uncounted_taps [of st c w] by (simp_all add: uncounted_def)

lemma uncounted_emit: "uncounted st (emit ev e st)"
  by (simp add: uncounted_def emit_def split: option.split)

lemma uncounted_books: "uncounted st (stale_book t st)" "uncounted st (drop_book t st)"
  by (simp_all add: uncounted_def stale_book_def drop_book_def split: option.split prod.split)

lemma uncounted_book_for: "uncounted st (fst (book_for sid t create st))"
  by (simp add: uncounted_def book_for_def Let_def split: option.split)

lemma uncounted_snapshot: "uncounted st (apply_book_snapshot ev s st)"
proof -
  obtain st1 nb where b: "book_for (bs_sid s) (bs_ticker s) True st = (st1, nb)" by fastforce
  then have "uncounted st st1" using uncounted_book_for [of st "bs_sid s" "bs_ticker s" True] by simp
  moreover have "uncounted st1 (emit ev (EvSnapshot s) (record_in_taps c w (st1\<lparr>sv_live := live\<rparr>)))"
      "uncounted st1 (emit ev (EvSnapshot s) (st1\<lparr>sv_live := live\<rparr>))"
      "uncounted st1 (book_failed (st1\<lparr>sv_live := live\<rparr>))" for c w live
    by (rule uncounted_trans [OF _ uncounted_emit], simp add: uncounted_def)+ (simp add: uncounted_def book_failed_def)
  ultimately show ?thesis
    by (auto simp: apply_book_snapshot_def b Let_def split: option.split prod.split sum.split intro: uncounted_trans)
qed

lemma uncounted_delta: "uncounted st (fst (apply_book_delta ev d st))"
proof -
  obtain st1 nb where b: "book_for (bd_sid d) (bd_ticker d) False st = (st1, nb)" by fastforce
  then have "uncounted st st1" using uncounted_book_for [of st "bd_sid d" "bd_ticker d" False] by simp
  moreover have "uncounted st1 (emit ev (EvDelta d) (record_in_taps c w (st1\<lparr>sv_live := live\<rparr>)))"
      "uncounted st1 (emit ev (EvDelta d) (st1\<lparr>sv_live := live\<rparr>))" for c w live
    by (rule uncounted_trans [OF _ uncounted_emit], simp add: uncounted_def)+
  moreover have "uncounted st1 (book_failed (st1\<lparr>sv_live := live\<rparr>))" "uncounted st1 (st1\<lparr>sv_live := live\<rparr>)" for live
    by (simp_all add: uncounted_def book_failed_def)
  ultimately show ?thesis
    by (auto simp: apply_book_delta_def b Let_def split: option.split prod.split sum.split intro: uncounted_trans)
qed

interpretation counting: sup_handlers ev uncounted
proof
  show "outputs st' = outputs st \<Longrightarrow> uncounted st st'" for st st' by (simp add: outputs_def uncounted_def)
qed (auto intro: uncounted_trans uncounted_put uncounted_emit uncounted_send uncounted_books uncounted_snapshot uncounted_delta)

lemma uncounted_frame: "uncounted st (fst (on_frame ev f st))"
proof -
  have "uncounted st (count_frame st)" by (simp add: uncounted_def count_frame_def)
  then show ?thesis
    unfolding on_frame_def by (rule uncounted_trans [OF uncounted_trans [OF _ uncounted_put] counting.interpret_frame_R])
qed

lemma uncounted_frames: "uncounted st (fst (handle_frames ev fs st))"
proof (induction fs arbitrary: st)
  case Nil
  show ?case by (simp add: uncounted_def)
next
  case (Cons f fs)
  show ?case unfolding handle_frames.simps by (rule counting.bind_R [OF uncounted_frame]) (rule Cons.IH)
qed

lemma uncounted_event: "uncounted st (record_connection_event ev e d st)"
proof -
  have "uncounted st (st\<lparr>sv_clock_reads := n\<rparr>)" for n by (simp add: uncounted_def)
  then show ?thesis by (auto simp: record_connection_event_def intro: uncounted_trans [OF _ uncounted_put] split: prod.split)
qed

lemma uncounted_end: "uncounted st (end_connection ev opened detail st)"
proof -
  have "uncounted st (forget_connection st)"
    by (simp add: uncounted_def forget_connection_def publish_subscriptions_def Let_def)
  moreover from this have e: "uncounted st (record_connection_event ev e d (forget_connection st))" for e d
    by (rule uncounted_trans [OF _ uncounted_event])
  moreover have "uncounted st (fold stale_book ts (record_connection_event ev e d (forget_connection st)))" for ts e d
    using e [of e d] stale_books_keep [of ts "record_connection_event ev e d (forget_connection st)"]
    by (auto simp: uncounted_def)
  ultimately show ?thesis by (auto simp: end_connection_def uncounted_def Let_def)
qed

lemma uncounted_consume: "uncounted st (fst (consume ev a st))"
  unfolding consume_def by (rule counting.bind_R [OF uncounted_frames]) (simp add: uncounted_def)

lemma uncounted_opened: "uncounted st (fst (connection_opened ev st))"
proof -
  have "uncounted st (st\<lparr>sv_session := x\<rparr>)" for x by (simp add: uncounted_def)
  then show ?thesis
    unfolding connection_opened_def by (rule uncounted_trans [OF uncounted_trans [OF _ uncounted_event] counting.reconcile_R])
qed

lemma uncounted_connection: "uncounted st (fst (run_connection ev error_text a st))"
proof -
  let ?b = "begin_connection (new_ws_session (at_outcome a)) st"
  have b: "uncounted st ?b"
    by (simp add: uncounted_def begin_connection_def forget_connection_def publish_subscriptions_def Let_def)
  have "uncounted ?b (fst (sv_bind (connection_opened ev ?b) (\<lambda>_ st. consume ev a st)))"
    by (rule counting.bind_R [OF uncounted_opened]) (rule uncounted_consume)
  then show ?thesis
    using b by (auto simp: run_connection_def Let_def split: connect_result.splits prod.splits
        intro!: uncounted_trans [OF _ uncounted_end] intro: uncounted_trans)
qed

text \<open>The loss of one connection, and of a series of them.\<close>

lemma loss_counts:
  assumes "config_error (sv_config st) = None" "0 \<le> sv_consecutive_failures st" "0 \<le> j" "j < 1"
    "sv_frames_this_connection st = 0" "back_off j st = (st', outcome)"
  shows "sv_consecutive_failures st' = sv_consecutive_failures st + 1" "sv_config st' = sv_config st"
    "sv_reconnects st' = sv_reconnects st" "sv_stop_requested st' = sv_stop_requested st"
    "outcome = GiveUp \<longleftrightarrow> (\<exists>limit. cf_max_consecutive_failures (sv_config st) = Some limit \<and> limit \<le> sv_consecutive_failures st)"
    "outcome \<noteq> GiveUp \<Longrightarrow> \<exists>delay. outcome = RetryAfter delay"
proof -
  obtain d where d: "backoff_delay_s (sv_consecutive_failures st) (cf_backoff_initial_ns (sv_config st)) (cf_backoff_max_ns (sv_config st)) j = Inr d"
    by (rule backoff_total [OF assms(1-4)])
  show "sv_consecutive_failures st' = sv_consecutive_failures st + 1" "sv_config st' = sv_config st"
    "sv_reconnects st' = sv_reconnects st" "sv_stop_requested st' = sv_stop_requested st"
    "outcome = GiveUp \<longleftrightarrow> (\<exists>limit. cf_max_consecutive_failures (sv_config st) = Some limit \<and> limit \<le> sv_consecutive_failures st)"
    "outcome \<noteq> GiveUp \<Longrightarrow> \<exists>delay. outcome = RetryAfter delay"
    using assms(5,6) d
    by (cases "cf_max_consecutive_failures (sv_config st)"; auto simp: back_off_def Let_def split: if_splits)+
qed

lemma run_connection_frames: "sv_frames_this_connection (fst (run_connection ev error_text a st)) = 0"
  by (simp add: run_connection_def Let_def end_connection_counts split: prod.split)

end
