(* ===== verification/Reconciled.thy ===== *)
theory Reconciled
  imports Supervision
begin

text \<open>
  Reconciliation (\<^verbatim>\<open>tape/recorder/supervisor.py\<close>, \<^verbatim>\<open>_reconcile_locked\<close>): the walk over the pieces of a
  difference and where it ends, then the replies to the subscribes it sent, and the round the last
  of them starts.
\<close>

section \<open>Reaching the wanted group\<close>

text \<open>A session that is open and takes every command.\<close>

definition healthy :: "supervisor \<Rightarrow> bool" where
  "healthy st \<longleftrightarrow> (\<exists>ss. sv_session st = Some ss \<and> ws_open ss \<and> (\<forall>n. ws_outcome ss n = SendOk))"

text \<open>What a send leaves alone.\<close>

definition tables where
  "tables st = (sv_config st, sv_desired st, sv_applied st, sv_subscriptions st, sv_pending st,
     sv_reconcile_deferred st, sv_firehose_requested st)"

lemma send_healthy:
  assumes "healthy st"
  obtains st' cid where "send_command ev cmd st = (st', Inr cid)" "healthy st'" "tables st' = tables st"
proof -
  obtain ss where ss: "sv_session st = Some ss" "ws_open ss" "\<And>n. ws_outcome ss n = SendOk"
    using assms by (auto simp: healthy_def)
  obtain m w where "ev_clock ev (sv_clock_reads st) = (m, w)" by fastforce
  with ss that show ?thesis
    by (auto simp: send_command_def ws_send_def put_record_def healthy_def tables_def Let_def split: option.splits)
qed

lemma send_all:
  assumes "healthy st" "\<forall>g. piece \<noteq> AddGroup g"
  shows "\<exists>st'. send_commands ev piece cmds st = (st', Inr ()) \<and> healthy st' \<and> tables st' = tables st"
  using assms(1)
proof (induction cmds arbitrary: st)
  case (Cons cmd cmds)
  obtain st1 cid where s: "send_command ev cmd st = (st1, Inr cid)" "healthy st1" "tables st1 = tables st"
    by (rule send_healthy [OF Cons.prems])
  have "(case piece of AddGroup g \<Rightarrow> await_replies cid (gr_group_id g) (cf_group_channels (sv_config st1)) st1 | _ \<Rightarrow> st1) = st1"
    using assms(2) by (cases piece) auto
  then show ?case using Cons.IH [OF s(2)] s by (auto simp: sv_bind_def)
qed (simp)

text \<open>The \<^verbatim>\<open>sid\<close>s of a group.\<close>

definition has_sid :: "string \<Rightarrow> supervisor \<Rightarrow> bool" where
  "has_sid gid st \<longleftrightarrow> list_ex (\<lambda>(_, info). si_group_id info = gid) (sv_subscriptions st)"

lemma sid_of_get:
  "dict_get_or (sid_of st) gid [] = map fst (filter (\<lambda>(_, info). si_group_id info = gid) (sort_key fst (sv_subscriptions st)))"
proof -
  have "dict_get_or (fold (\<lambda>(sid, info) out. dict_put (si_group_id info) (dict_get_or out (si_group_id info) [] @ [sid]) out) xs out) gid [] =
      dict_get_or out gid [] @ map fst (filter (\<lambda>(_, info). si_group_id info = gid) xs)" for xs out
    by (induction xs arbitrary: out) (auto simp: dict_simps)
  from this [of "sort_key fst (sv_subscriptions st)" "[]"] show ?thesis by (simp add: sid_of_def dict_get_or_def)
qed

lemma sids_found: "has_sid gid st \<Longrightarrow> \<exists>found. sids (sid_of st) gid = Inr found"
proof -
  assume "has_sid gid st"
  then have "dict_get_or (sid_of st) gid [] \<noteq> []"
    unfolding sid_of_get has_sid_def by (auto simp: filter_empty_conv list_ex_iff)
  then have "sort (remdups (dict_get_or (sid_of st) gid [])) \<noteq> []" by (metis set_empty set_remdups set_sort)
  then show ?thesis by (simp add: sids_def Let_def)
qed

lemma update_commands: "ts \<noteq> [] \<Longrightarrow> \<exists>cs. result_list (\<lambda>sid. new_update sid action ts) found = Inr cs"
  by (induction found) (auto simp: new_update_def)

lemma membership_commands:
  assumes "has_sid gid st" "ts \<noteq> []" "cf_group_channels (sv_config st) \<noteq> []"
  shows "\<exists>cmds. to_commands [AddMarkets gid ts] (cf_group_channels (sv_config st)) yes (sid_of st) = Inr cmds"
    "\<exists>cmds. to_commands [RemoveMarkets gid ts] (cf_group_channels (sv_config st)) yes (sid_of st) = Inr cmds"
proof -
  obtain found where f: "sids (sid_of st) gid = Inr found" using sids_found [OF assms(1)] by blast
  show "\<exists>cmds. to_commands [AddMarkets gid ts] (cf_group_channels (sv_config st)) yes (sid_of st) = Inr cmds"
    "\<exists>cmds. to_commands [RemoveMarkets gid ts] (cf_group_channels (sv_config st)) yes (sid_of st) = Inr cmds"
    using update_commands [OF assms(2), of AddMarketsAction found] update_commands [OF assms(2), of DeleteMarketsAction found] f assms(3)
    by (auto simp: to_commands_def change_commands_def)
qed

lemma release_books_tables: "tables (release_books ts st) = tables st" "sv_session (release_books ts st) = sv_session st"
  unfolding release_books_def
  by (rule fold_keeps; auto simp: tables_def stale_book_def drop_book_def split: option.splits)+

text \<open>Membership changes of a live subscription go through one after the other.\<close>

fun moved :: "plan_change list \<Rightarrow> string set \<Rightarrow> string set" where
  "moved [] ts = ts"
| "moved (AddMarkets _ xs # cs) ts = moved cs (ts \<union> set xs)"
| "moved (RemoveMarkets _ xs # cs) ts = moved cs (ts - set xs)"
| "moved (_ # cs) ts = moved cs ts"

definition membership_of :: "string \<Rightarrow> plan_change \<Rightarrow> bool" where
  "membership_of gid c \<longleftrightarrow> (\<exists>ts. ts \<noteq> [] \<and> (c = AddMarkets gid ts \<or> c = RemoveMarkets gid ts))"

lemma membership_pieces:
  assumes "list_all (membership_of gid) ps" "sv_applied st = Some g" "gr_group_id g = gid"
    "healthy st" "has_sid gid st" "\<not> subscribing gid st" "cf_group_channels (sv_config st) \<noteq> []"
  shows "\<exists>st'. reconcile_pieces ev ps st = (st', Inr True) \<and> healthy st' \<and>
    sv_applied st' = Some (g\<lparr>gr_tickers := moved ps (gr_tickers g)\<rparr>) \<and> sv_desired st' = sv_desired st \<and>
    sv_reconcile_deferred st' = sv_reconcile_deferred st \<and> sv_pending st' = sv_pending st"
  using assms
proof (induction ps arbitrary: st g)
  case (Cons p ps)
  have "membership_of gid p" and ps: "list_all (membership_of gid) ps" using Cons.prems(1) by simp_all
  then obtain ts where p: "ts \<noteq> []" "p = AddMarkets gid ts \<or> p = RemoveMarkets gid ts"
    unfolding membership_of_def by blast
  obtain cmds where cmds: "to_commands [p] (cf_group_channels (sv_config st)) (group_use_yes_price (sv_config st)) (sid_of st) = Inr cmds"
    using membership_commands [OF Cons.prems(5) p(1) Cons.prems(7)] p(2) by blast
  obtain st1 where s: "send_commands ev p cmds st = (st1, Inr ())" "healthy st1" "tables st1 = tables st"
    using send_all [OF Cons.prems(4), of p ev cmds] p(2) by auto
  have app: "sv_applied st1 = Some g" using s(3) Cons.prems(2) by (simp add: tables_def)
  define g' where "g' = g\<lparr>gr_tickers := moved [p] (gr_tickers g)\<rparr>"
  define st2 where "st2 = (if p = AddMarkets gid ts then st1\<lparr>sv_applied := Some g'\<rparr>
      else release_books ts (st1\<lparr>sv_applied := Some g'\<rparr>))"
  have rec: "record_plan_change p st1 = (st2, Inr ())"
    using p(2) app Cons.prems(3)
    by (elim disjE) (simp_all add: record_plan_change_def applied_group_def st2_def g'_def)
  have t2: "tables st2 = tables (st1\<lparr>sv_applied := Some g'\<rparr>)" "sv_session st2 = sv_session st1"
    using release_books_tables [of ts "st1\<lparr>sv_applied := Some g'\<rparr>"] by (simp_all add: st2_def)
  have piece: "send_piece ev p st = (st2, Inr ())"
    by (simp add: send_piece_def cmds s sv_bind_def rec)
  have step: "reconcile_pieces ev (p # ps) st = reconcile_pieces ev ps st2"
    using Cons.prems(6) p(2) piece by (auto simp: piece_group_def sv_bind_def)
  have moved: "moved ps (moved [p] (gr_tickers g)) = moved (p # ps) (gr_tickers g)" using p(2) by auto
  have "\<exists>st'. reconcile_pieces ev ps st2 = (st', Inr True) \<and> healthy st' \<and>
    sv_applied st' = Some (g'\<lparr>gr_tickers := moved ps (gr_tickers g')\<rparr>) \<and> sv_desired st' = sv_desired st2 \<and>
    sv_reconcile_deferred st' = sv_reconcile_deferred st2 \<and> sv_pending st' = sv_pending st2"
    by (rule Cons.IH)
      (use ps t2 s(2,3) Cons.prems in \<open>simp_all add: tables_def g'_def healthy_def has_sid_def subscribing_def\<close>)
  then show ?case
    using step moved t2 s(3) by (simp add: g'_def tables_def)
qed simp

text \<open>The walk over pieces is one walk, whatever changes they come from.\<close>

lemma reconcile_pieces_append:
  "reconcile_pieces ev (xs @ ys) st =
     sv_bind (reconcile_pieces ev xs st) (\<lambda>go_on st. if go_on then reconcile_pieces ev ys st else (st, Inr False))"
proof (induction xs arbitrary: st)
  case Nil
  show ?case by (simp add: sv_bind_def)
next
  case (Cons x xs)
  show ?case
  proof (cases "case piece_group x of None \<Rightarrow> False | Some gid \<Rightarrow> subscribing gid st")
    case True
    then show ?thesis by (simp add: sv_bind_def)
  next
    case False
    obtain st1 r where "send_piece ev x st = (st1, r)" by fastforce
    with False Cons.IH show ?thesis by (cases r) (simp_all add: sv_bind_def)
  qed
qed

lemma reconcile_pieces_config: "sv_config (fst (reconcile_pieces ev ps st)) = sv_config st"
proof (induction ps arbitrary: st)
  case (Cons p ps)
  have "sv_config (fst (sv_bind (send_piece ev p st) (\<lambda>_ st. reconcile_pieces ev ps st))) = sv_config st"
    by (rule sv_bind_config) (simp_all add: Cons.IH)
  then show ?case by simp
qed simp

lemma reconcile_flat:
  "result_list (\<lambda>c. split_change c (cf_max_markets_per_command (sv_config st))) cs = Inr pss \<Longrightarrow>
   reconcile_changes ev cs st = reconcile_pieces ev (concat pss) st"
proof (induction cs arbitrary: st pss)
  case (Cons c cs)
  then obtain ps rest where r: "split_change c (cf_max_markets_per_command (sv_config st)) = Inr ps" "pss = ps # rest"
      "result_list (\<lambda>c. split_change c (cf_max_markets_per_command (sv_config st))) cs = Inr rest"
    by (auto simp: result_simps)
  have "reconcile_changes ev cs st1 = reconcile_pieces ev (concat rest) st1" if "sv_config st1 = sv_config st" for st1
    using Cons.IH [of st1 rest] r(3) that by simp
  moreover obtain st1 x where p: "reconcile_pieces ev ps st = (st1, x)" by fastforce
  moreover have "sv_config st1 = sv_config st" using reconcile_pieces_config [of ev ps st] p by simp
  ultimately show ?case
    by (cases x) (simp_all add: r reconcile_pieces_append sv_bind_def)
qed simp

lemma split_markets_parts:
  assumes "1 \<le> k" "ts \<noteq> []"
  obtains tss where "split_markets mk gid ts k = map (mk gid) tss" "concat tss = ts" "list_all (\<lambda>x. x \<noteq> []) tss"
proof (cases "int (length ts) \<le> k")
  case True
  then show ?thesis using assms by (intro that [of "[ts]"]) (simp_all add: split_markets_def)
next
  case False
  then show ?thesis
    using chunks_parts [OF assms(1), of ts] by (intro that [of "chunks (nat k) ts"]) (simp_all add: split_markets_def)
qed

text \<open>A group subscribed: its first batch, and the rest once it is answered.\<close>

lemma subscribe_piece:
  assumes "healthy st" "wf_group g" "cf_group_channels (sv_config st) \<noteq> []"
  shows "\<exists>st'. send_piece ev (AddGroup g) st = (st', Inr ()) \<and> healthy st' \<and> sv_applied st' = Some g \<and>
    sv_desired st' = sv_desired st \<and> sv_reconcile_deferred st' = sv_reconcile_deferred st \<and>
    subscribing (gr_group_id g) st' \<and> sv_config st' = sv_config st"
proof -
  have "sorted_list_of_set (gr_tickers g) \<noteq> []" using assms(2) by (auto simp: wf_group_def)
  then obtain cmd where cmd: "to_commands [AddGroup g] (cf_group_channels (sv_config st)) (group_use_yes_price (sv_config st)) (sid_of st) = Inr [cmd]"
    using assms(3) by (auto simp: to_commands_def change_commands_def new_subscribe_def)
  obtain st1 cid where s: "send_command ev cmd st = (st1, Inr cid)" "healthy st1" "tables st1 = tables st"
    by (rule send_healthy [OF assms(1)])
  have "list_ex (\<lambda>(_, p). pd_group_id p = gid) (dict_put cid \<lparr>pd_group_id = gid, pd_channels = cs\<rparr> d)" for gid cs d
    by (induction d) auto
  then show ?thesis
    using s by (simp add: send_piece_def cmd sv_bind_def record_plan_change_def tables_def await_replies_def healthy_def subscribing_def)
qed

lemma subscribe_pieces:
  assumes "healthy st" "wf_group g" "cf_group_channels (sv_config st) \<noteq> []" "1 \<le> k" "split_change (AddGroup g) k = Inr ps"
  shows "\<exists>st' go_on. reconcile_pieces ev ps st = (st', Inr go_on) \<and> healthy st' \<and> sv_desired st' = sv_desired st \<and>
    (if go_on then sv_applied st' = Some g \<and> sv_reconcile_deferred st' = sv_reconcile_deferred st
     else sv_reconcile_deferred st' \<and> subscribing (gr_group_id g) st' \<and>
       (\<exists>h. sv_applied st' = Some h \<and> gr_group_id h = gr_group_id g \<and> \<not> must_rebuild h g \<and> wf_group h))"
proof -
  let ?ts = "sorted_list_of_set (gr_tickers g)"
  show ?thesis
  proof (cases "int (length ?ts) \<le> k")
    case True
    then have "ps = [AddGroup g]" using assms(4,5) by (simp add: split_change_def)
    moreover obtain st1 where s: "send_piece ev (AddGroup g) st = (st1, Inr ())" "healthy st1" "sv_applied st1 = Some g"
        "sv_desired st1 = sv_desired st" "sv_reconcile_deferred st1 = sv_reconcile_deferred st"
      using subscribe_piece [OF assms(1-3), of ev] by blast
    ultimately have "reconcile_pieces ev ps st = (st1, Inr True)" by (simp add: piece_group_def sv_bind_def)
    with s show ?thesis by (intro exI [of _ st1] exI [of _ True]) simp
  next
    case False
    define h where "h = g\<lparr>gr_tickers := set (take (nat k) ?ts)\<rparr>"
    have ps: "ps = AddGroup h # split_markets AddMarkets (gr_group_id g) (drop (nat k) ?ts) k"
      using False assms(4,5) by (simp add: split_change_def Let_def h_def)
    have "nat k < length ?ts" using False assms(4) by linarith
    then have "drop (nat k) ?ts \<noteq> []" by simp
    then obtain tss where tss: "split_markets AddMarkets (gr_group_id g) (drop (nat k) ?ts) k = map (AddMarkets (gr_group_id g)) tss"
        "concat tss = drop (nat k) ?ts"
      by (rule split_markets_parts [OF assms(4)])
    with \<open>drop (nat k) ?ts \<noteq> []\<close> obtain us rest
      where us: "split_markets AddMarkets (gr_group_id g) (drop (nat k) ?ts) k = AddMarkets (gr_group_id g) us # rest"
      by (cases tss) auto
    have fin: "finite (gr_tickers g)" using assms(2) by (simp add: wf_group_def)
    have "take (nat k) ?ts \<noteq> []" using \<open>nat k < length ?ts\<close> assms(4) by (cases ?ts) auto
    then have part: "set (take (nat k) ?ts) \<noteq> {}" "set (take (nat k) ?ts) \<subseteq> gr_tickers g"
      using set_take_subset [of "nat k" ?ts] fin by auto
    then have "gr_tickers h \<inter> gr_tickers g \<noteq> {}" by (simp add: h_def Int_absorb2 del: set_empty)
    with part have h: "wf_group h" "gr_group_id h = gr_group_id g" "\<not> must_rebuild h g"
      using assms(2) by (simp_all add: wf_group_def h_def must_rebuild_def)
    obtain st1 where s: "send_piece ev (AddGroup h) st = (st1, Inr ())" "healthy st1" "sv_applied st1 = Some h"
        "sv_desired st1 = sv_desired st" "subscribing (gr_group_id h) st1"
      using subscribe_piece [OF assms(1) h(1) assms(3), of ev] by blast
    have "reconcile_pieces ev ps st = (st1\<lparr>sv_reconcile_deferred := True\<rparr>, Inr False)"
      using s(1,5) h(2) by (simp add: ps us piece_group_def sv_bind_def)
    then show ?thesis
      using s h by (intro exI [of _ "st1\<lparr>sv_reconcile_deferred := True\<rparr>"] exI [of _ False]) (simp add: healthy_def subscribing_def)
  qed
qed

lemma moved_append: "moved (xs @ ys) ts = moved ys (moved xs ts)"
proof (induction xs arbitrary: ts)
  case (Cons x xs)
  then show ?case by (cases x) simp_all
qed simp

lemma moved_parts:
  "moved (map (AddMarkets gid) tss) ts = ts \<union> set (concat tss)"
  "moved (map (RemoveMarkets gid) tss) ts = ts - set (concat tss)"
  by (induction tss arbitrary: ts) auto

lemma membership_parts:
  "list_all (\<lambda>x. x \<noteq> []) tss \<Longrightarrow> list_all (membership_of gid) (map (AddMarkets gid) tss)"
  "list_all (\<lambda>x. x \<noteq> []) tss \<Longrightarrow> list_all (membership_of gid) (map (RemoveMarkets gid) tss)"
  by (auto simp: list_all_iff membership_of_def)

lemma split_change_markets:
  assumes "1 \<le> k" "finite xs"
  shows "\<exists>pss. result_list (\<lambda>c. split_change c k) (market_change AddMarkets gid xs) = Inr pss \<and>
      list_all (membership_of gid) (concat pss) \<and> moved (concat pss) ts = ts \<union> xs"
    "\<exists>pss. result_list (\<lambda>c. split_change c k) (market_change RemoveMarkets gid xs) = Inr pss \<and>
      list_all (membership_of gid) (concat pss) \<and> moved (concat pss) ts = ts - xs"
proof -
  let ?xs = "sorted_list_of_set xs"
  have ne: "?xs \<noteq> []" if "xs \<noteq> {}" using that assms(2) by auto
  show "\<exists>pss. result_list (\<lambda>c. split_change c k) (market_change AddMarkets gid xs) = Inr pss \<and>
      list_all (membership_of gid) (concat pss) \<and> moved (concat pss) ts = ts \<union> xs"
  proof (cases "xs = {}")
    case False
    obtain tss where "split_markets AddMarkets gid ?xs k = map (AddMarkets gid) tss" "concat tss = ?xs" "list_all (\<lambda>x. x \<noteq> []) tss"
      by (rule split_markets_parts [OF assms(1) ne [OF False]])
    with False assms show ?thesis
      by (intro exI [of _ "[map (AddMarkets gid) tss]"])
        (simp add: market_change_def split_change_def moved_parts membership_parts del: set_concat)
  qed (simp add: market_change_def)
  show "\<exists>pss. result_list (\<lambda>c. split_change c k) (market_change RemoveMarkets gid xs) = Inr pss \<and>
      list_all (membership_of gid) (concat pss) \<and> moved (concat pss) ts = ts - xs"
  proof (cases "xs = {}")
    case False
    obtain tss where "split_markets RemoveMarkets gid ?xs k = map (RemoveMarkets gid) tss" "concat tss = ?xs" "list_all (\<lambda>x. x \<noteq> []) tss"
      by (rule split_markets_parts [OF assms(1) ne [OF False]])
    with False assms show ?thesis
      by (intro exI [of _ "[map (RemoveMarkets gid) tss]"])
        (simp add: market_change_def split_change_def moved_parts membership_parts del: set_concat)
  qed (simp add: market_change_def)
qed

lemma result_list_append:
  "result_list f xs = Inr as \<Longrightarrow> result_list f ys = Inr bs \<Longrightarrow> result_list f (xs @ ys) = Inr (as @ bs)"
  by (induction xs arbitrary: as) (auto simp: result_simps)

text \<open>Leaving a group: one unsubscribe, and no group applied.\<close>

lemma unsubscribe_piece:
  assumes "healthy st" "sv_applied st = Some g" "has_sid (gr_group_id g) st" "cf_group_channels (sv_config st) \<noteq> []"
  shows "\<exists>st'. send_piece ev (RemoveGroup (gr_group_id g)) st = (st', Inr ()) \<and> healthy st' \<and> sv_applied st' = None \<and>
    sv_desired st' = sv_desired st \<and> sv_reconcile_deferred st' = sv_reconcile_deferred st \<and> sv_config st' = sv_config st"
proof -
  let ?gid = "gr_group_id g"
  obtain found where f: "sids (sid_of st) ?gid = Inr found" using sids_found [OF assms(3)] by blast
  have cmds: "to_commands [RemoveGroup ?gid] (cf_group_channels (sv_config st)) (group_use_yes_price (sv_config st)) (sid_of st) =
      Inr [UnsubscribeCommand found]"
    using f assms(4) by (simp add: to_commands_def change_commands_def)
  obtain st1 where s: "send_commands ev (RemoveGroup ?gid) [UnsubscribeCommand found] st = (st1, Inr ())" "healthy st1" "tables st1 = tables st"
    using send_all [OF assms(1), of "RemoveGroup ?gid" ev "[UnsubscribeCommand found]"] by auto
  let ?st2 = "publish_subscriptions (forget_sids ?gid (st1\<lparr>sv_applied := None\<rparr>))"
  let ?ts = "sorted_list_of_set (gr_tickers g)"
  have forgot: "sv_desired (forget_sids gid st) = sv_desired st" "sv_reconcile_deferred (forget_sids gid st) = sv_reconcile_deferred st"
      "sv_session (forget_sids gid st) = sv_session st" for gid st
    unfolding forget_sids_def by (rule fold_keeps; simp split: prod.split)+
  have "record_plan_change (RemoveGroup ?gid) st1 = (release_books ?ts ?st2, Inr ())"
    using s(3) assms(2) by (simp add: record_plan_change_def applied_group_def tables_def)
  then have "send_piece ev (RemoveGroup ?gid) st = (release_books ?ts ?st2, Inr ())"
    by (simp add: send_piece_def cmds s sv_bind_def del: send_commands.simps)
  moreover have "tables (release_books ?ts ?st2) = tables ?st2" "sv_session (release_books ?ts ?st2) = sv_session st1"
    using release_books_tables [of ?ts ?st2] forgot(3) by (simp_all add: publish_subscriptions_def)
  ultimately show ?thesis
    using s(2,3) forgot by (simp add: tables_def healthy_def publish_subscriptions_def)
qed

definition settled :: "supervisor \<Rightarrow> supervisor \<Rightarrow> bool \<Rightarrow> bool" where
  "settled st st' go_on \<longleftrightarrow>
     (if go_on then sv_applied st' = sv_desired st \<and> sv_reconcile_deferred st' = sv_reconcile_deferred st
      else sv_reconcile_deferred st' \<and> (\<exists>g h. sv_desired st = Some g \<and> sv_applied st' = Some h \<and> subscribing (gr_group_id g) st' \<and>
        gr_group_id h = gr_group_id g \<and> \<not> must_rebuild h g \<and> wf_group h))"

definition keeps_subscription :: "supervisor \<Rightarrow> bool" where
  "keeps_subscription st \<longleftrightarrow> (case (sv_applied st, sv_desired st) of
     (Some g, Some h) \<Rightarrow> gr_group_id g = gr_group_id h \<and> \<not> must_rebuild g h | _ \<Rightarrow> False)"

lemma changes_settle:
  assumes "healthy st" "cf_group_channels (sv_config st) \<noteq> []" "1 \<le> cf_max_markets_per_command (sv_config st)"
    "\<forall>g. sv_applied st = Some g \<or> sv_desired st = Some g \<longrightarrow> wf_group g"
    "\<forall>g. sv_applied st = Some g \<longrightarrow> has_sid (gr_group_id g) st \<and> \<not> subscribing (gr_group_id g) st"
  shows "\<exists>st' go_on. reconcile_changes ev (plan_diff (plan_of (sv_applied st)) (plan_of (sv_desired st))) st = (st', Inr go_on) \<and>
    sv_desired st' = sv_desired st \<and> settled st st' go_on \<and> (keeps_subscription st \<longrightarrow> go_on)"
proof -
  let ?k = "cf_max_markets_per_command (sv_config st)"
  show ?thesis
  proof (cases "keeps_subscription st")
    case True
    then obtain g h where gh: "sv_applied st = Some g" "sv_desired st = Some h" "gr_group_id g = gr_group_id h" "\<not> must_rebuild g h"
      by (auto simp: keeps_subscription_def split: option.splits)
    let ?rs = "gr_tickers g - gr_tickers h" and ?as = "gr_tickers h - gr_tickers g"
    have fin: "finite ?rs" "finite ?as" using assms(4) gh by (auto simp: wf_group_def)
    obtain ps qs where p: "result_list (\<lambda>c. split_change c ?k) (market_change RemoveMarkets (gr_group_id g) ?rs) = Inr ps"
        "list_all (membership_of (gr_group_id g)) (concat ps)" "moved (concat ps) (gr_tickers g) = gr_tickers g - ?rs"
      and q: "result_list (\<lambda>c. split_change c ?k) (market_change AddMarkets (gr_group_id g) ?as) = Inr qs"
        "list_all (membership_of (gr_group_id g)) (concat qs)" "moved (concat qs) (gr_tickers g - ?rs) = (gr_tickers g - ?rs) \<union> ?as"
      using split_change_markets [OF assms(3) fin(1)] split_change_markets [OF assms(3) fin(2)] by metis
    have flat: "reconcile_changes ev (plan_diff (plan_of (sv_applied st)) (plan_of (sv_desired st))) st =
        reconcile_pieces ev (concat (ps @ qs)) st"
      using gh result_list_append [OF p(1) q(1)] by (intro reconcile_flat) (simp add: one_group_diff)
    have "moved (concat (ps @ qs)) (gr_tickers g) = gr_tickers h" using p(3) q(3) by (auto simp: moved_append)
    moreover have "g\<lparr>gr_tickers := gr_tickers h\<rparr> = h" using gh(3,4) by (simp add: must_rebuild_def)
    moreover have "list_all (membership_of (gr_group_id g)) (concat (ps @ qs))" using p(2) q(2) by simp
    ultimately obtain st' where "reconcile_pieces ev (concat (ps @ qs)) st = (st', Inr True)" "sv_applied st' = Some h"
        "sv_desired st' = sv_desired st" "sv_reconcile_deferred st' = sv_reconcile_deferred st"
      using membership_pieces [of "gr_group_id g" "concat (ps @ qs)" st g ev] gh(1) assms(1,2,5) by auto
    with flat gh(2) show ?thesis by (auto simp: settled_def)
  next
    case False
    have join: "\<exists>st' go_on. reconcile_changes ev [AddGroup h] st1 = (st', Inr go_on) \<and>
        sv_desired st' = sv_desired st \<and> settled st st' go_on"
      if h: "sv_desired st = Some h" "healthy st1" "sv_config st1 = sv_config st" "sv_desired st1 = sv_desired st"
        "sv_reconcile_deferred st1 = sv_reconcile_deferred st" for st1 h
    proof -
      obtain ps where ps: "split_change (AddGroup h) ?k = Inr ps" using split_change_total [OF assms(3)] by blast
      have "reconcile_changes ev [AddGroup h] st1 = reconcile_pieces ev ps st1"
        using reconcile_flat [of st1 "[AddGroup h]" "[ps]" ev] ps h(3) by simp
      moreover obtain st' go_on where "reconcile_pieces ev ps st1 = (st', Inr go_on)" "sv_desired st' = sv_desired st1"
          "if go_on then sv_applied st' = Some h \<and> sv_reconcile_deferred st' = sv_reconcile_deferred st1
           else sv_reconcile_deferred st' \<and> subscribing (gr_group_id h) st' \<and>
             (\<exists>h'. sv_applied st' = Some h' \<and> gr_group_id h' = gr_group_id h \<and> \<not> must_rebuild h' h \<and> wf_group h')"
        using subscribe_pieces [OF h(2) _ _ assms(3) ps, of ev] assms(2,4) h(1,3) by auto
      ultimately show ?thesis using h by (intro exI [of _ st'] exI [of _ go_on]) (cases go_on; auto simp: settled_def)
    qed
    have leave: "\<exists>st1. reconcile_changes ev (RemoveGroup (gr_group_id g) # cs) st = reconcile_changes ev cs st1 \<and>
        healthy st1 \<and> sv_applied st1 = None \<and> sv_config st1 = sv_config st \<and> sv_desired st1 = sv_desired st \<and>
        sv_reconcile_deferred st1 = sv_reconcile_deferred st"
      if g: "sv_applied st = Some g" for g cs
    proof -
      obtain st1 where s: "send_piece ev (RemoveGroup (gr_group_id g)) st = (st1, Inr ())" "healthy st1" "sv_applied st1 = None"
          "sv_desired st1 = sv_desired st" "sv_reconcile_deferred st1 = sv_reconcile_deferred st" "sv_config st1 = sv_config st"
        using unsubscribe_piece [OF assms(1) g _ assms(2), of ev] assms(5) g by blast
      have "split_change (RemoveGroup (gr_group_id g)) ?k = Inr [RemoveGroup (gr_group_id g)]"
        using assms(3) by (simp add: split_change_def)
      with s show ?thesis by (intro exI [of _ st1]) (simp add: piece_group_def sv_bind_def)
    qed
    show ?thesis
    proof (cases "sv_applied st")
      case None
      show ?thesis
      proof (cases "sv_desired st")
        case (Some h)
        with join [OF Some assms(1)] None False show ?thesis by (simp add: one_group_diff)
      qed (use None False in \<open>auto simp: one_group_diff settled_def\<close>)
    next
      case (Some g)
      note g = this
      show ?thesis
      proof (cases "sv_desired st")
        case None
        obtain st1 where "reconcile_changes ev [RemoveGroup (gr_group_id g)] st = (st1, Inr True)" "sv_applied st1 = None"
            "sv_desired st1 = sv_desired st" "sv_reconcile_deferred st1 = sv_reconcile_deferred st"
          using leave [OF g, of "[]"] by auto
        with g None False show ?thesis by (auto simp: one_group_diff settled_def)
      next
        case (Some h)
        have diff: "plan_diff (plan_of (sv_applied st)) (plan_of (sv_desired st)) = [RemoveGroup (gr_group_id g), AddGroup h]"
          using g Some False by (auto simp: one_group_diff keeps_subscription_def)
        obtain st1 where "reconcile_changes ev [RemoveGroup (gr_group_id g), AddGroup h] st = reconcile_changes ev [AddGroup h] st1"
            "healthy st1" "sv_config st1 = sv_config st" "sv_desired st1 = sv_desired st"
            "sv_reconcile_deferred st1 = sv_reconcile_deferred st"
          using leave [OF g, of "[AddGroup h]"] by blast
        with join [OF Some] diff False show ?thesis by simp
      qed
    qed
  qed
qed

lemma firehose_healthy:
  assumes "healthy st" "sv_pending st = []"
  shows "\<exists>st'. subscribe_firehose ev st = (st', Inr ()) \<and> healthy st' \<and> sv_config st' = sv_config st \<and>
    sv_desired st' = sv_desired st \<and> sv_applied st' = sv_applied st \<and> sv_subscriptions st' = sv_subscriptions st \<and>
    sv_reconcile_deferred st' = sv_reconcile_deferred st \<and> (\<forall>gid. gid \<noteq> FIREHOSE_GROUP_ID \<longrightarrow> \<not> subscribing gid st')"
proof (cases "cf_firehose_channels (sv_config st) = [] \<or> sv_firehose_requested st")
  case True
  then show ?thesis using assms by (auto simp: subscribe_firehose_def subscribing_def)
next
  case False
  let ?st = "st\<lparr>sv_firehose_requested := True\<rparr>"
  let ?cmd = "SubscribeCommand (cf_firehose_channels (sv_config st)) None None None"
  have "healthy ?st" using assms(1) by (simp add: healthy_def)
  then obtain st1 cid where s: "send_command ev ?cmd ?st = (st1, Inr cid)" "healthy st1" "tables st1 = tables ?st"
    by (rule send_healthy)
  then show ?thesis
    using False assms(2)
    by (simp add: subscribe_firehose_def Let_def sv_bind_def await_replies_def healthy_def subscribing_def tables_def)
qed

lemma reconcile_settles:
  assumes "healthy st" "sv_pending st = []" "cf_group_channels (sv_config st) \<noteq> []"
    "1 \<le> cf_max_markets_per_command (sv_config st)"
    "\<forall>g. sv_applied st = Some g \<or> sv_desired st = Some g \<longrightarrow> wf_group g"
    "\<forall>g. sv_applied st = Some g \<longrightarrow> has_sid (gr_group_id g) st \<and> gr_group_id g \<noteq> FIREHOSE_GROUP_ID"
  shows "\<exists>st' go_on. reconcile ev st = (st', Inr ()) \<and> sv_desired st' = sv_desired st \<and> settled st st' go_on \<and>
    (keeps_subscription st \<longrightarrow> go_on)"
proof -
  obtain st1 where f: "subscribe_firehose ev st = (st1, Inr ())" "healthy st1" "sv_config st1 = sv_config st"
      "sv_desired st1 = sv_desired st" "sv_applied st1 = sv_applied st" "sv_subscriptions st1 = sv_subscriptions st"
      "sv_reconcile_deferred st1 = sv_reconcile_deferred st" "\<And>gid. gid \<noteq> FIREHOSE_GROUP_ID \<Longrightarrow> \<not> subscribing gid st1"
    using firehose_healthy [OF assms(1,2), of ev] by blast
  have sid: "has_sid gid st1 = has_sid gid st" for gid using f(6) by (simp add: has_sid_def)
  have "settled st1 st' b = settled st st' b" "keeps_subscription st1 = keeps_subscription st" for st' b
    using f by (simp_all add: settled_def keeps_subscription_def)
  moreover obtain st' go_on where "reconcile_changes ev (plan_diff (plan_of (sv_applied st1)) (plan_of (sv_desired st1))) st1 = (st', Inr go_on)"
      "sv_desired st' = sv_desired st1" "settled st1 st' go_on" "keeps_subscription st1 \<longrightarrow> go_on"
    using changes_settle [OF f(2), of ev] assms(3-6) f(3-5,8) sid by auto
  moreover obtain ss where "sv_session st = Some ss" "ws_open ss" using assms(1) by (auto simp: healthy_def)
  ultimately show ?thesis
    using f(1,4) assms(2) by (auto simp: reconcile_def sv_bind_def)
qed

section \<open>The round after the replies\<close>

text \<open>A healthy session stays healthy, whatever a handler does.\<close>

definition steady :: "supervisor \<Rightarrow> supervisor \<Rightarrow> bool" where
  "steady st st' \<longleftrightarrow> sv_config st' = sv_config st \<and> (healthy st \<longrightarrow> healthy st')"

lemma steady_same: "sv_config st' = sv_config st \<Longrightarrow> sv_session st' = sv_session st \<Longrightarrow> steady st st'"
  by (simp add: steady_def healthy_def)

lemma steady_send: "steady st (fst (send_command ev cmd st))"
proof -
  have "healthy (fst (send_command ev cmd st))" if "healthy st"
    by (rule send_healthy [OF that, of ev cmd]) simp
  then show ?thesis by (simp add: steady_def)
qed

interpretation steadying: sup_handlers ev steady
proof
  show "steady st st1 \<Longrightarrow> steady st1 st2 \<Longrightarrow> steady st st2" for st st1 st2 by (simp add: steady_def)
qed (auto simp: outputs_def apply_book_sink intro: steady_same steady_send)

text \<open>Subscribes not answered yet: the commands, and the channels each still waits for.\<close>

definition outstanding :: "supervisor \<Rightarrow> (int \<times> string) set" where
  "outstanding st = {(cid, ch). \<exists>p. dict_get (sv_pending st) cid = Some p \<and> ch \<in> pd_channels p}"

definition waits_ok :: "supervisor \<Rightarrow> bool" where
  "waits_ok st \<longleftrightarrow> cf_group_channels (sv_config st) \<noteq> [] \<and> dict_wf (sv_pending st) \<and>
     (\<forall>cid p. dict_get (sv_pending st) cid = Some p \<longrightarrow> pd_channels p \<noteq> {})"

lemma outstanding_none:
  assumes "waits_ok st"
  shows "outstanding st = {} \<longleftrightarrow> sv_pending st = []"
proof
  assume none: "outstanding st = {}"
  have "dict_get (sv_pending st) cid = None" for cid
  proof (rule ccontr)
    assume "dict_get (sv_pending st) cid \<noteq> None"
    then obtain p where "dict_get (sv_pending st) cid = Some p" by blast
    moreover from this assms obtain ch where "ch \<in> pd_channels p" unfolding waits_ok_def by blast
    ultimately show False using none unfolding outstanding_def by blast
  qed
  then show "sv_pending st = []" by (simp add: dict_empty_iff)
qed (simp add: outstanding_def)

lemma waits_bind:
  "waits_ok (fst r) \<Longrightarrow> (\<And>x st. waits_ok st \<Longrightarrow> waits_ok (fst (f x st))) \<Longrightarrow> waits_ok (fst (sv_bind r f))"
  by (cases r) (auto simp: sv_bind_def split: sum.splits)

lemma waits_same: "sv_pending st' = sv_pending st \<Longrightarrow> sv_config st' = sv_config st \<Longrightarrow> waits_ok st' = waits_ok st"
  by (simp add: waits_ok_def)

lemma await_ok: "waits_ok st \<Longrightarrow> channels \<noteq> [] \<Longrightarrow> waits_ok (await_replies cid gid channels st)"
  by (auto simp: waits_ok_def await_replies_def dict_simps)

lemma send_command_ok: "waits_ok st \<Longrightarrow> waits_ok (fst (send_command ev cmd st))"
  by (auto simp: waits_ok_def send_command_def put_record_def Let_def split: prod.split option.split sum.split)

lemma record_change_ok: "waits_ok st \<Longrightarrow> waits_ok (fst (record_plan_change c st))"
proof -
  assume ok: "waits_ok st"
  have released: "sv_pending (release_books ts st) = sv_pending st" for ts st
    using release_books_tables(1) [of ts st] by (simp add: tables_def)
  have forgot: "sv_pending (forget_sids gid st) = sv_pending st" for gid st
    unfolding forget_sids_def by (rule fold_keeps) (simp split: prod.split)
  have "sv_pending (fst (record_plan_change c st)) = sv_pending st"
    using released forgot by (simp add: record_plan_change_def publish_subscriptions_def split: plan_change.split sum.split)
  then show ?thesis using ok waits_same [of "fst (record_plan_change c st)" st] by simp
qed

lemma send_commands_ok: "waits_ok st \<Longrightarrow> waits_ok (fst (send_commands ev piece cmds st))"
proof (induction cmds arbitrary: st)
  case (Cons cmd cmds)
  have "waits_ok (case piece of AddGroup g \<Rightarrow> await_replies cid (gr_group_id g) (cf_group_channels (sv_config st)) st | _ \<Rightarrow> st)"
    if "waits_ok st" for cid st using that await_ok [OF that, of "cf_group_channels (sv_config st)"] by (cases piece) (simp_all add: waits_ok_def)
  then show ?case
    unfolding send_commands.simps by (intro waits_bind send_command_ok Cons.prems Cons.IH)
qed simp

lemma send_piece_ok: "waits_ok st \<Longrightarrow> waits_ok (fst (send_piece ev piece st))"
  unfolding send_piece_def
  by (auto intro!: waits_bind send_commands_ok record_change_ok split: sum.split)

lemma reconcile_pieces_ok: "waits_ok st \<Longrightarrow> waits_ok (fst (reconcile_pieces ev ps st))"
proof (induction ps arbitrary: st)
  case (Cons p ps)
  have "waits_ok (st\<lparr>sv_reconcile_deferred := True\<rparr>)" using Cons.prems by (simp add: waits_ok_def)
  moreover have "waits_ok (fst (sv_bind (send_piece ev p st) (\<lambda>_ st. reconcile_pieces ev ps st)))"
    by (intro waits_bind send_piece_ok Cons.prems Cons.IH)
  ultimately show ?case by simp
qed simp

lemma reconcile_changes_ok: "waits_ok st \<Longrightarrow> waits_ok (fst (reconcile_changes ev cs st))"
proof (induction cs arbitrary: st)
  case (Cons c cs)
  have "waits_ok (fst (sv_bind (reconcile_pieces ev ps st)
      (\<lambda>go_on st. if go_on then reconcile_changes ev cs st else (st, Inr False))))" for ps
    using Cons.IH by (intro waits_bind reconcile_pieces_ok Cons.prems) simp
  with Cons.prems show ?case by (simp split: sum.split)
qed simp

lemma reconcile_ok:
  assumes "waits_ok st"
  shows "waits_ok (fst (reconcile ev st))"
proof -
  have "waits_ok (st\<lparr>sv_firehose_requested := x\<rparr>)" "waits_ok (st\<lparr>sv_reconcile_deferred := y\<rparr>)" for x y
    using assms by (simp_all add: waits_ok_def)
  moreover from this have "waits_ok (fst (subscribe_firehose ev st))"
    unfolding subscribe_firehose_def Let_def
    using assms by (auto intro!: waits_bind await_ok send_command_ok)
  ultimately show ?thesis
    unfolding reconcile_def using assms
    by (auto intro!: waits_bind reconcile_changes_ok split: option.split)
qed


text \<open>A frame that answers a subscribe: the command, the channel, the \<^verbatim>\<open>sid\<close> it got.\<close>

definition answers :: "sup_env \<Rightarrow> raw_frame \<Rightarrow> int \<times> string \<times> int \<Rightarrow> bool" where
  "answers ev f reply \<longleftrightarrow> (case reply of (cid, channel, sid) \<Rightarrow>
     (case ev_envelope ev (rf_payload f) of
        None \<Rightarrow> False
      | Some env \<Rightarrow> en_type env = ''subscribed'' \<and> en_sid env = None \<and> en_id env = Some cid \<and>
          decoded (ev_subscribed_msg ev) env = Inr \<lparr>sm_channel = channel, sm_sid = sid\<rparr>))"

definition reply_sids :: "(int \<times> string \<times> int) list \<Rightarrow> int list" where
  "reply_sids replies = map (\<lambda>(cid, channel, sid). sid) replies"

definition reply_asked :: "(int \<times> string \<times> int) list \<Rightarrow> (int \<times> string) list" where
  "reply_asked replies = map (\<lambda>(cid, channel, sid). (cid, channel)) replies"

text \<open>Frames that answer everything outstanding, each once, and no two with one \<^verbatim>\<open>sid\<close>.\<close>

definition answer_all :: "sup_env \<Rightarrow> raw_frame list \<Rightarrow> (int \<times> string \<times> int) list \<Rightarrow> supervisor \<Rightarrow> bool" where
  "answer_all ev fs replies st \<longleftrightarrow> list_all2 (answers ev) fs replies \<and> distinct (reply_sids replies) \<and>
     distinct (reply_asked replies) \<and> set (reply_asked replies) = outstanding st"

text \<open>A subscribe partly answered, between two rounds.\<close>

definition between_rounds :: "group \<Rightarrow> group \<Rightarrow> int list \<Rightarrow> supervisor \<Rightarrow> bool" where
  "between_rounds h g used st \<longleftrightarrow> healthy st \<and> waits_ok st \<and> 1 \<le> cf_max_markets_per_command (sv_config st) \<and>
     sv_reconcile_deferred st \<and> sv_applied st = Some h \<and> sv_desired st = Some g \<and>
     (subscribing (gr_group_id g) st \<or>
      (\<exists>sid info. dict_get (sv_subscriptions st) sid = Some info \<and> si_group_id info = gr_group_id g \<and> sid \<notin> set used))"

lemma last_round:
  assumes "between_rounds h g [] st" "sv_pending st = []" "wf_group h" "wf_group g" "gr_group_id h = gr_group_id g"
    "\<not> must_rebuild h g" "gr_group_id g \<noteq> FIREHOSE_GROUP_ID"
  shows "\<exists>st'. resume_reconcile ev st = (st', Inr ()) \<and> sv_applied st' = Some g \<and> sv_desired st' = Some g"
proof -
  let ?st = "st\<lparr>sv_reconcile_deferred := False\<rparr>"
  have st: "healthy st" "waits_ok st" "1 \<le> cf_max_markets_per_command (sv_config st)" "sv_reconcile_deferred st"
      "sv_applied st = Some h" "sv_desired st = Some g"
    using assms(1) by (simp_all add: between_rounds_def)
  have "\<not> subscribing (gr_group_id g) st" using assms(2) by (simp add: subscribing_def)
  then obtain sid info where sid: "dict_get (sv_subscriptions st) sid = Some info" "si_group_id info = gr_group_id g"
    using assms(1) by (auto simp: between_rounds_def)
  then have "has_sid (gr_group_id g) ?st"
    using dict_get_SomeD [OF sid(1)] by (force simp: has_sid_def list_ex_iff)
  then obtain st' go_on where "reconcile ev ?st = (st', Inr ())" "sv_desired st' = sv_desired ?st" "settled ?st st' go_on"
      "keeps_subscription ?st \<longrightarrow> go_on"
    using reconcile_settles [of ?st ev] st assms(2-5,7) by (auto simp: healthy_def waits_ok_def)
  moreover have "keeps_subscription ?st" using st assms(5,6) by (simp add: keeps_subscription_def)
  ultimately show ?thesis using st assms(2) by (auto simp: resume_reconcile_def settled_def)
qed


lemma reply_frame:
  assumes "answers ev f (cid, channel, sid)" "dict_get (sv_pending st) cid = Some p"
  obtains st1 where "on_frame ev f st = caught (resume_reconcile ev st1)"
    "sv_pending st1 = (if pd_channels p - {channel} = {} then dict_pop cid (sv_pending st)
       else dict_put cid (p\<lparr>pd_channels := pd_channels p - {channel}\<rparr>) (sv_pending st))"
    "sv_subscriptions st1 = dict_put sid \<lparr>si_sid = sid, si_channel = channel, si_group_id = pd_group_id p\<rparr> (sv_subscriptions st)"
    "sv_config st1 = sv_config st" "sv_session st1 = sv_session st" "sv_applied st1 = sv_applied st"
    "sv_desired st1 = sv_desired st" "sv_reconcile_deferred st1 = sv_reconcile_deferred st"
proof -
  let ?st = "put_record ev (rf_recv_mono_ns f) (rf_recv_wall_ns f) (PlFrame (rf_payload f)) (count_frame st)"
  let ?st1 = "answer cid p sid channel (?st\<lparr>sv_channel_of_sid := dict_put sid channel (sv_channel_of_sid ?st)\<rparr>)"
  have put: "sv_pending ?st = sv_pending st" "sv_subscriptions ?st = sv_subscriptions st" "sv_config ?st = sv_config st"
      "sv_session ?st = sv_session st" "sv_applied ?st = sv_applied st" "sv_desired ?st = sv_desired st"
      "sv_reconcile_deferred ?st = sv_reconcile_deferred st"
    unfolding count_frame_def put_record_def by (simp_all add: Let_def split: option.split)
  have counted: "sv_config (count_frame st) = sv_config st" "sv_session (count_frame st) = sv_session st"
      "sv_applied (count_frame st) = sv_applied st"
    by (simp_all add: count_frame_def)
  obtain env where env: "ev_envelope ev (rf_payload f) = Some env" "en_type env = ''subscribed''" "en_sid env = None"
      "en_id env = Some cid" "decoded (ev_subscribed_msg ev) env = Inr \<lparr>sm_channel = channel, sm_sid = sid\<rparr>"
    using assms(1) by (auto simp: answers_def split: option.splits)
  have "pending_of env (?st\<lparr>sv_channel_of_sid := dict_put sid channel (sv_channel_of_sid ?st)\<rparr>) = Some (cid, p)"
    using env(4) assms(2) put(1) by (simp add: pending_of_def)
  then have "on_frame ev f st = caught (resume_reconcile ev ?st1)"
    using env by (simp add: on_frame_def interpret_frame_def check_sequence_def sv_bind_def dispatch_def on_subscribed_def
      converting_def Let_def)
  then show thesis
    by (rule that) (simp_all add: answer_def publish_subscriptions_def Let_def put counted)
qed

lemma reply_outstanding:
  assumes "waits_ok st" "dict_get (sv_pending st) cid = Some p" "channel \<in> pd_channels p"
    "sv_pending st1 = (if pd_channels p - {channel} = {} then dict_pop cid (sv_pending st)
       else dict_put cid (p\<lparr>pd_channels := pd_channels p - {channel}\<rparr>) (sv_pending st))"
    "sv_config st1 = sv_config st"
  shows "waits_ok st1" "outstanding st1 = outstanding st - {(cid, channel)}"
    "subscribing gid st \<Longrightarrow> pd_group_id p \<noteq> gid \<Longrightarrow> subscribing gid st1"
proof -
  show "waits_ok st1" using assms(1,2,4,5) by (auto simp: waits_ok_def dict_simps)
  show "outstanding st1 = outstanding st - {(cid, channel)}"
    using assms(2-4) by (auto simp: outstanding_def dict_simps split: if_splits)
  assume "subscribing gid st" "pd_group_id p \<noteq> gid"
  then obtain c q where q: "(c, q) \<in> set (sv_pending st)" "pd_group_id q = gid" by (auto simp: subscribing_def list_ex_iff)
  then have "dict_get (sv_pending st) c = Some q" using assms(1) dict_mem_get [of "sv_pending st" c q] by (simp add: waits_ok_def)
  moreover from this have "c \<noteq> cid" using assms(2) q(2) \<open>pd_group_id p \<noteq> gid\<close> by auto
  ultimately have "dict_get (sv_pending st1) c = Some q" using assms(4) by (auto simp: dict_simps)
  then show "subscribing gid st1" using q(2) dict_get_SomeD by (force simp: subscribing_def list_ex_iff)
qed

lemma all_answered:
  assumes "between_rounds h g (reply_sids replies) st" "answer_all ev fs replies st" "fs \<noteq> []" "wf_group h" "wf_group g"
    "gr_group_id h = gr_group_id g" "\<not> must_rebuild h g" "gr_group_id g \<noteq> FIREHOSE_GROUP_ID"
  shows "\<exists>st'. handle_frames ev fs st = (st', Inr ()) \<and> sv_applied st' = Some g \<and> sv_desired st' = Some g"
  using assms(1-3)
proof (induction fs arbitrary: replies st)
  case (Cons f fs)
  obtain cid channel sid rest where r: "replies = (cid, channel, sid) # rest" "answers ev f (cid, channel, sid)" "list_all2 (answers ev) fs rest"
    using Cons.prems(2) by (auto simp: answer_all_def list_all2_Cons1)
  have asked: "(cid, channel) \<notin> set (reply_asked rest)" "sid \<notin> set (reply_sids rest)" "distinct (reply_asked rest)"
      "distinct (reply_sids rest)" "outstanding st = insert (cid, channel) (set (reply_asked rest))"
    using Cons.prems(2) by (auto simp: answer_all_def r reply_asked_def reply_sids_def)
  obtain p where p: "dict_get (sv_pending st) cid = Some p" "channel \<in> pd_channels p"
    using asked(5) unfolding outstanding_def by blast
  obtain st1 where st1: "on_frame ev f st = caught (resume_reconcile ev st1)"
    "sv_pending st1 = (if pd_channels p - {channel} = {} then dict_pop cid (sv_pending st)
       else dict_put cid (p\<lparr>pd_channels := pd_channels p - {channel}\<rparr>) (sv_pending st))"
    "sv_subscriptions st1 = dict_put sid \<lparr>si_sid = sid, si_channel = channel, si_group_id = pd_group_id p\<rparr> (sv_subscriptions st)"
    "sv_config st1 = sv_config st" "sv_session st1 = sv_session st" "sv_applied st1 = sv_applied st"
    "sv_desired st1 = sv_desired st" "sv_reconcile_deferred st1 = sv_reconcile_deferred st"
    by (rule reply_frame [OF r(2) p(1)])
  have st: "healthy st" "waits_ok st" "1 \<le> cf_max_markets_per_command (sv_config st)" "sv_reconcile_deferred st"
      "sv_applied st = Some h" "sv_desired st = Some g"
    using Cons.prems(1) by (simp_all add: between_rounds_def)
  note out = reply_outstanding [OF st(2) p st1(2,4)]
  have left: "outstanding st1 = set (reply_asked rest)" using out(2) asked by auto
  have held: "subscribing (gr_group_id g) st1 \<or>
      (\<exists>sid info. dict_get (sv_subscriptions st1) sid = Some info \<and> si_group_id info = gr_group_id g \<and> sid \<notin> set (reply_sids rest))"
  proof (cases "pd_group_id p = gr_group_id g")
    case True
    then show ?thesis using st1(3) asked(2) by (auto simp: dict_simps)
  next
    case False
    then show ?thesis
      using Cons.prems(1) out(3) [of "gr_group_id g"] st1(3)
      by (auto simp: between_rounds_def r reply_sids_def dict_simps)
  qed
  have b: "between_rounds h g (reply_sids rest) st1"
    using st st1 out(1) held by (simp add: between_rounds_def healthy_def)
  show ?case
  proof (cases fs)
    case Nil
    then have "rest = []" using r(3) by simp
    then have "sv_pending st1 = []" using left outstanding_none [OF out(1)] by (simp add: reply_asked_def)
    moreover have "between_rounds h g [] st1" using b \<open>rest = []\<close> by (simp add: reply_sids_def)
    ultimately obtain st' where "resume_reconcile ev st1 = (st', Inr ())" "sv_applied st' = Some g" "sv_desired st' = Some g"
      using last_round [of h g st1 ev] assms(4-8) by blast
    then show ?thesis using st1(1) Nil by (simp add: caught_def sv_bind_def)
  next
    case (Cons f' fs')
    then have "rest \<noteq> []" using r(3) by auto
    then have "sv_pending st1 \<noteq> []"
      using left outstanding_none [OF out(1)] by (simp add: reply_asked_def)
    then have "on_frame ev f st = (st1, Inr ())" using st1(1) by (simp add: resume_reconcile_def caught_def)
    moreover obtain st' where "handle_frames ev fs st1 = (st', Inr ())" "sv_applied st' = Some g" "sv_desired st' = Some g"
      using Cons.IH [OF b] r(3) asked left Cons by (auto simp: answer_all_def)
    ultimately show ?thesis by (simp add: sv_bind_def)
  qed
qed simp

end
