(* ===== verification/Supervised.thy ===== *)
theory Supervised
  imports Reconciled
begin

text \<open>
  The supervisor of one connection (\<^verbatim>\<open>tape/recorder/supervisor.py\<close>): an example run, and the
  properties that hold of it.
\<close>

section \<open>An example\<close>

definition example_config :: sup_config where
  "example_config = \<lparr>cf_conn_id = 0, cf_group_channels = [ORDERBOOK_CHANNEL], cf_firehose_channels = [],
     cf_use_yes_price = True, cf_persist = True, cf_max_markets_per_command = 2, cf_backoff_initial_ns = 500000000,
     cf_backoff_max_ns = 30000000000, cf_max_consecutive_failures = None, cf_subscribe_timeout_ns = 10000000000\<rparr>"

definition example_subscribed :: envelope where
  "example_subscribed = \<lparr>en_type = ''subscribed'', en_sid = None, en_seq = None, en_id = Some 1, en_msg = []\<rparr>"

definition example_image_frame :: envelope where
  "example_image_frame = \<lparr>en_type = ''orderbook_snapshot'', en_sid = Some 7, en_seq = Some 1, en_id = None, en_msg = []\<rparr>"

definition example_env :: sup_env where
  "example_env = \<lparr>ev_envelope = (\<lambda>p. if p = ''s'' then Some example_subscribed else if p = ''b'' then Some example_image_frame else None),
     ev_snapshot_msg = (\<lambda>_. Some \<lparr>osm_market_ticker = ''K'', osm_yes_dollars_fp = None, osm_no_dollars_fp = None\<rparr>),
     ev_delta_msg = (\<lambda>_. None), ev_trade_msg = (\<lambda>_. None), ev_ticker_msg = (\<lambda>_. None), ev_lifecycle_msg = (\<lambda>_. None),
     ev_subscribed_msg = (\<lambda>_. Some \<lparr>sm_channel = ORDERBOOK_CHANNEL, sm_sid = 7\<rparr>), ev_ok_msg = (\<lambda>_. None),
     ev_error_msg = (\<lambda>_. None), ev_utf8 = Some, ev_accepts = (\<lambda>_. True), ev_clock = (\<lambda>n. (int n, int n)),
     ev_on_event = Some (\<lambda>_. False)\<rparr>"

definition example_conn_group :: group where
  "example_conn_group = \<lparr>gr_group_id = ''g0000'', gr_conn_id = 0, gr_tickers = {''K''}\<rparr>"

definition example_new :: supervisor where
  "example_new = (case new_supervisor example_config True of Inr st \<Rightarrow> st)"

definition example_joined :: supervisor where
  "example_joined = fst (set_group example_env (Some example_conn_group)
     (fst (connection_opened example_env (begin_connection (new_ws_session (\<lambda>_. SendOk)) example_new))))"

definition received_frame :: "string \<Rightarrow> raw_frame" where
  "received_frame p = \<lparr>rf_payload = p, rf_recv_mono_ns = 5, rf_recv_wall_ns = 6\<rparr>"

definition example_answered :: supervisor where
  "example_answered = fst (on_frame example_env (received_frame ''s'') example_joined)"

definition example_imaged :: supervisor where
  "example_imaged = fst (on_frame example_env (received_frame ''b'') example_answered)"

lemmas sup_eval = set_group_def connection_opened_def begin_connection_def forget_connection_def
  record_connection_event_def put_record_def new_supervisor_def Let_def reconcile_def subscribe_firehose_def sv_bind_def
  new_ws_session_def publish_subscriptions_def one_group_diff split_change_def piece_group_def send_piece_def
  to_commands_def change_commands_def new_subscribe_def send_command_def ws_send_def await_replies_def
  record_plan_change_def prune_books_def group_use_yes_price_def new_gap_tracker_def
  on_frame_def interpret_frame_def count_frame_def frame_receipt_def check_sequence_def dispatch_def caught_def
  on_subscribed_def converting_def decoded_def pending_of_def answer_def resume_reconcile_def
  observe_def observe_state_def new_sid_state_def on_snapshot_def to_book_snapshot_def opt_levels_def
  finish_resync_def apply_book_snapshot_def book_for_def may_touch_def emit_def put_book_def SNAPSHOT_TYPE_def
  dict_get_or_def apply_snapshot_def new_book_def opt_max_def opt_min_def is_stale_def

lemmas example_defs = example_env_def example_config_def example_conn_group_def example_subscribed_def
  example_image_frame_def received_frame_def

definition example_base :: supervisor where
  "example_base = \<lparr>sv_config = example_config, sv_desired = Some example_conn_group, sv_live = \<lparr>lr_books = [], lr_next = 0\<rparr>,
     sv_taps = [], sv_open_taps = [], sv_next_tap = 0,
     sv_session = Some \<lparr>ws_open = True, ws_next_command_id = 2,
       ws_wire = [(1, SubscribeCommand [ORDERBOOK_CHANNEL] (Some [''K'']) (Some True) None)], ws_outcome = (\<lambda>_. SendOk)\<rparr>,
     sv_reply_failure = FutureWaiting, sv_tracker = [], sv_applied = Some example_conn_group,
     sv_subscriptions = [], sv_subscription_infos = [], sv_channel_of_sid = [],
     sv_pending = [(1, \<lparr>pd_group_id = ''g0000'', pd_channels = {ORDERBOOK_CHANNEL}\<rparr>)],
     sv_resyncing = [], sv_reconcile_deferred = False, sv_firehose_requested = False, sv_frames_this_connection = 0,
     sv_stop_requested = False, sv_started = False, sv_consecutive_failures = 0, sv_frames = 0,
     sv_records_not_persisted = 0, sv_decode_errors = 0, sv_gaps = 0, sv_duplicates = 0, sv_reconnects = 0,
     sv_snapshots_requested = 0, sv_book_errors = 0, sv_callback_errors = 0, sv_errors_by_code = [], sv_last_errors = [],
     sv_sink = Some [
       SkPut \<lparr>tp_conn_id = 0, tp_mono_ns = 0, tp_wall_ns = 0, tp_payload = PlConnection ''open'' ''connected''\<rparr> True,
       SkPut \<lparr>tp_conn_id = 0, tp_mono_ns = 1, tp_wall_ns = 1,
         tp_payload = PlCommand (SubscribeCommand [ORDERBOOK_CHANNEL] (Some [''K'']) (Some True) None) 1\<rparr> True],
     sv_clock_reads = 2, sv_emitted = []\<rparr>"

lemma example_joined: "example_joined = example_base"
  unfolding example_joined_def example_base_def example_new_def
  by (simp add: sup_eval example_defs numeral_2_eq_2)

lemma example_answered:
  "example_answered = example_base\<lparr>sv_frames := 1, sv_frames_this_connection := 1,
     sv_sink := map_option (\<lambda>sunk. sunk @ [SkPut \<lparr>tp_conn_id = 0, tp_mono_ns = 5, tp_wall_ns = 6, tp_payload = PlFrame ''s''\<rparr> True])
       (sv_sink example_base),
     sv_channel_of_sid := [(7, ORDERBOOK_CHANNEL)], sv_pending := [],
     sv_subscriptions := [(7, \<lparr>si_sid = 7, si_channel = ORDERBOOK_CHANNEL, si_group_id = ''g0000''\<rparr>)],
     sv_subscription_infos := [\<lparr>si_sid = 7, si_channel = ORDERBOOK_CHANNEL, si_group_id = ''g0000''\<rparr>]\<rparr>"
  unfolding example_answered_def example_joined
  by (simp add: example_base_def sup_eval example_defs)

lemma example_imaged:
  "lr_books (sv_live example_imaged) = [(''K'', 0, \<lparr>bk_ticker = ''K'', bk_bids = [], bk_asks = [], bk_best_bid = None,
     bk_best_ask = None, bk_stale = False, bk_last_ts_ms = None\<rparr>)]"
  "sv_session example_imaged = sv_session example_base" "sv_config example_imaged = example_config"
  "sv_taps example_imaged = []" "sv_open_taps example_imaged = []" "sv_next_tap example_imaged = 0"
  "sv_frames_this_connection example_imaged = 2" "sv_consecutive_failures example_imaged = 0"
  "dict_get (sv_subscriptions example_imaged) 7 = Some \<lparr>si_sid = 7, si_channel = ORDERBOOK_CHANNEL, si_group_id = ''g0000''\<rparr>"
  "sv_applied example_imaged = Some example_conn_group" "sv_resyncing example_imaged = []"
  "sv_tracker example_imaged = [(7, \<lparr>ss_last_seq = Some 1, ss_messages = 1, ss_gaps = 0, ss_duplicates = 0\<rparr>)]"
  "\<exists>s. sv_emitted example_imaged = [EvSnapshot s]"
  unfolding example_imaged_def example_answered
  by (simp_all add: example_base_def sup_eval example_defs)

lemma example_started: "new_supervisor example_config True = Inr example_new" "config_error example_config = None"
  by (simp_all add: example_new_def new_supervisor_def example_config_def config_error_def NS_PER_S_def)

lemma example_run: "sup_run example_env example_new example_joined" "sup_run example_env example_joined example_imaged"
proof -
  let ?b = "begin_connection (new_ws_session (\<lambda>_. SendOk)) example_new"
  let ?o = "fst (connection_opened example_env ?b)"
  have "sup_step example_env example_new ?b"
    by (rule sup_step.begins) (simp_all add: example_new_def new_supervisor_def example_config_def)
  moreover have "sup_step example_env ?b ?o"
    by (rule sup_step.opens) (simp add: begin_connection_def)
  moreover have "sup_step example_env ?o example_joined"
    unfolding example_joined_def by (rule sup_step.regroups)
  ultimately show "sup_run example_env example_new example_joined"
    unfolding sup_run_def by (meson converse_rtranclp_into_rtranclp rtranclp.rtrancl_refl)
  have "sup_step example_env example_joined example_answered"
    unfolding example_answered_def by (rule sup_step.frame) (simp add: example_joined example_base_def)
  moreover have "sup_step example_env example_answered example_imaged"
    unfolding example_imaged_def by (rule sup_step.frame) (simp add: example_answered example_base_def)
  ultimately show "sup_run example_env example_joined example_imaged"
    unfolding sup_run_def by (meson converse_rtranclp_into_rtranclp rtranclp.rtrancl_refl)
qed

lemma sup_run_trans: "sup_run ev a b \<Longrightarrow> sup_run ev b c \<Longrightarrow> sup_run ev a c"
  unfolding sup_run_def by (rule rtranclp_trans)

lemma sup_run_refl: "sup_run ev a a"
  by (simp add: sup_run_def)

section \<open>A book leaves the stale state through a snapshot\<close>

definition fresh_in :: "registry \<Rightarrow> string \<Rightarrow> bool" where
  "fresh_in books t \<longleftrightarrow> (case dict_get books t of None \<Rightarrow> False | Some b \<Rightarrow> \<not> bk_stale b)"

lemma book_fresh_in: "book_fresh t st \<longleftrightarrow> fresh_in (books_of (sv_live st)) t"
  by (auto simp: book_fresh_def fresh_in_def dict_get_books is_stale_def split: option.split)

lemma freshened:
  assumes "\<not> is_refresh op" "fresh_in (fst (pub_effect op books)) t" "\<not> fresh_in books t"
  shows "\<exists>s. snd (pub_effect op books) = Some (EvSnapshot s) \<and> bs_ticker s = t"
proof (cases op)
  case (PubSnapshot s)
  obtain b' r where a: "apply_snapshot (bs_bids s) (bs_asks s) (bs_ts_ms s) (dict_get_or books (bs_ticker s) (new_book (bs_ticker s))) = (b', r)"
    by fastforce
  have "bk_stale b'" if "r = Inl e" for e
    using a that by (auto simp: apply_snapshot_def mark_stale_def Let_def split: sum.splits if_splits)
  with a assms(2,3) PubSnapshot show ?thesis
    by (cases r) (auto simp: fresh_in_def dict_simps split: if_splits)
next
  case (PubDelta d)
  show ?thesis
  proof (cases "dict_get books (bd_ticker d)")
    case (Some b)
    obtain b' r where a: "apply_delta (bd_side d) (bd_price d) (bd_delta d) (bd_ts_ms d) b = (b', r)" by fastforce
    have "bk_stale b \<Longrightarrow> bk_stale b'"
      using a by (auto simp: apply_delta_def mark_stale_def Let_def split: if_splits option.splits)
    with a assms(2,3) PubDelta Some show ?thesis
      by (auto simp: fresh_in_def dict_simps split: sum.splits if_splits)
  qed (use assms PubDelta in simp)
next
  case (PubStale u)
  with assms(2,3) show ?thesis
    by (auto simp: fresh_in_def dict_simps mark_stale_def split: option.splits if_splits)
next
  case (PubForget u)
  with assms(2,3) show ?thesis by (auto simp: fresh_in_def dict_simps split: if_splits)
qed (use assms in simp_all)

lemma freshened_run:
  assumes "list_all (\<lambda>op. \<not> is_refresh op) ops" "fresh_in (pub_state ops books) t" "\<not> fresh_in books t"
  shows "\<exists>s. EvSnapshot s \<in> set (pub_events ops books) \<and> bs_ticker s = t"
  using assms
proof (induction ops arbitrary: books)
  case (Cons op ops)
  show ?case
  proof (cases "fresh_in (fst (pub_effect op books)) t")
    case True
    then show ?thesis using freshened [of op books t] Cons.prems by auto
  next
    case False
    then show ?thesis using Cons.IH [of "fst (pub_effect op books)"] Cons.prems by (auto simp: pub_state_def)
  qed
qed (simp add: pub_state_def)

section \<open>Properties\<close>

text \<open>
  C23. Every frame is on its way to the tape before anything reads it: the first record a frame
  adds is the frame itself, with the times it was received, and it adds no other frame. A frame
  whose envelope does not decode is counted and changes no book. Of all the errors decoding and
  conversion can raise only a lifecycle payload that is not UTF-8 gets out; anything else that
  ends the connection is a failed send or a command that cannot be built.
\<close>

theorem frame_is_taped_first:
  assumes "sv_sink st = Some sunk" "on_frame ev f st = (st', r)"
  shows "\<exists>new. sv_sink st' = Some (sunk @ SkPut \<lparr>tp_conn_id = cf_conn_id (sv_config st), tp_mono_ns = rf_recv_mono_ns f,
        tp_wall_ns = rf_recv_wall_ns f, tp_payload = PlFrame (rf_payload f)\<rparr> (ev_accepts ev (length sunk)) # new) \<and>
      list_all not_frame new \<and>
      (ev_envelope ev (rf_payload f) = None \<longrightarrow> new = [] \<and> r = Inr () \<and> sv_live st' = sv_live st \<and>
         sv_decode_errors st' = sv_decode_errors st + 1) \<and>
      (\<forall>e. r = Inl e \<longrightarrow> e \<in> {WsClosed, TransportFailed, ConvertFailed UnicodeError} \<union> range PlanFailed)"
proof -
  let ?rec = "\<lparr>tp_conn_id = cf_conn_id (sv_config st), tp_mono_ns = rf_recv_mono_ns f,
        tp_wall_ns = rf_recv_wall_ns f, tp_payload = PlFrame (rf_payload f)\<rparr>"
  define st1 where "st1 = put_record ev (rf_recv_mono_ns f) (rf_recv_wall_ns f) (PlFrame (rf_payload f)) (count_frame st)"
  have first: "sv_sink st1 = Some (sunk @ [SkPut ?rec (ev_accepts ev (length sunk))])"
    using assms(1) by (simp add: st1_def put_record_def count_frame_def Let_def)
  have run: "interpret_frame ev f st1 = (st', r)" using assms(2) by (simp add: on_frame_def st1_def)
  then have "tape_grows st1 st'" using taping.interpret_frame_R [of st1 ev f] by simp
  then obtain new where new: "sv_sink st' = Some (sunk @ SkPut ?rec (ev_accepts ev (length sunk)) # new)" "list_all not_frame new"
    using first by (auto simp: tape_grows_def)
  have "raises_only (io_errors \<union> {ConvertFailed UnicodeError}) (st', r)"
    using interpret_raises [of ev f st1] run by simp
  then have errors: "\<forall>e. r = Inl e \<longrightarrow> e \<in> {WsClosed, TransportFailed, ConvertFailed UnicodeError} \<union> range PlanFailed"
    by (auto simp: raises_only_def io_errors_def)
  have bad: "new = [] \<and> r = Inr () \<and> sv_live st' = sv_live st \<and> sv_decode_errors st' = sv_decode_errors st + 1"
    if none: "ev_envelope ev (rf_payload f) = None"
  proof -
    have "st' = decode_failed st1" "r = Inr ()" using run none by (simp_all add: interpret_frame_def)
    moreover have "sv_live st1 = sv_live st" "sv_decode_errors st1 = sv_decode_errors st"
      by (simp_all add: st1_def count_frame_def) (simp add: put_record_def Let_def split: option.split)
    ultimately show ?thesis using first new(1) by (simp add: decode_failed_def)
  qed
  show ?thesis
    by (intro exI [of _ new] conjI impI) (use new errors bad in simp_all)
qed

theorem frame_is_taped_first_witness:
  "\<exists>st'. on_frame example_env (received_frame ''x'') example_new = (st', Inr ()) \<and> sv_decode_errors st' = 1 \<and>
     sv_sink st' = Some [SkPut \<lparr>tp_conn_id = 0, tp_mono_ns = 5, tp_wall_ns = 6, tp_payload = PlFrame ''x''\<rparr> True]"
proof -
  have s: "sv_sink example_new = Some []" "sv_config example_new = example_config" "sv_decode_errors example_new = 0"
    by (simp_all add: example_new_def new_supervisor_def example_config_def)
  obtain st' r where r: "on_frame example_env (received_frame ''x'') example_new = (st', r)" by fastforce
  have "ev_envelope example_env (rf_payload (received_frame ''x'')) = None" by (simp add: example_env_def received_frame_def)
  moreover have "received_frame ''x'' = \<lparr>rf_payload = ''x'', rf_recv_mono_ns = 5, rf_recv_wall_ns = 6\<rparr>" "cf_conn_id example_config = 0"
      "ev_accepts example_env 0"
    by (simp_all add: received_frame_def example_config_def example_env_def)
  ultimately show ?thesis using frame_is_taped_first [OF s(1) r] r s by auto
qed

text \<open>
  C2. A supervisor is a publisher in the sense of the bus consumer's model: whatever frames,
  commands, reconnections and taps a run goes through, its books are the result of a sequence of
  publisher operations, and the events it emitted are exactly what those operations publish, in
  order, numbered or not. In particular a book that is fresh after the run and was not before was
  made so by a snapshot that was emitted.
\<close>

theorem supervisor_is_a_publisher:
  assumes "sup_run ev st st'" "ev_on_event ev \<noteq> None"
  shows "\<exists>ops. pub_state ops (books_of (sv_live st)) = books_of (sv_live st') \<and>
      sv_emitted st' = sv_emitted st @ map (be_event \<circ> fst) (pub_log epoch n (books_of (sv_live st)) ops) \<and>
      (\<forall>t. book_fresh t st' \<and> \<not> book_fresh t st \<longrightarrow>
         (\<exists>s. EvSnapshot s \<in> set (drop (length (sv_emitted st)) (sv_emitted st')) \<and> bs_ticker s = t))"
proof -
  obtain ops where ops: "list_all (\<lambda>op. \<not> is_refresh op) ops" "sv_live st' = fold live_effect ops (sv_live st)"
      "sv_emitted st' = sv_emitted st @ pub_events ops (books_of (sv_live st))"
    using publishes_run [OF assms(1)] assms(2) by (auto simp: publishes_def)
  have books: "pub_state ops (books_of (sv_live st)) = books_of (sv_live st')"
    using publishes_books [OF ops(1)] ops(2) by simp
  moreover have "\<exists>s. EvSnapshot s \<in> set (drop (length (sv_emitted st)) (sv_emitted st')) \<and> bs_ticker s = t"
    if "book_fresh t st'" "\<not> book_fresh t st" for t
    using freshened_run [OF ops(1), of "books_of (sv_live st)" t] that books ops(3) by (simp add: book_fresh_in)
  ultimately show ?thesis using ops(3) by (intro exI [of _ ops]) (simp add: pub_events_log)
qed

theorem supervisor_is_a_publisher_witness:
  "\<exists>s. EvSnapshot s \<in> set (sv_emitted example_imaged) \<and> bs_ticker s = ''K''"
proof -
  have run: "sup_run example_env example_new example_imaged" by (rule sup_run_trans [OF example_run])
  have ev: "ev_on_event example_env \<noteq> None" by (simp add: example_env_def)
  have "book_fresh ''K'' example_imaged" by (simp add: book_fresh_def example_imaged(1) is_stale_def)
  moreover have "\<not> book_fresh ''K'' example_new" "sv_emitted example_new = []"
    by (simp_all add: book_fresh_def example_new_def new_supervisor_def example_config_def)
  ultimately show ?thesis using supervisor_is_a_publisher [OF run ev, of 0 0] by auto
qed

text \<open>
  C6. A tap opened on a running supervisor tells the truth, whatever the supervisor goes through
  before the tap is closed: frames, regroupings, lost connections, other taps. If the window of a
  market has no fault, then at every moment between opening and closing there is a moment of the
  window, counted in changes, at which replaying the changes from the start image gives the book
  as it was, level for level.
\<close>

theorem supervisor_taps_are_faithful:
  assumes "new_supervisor cf has_sink = Inr st0" "sup_run ev st0 st1" "open_tap ts m st1 = (st2, Inr i)"
    "sup_run ev st2 st3" "sup_run ev st3 st4" "dict_get (sv_open_taps st4) i = Some tap" "\<not> tap_closed tap"
    "close_tap i st4 = (st5, Some (Inr ws))" "dict_get ws t = Some w" "tw_fault w = None"
  shows "\<exists>img n b c0 c k. tw_start w = Some img \<and> to_book t img = Inr c0 \<and>
    dict_get (lr_books (sv_live st3)) t = Some (n, b) \<and> k \<le> length (tw_events w) \<and>
    replay.replay_all (take k (tw_events w)) c0 = Inr c \<and> fresh_same c b"
proof -
  have start: "routed st1" "wf_live (sv_live st1)" by (rule started [OF assms(1,2)])+
  obtain tap2 where tap2: "new_live_tap ts (sv_live st1) m = Inr tap2" "dict_get (sv_open_taps st2) i = Some tap2"
      "sv_live st2 = sv_live st1"
    using open_tap_result [OF assms(3)] by blast
  have r2: "routed st2" using routed_open [OF start(1), of ts m] assms(3) by simp
  obtain ops1 tap3 where ops1: "routed st3" "sv_live st3 = live_run ops1 (sv_live st2)" "dict_get (sv_open_taps st3) i = Some tap3"
      "tap_closed tap3 \<or> tap3 = snd (tap_run ops1 (sv_live st2, tap2))"
    using watched_run [OF assms(4), of i] r2 tap2(2) unfolding watched_def by blast
  obtain ops2 where ops2: "sv_live st4 = live_run ops2 (sv_live st3)"
      "tap_closed tap \<or> tap = snd (tap_run ops2 (sv_live st3, tap3))"
    using watched_run [OF assms(5), of i] ops1(1,3) assms(6) unfolding watched_def by force
  then have tap: "tap = snd (tap_run ops2 (sv_live st3, tap3))" using assms(7) by blast
  then have "\<not> tap_closed tap3" using assms(7) by (simp add: tap_closed_def)
  then have "tap3 = snd (tap_run ops1 (sv_live st2, tap2))" using ops1(4) by blast
  then have run1: "tap_run ops1 (sv_live st1, tap2) = (sv_live st3, tap3)"
    using tap_run_fst [of ops1 "sv_live st2" tap2] ops1(2) tap2(3) by (simp add: prod_eq_iff)
  have run2: "tap_run ops2 (sv_live st3, tap3) = (sv_live st4, tap)"
    using tap_run_fst [of ops2 "sv_live st3" tap3] ops2(1) tap by (simp add: prod_eq_iff)
  have "snd (tap_close (sv_live st4) tap) = Inr ws"
    using assms(6,8) by (auto simp: close_tap_def split: prod.splits sum.splits)
  from tap_window_replays [OF start(2) tap2(1) run1 run2 this assms(9,10)] show ?thesis
    unfolding book_at_def by blast
qed

theorem supervisor_taps_are_faithful_witness:
  "\<exists>st2 st5 i ws w. open_tap [''K''] 10 example_imaged = (st2, Inr i) \<and> close_tap i st2 = (st5, Some (Inr ws)) \<and>
     dict_get ws ''K'' = Some w \<and> tw_fault w = None \<and>
     (\<exists>img c0 c. tw_start w = Some img \<and> to_book ''K'' img = Inr c0 \<and>
        replay.replay_all (tw_events w) c0 = Inr c \<and> \<not> bk_stale c)"
proof -
  let ?img = "\<lparr>bi_bids = [], bi_asks = []\<rparr>"
  let ?tap = "\<lparr>lt_tickers = [''K''], lt_max_events = 10, lt_recordings = [(''K'',
      \<lparr>re_book = Some 0, re_start = Some ?img, re_events = [], re_fault = None\<rparr>)], lt_windows = None\<rparr>"
  let ?w = "\<lparr>tw_ticker = ''K'', tw_start = Some ?img, tw_events = [], tw_fault = None\<rparr>"
  define st2 where "st2 = fst (open_tap [''K''] 10 example_imaged)"
  have tap: "new_live_tap [''K''] (sv_live example_imaged) 10 = Inr ?tap"
    by (simp add: new_live_tap_def open_recording_def example_imaged is_stale_def image_of_def)
  have opened: "open_tap [''K''] 10 example_imaged = (st2, Inr 0)"
    by (simp add: st2_def open_tap_def tap example_imaged Let_def)
  have st2: "sv_open_taps st2 = [(0, ?tap)]" "sv_live st2 = sv_live example_imaged"
    by (simp_all add: st2_def open_tap_def tap example_imaged Let_def)
  have closed: "tap_close (sv_live st2) ?tap = (?tap\<lparr>lt_windows := Some [(''K'', ?w)], lt_recordings := []\<rparr>, Inr [(''K'', ?w)])"
    by (simp add: tap_close_def finish_recording_def new_tap_window_def st2 example_imaged is_stale_def)
  obtain st5 where st5: "close_tap 0 st2 = (st5, Some (Inr [(''K'', ?w)]))"
    using closed by (simp add: close_tap_def st2(1))
  have run: "sup_run example_env example_new example_imaged" by (rule sup_run_trans [OF example_run])
  have "\<exists>img n b c0 c k. tw_start ?w = Some img \<and> to_book ''K'' img = Inr c0 \<and>
    dict_get (lr_books (sv_live st2)) ''K'' = Some (n, b) \<and> k \<le> length (tw_events ?w) \<and>
    replay.replay_all (take k (tw_events ?w)) c0 = Inr c \<and> fresh_same c b"
    by (rule supervisor_taps_are_faithful [OF example_started(1) run opened sup_run_refl sup_run_refl _ _ st5, where tap = ?tap])
      (simp_all add: st2(1) tap_closed_def)
  then obtain c0 c b where c: "to_book ''K'' ?img = Inr c0" "replay.replay_all (tw_events ?w) c0 = Inr c" "fresh_same c b"
    by auto
  have "\<not> bk_stale c" using c(3) by (simp add: fresh_same_def)
  moreover have "dict_get [(''K'', ?w)] ''K'' = Some ?w" "tw_fault ?w = None" "tw_start ?w = Some ?img" by simp_all
  ultimately show ?thesis using opened st5 c(1,2) by blast
qed

text \<open>
  C22. What the check of a frame does about a gap on the order-book subscription. On a snapshot of a
  subscription that waits for snapshots it does nothing: the sequence starts anew there, and what
  was missed before it is not looked for. On any other frame it counts the gap, writes it on the tape
  before anything else it writes, emits it, leaves every book of the connection stale, waits for
  every market of the connection on that subscription, and gives the open socket one
  \<^verbatim>\<open>get_snapshot\<close> naming them all, in order.
\<close>

theorem gap_stales_and_asks:
  assumes "en_sid env = Some sid" "snd (observe sid (en_seq env) (sv_tracker st)) = VGap e g"
    "dict_get (sv_subscriptions st) sid = Some info" "si_channel info = ORDERBOOK_CHANNEL"
    "sv_applied st = Some gr" "finite (gr_tickers gr)" "gr_tickers gr \<noteq> {}"
    "sv_session st = Some ss" "ws_open ss" "check_sequence ev env rc st = (st', r)"
  shows "if en_type env = SNAPSHOT_TYPE \<and> sid \<in> set (dict_keys (sv_resyncing st))
    then r = Inr () \<and> (\<exists>tracker. st' = st\<lparr>sv_tracker := tracker\<rparr>)
    else sv_gaps st' = sv_gaps st + 1 \<and> (\<forall>t\<in>gr_tickers gr. \<not> book_fresh t st') \<and>
    dict_get (sv_resyncing st') sid = Some (gr_tickers gr) \<and>
    sv_emitted st' = sv_emitted st @ (if ev_on_event ev = None then [] else
       [EvGap \<lparr>ge_receipt = rc, ge_sid = sid, ge_expected_seq = e, ge_got_seq = g\<rparr>]) \<and>
    map_option ws_wire (sv_session st') = Some (ws_wire ss @ [(ws_next_command_id ss,
       UpdateSubscriptionCommand sid GetSnapshotAction (sorted_list_of_set (gr_tickers gr)))]) \<and>
    (\<exists>more. sv_sink st' = map_option (\<lambda>sunk. sunk @
       SkPut \<lparr>tp_conn_id = cf_conn_id (sv_config st), tp_mono_ns = rc_recv_mono_ns rc, tp_wall_ns = rc_recv_wall_ns rc,
         tp_payload = PlGap sid e g\<rparr> (ev_accepts ev (length sunk)) # more) (sv_sink st))"
proof (cases "en_type env = SNAPSHOT_TYPE \<and> sid \<in> set (dict_keys (sv_resyncing st))")
  case True
  have "dict_get (sv_tracker st) sid \<noteq> None"
    using assms(2) by (auto simp: observe_def observe_state_def dict_get_or_def new_sid_state_def Let_def split: option.splits)
  then show ?thesis
    using assms(1,10) True
    by (auto simp: check_sequence_def gt_reset_def observe_def observe_state_def dict_get_or_def dict_simps Let_def
        split: option.splits)
next
  case False
  have "ws_wire (fst (ws_send cmd ss)) = ws_wire ss @ [(ws_next_command_id ss, cmd)]" for cmd
    using assms(9) by (simp add: ws_send_def Let_def split: send_outcome.split)
  then show ?thesis
    unfolding if_not_P [OF False]
    using gap_handled [OF assms(1) False assms(2-8,10)] by (intro conjI) simp_all
qed

definition example_skipped :: envelope where
  "example_skipped = \<lparr>en_type = ''orderbook_delta'', en_sid = Some 7, en_seq = Some 4, en_id = None, en_msg = []\<rparr>"

theorem gap_stales_and_asks_witness:
  "sv_gaps (fst (check_sequence example_env example_skipped example_rc example_imaged)) = sv_gaps example_imaged + 1 \<and>
   book_fresh ''K'' example_imaged \<and>
   \<not> book_fresh ''K'' (fst (check_sequence example_env example_skipped example_rc example_imaged))"
proof -
  have obs: "snd (observe 7 (en_seq example_skipped) (sv_tracker example_imaged)) = VGap 2 4"
    by (simp add: example_skipped_def example_imaged observe_def observe_state_def dict_get_or_def Let_def)
  have ss: "sv_session example_imaged = Some \<lparr>ws_open = True, ws_next_command_id = 2,
      ws_wire = [(1, SubscribeCommand [ORDERBOOK_CHANNEL] (Some [''K'']) (Some True) None)], ws_outcome = (\<lambda>_. SendOk)\<rparr>"
    by (simp add: example_imaged example_base_def)
  have gap: "en_sid example_skipped = Some 7" "\<not> (en_type example_skipped = SNAPSHOT_TYPE \<and> 7 \<in> set (dict_keys (sv_resyncing example_imaged)))"
    by (simp_all add: example_skipped_def SNAPSHOT_TYPE_def)
  have group: "finite (gr_tickers example_conn_group)" "gr_tickers example_conn_group \<noteq> {}" "''K'' \<in> gr_tickers example_conn_group"
    by (simp_all add: example_conn_group_def)
  have channel: "si_channel \<lparr>si_sid = 7, si_channel = ORDERBOOK_CHANNEL, si_group_id = ''g0000''\<rparr> = ORDERBOOK_CHANNEL" by simp
  obtain st' r where c: "check_sequence example_env example_skipped example_rc example_imaged = (st', r)" by fastforce
  have "ws_open \<lparr>ws_open = True, ws_next_command_id = 2, ws_wire = [(1, SubscribeCommand [ORDERBOOK_CHANNEL] (Some [''K'']) (Some True) None)],
      ws_outcome = (\<lambda>_. SendOk)\<rparr>" by simp
  then have "sv_gaps st' = sv_gaps example_imaged + 1 \<and> \<not> book_fresh ''K'' st'"
    using gap_stales_and_asks [OF gap(1) obs example_imaged(9) channel example_imaged(10) group(1,2) ss _ c] gap(2) group(3)
    by (simp add: example_imaged)
  then show ?thesis by (simp add: c book_fresh_def example_imaged(1) is_stale_def)
qed


definition example_wide :: supervisor where
  "example_wide = example_base\<lparr>sv_desired := Some (example_conn_group\<lparr>gr_tickers := {''K'', ''L'', ''M''}\<rparr>),
     sv_applied := None, sv_pending := [], sv_session := Some ((new_ws_session (\<lambda>_. SendOk))\<lparr>ws_open := True\<rparr>)\<rparr>"


text \<open>
  C24. On every session a supervisor ever has, the commands given to the socket are numbered
  1, 2, 3 and so on, whatever became of each, and no subscribe and no membership change names more
  markets than \<^verbatim>\<open>max_markets_per_command\<close>. Only a \<^verbatim>\<open>get_snapshot\<close> is not held to the limit.
\<close>

theorem commands_stay_bounded:
  assumes "new_supervisor cf has_sink = Inr st0" "config_error cf = None" "sup_run ev st0 st" "sv_session st = Some ss"
  shows "map fst (ws_wire ss) = [1..int (length (ws_wire ss))] \<and>
    list_all (\<lambda>(_, cmd). asks_snapshot cmd \<or> int (length (command_markets cmd)) \<le> cf_max_markets_per_command cf) (ws_wire ss)"
proof -
  have "0 \<le> cf_max_markets_per_command cf" using assms(2) by (simp add: config_error_def Let_def split: if_splits)
  moreover have "sv_config st0 = cf" "wire_ok st0" using assms(1) by (auto simp: new_supervisor_def wire_ok_def split: if_splits)
  ultimately have "sv_config st = cf" "wire_ok st" using orderly_run [OF assms(3)] by (auto simp: orderly_def)
  with assms(4) show ?thesis by (simp add: wire_ok_def within_limit_def)
qed

theorem commands_stay_bounded_witness:
  "\<exists>ss. sv_session example_imaged = Some ss \<and> ws_wire ss \<noteq> [] \<and> map fst (ws_wire ss) = [1..int (length (ws_wire ss))]"
proof -
  have run: "sup_run example_env example_new example_imaged" by (rule sup_run_trans [OF example_run])
  obtain ss where ss: "sv_session example_imaged = Some ss" "ws_wire ss \<noteq> []"
    by (simp add: example_imaged example_base_def)
  then show ?thesis using commands_stay_bounded [OF example_started run ss(1)] by blast
qed

text \<open>The delay before the next attempt: between half the nominal delay and the nominal delay.\<close>

lemma backoff_delay_range:
  assumes "backoff_delay_s n initial_ns max_ns j = Inr delay"
  shows "of_int (backoff_nominal_ns n initial_ns max_ns) / 2 \<le> delay * of_int NS_PER_S \<and>
    delay * of_int NS_PER_S < of_int (backoff_nominal_ns n initial_ns max_ns) \<and>
    initial_ns \<le> backoff_nominal_ns n initial_ns max_ns \<and> backoff_nominal_ns n initial_ns max_ns \<le> max_ns"
proof -
  let ?nominal = "backoff_nominal_ns n initial_ns max_ns"
  have bounds: "0 \<le> n" "0 \<le> j" "j < 1" "0 < initial_ns" "initial_ns \<le> max_ns"
      and delay: "delay = of_int ?nominal * (1 / 2 + j / 2) / of_int NS_PER_S"
    using assms by (auto simp: backoff_delay_s_def split: if_splits)
  have nominal: "initial_ns \<le> ?nominal \<and> ?nominal \<le> max_ns" using backoff_nominal_range bounds by blast
  then have pos: "(0::rat) < of_int ?nominal" using bounds(4) by simp
  have "delay * of_int NS_PER_S = of_int ?nominal * (1 / 2 + j / 2)" by (simp add: delay NS_PER_S_def)
  moreover have "of_int ?nominal * (1 / 2) \<le> of_int ?nominal * (1 / 2 + j / 2)"
    using pos bounds(2) by (intro mult_left_mono) simp_all
  moreover have "of_int ?nominal * (1 / 2 + j / 2) < of_int ?nominal * 1"
    using pos bounds(3) by (intro mult_strict_left_mono) simp_all
  ultimately show ?thesis using nominal by simp
qed

text \<open>
  C25. The count of consecutive failures is never reset. Over any series of connections that are
  lost, whatever frames each of them carried, it grows by one with every loss, because the end of a
  connection forgets the frames counted on it before the backoff looks at them. So with a failure
  limit a supervisor gives up on the first connection it loses after as many losses in its life as
  the limit, and not after as many losses in a row.
\<close>

theorem failures_are_never_forgotten:
  assumes "config_error (sv_config st) = None" "0 \<le> sv_consecutive_failures st"
    "list_all (\<lambda>a. 0 \<le> at_jitter a \<and> at_jitter a < 1) as" "\<not> sv_stop_requested st"
    "run_attempts ev error_text as st = (st', ended)"
  shows "(ended = None \<longrightarrow> sv_consecutive_failures st' = sv_consecutive_failures st + int (length as) \<and>
      sv_reconnects st' = sv_reconnects st + int (length as)) \<and>
    (\<forall>limit. cf_max_consecutive_failures (sv_config st) = Some limit \<and> limit < sv_consecutive_failures st + int (length as) \<and>
       0 < length as \<longrightarrow> ended \<noteq> None) \<and>
    (\<forall>d. ended = Some (RunAbandoned d) \<longrightarrow>
       (\<exists>limit. cf_max_consecutive_failures (sv_config st) = Some limit \<and> limit < sv_consecutive_failures st'))"
  using assms
proof (induction as arbitrary: st)
  case (Cons a as)
  obtain st1 r where c: "run_connection ev error_text a st = (st1, r)" by fastforce
  have st1: "sv_config st1 = sv_config st" "sv_consecutive_failures st1 = sv_consecutive_failures st"
      "sv_reconnects st1 = sv_reconnects st" "sv_stop_requested st1 = sv_stop_requested st" "sv_frames_this_connection st1 = 0"
    using uncounted_connection [of st ev error_text a] run_connection_frames [of ev error_text a st] c
    by (simp_all add: uncounted_def)
  show ?case
  proof (cases r)
    case (ConnectionLost d)
    obtain st2 out where b: "back_off (at_jitter a) st1 = (st2, out)" by fastforce
    have j: "0 \<le> at_jitter a" "at_jitter a < 1" using Cons.prems(3) by simp_all
    have pre: "config_error (sv_config st1) = None" "0 \<le> sv_consecutive_failures st1" using Cons.prems(1,2) st1 by simp_all
    note loss = loss_counts [OF pre j st1(5) b]
    show ?thesis
    proof (cases "out = GiveUp")
      case True
      then have e: "(st', ended) = (st2, Some (RunAbandoned d))"
        using Cons.prems(4,5) c ConnectionLost b by simp
      show ?thesis using e loss(1,5) True st1 by auto
    next
      case False
      then obtain delay where out: "out = RetryAfter delay" using loss(6) by blast
      let ?st3 = "st2\<lparr>sv_reconnects := sv_reconnects st2 + 1\<rparr>"
      have run: "run_attempts ev error_text as ?st3 = (st', ended)"
        using Cons.prems(4,5) c ConnectionLost b out loss(4) st1(4) by simp
      have "\<not> (\<exists>limit. cf_max_consecutive_failures (sv_config st) = Some limit \<and> limit \<le> sv_consecutive_failures st)"
        using False loss(5) st1(1,2) by simp
      with Cons.IH [OF _ _ _ _ run] Cons.prems(1-4) loss(1-4) st1 show ?thesis
        by (cases as) auto
    qed
  qed (use Cons.prems(4,5) c in auto)
qed simp

definition example_attempt :: attempt where
  "example_attempt = \<lparr>at_outcome = (\<lambda>_. SendOk), at_connect = Connected, at_frames = [received_frame ''x'', received_frame ''y''],
     at_end = StreamFailed ''closed'', at_jitter = 0\<rparr>"

lemma example_attempt_lost:
  "snd (run_connection example_env (\<lambda>_. []) example_attempt (example_new\<lparr>sv_consecutive_failures := 3\<rparr>)) = ConnectionLost ''closed''"
  by (simp add: run_connection_def consume_def example_attempt_def example_new_def sup_eval example_defs STOPPED_def
      decode_failed_def)

theorem failures_are_never_forgotten_witness:
  "length (at_frames example_attempt) = 2 \<and>
   sv_consecutive_failures (fst (run_attempts example_env (\<lambda>_. []) [example_attempt] (example_new\<lparr>sv_consecutive_failures := 3\<rparr>))) = 4"
proof -
  let ?st = "example_new\<lparr>sv_consecutive_failures := 3\<rparr>"
  obtain st1 where c: "run_connection example_env (\<lambda>_. []) example_attempt ?st = (st1, ConnectionLost ''closed'')"
    using example_attempt_lost by (metis prod.collapse)
  obtain st' ended where r: "run_attempts example_env (\<lambda>_. []) [example_attempt] ?st = (st', ended)" by fastforce
  have new: "config_error (sv_config ?st) = None" "0 \<le> sv_consecutive_failures ?st" "\<not> sv_stop_requested ?st"
      "sv_config ?st = example_config" "list_all (\<lambda>a. 0 \<le> at_jitter a \<and> at_jitter a < 1) [example_attempt]"
    by (simp_all add: example_new_def new_supervisor_def example_config_def config_error_def example_attempt_def)
  have st1: "sv_config st1 = example_config" "sv_consecutive_failures st1 = 3" "sv_frames_this_connection st1 = 0"
    using uncounted_connection [of ?st example_env "\<lambda>_. []" example_attempt] c
      run_connection_frames [of example_env "\<lambda>_. []" example_attempt ?st] new(4) by (simp_all add: uncounted_def)
  obtain st2 out where b: "back_off (at_jitter example_attempt) st1 = (st2, out)" by fastforce
  have j: "0 \<le> at_jitter example_attempt" "at_jitter example_attempt < 1" by (simp_all add: example_attempt_def)
  have pre: "config_error (sv_config st1) = None" "0 \<le> sv_consecutive_failures st1"
    using example_started(2) by (simp_all add: st1)
  note loss = loss_counts [OF pre j st1(3) b]
  have "out \<noteq> GiveUp" using loss(5) st1(1) by (simp add: example_config_def)
  then obtain delay where "out = RetryAfter delay" using loss(6) by blast
  then have "ended = None" using r c b new(3) by simp
  moreover have "(ended = None \<longrightarrow> sv_consecutive_failures st' = sv_consecutive_failures ?st + int (length [example_attempt]) \<and>
      sv_reconnects st' = sv_reconnects ?st + int (length [example_attempt]))"
    using failures_are_never_forgotten [OF new(1,2,5,3) r] by blast
  moreover have "sv_consecutive_failures ?st = 3" by simp
  ultimately have "sv_consecutive_failures st' = 4" by (simp only: list.size)
  moreover have "length (at_frames example_attempt) = 2" by (simp add: example_attempt_def)
  ultimately show ?thesis by (simp only: r fst_conv simp_thms)
qed

section \<open>Where the code and its documentation differ\<close>

text \<open>
  A request for no market leaves the subscription awaiting nothing rather than not awaiting. The
  next snapshot on it is then taken for a resnapshot and starts the sequence anew, so a gap right
  before it is neither counted nor taped. A merge whose markets all have fresh books makes such a
  request (\<^verbatim>\<open>_adopt_membership\<close>).
\<close>

lemma empty_request_hides_gap:
  assumes "dict_get (sv_resyncing st) sid = None" "dict_get (sv_tracker st) sid \<noteq> None"
    "en_type env = SNAPSHOT_TYPE" "en_sid env = Some sid"
  shows "\<exists>st1 st2. request_snapshot ev sid {} st = (st1, Inr ()) \<and> sv_tracker st1 = sv_tracker st \<and>
    check_sequence ev env rc st1 = (st2, Inr ()) \<and> sv_gaps st2 = sv_gaps st \<and> sv_sink st2 = sv_sink st"
proof -
  let ?st1 = "st\<lparr>sv_resyncing := dict_put sid {} (sv_resyncing st)\<rparr>"
  have r: "request_snapshot ev sid {} st = (?st1, Inr ())"
    using assms(1) by (simp add: request_snapshot_def dict_get_or_def)
  have "sid \<in> set (dict_keys (sv_resyncing ?st1))" by (simp add: dom_update dict_keys_set dict_simps dom_def)
  then have "\<exists>st2. check_sequence ev env rc ?st1 = (st2, Inr ()) \<and> sv_gaps st2 = sv_gaps st \<and> sv_sink st2 = sv_sink st"
    using assms(2-4)
    by (auto simp: check_sequence_def gt_reset_def observe_def observe_state_def dict_get_or_def dict_simps Let_def
        split: option.splits)
  with r show ?thesis by auto
qed

text \<open>
  A lifecycle payload that is not UTF-8 is not counted as a decode error: the error leaves the
  handler, and with it \<^verbatim>\<open>run\<close>.
\<close>

lemma bad_text_ends_the_supervisor:
  assumes "en_type env = ''market_lifecycle_v2''" "ev_lifecycle_msg ev (en_msg env) = Some msg" "en_sid env = Some sid"
    "ev_utf8 ev (en_msg env) = None"
  shows "caught (dispatch ev env rc st) = (st, Inl (ConvertFailed UnicodeError))"
  using assms by (simp add: dispatch_def decoded_def converting_def to_lifecycle_def caught_def)

text \<open>
  A membership change can be sent while a subscribe awaits its reply: the firehose is asked for
  again first, in the same reconciliation.
\<close>

definition example_firehose :: supervisor where
  "example_firehose = example_imaged\<lparr>sv_config := example_config\<lparr>cf_firehose_channels := [''market_lifecycle_v2'']\<rparr>,
     sv_desired := Some (example_conn_group\<lparr>gr_tickers := {''K'', ''L''}\<rparr>)\<rparr>"

lemma membership_while_firehose_pending:
  "\<exists>st ss. reconcile example_env example_firehose = (st, Inr ()) \<and> subscribing FIREHOSE_GROUP_ID st \<and>
     sv_session st = Some ss \<and> tl (ws_wire ss) =
       [(2, SubscribeCommand [''market_lifecycle_v2''] None None None), (3, UpdateSubscriptionCommand 7 AddMarketsAction [''L''])]"
  unfolding example_firehose_def example_imaged_def example_answered
  by (simp add: example_base_def sup_eval example_defs must_rebuild_def market_change_def split_markets_def subscribing_def
      sid_of_def sids_def new_update_def applied_group_def FIREHOSE_GROUP_ID_def)

end
