(* ===== verification/Segment.thy ===== *)
theory Segment
  imports Prelude
begin

text \<open>
  \<^verbatim>\<open>tape/segment/segment.py\<close>: the raw segment format, its writer and its streaming reader. Bytes
  are characters, so a payload is a \<open>string\<close>. The zstd stream is a parameter: the writer records
  the bytes it hands to the compressor and how many of them it has flushed; the reader is given
  what decompressing each chunk of the file returned. The JSON of the file header is a parameter
  too: its bytes for the writer, its decoder for the reader.
\<close>

section \<open>Little-endian fields\<close>

primrec le_bytes :: "nat \<Rightarrow> int \<Rightarrow> string" where
  "le_bytes 0 v = []"
| "le_bytes (Suc n) v = char_of (nat (v mod 256)) # le_bytes n (v div 256)"

primrec le_value :: "string \<Rightarrow> int" where
  "le_value [] = 0"
| "le_value (c # cs) = int (of_char c) + 256 * le_value cs"

definition fits :: "nat \<Rightarrow> int \<Rightarrow> bool" where
  "fits n v \<longleftrightarrow> 0 \<le> v \<and> v < 256 ^ n"

lemma length_le_bytes [simp]: "length (le_bytes n v) = n"
  by (induction n arbitrary: v) simp_all

lemma of_char_byte: "of_char (char_of (nat (v mod 256)) :: char) = nat (v mod 256)"
  by (simp add: of_char_of nat_mod_distrib)

lemma le_value_bytes: "0 \<le> v \<Longrightarrow> le_value (le_bytes n v) = v mod 256 ^ n"
proof (induction n arbitrary: v)
  case (Suc n)
  have "le_value (le_bytes (Suc n) v) = v mod 256 + 256 * ((v div 256) mod 256 ^ n)"
    using Suc by (simp add: of_char_byte)
  also have "\<dots> = v mod 256 ^ Suc n" by (simp add: zmod_zmult2_eq)
  finally show ?case .
qed simp

lemma le_round: "fits n v \<Longrightarrow> le_value (le_bytes n v) = v"
  by (simp add: fits_def le_value_bytes)

lemma le_value_range: "fits (length cs) (le_value cs)"
proof (induction cs)
  case (Cons c cs)
  have "of_char c < (256 :: nat)" by (rule nat_of_char_less_256)
  then have "int (of_char c) \<le> 255" by linarith
  with Cons show ?case by (auto simp: fits_def)
qed (simp add: fits_def)

section \<open>Records\<close>

definition MAGIC :: string where "MAGIC = ''TAPE''"
definition FORMAT_VERSION :: int where "FORMAT_VERSION = 1"
definition FILE_HEADER_SIZE :: nat where "FILE_HEADER_SIZE = 10"
definition RECORD_HEADER_SIZE :: nat where "RECORD_HEADER_SIZE = 23"
definition MAX_PAYLOAD :: int where "MAX_PAYLOAD = 2 ^ 32 - 1"

datatype record_kind = FRAME | COMMAND | GAP | CONNECTION | AUDIT

definition kind_code :: "record_kind \<Rightarrow> int" where
  "kind_code k = (case k of FRAME \<Rightarrow> 1 | COMMAND \<Rightarrow> 2 | GAP \<Rightarrow> 3 | CONNECTION \<Rightarrow> 4 | AUDIT \<Rightarrow> 5)"

definition kind_of_code :: "int \<Rightarrow> record_kind option" where
  "kind_of_code n = (if n = 1 then Some FRAME else if n = 2 then Some COMMAND else if n = 3 then Some GAP
     else if n = 4 then Some CONNECTION else if n = 5 then Some AUDIT else None)"

record seg_record =
  sr_kind :: record_kind
  sr_conn_id :: int
  sr_recv_mono_ns :: int
  sr_recv_wall_ns :: int
  sr_payload :: string

text \<open>A value outside its field makes \<^verbatim>\<open>struct.pack\<close> raise.\<close>

datatype segment_error = WriterClosed | PayloadTooLarge | FieldOutOfRange

definition pack_record_header :: "seg_record \<Rightarrow> segment_error + string" where
  "pack_record_header r =
     (if fits 2 (sr_conn_id r) \<and> fits 8 (sr_recv_mono_ns r) \<and> fits 8 (sr_recv_wall_ns r) \<and>
         fits 4 (int (length (sr_payload r)))
      then Inr (le_bytes 1 (kind_code (sr_kind r)) @ le_bytes 2 (sr_conn_id r) @ le_bytes 8 (sr_recv_mono_ns r) @
                le_bytes 8 (sr_recv_wall_ns r) @ le_bytes 4 (int (length (sr_payload r))))
      else Inl FieldOutOfRange)"

definition pack_file_header :: "string \<Rightarrow> segment_error + string" where
  "pack_file_header json =
     (if fits 4 (int (length json))
      then Inr (MAGIC @ le_bytes 2 FORMAT_VERSION @ le_bytes 4 (int (length json)))
      else Inl FieldOutOfRange)"

section \<open>The writer\<close>

text \<open>\<open>sw_written\<close> is everything handed to the compressor, \<open>sw_flushed\<close> how much of it is on the disk for certain.\<close>

record seg_writer =
  sw_written :: string
  sw_flushed :: nat
  sw_closed :: bool
  sw_records_written :: int
  sw_bytes_written :: int

definition sw_write :: "string \<Rightarrow> seg_writer \<Rightarrow> seg_writer" where
  "sw_write bs w = w\<lparr>sw_written := sw_written w @ bs, sw_bytes_written := sw_bytes_written w + int (length bs)\<rparr>"

definition new_seg_writer :: "string \<Rightarrow> segment_error + seg_writer" where
  "new_seg_writer json =
     result_bind (pack_file_header json) (\<lambda>bs.
       Inr (sw_write json (sw_write bs
         \<lparr>sw_written = [], sw_flushed = 0, sw_closed = False, sw_records_written = 0, sw_bytes_written = 0\<rparr>)))"

definition seg_append :: "seg_record \<Rightarrow> seg_writer \<Rightarrow> seg_writer \<times> (segment_error + unit)" where
  "seg_append r w =
     (if sw_closed w then (w, Inl WriterClosed)
      else if int (length (sr_payload r)) > MAX_PAYLOAD then (w, Inl PayloadTooLarge)
      else case pack_record_header r of
             Inl e \<Rightarrow> (w, Inl e)
           | Inr bs \<Rightarrow>
               (let w = sw_write (sr_payload r) (sw_write bs w)
                in (w\<lparr>sw_records_written := sw_records_written w + 1\<rparr>, Inr ())))"

definition seg_flush :: "seg_writer \<Rightarrow> seg_writer" where
  "seg_flush w = (if sw_closed w then w else w\<lparr>sw_flushed := length (sw_written w)\<rparr>)"

definition seg_close :: "seg_writer \<Rightarrow> seg_writer" where
  "seg_close w = (if sw_closed w then w else w\<lparr>sw_closed := True, sw_flushed := length (sw_written w)\<rparr>)"

datatype seg_op = SegAppend seg_record | SegFlush | SegClose

definition seg_step :: "seg_op \<Rightarrow> seg_writer \<Rightarrow> seg_writer" where
  "seg_step op w = (case op of SegAppend r \<Rightarrow> fst (seg_append r w) | SegFlush \<Rightarrow> seg_flush w | SegClose \<Rightarrow> seg_close w)"

section \<open>The reader\<close>

text \<open>
  What one read of the file gives: the bytes decompressed from it, whether the compressed frame has
  ended with it, and whether input was left over; or the decompressor's error. The list ends where
  the file ends.
\<close>

datatype fill_chunk = Chunk string bool bool | ZstdError

record seg_reader =
  rd_source :: "fill_chunk list"
  rd_frame_eof :: bool
  rd_buffer :: string
  rd_eof :: bool
  rd_truncated :: bool
  rd_damaged :: bool

fun fill_from :: "fill_chunk list \<Rightarrow> seg_reader \<Rightarrow> seg_reader \<times> bool" where
  "fill_from [] rd =
     (rd\<lparr>rd_source := [], rd_eof := True, rd_truncated := rd_truncated rd \<or> \<not> rd_frame_eof rd\<rparr>, False)"
| "fill_from (ZstdError # fs) rd = (rd\<lparr>rd_source := fs, rd_eof := True, rd_damaged := True\<rparr>, False)"
| "fill_from (Chunk bs ends unused # fs) rd =
     (let rd = rd\<lparr>rd_source := fs, rd_frame_eof := ends, rd_buffer := rd_buffer rd @ bs\<rparr>
      in if ends \<and> unused then (rd\<lparr>rd_eof := True, rd_damaged := True\<rparr>, bs \<noteq> [])
         else if bs \<noteq> [] then (rd, True)
         else fill_from fs rd)"

definition rd_fill :: "seg_reader \<Rightarrow> seg_reader \<times> bool" where
  "rd_fill rd = (if rd_eof rd then (rd, False) else fill_from (rd_source rd) rd)"

lemma fill_from_shorter: "fill_from fs rd = (rd', True) \<Longrightarrow> length (rd_source rd') < length fs"
  by (induction fs rd rule: fill_from.induct) (auto simp: Let_def intro: less_SucI split: if_splits)

lemma rd_fill_shorter: "rd_fill rd = (rd', True) \<Longrightarrow> length (rd_source rd') < length (rd_source rd)"
  by (auto simp: rd_fill_def dest: fill_from_shorter split: if_splits)

function rd_ensure :: "nat \<Rightarrow> seg_reader \<Rightarrow> seg_reader \<times> bool" where
  "rd_ensure needed rd =
     (if needed \<le> length (rd_buffer rd) then (rd, True)
      else case rd_fill rd of (rd', got) \<Rightarrow> if got then rd_ensure needed rd' else (rd', False))"
  by auto
termination
  by (relation "measure (\<lambda>(_, rd). length (rd_source rd))") (auto dest: rd_fill_shorter [OF sym])

declare rd_ensure.simps [simp del]

text \<open>Taking the fields of a header apart again.\<close>

definition field :: "nat \<Rightarrow> nat \<Rightarrow> string \<Rightarrow> int" where
  "field i n bs = le_value (take n (drop i bs))"

primrec source_bytes :: "fill_chunk list \<Rightarrow> nat" where
  "source_bytes [] = 0"
| "source_bytes (f # fs) = (case f of Chunk bs _ _ \<Rightarrow> length bs | ZstdError \<Rightarrow> 0) + source_bytes fs"

lemma fill_from_bytes:
  "fill_from fs rd = (rd', got) \<Longrightarrow>
     length (rd_buffer rd') + source_bytes (rd_source rd') \<le> length (rd_buffer rd) + source_bytes fs"
  by (induction fs rd rule: fill_from.induct) (auto simp: Let_def split: if_splits)

lemma rd_ensure_bytes:
  "rd_ensure needed rd = (rd', ok) \<Longrightarrow>
     length (rd_buffer rd') + source_bytes (rd_source rd') \<le> length (rd_buffer rd) + source_bytes (rd_source rd)"
proof (induction needed rd arbitrary: rd' ok rule: rd_ensure.induct)
  case (1 needed rd)
  obtain rd1 got where f: "rd_fill rd = (rd1, got)" by fastforce
  then have "length (rd_buffer rd1) + source_bytes (rd_source rd1) \<le> length (rd_buffer rd) + source_bytes (rd_source rd)"
    using fill_from_bytes by (auto simp: rd_fill_def split: if_splits)
  with 1 f show ?case by (fastforce simp: rd_ensure.simps [of needed rd] split: if_splits)
qed

lemma rd_ensure_enough: "rd_ensure needed rd = (rd', True) \<Longrightarrow> needed \<le> length (rd_buffer rd')"
proof (induction needed rd arbitrary: rd' rule: rd_ensure.induct)
  case (1 needed rd)
  obtain rd1 got where "rd_fill rd = (rd1, got)" by fastforce
  with 1 show ?case by (fastforce simp: rd_ensure.simps [of needed rd] split: if_splits)
qed

lemma rd_step_shorter:
  assumes "(rd1, ok) = rd_ensure RECORD_HEADER_SIZE rd" "(rd2, True) = rd_ensure (RECORD_HEADER_SIZE + n) rd1"
  shows "length (rd_buffer rd2) - (RECORD_HEADER_SIZE + n) + source_bytes (rd_source rd2)
    < length (rd_buffer rd) + source_bytes (rd_source rd)"
  using rd_ensure_bytes [OF assms(1) [symmetric]] rd_ensure_bytes [OF assms(2) [symmetric]]
    rd_ensure_enough [OF assms(2) [symmetric]]
  by (simp add: RECORD_HEADER_SIZE_def)

text \<open>The generator of records, run to its end: the records, the reader, and the unknown kind it raised for.\<close>

function rd_records :: "seg_reader \<Rightarrow> seg_record list \<times> seg_reader \<times> int option" where
  "rd_records rd =
     (case rd_ensure RECORD_HEADER_SIZE rd of (rd, ok) \<Rightarrow>
      if \<not> ok then ([], rd\<lparr>rd_truncated := rd_truncated rd \<or> rd_buffer rd \<noteq> []\<rparr>, None)
      else let kind = field 0 1 (rd_buffer rd); conn_id = field 1 2 (rd_buffer rd);
               mono = field 3 8 (rd_buffer rd); wall = field 11 8 (rd_buffer rd);
               size = nat (field 19 4 (rd_buffer rd))
           in case rd_ensure (RECORD_HEADER_SIZE + size) rd of (rd, ok) \<Rightarrow>
              if \<not> ok then ([], rd\<lparr>rd_truncated := True\<rparr>, None)
              else let payload = take size (drop RECORD_HEADER_SIZE (rd_buffer rd));
                       rd = rd\<lparr>rd_buffer := drop (RECORD_HEADER_SIZE + size) (rd_buffer rd)\<rparr>
                   in case kind_of_code kind of
                        None \<Rightarrow> ([], rd, Some kind)
                      | Some k \<Rightarrow>
                          (case rd_records rd of (rs, rd', err) \<Rightarrow>
                             (\<lparr>sr_kind = k, sr_conn_id = conn_id, sr_recv_mono_ns = mono, sr_recv_wall_ns = wall,
                               sr_payload = payload\<rparr> # rs, rd', err)))"
  by auto
termination
proof (relation "measure (\<lambda>rd. length (rd_buffer rd) + source_bytes (rd_source rd))", goal_cases)
  case 2
  then show ?case
    by (auto dest: rd_step_shorter)
qed simp

declare rd_records.simps [simp del]

datatype corruption = ShorterThanHeader | BadMagic string | UnsupportedVersion int | TruncatedHeader | MalformedHeader

definition rd_open :: "(string \<Rightarrow> 'h option) \<Rightarrow> fill_chunk list \<Rightarrow> corruption + seg_reader \<times> 'h" where
  "rd_open decode source =
     (case rd_ensure FILE_HEADER_SIZE \<lparr>rd_source = source, rd_frame_eof = False, rd_buffer = [], rd_eof = False,
             rd_truncated = False, rd_damaged = False\<rparr> of (rd, ok) \<Rightarrow>
      if \<not> ok then Inl ShorterThanHeader
      else let magic = take 4 (rd_buffer rd); version = field 4 2 (rd_buffer rd); size = nat (field 6 4 (rd_buffer rd))
           in if magic \<noteq> MAGIC then Inl (BadMagic magic)
              else if version \<noteq> FORMAT_VERSION then Inl (UnsupportedVersion version)
              else case rd_ensure (FILE_HEADER_SIZE + size) rd of (rd, ok) \<Rightarrow>
                if \<not> ok then Inl TruncatedHeader
                else case decode (take size (drop FILE_HEADER_SIZE (rd_buffer rd))) of
                       None \<Rightarrow> Inl MalformedHeader
                     | Some h \<Rightarrow> Inr (rd\<lparr>rd_buffer := drop (FILE_HEADER_SIZE + size) (rd_buffer rd)\<rparr>, h))"


section \<open>The reader and the stream\<close>

text \<open>
  What is left of a source once decompressed, and how it ends: complete, cut off inside the
  compressed frame, or damaged. A reader holds a part of it in its buffer.
\<close>

datatype stream_ending = Complete | CutOff | Damaged

fun stream_of :: "bool \<Rightarrow> fill_chunk list \<Rightarrow> string \<times> stream_ending" where
  "stream_of ended [] = ([], if ended then Complete else CutOff)"
| "stream_of ended (ZstdError # fs) = ([], Damaged)"
| "stream_of ended (Chunk bs ends unused # fs) =
     (if ends \<and> unused then (bs, Damaged) else case stream_of ends fs of (rest, ending) \<Rightarrow> (bs @ rest, ending))"

definition rest_of :: "seg_reader \<Rightarrow> string \<times> stream_ending" where
  "rest_of rd =
     (if rd_eof rd then (rd_buffer rd, if rd_damaged rd then Damaged else if rd_truncated rd then CutOff else Complete)
      else case stream_of (rd_frame_eof rd) (rd_source rd) of (bs, ending) \<Rightarrow> (rd_buffer rd @ bs, ending))"

definition wf_reader :: "seg_reader \<Rightarrow> bool" where
  "wf_reader rd \<longleftrightarrow> \<not> (rd_truncated rd \<and> rd_damaged rd) \<and> (\<not> rd_eof rd \<longrightarrow> \<not> rd_truncated rd \<and> \<not> rd_damaged rd)"

lemma fill_from_rest:
  assumes "fill_from fs rd = (rd', got)" "\<not> rd_eof rd" "wf_reader rd" "rd_source rd = fs"
  shows "rest_of rd' = rest_of rd \<and> wf_reader rd' \<and> (\<not> got \<longrightarrow> rd_eof rd')"
  using assms
proof (induction fs rd rule: fill_from.induct)
  case (3 bs ends unused fs rd)
  let ?rd = "rd\<lparr>rd_source := fs, rd_frame_eof := ends, rd_buffer := rd_buffer rd @ bs\<rparr>"
  show ?case
  proof (cases "ends \<and> unused")
    case True
    with 3 show ?thesis by (auto simp: rest_of_def wf_reader_def)
  next
    case False
    have "rest_of ?rd = rest_of rd" using False 3(3,5) by (auto simp: rest_of_def split: prod.splits)
    moreover have "wf_reader ?rd" using 3(4) by (simp add: wf_reader_def)
    ultimately show ?thesis using 3(1) [OF refl False] False 3(2,3) by (cases "bs = []") auto
  qed
qed (auto simp: rest_of_def wf_reader_def)

lemma fill_from_stuck: "fill_from fs rd = (rd', False) \<Longrightarrow> rd_buffer rd' = rd_buffer rd"
  by (induction fs rd rule: fill_from.induct) (auto simp: Let_def split: if_splits)

lemma rd_ensure_rest:
  assumes "rd_ensure needed rd = (rd', ok)" "wf_reader rd"
  shows "rest_of rd' = rest_of rd \<and> wf_reader rd' \<and> ok = (needed \<le> length (fst (rest_of rd))) \<and>
    (ok \<longrightarrow> needed \<le> length (rd_buffer rd')) \<and> (\<not> ok \<longrightarrow> rd_eof rd' \<and> rd_buffer rd' = fst (rest_of rd))"
  using assms
proof (induction needed rd arbitrary: rd' ok rule: rd_ensure.induct)
  case (1 needed rd)
  show ?case
  proof (cases "needed \<le> length (rd_buffer rd)")
    case True
    then have "needed \<le> length (fst (rest_of rd))" by (auto simp: rest_of_def split: prod.splits)
    with True 1(2,3) show ?thesis by (simp add: rd_ensure.simps [of needed rd])
  next
    case False
    obtain rd1 got where f: "rd_fill rd = (rd1, got)" by fastforce
    have keeps: "rest_of rd1 = rest_of rd" "wf_reader rd1" "\<not> got \<longrightarrow> rd_eof rd1"
      using f 1(3) fill_from_rest [of "rd_source rd" rd rd1 got] by (auto simp: rd_fill_def split: if_splits)
    show ?thesis
    proof (cases got)
      case True
      then have "rd_ensure needed rd1 = (rd', ok)" using False f 1(2) by (simp add: rd_ensure.simps [of needed rd])
      then show ?thesis using 1(1) [OF False f [symmetric] True] keeps by simp
    next
      case stuck: False
      then have "rd' = rd1" "\<not> ok" using False f 1(2) by (simp_all add: rd_ensure.simps [of needed rd])
      moreover have "rd_eof rd1" using keeps(3) stuck by blast
      moreover have "fst (rest_of rd) = rd_buffer rd1"
        using calculation(3) keeps(1) [symmetric] by (simp add: rest_of_def)
      moreover have "rd_buffer rd1 = rd_buffer rd"
        using f stuck by (auto simp: rd_fill_def dest: fill_from_stuck split: if_splits)
      ultimately show ?thesis using keeps False by simp
    qed
  qed
qed

lemma rest_at_end:
  assumes "wf_reader rd" "rd_eof rd"
  shows "snd (rest_of rd) = CutOff \<longleftrightarrow> rd_truncated rd" "snd (rest_of rd) = Damaged \<longleftrightarrow> rd_damaged rd"
  using assms by (auto simp: rest_of_def wf_reader_def)

lemma rest_prefix: "\<exists>bs. fst (rest_of rd) = rd_buffer rd @ bs"
  by (auto simp: rest_of_def split: prod.splits)

lemma field_prefix: "i + n \<le> length xs \<Longrightarrow> field i n (xs @ ys) = field i n xs"
  by (simp add: field_def)

section \<open>Parsing a whole stream\<close>

text \<open>
  The reference for the reader: the records of a complete string of bytes, whether part of a record
  is left, and the unknown kind met, if any.
\<close>

definition record_at :: "record_kind \<Rightarrow> string \<Rightarrow> seg_record" where
  "record_at k bs = \<lparr>sr_kind = k, sr_conn_id = field 1 2 bs, sr_recv_mono_ns = field 3 8 bs,
     sr_recv_wall_ns = field 11 8 bs, sr_payload = take (nat (field 19 4 bs)) (drop RECORD_HEADER_SIZE bs)\<rparr>"

function parse_records :: "string \<Rightarrow> seg_record list \<times> bool \<times> int option" where
  "parse_records bs =
     (if length bs < RECORD_HEADER_SIZE then ([], bs \<noteq> [], None)
      else if length bs < RECORD_HEADER_SIZE + nat (field 19 4 bs) then ([], True, None)
      else case kind_of_code (field 0 1 bs) of
             None \<Rightarrow> ([], False, Some (field 0 1 bs))
           | Some k \<Rightarrow>
               (case parse_records (drop (RECORD_HEADER_SIZE + nat (field 19 4 bs)) bs) of
                  (rs, partial, err) \<Rightarrow> (record_at k bs # rs, partial, err)))"
  by auto
termination by (relation "measure length") (auto simp: RECORD_HEADER_SIZE_def)

declare parse_records.simps [simp del]

lemma rd_records_parse:
  assumes "rd_records rd = (rs, rd', err)" "wf_reader rd"
  shows "\<exists>partial. parse_records (fst (rest_of rd)) = (rs, partial, err) \<and>
    (err = None \<longrightarrow> rd_truncated rd' = (snd (rest_of rd) = CutOff \<or> partial) \<and> rd_damaged rd' = (snd (rest_of rd) = Damaged))"
  using assms
proof (induction rd arbitrary: rs rd' err rule: rd_records.induct)
  case (1 rd)
  let ?bs = "fst (rest_of rd)"
  obtain rd1 ok1 where e1: "rd_ensure RECORD_HEADER_SIZE rd = (rd1, ok1)" by fastforce
  note one = rd_ensure_rest [OF e1 1(3)]
  show ?case
  proof (cases ok1)
    case False
    moreover from False have "parse_records ?bs = ([], ?bs \<noteq> [], None)" using one by (simp add: parse_records.simps [of ?bs])
    ultimately show ?thesis using False one 1(2) e1 rest_at_end [of rd1]
      by (auto simp: rd_records.simps [of rd])
  next
    case True
    obtain tl1 where tl1: "?bs = rd_buffer rd1 @ tl1" using rest_prefix [of rd1] one by auto
    have len1: "RECORD_HEADER_SIZE \<le> length (rd_buffer rd1)" using one True by blast
    then have fields: "field i n ?bs = field i n (rd_buffer rd1)" if "i + n \<le> 23" for i n
      using that tl1 by (simp add: RECORD_HEADER_SIZE_def field_prefix)
    define size where "size = nat (field 19 4 (rd_buffer rd1))"
    obtain rd2 ok2 where e2: "rd_ensure (RECORD_HEADER_SIZE + size) rd1 = (rd2, ok2)" by fastforce
    note two = rd_ensure_rest [OF e2]
    have bs: "rest_of rd2 = rest_of rd" "wf_reader rd2" using one two by auto
    have long: "\<not> length ?bs < RECORD_HEADER_SIZE" using one True by simp
    show ?thesis
    proof (cases ok2)
      case False
      then have "parse_records ?bs = ([], True, None)"
        using long two one fields [of 19 4] by (simp add: parse_records.simps [of ?bs] size_def)
      moreover have "rs = [] \<and> rd' = rd2\<lparr>rd_truncated := True\<rparr> \<and> err = None"
        using True False 1(2) e1 e2 by (auto simp: rd_records.simps [of rd] size_def [symmetric])
      moreover have "rd_eof rd2" using False two one by blast
      ultimately show ?thesis using rest_at_end [OF bs(2)] bs(1) by (intro exI [of _ True]) simp
    next
      case enough: True
      obtain tl2 where tl2: "?bs = rd_buffer rd2 @ tl2" using rest_prefix [of rd2] bs by auto
      have len2: "RECORD_HEADER_SIZE + size \<le> length (rd_buffer rd2)" using two one enough by blast
      let ?rd3 = "rd2\<lparr>rd_buffer := drop (RECORD_HEADER_SIZE + size) (rd_buffer rd2)\<rparr>"
      have rest3: "rest_of ?rd3 = (drop (RECORD_HEADER_SIZE + size) ?bs, snd (rest_of rd))"
        using bs(1) [symmetric] len2 by (auto simp: rest_of_def split: prod.splits)
      have f: "field 19 4 ?bs = field 19 4 (rd_buffer rd1)" "field 0 1 ?bs = field 0 1 (rd_buffer rd1)"
        by (rule fields, simp)+
      have "\<not> length ?bs < RECORD_HEADER_SIZE + size" using two one enough by simp
      then have parse: "parse_records ?bs = (case kind_of_code (field 0 1 (rd_buffer rd1)) of
             None \<Rightarrow> ([], False, Some (field 0 1 (rd_buffer rd1)))
           | Some k \<Rightarrow> (case parse_records (drop (RECORD_HEADER_SIZE + size) ?bs) of
                  (rs, partial, err) \<Rightarrow> (record_at k ?bs # rs, partial, err)))"
        using long by (simp only: parse_records.simps [of ?bs] f size_def [symmetric] if_False)
      show ?thesis
      proof (cases "kind_of_code (field 0 1 (rd_buffer rd1))")
        case None
        then show ?thesis using parse True enough 1(2) e1 e2
          by (auto simp: rd_records.simps [of rd] size_def [symmetric])
      next
        case (Some k)
        obtain rs' rd4 err' where r: "rd_records ?rd3 = (rs', rd4, err')" by (cases "rd_records ?rd3")
        have "record_at k ?bs = \<lparr>sr_kind = k, sr_conn_id = field 1 2 (rd_buffer rd1), sr_recv_mono_ns = field 3 8 (rd_buffer rd1),
            sr_recv_wall_ns = field 11 8 (rd_buffer rd1), sr_payload = take size (drop RECORD_HEADER_SIZE (rd_buffer rd2))\<rparr>"
          using fields len2 tl2 by (simp add: record_at_def size_def)
        then have out: "rs = record_at k ?bs # rs'" "rd' = rd4" "err = err'"
          using 1(2) e1 e2 True enough Some r by (auto simp: rd_records.simps [of rd] size_def [symmetric])
        have "wf_reader ?rd3" using bs(2) by (simp add: wf_reader_def)
        from 1(1) [OF e1 [symmetric] _ refl refl refl refl refl _ _ refl refl, folded size_def, OF _ e2 [symmetric] _ Some r this]
        show ?thesis using True enough rest3 parse Some out by auto
      qed
    qed
  qed
qed

section \<open>What the writer writes\<close>

definition fits_record :: "seg_record \<Rightarrow> bool" where
  "fits_record r \<longleftrightarrow> fits 2 (sr_conn_id r) \<and> fits 8 (sr_recv_mono_ns r) \<and> fits 8 (sr_recv_wall_ns r) \<and>
     fits 4 (int (length (sr_payload r)))"

definition record_bytes :: "seg_record \<Rightarrow> string" where
  "record_bytes r = le_bytes 1 (kind_code (sr_kind r)) @ le_bytes 2 (sr_conn_id r) @ le_bytes 8 (sr_recv_mono_ns r) @
     le_bytes 8 (sr_recv_wall_ns r) @ le_bytes 4 (int (length (sr_payload r))) @ sr_payload r"

lemma length_record_bytes: "length (record_bytes r) = RECORD_HEADER_SIZE + length (sr_payload r)"
  by (simp add: record_bytes_def RECORD_HEADER_SIZE_def)

lemma field_skip: "length xs = k \<Longrightarrow> k \<le> i \<Longrightarrow> field i n (xs @ ys) = field (i - k) n ys"
  by (simp add: field_def)

lemma field_here: "fits n v \<Longrightarrow> field 0 n (le_bytes n v @ ys) = v"
  by (simp add: field_def le_round)

lemma kind_code_fits: "fits 1 (kind_code k)"
  by (cases k) (simp_all add: kind_code_def fits_def)

lemma kind_round [simp]: "kind_of_code (kind_code k) = Some k"
  by (cases k) (simp_all add: kind_code_def kind_of_code_def)

lemma record_fields:
  assumes "fits_record r"
  shows "field 0 1 (record_bytes r @ bs) = kind_code (sr_kind r)" "field 1 2 (record_bytes r @ bs) = sr_conn_id r"
    "field 3 8 (record_bytes r @ bs) = sr_recv_mono_ns r" "field 11 8 (record_bytes r @ bs) = sr_recv_wall_ns r"
    "field 19 4 (record_bytes r @ bs) = int (length (sr_payload r))"
  using assms by (simp_all add: record_bytes_def fits_record_def field_here kind_code_fits field_skip [of "le_bytes _ _", OF length_le_bytes]
      del: le_bytes.simps One_nat_def)

lemma parse_record_bytes:
  assumes "fits_record r"
  shows "parse_records (record_bytes r @ bs) = (case parse_records bs of (rs, partial, err) \<Rightarrow> (r # rs, partial, err))"
proof -
  note f = record_fields [OF assms, of bs]
  have "record_at (sr_kind r) (record_bytes r @ bs) = r"
  proof -
    have "drop RECORD_HEADER_SIZE (record_bytes r @ bs) = sr_payload r @ bs"
      by (simp add: record_bytes_def RECORD_HEADER_SIZE_def del: le_bytes.simps)
    then show ?thesis using f by (simp add: record_at_def)
  qed
  then show ?thesis
    using f by (simp add: parse_records.simps [of "record_bytes r @ bs"] length_record_bytes)
qed

lemma parse_cut_record:
  assumes "fits_record r" "j < length (record_bytes r)"
  shows "parse_records (take j (record_bytes r)) = ([], 0 < j, None)"
proof (cases "j < RECORD_HEADER_SIZE")
  case True
  moreover have "record_bytes r \<noteq> []" using assms(2) by auto
  ultimately show ?thesis using assms(2)
    by (simp add: parse_records.simps [of "take j (record_bytes r)"] min_def)
next
  case False
  have "field 19 4 (take j (record_bytes r)) = field 19 4 (take j (record_bytes r) @ drop j (record_bytes r))"
    using False assms(2) by (simp only: field_prefix length_take RECORD_HEADER_SIZE_def)
  then have "field 19 4 (take j (record_bytes r)) = int (length (sr_payload r))"
    using record_fields(5) [OF assms(1), of "[]"] by simp
  then show ?thesis using assms(2) False
    by (simp add: parse_records.simps [of "take j (record_bytes r)"] length_record_bytes) (simp add: RECORD_HEADER_SIZE_def)
qed

text \<open>The records of a prefix of what was written: a prefix of the records, as long as it can be.\<close>

lemma parse_prefix:
  assumes "list_all fits_record rs" "n \<le> length (concat (map record_bytes rs))"
  shows "\<exists>k \<le> length rs. parse_records (take n (concat (map record_bytes rs))) =
      (take k rs, length (concat (map record_bytes (take k rs))) < n, None) \<and>
    length (concat (map record_bytes (take k rs))) \<le> n \<and>
    (k < length rs \<longrightarrow> n < length (concat (map record_bytes (take (Suc k) rs))))"
  using assms
proof (induction rs arbitrary: n)
  case (Cons r rs)
  let ?len = "length (record_bytes r)"
  show ?case
  proof (cases "n < ?len")
    case True
    with Cons show ?thesis by (intro exI [of _ 0]) (simp add: parse_cut_record)
  next
    case False
    have "list_all fits_record rs" "n - ?len \<le> length (concat (map record_bytes rs))" using Cons.prems by simp_all
    from Cons.IH [OF this] obtain k where k: "k \<le> length rs" "parse_records (take (n - ?len) (concat (map record_bytes rs))) =
        (take k rs, length (concat (map record_bytes (take k rs))) < n - ?len, None)"
        "length (concat (map record_bytes (take k rs))) \<le> n - ?len"
        "k < length rs \<longrightarrow> n - ?len < length (concat (map record_bytes (take (Suc k) rs)))"
      by blast
    show ?thesis using False k Cons.prems
      by (intro exI [of _ "Suc k"]) (auto simp: parse_record_bytes)
  qed
qed (simp add: parse_records.simps [of "[]"] RECORD_HEADER_SIZE_def)

section \<open>A run of the writer\<close>

text \<open>The records a run of operations accepted.\<close>

fun accepted :: "seg_op list \<Rightarrow> seg_writer \<Rightarrow> seg_record list" where
  "accepted [] w = []"
| "accepted (op # ops) w =
     (case op of SegAppend r \<Rightarrow> (if snd (seg_append r w) = Inr () then [r] else []) | _ \<Rightarrow> []) @ accepted ops (seg_step op w)"

lemma accepted_append: "accepted (ops @ ops') w = accepted ops w @ accepted ops' (fold seg_step ops w)"
  by (induction ops arbitrary: w) simp_all

lemma seg_append_result:
  "seg_append r w = (if sw_closed w then (w, Inl WriterClosed)
     else if int (length (sr_payload r)) > MAX_PAYLOAD then (w, Inl PayloadTooLarge)
     else if fits_record r then
       (w\<lparr>sw_written := sw_written w @ record_bytes r, sw_records_written := sw_records_written w + 1,
          sw_bytes_written := sw_bytes_written w + int (length (record_bytes r))\<rparr>, Inr ())
     else (w, Inl FieldOutOfRange))"
  by (simp add: seg_append_def pack_record_header_def fits_record_def record_bytes_def sw_write_def Let_def)

lemma seg_run:
  assumes "w' = fold seg_step ops w"
  shows "sw_written w' = sw_written w @ concat (map record_bytes (accepted ops w))" "list_all fits_record (accepted ops w)"
    "sw_records_written w' = sw_records_written w + int (length (accepted ops w))"
    "sw_bytes_written w' = sw_bytes_written w + int (length (concat (map record_bytes (accepted ops w))))"
    "sw_flushed w \<le> length (sw_written w) \<Longrightarrow> sw_flushed w \<le> sw_flushed w' \<and> sw_flushed w' \<le> length (sw_written w')"
    "sw_closed w \<Longrightarrow> sw_closed w' \<and> sw_flushed w' = sw_flushed w \<and> accepted ops w = []"
  unfolding assms
proof (induction ops arbitrary: w)
  case (Cons op ops)
  { case 1 show ?case using Cons(1) [of "seg_step op w"]
      by (auto simp: seg_step_def seg_append_result seg_flush_def seg_close_def split: seg_op.splits)
  next
    case 2 show ?case using Cons(2) [of "seg_step op w"]
      by (auto simp: seg_step_def seg_append_result split: seg_op.splits if_splits)
  next
    case 3 show ?case using Cons(3) [of "seg_step op w"]
      by (auto simp: seg_step_def seg_append_result seg_flush_def seg_close_def split: seg_op.splits)
  next
    case 4 show ?case using Cons(4) [of "seg_step op w"]
      by (auto simp: seg_step_def seg_append_result seg_flush_def seg_close_def split: seg_op.splits)
  next
    case 5
    then have "sw_flushed w \<le> sw_flushed (seg_step op w) \<and> sw_flushed (seg_step op w) \<le> length (sw_written (seg_step op w))"
      by (auto simp: seg_step_def seg_append_result seg_flush_def seg_close_def split: seg_op.splits)
    with Cons(5) [of "seg_step op w"] show ?case by auto
  next
    case 6
    then have "seg_step op w = w" by (auto simp: seg_step_def seg_append_result seg_flush_def seg_close_def split: seg_op.splits)
    with 6 Cons(6) [of w] show ?case by (auto simp: seg_append_result split: seg_op.splits)
  }
qed simp_all

section \<open>Opening\<close>

definition segment_bytes :: "string \<Rightarrow> seg_record list \<Rightarrow> string" where
  "segment_bytes json rs = MAGIC @ le_bytes 2 FORMAT_VERSION @ le_bytes 4 (int (length json)) @ json @ concat (map record_bytes rs)"

text \<open>The reference for a whole file: the header, its records, whether it is cut, whether it is damaged.\<close>

definition parse_segment ::
  "(string \<Rightarrow> 'h option) \<Rightarrow> string \<times> stream_ending \<Rightarrow> corruption + 'h \<times> seg_record list \<times> bool \<times> bool \<times> int option" where
  "parse_segment decode stream =
     (case stream of (bs, ending) \<Rightarrow>
      let size = nat (field 6 4 bs) in
      if length bs < FILE_HEADER_SIZE then Inl ShorterThanHeader
      else if take 4 bs \<noteq> MAGIC then Inl (BadMagic (take 4 bs))
      else if field 4 2 bs \<noteq> FORMAT_VERSION then Inl (UnsupportedVersion (field 4 2 bs))
      else if length bs < FILE_HEADER_SIZE + size then Inl TruncatedHeader
      else case decode (take size (drop FILE_HEADER_SIZE bs)) of
             None \<Rightarrow> Inl MalformedHeader
           | Some h \<Rightarrow>
               (case parse_records (drop (FILE_HEADER_SIZE + size) bs) of
                  (rs, partial, err) \<Rightarrow> Inr (h, rs, ending = CutOff \<or> partial, ending = Damaged, err)))"

lemma rd_open_parse:
  assumes "stream_of False source = (bs, ending)"
  shows "case rd_open decode source of
      Inl e \<Rightarrow> parse_segment decode (bs, ending) = Inl e
    | Inr (rd, h) \<Rightarrow> (\<exists>partial rs err. wf_reader rd \<and> snd (rest_of rd) = ending \<and>
        parse_records (fst (rest_of rd)) = (rs, partial, err) \<and>
        parse_segment decode (bs, ending) = Inr (h, rs, ending = CutOff \<or> partial, ending = Damaged, err))"
proof -
  let ?rd0 = "\<lparr>rd_source = source, rd_frame_eof = False, rd_buffer = [], rd_eof = False, rd_truncated = False, rd_damaged = False\<rparr>"
  have rest0: "rest_of ?rd0 = (bs, ending)" and wf0: "wf_reader ?rd0" using assms by (simp_all add: rest_of_def wf_reader_def)
  obtain rd1 ok1 where e1: "rd_ensure FILE_HEADER_SIZE ?rd0 = (rd1, ok1)" by fastforce
  note one = rd_ensure_rest [OF e1 wf0, unfolded rest0]
  show ?thesis
  proof (cases ok1)
    case False
    then show ?thesis using e1 one by (simp add: rd_open_def parse_segment_def)
  next
    case True
    obtain tl1 where tl1: "bs = rd_buffer rd1 @ tl1" using rest_prefix [of rd1] one by auto
    have len1: "FILE_HEADER_SIZE \<le> length (rd_buffer rd1)" using one True by blast
    then have fields: "field 4 2 bs = field 4 2 (rd_buffer rd1)" "field 6 4 bs = field 6 4 (rd_buffer rd1)"
        "take 4 bs = take 4 (rd_buffer rd1)" "\<not> length bs < FILE_HEADER_SIZE"
      using tl1 by (simp_all add: FILE_HEADER_SIZE_def field_prefix)
    define size where "size = nat (field 6 4 (rd_buffer rd1))"
    obtain rd2 ok2 where e2: "rd_ensure (FILE_HEADER_SIZE + size) rd1 = (rd2, ok2)" by fastforce
    have wf1: "wf_reader rd1" "rest_of rd1 = (bs, ending)" using one by simp_all
    note two = rd_ensure_rest [OF e2 wf1(1), unfolded wf1(2)]
    obtain tl2 where tl2: "bs = rd_buffer rd2 @ tl2" using rest_prefix [of rd2] two by auto
    let ?rd3 = "rd2\<lparr>rd_buffer := drop (FILE_HEADER_SIZE + size) (rd_buffer rd2)\<rparr>"
    have "rest_of ?rd3 = (drop (FILE_HEADER_SIZE + size) bs, ending)" "wf_reader ?rd3"
        "take size (drop FILE_HEADER_SIZE bs) = take size (drop FILE_HEADER_SIZE (rd_buffer rd2))" if ok2
      using that two tl2 by (auto simp: rest_of_def wf_reader_def split: prod.splits if_splits)
    then show ?thesis using e1 e2 True fields two
      by (auto simp: rd_open_def parse_segment_def Let_def size_def [symmetric] split: option.splits prod.splits)
  qed
qed

lemma new_writer_result:
  assumes "new_seg_writer json = Inr w"
  shows "sw_written w = segment_bytes json []" "sw_flushed w = 0" "\<not> sw_closed w" "fits 4 (int (length json))"
    "sw_records_written w = 0" "sw_bytes_written w = int (length (segment_bytes json []))"
  using assms by (auto simp: new_seg_writer_def pack_file_header_def sw_write_def segment_bytes_def
      split: if_splits)

lemma length_segment_header: "length (segment_bytes json []) = FILE_HEADER_SIZE + length json"
  by (simp add: segment_bytes_def FILE_HEADER_SIZE_def MAGIC_def)

lemma parse_segment_written:
  assumes "fits 4 (int (length json))" "decode json = Some h"
  shows "parse_segment decode (segment_bytes json [] @ bs, ending) =
    (case parse_records bs of (rs, partial, err) \<Rightarrow> Inr (h, rs, ending = CutOff \<or> partial, ending = Damaged, err))"
proof -
  let ?bs = "segment_bytes json [] @ bs"
  have "fits 2 FORMAT_VERSION" by (simp add: fits_def FORMAT_VERSION_def)
  moreover have "length MAGIC = 4" by (simp add: MAGIC_def)
  ultimately have "field 4 2 ?bs = FORMAT_VERSION" "field 6 4 ?bs = int (length json)"
    using assms(1) by (simp_all add: segment_bytes_def field_skip [of "le_bytes _ _", OF length_le_bytes]
        field_here field_skip [of MAGIC 4] del: le_bytes.simps)
  moreover have "take 4 ?bs = MAGIC" "drop FILE_HEADER_SIZE ?bs = json @ bs"
    by (simp_all add: segment_bytes_def MAGIC_def FILE_HEADER_SIZE_def del: le_bytes.simps)
  moreover have "drop (FILE_HEADER_SIZE + length json) ?bs = bs"
    using calculation(4) by (metis append_eq_conv_conj drop_drop add.commute)
  ultimately show ?thesis
    using assms(2) by (simp add: parse_segment_def Let_def length_segment_header)
qed

lemma concat_map_take_le: "length (concat (map f (take k xs))) \<le> length (concat (map f xs))"
  by (metis append_take_drop_id concat_append le_add1 length_append map_append)

definition flushing :: "seg_op \<Rightarrow> bool" where
  "flushing op \<longleftrightarrow> op = SegFlush \<or> op = SegClose"

definition closed_ok :: "seg_writer \<Rightarrow> bool" where
  "closed_ok w \<longleftrightarrow> (sw_closed w \<longrightarrow> sw_flushed w = length (sw_written w))"

lemma closed_ok_run: "closed_ok w \<Longrightarrow> closed_ok (fold seg_step ops w)"
proof (induction ops arbitrary: w)
  case (Cons op ops)
  then have "closed_ok (seg_step op w)"
    by (auto simp: closed_ok_def seg_step_def seg_append_result seg_flush_def seg_close_def split: seg_op.splits)
  with Cons show ?case by simp
qed simp

lemma flushed_bytes:
  assumes "closed_ok w" "sw_flushed w \<le> length (sw_written w)" "flushing op"
  shows "length (sw_written (fold seg_step ops w)) \<le> sw_flushed (fold seg_step (ops @ op # ops') w)"
proof -
  let ?w1 = "fold seg_step ops w" and ?w2 = "fold seg_step (ops @ [op]) w"
  have ok: "closed_ok ?w1" by (rule closed_ok_run [OF assms(1)])
  have "sw_flushed ?w2 = length (sw_written ?w1)" "sw_written ?w2 = sw_written ?w1"
    using ok assms(3) by (auto simp: flushing_def closed_ok_def seg_step_def seg_flush_def seg_close_def)
  with seg_run(5) [OF refl, of ?w2 ops'] show ?thesis by simp
qed

section \<open>The properties\<close>

text \<open>
  C10. A reader gives what the whole stream holds, however the file's chunks cut it: opening and
  reading through the buffer agrees, in the header, the records, the unknown kind raised for and
  the two flags, with parsing the concatenated bytes at once. A cut stream or a record cut at the
  end is reported as truncated, a failed or over-long stream as damaged, and both keep every
  record before that point.
\<close>

theorem reader_ignores_chunking:
  "case rd_open decode source of
     Inl e \<Rightarrow> parse_segment decode (stream_of False source) = Inl e
   | Inr (rd, h) \<Rightarrow>
       (case rd_records rd of (rs, rd', err) \<Rightarrow>
          \<exists>cut damaged. parse_segment decode (stream_of False source) = Inr (h, rs, cut, damaged, err) \<and>
            (err = None \<longrightarrow> rd_truncated rd' = cut \<and> rd_damaged rd' = damaged))"
proof (cases "rd_open decode source")
  case (Inl e)
  obtain bs ending where s: "stream_of False source = (bs, ending)" by fastforce
  from rd_open_parse [OF s, of decode] Inl s show ?thesis by simp
next
  case (Inr p)
  obtain rd h where p: "p = (rd, h)" by fastforce
  obtain bs ending where s: "stream_of False source = (bs, ending)" by fastforce
  obtain rs rd' err where r: "rd_records rd = (rs, rd', err)" by (cases "rd_records rd")
  from rd_open_parse [OF s, of decode] Inr p obtain partial rs2 err2 where o: "wf_reader rd" "snd (rest_of rd) = ending"
    "parse_records (fst (rest_of rd)) = (rs2, partial, err2)"
    "parse_segment decode (bs, ending) = Inr (h, rs2, ending = CutOff \<or> partial, ending = Damaged, err2)" by auto
  from rd_records_parse [OF r o(1)] o have "rs2 = rs" "err2 = err"
    "err = None \<longrightarrow> rd_truncated rd' = (ending = CutOff \<or> partial) \<and> rd_damaged rd' = (ending = Damaged)" by auto
  with s Inr p r o(4) show ?thesis by simp
qed

text \<open>
  C11. A crash loses at most the unflushed tail of a segment. Whatever was appended, flushed and
  closed, and wherever in the bytes after the last flush the file breaks off, opening it gives the
  header and reading it gives, without an error, a prefix of the records that were accepted: every
  record accepted before any flush or close is there, and all of them when nothing is missing. The
  reader calls the file truncated exactly when the stream is cut off or bytes of a further record
  are left.
\<close>

theorem crash_keeps_flushed_records:
  assumes "new_seg_writer json = Inr w0" "decode json = Some h" "fold seg_step ops w0 = w"
    "stream_of False source = (take n (sw_written w), ending)"
    "FILE_HEADER_SIZE + length json \<le> n" "sw_flushed w \<le> n"
  shows "\<exists>rd rs rd' lost. rd_open decode source = Inr (rd, h) \<and> rd_records rd = (rs, rd', None) \<and>
    accepted ops w0 = rs @ lost \<and> (length (sw_written w) \<le> n \<longrightarrow> lost = []) \<and>
    (\<forall>ops1 op ops2. ops = ops1 @ op # ops2 \<and> flushing op \<longrightarrow> (\<exists>more. rs = accepted ops1 w0 @ more)) \<and>
    rd_truncated rd' = (ending = CutOff \<or> length (segment_bytes json rs) < min n (length (sw_written w))) \<and>
    rd_damaged rd' = (ending = Damaged)"
proof -
  note new = new_writer_result [OF assms(1)]
  note run = seg_run [OF assms(3) [symmetric]]
  let ?all = "accepted ops w0" and ?head = "FILE_HEADER_SIZE + length json"
  let ?m = "min n (length (sw_written w)) - ?head"
  have head: "length (segment_bytes json []) = ?head" by (rule length_segment_header)
  have m: "?m \<le> length (concat (map record_bytes ?all))" using run(1) new(1) head by simp
  have stream: "take n (sw_written w) = segment_bytes json [] @ take ?m (concat (map record_bytes ?all))"
    using run(1) new(1) head assms(5) by (simp add: min_def)
  obtain k where k: "k \<le> length ?all" "parse_records (take ?m (concat (map record_bytes ?all))) =
      (take k ?all, length (concat (map record_bytes (take k ?all))) < ?m, None)"
      "k < length ?all \<longrightarrow> ?m < length (concat (map record_bytes (take (Suc k) ?all)))"
    using parse_prefix [OF run(2) m] by blast
  have parse: "parse_segment decode (take n (sw_written w), ending) =
      Inr (h, take k ?all, ending = CutOff \<or> length (concat (map record_bytes (take k ?all))) < ?m, ending = Damaged, None)"
    unfolding stream by (simp only: parse_segment_written [where decode = decode, OF new(4) assms(2)] k(2) prod.case)
  obtain rd where rd: "rd_open decode source = Inr (rd, h)" "\<exists>partial rs err. wf_reader rd \<and> snd (rest_of rd) = ending \<and>
        parse_records (fst (rest_of rd)) = (rs, partial, err) \<and>
        parse_segment decode (take n (sw_written w), ending) = Inr (h, rs, ending = CutOff \<or> partial, ending = Damaged, err)"
    using rd_open_parse [OF assms(4), of decode] parse by (auto split: sum.splits)
  obtain rs rd' err where r: "rd_records rd = (rs, rd', err)" by (cases "rd_records rd")
  have out: "rs = take k ?all" "err = None" "rd_damaged rd' = (ending = Damaged)"
      "rd_truncated rd' = (ending = CutOff \<or> length (concat (map record_bytes rs)) < ?m)"
    using rd(2) rd_records_parse [OF r] parse by auto
  have "\<exists>more. rs = accepted ops1 w0 @ more" if split: "ops = ops1 @ op # ops2" "flushing op" for ops1 op ops2
  proof -
    have "length (sw_written (fold seg_step ops1 w0)) \<le> sw_flushed w"
      using flushed_bytes [of w0 op ops1 ops2] split new assms(3) by (simp add: closed_ok_def)
    then have "length (concat (map record_bytes (accepted ops1 w0))) \<le> ?m"
      using seg_run(1) [OF refl, of ops1 w0] new(1) head assms(6) run(5) new(2) by simp
    moreover obtain rest where all: "?all = accepted ops1 w0 @ rest" using split(1) by (simp add: accepted_append)
    ultimately have "\<not> k < length (accepted ops1 w0)" using k(3) concat_map_take_le [where f = record_bytes and k = "Suc k" and xs = "accepted ops1 w0"] by auto
    then show ?thesis using out(1) all by simp
  qed
  moreover have "length (sw_written w) \<le> n \<longrightarrow> drop k ?all = []"
    using k(3) run(1) new(1) head concat_map_take_le [where f = record_bytes and k = "Suc k" and xs = ?all]
    by (auto simp: min_def split: if_splits)
  moreover have "rd_truncated rd' = (ending = CutOff \<or> length (segment_bytes json rs) < min n (length (sw_written w)))"
  proof -
    have "length (segment_bytes json rs) = ?head + length (concat (map record_bytes rs))"
      using head by (simp add: segment_bytes_def)
    moreover have "?head \<le> min n (length (sw_written w))" using run(1) new(1) head assms(5) by simp
    ultimately show ?thesis unfolding out(4) by linarith
  qed
  moreover have "accepted ops w0 = rs @ drop k ?all" "rd_records rd = (rs, rd', None)" using r out(1,2) by simp_all
  ultimately show ?thesis using rd(1) out(3) by blast
qed

definition example_record :: "int \<Rightarrow> seg_record" where
  "example_record t = \<lparr>sr_kind = FRAME, sr_conn_id = 3, sr_recv_mono_ns = t, sr_recv_wall_ns = 1000, sr_payload = ''ab''\<rparr>"

text \<open>Two records, a flush between them, and a file that breaks off inside the second.\<close>

theorem crash_keeps_flushed_records_witness:
  "\<exists>w0 rd. new_seg_writer ''{}'' = Inr w0 \<and>
    rd_open Some [Chunk (take 40 (sw_written (fold seg_step [SegAppend (example_record 7), SegFlush, SegAppend (example_record 8)] w0))) False False]
      = Inr (rd, ''{}'') \<and>
    (\<exists>rd' more. rd_records rd = (example_record 7 # more, rd', None) \<and> rd_truncated rd' \<and> \<not> rd_damaged rd')"
proof -
  let ?ops = "[SegAppend (example_record 7), SegFlush, SegAppend (example_record 8)]"
  obtain w0 where w0: "new_seg_writer ''{}'' = Inr w0" "\<not> sw_closed w0"
    by (simp add: new_seg_writer_def pack_file_header_def fits_def sw_write_def)
  note new = new_writer_result [OF w0(1)]
  have fits: "fits_record (example_record n)" if "0 \<le> n" "n < 10" for n
    using that by (simp add: fits_record_def fits_def example_record_def)
  define w where "w = fold seg_step ?ops w0"
  have acc: "accepted [SegAppend (example_record 7)] w0 = [example_record 7]"
    using w0(2) fits [of 7] by (simp add: seg_append_result MAX_PAYLOAD_def example_record_def)
  have fl: "sw_flushed w \<le> 40"
    using w0(2) fits [of 7] fits [of 8] new(1) length_segment_header [of "''{}''"]
    by (simp add: w_def seg_step_def seg_append_result seg_flush_def MAX_PAYLOAD_def example_record_def
        length_record_bytes FILE_HEADER_SIZE_def RECORD_HEADER_SIZE_def)
  have source: "stream_of False [Chunk (take 40 (sw_written w)) False False] = (take 40 (sw_written w), CutOff)" by simp
  have "FILE_HEADER_SIZE + length ''{}'' \<le> 40" by (simp add: FILE_HEADER_SIZE_def)
  from crash_keeps_flushed_records [where decode = Some, OF w0(1) refl w_def [symmetric] source this fl]
  obtain rd rs rd' where r: "rd_open Some [Chunk (take 40 (sw_written w)) False False] = Inr (rd, ''{}'')"
      "rd_records rd = (rs, rd', None)" "rd_truncated rd'" "\<not> rd_damaged rd'"
      "\<forall>ops1 op ops2. ?ops = ops1 @ op # ops2 \<and> flushing op \<longrightarrow> (\<exists>more. rs = accepted ops1 w0 @ more)"
    by auto
  have "\<exists>more. rs = accepted [SegAppend (example_record 7)] w0 @ more"
    by (rule r(5) [rule_format, of _ SegFlush "[SegAppend (example_record 8)]"]) (simp add: flushing_def)
  then obtain more where "rs = example_record 7 # more" using acc by auto
  with w0(1) r(1-4) show ?thesis unfolding w_def by blast
qed

text \<open>A segment of one record, read in pieces.\<close>

definition example_chunks :: "fill_chunk list" where
  "example_chunks = (let bs = segment_bytes ''{}'' [example_record 7] in [Chunk (take 5 bs) False False, Chunk [] False False, Chunk (drop 5 bs) True False])"

lemma example_chunks_read:
  "case rd_open Some example_chunks of Inl _ \<Rightarrow> False
   | Inr (rd, h) \<Rightarrow> h = ''{}'' \<and> (case rd_records rd of (rs, rd', err) \<Rightarrow>
       rs = [example_record 7] \<and> err = None \<and> \<not> rd_truncated rd' \<and> \<not> rd_damaged rd')"
  by code_simp

theorem reader_ignores_chunking_witness:
  "parse_segment Some (stream_of False example_chunks) = Inr (''{}'', [example_record 7], False, False, None)"
  using reader_ignores_chunking [of Some example_chunks] example_chunks_read by (auto split: sum.splits prod.splits)

end
