(* ===== verification/Interpret.thy ===== *)
theory Interpret
  imports Segment Supervisor
begin

text \<open>
  \<^verbatim>\<open>tape/bake/interpret.py\<close>: one hour of raw records turned into table rows, every record accounted
  for. The state is the hour's and the current segment's; a handler returns both. The decoders of
  msgspec are parameters (\<open>None\<close> where they raise), and the texts of failures are left out. A
  payload that is not UTF-8 makes \<^verbatim>\<open>bytes.decode\<close> raise an error no handler catches; a feed returns
  whether that happened.
\<close>

section \<open>Constants and payloads\<close>

definition BAKED_FRAME_TYPES :: "string list" where
  "BAKED_FRAME_TYPES = [''orderbook_delta'', ''orderbook_snapshot'', ''trade'', ''market_lifecycle_v2'',
     ''event_lifecycle'', ''event_fee_update'']"

definition NOT_BAKED_FRAME_TYPES :: "string list" where
  "NOT_BAKED_FRAME_TYPES = [''subscribed'', ''ok'', ''unsubscribed'', ''error'', ''ticker'']"

definition FAILURE_FRAME_ENVELOPE :: string where "FAILURE_FRAME_ENVELOPE = ''frame_envelope''"
definition FAILURE_FRAME_PAYLOAD :: string where "FAILURE_FRAME_PAYLOAD = ''frame_payload''"
definition FAILURE_FRAME_UNKNOWN_TYPE :: string where "FAILURE_FRAME_UNKNOWN_TYPE = ''frame_unknown_type''"
definition FAILURE_GAP_PAYLOAD :: string where "FAILURE_GAP_PAYLOAD = ''gap_payload''"
definition FAILURE_AUDIT_PAYLOAD :: string where "FAILURE_AUDIT_PAYLOAD = ''audit_payload''"
definition FAILURE_CONNECTION_PAYLOAD :: string where "FAILURE_CONNECTION_PAYLOAD = ''connection_payload''"
definition FAILURE_COMMAND_PAYLOAD :: string where "FAILURE_COMMAND_PAYLOAD = ''command_payload''"
definition FAILURE_SEGMENT_CORRUPT :: string where "FAILURE_SEGMENT_CORRUPT = ''segment_corrupt''"
definition MAX_FAILURE_SAMPLES :: int where "MAX_FAILURE_SAMPLES = 5"

definition STOPPED_DETAIL :: string where "STOPPED_DETAIL = ''stopped''"

definition SNAPSHOT_INITIAL :: int where "SNAPSHOT_INITIAL = 0"
definition SNAPSHOT_RESYNC :: int where "SNAPSHOT_RESYNC = 1"
definition SNAPSHOT_RECONNECT :: int where "SNAPSHOT_RECONNECT = 2"
definition EMPTY_BOOK_SIDE :: int where "EMPTY_BOOK_SIDE = - 1"

text \<open>A row in its table's column order.\<close>

datatype table_row =
    DeltaRow string "int option" int int int int "int option" int int int "string option"
  | SnapshotRow string int int int int "int option" int int int int
  | TradeRow string string int int int "int option" int int int bool
  | LifecycleRow string string "string option" "int option" int int "int option" string
  | GapRow int int int int int int "int option"
  | AuditRow string int int string int int int int int int "int option" int "int option" "int option" "int option"
      "string option" "string option" "string option"

record decode_failure =
  df_failure :: string
  df_segment :: string
  df_record_index :: int

record segment_facts =
  sf_records :: int
  sf_first_recv_wall_ns :: "int option"
  sf_last_recv_wall_ns :: "int option"

record gap_payload =
  gy_sid :: int
  gy_expected_seq :: int
  gy_got_seq :: int

record audit_payload =
  ay_ticker :: string
  ay_outcome :: string
  ay_levels_rest :: int
  ay_send_mono_ns :: int
  ay_send_wall_ns :: int
  ay_window_open_mono_ns :: int
  ay_window_close_mono_ns :: int
  ay_window_events :: int
  ay_levels_local :: "int option"
  ay_mismatched_levels :: "int option"
  ay_max_abs_diff_e2 :: "int option"
  ay_match_index :: "int option"
  ay_fault :: "string option"
  ay_rest_levels :: string
  ay_local_levels :: string

record connection_payload =
  cy_event :: string
  cy_detail :: "string option"
  cy_dropped :: "int option"
  cy_wall_ns_delta :: "int option"
  cy_mono_ns_delta :: "int option"

record command_params =
  cq_sid :: "int option"
  cq_sids :: "int list option"
  cq_action :: "string option"
  cq_market_tickers :: "string list option"

record command_payload =
  cy_cmd :: string
  cy_params :: "command_params option"

record lifecycle_times_msg = market_lifecycle_msg +
  mlm_settled_ts :: "int option"
  mlm_determination_ts :: "int option"

record bake_env =
  bk_envelope :: "string \<Rightarrow> envelope option"
  bk_delta_msg :: "string \<Rightarrow> orderbook_delta_msg option"
  bk_snapshot_msg :: "string \<Rightarrow> orderbook_snapshot_msg option"
  bk_trade_msg :: "string \<Rightarrow> trade_msg option"
  bk_lifecycle_msg :: "string \<Rightarrow> lifecycle_times_msg option"
  bk_event_ticker :: "string \<Rightarrow> string option"
  bk_fee_event_ticker :: "string \<Rightarrow> string option"
  bk_subscribed_msg :: "string \<Rightarrow> subscribed_msg option"
  bk_gap :: "string \<Rightarrow> gap_payload option"
  bk_audit :: "string \<Rightarrow> audit_payload option"
  bk_connection :: "string \<Rightarrow> connection_payload option"
  bk_command :: "string \<Rightarrow> command_payload option"
  bk_utf8 :: "string \<Rightarrow> string option"

section \<open>The hour\<close>

record connection_span =
  cs_conn_id :: int
  cs_start_wall_ns :: int
  cs_end_wall_ns :: int
  cs_opened :: bool
  cs_closed :: bool

record hour_state =
  ho_start_wall_ns :: int
  ho_rows :: "table_row list"
  ho_records :: "(string, int) dict"
  ho_baked :: "(string, int) dict"
  ho_not_baked :: "(string, int) dict"
  ho_decode_failures :: "(string, int) dict"
  ho_corrupt_segments :: int
  ho_failures :: "decode_failure list"
  ho_failure_samples :: "(string, int) dict"
  ho_spans :: "connection_span list"
  ho_sleeps :: "(int \<times> int) set"
  ho_gap_count :: int
  ho_stale_market_ns :: int
  ho_observed_market_ns :: int
  ho_audits :: "(string, int) dict"
  ho_levels_mismatched :: int
  ho_overflow_dropped :: int
  ho_lost_connection :: "(int, bool) dict"

definition new_hour :: "int \<Rightarrow> hour_state" where
  "new_hour begins = \<lparr>ho_start_wall_ns = begins, ho_rows = [], ho_records = [], ho_baked = [], ho_not_baked = [],
     ho_decode_failures = [], ho_corrupt_segments = 0, ho_failures = [], ho_failure_samples = [], ho_spans = [],
     ho_sleeps = {}, ho_gap_count = 0, ho_stale_market_ns = 0, ho_observed_market_ns = 0, ho_audits = [],
     ho_levels_mismatched = 0, ho_overflow_dropped = 0, ho_lost_connection = []\<rparr>"

definition count_up :: "string \<Rightarrow> (string, int) dict \<Rightarrow> (string, int) dict" where
  "count_up key counts = dict_put key (dict_get_or counts key 0 + 1) counts"

definition ho_emit :: "table_row \<Rightarrow> hour_state \<Rightarrow> hour_state" where
  "ho_emit row h = h\<lparr>ho_rows := ho_rows h @ [row]\<rparr>"

definition ho_fail :: "string \<Rightarrow> string \<Rightarrow> int \<Rightarrow> hour_state \<Rightarrow> hour_state" where
  "ho_fail failure segment index h =
     (let h = h\<lparr>ho_decode_failures := count_up failure (ho_decode_failures h)\<rparr>;
          kept = dict_get_or (ho_failure_samples h) failure 0
      in if kept < MAX_FAILURE_SAMPLES then
           h\<lparr>ho_failure_samples := dict_put failure (kept + 1) (ho_failure_samples h),
             ho_failures := ho_failures h @ [\<lparr>df_failure = failure, df_segment = segment, df_record_index = index\<rparr>]\<rparr>
         else h)"

definition corrupt_segment :: "string \<Rightarrow> int \<Rightarrow> hour_state \<Rightarrow> hour_state" where
  "corrupt_segment name index h =
     h\<lparr>ho_corrupt_segments := ho_corrupt_segments h + 1,
       ho_failures := ho_failures h @ [\<lparr>df_failure = FAILURE_SEGMENT_CORRUPT, df_segment = name, df_record_index = index\<rparr>]\<rparr>"

definition add_span :: "connection_span \<Rightarrow> hour_state \<Rightarrow> hour_state" where
  "add_span sp h = h\<lparr>ho_spans := ho_spans h @ [sp]\<rparr>"

definition add_sleep :: "int \<Rightarrow> int \<Rightarrow> hour_state \<Rightarrow> hour_state" where
  "add_sleep t0 t1 h = h\<lparr>ho_sleeps := insert (t0, t1) (ho_sleeps h)\<rparr>"

definition add_gap :: "hour_state \<Rightarrow> hour_state" where
  "add_gap h = h\<lparr>ho_gap_count := ho_gap_count h + 1\<rparr>"

definition add_book_time :: "int \<Rightarrow> int \<Rightarrow> hour_state \<Rightarrow> hour_state" where
  "add_book_time observed_ns stale_ns h =
     h\<lparr>ho_observed_market_ns := ho_observed_market_ns h + observed_ns,
       ho_stale_market_ns := ho_stale_market_ns h + stale_ns\<rparr>"

definition add_audit :: "string \<Rightarrow> int option \<Rightarrow> hour_state \<Rightarrow> hour_state" where
  "add_audit outcome mismatched h =
     (let h = h\<lparr>ho_audits := count_up outcome (ho_audits h)\<rparr>
      in case mismatched of
           Some n \<Rightarrow> if outcome \<noteq> ''undecidable'' then h\<lparr>ho_levels_mismatched := ho_levels_mismatched h + n\<rparr> else h
         | None \<Rightarrow> h)"

definition add_overflow :: "int \<Rightarrow> hour_state \<Rightarrow> hour_state" where
  "add_overflow dropped h = h\<lparr>ho_overflow_dropped := ho_overflow_dropped h + dropped\<rparr>"

definition bake_count :: "string \<Rightarrow> hour_state \<Rightarrow> hour_state" where
  "bake_count key h = h\<lparr>ho_baked := count_up key (ho_baked h)\<rparr>"

definition skip_count :: "string \<Rightarrow> hour_state \<Rightarrow> hour_state" where
  "skip_count key h = h\<lparr>ho_not_baked := count_up key (ho_not_baked h)\<rparr>"

section \<open>The segment\<close>

record market_time =
  mt_sid :: int
  mt_since_wall_ns :: int
  mt_stale_since_wall_ns :: "int option"

record pending_gap =
  pg_row :: table_row
  pg_sid :: int
  pg_waiting :: "string set"

record segment =
  sg_name :: string
  sg_conn_id :: int
  sg_use_yes_price :: bool
  sg_after_lost_connection :: bool
  sg_index :: int
  sg_first_wall_ns :: "int option"
  sg_last_wall_ns :: "int option"
  sg_opens_connection :: bool
  sg_span_start :: "int option"
  sg_span_opened :: bool
  sg_last_event :: "string option"
  sg_last_detail :: "string option"
  sg_book_sids :: "int set"
  sg_requested :: "(int, string set) dict"
  sg_snapshotted :: "(int \<times> string) set"
  sg_markets :: "(string, market_time) dict"
  sg_pending_gaps :: "pending_gap list"

definition new_segment :: "string \<Rightarrow> int \<Rightarrow> bool \<Rightarrow> bool \<Rightarrow> segment" where
  "new_segment name conn_id use_yes_price after_lost_connection =
     \<lparr>sg_name = name, sg_conn_id = conn_id, sg_use_yes_price = use_yes_price,
      sg_after_lost_connection = after_lost_connection, sg_index = 0, sg_first_wall_ns = None, sg_last_wall_ns = None,
      sg_opens_connection = False, sg_span_start = None, sg_span_opened = False, sg_last_event = None,
      sg_last_detail = None, sg_book_sids = {}, sg_requested = [], sg_snapshotted = {}, sg_markets = [],
      sg_pending_gaps = []\<rparr>"

definition lost_connection :: "segment \<Rightarrow> bool" where
  "lost_connection s \<longleftrightarrow> sg_last_event s = Some ''close'' \<and> sg_last_detail s \<noteq> Some STOPPED_DETAIL"

type_synonym reading = "hour_state \<times> segment"

definition in_hour :: "(hour_state \<Rightarrow> hour_state) \<Rightarrow> reading \<Rightarrow> reading" where
  "in_hour f rg = (f (fst rg), snd rg)"

definition seg_fail :: "string \<Rightarrow> reading \<Rightarrow> reading" where
  "seg_fail failure rg = in_hour (ho_fail failure (sg_name (snd rg)) (sg_index (snd rg))) rg"

section \<open>Book time\<close>

definition observe_market :: "string \<Rightarrow> int \<Rightarrow> int \<Rightarrow> reading \<Rightarrow> reading" where
  "observe_market ticker sid wall_ns rg =
     (case rg of (h, s) \<Rightarrow>
        if dict_get (sg_markets s) ticker \<noteq> None then (h, s)
        else (h, s\<lparr>sg_markets := dict_put ticker
                     \<lparr>mt_sid = sid, mt_since_wall_ns = wall_ns, mt_stale_since_wall_ns = None\<rparr> (sg_markets s)\<rparr>))"

definition end_market :: "market_time \<Rightarrow> int \<Rightarrow> hour_state \<Rightarrow> hour_state" where
  "end_market m end_wall_ns h =
     add_book_time (max 0 (end_wall_ns - mt_since_wall_ns m))
       (case mt_stale_since_wall_ns m of None \<Rightarrow> 0 | Some t \<Rightarrow> max 0 (end_wall_ns - t)) h"

definition leave_market :: "int \<Rightarrow> string \<Rightarrow> reading \<Rightarrow> reading" where
  "leave_market wall_ns ticker rg =
     (case rg of (h, s) \<Rightarrow>
        (case dict_get (sg_markets s) ticker of
           None \<Rightarrow> (h, s)
         | Some m \<Rightarrow> (end_market m wall_ns h, s\<lparr>sg_markets := dict_pop ticker (sg_markets s)\<rparr>)))"

fun set_resolved :: "int \<Rightarrow> table_row \<Rightarrow> table_row" where
  "set_resolved w (GapRow a b c d e f _) = GapRow a b c d e f (Some w)"
| "set_resolved w row = row"

definition resolve_one :: "int \<Rightarrow> string \<Rightarrow> int \<Rightarrow> pending_gap \<Rightarrow> hour_state \<times> pending_gap list \<Rightarrow> hour_state \<times> pending_gap list" where
  "resolve_one sid ticker wall_ns pg st =
     (case st of (h, still) \<Rightarrow>
        if pg_sid pg = sid then
          (let pg = pg\<lparr>pg_waiting := pg_waiting pg - {ticker}\<rparr>
           in if pg_waiting pg = {} then (ho_emit (set_resolved wall_ns (pg_row pg)) h, still) else (h, still @ [pg]))
        else (h, still @ [pg]))"

definition resolve_gaps :: "int \<Rightarrow> string \<Rightarrow> int \<Rightarrow> reading \<Rightarrow> reading" where
  "resolve_gaps sid ticker wall_ns rg =
     (case rg of (h, s) \<Rightarrow>
        (case fold (resolve_one sid ticker wall_ns) (sg_pending_gaps s) (h, []) of
           (h, still) \<Rightarrow> (h, s\<lparr>sg_pending_gaps := still\<rparr>)))"

definition close_span :: "int \<Rightarrow> bool \<Rightarrow> reading \<Rightarrow> reading" where
  "close_span end_wall_ns at_close rg =
     (case rg of (h, s) \<Rightarrow>
        (case sg_span_start s of
           None \<Rightarrow> (h, s)
         | Some t0 \<Rightarrow>
             (add_span \<lparr>cs_conn_id = sg_conn_id s, cs_start_wall_ns = t0, cs_end_wall_ns = max t0 end_wall_ns,
                        cs_opened = sg_span_opened s, cs_closed = at_close\<rparr> h,
              s\<lparr>sg_span_start := None\<rparr>)))"

section \<open>Data frames\<close>

text \<open>A conversion that fails raises before anything is changed.\<close>

definition baking :: "convert_error + 'a \<Rightarrow> ('a \<Rightarrow> reading \<Rightarrow> reading) \<Rightarrow> reading \<Rightarrow> reading \<times> convert_error option" where
  "baking r f rg = (case r of Inl e \<Rightarrow> (rg, Some e) | Inr x \<Rightarrow> (f x rg, None))"

definition delta_row :: "book_delta \<Rightarrow> table_row" where
  "delta_row d = (let rc = bd_receipt d in
     DeltaRow (bd_ticker d) (bd_ts_ms d) (rc_recv_mono_ns rc) (rc_recv_wall_ns rc) (rc_conn_id rc) (bd_sid d) (bd_seq d)
       (side_int (bd_side d)) (bd_price d) (bd_delta d) (bd_own_client_order_id d))"

definition bake_delta :: "book_delta \<Rightarrow> reading \<Rightarrow> reading" where
  "bake_delta d rg =
     (let rc = bd_receipt d;
          rg = (fst rg, (snd rg)\<lparr>sg_book_sids := insert (bd_sid d) (sg_book_sids (snd rg))\<rparr>);
          rg = observe_market (bd_ticker d) (bd_sid d) (rc_recv_wall_ns rc) rg
      in in_hour (ho_emit (delta_row d)) rg)"

definition snapshot_reason :: "int \<Rightarrow> string \<Rightarrow> segment \<Rightarrow> segment \<times> int" where
  "snapshot_reason sid ticker s =
     (let requested = dict_get (sg_requested s) sid;
          repeated = (sid, ticker) \<in> sg_snapshotted s;
          s = s\<lparr>sg_snapshotted := insert (sid, ticker) (sg_snapshotted s)\<rparr>
      in if requested \<noteq> None \<and> ticker \<in> the requested
         then (s\<lparr>sg_requested := dict_put sid (the requested - {ticker}) (sg_requested s)\<rparr>, SNAPSHOT_RESYNC)
         else if repeated then (s, SNAPSHOT_RESYNC)
         else if sg_opens_connection s \<and> sg_after_lost_connection s then (s, SNAPSHOT_RECONNECT)
         else (s, SNAPSHOT_INITIAL))"

definition snapshot_rows :: "book_snapshot \<Rightarrow> int \<Rightarrow> table_row list" where
  "snapshot_rows b reason =
     (let rc = bs_receipt b;
          row = SnapshotRow (bs_ticker b) (rc_recv_wall_ns rc) (rc_recv_mono_ns rc) (rc_conn_id rc) (bs_sid b) (bs_seq b);
          rows = map (\<lambda>l. row 0 (lv_price l) (lv_count l) reason) (bs_bids b) @
                 map (\<lambda>l. row 1 (lv_price l) (lv_count l) reason) (bs_asks b)
      in if rows = [] then [row EMPTY_BOOK_SIDE 0 0 reason] else rows)"

definition freshen_market :: "string \<Rightarrow> int \<Rightarrow> reading \<Rightarrow> reading" where
  "freshen_market ticker wall_ns rg =
     (case rg of (h, s) \<Rightarrow>
        (case dict_get (sg_markets s) ticker of
           None \<Rightarrow> (h, s)
         | Some m \<Rightarrow>
             (case mt_stale_since_wall_ns m of
                None \<Rightarrow> (h, s)
              | Some t \<Rightarrow> (add_book_time 0 (wall_ns - t) h,
                  s\<lparr>sg_markets := dict_put ticker (m\<lparr>mt_stale_since_wall_ns := None\<rparr>) (sg_markets s)\<rparr>))))"

definition bake_snapshot :: "book_snapshot \<Rightarrow> reading \<Rightarrow> reading" where
  "bake_snapshot b rg =
     (let ticker = bs_ticker b; sid = bs_sid b; wall_ns = rc_recv_wall_ns (bs_receipt b) in
      case snapshot_reason sid ticker (snd rg) of (s, reason) \<Rightarrow>
      (let rows = snapshot_rows b reason;
           rg = (fst rg, s\<lparr>sg_book_sids := insert sid (sg_book_sids s)\<rparr>);
           rg = observe_market ticker sid wall_ns rg;
           rg = freshen_market ticker wall_ns rg;
           rg = in_hour (fold ho_emit rows) rg
       in resolve_gaps sid ticker wall_ns rg))"

definition trade_row :: "trade \<Rightarrow> table_row" where
  "trade_row t = TradeRow (tr_ticker t) (tr_trade_id t) (tr_ts_ms t) (rc_recv_wall_ns (tr_receipt t))
     (tr_sid t) (tr_seq t) (tr_price t) (tr_count t) (side_int (tr_taker_side t)) (tr_is_block t)"

definition bake_trade :: "trade \<Rightarrow> reading \<Rightarrow> reading" where
  "bake_trade t = in_hour (ho_emit (trade_row t))"

definition ts_s_of :: "lifecycle_times_msg \<Rightarrow> int option" where
  "ts_s_of msg =
     (if mlm_event_type msg = ''settled'' then mlm_settled_ts msg
      else if mlm_event_type msg = ''determined'' then mlm_determination_ts msg else None)"

definition lifecycle_row :: "int option \<Rightarrow> lifecycle \<Rightarrow> table_row" where
  "lifecycle_row ts_s l = LifecycleRow (lc_ticker l) ''market_lifecycle_v2'' (Some (lc_event_type l)) ts_s
     (rc_recv_wall_ns (lc_receipt l)) (lc_sid l) (lc_seq l) (lc_payload_json l)"

definition bake_lifecycle :: "int option \<Rightarrow> lifecycle \<Rightarrow> reading \<Rightarrow> reading" where
  "bake_lifecycle ts_s l = in_hour (ho_emit (lifecycle_row ts_s l))"

definition bake_event_message ::
  "bake_env \<Rightarrow> envelope \<Rightarrow> receipt \<Rightarrow> reading \<Rightarrow> reading \<times> convert_error option" where
  "bake_event_message ev env rc =
     baking (result_bind (decoded (if en_type env = ''event_lifecycle'' then bk_event_ticker ev else bk_fee_event_ticker ev) env)
       (\<lambda>event_ticker. case en_sid env of
          None \<Rightarrow> Inl (WireError (en_type env @ '' without sid''))
        | Some sid \<Rightarrow> (case bk_utf8 ev (en_msg env) of
             None \<Rightarrow> Inl UnicodeError
           | Some text \<Rightarrow> Inr (LifecycleRow event_ticker (en_type env) None None (rc_recv_wall_ns rc) sid (en_seq env) text))))
       (\<lambda>row. in_hour (ho_emit row))"

definition data_frame :: "bake_env \<Rightarrow> envelope \<Rightarrow> receipt \<Rightarrow> reading \<Rightarrow> reading \<times> convert_error option" where
  "data_frame ev env rc rg =
     (if en_type env = ''orderbook_delta'' then
        baking (result_bind (decoded (bk_delta_msg ev) env) (\<lambda>msg. to_book_delta msg env rc (sg_use_yes_price (snd rg))))
          bake_delta rg
      else if en_type env = ''orderbook_snapshot'' then
        baking (result_bind (decoded (bk_snapshot_msg ev) env) (\<lambda>msg. to_book_snapshot msg env rc (sg_use_yes_price (snd rg))))
          bake_snapshot rg
      else if en_type env = ''trade'' then
        baking (result_bind (decoded (bk_trade_msg ev) env) (\<lambda>msg. to_trade msg env rc)) bake_trade rg
      else if en_type env = ''market_lifecycle_v2'' then
        baking (result_bind (decoded (bk_lifecycle_msg ev) env) (\<lambda>msg.
            result_bind (to_lifecycle (bk_utf8 ev) (market_lifecycle_msg.truncate msg) env rc) (\<lambda>l. Inr (ts_s_of msg, l))))
          (\<lambda>(ts_s, l). bake_lifecycle ts_s l) rg
      else bake_event_message ev env rc rg)"

section \<open>Records\<close>

text \<open>Each handler returns whether an error it does not catch left it.\<close>

definition record_receipt :: "seg_record \<Rightarrow> receipt" where
  "record_receipt r = \<lparr>rc_conn_id = sr_conn_id r, rc_recv_mono_ns = sr_recv_mono_ns r, rc_recv_wall_ns = sr_recv_wall_ns r\<rparr>"

definition bake_reply :: "bake_env \<Rightarrow> envelope \<Rightarrow> reading \<Rightarrow> reading" where
  "bake_reply ev env rg =
     (if en_type env = ''subscribed'' then
        (case decoded (bk_subscribed_msg ev) env of
           Inl _ \<Rightarrow> seg_fail FAILURE_FRAME_PAYLOAD rg
         | Inr msg \<Rightarrow>
             in_hour (skip_count (en_type env))
               (if sm_channel msg = ORDERBOOK_CHANNEL
                then (fst rg, (snd rg)\<lparr>sg_book_sids := insert (sm_sid msg) (sg_book_sids (snd rg))\<rparr>) else rg))
      else in_hour (skip_count (en_type env)) rg)"

definition bake_frame :: "bake_env \<Rightarrow> seg_record \<Rightarrow> reading \<Rightarrow> reading \<times> bool" where
  "bake_frame ev r rg =
     (case bk_envelope ev (sr_payload r) of
        None \<Rightarrow> (seg_fail FAILURE_FRAME_ENVELOPE rg, False)
      | Some env \<Rightarrow>
          if en_type env \<in> set NOT_BAKED_FRAME_TYPES then (bake_reply ev env rg, False)
          else if en_type env \<notin> set BAKED_FRAME_TYPES then (seg_fail FAILURE_FRAME_UNKNOWN_TYPE rg, False)
          else case data_frame ev env (record_receipt r) rg of
                 (rg, None) \<Rightarrow> (in_hour (bake_count (en_type env)) rg, False)
               | (rg, Some UnicodeError) \<Rightarrow> (rg, True)
               | (rg, Some _) \<Rightarrow> (seg_fail FAILURE_FRAME_PAYLOAD rg, False))"

definition bake_command :: "bake_env \<Rightarrow> seg_record \<Rightarrow> reading \<Rightarrow> reading" where
  "bake_command ev r rg =
     (case bk_command ev (sr_payload r) of
        None \<Rightarrow> seg_fail FAILURE_COMMAND_PAYLOAD rg
      | Some cmd \<Rightarrow>
          (let rg = in_hour (skip_count ''command'') rg; wall_ns = sr_recv_wall_ns r in
           case cy_params cmd of
             None \<Rightarrow> rg
           | Some params \<Rightarrow>
               (let tickers = (case cq_market_tickers params of None \<Rightarrow> [] | Some ts \<Rightarrow> ts) in
                if cy_cmd cmd = ''update_subscription'' \<and> cq_sid params \<noteq> None then
                  (if cq_action params = Some ''get_snapshot'' then
                     (fst rg, (snd rg)\<lparr>sg_requested := dict_put (the (cq_sid params))
                        (dict_get_or (sg_requested (snd rg)) (the (cq_sid params)) {} \<union> set tickers) (sg_requested (snd rg))\<rparr>)
                   else if cq_action params = Some ''delete_markets'' then fold (leave_market wall_ns) tickers rg
                   else rg)
                else if cy_cmd cmd = ''unsubscribe'' \<and> cq_sids params \<noteq> None \<and> the (cq_sids params) \<noteq> [] then
                  fold (leave_market wall_ns)
                    (map fst (filter (\<lambda>(_, m). mt_sid m \<in> set (the (cq_sids params))) (sg_markets (snd rg)))) rg
                else rg)))"

definition stale_markets :: "int \<Rightarrow> int \<Rightarrow> (string, market_time) dict \<Rightarrow> (string, market_time) dict" where
  "stale_markets sid wall_ns =
     map (\<lambda>(t, m). (t, if mt_sid m = sid \<and> mt_stale_since_wall_ns m = None
                       then m\<lparr>mt_stale_since_wall_ns := Some wall_ns\<rparr> else m))"

definition bake_gap :: "bake_env \<Rightarrow> seg_record \<Rightarrow> reading \<Rightarrow> reading" where
  "bake_gap ev r rg =
     (case bk_gap ev (sr_payload r) of
        None \<Rightarrow> seg_fail FAILURE_GAP_PAYLOAD rg
      | Some gap \<Rightarrow>
          (case in_hour add_gap (in_hour (bake_count ''gap'') rg) of (h, s) \<Rightarrow>
           (let wall_ns = sr_recv_wall_ns r;
                row = GapRow (sr_conn_id r) (gy_sid gap) wall_ns (sr_recv_mono_ns r) (gy_expected_seq gap) (gy_got_seq gap) None
            in if gy_sid gap \<in> sg_book_sids s then
                 (let waiting = set (map fst (filter (\<lambda>(_, m). mt_sid m = gy_sid gap) (sg_markets s)));
                      s = s\<lparr>sg_markets := stale_markets (gy_sid gap) wall_ns (sg_markets s)\<rparr>
                  in if waiting \<noteq> {} then
                       (h, s\<lparr>sg_pending_gaps := sg_pending_gaps s @ [\<lparr>pg_row = row, pg_sid = gy_sid gap, pg_waiting = waiting\<rparr>]\<rparr>)
                     else (ho_emit row h, s))
               else (ho_emit row h, s))))"

definition raw_text :: "bake_env \<Rightarrow> string \<Rightarrow> string option option" where
  "raw_text ev raw = (if raw = [] then Some None else map_option Some (bk_utf8 ev raw))"

definition bake_audit :: "bake_env \<Rightarrow> seg_record \<Rightarrow> reading \<Rightarrow> reading \<times> bool" where
  "bake_audit ev r rg =
     (case bk_audit ev (sr_payload r) of
        None \<Rightarrow> (seg_fail FAILURE_AUDIT_PAYLOAD rg, False)
      | Some a \<Rightarrow>
          (let rg = in_hour (add_audit (ay_outcome a) (ay_mismatched_levels a)) (in_hour (bake_count ''audit'') rg) in
           case (raw_text ev (ay_rest_levels a), raw_text ev (ay_local_levels a)) of
             (Some rest, Some local) \<Rightarrow>
               (in_hour (ho_emit (AuditRow (ay_ticker a) (sr_recv_wall_ns r) (sr_conn_id r) (ay_outcome a) (ay_send_wall_ns a)
                  (ay_send_mono_ns a) (sr_recv_mono_ns r) (ay_window_open_mono_ns a) (ay_window_close_mono_ns a)
                  (ay_window_events a) (ay_match_index a) (ay_levels_rest a) (ay_levels_local a) (ay_mismatched_levels a)
                  (ay_max_abs_diff_e2 a) (ay_fault a) rest local)) rg, False)
           | _ \<Rightarrow> (rg, True)))"

definition connection_effect :: "int \<Rightarrow> connection_payload \<Rightarrow> reading \<Rightarrow> reading" where
  "connection_effect wall_ns c rg =
     (if cy_event c = ''open'' then
        (case close_span wall_ns False rg of
           (h, s) \<Rightarrow> (h, s\<lparr>sg_span_start := Some wall_ns, sg_span_opened := True\<rparr>))
      else if cy_event c = ''close'' then close_span wall_ns True rg
      else if cy_event c = ''clock_jump'' then
        (case (cy_wall_ns_delta c, cy_mono_ns_delta c) of
           (Some w, Some m) \<Rightarrow> if w > m then in_hour (add_sleep (wall_ns - (w - m)) wall_ns) rg else rg
         | _ \<Rightarrow> rg)
      else if cy_event c = ''writer_overflow'' then
        (case cy_dropped c of Some n \<Rightarrow> in_hour (add_overflow n) rg | None \<Rightarrow> rg)
      else rg)"

definition bake_connection :: "bake_env \<Rightarrow> seg_record \<Rightarrow> reading \<Rightarrow> reading" where
  "bake_connection ev r rg =
     (case bk_connection ev (sr_payload r) of
        None \<Rightarrow> seg_fail FAILURE_CONNECTION_PAYLOAD rg
      | Some c \<Rightarrow>
          (let rg = connection_effect (sr_recv_wall_ns r) c (in_hour (skip_count ''connection'') rg)
           in if cy_event c \<in> {''open'', ''close'', ''error''}
              then (fst rg, (snd rg)\<lparr>sg_last_event := Some (cy_event c), sg_last_detail := cy_detail c\<rparr>) else rg))"

definition kind_name :: "record_kind \<Rightarrow> string" where
  "kind_name k = (case k of FRAME \<Rightarrow> ''frame'' | COMMAND \<Rightarrow> ''command'' | GAP \<Rightarrow> ''gap'' | CONNECTION \<Rightarrow> ''connection'' | AUDIT \<Rightarrow> ''audit'')"

definition begin_segment :: "bake_env \<Rightarrow> seg_record \<Rightarrow> int \<Rightarrow> segment \<Rightarrow> segment" where
  "begin_segment ev r hour_start s =
     (if sr_kind r = CONNECTION \<and>
         (case bk_connection ev (sr_payload r) of None \<Rightarrow> False | Some c \<Rightarrow> cy_event c \<in> {''open'', ''error''})
      then s\<lparr>sg_opens_connection := True\<rparr>
      else s\<lparr>sg_span_start := Some hour_start, sg_span_opened := False\<rparr>)"

definition bake_record :: "bake_env \<Rightarrow> seg_record \<Rightarrow> reading \<Rightarrow> reading \<times> bool" where
  "bake_record ev r rg =
     (case sr_kind r of
        FRAME \<Rightarrow> bake_frame ev r rg
      | COMMAND \<Rightarrow> (bake_command ev r rg, False)
      | GAP \<Rightarrow> (bake_gap ev r rg, False)
      | CONNECTION \<Rightarrow> (bake_connection ev r rg, False)
      | AUDIT \<Rightarrow> bake_audit ev r rg)"

definition meet_record :: "bake_env \<Rightarrow> seg_record \<Rightarrow> reading \<Rightarrow> reading" where
  "meet_record ev r rg =
     (case rg of (h, s) \<Rightarrow>
        (let s = (if sg_first_wall_ns s = None
                  then begin_segment ev r (ho_start_wall_ns h) (s\<lparr>sg_first_wall_ns := Some (sr_recv_wall_ns r)\<rparr>) else s)
         in (h\<lparr>ho_records := count_up (kind_name (sr_kind r)) (ho_records h)\<rparr>, s\<lparr>sg_last_wall_ns := Some (sr_recv_wall_ns r)\<rparr>)))"

definition feed :: "bake_env \<Rightarrow> seg_record \<Rightarrow> reading \<Rightarrow> reading \<times> bool" where
  "feed ev r rg =
     (case bake_record ev r (meet_record ev r rg) of
        ((h, s), raised) \<Rightarrow> ((h, if raised then s else s\<lparr>sg_index := sg_index s + 1\<rparr>), raised))"

fun feed_all :: "bake_env \<Rightarrow> seg_record list \<Rightarrow> reading \<Rightarrow> reading \<times> bool" where
  "feed_all ev [] rg = (rg, False)"
| "feed_all ev (r # rs) rg = (case feed ev r rg of (rg, raised) \<Rightarrow> if raised then (rg, True) else feed_all ev rs rg)"

definition finish_segment :: "reading \<Rightarrow> reading" where
  "finish_segment rg =
     (let rg = (case sg_last_wall_ns (snd rg) of
                  None \<Rightarrow> rg
                | Some t1 \<Rightarrow>
                    close_span t1 False (fold (\<lambda>(_, m) rg. in_hour (end_market m t1) rg) (sg_markets (snd rg)) rg))
      in case rg of (h, s) \<Rightarrow> (fold (ho_emit \<circ> pg_row) (sg_pending_gaps s) h, s\<lparr>sg_pending_gaps := []\<rparr>))"

definition facts_of :: "segment \<Rightarrow> segment_facts" where
  "facts_of s = \<lparr>sf_records = sg_index s, sf_first_recv_wall_ns = sg_first_wall_ns s, sf_last_recv_wall_ns = sg_last_wall_ns s\<rparr>"

text \<open>
  One segment: its name, its header's connection and price convention, its records, and whether
  its reader raised after them. \<open>None\<close> when an uncaught error ends the hour's interpretation.
\<close>

definition read_segment ::
  "bake_env \<Rightarrow> string \<Rightarrow> int \<Rightarrow> bool \<Rightarrow> seg_record list \<Rightarrow> bool \<Rightarrow> hour_state \<Rightarrow> (hour_state \<times> segment_facts) option" where
  "read_segment ev name conn_id use_yes_price records corrupt h =
     (let s = new_segment name conn_id use_yes_price (dict_get_or (ho_lost_connection h) conn_id False) in
      case feed_all ev records (h, s) of
        (_, True) \<Rightarrow> None
      | ((h, s), False) \<Rightarrow>
          (let h = (if corrupt then corrupt_segment name (sg_index s) h else h);
               (h, s) = finish_segment (h, s)
           in Some (h\<lparr>ho_lost_connection := dict_put conn_id (lost_connection s) (ho_lost_connection h)\<rparr>, facts_of s)))"

record record_accounting =
  ra_records :: "(string, int) dict"
  ra_baked :: "(string, int) dict"
  ra_not_baked :: "(string, int) dict"
  ra_decode_failures :: "(string, int) dict"
  ra_corrupt_segments :: int

record gap_facts =
  gf_count :: int
  gf_stale_market_ns :: int
  gf_observed_market_ns :: int

record audit_facts =
  af_exact :: int
  af_consistent :: int
  af_inconsistent :: int
  af_undecidable :: int
  af_levels_mismatched :: int

record hour_integrity =
  hi_spans :: "connection_span list"
  hi_sleeps :: "(int \<times> int) list"
  hi_gaps :: gap_facts
  hi_audits :: audit_facts
  hi_writer_overflow_dropped :: int

record hour_result =
  hr_accounting :: record_accounting
  hr_integrity :: hour_integrity
  hr_failures :: "decode_failure list"

definition sorted_counts :: "(string, int) dict \<Rightarrow> (string, int) dict" where
  "sorted_counts counts = sort counts"

definition finish_hour :: "hour_state \<Rightarrow> hour_result" where
  "finish_hour h =
     \<lparr>hr_accounting = \<lparr>ra_records = sorted_counts (ho_records h), ra_baked = sorted_counts (ho_baked h),
        ra_not_baked = sorted_counts (ho_not_baked h), ra_decode_failures = sorted_counts (ho_decode_failures h),
        ra_corrupt_segments = ho_corrupt_segments h\<rparr>,
      hr_integrity = \<lparr>hi_spans = ho_spans h, hi_sleeps = sorted_list_of_set (ho_sleeps h),
        hi_gaps = \<lparr>gf_count = ho_gap_count h, gf_stale_market_ns = ho_stale_market_ns h, gf_observed_market_ns = ho_observed_market_ns h\<rparr>,
        hi_audits = \<lparr>af_exact = dict_get_or (ho_audits h) ''exact'' 0, af_consistent = dict_get_or (ho_audits h) ''consistent'' 0,
          af_inconsistent = dict_get_or (ho_audits h) ''inconsistent'' 0, af_undecidable = dict_get_or (ho_audits h) ''undecidable'' 0,
          af_levels_mismatched = ho_levels_mismatched h\<rparr>,
        hi_writer_overflow_dropped = ho_overflow_dropped h\<rparr>,
      hr_failures = ho_failures h\<rparr>"

text \<open>The checks the manifest's structs make when they are built (\<^verbatim>\<open>bake/manifest.py\<close>).\<close>

definition RECORD_KINDS :: "string list" where
  "RECORD_KINDS = [''frame'', ''command'', ''gap'', ''connection'', ''audit'']"

datatype accounting_error = UnknownKinds "string list" | Unbalanced int int

definition counts_total :: "(string, int) dict \<Rightarrow> int" where
  "counts_total counts = sum_list (map snd counts)"

definition accounting_error :: "record_accounting \<Rightarrow> accounting_error option" where
  "accounting_error a =
     (let unknown = set (dict_keys (ra_records a)) - set RECORD_KINDS;
          accounted = counts_total (ra_baked a) + counts_total (ra_not_baked a) + counts_total (ra_decode_failures a)
      in if unknown \<noteq> {} then Some (UnknownKinds (sorted_list_of_set unknown))
         else if counts_total (ra_records a) \<noteq> accounted then Some (Unbalanced (counts_total (ra_records a)) accounted)
         else None)"

definition accounting_failures :: "record_accounting \<Rightarrow> int" where
  "accounting_failures a = counts_total (ra_decode_failures a) + ra_corrupt_segments a"

definition span_ok :: "connection_span \<Rightarrow> bool" where
  "span_ok sp \<longleftrightarrow> cs_start_wall_ns sp \<le> cs_end_wall_ns sp"

definition sleep_ok :: "int \<times> int \<Rightarrow> bool" where
  "sleep_ok sl \<longleftrightarrow> fst sl \<le> snd sl"

end
