(* ===== verification/Interpreted.thy ===== *)
theory Interpreted
  imports Interpret
begin

text \<open>
  What the interpreter of \<^theory_text>\<open>Interpret\<close> keeps: every record is counted once under one outcome, every gap
  record is one row of the gaps table, and the time a book is stale is part of the time it is
  observed.
\<close>

section \<open>Counting\<close>

lemma counts_total_up [simp]: "counts_total (count_up k d) = counts_total d + 1"
  by (simp add: counts_total_def count_up_def sum_put)

definition read_total :: "hour_state \<Rightarrow> int" where
  "read_total h = counts_total (ho_records h)"

definition accounted_total :: "hour_state \<Rightarrow> int" where
  "accounted_total h = counts_total (ho_baked h) + counts_total (ho_not_baked h) + counts_total (ho_decode_failures h)"

text \<open>What a handler that only emits rows and measures time leaves alone.\<close>

definition same_counts :: "hour_state \<Rightarrow> hour_state \<Rightarrow> bool" where
  "same_counts h h' \<longleftrightarrow> ho_records h' = ho_records h \<and> ho_baked h' = ho_baked h \<and> ho_not_baked h' = ho_not_baked h \<and>
     ho_decode_failures h' = ho_decode_failures h"

lemma same_counts_refl [simp]: "same_counts h h"
  by (simp add: same_counts_def)

lemma same_counts_trans: "same_counts h h' \<Longrightarrow> same_counts h' h'' \<Longrightarrow> same_counts h h''"
  by (simp add: same_counts_def)

lemma fold_fst_rel:
  assumes "\<And>x s. R (fst s) (fst (f x s))" "\<And>h. R h h" "\<And>a b c. R a b \<Longrightarrow> R b c \<Longrightarrow> R a c"
  shows "R (fst s) (fst (fold f xs s))"
proof (induction xs arbitrary: s)
  case (Cons x xs)
  show ?case using assms(3) [OF assms(1) [of s x] Cons [of "f x s"]] by simp
qed (simp add: assms(2))

text \<open>
  A relation between the hours before and after that emitting rows and adding book time keeps is
  kept by everything a record does besides counting: the handlers are reduced to those two.
\<close>

locale hour_rel =
  fixes R :: "hour_state \<Rightarrow> hour_state \<Rightarrow> bool"
  assumes R_refl [simp]: "R h h"
    and R_trans: "R h h' \<Longrightarrow> R h' h'' \<Longrightarrow> R h h''"
    and R_emit: "R h (ho_emit row h)"
    and R_time: "R h (add_book_time a b h)"
begin

lemma emits_R: "R h (fold ho_emit rows h)"
  by (induction rows arbitrary: h) (auto intro: R_trans R_emit)

lemma observe_R: "R (fst rg) (fst (observe_market t sid w rg))"
  by (simp add: observe_market_def split: prod.splits)

lemma leave_R: "R (fst rg) (fst (leave_market w t rg))"
  by (simp add: leave_market_def end_market_def R_time split: prod.splits option.splits)

lemma leaves_R: "R (fst rg) (fst (fold (leave_market w) ts rg))"
  by (rule fold_fst_rel [where R = R]) (auto intro: leave_R R_trans)

lemma freshen_R: "R (fst rg) (fst (freshen_market t w rg))"
  by (simp add: freshen_market_def R_time split: prod.splits option.splits)

lemma resolve_one_R: "R (fst st) (fst (resolve_one sid t w pg st))"
  by (simp add: resolve_one_def R_emit Let_def split: prod.splits)

lemma resolve_R: "R (fst rg) (fst (resolve_gaps sid t w rg))"
proof -
  obtain h s where rg: "rg = (h, s)" by fastforce
  have "R (fst (h, [] :: pending_gap list)) (fst (fold (resolve_one sid t w) (sg_pending_gaps s) (h, [])))"
    by (rule fold_fst_rel [where R = R]) (auto intro: resolve_one_R R_trans)
  then show ?thesis by (simp add: rg resolve_gaps_def case_prod_beta)
qed

lemma delta_R: "R (fst rg) (fst (bake_delta d rg))"
  using R_trans [OF observe_R R_emit] by (simp add: bake_delta_def in_hour_def Let_def) (metis fst_conv)

lemma snapshot_R: "R (fst rg) (fst (bake_snapshot b rg))"
proof -
  obtain s reason where r: "snapshot_reason (bs_sid b) (bs_ticker b) (snd rg) = (s, reason)" by fastforce
  let ?s = "s\<lparr>sg_book_sids := insert (bs_sid b) (sg_book_sids s)\<rparr>" and ?w = "rc_recv_wall_ns (bs_receipt b)"
  let ?rg1 = "observe_market (bs_ticker b) (bs_sid b) ?w (fst rg, ?s)"
  let ?rg2 = "freshen_market (bs_ticker b) ?w ?rg1"
  let ?rg3 = "in_hour (fold ho_emit (snapshot_rows b reason)) ?rg2"
  have "R (fst rg) (fst ?rg1)" using observe_R [of "(fst rg, ?s)"] by simp
  moreover have "R (fst ?rg1) (fst ?rg2)" by (rule freshen_R)
  moreover have "R (fst ?rg2) (fst ?rg3)" by (simp add: in_hour_def emits_R)
  moreover have "bake_snapshot b rg = resolve_gaps (bs_sid b) (bs_ticker b) ?w ?rg3"
    by (simp add: bake_snapshot_def r Let_def)
  moreover have "R (fst ?rg3) (fst (bake_snapshot b rg))" unfolding calculation(4) by (rule resolve_R)
  ultimately show ?thesis by (blast intro: R_trans)
qed

lemma baking_R: "(\<And>x rg. R (fst rg) (fst (f x rg))) \<Longrightarrow> R (fst rg) (fst (fst (baking r f rg)))"
  by (simp add: baking_def split: sum.splits)

lemma in_hour_R: "(\<And>h. R h (f h)) \<Longrightarrow> R (fst rg) (fst (in_hour f rg))"
  by (simp add: in_hour_def)

lemma lifecycle_R: "R (fst rg) (fst ((\<lambda>(ts_s, l). bake_lifecycle ts_s l) x rg))"
  by (simp add: bake_lifecycle_def in_hour_R R_emit split: prod.split)

lemma data_frame_R: "R (fst rg) (fst (fst (data_frame ev env rc rg)))"
proof -
  have "R (fst rg) (fst (fst (baking a bake_delta rg)))" "R (fst rg) (fst (fst (baking b bake_snapshot rg)))"
    "R (fst rg) (fst (fst (baking c bake_trade rg)))" for a b c
    by (rule baking_R, simp add: delta_R snapshot_R bake_trade_def in_hour_R R_emit)+
  moreover have "R (fst rg) (fst (fst (baking d (\<lambda>(ts_s, l). bake_lifecycle ts_s l) rg)))" for d
    by (rule baking_R) (rule lifecycle_R)
  moreover have "R (fst rg) (fst (fst (bake_event_message ev env rc rg)))"
    unfolding bake_event_message_def by (rule baking_R) (simp add: in_hour_R R_emit)
  ultimately show ?thesis unfolding data_frame_def by (simp only: split: if_split) simp
qed

end

interpretation counts_kept: hour_rel same_counts
  by unfold_locales (auto simp: same_counts_def ho_emit_def add_book_time_def)

section \<open>The three outcomes of a record\<close>

lemma data_frame_error: "data_frame ev env rc rg = (rg', Some e) \<Longrightarrow> rg' = rg"
  by (auto simp: data_frame_def baking_def bake_event_message_def split: sum.splits if_splits)

lemma seg_fail_counts:
  "ho_records (fst (seg_fail f rg)) = ho_records (fst rg)" "accounted_total (fst (seg_fail f rg)) = accounted_total (fst rg) + 1"
  by (simp_all add: seg_fail_def in_hour_def ho_fail_def accounted_total_def Let_def)

definition adds_outcome :: "reading \<Rightarrow> reading \<Rightarrow> bool" where
  "adds_outcome rg rg' \<longleftrightarrow> (\<exists>failure. rg' = seg_fail failure rg) \<or>
     ho_records (fst rg') = ho_records (fst rg) \<and> ho_decode_failures (fst rg') = ho_decode_failures (fst rg) \<and>
     accounted_total (fst rg') = accounted_total (fst rg) + 1"

lemma count_keeps [simp]:
  "ho_records (bake_count k h) = ho_records h" "ho_records (skip_count k h) = ho_records h"
  "ho_decode_failures (bake_count k h) = ho_decode_failures h" "ho_decode_failures (skip_count k h) = ho_decode_failures h"
  "accounted_total (bake_count k h) = accounted_total h + 1" "accounted_total (skip_count k h) = accounted_total h + 1"
  by (simp_all add: bake_count_def skip_count_def accounted_total_def)

lemma same_counts_total: "same_counts h h' \<Longrightarrow> accounted_total h' = accounted_total h \<and> ho_records h' = ho_records h \<and>
    ho_decode_failures h' = ho_decode_failures h"
  by (simp add: same_counts_def accounted_total_def)

lemma adds_counted:
  assumes "same_counts h0 h'" "h0 = bake_count k (fst rg) \<or> h0 = skip_count k (fst rg)"
  shows "adds_outcome rg (h', s')"
  using same_counts_total [OF assms(1)] assms(2) by (auto simp: adds_outcome_def)

lemma frame_outcome: "bake_frame ev r rg = (rg', False) \<Longrightarrow> adds_outcome rg rg'"
proof -
  assume b: "bake_frame ev r rg = (rg', False)"
  show ?thesis
  proof (cases "bk_envelope ev (sr_payload r)")
    case None
    with b show ?thesis by (auto simp: bake_frame_def adds_outcome_def)
  next
    case (Some env)
    obtain rg1 err where d: "data_frame ev env (record_receipt r) rg = (rg1, err)" by fastforce
    have kept: "same_counts (fst rg) (fst rg1)" using counts_kept.data_frame_R [of rg ev env "record_receipt r"] d by simp
    have err: "err \<noteq> None \<Longrightarrow> rg1 = rg" using d data_frame_error by blast
    have "adds_outcome rg (bake_reply ev env rg)"
      by (auto simp: bake_reply_def in_hour_def adds_outcome_def split: sum.splits)
    moreover have "adds_outcome rg (in_hour (bake_count (en_type env)) rg1)"
      using same_counts_total [OF kept] by (simp add: adds_outcome_def in_hour_def)
    ultimately show ?thesis using b Some d err
      by (auto simp: bake_frame_def adds_outcome_def split: if_splits option.splits convert_error.splits)
  qed
qed

lemma command_outcome: "adds_outcome rg (bake_command ev r rg)"
proof (cases "bk_command ev (sr_payload r)")
  case None
  then show ?thesis by (auto simp: bake_command_def adds_outcome_def)
next
  case (Some cmd)
  have "same_counts (skip_count ''command'' (fst rg)) (fst (bake_command ev r rg))"
    using counts_kept.leaves_R [of "in_hour (skip_count ''command'') rg"]
    by (simp add: bake_command_def Some Let_def in_hour_def split: option.splits)
  from adds_counted [OF this, of "''command''" rg "snd (bake_command ev r rg)"] show ?thesis by simp
qed

lemma gap_outcome: "adds_outcome rg (bake_gap ev r rg)"
proof (cases "bk_gap ev (sr_payload r)")
  case None
  then show ?thesis by (auto simp: bake_gap_def adds_outcome_def)
next
  case (Some gap)
  have "same_counts (bake_count ''gap'' (fst rg)) (fst (bake_gap ev r rg))"
    by (simp add: bake_gap_def Some Let_def in_hour_def same_counts_def add_gap_def ho_emit_def)
  from adds_counted [OF this, of "''gap''" rg "snd (bake_gap ev r rg)"] show ?thesis by simp
qed

lemma audit_counts: "bake_audit ev r rg = (rg', False) \<Longrightarrow> adds_outcome rg rg'"
proof -
  assume b: "bake_audit ev r rg = (rg', False)"
  show ?thesis
  proof (cases "bk_audit ev (sr_payload r)")
    case None
    with b show ?thesis by (auto simp: bake_audit_def adds_outcome_def)
  next
    case (Some a)
    have "same_counts (bake_count ''audit'' (fst rg)) (fst rg')"
      using b by (auto simp: bake_audit_def Some Let_def in_hour_def same_counts_def add_audit_def ho_emit_def bake_count_def
          split: option.splits)
    from adds_counted [OF this, of "''audit''" rg "snd rg'"] show ?thesis by simp
  qed
qed

lemma close_span_counts: "same_counts (fst rg) (fst (close_span w b rg))"
  by (simp add: close_span_def same_counts_def add_span_def split: prod.splits option.splits)

lemma connection_outcome: "adds_outcome rg (bake_connection ev r rg)"
proof (cases "bk_connection ev (sr_payload r)")
  case None
  then show ?thesis by (auto simp: bake_connection_def adds_outcome_def)
next
  case (Some c)
  have "same_counts (skip_count ''connection'' (fst rg)) (fst (bake_connection ev r rg))"
    by (auto simp: bake_connection_def connection_effect_def Some Let_def in_hour_def close_span_def same_counts_def add_span_def add_sleep_def
        add_overflow_def split: option.splits prod.splits)
  from adds_counted [OF this, of "''connection''" rg "snd (bake_connection ev r rg)"] show ?thesis by simp
qed

lemma record_outcome: "bake_record ev r rg = (rg', False) \<Longrightarrow> adds_outcome rg rg'"
  using frame_outcome [of ev r rg] command_outcome [of rg ev r] gap_outcome [of rg ev r] connection_outcome [of rg ev r]
    audit_counts [of ev r rg]
  by (cases "sr_kind r") (auto simp: bake_record_def)

section \<open>A segment, and an hour of them\<close>

lemma meet_counts:
  "read_total (fst (meet_record ev r rg)) = read_total (fst rg) + 1" "accounted_total (fst (meet_record ev r rg)) = accounted_total (fst rg)"
  by (simp_all add: meet_record_def read_total_def accounted_total_def Let_def split: prod.splits)

lemma feed_counts:
  assumes "feed ev r rg = (rg', False)"
  shows "read_total (fst rg') = read_total (fst rg) + 1" "accounted_total (fst rg') = accounted_total (fst rg) + 1"
proof -
  obtain rg1 where b: "bake_record ev r (meet_record ev r rg) = (rg1, False)" "fst rg' = fst rg1"
    using assms by (auto simp: feed_def split: prod.splits)
  from record_outcome [OF b(1)] have "ho_records (fst rg1) = ho_records (fst (meet_record ev r rg))"
      "accounted_total (fst rg1) = accounted_total (fst (meet_record ev r rg)) + 1"
    by (auto simp: adds_outcome_def seg_fail_counts)
  with b(2) meet_counts [of ev r rg] show "read_total (fst rg') = read_total (fst rg) + 1"
      "accounted_total (fst rg') = accounted_total (fst rg) + 1"
    by (simp_all add: read_total_def)
qed

lemma feed_all_counts:
  assumes "feed_all ev rs rg = (rg', False)"
  shows "read_total (fst rg') = read_total (fst rg) + int (length rs) \<and>
    accounted_total (fst rg') = accounted_total (fst rg) + int (length rs)"
  using assms
proof (induction rs arbitrary: rg)
  case (Cons r rs)
  obtain rg1 where f: "feed ev r rg = (rg1, False)" "feed_all ev rs rg1 = (rg', False)"
    using Cons.prems by (auto split: prod.splits if_splits)
  from feed_counts [OF f(1)] Cons.IH [OF f(2)] show ?case by simp
qed simp

text \<open>What every operation on an hour keeps: the checks of its structs.\<close>

definition hour_ok :: "hour_state \<Rightarrow> bool" where
  "hour_ok h \<longleftrightarrow> set (dict_keys (ho_records h)) \<subseteq> set RECORD_KINDS \<and> list_all span_ok (ho_spans h) \<and>
     finite (ho_sleeps h) \<and> (\<forall>sl\<in>ho_sleeps h. sleep_ok sl)"

lemma hour_ok_cong:
  "ho_records h' = ho_records h \<Longrightarrow> ho_spans h' = ho_spans h \<Longrightarrow> ho_sleeps h' = ho_sleeps h \<Longrightarrow> hour_ok h' = hour_ok h"
  by (simp only: hour_ok_def)

lemma hour_ok_simps [simp]:
  "hour_ok (ho_fail f n i h) = hour_ok h" "hour_ok (bake_count k h) = hour_ok h" "hour_ok (skip_count k h) = hour_ok h"
  "hour_ok (add_gap h) = hour_ok h" "hour_ok (add_audit out m h) = hour_ok h" "hour_ok (add_overflow d h) = hour_ok h"
  "hour_ok (ho_emit row h) = hour_ok h" "hour_ok (add_book_time a b h) = hour_ok h" "hour_ok (corrupt_segment n i h) = hour_ok h"
  by (rule hour_ok_cong; simp add: ho_fail_def bake_count_def skip_count_def add_gap_def add_audit_def add_overflow_def
      ho_emit_def add_book_time_def corrupt_segment_def Let_def split: option.split)+

interpretation ok_kept: hour_rel "\<lambda>h h'. hour_ok h \<longrightarrow> hour_ok h'"
  by unfold_locales simp_all

lemma hour_ok_span: "hour_ok h \<Longrightarrow> span_ok sp \<Longrightarrow> hour_ok (add_span sp h)"
  by (simp add: hour_ok_def add_span_def)

lemma hour_ok_sleep: "hour_ok h \<Longrightarrow> t0 \<le> t1 \<Longrightarrow> hour_ok (add_sleep t0 t1 h)"
  by (simp add: hour_ok_def add_sleep_def sleep_ok_def)

lemma close_span_ok: "hour_ok (fst rg) \<Longrightarrow> hour_ok (fst (close_span w b rg))"
  by (cases rg; cases "sg_span_start (snd rg)") (simp_all add: close_span_def span_ok_def hour_ok_span)

lemma seg_fail_ok [simp]: "hour_ok (fst (seg_fail f rg)) = hour_ok (fst rg)"
  by (simp add: seg_fail_def in_hour_def)

lemma hour_ok_if: "hour_ok (fst a) \<Longrightarrow> hour_ok (fst b) \<Longrightarrow> hour_ok (fst (if c then a else b))"
  by simp

lemma effect_ok:
  assumes "hour_ok (fst rg)"
  shows "hour_ok (fst (connection_effect w c rg))"
proof -
  have ends: "hour_ok (fst (close_span w b rg))" for b by (rule close_span_ok [OF assms])
  have "hour_ok (fst (case close_span w False rg of (h, s) \<Rightarrow> (h, s\<lparr>sg_span_start := Some w, sg_span_opened := True\<rparr>)))"
    using ends by (simp add: case_prod_beta)
  moreover have "hour_ok (fst (case (cy_wall_ns_delta c, cy_mono_ns_delta c) of
        (Some d, Some m) \<Rightarrow> if d > m then in_hour (add_sleep (w - (d - m)) w) rg else rg
      | _ \<Rightarrow> rg))"
    using assms by (cases "cy_wall_ns_delta c"; cases "cy_mono_ns_delta c") (simp_all add: in_hour_def hour_ok_sleep)
  moreover have "hour_ok (fst (case cy_dropped c of Some n \<Rightarrow> in_hour (add_overflow n) rg | None \<Rightarrow> rg))"
    using assms by (cases "cy_dropped c") (simp_all add: in_hour_def)
  ultimately show ?thesis unfolding connection_effect_def by (intro hour_ok_if ends assms)
qed

lemma connection_ok:
  assumes "hour_ok (fst rg)"
  shows "hour_ok (fst (bake_connection ev r rg))"
proof (cases "bk_connection ev (sr_payload r)")
  case (Some c)
  have "hour_ok (fst (in_hour (skip_count ''connection'') rg))" using assms by (simp add: in_hour_def)
  then have "hour_ok (fst (connection_effect w c (in_hour (skip_count ''connection'') rg)))" for w by (rule effect_ok)
  then show ?thesis unfolding bake_connection_def Some option.case Let_def by (intro hour_ok_if) (simp_all only: fst_conv)
qed (simp add: bake_connection_def assms)

lemma frame_ok:
  assumes "hour_ok (fst rg)"
  shows "hour_ok (fst (fst (bake_frame ev r rg)))"
proof (cases "bk_envelope ev (sr_payload r)")
  case (Some env)
  obtain rg1 err where d: "data_frame ev env (record_receipt r) rg = (rg1, err)" by fastforce
  have "hour_ok (fst rg1)" using ok_kept.data_frame_R [of rg ev env "record_receipt r"] d assms by simp
  moreover have "hour_ok (fst (bake_reply ev env rg))"
    using assms by (simp add: bake_reply_def in_hour_def split: sum.split)
  ultimately show ?thesis using assms
    by (simp add: bake_frame_def Some d in_hour_def split: option.split convert_error.split)
qed (simp add: bake_frame_def assms)

lemma command_ok:
  assumes "hour_ok (fst rg)"
  shows "hour_ok (fst (bake_command ev r rg))"
proof -
  have "hour_ok (fst (in_hour (skip_count ''command'') rg))" using assms by (simp add: in_hour_def)
  then have "hour_ok (fst (fold (leave_market w) ts (in_hour (skip_count ''command'') rg)))" for w ts
    using ok_kept.leaves_R by blast
  with \<open>hour_ok (fst (in_hour _ rg))\<close> assms show ?thesis
    by (auto simp: bake_command_def Let_def split: option.split)
qed

lemma record_ok: "hour_ok (fst rg) \<Longrightarrow> hour_ok (fst (fst (bake_record ev r rg)))"
  using frame_ok [of rg ev r] connection_ok [of rg ev r] command_ok [of rg ev r]
  by (cases "sr_kind r")
    (simp_all add: bake_record_def bake_gap_def bake_audit_def in_hour_def Let_def split: option.split)

lemma begin_keeps: "fst (meet_record ev r (h, s)) = h\<lparr>ho_records := count_up (kind_name (sr_kind r)) (ho_records h)\<rparr>"
  by (simp add: meet_record_def Let_def)

lemma kind_name_known: "kind_name k \<in> set RECORD_KINDS"
  by (cases k) (simp_all add: kind_name_def RECORD_KINDS_def)

lemma meet_ok: "hour_ok (fst rg) \<Longrightarrow> hour_ok (fst (meet_record ev r rg))"
  using kind_name_known [of "sr_kind r"]
  by (cases rg) (simp add: begin_keeps hour_ok_def count_up_def dom_update dict_keys_set)

lemma feed_ok: "hour_ok (fst rg) \<Longrightarrow> hour_ok (fst (fst (feed ev r rg)))"
  using record_ok [OF meet_ok, of rg ev r] by (simp add: feed_def case_prod_beta)

lemma feed_all_ok: "hour_ok (fst rg) \<Longrightarrow> hour_ok (fst (fst (feed_all ev rs rg)))"
proof (induction rs arbitrary: rg)
  case (Cons r rs)
  then show ?case using feed_ok [OF Cons.prems, of ev r] by (simp add: case_prod_beta)
qed simp

lemma in_hour_simps [simp]: "fst (in_hour f rg) = f (fst rg)" "snd (in_hour f rg) = snd rg"
  by (simp_all add: in_hour_def)

lemma end_market_counts [simp]: "same_counts h (end_market m w h)" "hour_ok (end_market m w h) = hour_ok h"
  by (simp_all add: end_market_def counts_kept.R_time)

lemma end_markets_counts:
  "same_counts (fst rg) (fst (fold (\<lambda>(_, m) rg. in_hour (end_market m w) rg) ms rg)) \<and>
   hour_ok (fst (fold (\<lambda>(_, m) rg. in_hour (end_market m w) rg) ms rg)) = hour_ok (fst rg)"
  by (intro conjI fold_fst_rel [where R = same_counts] fold_fst_rel [where R = "\<lambda>h h'. hour_ok h' = hour_ok h"])
    (auto simp: case_prod_beta intro: same_counts_trans)

lemma emit_pending_counts:
  "same_counts h (fold (ho_emit \<circ> pg_row) ps h) \<and> hour_ok (fold (ho_emit \<circ> pg_row) ps h) = hour_ok h"
proof (induction ps arbitrary: h)
  case (Cons p ps)
  show ?case using Cons [of "ho_emit (pg_row p) h"] counts_kept.R_emit [of h "pg_row p"]
    by simp (blast intro: same_counts_trans)
qed simp

lemma finish_segment_counts:
  "same_counts (fst rg) (fst (finish_segment rg)) \<and> (hour_ok (fst rg) \<longrightarrow> hour_ok (fst (finish_segment rg)))"
proof -
  define rg1 where "rg1 = (case sg_last_wall_ns (snd rg) of
                  None \<Rightarrow> rg
                | Some t1 \<Rightarrow> close_span t1 False (fold (\<lambda>(_, m) rg. in_hour (end_market m t1) rg) (sg_markets (snd rg)) rg))"
  have "same_counts (fst rg) (fst rg1) \<and> (hour_ok (fst rg) \<longrightarrow> hour_ok (fst rg1))"
  proof (cases "sg_last_wall_ns (snd rg)")
    case (Some t1)
    let ?rg = "fold (\<lambda>(_, m) rg. in_hour (end_market m t1) rg) (sg_markets (snd rg)) rg"
    have "same_counts (fst ?rg) (fst rg1)" unfolding rg1_def Some option.case by (rule close_span_counts)
    moreover have "hour_ok (fst ?rg) \<Longrightarrow> hour_ok (fst rg1)" unfolding rg1_def Some option.case by (rule close_span_ok)
    ultimately show ?thesis using end_markets_counts [where rg = rg and w = t1 and ms = "sg_markets (snd rg)"] by (blast intro: same_counts_trans)
  qed (simp add: rg1_def)
  moreover have "finish_segment rg = (fold (ho_emit \<circ> pg_row) (sg_pending_gaps (snd rg1)) (fst rg1), (snd rg1)\<lparr>sg_pending_gaps := []\<rparr>)"
    by (simp add: finish_segment_def rg1_def Let_def case_prod_beta)
  ultimately show ?thesis using emit_pending_counts [of "fst rg1"] by (auto intro: same_counts_trans)
qed

lemma read_segment_counts:
  assumes "read_segment ev name conn_id yes rs corrupt h = Some (h', facts)"
  shows "read_total h' = read_total h + int (length rs)" "accounted_total h' = accounted_total h + int (length rs)"
    "hour_ok h \<Longrightarrow> hour_ok h'"
proof -
  define s0 where "s0 = new_segment name conn_id yes (dict_get_or (ho_lost_connection h) conn_id False)"
  obtain h1 s1 where f: "feed_all ev rs (h, s0) = ((h1, s1), False)"
    using assms by (auto simp: read_segment_def s0_def Let_def split: prod.splits bool.splits)
  define h2 where "h2 = (if corrupt then corrupt_segment name (sg_index s1) h1 else h1)"
  have h2: "same_counts h1 h2" "hour_ok h2 = hour_ok h1"
    by (simp_all add: h2_def) (simp add: same_counts_def corrupt_segment_def)
  have "\<exists>d. h' = (fst (finish_segment (h2, s1)))\<lparr>ho_lost_connection := d\<rparr>"
    using assms f by (auto simp: read_segment_def s0_def h2_def Let_def split: prod.splits if_splits)
  then obtain d where h': "h' = (fst (finish_segment (h2, s1)))\<lparr>ho_lost_connection := d\<rparr>" by blast
  have "same_counts h1 (fst (finish_segment (h2, s1)))"
    using finish_segment_counts [of "(h2, s1)"] h2(1) by (auto intro: same_counts_trans)
  then have "same_counts h1 h'" by (simp add: same_counts_def h')
  with feed_all_counts [OF f] show "read_total h' = read_total h + int (length rs)"
      "accounted_total h' = accounted_total h + int (length rs)"
    using same_counts_total by (simp_all add: read_total_def)
  show "hour_ok h'" if "hour_ok h"
  proof -
    have "hour_ok h2" using feed_all_ok [of "(h, s0)" ev rs] f that h2(2) by simp
    then have "hour_ok (fst (finish_segment (h2, s1)))" using finish_segment_counts [of "(h2, s1)"] by simp
    then show ?thesis using hour_ok_cong [of h' "fst (finish_segment (h2, s1))"] by (simp add: h')
  qed
qed

section \<open>Gap rows\<close>

fun is_gap_row :: "table_row \<Rightarrow> bool" where
  "is_gap_row (GapRow _ _ _ _ _ _ _) = True"
| "is_gap_row _ = False"

fun unresolved :: "table_row \<Rightarrow> table_row" where
  "unresolved (GapRow a b c d e f _) = GapRow a b c d e f None"
| "unresolved row = row"

definition gap_rows :: "hour_state \<Rightarrow> table_row list" where
  "gap_rows h = filter is_gap_row (ho_rows h)"

text \<open>The row a gap record becomes, before it is resolved.\<close>

definition gap_row_of :: "bake_env \<Rightarrow> seg_record \<Rightarrow> table_row option" where
  "gap_row_of ev r =
     (if sr_kind r = GAP then
        map_option (\<lambda>g. GapRow (sr_conn_id r) (gy_sid g) (sr_recv_wall_ns r) (sr_recv_mono_ns r) (gy_expected_seq g) (gy_got_seq g) None)
          (bk_gap ev (sr_payload r))
      else None)"

text \<open>The gap rows of a reading: written, and waiting for snapshots.\<close>

definition all_gaps :: "reading \<Rightarrow> table_row multiset" where
  "all_gaps rg = mset (map unresolved (gap_rows (fst rg))) + mset (map pg_row (sg_pending_gaps (snd rg)))"

definition pending_ok :: "pending_gap list \<Rightarrow> bool" where
  "pending_ok ps \<longleftrightarrow> list_all (\<lambda>p. is_gap_row (pg_row p) \<and> unresolved (pg_row p) = pg_row p) ps"

definition gaps_kept :: "reading \<Rightarrow> reading \<Rightarrow> bool" where
  "gaps_kept rg rg' \<longleftrightarrow> ho_gap_count (fst rg') = ho_gap_count (fst rg) \<and>
     (pending_ok (sg_pending_gaps (snd rg)) \<longrightarrow> pending_ok (sg_pending_gaps (snd rg')) \<and> all_gaps rg' = all_gaps rg)"

lemma gaps_kept_refl [simp]: "gaps_kept rg rg"
  by (simp add: gaps_kept_def)

lemma gaps_kept_trans: "gaps_kept rg rg' \<Longrightarrow> gaps_kept rg' rg'' \<Longrightarrow> gaps_kept rg rg''"
  by (auto simp: gaps_kept_def)

lemma gaps_kept_same:
  assumes "ho_gap_count (fst rg') = ho_gap_count (fst rg)" "ho_rows (fst rg') = ho_rows (fst rg)"
    "sg_pending_gaps (snd rg') = sg_pending_gaps (snd rg)"
  shows "gaps_kept rg rg'"
  using assms by (simp add: gaps_kept_def all_gaps_def gap_rows_def)

lemma emit_kept: "\<not> is_gap_row row \<Longrightarrow> gaps_kept rg (in_hour (ho_emit row) rg)"
  by (simp add: gaps_kept_def all_gaps_def gap_rows_def ho_emit_def)

lemma emits_kept: "list_all (\<lambda>row. \<not> is_gap_row row) rows \<Longrightarrow> gaps_kept rg (in_hour (fold ho_emit rows) rg)"
proof (induction rows arbitrary: rg)
  case (Cons row rows)
  have eq: "in_hour (fold ho_emit (row # rows)) rg = in_hour (fold ho_emit rows) (in_hour (ho_emit row) rg)"
    by (simp add: in_hour_def)
  have "gaps_kept (in_hour (ho_emit row) rg) (in_hour (fold ho_emit rows) (in_hour (ho_emit row) rg))"
    by (rule Cons.IH) (use Cons.prems in simp)
  then show ?case unfolding eq by (rule gaps_kept_trans [OF emit_kept, rotated]) (use Cons.prems in simp)
qed (simp add: in_hour_def)

lemma resolved_gap: "is_gap_row row \<Longrightarrow> unresolved row = row \<Longrightarrow> unresolved (set_resolved w row) = row \<and> is_gap_row (set_resolved w row)"
  by (cases row) auto

lemma resolve_all:
  assumes "pending_ok ps" "pending_ok still"
  shows "case fold (resolve_one sid t w) ps (h, still) of (h', still') \<Rightarrow>
      pending_ok still' \<and> ho_gap_count h' = ho_gap_count h \<and>
      mset (map unresolved (gap_rows h')) + mset (map pg_row still') =
        mset (map unresolved (gap_rows h)) + mset (map pg_row still) + mset (map pg_row ps)"
  using assms
proof (induction ps arbitrary: h still)
  case (Cons p ps)
  have p: "is_gap_row (pg_row p)" "unresolved (pg_row p) = pg_row p" "pending_ok ps" using Cons.prems by (auto simp: pending_ok_def)
  obtain h1 still1 where one: "resolve_one sid t w p (h, still) = (h1, still1)" by fastforce
  have "pending_ok still1" "ho_gap_count h1 = ho_gap_count h"
      "mset (map unresolved (gap_rows h1)) + mset (map pg_row still1) =
        mset (map unresolved (gap_rows h)) + mset (map pg_row still) + {#pg_row p#}"
    using one Cons.prems p resolved_gap [OF p(1,2)]
    by (auto simp: resolve_one_def pending_ok_def gap_rows_def ho_emit_def Let_def split: if_splits)
  with Cons.IH [OF p(3), of still1 h1] one show ?case by (auto simp: split: prod.splits)
qed simp

lemma resolve_kept: "gaps_kept rg (resolve_gaps sid t w rg)"
proof -
  obtain h s where rg: "rg = (h, s)" by fastforce
  obtain h' still where f: "fold (resolve_one sid t w) (sg_pending_gaps s) (h, []) = (h', still)" by fastforce
  have "ho_gap_count h' = ho_gap_count h"
  proof -
    have "ho_gap_count (fst (fold (resolve_one sid t w) ps st)) = ho_gap_count (fst st)" for ps st
      by (induction ps arbitrary: st) (auto simp: resolve_one_def ho_emit_def Let_def split: prod.splits)
    from this [of "sg_pending_gaps s" "(h, [])"] f show ?thesis by simp
  qed
  with resolve_all [where ps = "sg_pending_gaps s" and still = "[]" and sid = sid and t = t and w = w and h = h] f show ?thesis
    by (simp add: rg resolve_gaps_def gaps_kept_def all_gaps_def pending_ok_def)
qed

lemma observe_kept: "gaps_kept rg (observe_market t sid w rg)"
  by (rule gaps_kept_same) (simp_all add: observe_market_def split: prod.split)

lemma leave_kept: "gaps_kept rg (leave_market w t rg)"
  by (rule gaps_kept_same) (simp_all add: leave_market_def end_market_def add_book_time_def split: prod.split option.split)

lemma leaves_kept: "gaps_kept rg (fold (leave_market w) ts rg)"
proof (induction ts arbitrary: rg)
  case (Cons t ts)
  show ?case using gaps_kept_trans [OF leave_kept Cons] by simp
qed simp

lemma freshen_kept: "gaps_kept rg (freshen_market t w rg)"
  by (rule gaps_kept_same) (simp_all add: freshen_market_def add_book_time_def split: prod.split option.split)

lemma close_span_kept: "gaps_kept rg (close_span w b rg)"
  by (rule gaps_kept_same) (simp_all add: close_span_def add_span_def split: prod.split option.split)

lemma snapshot_rows_plain: "list_all (\<lambda>row. \<not> is_gap_row row) (snapshot_rows b reason)"
  by (auto simp: snapshot_rows_def Let_def list_all_iff)

lemma snapshot_kept: "gaps_kept rg (bake_snapshot b rg)"
proof -
  obtain s reason where r: "snapshot_reason (bs_sid b) (bs_ticker b) (snd rg) = (s, reason)" by fastforce
  let ?w = "rc_recv_wall_ns (bs_receipt b)"
  let ?rg0 = "(fst rg, s\<lparr>sg_book_sids := insert (bs_sid b) (sg_book_sids s)\<rparr>)"
  let ?rg3 = "in_hour (fold ho_emit (snapshot_rows b reason))
      (freshen_market (bs_ticker b) ?w (observe_market (bs_ticker b) (bs_sid b) ?w ?rg0))"
  have "sg_pending_gaps s = sg_pending_gaps (snd rg)"
    using r by (auto simp: snapshot_reason_def Let_def split: if_splits)
  then have "gaps_kept rg ?rg0" by (intro gaps_kept_same) simp_all
  moreover have "gaps_kept ?rg0 ?rg3"
    by (rule gaps_kept_trans [OF gaps_kept_trans [OF observe_kept freshen_kept] emits_kept [OF snapshot_rows_plain]])
  moreover have "bake_snapshot b rg = resolve_gaps (bs_sid b) (bs_ticker b) ?w ?rg3"
    by (simp add: bake_snapshot_def r Let_def)
  ultimately show ?thesis using gaps_kept_trans [OF gaps_kept_trans resolve_kept] by simp
qed

lemma delta_kept: "gaps_kept rg (bake_delta d rg)"
proof -
  let ?rg0 = "(fst rg, (snd rg)\<lparr>sg_book_sids := insert (bd_sid d) (sg_book_sids (snd rg))\<rparr>)"
  have "gaps_kept rg ?rg0" by (rule gaps_kept_same) simp_all
  moreover note observe_kept [of ?rg0 "bd_ticker d" "bd_sid d" "rc_recv_wall_ns (bd_receipt d)"]
  ultimately have "gaps_kept rg (observe_market (bd_ticker d) (bd_sid d) (rc_recv_wall_ns (bd_receipt d)) ?rg0)"
    by (rule gaps_kept_trans)
  then show ?thesis unfolding bake_delta_def Let_def by (rule gaps_kept_trans) (simp add: emit_kept delta_row_def Let_def)
qed

lemma baking_kept: "(\<And>x rg. gaps_kept rg (f x rg)) \<Longrightarrow> gaps_kept rg (fst (baking r f rg))"
  by (simp add: baking_def split: sum.splits)

lemma data_frame_kept: "gaps_kept rg (fst (data_frame ev env rc rg))"
proof -
  have "gaps_kept rg (fst (baking a bake_delta rg))" "gaps_kept rg (fst (baking b bake_snapshot rg))"
    "gaps_kept rg (fst (baking c bake_trade rg))" for a b c
    by (rule baking_kept, simp add: delta_kept snapshot_kept bake_trade_def trade_row_def emit_kept)+
  moreover have "gaps_kept rg (fst (baking d (\<lambda>(ts_s, l). bake_lifecycle ts_s l) rg))" for d
    by (rule baking_kept) (simp add: bake_lifecycle_def lifecycle_row_def emit_kept split: prod.split)
  moreover have "gaps_kept rg (fst (bake_event_message ev env rc rg))"
    unfolding bake_event_message_def baking_def
    by (cases "decoded (if en_type env = ''event_lifecycle'' then bk_event_ticker ev else bk_fee_event_ticker ev) env";
        cases "en_sid env"; cases "bk_utf8 ev (en_msg env)") (simp_all add: emit_kept)
  ultimately show ?thesis unfolding data_frame_def by (simp only: split: if_split) simp
qed

section \<open>The gap rows of a segment\<close>

definition gap_count_of :: "bake_env \<Rightarrow> seg_record \<Rightarrow> table_row list" where
  "gap_count_of ev r = (case gap_row_of ev r of None \<Rightarrow> [] | Some row \<Rightarrow> [row])"

definition gaps_added :: "table_row list \<Rightarrow> reading \<Rightarrow> reading \<Rightarrow> bool" where
  "gaps_added rows rg rg' \<longleftrightarrow> ho_gap_count (fst rg') = ho_gap_count (fst rg) + int (length rows) \<and>
     (pending_ok (sg_pending_gaps (snd rg)) \<longrightarrow>
        pending_ok (sg_pending_gaps (snd rg')) \<and> all_gaps rg' = all_gaps rg + mset rows)"

lemma gaps_added_none: "gaps_added [] rg rg' \<longleftrightarrow> gaps_kept rg rg'"
  by (simp add: gaps_added_def gaps_kept_def)

lemma gaps_added_trans: "gaps_added rows rg rg' \<Longrightarrow> gaps_added rows' rg' rg'' \<Longrightarrow> gaps_added (rows @ rows') rg rg''"
  by (auto simp: gaps_added_def ac_simps)

lemma fail_kept: "gaps_kept rg (seg_fail f rg)"
  by (rule gaps_kept_same) (simp_all add: seg_fail_def ho_fail_def Let_def)

lemma count_kept: "gaps_kept rg (in_hour (bake_count k) rg)" "gaps_kept rg (in_hour (skip_count k) rg)"
  "gaps_kept rg (in_hour (add_audit out m) rg)" "gaps_kept rg (in_hour (add_sleep t0 t1) rg)" "gaps_kept rg (in_hour (add_overflow n) rg)"
  by (rule gaps_kept_same; simp add: bake_count_def skip_count_def add_audit_def add_sleep_def add_overflow_def Let_def split: option.split)+

lemma segment_kept:
  "sg_pending_gaps s = sg_pending_gaps (snd rg) \<Longrightarrow> gaps_kept rg (fst rg, s)"
  by (rule gaps_kept_same) simp_all

lemma reply_kept: "gaps_kept rg (bake_reply ev env rg)"
proof -
  have "gaps_kept rg (in_hour (skip_count k) (fst rg, (snd rg)\<lparr>sg_book_sids := x\<rparr>))" for k x
    by (rule gaps_kept_trans [OF segment_kept count_kept(2)]) simp
  then show ?thesis by (simp add: bake_reply_def fail_kept count_kept split: sum.split)
qed

lemma frame_kept: "gaps_kept rg (fst (bake_frame ev r rg))"
proof (cases "bk_envelope ev (sr_payload r)")
  case (Some env)
  obtain rg1 err where d: "data_frame ev env (record_receipt r) rg = (rg1, err)" by fastforce
  have k: "gaps_kept rg rg1" using data_frame_kept [of rg ev env "record_receipt r"] d by simp
  have "gaps_kept rg (in_hour (bake_count c) rg1)" "gaps_kept rg (seg_fail f rg1)" for c f
    by (rule gaps_kept_trans [OF k count_kept(1)], rule gaps_kept_trans [OF k fail_kept])
  with k show ?thesis
    by (simp add: bake_frame_def Some d fail_kept reply_kept split: option.split convert_error.split)
qed (simp add: bake_frame_def fail_kept)

lemma command_kept: "gaps_kept rg (bake_command ev r rg)"
proof (cases "bk_command ev (sr_payload r)")
  case (Some cmd)
  let ?rg = "in_hour (skip_count ''command'') rg"
  have "gaps_kept rg ?rg" by (rule count_kept)
  moreover have "gaps_kept rg (fst ?rg, (snd ?rg)\<lparr>sg_requested := x\<rparr>)" for x
    by (rule gaps_kept_trans [OF count_kept(2) segment_kept]) simp
  moreover have "gaps_kept rg (fold (leave_market w) ts ?rg)" for w ts
    by (rule gaps_kept_trans [OF count_kept(2) leaves_kept])
  ultimately show ?thesis unfolding bake_command_def Some option.case Let_def
    by (cases "cy_params cmd") (simp_all only: option.case split: if_split, blast)
qed (simp add: bake_command_def fail_kept)

lemma audit_kept: "gaps_kept rg (fst (bake_audit ev r rg))"
proof (cases "bk_audit ev (sr_payload r)")
  case (Some a)
  let ?rg = "in_hour (add_audit (ay_outcome a) (ay_mismatched_levels a)) (in_hour (bake_count ''audit'') rg)"
  have k: "gaps_kept rg ?rg" by (rule gaps_kept_trans [OF count_kept(1) count_kept(3)])
  have "gaps_kept rg (in_hour (ho_emit row) ?rg)" if "\<not> is_gap_row row" for row
    by (rule gaps_kept_trans [OF k emit_kept [OF that]])
  with k show ?thesis unfolding bake_audit_def Some option.case Let_def
    by (cases "raw_text ev (ay_rest_levels a)"; cases "raw_text ev (ay_local_levels a)") simp_all
qed (simp add: bake_audit_def fail_kept)

lemma effect_kept: "gaps_kept rg (connection_effect w c rg)"
proof -
  have "gaps_kept rg (case close_span w False rg of (h, s) \<Rightarrow> (h, s\<lparr>sg_span_start := Some w, sg_span_opened := True\<rparr>))"
    using gaps_kept_trans [OF close_span_kept segment_kept] by (simp add: case_prod_beta)
  moreover have "gaps_kept rg (case (cy_wall_ns_delta c, cy_mono_ns_delta c) of
        (Some d, Some m) \<Rightarrow> if d > m then in_hour (add_sleep (w - (d - m)) w) rg else rg
      | _ \<Rightarrow> rg)"
    by (cases "cy_wall_ns_delta c"; cases "cy_mono_ns_delta c") (simp_all add: count_kept)
  moreover have "gaps_kept rg (case cy_dropped c of Some n \<Rightarrow> in_hour (add_overflow n) rg | None \<Rightarrow> rg)"
    by (cases "cy_dropped c") (simp_all add: count_kept)
  ultimately show ?thesis unfolding connection_effect_def by (simp only: close_span_kept gaps_kept_refl split: if_split) simp
qed

lemma connection_kept: "gaps_kept rg (bake_connection ev r rg)"
proof (cases "bk_connection ev (sr_payload r)")
  case (Some c)
  let ?rg = "connection_effect (sr_recv_wall_ns r) c (in_hour (skip_count ''connection'') rg)"
  have k: "gaps_kept rg ?rg" by (rule gaps_kept_trans [OF count_kept(2) effect_kept])
  have "gaps_kept rg (fst ?rg, (snd ?rg)\<lparr>sg_last_event := x, sg_last_detail := y\<rparr>)" for x y
    by (rule gaps_kept_trans [OF k segment_kept]) simp
  with k show ?thesis unfolding bake_connection_def Some option.case Let_def by (simp only: split: if_split) blast
qed (simp add: bake_connection_def fail_kept)

lemma gap_added:
  assumes "sr_kind r = GAP"
  shows "gaps_added (gap_count_of ev r) rg (bake_gap ev r rg)"
proof (cases "bk_gap ev (sr_payload r)")
  case None
  then show ?thesis by (simp add: gap_count_of_def gap_row_of_def bake_gap_def gaps_added_none fail_kept)
next
  case (Some g)
  let ?row = "GapRow (sr_conn_id r) (gy_sid g) (sr_recv_wall_ns r) (sr_recv_mono_ns r) (gy_expected_seq g) (gy_got_seq g) None"
  obtain h s where rg: "in_hour add_gap (in_hour (bake_count ''gap'') rg) = (h, s)" by fastforce
  then have h: "ho_gap_count h = ho_gap_count (fst rg) + 1" "gap_rows h = gap_rows (fst rg)" "s = snd rg"
    by (auto simp: in_hour_def add_gap_def bake_count_def gap_rows_def)
  have row: "gap_count_of ev r = [?row]" using assms Some by (simp add: gap_count_of_def gap_row_of_def)
  have "gaps_added [?row] rg (ho_emit ?row h, s')" if "sg_pending_gaps s' = sg_pending_gaps s" for s'
    using that h by (simp add: gaps_added_def all_gaps_def gap_rows_def ho_emit_def)
  moreover have "gaps_added [?row] rg (h, s'\<lparr>sg_pending_gaps := sg_pending_gaps s @ [\<lparr>pg_row = ?row, pg_sid = sid, pg_waiting = ts\<rparr>]\<rparr>)" for s' sid ts
    using h by (simp add: gaps_added_def all_gaps_def pending_ok_def)
  ultimately show ?thesis unfolding row bake_gap_def Some option.case rg prod.case Let_def by simp
qed

lemma record_added: "gaps_added (gap_count_of ev r) rg (fst (bake_record ev r rg))"
proof (cases "sr_kind r = GAP")
  case True
  with gap_added [OF this] show ?thesis by (simp add: bake_record_def)
next
  case False
  then have "gap_count_of ev r = []" by (simp add: gap_count_of_def gap_row_of_def)
  with False show ?thesis
    by (cases "sr_kind r") (simp_all add: bake_record_def gaps_added_none frame_kept command_kept connection_kept audit_kept)
qed

lemma meet_kept: "gaps_kept rg (meet_record ev r rg)"
  by (rule gaps_kept_same) (simp_all add: meet_record_def begin_segment_def Let_def split: prod.split)

lemma feed_added: "gaps_added (gap_count_of ev r) rg (fst (feed ev r rg))"
proof -
  have "gaps_added (gap_count_of ev r) rg (fst (bake_record ev r (meet_record ev r rg)))"
    using gaps_added_trans [OF meet_kept [folded gaps_added_none] record_added] by simp
  from gaps_added_trans [OF this segment_kept [folded gaps_added_none]] show ?thesis
    by (simp add: feed_def case_prod_beta)
qed

lemma feed_all_added:
  "feed_all ev rs rg = (rg', False) \<Longrightarrow> gaps_added (concat (map (gap_count_of ev) rs)) rg rg'"
proof (induction rs arbitrary: rg)
  case (Cons r rs)
  obtain rg1 where f: "feed ev r rg = (rg1, False)" "feed_all ev rs rg1 = (rg', False)"
    using Cons.prems by (auto split: prod.splits if_splits)
  from gaps_added_trans [OF feed_added [of ev r rg, unfolded f(1) fst_conv] Cons.IH [OF f(2)]] show ?case by simp
qed (simp add: gaps_added_none)

lemma emit_pending:
  "pending_ok ps \<Longrightarrow> mset (map unresolved (gap_rows (fold (ho_emit \<circ> pg_row) ps h))) =
     mset (map unresolved (gap_rows h)) + mset (map pg_row ps)"
  "ho_gap_count (fold (ho_emit \<circ> pg_row) ps h) = ho_gap_count h"
  by (induction ps arbitrary: h) (auto simp: pending_ok_def gap_rows_def ho_emit_def)

lemma end_markets_kept: "gaps_kept rg (fold (\<lambda>(_, m) rg. in_hour (end_market m w) rg) ms rg)"
proof (induction ms arbitrary: rg)
  case (Cons x ms)
  have "gaps_kept rg (in_hour (end_market (snd x) w) rg)"
    by (rule gaps_kept_same) (simp_all add: end_market_def add_book_time_def)
  from gaps_kept_trans [OF this Cons] show ?case by (simp add: case_prod_beta)
qed simp

lemma finish_gaps:
  assumes "pending_ok (sg_pending_gaps (snd rg))"
  shows "mset (map unresolved (gap_rows (fst (finish_segment rg)))) = all_gaps rg"
    "ho_gap_count (fst (finish_segment rg)) = ho_gap_count (fst rg)"
proof -
  define rg1 where "rg1 = (case sg_last_wall_ns (snd rg) of
                  None \<Rightarrow> rg
                | Some t1 \<Rightarrow> close_span t1 False (fold (\<lambda>(_, m) rg. in_hour (end_market m t1) rg) (sg_markets (snd rg)) rg))"
  have k: "gaps_kept rg rg1"
    unfolding rg1_def by (cases "sg_last_wall_ns (snd rg)") (simp_all add: gaps_kept_trans [OF end_markets_kept close_span_kept])
  have "finish_segment rg = (fold (ho_emit \<circ> pg_row) (sg_pending_gaps (snd rg1)) (fst rg1), (snd rg1)\<lparr>sg_pending_gaps := []\<rparr>)"
    by (simp add: finish_segment_def rg1_def Let_def case_prod_beta)
  with k assms emit_pending [of "sg_pending_gaps (snd rg1)" "fst rg1"]
  show "mset (map unresolved (gap_rows (fst (finish_segment rg)))) = all_gaps rg"
    "ho_gap_count (fst (finish_segment rg)) = ho_gap_count (fst rg)"
    by (simp_all add: gaps_kept_def all_gaps_def)
qed

lemma read_segment_gaps:
  assumes "read_segment ev name conn_id yes rs corrupt h = Some (h', facts)"
  shows "mset (map unresolved (gap_rows h')) = mset (map unresolved (gap_rows h)) + mset (concat (map (gap_count_of ev) rs))"
    "ho_gap_count h' = ho_gap_count h + int (length (concat (map (gap_count_of ev) rs)))"
proof -
  define s0 where "s0 = new_segment name conn_id yes (dict_get_or (ho_lost_connection h) conn_id False)"
  obtain h1 s1 where f: "feed_all ev rs (h, s0) = ((h1, s1), False)"
    using assms by (auto simp: read_segment_def s0_def Let_def split: prod.splits bool.splits)
  define h2 where "h2 = (if corrupt then corrupt_segment name (sg_index s1) h1 else h1)"
  have h2: "gap_rows h2 = gap_rows h1" "ho_gap_count h2 = ho_gap_count h1"
    by (simp_all add: h2_def gap_rows_def corrupt_segment_def)
  have "\<exists>d. h' = (fst (finish_segment (h2, s1)))\<lparr>ho_lost_connection := d\<rparr>"
    using assms f by (auto simp: read_segment_def s0_def h2_def Let_def split: prod.splits if_splits)
  then have h': "gap_rows h' = gap_rows (fst (finish_segment (h2, s1)))" "ho_gap_count h' = ho_gap_count (fst (finish_segment (h2, s1)))"
    by (auto simp: gap_rows_def)
  have s0: "sg_pending_gaps s0 = []" by (simp add: s0_def new_segment_def)
  from feed_all_added [OF f] s0 have a: "pending_ok (sg_pending_gaps s1)"
      "all_gaps (h1, s1) = all_gaps (h, s0) + mset (concat (map (gap_count_of ev) rs))"
      "ho_gap_count h1 = ho_gap_count h + int (length (concat (map (gap_count_of ev) rs)))"
    by (simp_all add: gaps_added_def pending_ok_def)
  with finish_gaps [of "(h2, s1)"] h' h2 s0 show
    "mset (map unresolved (gap_rows h')) = mset (map unresolved (gap_rows h)) + mset (concat (map (gap_count_of ev) rs))"
    "ho_gap_count h' = ho_gap_count h + int (length (concat (map (gap_count_of ev) rs)))"
    by (simp_all add: all_gaps_def)
qed

section \<open>Book time\<close>

definition open_ns :: "int \<Rightarrow> market_time \<Rightarrow> int" where
  "open_ns now m = (case mt_stale_since_wall_ns m of None \<Rightarrow> now | Some t \<Rightarrow> t) - mt_since_wall_ns m"

definition market_ok :: "int \<Rightarrow> market_time \<Rightarrow> bool" where
  "market_ok now m \<longleftrightarrow> mt_since_wall_ns m \<le> now \<and>
     (case mt_stale_since_wall_ns m of None \<Rightarrow> True | Some t \<Rightarrow> mt_since_wall_ns m \<le> t \<and> t \<le> now)"

definition markets_ok :: "int \<Rightarrow> (string, market_time) dict \<Rightarrow> bool" where
  "markets_ok now ms \<longleftrightarrow> list_all (\<lambda>(_, m). market_ok now m) ms"

definition time_ok :: "int \<Rightarrow> reading \<Rightarrow> bool" where
  "time_ok now rg \<longleftrightarrow> dict_wf (sg_markets (snd rg)) \<and> markets_ok now (sg_markets (snd rg)) \<and>
     0 \<le> ho_stale_market_ns (fst rg) \<and>
     ho_stale_market_ns (fst rg) \<le> ho_observed_market_ns (fst rg) + sum_list (map (open_ns now \<circ> snd) (sg_markets (snd rg)))"

lemma time_ok_cong:
  assumes "sg_markets (snd rg') = sg_markets (snd rg)" "ho_stale_market_ns (fst rg') = ho_stale_market_ns (fst rg)"
    "ho_observed_market_ns (fst rg') = ho_observed_market_ns (fst rg)"
  shows "time_ok now rg' = time_ok now rg"
  by (simp only: time_ok_def assms)

lemma open_ns_later: "now \<le> w \<Longrightarrow> sum_list (map (open_ns now \<circ> snd) ms) \<le> sum_list (map (open_ns w \<circ> snd) ms)"
  by (rule sum_list_mono) (auto simp: open_ns_def split: option.split)

lemma time_ok_later:
  assumes "time_ok now rg" "now \<le> w"
  shows "time_ok w rg"
proof -
  have "market_ok w m" if "market_ok now m" for m
    using that assms(2) by (auto simp: market_ok_def split: option.splits)
  then have "markets_ok w (sg_markets (snd rg))"
    using assms by (auto simp: time_ok_def markets_ok_def list_all_iff)
  with assms open_ns_later [OF assms(2), of "sg_markets (snd rg)"] show ?thesis by (simp add: time_ok_def)
qed

lemma sum_put_snd:
  "sum_list (map (f \<circ> snd) (dict_put k v d)) =
     sum_list (map (f \<circ> snd) d) - (case dict_get d k of None \<Rightarrow> 0 | Some u \<Rightarrow> f u) + (f v :: int)"
  by (induction d) (auto split: option.splits)

lemma sum_pop_snd:
  "dict_wf d \<Longrightarrow> sum_list (map (f \<circ> snd) (dict_pop k d)) =
     sum_list (map (f \<circ> snd) d) - (case dict_get d k of None \<Rightarrow> 0 | Some u \<Rightarrow> (f u :: int))"
proof (induction d)
  case (Cons p d)
  show ?case
  proof (cases "fst p = k")
    case True
    with Cons.prems have "k \<notin> fst ` set d" by (auto simp: dict_wf_def)
    then have "dict_pop k d = d" by (rule delete_id)
    with True show ?thesis by (cases p) simp
  next
    case False
    with Cons show ?thesis by (cases p) (auto simp: dict_wf_def split: option.splits)
  qed
qed simp

lemma set_put_subset: "set (dict_put k v d) \<subseteq> insert (k, v) (set d)"
  by (induction d) (auto split: if_splits)

lemma set_pop_subset: "set (dict_pop k d) \<subseteq> set d"
  by (induction d) auto

lemma market_of: "time_ok now rg \<Longrightarrow> dict_get (sg_markets (snd rg)) t = Some m \<Longrightarrow> market_ok now m"
  by (auto simp: time_ok_def markets_ok_def list_all_iff dest: map_of_SomeD)

lemma markets_put: "markets_ok now ms \<Longrightarrow> market_ok now m \<Longrightarrow> markets_ok now (dict_put t m ms)"
  using set_put_subset [of t m ms] by (auto simp: markets_ok_def list_all_iff)

lemma markets_pop: "markets_ok now ms \<Longrightarrow> markets_ok now (dict_pop t ms)"
  using set_pop_subset [of t ms] by (auto simp: markets_ok_def list_all_iff)

lemma observe_time:
  assumes "time_ok w rg"
  shows "time_ok w (observe_market t sid w rg)"
proof (cases "dict_get (sg_markets (snd rg)) t")
  case None
  let ?m = "\<lparr>mt_sid = sid, mt_since_wall_ns = w, mt_stale_since_wall_ns = None\<rparr>"
  have "market_ok w ?m" "open_ns w ?m = 0" by (simp_all add: market_ok_def open_ns_def)
  with assms None show ?thesis
    by (cases rg) (simp add: observe_market_def time_ok_def sum_put_snd markets_put)
next
  case (Some m)
  then show ?thesis using assms by (cases rg) (simp add: observe_market_def)
qed

lemma leave_time:
  assumes "time_ok w rg"
  shows "time_ok w (leave_market w t rg)"
proof (cases "dict_get (sg_markets (snd rg)) t")
  case None
  then show ?thesis using assms by (cases rg) (simp add: leave_market_def)
next
  case (Some m)
  have m: "market_ok w m" by (rule market_of [OF assms Some])
  have wf: "dict_wf (sg_markets (snd rg))" using assms by (simp add: time_ok_def)
  have "leave_market w t rg = (end_market m w (fst rg), (snd rg)\<lparr>sg_markets := dict_pop t (sg_markets (snd rg))\<rparr>)"
    using Some by (cases rg) (simp add: leave_market_def)
  then show ?thesis using assms m Some markets_pop sum_pop_snd [OF wf, of "open_ns w" t] 
    by (auto simp: time_ok_def end_market_def add_book_time_def market_ok_def open_ns_def split: option.splits)
qed

lemma leaves_time: "time_ok w rg \<Longrightarrow> time_ok w (fold (leave_market w) ts rg)"
  by (induction ts arbitrary: rg) (simp_all add: leave_time del: split_paired_All)

lemma freshen_time:
  assumes "time_ok w rg"
  shows "time_ok w (freshen_market t w rg)"
proof (cases "dict_get (sg_markets (snd rg)) t")
  case None
  then show ?thesis using assms by (cases rg) (simp add: freshen_market_def)
next
  case (Some m)
  have m: "market_ok w m" by (rule market_of [OF assms Some])
  show ?thesis
  proof (cases "mt_stale_since_wall_ns m")
    case None
    then show ?thesis using assms Some by (cases rg) (simp add: freshen_market_def)
  next
    case stale: (Some t0)
    have ok: "market_ok w (m\<lparr>mt_stale_since_wall_ns := None\<rparr>)" using m by (simp add: market_ok_def)
    have "freshen_market t w rg = (add_book_time 0 (w - t0) (fst rg),
        (snd rg)\<lparr>sg_markets := dict_put t (m\<lparr>mt_stale_since_wall_ns := None\<rparr>) (sg_markets (snd rg))\<rparr>)"
      using Some stale by (cases rg) (simp add: freshen_market_def)
    then show ?thesis using assms m Some stale markets_put [OF _ ok]
      by (auto simp: time_ok_def add_book_time_def market_ok_def open_ns_def sum_put_snd split: option.splits)
  qed
qed

lemma stale_time:
  assumes "time_ok w rg"
  shows "time_ok w (fst rg, (snd rg)\<lparr>sg_markets := stale_markets sid w (sg_markets (snd rg))\<rparr>)"
proof -
  have keys: "dict_keys (stale_markets sid w ms) = dict_keys ms" for ms
    by (induction ms) (auto simp: stale_markets_def)
  have "sum_list (map (open_ns w \<circ> snd) (stale_markets sid w ms)) = sum_list (map (open_ns w \<circ> snd) ms)" for ms
    by (induction ms) (auto simp: stale_markets_def open_ns_def)
  moreover have "markets_ok w (stale_markets sid w ms)" if "markets_ok w ms" for ms
    using that by (induction ms) (auto simp: markets_ok_def stale_markets_def market_ok_def)
  ultimately show ?thesis using assms keys by (simp add: time_ok_def dict_wf_def)
qed

lemma in_hour_time:
  "ho_stale_market_ns (f (fst rg)) = ho_stale_market_ns (fst rg) \<Longrightarrow>
   ho_observed_market_ns (f (fst rg)) = ho_observed_market_ns (fst rg) \<Longrightarrow> time_ok w (in_hour f rg) = time_ok w rg"
  by (rule time_ok_cong) simp_all

lemma in_hour_times [simp]:
  "time_ok w (in_hour (ho_emit row) rg) = time_ok w rg" "time_ok w (in_hour (bake_count k) rg) = time_ok w rg"
  "time_ok w (in_hour (skip_count k) rg) = time_ok w rg" "time_ok w (in_hour (add_audit out m) rg) = time_ok w rg"
  "time_ok w (in_hour (add_sleep t0 t1) rg) = time_ok w rg" "time_ok w (in_hour (add_overflow n) rg) = time_ok w rg"
  "time_ok w (in_hour add_gap rg) = time_ok w rg" "time_ok w (in_hour (fold ho_emit rows) rg) = time_ok w rg"
  "time_ok w (seg_fail f rg) = time_ok w rg"
proof -
  have rows: "ho_stale_market_ns (fold ho_emit rows h) = ho_stale_market_ns h \<and> ho_observed_market_ns (fold ho_emit rows h) = ho_observed_market_ns h" for h
    by (induction rows arbitrary: h) (auto simp: ho_emit_def)
  show "time_ok w (in_hour (fold ho_emit rows) rg) = time_ok w rg" by (rule in_hour_time) (simp_all add: rows)
qed (unfold seg_fail_def, (rule in_hour_time; simp add: ho_emit_def bake_count_def skip_count_def add_audit_def add_sleep_def
      add_overflow_def add_gap_def ho_fail_def Let_def split: option.split)+)

lemma segment_time: "sg_markets s = sg_markets (snd rg) \<Longrightarrow> time_ok w (fst rg, s) = time_ok w rg"
  by (rule time_ok_cong) simp_all

lemma resolve_time: "time_ok w (resolve_gaps sid t w' rg) = time_ok w rg"
proof -
  have "ho_stale_market_ns (fst (fold (resolve_one sid t w') ps st)) = ho_stale_market_ns (fst st) \<and>
      ho_observed_market_ns (fst (fold (resolve_one sid t w') ps st)) = ho_observed_market_ns (fst st)" for ps st
    by (induction ps arbitrary: st) (auto simp: resolve_one_def ho_emit_def Let_def split: prod.splits)
  then show ?thesis by (intro time_ok_cong) (simp_all add: resolve_gaps_def case_prod_beta)
qed

lemma delta_time: "time_ok w rg \<Longrightarrow> rc_recv_wall_ns (bd_receipt d) = w \<Longrightarrow> time_ok w (bake_delta d rg)"
  by (simp add: bake_delta_def Let_def observe_time segment_time)

lemma snapshot_time:
  assumes "time_ok w rg" "rc_recv_wall_ns (bs_receipt b) = w"
  shows "time_ok w (bake_snapshot b rg)"
proof -
  obtain s reason where r: "snapshot_reason (bs_sid b) (bs_ticker b) (snd rg) = (s, reason)" by fastforce
  have "sg_markets s = sg_markets (snd rg)"
    using r by (auto simp: snapshot_reason_def Let_def split: if_splits)
  then have "time_ok w (fst rg, s\<lparr>sg_book_sids := insert (bs_sid b) (sg_book_sids s)\<rparr>)"
    using assms(1) by (simp add: segment_time)
  then show ?thesis using assms(2) by (simp add: bake_snapshot_def r Let_def resolve_time observe_time freshen_time)
qed

lemma converted_receipts:
  "to_book_delta dm env rc yes = Inr d \<Longrightarrow> bd_receipt d = rc"
  "to_book_snapshot sm env rc yes = Inr b \<Longrightarrow> bs_receipt b = rc"
  by (auto simp: to_book_delta_def to_book_snapshot_def result_bind_Inr split: option.splits)

lemma baking_time: "time_ok w rg \<Longrightarrow> (\<And>x. r = Inr x \<Longrightarrow> time_ok w (f x rg)) \<Longrightarrow> time_ok w (fst (baking r f rg))"
  by (simp add: baking_def split: sum.split)

lemma result_bind_InrD: "result_bind r f = Inr y \<Longrightarrow> \<exists>x. r = Inr x \<and> f x = Inr y"
  by (cases r) auto

lemma data_frame_time:
  assumes "time_ok w rg" "rc_recv_wall_ns rc = w"
  shows "time_ok w (fst (data_frame ev env rc rg))"
proof -
  have "time_ok w (fst (baking (result_bind a (\<lambda>msg. to_book_delta msg env rc yes)) bake_delta rg))" for a yes
    by (rule baking_time [OF assms(1)]) (use assms in \<open>auto dest!: result_bind_InrD converted_receipts(1) intro!: delta_time\<close>)
  moreover have "time_ok w (fst (baking (result_bind a (\<lambda>msg. to_book_snapshot msg env rc yes)) bake_snapshot rg))" for a yes
    by (rule baking_time [OF assms(1)]) (use assms in \<open>auto dest!: result_bind_InrD converted_receipts(2) intro!: snapshot_time\<close>)
  moreover have "time_ok w (fst (baking a bake_trade rg))" for a
    by (rule baking_time [OF assms(1)]) (simp add: bake_trade_def assms)
  moreover have "time_ok w (fst (baking a (\<lambda>(ts_s, l). bake_lifecycle ts_s l) rg))" for a
    by (rule baking_time [OF assms(1)]) (simp add: bake_lifecycle_def assms split: prod.split)
  moreover have "time_ok w (fst (bake_event_message ev env rc rg))"
    unfolding bake_event_message_def by (rule baking_time [OF assms(1)]) (simp add: assms)
  ultimately show ?thesis unfolding data_frame_def by (simp only: split: if_split) simp
qed

lemma frame_time:
  assumes "time_ok w rg" "sr_recv_wall_ns r = w"
  shows "time_ok w (fst (bake_frame ev r rg))"
proof (cases "bk_envelope ev (sr_payload r)")
  case (Some env)
  obtain rg1 err where d: "data_frame ev env (record_receipt r) rg = (rg1, err)" by fastforce
  have "rc_recv_wall_ns (record_receipt r) = w" using assms(2) by (simp add: record_receipt_def)
  then have "time_ok w rg1" using data_frame_time [OF assms(1), of "record_receipt r" ev env] d by simp
  moreover have "time_ok w (bake_reply ev env rg)"
    using assms(1) by (simp add: bake_reply_def segment_time split: sum.split)
  ultimately show ?thesis using assms(1)
    by (simp add: bake_frame_def Some d split: option.split convert_error.split)
qed (simp add: bake_frame_def assms)

lemma command_time:
  assumes "time_ok w rg" "sr_recv_wall_ns r = w"
  shows "time_ok w (bake_command ev r rg)"
proof (cases "bk_command ev (sr_payload r)")
  case (Some cmd)
  let ?rg = "in_hour (skip_count ''command'') rg"
  have "time_ok w ?rg" using assms by simp
  moreover have "time_ok w (fst ?rg, (snd ?rg)\<lparr>sg_requested := x\<rparr>)" for x
    by (rule segment_time [THEN iffD2]) (simp, rule calculation)
  moreover have "time_ok w (fold (leave_market w) ts ?rg)" for ts by (rule leaves_time) (rule \<open>time_ok w ?rg\<close>)
  ultimately show ?thesis unfolding bake_command_def Some option.case Let_def assms(2)
    by (cases "cy_params cmd") (simp_all only: option.case split: if_split, blast)
qed (simp add: bake_command_def assms)

lemma gap_time:
  assumes "time_ok w rg" "sr_recv_wall_ns r = w"
  shows "time_ok w (bake_gap ev r rg)"
proof (cases "bk_gap ev (sr_payload r)")
  case (Some g)
  obtain h s where rg: "in_hour add_gap (in_hour (bake_count ''gap'') rg) = (h, s)" by fastforce
  have ok: "time_ok w (h, s)" using assms(1) by (simp flip: rg)
  have emit: "time_ok w (ho_emit row h, s')" if "time_ok w (h, s')" for row s'
    using that in_hour_times(1) [of w row "(h, s')"] by (simp add: in_hour_def)
  have st: "time_ok w (h, s\<lparr>sg_markets := stale_markets sid w (sg_markets s)\<rparr>)" for sid
    using stale_time [OF ok, of sid] by simp
  have "time_ok w (h, s\<lparr>sg_markets := stale_markets sid w (sg_markets s), sg_pending_gaps := ps\<rparr>)" for sid ps
    using segment_time [of "s\<lparr>sg_markets := stale_markets sid w (sg_markets s), sg_pending_gaps := ps\<rparr>" "(h, s\<lparr>sg_markets := stale_markets sid w (sg_markets s)\<rparr>)" w] st
    by simp
  with ok st emit show ?thesis unfolding bake_gap_def Some option.case rg prod.case Let_def assms(2) by simp
qed (simp add: bake_gap_def assms)

lemma close_span_time: "time_ok w (close_span w' b rg) = time_ok w rg"
  by (rule time_ok_cong) (simp_all add: close_span_def add_span_def split: prod.split option.split)

lemma effect_time:
  assumes "time_ok w rg"
  shows "time_ok w (connection_effect w' c rg)"
proof -
  have "time_ok w (case close_span w' False rg of (h, s) \<Rightarrow> (h, s\<lparr>sg_span_start := Some w', sg_span_opened := True\<rparr>))"
    using assms segment_time [of "(snd (close_span w' False rg))\<lparr>sg_span_start := Some w', sg_span_opened := True\<rparr>" "close_span w' False rg" w]
    by (simp add: case_prod_beta close_span_time)
  moreover have "time_ok w (case (cy_wall_ns_delta c, cy_mono_ns_delta c) of
        (Some d, Some m) \<Rightarrow> if d > m then in_hour (add_sleep (w' - (d - m)) w') rg else rg
      | _ \<Rightarrow> rg)"
    using assms by (cases "cy_wall_ns_delta c"; cases "cy_mono_ns_delta c") simp_all
  moreover have "time_ok w (case cy_dropped c of Some n \<Rightarrow> in_hour (add_overflow n) rg | None \<Rightarrow> rg)"
    using assms by (cases "cy_dropped c") simp_all
  ultimately show ?thesis unfolding connection_effect_def using assms by (simp only: close_span_time split: if_split) simp
qed

lemma connection_time:
  assumes "time_ok w rg"
  shows "time_ok w (bake_connection ev r rg)"
proof (cases "bk_connection ev (sr_payload r)")
  case (Some c)
  let ?rg = "connection_effect (sr_recv_wall_ns r) c (in_hour (skip_count ''connection'') rg)"
  have "time_ok w ?rg" using assms by (simp add: effect_time)
  moreover have "time_ok w (fst ?rg, (snd ?rg)\<lparr>sg_last_event := x, sg_last_detail := y\<rparr>)" for x y
    by (rule segment_time [THEN iffD2]) (simp, rule calculation)
  ultimately show ?thesis unfolding bake_connection_def Some option.case Let_def by (simp only: split: if_split) blast
qed (simp add: bake_connection_def assms)

lemma audit_time: "time_ok w rg \<Longrightarrow> time_ok w (fst (bake_audit ev r rg))"
  by (simp add: bake_audit_def Let_def split: option.split)

lemma record_time: "time_ok w rg \<Longrightarrow> sr_recv_wall_ns r = w \<Longrightarrow> time_ok w (fst (bake_record ev r rg))"
  by (cases "sr_kind r") (simp_all add: bake_record_def frame_time command_time gap_time connection_time audit_time)

text \<open>
  The records whose times a market's clock runs on. An audit or a connection event leaves the
  markets alone, whatever its time, unless it is the last of its segment, whose time ends them.
\<close>

definition touches_books :: "seg_record \<Rightarrow> bool" where
  "touches_books r \<longleftrightarrow> sr_kind r \<in> {FRAME, COMMAND, GAP}"

definition in_book_order :: "seg_record list \<Rightarrow> bool" where
  "in_book_order rs \<longleftrightarrow> rs = [] \<or> sorted (map sr_recv_wall_ns (filter touches_books rs @ [last rs]))"

lemma feed_time:
  assumes "time_ok now rg"
  shows "now \<le> sr_recv_wall_ns r \<Longrightarrow> time_ok (sr_recv_wall_ns r) (fst (feed ev r rg))"
    "\<not> touches_books r \<Longrightarrow> time_ok now (fst (feed ev r rg))"
proof -
  have met: "time_ok w (meet_record ev r rg) = time_ok w rg" for w
    using time_ok_cong [of "meet_record ev r rg" rg w] by (simp add: meet_record_def begin_segment_def Let_def case_prod_beta)
  have fed: "time_ok w (fst (feed ev r rg)) = time_ok w (fst (bake_record ev r (meet_record ev r rg)))" for w
    using segment_time by (auto simp: feed_def case_prod_beta)
  show "time_ok (sr_recv_wall_ns r) (fst (feed ev r rg))" if "now \<le> sr_recv_wall_ns r"
    using record_time [of _ "meet_record ev r rg" r ev] time_ok_later [OF assms that] met fed by simp
  show "time_ok now (fst (feed ev r rg))" if "\<not> touches_books r"
    using that assms met fed
    by (cases "sr_kind r") (simp_all add: touches_books_def bake_record_def connection_time audit_time)
qed

text \<open>The wall time of the last record is set before a record is handled and left alone after.\<close>

named_theorems last_simps "the last wall time is kept"

lemma last_steps [last_simps]:
  "sg_last_wall_ns (snd (observe_market t sid w rg)) = sg_last_wall_ns (snd rg)"
  "sg_last_wall_ns (snd (leave_market w t rg)) = sg_last_wall_ns (snd rg)"
  "sg_last_wall_ns (snd (freshen_market t w rg)) = sg_last_wall_ns (snd rg)"
  "sg_last_wall_ns (snd (resolve_gaps sid t w rg)) = sg_last_wall_ns (snd rg)"
  "sg_last_wall_ns (snd (close_span w b rg)) = sg_last_wall_ns (snd rg)"
  "sg_last_wall_ns (snd (seg_fail f rg)) = sg_last_wall_ns (snd rg)"
  "sg_last_wall_ns (fst (snapshot_reason sid t s)) = sg_last_wall_ns s"
  by (simp_all add: observe_market_def leave_market_def freshen_market_def resolve_gaps_def close_span_def seg_fail_def
      snapshot_reason_def Let_def case_prod_beta split: option.split)

lemma last_leaves [last_simps]: "sg_last_wall_ns (snd (fold (leave_market w) ts rg)) = sg_last_wall_ns (snd rg)"
  by (induction ts arbitrary: rg) (simp_all add: last_simps del: split_paired_All)

lemma last_bakes [last_simps]:
  "sg_last_wall_ns (snd (bake_delta d rg)) = sg_last_wall_ns (snd rg)"
  "sg_last_wall_ns (snd (bake_snapshot b rg)) = sg_last_wall_ns (snd rg)"
  "sg_last_wall_ns (snd (bake_trade t rg)) = sg_last_wall_ns (snd rg)"
  "sg_last_wall_ns (snd (bake_lifecycle ts l rg)) = sg_last_wall_ns (snd rg)"
  "sg_last_wall_ns (snd (bake_reply ev env rg)) = sg_last_wall_ns (snd rg)"
  by (simp_all add: bake_delta_def bake_snapshot_def bake_trade_def bake_lifecycle_def bake_reply_def Let_def case_prod_beta last_simps
      split: sum.split)

lemma last_data_frame [last_simps]: "sg_last_wall_ns (snd (fst (data_frame ev env rc rg))) = sg_last_wall_ns (snd rg)"
  by (simp add: data_frame_def baking_def bake_event_message_def last_simps case_prod_beta split: sum.split)

lemma last_frame [last_simps]: "sg_last_wall_ns (snd (fst (bake_frame ev r rg))) = sg_last_wall_ns (snd rg)"
  using last_data_frame [of ev _ "record_receipt r" rg]
  by (simp add: bake_frame_def last_simps case_prod_beta split: option.split convert_error.split)

lemma last_command [last_simps]: "sg_last_wall_ns (snd (bake_command ev r rg)) = sg_last_wall_ns (snd rg)"
  by (simp add: bake_command_def last_simps Let_def split: option.split)

lemma last_gap [last_simps]: "sg_last_wall_ns (snd (bake_gap ev r rg)) = sg_last_wall_ns (snd rg)"
  by (simp add: bake_gap_def last_simps Let_def case_prod_beta split: option.split)

lemma last_connection [last_simps]: "sg_last_wall_ns (snd (bake_connection ev r rg)) = sg_last_wall_ns (snd rg)"
  by (simp add: bake_connection_def connection_effect_def last_simps Let_def case_prod_beta split: option.split)

lemma last_record: "sg_last_wall_ns (snd (fst (bake_record ev r rg))) = sg_last_wall_ns (snd rg)"
  by (cases "sr_kind r") (simp_all add: bake_record_def bake_audit_def last_simps Let_def split: option.split)

lemma last_feed: "sg_last_wall_ns (snd (fst (feed ev r rg))) = Some (sr_recv_wall_ns r)"
  using last_record [of ev r "meet_record ev r rg"]
  by (simp add: feed_def meet_record_def Let_def case_prod_beta)

lemma feed_all_time:
  assumes "feed_all ev rs rg = (rg', False)" "time_ok now rg" "sorted (now # map sr_recv_wall_ns (filter touches_books rs))"
  shows "time_ok (last (now # map sr_recv_wall_ns (filter touches_books rs))) rg' \<and>
    (rs \<noteq> [] \<longrightarrow> sg_last_wall_ns (snd rg') = Some (sr_recv_wall_ns (last rs)))"
  using assms
proof (induction rs arbitrary: rg now)
  case (Cons r rs)
  obtain rg1 where f: "feed ev r rg = (rg1, False)" "feed_all ev rs rg1 = (rg', False)"
    using Cons.prems(1) by (auto split: prod.splits if_splits)
  have last1: "sg_last_wall_ns (snd rg1) = Some (sr_recv_wall_ns r)" using f(1) last_feed [of ev r rg] by simp
  define now1 where "now1 = (if touches_books r then sr_recv_wall_ns r else now)"
  have "time_ok now1 rg1"
    using feed_time [OF Cons.prems(2), of r ev] Cons.prems(3) f(1) by (auto simp: now1_def)
  moreover have "sorted (now1 # map sr_recv_wall_ns (filter touches_books rs))"
    using Cons.prems(3) by (auto simp: now1_def)
  ultimately have "time_ok (last (now1 # map sr_recv_wall_ns (filter touches_books rs))) rg' \<and>
      (rs \<noteq> [] \<longrightarrow> sg_last_wall_ns (snd rg') = Some (sr_recv_wall_ns (last rs)))"
    by (rule Cons.IH [OF f(2)])
  with last1 f(2) show ?case by (cases "rs = []") (auto simp: now1_def)
qed auto

lemma end_market_time:
  "ho_observed_market_ns (end_market m w h) - ho_stale_market_ns (end_market m w h) =
     ho_observed_market_ns h - ho_stale_market_ns h + open_ns w m \<and>
   ho_stale_market_ns h \<le> ho_stale_market_ns (end_market m w h)" if "market_ok w m"
  using that by (auto simp: end_market_def add_book_time_def market_ok_def open_ns_def split: option.splits)

lemma end_markets_time:
  assumes "markets_ok w ms"
  shows "let h' = fst (fold (\<lambda>(_, m) rg. in_hour (end_market m w) rg) ms rg) in
    ho_observed_market_ns h' - ho_stale_market_ns h' =
      ho_observed_market_ns (fst rg) - ho_stale_market_ns (fst rg) + sum_list (map (open_ns w \<circ> snd) ms) \<and>
    ho_stale_market_ns (fst rg) \<le> ho_stale_market_ns h'"
  using assms
proof (induction ms arbitrary: rg)
  case (Cons x ms)
  have "market_ok w (snd x)" "markets_ok w ms" using Cons.prems by (auto simp: markets_ok_def case_prod_beta)
  with Cons.IH [of "in_hour (end_market (snd x) w) rg"] end_market_time [of w "snd x" "fst rg"] show ?case
    by (simp add: case_prod_beta Let_def)
qed simp

lemma read_segment_time:
  assumes "read_segment ev name conn_id yes rs corrupt h = Some (h', facts)" "in_book_order rs"
    "0 \<le> ho_stale_market_ns h" "ho_stale_market_ns h \<le> ho_observed_market_ns h"
  shows "0 \<le> ho_stale_market_ns h' \<and> ho_stale_market_ns h' \<le> ho_observed_market_ns h'"
proof -
  define s0 where "s0 = new_segment name conn_id yes (dict_get_or (ho_lost_connection h) conn_id False)"
  obtain h1 s1 where f: "feed_all ev rs (h, s0) = ((h1, s1), False)"
    using assms(1) by (auto simp: read_segment_def s0_def Let_def split: prod.splits bool.splits)
  define h2 where "h2 = (if corrupt then corrupt_segment name (sg_index s1) h1 else h1)"
  have h2: "ho_stale_market_ns h2 = ho_stale_market_ns h1" "ho_observed_market_ns h2 = ho_observed_market_ns h1"
    by (simp_all add: h2_def corrupt_segment_def)
  have "\<exists>d. h' = (fst (finish_segment (h2, s1)))\<lparr>ho_lost_connection := d\<rparr>"
    using assms(1) f by (auto simp: read_segment_def s0_def h2_def Let_def split: prod.splits if_splits)
  then have h': "ho_stale_market_ns h' = ho_stale_market_ns (fst (finish_segment (h2, s1)))"
      "ho_observed_market_ns h' = ho_observed_market_ns (fst (finish_segment (h2, s1)))" by auto
  have rows: "ho_stale_market_ns (fold (ho_emit \<circ> pg_row) ps h) = ho_stale_market_ns h \<and>
      ho_observed_market_ns (fold (ho_emit \<circ> pg_row) ps h) = ho_observed_market_ns h" for ps h
    by (induction ps arbitrary: h) (auto simp: ho_emit_def)
  have spans: "ho_stale_market_ns (fst (close_span w b rg)) = ho_stale_market_ns (fst rg)"
      "ho_observed_market_ns (fst (close_span w b rg)) = ho_observed_market_ns (fst rg)" for w b rg
    by (simp_all add: close_span_def add_span_def split: prod.split option.split)
  have s0: "sg_markets s0 = []" "sg_last_wall_ns s0 = None" by (simp_all add: s0_def new_segment_def)
  show ?thesis
  proof (cases rs)
    case Nil
    with f s0 h2 h' assms(3,4) show ?thesis by (auto simp: finish_segment_def case_prod_beta rows)
  next
    case (Cons r rs')
    define now where "now = Min (set (map sr_recv_wall_ns rs))"
    define times where "times = now # map sr_recv_wall_ns (filter touches_books rs)"
    define w where "w = sr_recv_wall_ns (last rs)"
    have least: "now \<le> sr_recv_wall_ns x" if "x \<in> set rs" for x unfolding now_def using that by (intro Min_le) auto
    have "rs \<noteq> []" using Cons by simp
    then have order: "sorted (map sr_recv_wall_ns (filter touches_books rs))"
        "\<forall>x\<in>set (filter touches_books rs). sr_recv_wall_ns x \<le> w"
      using assms(2) by (auto simp: in_book_order_def sorted_append w_def)
    have ordered: "sorted times" using order(1) least by (auto simp: times_def)
    have "last times \<in> set times" unfolding times_def by (rule last_in_set) simp
    moreover have "x \<le> w" if "x \<in> set times" for x
      using that order(2) least [of "last rs"] \<open>rs \<noteq> []\<close> by (auto simp: times_def w_def)
    ultimately have late: "last times \<le> w" by blast
    have "time_ok now (h, s0)" using assms(3,4) s0 by (simp add: time_ok_def markets_ok_def)
    from feed_all_time [OF f this] ordered \<open>rs \<noteq> []\<close> have "time_ok (last times) (h1, s1)" "sg_last_wall_ns s1 = Some w"
      by (simp_all add: times_def w_def)
    with time_ok_later [OF _ late] have w: "time_ok w (h1, s1)" "sg_last_wall_ns s1 = Some w" by blast+
    then have ms: "markets_ok w (sg_markets s1)" by (simp add: time_ok_def)
    note ends = end_markets_time [OF ms, of "(h2, s1)", unfolded Let_def]
    have "ho_stale_market_ns h' = ho_stale_market_ns (fst (fold (\<lambda>(_, m) rg. in_hour (end_market m w) rg) (sg_markets s1) (h2, s1)))"
        "ho_observed_market_ns h' = ho_observed_market_ns (fst (fold (\<lambda>(_, m) rg. in_hour (end_market m w) rg) (sg_markets s1) (h2, s1)))"
      using w(2) h' by (simp_all add: finish_segment_def case_prod_beta Let_def rows spans)
    with ends w(1) h2 show ?thesis by (simp add: time_ok_def)
  qed
qed

end
