(* ===== verification/Archive.thy ===== *)
theory Archive
  imports Interpreted Supervised
begin

text \<open>
  The recorder and the bake on the same frames: what the supervisor emits live is what the
  interpreter writes to the tables; and the properties of a whole hour.
\<close>

section \<open>What a supervisor emits for a frame\<close>

lemma request_emitted [simp]: "sv_emitted (fst (request_snapshot ev sid ts st)) = sv_emitted st"
proof -
  have "sv_emitted (fst (sv_bind (send_command ev cmd st) (\<lambda>_ st. (st, Inr ())))) = sv_emitted st" for cmd and st :: supervisor
    using send_command_keeps(2) [of ev cmd st] by (cases "send_command ev cmd st") (simp add: sv_bind_def split: sum.split)
  then show ?thesis by (simp add: request_snapshot_def Let_def split: option.split)
qed

lemma stale_emitted: "sv_emitted (fold stale_book ts st) = sv_emitted st"
  by (rule fold_keeps) (simp add: stale_book_def split: option.split prod.split)

lemma resync_emitted [simp]: "sv_emitted (fst (resync_connection ev sid ask st)) = sv_emitted st"
  by (simp add: resync_connection_def Let_def stale_emitted split: option.split)

lemma check_sequence_emitted:
  "\<exists>gaps. sv_emitted (fst (check_sequence ev env rc st)) = sv_emitted st @ gaps \<and> (\<forall>e\<in>set gaps. \<exists>g. e = EvGap g)"
  by (auto simp: check_sequence_def on_gap_def on_duplicate_def Let_def split: option.splits prod.splits gap_verdict.splits)

lemma snapshot_emitted:
  "\<exists>new. sv_emitted (apply_book_snapshot ev b st) = sv_emitted st @ new \<and> set new \<subseteq> {EvSnapshot b}"
  using apply_book_snapshot_live [of b st ev] by (cases "may_touch (bs_sid b) (bs_ticker b) st") auto

lemma delta_emitted:
  "\<exists>new. sv_emitted (fst (apply_book_delta ev d st)) = sv_emitted st @ new \<and> set new \<subseteq> {EvDelta d}"
  using apply_book_delta_live [of d st ev] by (cases "may_touch (bd_sid d) (bd_ticker d) st") auto

definition converted :: "convert_error + 'a \<Rightarrow> 'a option" where
  "converted r = (case r of Inl _ \<Rightarrow> None | Inr x \<Rightarrow> Some x)"

lemma converted_simps [simp]: "converted (Inl e) = None" "converted (Inr x) = Some x"
  by (simp_all add: converted_def)

text \<open>The event a data message converts to, as the supervisor and the baker both see it.\<close>

definition frame_event :: "sup_env \<Rightarrow> envelope \<Rightarrow> receipt \<Rightarrow> bool \<Rightarrow> bus_event option" where
  "frame_event ev env rc yes =
     (if en_type env = ''orderbook_delta'' then
        map_option EvDelta (converted (result_bind (decoded (ev_delta_msg ev) env) (\<lambda>msg. to_book_delta msg env rc yes)))
      else if en_type env = ''orderbook_snapshot'' then
        map_option EvSnapshot (converted (result_bind (decoded (ev_snapshot_msg ev) env) (\<lambda>msg. to_book_snapshot msg env rc yes)))
      else if en_type env = ''trade'' then
        map_option EvTrade (converted (result_bind (decoded (ev_trade_msg ev) env) (\<lambda>msg. to_trade msg env rc)))
      else if en_type env = ''market_lifecycle_v2'' then
        map_option EvLifecycle (converted (result_bind (decoded (ev_lifecycle_msg ev) env) (\<lambda>msg. to_lifecycle (ev_utf8 ev) msg env rc)))
      else None)"

lemma dispatch_emitted:
  assumes "en_type env \<in> set BAKED_FRAME_TYPES"
  shows "\<exists>new. sv_emitted (fst (dispatch ev env rc st)) = sv_emitted st @ new \<and>
    set new \<subseteq> set_option (frame_event ev env rc (cf_use_yes_price (sv_config st)))"
proof -
  consider "en_type env = ''orderbook_delta''" | "en_type env = ''orderbook_snapshot''" | "en_type env = ''trade''"
    | "en_type env = ''market_lifecycle_v2''" | "en_type env \<in> {''event_lifecycle'', ''event_fee_update''}"
    using assms by (auto simp: BAKED_FRAME_TYPES_def)
  then show ?thesis
  proof cases
    case 1
    show ?thesis
    proof (cases "result_bind (decoded (ev_delta_msg ev) env) (\<lambda>msg. to_book_delta msg env rc (cf_use_yes_price (sv_config st)))")
      case (Inr d)
      with 1 delta_emitted [of ev d st] show ?thesis
        by (auto simp: dispatch_def on_delta_def converting_def frame_event_def split: prod.splits)
    qed (use 1 in \<open>simp add: dispatch_def on_delta_def converting_def\<close>)
  next
    case 2
    show ?thesis
    proof (cases "result_bind (decoded (ev_snapshot_msg ev) env) (\<lambda>msg. to_book_snapshot msg env rc (cf_use_yes_price (sv_config st)))")
      case (Inr b)
      have "sv_emitted (finish_resync (bs_sid b) (bs_ticker b) st) = sv_emitted st"
        by (simp add: finish_resync_def split: option.split)
      with 2 Inr snapshot_emitted [of ev b "finish_resync (bs_sid b) (bs_ticker b) st"] show ?thesis
        by (simp add: dispatch_def on_snapshot_def converting_def frame_event_def)
    qed (use 2 in \<open>simp add: dispatch_def on_snapshot_def converting_def\<close>)
  next
    case 3
    then show ?thesis
      by (simp add: dispatch_def converting_def frame_event_def split: sum.split)
  next
    case 4
    then show ?thesis
      by (simp add: dispatch_def converting_def frame_event_def split: sum.split)
  next
    case 5
    then show ?thesis by (auto simp: dispatch_def frame_event_def)
  qed
qed

section \<open>The taped frame, baked\<close>

definition taped_frame :: "supervisor \<Rightarrow> raw_frame \<Rightarrow> seg_record" where
  "taped_frame st f = \<lparr>sr_kind = FRAME, sr_conn_id = cf_conn_id (sv_config st), sr_recv_mono_ns = rf_recv_mono_ns f,
     sr_recv_wall_ns = rf_recv_wall_ns f, sr_payload = rf_payload f\<rparr>"

definition same_decoders :: "sup_env \<Rightarrow> bake_env \<Rightarrow> bool" where
  "same_decoders ev bk \<longleftrightarrow> bk_envelope bk = ev_envelope ev \<and> bk_delta_msg bk = ev_delta_msg ev \<and>
     bk_snapshot_msg bk = ev_snapshot_msg ev \<and> bk_trade_msg bk = ev_trade_msg ev \<and>
     map_option market_lifecycle_msg.truncate \<circ> bk_lifecycle_msg bk = ev_lifecycle_msg ev \<and> bk_utf8 bk = ev_utf8 ev"

text \<open>
  What a reader of the tables gets back from a row, by the columns of \<^verbatim>\<open>tape/bake/tables.py\<close>. What
  a table has no column for (a trade's connection and monotonic time, a lifecycle's close time, a
  snapshot's exchange time) is given to the reader.
\<close>

definition side_of_int :: "int \<Rightarrow> side option" where
  "side_of_int i = (if i = 0 then Some BID else if i = 1 then Some ASK else None)"

fun delta_of_row :: "table_row \<Rightarrow> book_delta option" where
  "delta_of_row (DeltaRow ticker ts_ms recv_mono_ns recv_wall_ns conn_id sid seq side price_e4 delta_e2 own) =
     map_option (\<lambda>s. \<lparr>bd_ticker = ticker, bd_ts_ms = ts_ms,
       bd_receipt = \<lparr>rc_conn_id = conn_id, rc_recv_mono_ns = recv_mono_ns, rc_recv_wall_ns = recv_wall_ns\<rparr>,
       bd_sid = sid, bd_seq = seq, bd_side = s, bd_price = price_e4, bd_delta = delta_e2, bd_own_client_order_id = own\<rparr>) (side_of_int side)"
| "delta_of_row _ = None"

fun trade_of_row :: "int \<Rightarrow> int \<Rightarrow> table_row \<Rightarrow> trade option" where
  "trade_of_row conn_id recv_mono_ns (TradeRow ticker trade_id ts_ms recv_wall_ns sid seq price_e4 count_e2 taker_side is_block) =
     map_option (\<lambda>s. \<lparr>tr_ticker = ticker, tr_ts_ms = ts_ms,
       tr_receipt = \<lparr>rc_conn_id = conn_id, rc_recv_mono_ns = recv_mono_ns, rc_recv_wall_ns = recv_wall_ns\<rparr>,
       tr_sid = sid, tr_seq = seq, tr_trade_id = trade_id, tr_price = price_e4, tr_count = count_e2,
       tr_taker_side = s, tr_is_block = is_block\<rparr>) (side_of_int taker_side)"
| "trade_of_row _ _ _ = None"

fun lifecycle_of_row :: "int \<Rightarrow> int \<Rightarrow> int option \<Rightarrow> table_row \<Rightarrow> lifecycle option" where
  "lifecycle_of_row conn_id recv_mono_ns close_ts (LifecycleRow ticker msg_type event_type ts_s recv_wall_ns sid seq payload) =
     (if msg_type = ''market_lifecycle_v2'' then
        map_option (\<lambda>event. \<lparr>lc_ticker = ticker,
          lc_receipt = \<lparr>rc_conn_id = conn_id, rc_recv_mono_ns = recv_mono_ns, rc_recv_wall_ns = recv_wall_ns\<rparr>,
          lc_sid = sid, lc_seq = seq, lc_event_type = event, lc_payload_json = payload, lc_close_ts = close_ts\<rparr>) event_type
      else None)"
| "lifecycle_of_row _ _ _ _ = None"

fun row_levels :: "int \<Rightarrow> table_row \<Rightarrow> level list" where
  "row_levels s (SnapshotRow ticker recv_wall_ns recv_mono_ns conn_id sid seq side price_e4 count_e2 reason) =
     (if side = s then [Level price_e4 count_e2] else [])"
| "row_levels s _ = []"

fun row_image :: "int option \<Rightarrow> level list \<Rightarrow> level list \<Rightarrow> table_row \<Rightarrow> (book_snapshot \<times> int) option" where
  "row_image ts_ms bids asks (SnapshotRow ticker recv_wall_ns recv_mono_ns conn_id sid seq side price_e4 count_e2 reason) =
     Some (\<lparr>bs_ticker = ticker, bs_ts_ms = ts_ms,
       bs_receipt = \<lparr>rc_conn_id = conn_id, rc_recv_mono_ns = recv_mono_ns, rc_recv_wall_ns = recv_wall_ns\<rparr>,
       bs_sid = sid, bs_seq = seq, bs_bids = bids, bs_asks = asks\<rparr>, reason)"
| "row_image ts_ms bids asks _ = None"

text \<open>An image from its rows: each must give the same one, with the levels of all of them.\<close>

definition image_of_rows :: "int option \<Rightarrow> table_row list \<Rightarrow> book_snapshot option" where
  "image_of_rows ts_ms rows =
     (let image = row_image ts_ms (concat (map (row_levels 0) rows)) (concat (map (row_levels 1) rows))
      in case rows of
           [] \<Rightarrow> None
         | row # _ \<Rightarrow> if list_all (\<lambda>r. image r = image row) rows then map_option fst (image row) else None)"

text \<open>
  The rows that carry an event: read back they give it, one row for a delta, a trade or a lifecycle
  and one for each level of an image, or a single one for an empty book; after an image there may be
  the gap rows it resolves.
\<close>

definition rows_carry :: "bus_event \<Rightarrow> table_row list \<Rightarrow> bool" where
  "rows_carry e rows \<longleftrightarrow> (case e of
     EvDelta d \<Rightarrow> map delta_of_row rows = [Some d]
   | EvSnapshot b \<Rightarrow> \<exists>image gaps. rows = image @ gaps \<and> list_all is_gap_row gaps \<and>
       image_of_rows (bs_ts_ms b) image = Some b \<and> length image = max 1 (length (bs_bids b) + length (bs_asks b))
   | EvTrade t \<Rightarrow> map (trade_of_row (rc_conn_id (tr_receipt t)) (rc_recv_mono_ns (tr_receipt t))) rows = [Some t]
   | EvLifecycle l \<Rightarrow>
       map (lifecycle_of_row (rc_conn_id (lc_receipt l)) (rc_recv_mono_ns (lc_receipt l)) (lc_close_ts l)) rows = [Some l]
   | _ \<Rightarrow> False)"

lemma side_of_side_int [simp]: "side_of_int (side_int s) = Some s"
  by (cases s) (simp_all add: side_of_int_def)

lemma delta_read: "delta_of_row (delta_row d) = Some d"
  by (simp add: delta_row_def Let_def)

lemma trade_read: "trade_of_row (rc_conn_id (tr_receipt t)) (rc_recv_mono_ns (tr_receipt t)) (trade_row t) = Some t"
  by (simp add: trade_row_def)

lemma lifecycle_read:
  "lifecycle_of_row (rc_conn_id (lc_receipt l)) (rc_recv_mono_ns (lc_receipt l)) (lc_close_ts l) (lifecycle_row ts_s l) = Some l"
  by (simp add: lifecycle_row_def)

lemma levels_read:
  "concat (map (\<lambda>l. row_levels s (SnapshotRow t w m c sid seq side (lv_price l) (lv_count l) reason)) ls) = (if side = s then ls else [])"
  by (induction ls) auto

lemma image_read:
  "image_of_rows (bs_ts_ms b) (snapshot_rows b reason) = Some b \<and>
   length (snapshot_rows b reason) = max 1 (length (bs_bids b) + length (bs_asks b))"
proof (cases "bs_bids b = [] \<and> bs_asks b = []")
  case True
  then show ?thesis by (simp add: snapshot_rows_def Let_def image_of_rows_def EMPTY_BOOK_SIDE_def)
next
  case False
  define row where "row = SnapshotRow (bs_ticker b) (rc_recv_wall_ns (bs_receipt b)) (rc_recv_mono_ns (bs_receipt b)) (rc_conn_id (bs_receipt b)) (bs_sid b) (bs_seq b)"
  have rows: "snapshot_rows b reason = map (\<lambda>l. row 0 (lv_price l) (lv_count l) reason) (bs_bids b) @
      map (\<lambda>l. row 1 (lv_price l) (lv_count l) reason) (bs_asks b)"
    using False by (simp add: snapshot_rows_def Let_def row_def)
  have levels: "concat (map (row_levels 0) (snapshot_rows b reason)) = bs_bids b" "concat (map (row_levels 1) (snapshot_rows b reason)) = bs_asks b"
    by (simp_all add: rows row_def comp_def levels_read)
  have each: "row_image (bs_ts_ms b) (bs_bids b) (bs_asks b) r = Some (b, reason)" if "r \<in> set (snapshot_rows b reason)" for r
    using that by (auto simp: rows row_def)
  have len: "length (snapshot_rows b reason) = max 1 (length (bs_bids b) + length (bs_asks b))"
    using False by (cases "bs_bids b"; cases "bs_asks b") (simp_all add: rows)
  then obtain r rs where "snapshot_rows b reason = r # rs" by (cases "snapshot_rows b reason") auto
  then show ?thesis using levels each len by (simp add: image_of_rows_def Let_def list_all_iff)
qed

lemma emits_rows: "ho_rows (fold ho_emit rows h) = ho_rows h @ rows"
  by (induction rows arbitrary: h) (simp_all add: ho_emit_def)

lemma same_rows [simp]:
  "ho_rows (fst (observe_market t sid w rg)) = ho_rows (fst rg)" "ho_rows (fst (freshen_market t w rg)) = ho_rows (fst rg)"
  by (simp_all add: observe_market_def freshen_market_def add_book_time_def split: prod.split option.split)

lemma pending_observe [simp]:
  "sg_pending_gaps (snd (observe_market t sid w rg)) = sg_pending_gaps (snd rg)"
  "sg_pending_gaps (snd (freshen_market t w rg)) = sg_pending_gaps (snd rg)"
  "sg_pending_gaps (fst (snapshot_reason sid t s)) = sg_pending_gaps s"
  by (simp_all add: observe_market_def freshen_market_def snapshot_reason_def Let_def split: prod.split option.split)

lemma resolved_rows:
  "pending_ok ps \<Longrightarrow> \<exists>gaps. ho_rows (fst (fold (resolve_one sid t w) ps st)) = ho_rows (fst st) @ gaps \<and> list_all is_gap_row gaps"
proof (induction ps arbitrary: st)
  case (Cons p ps)
  have p: "is_gap_row (set_resolved w (pg_row p))" "pending_ok ps" using Cons.prems resolved_gap by (auto simp: pending_ok_def)
  have "\<exists>gaps. ho_rows (fst (resolve_one sid t w p st)) = ho_rows (fst st) @ gaps \<and> list_all is_gap_row gaps"
    using p(1) by (cases st) (auto simp: resolve_one_def ho_emit_def Let_def)
  with Cons.IH [OF p(2), of "resolve_one sid t w p st"] show ?case by fastforce
qed simp

lemma bake_snapshot_rows:
  assumes "pending_ok (sg_pending_gaps (snd rg))"
  shows "\<exists>reason gaps. ho_rows (fst (bake_snapshot b rg)) = ho_rows (fst rg) @ snapshot_rows b reason @ gaps \<and> list_all is_gap_row gaps"
proof -
  obtain s reason where r: "snapshot_reason (bs_sid b) (bs_ticker b) (snd rg) = (s, reason)" by fastforce
  let ?w = "rc_recv_wall_ns (bs_receipt b)"
  let ?rg = "in_hour (fold ho_emit (snapshot_rows b reason)) (freshen_market (bs_ticker b) ?w
      (observe_market (bs_ticker b) (bs_sid b) ?w (fst rg, s\<lparr>sg_book_sids := insert (bs_sid b) (sg_book_sids s)\<rparr>)))"
  have "sg_pending_gaps s = sg_pending_gaps (snd rg)" using pending_observe(3) [of "bs_sid b" "bs_ticker b" "snd rg"] r by simp
  then have "pending_ok (sg_pending_gaps (snd ?rg))" using assms by simp
  from resolved_rows [OF this, of "bs_sid b" "bs_ticker b" ?w "(fst ?rg, [])"] obtain gaps where
    "ho_rows (fst (resolve_gaps (bs_sid b) (bs_ticker b) ?w ?rg)) = ho_rows (fst ?rg) @ gaps" "list_all is_gap_row gaps"
    by (auto simp: resolve_gaps_def case_prod_beta)
  then show ?thesis by (auto simp: bake_snapshot_def r Let_def emits_rows)
qed

lemma data_frame_rows:
  assumes "same_decoders ev bk" "pending_ok (sg_pending_gaps (snd rg))"
    "frame_event ev env rc (sg_use_yes_price (snd rg)) = Some e"
  shows "\<exists>rg' rows. data_frame bk env rc rg = (rg', None) \<and> ho_rows (fst rg') = ho_rows (fst rg) @ rows \<and> rows_carry e rows"
proof -
  have dec: "decoded (ev_delta_msg ev) env = decoded (bk_delta_msg bk) env" "decoded (ev_snapshot_msg ev) env = decoded (bk_snapshot_msg bk) env"
      "decoded (ev_trade_msg ev) env = decoded (bk_trade_msg bk) env" "ev_utf8 ev = bk_utf8 bk"
      "decoded (ev_lifecycle_msg ev) env = (case decoded (bk_lifecycle_msg bk) env of Inl x \<Rightarrow> Inl x | Inr m \<Rightarrow> Inr (market_lifecycle_msg.truncate m))"
  proof -
    have "ev_lifecycle_msg ev (en_msg env) = map_option market_lifecycle_msg.truncate (bk_lifecycle_msg bk (en_msg env))"
    proof -
      have "map_option market_lifecycle_msg.truncate \<circ> bk_lifecycle_msg bk = ev_lifecycle_msg ev"
        using assms(1) by (simp add: same_decoders_def)
      from fun_cong [OF this, of "en_msg env"] show ?thesis by simp
    qed
    then show "decoded (ev_lifecycle_msg ev) env = (case decoded (bk_lifecycle_msg bk) env of Inl x \<Rightarrow> Inl x | Inr m \<Rightarrow> Inr (market_lifecycle_msg.truncate m))"
      by (simp add: decoded_def split: option.split)
  qed (use assms(1) in \<open>simp_all add: same_decoders_def\<close>)
  consider "en_type env = ''orderbook_delta''" | "en_type env = ''orderbook_snapshot''" | "en_type env = ''trade''"
    | "en_type env = ''market_lifecycle_v2''"
    using assms(3) by (auto simp: frame_event_def split: if_splits)
  then show ?thesis
  proof cases
    case 1
    then obtain d where "result_bind (decoded (bk_delta_msg bk) env) (\<lambda>msg. to_book_delta msg env rc (sg_use_yes_price (snd rg))) = Inr d" "e = EvDelta d"
      using assms(3) by (auto simp: frame_event_def dec converted_def split: sum.splits)
    with 1 show ?thesis
      by (simp add: data_frame_def baking_def bake_delta_def rows_carry_def ho_emit_def Let_def delta_read)
  next
    case 2
    then obtain b where "result_bind (decoded (bk_snapshot_msg bk) env) (\<lambda>msg. to_book_snapshot msg env rc (sg_use_yes_price (snd rg))) = Inr b" "e = EvSnapshot b"
      using assms(3) by (auto simp: frame_event_def dec converted_def split: sum.splits)
    moreover obtain reason gaps where "ho_rows (fst (bake_snapshot b rg)) = ho_rows (fst rg) @ snapshot_rows b reason @ gaps" "list_all is_gap_row gaps"
      using bake_snapshot_rows [OF assms(2), of b] by blast
    moreover have "rows_carry (EvSnapshot b) (snapshot_rows b reason @ gaps)" using calculation image_read by (auto simp: rows_carry_def)
    ultimately show ?thesis using 2
      by (auto simp: data_frame_def baking_def)
  next
    case 3
    then obtain t where "result_bind (decoded (bk_trade_msg bk) env) (\<lambda>msg. to_trade msg env rc) = Inr t" "e = EvTrade t"
      using assms(3) by (auto simp: frame_event_def dec converted_def split: sum.splits)
    with 3 show ?thesis
      by (simp add: data_frame_def baking_def bake_trade_def rows_carry_def ho_emit_def trade_read)
  next
    case 4
    then obtain m l where "decoded (bk_lifecycle_msg bk) env = Inr m" "to_lifecycle (bk_utf8 bk) (market_lifecycle_msg.truncate m) env rc = Inr l" "e = EvLifecycle l"
      using assms(3) by (auto simp: frame_event_def dec converted_def split: sum.splits dest!: result_bind_InrD)
    with 4 show ?thesis
      by (auto simp: data_frame_def baking_def bake_lifecycle_def rows_carry_def ho_emit_def lifecycle_read)
  qed
qed

section \<open>The properties\<close>

text \<open>
  C8. The archive holds what the live books received. If a supervisor emits a book, trade or
  lifecycle event for a frame, then baking the record it put on the tape for that frame, with the
  same decoders and price convention, fails nowhere and adds rows from which a reader of the table's
  columns gets back that very event, side, price, size, times, subscription and connection, as far
  as the table has a column for them: one row, or for a snapshot one for each level, followed only
  by gap rows the snapshot resolves.
\<close>

theorem archive_matches_live_events:
  assumes "same_decoders ev bk" "ev_envelope ev (rf_payload f) = Some env" "en_type env \<in> set BAKED_FRAME_TYPES"
    "on_frame ev f st = (st', r)" "e \<in> set (drop (length (sv_emitted st)) (sv_emitted st'))" "\<nexists>g. e = EvGap g"
    "sg_use_yes_price s = cf_use_yes_price (sv_config st)" "pending_ok (sg_pending_gaps s)"
  shows "\<exists>h' s' rows. bake_frame bk (taped_frame st f) (h, s) = ((h', s'), False) \<and>
    ho_rows h' = ho_rows h @ rows \<and> rows_carry e rows"
proof -
  define st1 where "st1 = put_record ev (rf_recv_mono_ns f) (rf_recv_wall_ns f) (PlFrame (rf_payload f)) (count_frame st)"
  let ?rc = "frame_receipt f st1"
  have st1: "sv_emitted st1 = sv_emitted st" "sv_config st1 = sv_config st"
    by (simp_all add: st1_def count_frame_def put_record_def Let_def split: option.split)
  obtain st2 r2 where c: "check_sequence ev env ?rc st1 = (st2, r2)" by fastforce
  have st2: "sv_config st2 = sv_config st" using ordering.check_sequence_R [of st1 ev env ?rc] c st1 by (simp add: orderly_def)
  obtain gaps where gaps: "sv_emitted st2 = sv_emitted st @ gaps" "\<forall>e\<in>set gaps. \<exists>g. e = EvGap g"
    using check_sequence_emitted [of ev env ?rc st1] c st1 by auto
  have run: "interpret_frame ev f st1 = (st', r)" using assms(4) by (simp add: on_frame_def st1_def)
  have "r2 = Inr ()" 
  proof (rule ccontr)
    assume "r2 \<noteq> Inr ()"
    then obtain x where "r2 = Inl x" by (cases r2) auto
    then have "st' = st2" using run assms(2) c by (simp add: interpret_frame_def sv_bind_def Let_def)
    with gaps assms(5,6) show False by auto
  qed
  then have "st' = fst (caught (dispatch ev env ?rc st2))" using run assms(2) c by (simp add: interpret_frame_def sv_bind_def Let_def)
  moreover have "sv_emitted (fst (caught x)) = sv_emitted (fst x)" for x :: "unit outcome"
    by (simp add: caught_def decode_failed_def split: prod.split sum.split sup_error.split convert_error.split)
  moreover obtain new where new: "sv_emitted (fst (dispatch ev env ?rc st2)) = sv_emitted st2 @ new"
      "set new \<subseteq> set_option (frame_event ev env ?rc (cf_use_yes_price (sv_config st2)))"
    using dispatch_emitted [OF assms(3)] by blast
  ultimately have "e \<in> set (gaps @ new)" using assms(5) gaps(1) by simp
  then have "frame_event ev env ?rc (cf_use_yes_price (sv_config st)) = Some e"
    using gaps(2) assms(6) new(2) st2 by auto
  moreover have "?rc = record_receipt (taped_frame st f)"
    by (simp add: frame_receipt_def record_receipt_def taped_frame_def st1(2))
  ultimately have "frame_event ev env (record_receipt (taped_frame st f)) (sg_use_yes_price (snd (h, s))) = Some e"
    using assms(7) by simp
  from data_frame_rows [OF assms(1) _ this] assms(8) obtain rg' rows where
    d: "data_frame bk env (record_receipt (taped_frame st f)) (h, s) = (rg', None)" "ho_rows (fst rg') = ho_rows h @ rows" "rows_carry e rows"
    by auto
  have "bk_envelope bk (sr_payload (taped_frame st f)) = Some env" using assms(1,2) by (simp add: same_decoders_def taped_frame_def)
  moreover have "en_type env \<notin> set NOT_BAKED_FRAME_TYPES" using assms(3) by (auto simp: BAKED_FRAME_TYPES_def NOT_BAKED_FRAME_TYPES_def)
  ultimately have "bake_frame bk (taped_frame st f) (h, s) = (in_hour (bake_count (en_type env)) rg', False)"
    using d(1) assms(3) by (simp add: bake_frame_def)
  then show ?thesis using d(2,3)
    by (cases "in_hour (bake_count (en_type env)) rg'") (auto simp: in_hour_def bake_count_def)
qed

text \<open>The segments of an hour, in order: name, connection, price convention, records, whether the reader raised.\<close>

type_synonym segment_input = "string \<times> int \<times> bool \<times> seg_record list \<times> bool"

fun read_segments :: "bake_env \<Rightarrow> segment_input list \<Rightarrow> hour_state \<Rightarrow> hour_state option" where
  "read_segments ev [] h = Some h"
| "read_segments ev ((name, conn_id, yes, rs, corrupt) # segs) h =
     (case read_segment ev name conn_id yes rs corrupt h of
        None \<Rightarrow> None | Some (h, facts) \<Rightarrow> read_segments ev segs h)"

definition segment_records :: "segment_input list \<Rightarrow> seg_record list" where
  "segment_records segs = concat (map (\<lambda>(_, _, _, rs, _). rs) segs)"

lemma read_segments_step:
  assumes "read_segments ev ((name, conn_id, yes, rs, corrupt) # segs) h = Some h'"
  obtains h1 facts where "read_segment ev name conn_id yes rs corrupt h = Some (h1, facts)" "read_segments ev segs h1 = Some h'"
  using assms by (auto split: option.splits)

lemma read_segments_counts:
  assumes "read_segments ev segs h = Some h'"
  shows "read_total h' = read_total h + int (length (segment_records segs)) \<and>
    accounted_total h' = accounted_total h + int (length (segment_records segs)) \<and> (hour_ok h \<longrightarrow> hour_ok h') \<and>
    mset (map unresolved (gap_rows h')) = mset (map unresolved (gap_rows h)) + mset (concat (map (gap_count_of ev) (segment_records segs))) \<and>
    ho_gap_count h' = ho_gap_count h + int (length (concat (map (gap_count_of ev) (segment_records segs))))"
  using assms
proof (induction segs arbitrary: h)
  case (Cons seg segs)
  obtain name conn_id yes rs corrupt where seg: "seg = (name, conn_id, yes, rs, corrupt)" by (cases seg) auto
  from Cons.prems[unfolded seg] obtain h1 facts where one: "read_segment ev name conn_id yes rs corrupt h = Some (h1, facts)"
    and rest: "read_segments ev segs h1 = Some h'" by (rule read_segments_step)
  show ?case using Cons.IH [OF rest] read_segment_counts [OF one] read_segment_gaps [OF one]
    by (simp add: seg segment_records_def)
qed (simp add: segment_records_def)

lemma read_segments_time:
  assumes "read_segments ev segs h = Some h'" "list_all (\<lambda>(_, _, _, rs, _). in_book_order rs) segs"
    "0 \<le> ho_stale_market_ns h" "ho_stale_market_ns h \<le> ho_observed_market_ns h"
  shows "0 \<le> ho_stale_market_ns h' \<and> ho_stale_market_ns h' \<le> ho_observed_market_ns h'"
  using assms
proof (induction segs arbitrary: h)
  case (Cons seg segs)
  obtain name conn_id yes rs corrupt where seg: "seg = (name, conn_id, yes, rs, corrupt)" by (cases seg) auto
  from Cons.prems(1)[unfolded seg] obtain h1 facts where one: "read_segment ev name conn_id yes rs corrupt h = Some (h1, facts)"
    and rest: "read_segments ev segs h1 = Some h'" by (rule read_segments_step)
  have "in_book_order rs" using Cons.prems(2) by (simp add: seg)
  from read_segment_time [OF one this Cons.prems(3,4)] Cons.IH [OF rest] Cons.prems(2) show ?case by simp
qed simp

lemma counts_total_sorted: "counts_total (sorted_counts d) = counts_total d"
  by (metis counts_total_def mset_map mset_sort sorted_counts_def sum_mset_sum_list)

lemma new_hour_ok: "hour_ok (new_hour t)" "read_total (new_hour t) = 0" "accounted_total (new_hour t) = 0"
  by (simp_all add: hour_ok_def new_hour_def read_total_def accounted_total_def counts_total_def)

text \<open>
  C9. Every record of an hour is accounted for exactly once. Whatever segments an hour has and
  whatever their records hold, if interpreting them ends, the counts by outcome sum to the records
  read, which are all the records there are; and the structs of the manifest that the result is put
  in accept it: the accounting balances over known kinds only, no span and no sleep ends before it
  starts.
\<close>

theorem hour_accounts_for_every_record:
  assumes "read_segments ev segs (new_hour t) = Some h"
  shows "accounting_error (hr_accounting (finish_hour h)) = None \<and>
    counts_total (ra_records (hr_accounting (finish_hour h))) = int (length (segment_records segs)) \<and>
    list_all span_ok (hi_spans (hr_integrity (finish_hour h))) \<and>
    list_all sleep_ok (hi_sleeps (hr_integrity (finish_hour h)))"
proof -
  note run = read_segments_counts [OF assms]
  have ok: "hour_ok h" using run new_hour_ok(1) by blast
  have "set (dict_keys (sorted_counts (ho_records h))) \<subseteq> set RECORD_KINDS"
    using ok by (simp add: hour_ok_def sorted_counts_def)
  moreover have "counts_total (ho_records h) = accounted_total h" "counts_total (ho_records h) = int (length (segment_records segs))"
    using run new_hour_ok [of t] by (simp_all add: read_total_def)
  moreover have "list_all sleep_ok (sorted_list_of_set (ho_sleeps h))"
    using ok by (simp add: hour_ok_def list_all_iff)
  ultimately show ?thesis using ok
    by (simp add: finish_hour_def accounting_error_def Let_def counts_total_sorted accounted_total_def hour_ok_def)
qed

text \<open>
  C16. Every gap on the tape becomes exactly one row of the gaps table, whether its books were
  imaged again or not: apart from the time a row was resolved, the gap rows of an hour are the gap
  records that decode, each as often as it was recorded, and the hour's count of gaps is their
  number.
\<close>

theorem gap_rows_are_the_gap_records:
  assumes "read_segments ev segs (new_hour t) = Some h"
  shows "mset (map unresolved (filter is_gap_row (ho_rows h))) = mset (concat (map (gap_count_of ev) (segment_records segs))) \<and>
    gf_count (hi_gaps (hr_integrity (finish_hour h))) = int (length (filter is_gap_row (ho_rows h)))"
proof -
  note run = read_segments_counts [OF assms]
  then have "mset (map unresolved (gap_rows h)) = mset (concat (map (gap_count_of ev) (segment_records segs)))"
    by (simp add: gap_rows_def new_hour_def)
  moreover from this have "length (gap_rows h) = length (concat (map (gap_count_of ev) (segment_records segs)))"
    by (metis length_map size_mset)
  ultimately show ?thesis using run by (simp add: gap_rows_def finish_hour_def new_hour_def)
qed

text \<open>
  C17. Where the frames, commands and gaps of each segment stand in the file in the order of their
  wall times, and its last record, of any kind, is not earlier than any of them, the market time an
  hour reports as stale is not negative and not more than the market time it reports as observed:
  the share of stale time the manifest publishes is a ratio between none and all. The condition is
  on the file. A wall clock that never steps back does not give it, because an audit and a command
  are stamped before a wait and put on the tape after it.
\<close>

theorem stale_time_is_observed_time:
  assumes "read_segments ev segs (new_hour t) = Some h" "list_all (\<lambda>(_, _, _, rs, _). in_book_order rs) segs"
  shows "0 \<le> gf_stale_market_ns (hi_gaps (hr_integrity (finish_hour h))) \<and>
    gf_stale_market_ns (hi_gaps (hr_integrity (finish_hour h))) \<le> gf_observed_market_ns (hi_gaps (hr_integrity (finish_hour h)))"
  using read_segments_time [OF assms] by (simp add: finish_hour_def new_hour_def)

section \<open>An example hour\<close>

definition example_bake :: bake_env where
  "example_bake = \<lparr>bk_envelope = ev_envelope example_env, bk_delta_msg = ev_delta_msg example_env,
     bk_snapshot_msg = ev_snapshot_msg example_env, bk_trade_msg = ev_trade_msg example_env,
     bk_lifecycle_msg = (\<lambda>_. None), bk_event_ticker = (\<lambda>_. None), bk_fee_event_ticker = (\<lambda>_. None),
     bk_subscribed_msg = ev_subscribed_msg example_env,
     bk_gap = (\<lambda>_. Some \<lparr>gy_sid = 7, gy_expected_seq = 2, gy_got_seq = 4\<rparr>), bk_audit = (\<lambda>_. None),
     bk_connection = (\<lambda>_. Some \<lparr>cy_event = ''open'', cy_detail = None, cy_dropped = None, cy_wall_ns_delta = None, cy_mono_ns_delta = None\<rparr>),
     bk_command = (\<lambda>_. None), bk_utf8 = Some\<rparr>"

definition tape_at :: "record_kind \<Rightarrow> int \<Rightarrow> string \<Rightarrow> seg_record" where
  "tape_at k w p = \<lparr>sr_kind = k, sr_conn_id = 0, sr_recv_mono_ns = w, sr_recv_wall_ns = w, sr_payload = p\<rparr>"

text \<open>A connection opens, a book is imaged, a gap stales it, and an image at time \<open>w\<close> freshens it.\<close>

definition example_tape :: "int \<Rightarrow> segment_input list" where
  "example_tape w = [(''n'', 0, True,
     [tape_at CONNECTION 1 ''o'', tape_at FRAME 100 ''b'', tape_at GAP 200 ''g'', tape_at FRAME w ''b''], False)]"

definition hour_shape :: "int \<Rightarrow> bool" where
  "hour_shape w = (case read_segments example_bake (example_tape w) (new_hour 0) of None \<Rightarrow> False
     | Some h \<Rightarrow> ho_stale_market_ns h = w - 200 \<and> ho_observed_market_ns h = max 0 (w - 100) \<and>
         ho_baked h = [(''orderbook_snapshot'', 2), (''gap'', 1)] \<and> ho_not_baked h = [(''connection'', 1)] \<and>
         ho_decode_failures h = [] \<and> List.member (ho_rows h) (GapRow 0 7 200 200 2 4 (Some w)))"

lemma hour_shapes: "hour_shape 300" "hour_shape 150"
  by code_simp+

lemma example_hour:
  assumes "hour_shape w"
  shows "\<exists>h. read_segments example_bake (example_tape w) (new_hour 0) = Some h \<and> ho_stale_market_ns h = w - 200"
  using assms by (auto simp: hour_shape_def split: option.splits)

theorem hour_accounts_for_every_record_witness:
  "\<exists>h. read_segments example_bake (example_tape 300) (new_hour 0) = Some h \<and>
     counts_total (ra_records (hr_accounting (finish_hour h))) = 4 \<and> accounting_error (hr_accounting (finish_hour h)) = None"
proof -
  obtain h where h: "read_segments example_bake (example_tape 300) (new_hour 0) = Some h" using example_hour [OF hour_shapes(1)] by blast
  have "length (segment_records (example_tape 300)) = 4" by (simp add: segment_records_def example_tape_def)
  with hour_accounts_for_every_record [OF h] h show ?thesis by simp
qed

theorem gap_rows_are_the_gap_records_witness:
  "\<exists>h. read_segments example_bake (example_tape 300) (new_hour 0) = Some h \<and> length (filter is_gap_row (ho_rows h)) = 1"
proof -
  obtain h where h: "read_segments example_bake (example_tape 300) (new_hour 0) = Some h" using example_hour [OF hour_shapes(1)] by blast
  have "length (concat (map (gap_count_of example_bake) (segment_records (example_tape 300)))) = 1"
    by (simp add: segment_records_def example_tape_def gap_count_of_def gap_row_of_def tape_at_def example_bake_def)
  with gap_rows_are_the_gap_records [OF h] h show ?thesis by (metis length_map size_mset)
qed

theorem stale_time_is_observed_time_witness:
  "\<exists>h. read_segments example_bake (example_tape 300) (new_hour 0) = Some h \<and>
     gf_stale_market_ns (hi_gaps (hr_integrity (finish_hour h))) = 100 \<and>
     gf_stale_market_ns (hi_gaps (hr_integrity (finish_hour h))) \<le> gf_observed_market_ns (hi_gaps (hr_integrity (finish_hour h)))"
proof -
  obtain h where h: "read_segments example_bake (example_tape 300) (new_hour 0) = Some h" "ho_stale_market_ns h = 100"
    using example_hour [OF hour_shapes(1)] by auto
  have "list_all (\<lambda>(_, _, _, rs, _). in_book_order rs) (example_tape 300)"
    by (simp add: example_tape_def tape_at_def in_book_order_def touches_books_def)
  from stale_time_is_observed_time [OF h(1) this] h show ?thesis by (simp add: finish_hour_def)
qed

text \<open>
  Two tapes out of that order. Where the wall clock steps back between a gap and the image that ends
  it, the stale time counted is negative. The manifest declares it non-negative, which msgspec checks
  when it decodes, not when the struct is built: the day's manifest is written, and can then not be
  read. And with a clock that never steps back, an audit that ends a segment, stamped at its reply
  and put after the frames that came in the meantime, ends the observed time before the stale time
  the file already counted.
\<close>

lemma clock_step_makes_stale_time_negative:
  "\<exists>h. read_segments example_bake (example_tape 150) (new_hour 0) = Some h \<and>
     gf_stale_market_ns (hi_gaps (hr_integrity (finish_hour h))) = - 50"
  using example_hour [OF hour_shapes(2)] by (auto simp: finish_hour_def)

definition late_audit_tape :: "segment_input list" where
  "late_audit_tape = [(''n'', 0, True,
     [tape_at CONNECTION 1 ''o'', tape_at FRAME 100 ''b'', tape_at GAP 200 ''g'', tape_at FRAME 300 ''b'',
      tape_at AUDIT 150 ''a''], False)]"

lemma late_audit_makes_stale_exceed_observed:
  "\<exists>h. read_segments example_bake late_audit_tape (new_hour 0) = Some h \<and>
     gf_stale_market_ns (hi_gaps (hr_integrity (finish_hour h))) = 100 \<and>
     gf_observed_market_ns (hi_gaps (hr_integrity (finish_hour h))) = 50"
proof -
  have "case read_segments example_bake late_audit_tape (new_hour 0) of None \<Rightarrow> False
      | Some h \<Rightarrow> ho_stale_market_ns h = 100 \<and> ho_observed_market_ns h = 50"
    by code_simp
  then show ?thesis by (auto simp: finish_hour_def split: option.splits)
qed

theorem archive_matches_live_events_witness:
  "\<exists>b h' s' rows. sv_emitted example_imaged = [EvSnapshot b] \<and>
     bake_frame example_bake (taped_frame example_answered (received_frame ''b'')) (new_hour 0, new_segment ''n'' 0 True False) = ((h', s'), False) \<and>
     ho_rows h' = rows \<and> rows_carry (EvSnapshot b) rows"
proof -
  obtain b where b: "sv_emitted example_imaged = [EvSnapshot b]" using example_imaged(13) by blast
  obtain r where run: "on_frame example_env (received_frame ''b'') example_answered = (example_imaged, r)"
    unfolding example_imaged_def by (metis prod.collapse)
  have same: "same_decoders example_env example_bake"
    by (simp add: same_decoders_def example_bake_def example_env_def fun_eq_iff)
  have env: "ev_envelope example_env (rf_payload (received_frame ''b'')) = Some example_image_frame"
    by (simp add: example_env_def received_frame_def)
  have type: "en_type example_image_frame \<in> set BAKED_FRAME_TYPES" by (simp add: example_image_frame_def BAKED_FRAME_TYPES_def)
  have "sv_emitted example_answered = []" by (simp add: example_answered example_base_def)
  then have e: "EvSnapshot b \<in> set (drop (length (sv_emitted example_answered)) (sv_emitted example_imaged))" using b by simp
  have yes: "sg_use_yes_price (new_segment ''n'' 0 True False) = cf_use_yes_price (sv_config example_answered)"
    by (simp add: new_segment_def example_answered example_base_def example_config_def)
  have pend: "pending_ok (sg_pending_gaps (new_segment ''n'' 0 True False))" by (simp add: new_segment_def pending_ok_def)
  from archive_matches_live_events [OF same env type run e _ yes pend, of "new_hour 0"] b show ?thesis
    by (auto simp: new_hour_def)
qed

end
