(* ===== verification/Layout.thy ===== *)
theory Layout
  imports Timeutil Fixedpoint
begin

text \<open>
  \<^verbatim>\<open>tape/bake/layout.py\<close>: the hours of the archive and the names of its files. A date is Python's
  \<^verbatim>\<open>datetime.date\<close> as year, month and day, with the day numbers of the proleptic Gregorian
  calendar; \<^verbatim>\<open>fromtimestamp\<close> is the inverse of the day number. A path is its name relative to the
  root it belongs to. Digits are those of ASCII.
\<close>

section \<open>Dates\<close>

type_synonym date = "nat \<times> nat \<times> nat"

definition is_leap :: "nat \<Rightarrow> bool" where
  "is_leap y \<longleftrightarrow> 4 dvd y \<and> (\<not> 100 dvd y \<or> 400 dvd y)"

definition days_before_year :: "nat \<Rightarrow> nat" where
  "days_before_year y = (let y = y - 1 in y * 365 + y div 4 - y div 100 + y div 400)"

definition month_days :: "nat list" where
  "month_days = [31, 28, 31, 30, 31, 30, 31, 31, 30, 31, 30, 31]"

definition days_in_month :: "bool \<Rightarrow> nat \<Rightarrow> nat" where
  "days_in_month leap m = (if m = 2 \<and> leap then 29 else month_days ! (m - 1))"

definition days_before_month :: "bool \<Rightarrow> nat \<Rightarrow> nat" where
  "days_before_month leap m = sum_list (take (m - 1) month_days) + (if 2 < m \<and> leap then 1 else 0)"

definition valid_date :: "date \<Rightarrow> bool" where
  "valid_date dt = (case dt of (y, m, d) \<Rightarrow>
     1 \<le> y \<and> y \<le> 9999 \<and> 1 \<le> m \<and> m \<le> 12 \<and> 1 \<le> d \<and> d \<le> days_in_month (is_leap y) m)"

definition toordinal :: "date \<Rightarrow> nat" where
  "toordinal dt = (case dt of (y, m, d) \<Rightarrow> days_before_year y + days_before_month (is_leap y) m + d)"

text \<open>The month and day of the day \<open>n\<close> of a year, from zero.\<close>

definition month_of_day :: "bool \<Rightarrow> nat \<Rightarrow> nat \<times> nat" where
  "month_of_day leap n =
     (let m = (n + 50) div 32;
          m = (if n < days_before_month leap m then m - 1 else m)
      in (m, n - days_before_month leap m + 1))"

definition fromordinal :: "nat \<Rightarrow> date" where
  "fromordinal ord =
     (let n = ord - 1;
          n400 = n div 146097; n = n mod 146097;
          n100 = n div 36524; n = n mod 36524;
          n4 = n div 1461; n = n mod 1461;
          n1 = n div 365; n = n mod 365;
          year = n400 * 400 + 1 + n100 * 100 + n4 * 4 + n1
      in if n1 = 4 \<or> n100 = 4 then (year - 1, 12, 31)
         else (case month_of_day (n1 = 3 \<and> (n4 \<noteq> 24 \<or> n100 = 3)) n of (m, d) \<Rightarrow> (year, m, d)))"

definition EPOCH :: date where "EPOCH = (1970, 1, 1)"

definition date_isoformat :: "date \<Rightarrow> string" where
  "date_isoformat dt = (case dt of (y, m, d) \<Rightarrow>
     zero_pad 4 (show_nat y) @ ''-'' @ zero_pad 2 (show_nat m) @ ''-'' @ zero_pad 2 (show_nat d))"

definition digits_value :: "string \<Rightarrow> nat" where
  "digits_value s = digits_to_nat (map (\<lambda>c. the (digit_val c)) s)"

text \<open>The pattern \<^verbatim>\<open>\d{4}-\d{2}-\d{2}\<close>, and \<^verbatim>\<open>date.fromisoformat\<close> on what it matches.\<close>

definition is_date_text :: "string \<Rightarrow> bool" where
  "is_date_text s \<longleftrightarrow> length s = 10 \<and> s ! 4 = CHR ''-'' \<and> s ! 7 = CHR ''-'' \<and>
     list_all is_digit (take 4 s) \<and> list_all is_digit (take 2 (drop 5 s)) \<and> list_all is_digit (drop 8 s)"

definition fromisoformat :: "string \<Rightarrow> date option" where
  "fromisoformat s =
     (let dt = (digits_value (take 4 s), digits_value (take 2 (drop 5 s)), digits_value (drop 8 s))
      in if is_date_text s \<and> valid_date dt then Some dt else None)"

section \<open>Hours\<close>

definition SEGMENT_SUFFIX :: string where "SEGMENT_SUFFIX = ''.tape.zst''"
definition HOURS_PER_DAY :: int where "HOURS_PER_DAY = 24"
definition NS_PER_HOUR :: int where "NS_PER_HOUR = 3600 * NS_PER_S"

datatype hour_key = HourKey (hk_date: date) (hk_hour: int)

instantiation hour_key :: linorder
begin

definition less_eq_hour_key :: "hour_key \<Rightarrow> hour_key \<Rightarrow> bool" where
  "a \<le> b \<longleftrightarrow> (hk_date a, hk_hour a) \<le> (hk_date b, hk_hour b)"

definition less_hour_key :: "hour_key \<Rightarrow> hour_key \<Rightarrow> bool" where
  "a < b \<longleftrightarrow> (hk_date a, hk_hour a) < (hk_date b, hk_hour b)"

instance
proof
  fix a b c :: hour_key
  show "a < b \<longleftrightarrow> a \<le> b \<and> \<not> b \<le> a" unfolding less_eq_hour_key_def less_hour_key_def by (rule less_le_not_le)
  show "a \<le> a" unfolding less_eq_hour_key_def by (rule order_refl)
  show "a \<le> b \<Longrightarrow> b \<le> c \<Longrightarrow> a \<le> c" unfolding less_eq_hour_key_def by (rule order_trans)
  show "a \<le> b \<Longrightarrow> b \<le> a \<Longrightarrow> a = b" unfolding less_eq_hour_key_def by (cases a; cases b) auto
  show "a \<le> b \<or> b \<le> a" unfolding less_eq_hour_key_def by (rule linear)
qed

end

datatype layout_error = HourOutOfRange int | NotAnHour string | NegativeGrace int | DateOutOfRange int

definition new_hour_key :: "date \<Rightarrow> int \<Rightarrow> layout_error + hour_key" where
  "new_hour_key dt h = (if 0 \<le> h \<and> h < HOURS_PER_DAY then Inr (HourKey dt h) else Inl (HourOutOfRange h))"

definition hour_ok_key :: "hour_key \<Rightarrow> bool" where
  "hour_ok_key k \<longleftrightarrow> valid_date (hk_date k) \<and> 0 \<le> hk_hour k \<and> hk_hour k < HOURS_PER_DAY"

text \<open>The date and hour \<^verbatim>\<open>wall_ns_to_datetime\<close> gives, which raises outside the years 1 to 9999.\<close>

definition MAX_ORDINAL :: int where "MAX_ORDINAL = 3652059"

definition of_wall_ns :: "int \<Rightarrow> layout_error + hour_key" where
  "of_wall_ns wall_ns =
     (let seconds = wall_ns div NS_PER_S; day = int (toordinal EPOCH) + seconds div 86400
      in if day < 1 \<or> MAX_ORDINAL < day then Inl (DateOutOfRange wall_ns)
         else new_hour_key (fromordinal (nat day)) (seconds mod 86400 div 3600))"

definition parse_hour :: "string \<Rightarrow> layout_error + hour_key" where
  "parse_hour t =
     (if length t = 13 \<and> is_date_text (take 10 t) \<and> t ! 10 = CHR ''T'' \<and> list_all is_digit (drop 11 t) then
        case fromisoformat (take 10 t) of
          None \<Rightarrow> Inl (NotAnHour t)
        | Some dt \<Rightarrow> new_hour_key dt (int (digits_value (drop 11 t)))
      else Inl (NotAnHour t))"

definition hour_text :: "hour_key \<Rightarrow> string" where
  "hour_text k = zero_pad 2 (show_nat (nat (hk_hour k)))"

definition hour_label :: "hour_key \<Rightarrow> string" where
  "hour_label k = date_isoformat (hk_date k) @ ''T'' @ hour_text k"

definition start_wall_ns :: "hour_key \<Rightarrow> int" where
  "start_wall_ns k = ((int (toordinal (hk_date k)) - int (toordinal EPOCH)) * 86400 + hk_hour k * 3600) * NS_PER_S"

definition end_wall_ns :: "hour_key \<Rightarrow> int" where
  "end_wall_ns k = start_wall_ns k + NS_PER_HOUR"

definition closed_hours :: "hour_key list \<Rightarrow> int \<Rightarrow> int \<Rightarrow> layout_error + hour_key list" where
  "closed_hours hours now_wall_ns grace_ns =
     (if grace_ns < 0 then Inl (NegativeGrace grace_ns)
      else Inr (filter (\<lambda>k. end_wall_ns k + grace_ns < now_wall_ns) hours))"

section \<open>Names of files\<close>

definition path_sep :: string where "path_sep = ''/''"

definition hour_dir :: "hour_key \<Rightarrow> string" where
  "hour_dir k = date_isoformat (hk_date k) @ path_sep @ hour_text k"

definition segment_name :: "hour_key \<Rightarrow> string \<Rightarrow> string" where
  "segment_name k file = hour_dir k @ path_sep @ file"

definition partition_dir :: "string \<Rightarrow> hour_key \<Rightarrow> string" where
  "partition_dir table k = table @ ''/dt='' @ date_isoformat (hk_date k) @ ''/hour='' @ hour_text k"

definition part_name :: "string \<Rightarrow> hour_key \<Rightarrow> string \<Rightarrow> string" where
  "part_name table k file = partition_dir table k @ path_sep @ file"

text \<open>
  The tree under \<^verbatim>\<open>raw/\<close>: its directories by date, then by hour, with the content of their files.
  Entries that are not directories where one is expected are skipped by the code and left out.
\<close>

type_synonym raw_tree = "(string, (string, (string, string) dict) dict) dict"

definition raw_dir :: "raw_tree \<Rightarrow> string \<Rightarrow> string \<Rightarrow> (string, string) dict option" where
  "raw_dir raw dn hn = (case dict_get raw dn of None \<Rightarrow> None | Some hours \<Rightarrow> dict_get hours hn)"

definition ends_with :: "string \<Rightarrow> string \<Rightarrow> bool" where
  "ends_with suffix s \<longleftrightarrow> length suffix \<le> length s \<and> drop (length s - length suffix) s = suffix"

definition segment_files :: "raw_tree \<Rightarrow> hour_key \<Rightarrow> string list" where
  "segment_files raw k =
     (case raw_dir raw (date_isoformat (hk_date k)) (hour_text k) of
        None \<Rightarrow> []
      | Some files \<Rightarrow> sort (filter (ends_with SEGMENT_SUFFIX) (dict_keys files)))"

definition is_hour_text :: "string \<Rightarrow> bool" where
  "is_hour_text s \<longleftrightarrow> length s = 2 \<and> list_all is_digit s"

definition raw_hours :: "raw_tree \<Rightarrow> hour_key list" where
  "raw_hours raw =
     sort (concat (map (\<lambda>(dn, hours).
       if is_date_text dn then
         concat (map (\<lambda>(hn, _).
           if is_hour_text hn then (case parse_hour (dn @ ''T'' @ hn) of Inl _ \<Rightarrow> [] | Inr k \<Rightarrow> [k]) else []) hours)
       else []) raw))"

text \<open>The file a segment name of the manifest refers to.\<close>

definition segment_content :: "raw_tree \<Rightarrow> string \<Rightarrow> string option" where
  "segment_content raw name =
     (case raw_dir raw (take 10 name) (take 2 (drop 11 name)) of
        None \<Rightarrow> None
      | Some files \<Rightarrow> dict_get files (drop 14 name))"

section \<open>Days of the calendar\<close>

lemma month_lists:
  "days_before_month leap 1 = 0" "days_before_month leap 2 = 31"
  "days_before_month leap 3 = (if leap then 60 else 59)" "days_before_month leap 4 = (if leap then 91 else 90)"
  "days_before_month leap 5 = (if leap then 121 else 120)" "days_before_month leap 6 = (if leap then 152 else 151)"
  "days_before_month leap 7 = (if leap then 182 else 181)" "days_before_month leap 8 = (if leap then 213 else 212)"
  "days_before_month leap 9 = (if leap then 244 else 243)" "days_before_month leap 10 = (if leap then 274 else 273)"
  "days_before_month leap 11 = (if leap then 305 else 304)" "days_before_month leap 12 = (if leap then 335 else 334)"
  "days_in_month leap 1 = 31" "days_in_month leap 2 = (if leap then 29 else 28)" "days_in_month leap 3 = 31"
  "days_in_month leap 4 = 30" "days_in_month leap 5 = 31" "days_in_month leap 6 = 30" "days_in_month leap 7 = 31"
  "days_in_month leap 8 = 31" "days_in_month leap 9 = 30" "days_in_month leap 10 = 31" "days_in_month leap 11 = 30"
  "days_in_month leap 12 = 31"
  by (simp_all add: days_before_month_def days_in_month_def month_days_def)

lemma twelve: "1 \<le> k \<Longrightarrow> k \<le> (12 :: nat) \<Longrightarrow> k \<in> set [1, 2, 3, 4, 5, 6, 7, 8, 9, 10, 11, 12]"
  by simp arith

lemma month_of_day:
  assumes n: "n < (if leap then 366 else 365)" and md: "month_of_day leap n = (m, d)"
  shows "1 \<le> m \<and> m \<le> 12 \<and> 1 \<le> d \<and> d \<le> days_in_month leap m \<and> days_before_month leap m + d = n + 1"
proof -
  define k where "k = (n + 50) div 32"
  have k: "32 * k \<le> n + 50" "n + 50 < 32 * k + 32" unfolding k_def by linarith+
  then have "1 \<le> k" "k \<le> 12" using n by (auto split: if_splits)
  then have "k \<in> set [1, 2, 3, 4, 5, 6, 7, 8, 9, 10, 11, 12]" by (rule twelve)
  moreover have "m = (if n < days_before_month leap k then k - 1 else k)" "d = n - days_before_month leap m + 1"
    using md by (auto simp: month_of_day_def Let_def k_def)
  ultimately show ?thesis using k n by (cases leap) (auto simp: month_lists month_lists [unfolded One_nat_def] split: if_splits)
qed

lemma days_before_year_parts:
  fixes a b c d :: nat
  assumes "b \<le> 3" "c \<le> 24" "d \<le> 3"
  shows "days_before_year (400 * a + 100 * b + 4 * c + d + 1) = 146097 * a + 36524 * b + 1461 * c + 365 * d"
proof -
  let ?y = "400 * a + 100 * b + 4 * c + d"
  have "?y div 4 = 100 * a + 25 * b + c" "?y div 100 = 4 * a + b" "?y div 400 = a" using assms by simp_all
  then show ?thesis by (simp add: days_before_year_def)
qed

lemma is_leap_parts:
  fixes a b c d :: nat
  assumes "b \<le> 3" "c \<le> 24" "d \<le> 3"
  shows "is_leap (400 * a + 100 * b + 4 * c + d + 1) \<longleftrightarrow> d = 3 \<and> (c \<noteq> 24 \<or> b = 3)"
proof -
  let ?y = "400 * a + 100 * b + 4 * c + d + 1"
  have dvd_near: "k dvd k * q + r \<longleftrightarrow> r = k" if "1 \<le> r" "r \<le> k" for k q r :: nat
    using that by (auto simp: dvd_add_right_iff dest: dvd_imp_le)
  have "4 dvd ?y \<longleftrightarrow> d + 1 = 4" using dvd_near [of "d + 1" 4 "100 * a + 25 * b + c"] assms by (simp add: algebra_simps)
  moreover have "100 dvd ?y \<longleftrightarrow> 4 * c + d + 1 = 100"
    using dvd_near [of "4 * c + d + 1" 100 "4 * a + b"] assms by (simp add: algebra_simps)
  moreover have "400 dvd ?y \<longleftrightarrow> 100 * b + 4 * c + d + 1 = 400"
    using dvd_near [of "100 * b + 4 * c + d + 1" 400 a] assms by (simp add: algebra_simps)
  moreover have "4 * c + d + 1 = 100 \<longleftrightarrow> c = 24 \<and> d = 3" "100 * b + 4 * c + d + 1 = 400 \<longleftrightarrow> b = 3 \<and> c = 24 \<and> d = 3"
    using assms by ((intro iffI conjI; linarith), (intro iffI conjI; linarith))
  ultimately show ?thesis by (auto simp: is_leap_def)
qed

lemma toordinal_parts:
  fixes a b c d :: nat
  assumes "b \<le> 3" "c \<le> 24" "d \<le> 3" "y = 400 * a + 100 * b + 4 * c + d + 1" "leap \<longleftrightarrow> d = 3 \<and> (c \<noteq> 24 \<or> b = 3)"
  shows "is_leap y = leap" "toordinal (y, m, k) = 146097 * a + 36524 * b + 1461 * c + 365 * d + days_before_month leap m + k"
  using is_leap_parts [OF assms(1-3), of a] days_before_year_parts [OF assms(1-3), of a] assms(4,5)
  by (simp_all add: toordinal_def)

lemma fromordinal_year:
  assumes "1 \<le> n" "fromordinal n = (y, m, k)"
  shows "1 \<le> y \<and> 1 \<le> m \<and> m \<le> 12 \<and> 1 \<le> k \<and> k \<le> days_in_month (is_leap y) m \<and> toordinal (y, m, k) = n"
proof -
  define a r1 b r2 c r3 d r4 where parts: "a = (n - 1) div 146097" "r1 = (n - 1) mod 146097" "b = r1 div 36524" "r2 = r1 mod 36524"
    "c = r2 div 1461" "r3 = r2 mod 1461" "d = r3 div 365" "r4 = r3 mod 365"
  have n: "n = 146097 * a + r1 + 1" "r1 < 146097" "r1 = 36524 * b + r2" "r2 < 36524" "r2 = 1461 * c + r3" "r3 < 1461"
      "r3 = 365 * d + r4" "r4 < 365"
    using assms(1) unfolding parts by simp_all
  have res: "(y, m, k) = (if d = 4 \<or> b = 4 then (a * 400 + 1 + b * 100 + c * 4 + d - 1, 12, 31)
      else (case month_of_day (d = 3 \<and> (c \<noteq> 24 \<or> b = 3)) r4 of (m, k) \<Rightarrow> (a * 400 + 1 + b * 100 + c * 4 + d, m, k)))"
    using assms(2) unfolding fromordinal_def Let_def parts by (rule sym)
  consider "b = 4" | "b \<le> 3" "d = 4" | "b \<le> 3" "d \<le> 3" using n by linarith
  then show ?thesis
  proof cases
    case 1
    with n have "r2 = 0" by linarith
    with n have "c = 0" "d = 0" "r4 = 0" by simp_all
    with 1 res have y: "y = 400 * a + 100 * 3 + 4 * 24 + 3 + 1" "m = 12" "k = 31" by simp_all
    note t = toordinal_parts [of 3 24 3 y a True, OF _ _ _ y(1)]
    show ?thesis using t y n 1 \<open>r2 = 0\<close> by (simp add: month_lists)
  next
    case 2
    with n have "r4 = 0" "c \<noteq> 24" "c \<le> 24" by linarith+
    moreover have y: "y = 400 * a + 100 * b + 4 * c + 3 + 1" "m = 12" "k = 31" using 2 res by simp_all
    ultimately show ?thesis using toordinal_parts [of b c 3 y a True, OF _ _ _ y(1)] n 2 by (simp add: month_lists)
  next
    case 3
    let ?leap = "d = 3 \<and> (c \<noteq> 24 \<or> b = 3)"
    have c: "c \<le> 24" using n by linarith
    have y: "y = 400 * a + 100 * b + 4 * c + d + 1" "month_of_day ?leap r4 = (m, k)"
      using 3 res by (auto split: prod.splits)
    have "r4 < (if ?leap then 366 else 365)" using n by simp
    from month_of_day [OF this y(2)] toordinal_parts [OF 3(1) c 3(2) y(1) refl] y(1) n show ?thesis by simp
  qed
qed

lemma toordinal_fromordinal: "1 \<le> n \<Longrightarrow> toordinal (fromordinal n) = n"
  using fromordinal_year by (metis prod_cases3)

text \<open>Day numbers increase with the date.\<close>

lemma leap_arith:
  fixes A B C x :: nat
  assumes "B \<le> A" "r \<Longrightarrow> q" "q \<Longrightarrow> p"
  shows "(x + 1) * 365 + (A + (if p then 1 else 0)) - (B + (if q then 1 else 0)) + (C + (if r then 1 else 0)) =
    x * 365 + A - B + C + (if p \<and> (\<not> q \<or> r) then 366 else 365)"
  using assms by (cases p; cases q; cases r) auto

lemma days_before_year_Suc:
  assumes "1 \<le> y"
  shows "days_before_year (Suc y) = days_before_year y + (if is_leap y then 366 else 365)"
proof -
  obtain z where z: "y = z + 1" using assms by (metis add.commute le_Suc_ex)
  have d: "(z + 1) div k = z div k + (if k dvd z + 1 then 1 else 0)" for k
    by (simp add: div_Suc mod_eq_0_iff_dvd)
  have "z div 100 \<le> z div 4" by (rule div_le_mono2) simp_all
  moreover have "400 dvd z + 1 \<Longrightarrow> 100 dvd z + 1" "100 dvd z + 1 \<Longrightarrow> 4 dvd z + 1"
    using dvd_trans [of 100 400 "z + 1"] dvd_trans [of 4 100 "z + 1"] by simp_all
  moreover have "days_before_year (Suc y) = (z + 1) * 365 + (z + 1) div 4 - (z + 1) div 100 + (z + 1) div 400"
    "days_before_year y = z * 365 + z div 4 - z div 100 + z div 400"
    by (simp_all add: days_before_year_def Let_def z)
  ultimately show ?thesis unfolding is_leap_def z d by (simp only: leap_arith)
qed

definition proper_date :: "date \<Rightarrow> bool" where
  "proper_date dt = (case dt of (y, m, d) \<Rightarrow> 1 \<le> y \<and> 1 \<le> m \<and> m \<le> 12 \<and> 1 \<le> d \<and> d \<le> days_in_month (is_leap y) m)"

lemma valid_proper: "valid_date dt \<longleftrightarrow> proper_date dt \<and> fst dt \<le> 9999"
  by (auto simp: valid_date_def proper_date_def)

lemma month_end:
  assumes "1 \<le> m" "m \<le> 12" "d \<le> days_in_month leap m"
  shows "days_before_month leap m + d \<le> (if leap then 366 else 365)"
  using twelve [OF assms(1,2)] assms(3) by (auto simp: month_lists month_lists [unfolded One_nat_def] split: if_splits)

lemma month_step:
  assumes "1 \<le> m" "m < 12"
  shows "days_before_month leap m + days_in_month leap m = days_before_month leap (Suc m)"
proof -
  have "m \<in> set [1, 2, 3, 4, 5, 6, 7, 8, 9, 10, 11]" using assms by simp arith
  then show ?thesis by (auto simp: month_lists month_lists [unfolded One_nat_def] numeral_2_eq_2 [symmetric])
qed

lemma days_before_month_mono: "m \<le> n \<Longrightarrow> days_before_month leap m \<le> days_before_month leap n"
proof -
  assume "m \<le> n"
  then have "take (n - 1) month_days = take (m - 1) month_days @ take (n - m) (drop (m - 1) month_days)" if "1 \<le> m"
    using that by (metis Nat.diff_add_assoc2 le_add_diff_inverse take_add)
  then show ?thesis using \<open>m \<le> n\<close> by (cases "1 \<le> m") (auto simp: days_before_month_def)
qed

lemma days_before_year_mono: "1 \<le> y \<Longrightarrow> y \<le> z \<Longrightarrow> days_before_year y \<le> days_before_year z"
proof (induction "z - y" arbitrary: z)
  case (Suc n)
  then obtain z' where z: "z = Suc z'" "y \<le> z'" "n = z' - y" by (cases z) auto
  then show ?case using Suc.hyps(1) [of z'] Suc.prems days_before_year_Suc [of z'] by simp
qed simp

lemma toordinal_less:
  assumes a: "proper_date a" and b: "proper_date b" and less: "a < b"
  shows "toordinal a < toordinal b"
proof -
  obtain y m d where a': "a = (y, m, d)" using prod_cases3 by blast
  obtain y' m' d' where b': "b = (y', m', d')" using prod_cases3 by blast
  consider "y < y'" | "y = y'" "m < m'" | "y = y'" "m = m'" "d < d'" using less by (auto simp: a' b' le_less)
  then show ?thesis
  proof cases
    case 1
    have "days_before_year (Suc y) \<le> days_before_year y'" using 1 by (intro days_before_year_mono) simp_all
    moreover have "days_before_month (is_leap y) m + d \<le> (if is_leap y then 366 else 365)"
      using a by (intro month_end) (simp_all add: a' proper_date_def)
    ultimately show ?thesis using a b days_before_year_Suc [of y] by (auto simp: a' b' proper_date_def toordinal_def split: if_splits)
  next
    case 2
    have "days_before_month (is_leap y) (Suc m) \<le> days_before_month (is_leap y) m'" using 2 by (intro days_before_month_mono) simp
    moreover have "days_before_month (is_leap y) m + days_in_month (is_leap y) m = days_before_month (is_leap y) (Suc m)"
      using 2 a b by (intro month_step) (simp_all add: a' b' proper_date_def)
    ultimately show ?thesis using 2 a b by (simp add: a' b' proper_date_def toordinal_def)
  next
    case 3
    then show ?thesis by (simp add: a' b' toordinal_def)
  qed
qed

lemma toordinal_inj: "proper_date a \<Longrightarrow> proper_date b \<Longrightarrow> toordinal a = toordinal b \<Longrightarrow> a = b"
  using toordinal_less by (metis less_irrefl linorder_less_linear)

lemma toordinal_pos: "proper_date a \<Longrightarrow> 1 \<le> toordinal a"
  by (auto simp: proper_date_def toordinal_def)

lemma proper_fromordinal: "1 \<le> n \<Longrightarrow> proper_date (fromordinal n)"
  using fromordinal_year [of n] by (cases "fromordinal n") (simp add: proper_date_def)

lemma fromordinal_toordinal: "proper_date dt \<Longrightarrow> fromordinal (toordinal dt) = dt"
  by (blast intro: toordinal_inj proper_fromordinal toordinal_fromordinal toordinal_pos)

lemma toordinal_max:
  assumes "valid_date dt"
  shows "int (toordinal dt) \<le> MAX_ORDINAL"
proof (cases "dt = (9999, 12, 31)")
  case True
  then show ?thesis by (simp add: toordinal_def MAX_ORDINAL_def days_before_year_def days_before_month_def month_days_def is_leap_def)
next
  case False
  have "proper_date (9999, 12, 31)" by (simp add: proper_date_def month_lists)
  moreover have "dt < (9999, 12, 31)"
  proof -
    obtain y m d where dt: "dt = (y, m, d)" using prod_cases3 by blast
    with assms have "y \<le> 9999" "m \<le> 12" "m = 12 \<Longrightarrow> d \<le> 31" by (auto simp: valid_date_def month_lists)
    then show ?thesis using False unfolding dt by (auto simp: less_le)
  qed
  ultimately have "toordinal dt < toordinal (9999, 12, 31)" using assms toordinal_less valid_proper by blast
  then show ?thesis by (simp add: toordinal_def MAX_ORDINAL_def days_before_year_def days_before_month_def month_days_def is_leap_def)
qed

section \<open>Round trips\<close>

lemma digits_value_pad [simp]: "digits_value (map digit_char (pad_digits k n)) = n"
proof -
  have "map (\<lambda>c. the (digit_val c)) (map digit_char (pad_digits k n)) = pad_digits k n"
    by (rule digit_string_vals) (rule pad_digits_small)
  then show ?thesis by (simp add: digits_value_def del: map_map)
qed

lemma digits_pad [simp]: "list_all is_digit (map digit_char (pad_digits k n))"
  by (auto simp: list_all_iff dest: pad_digits_small)

lemma month_short: "1 \<le> m \<Longrightarrow> m \<le> 12 \<Longrightarrow> days_in_month leap m \<le> 31"
  by (drule (1) twelve) (auto simp: month_lists month_lists [unfolded One_nat_def])

lemma date_text:
  assumes "valid_date dt"
  shows "is_date_text (date_isoformat dt)" "fromisoformat (date_isoformat dt) = Some dt" "length (date_isoformat dt) = 10"
proof -
  obtain y m d where dt: "dt = (y, m, d)" using prod_cases3 by blast
  define A B C where "A = map digit_char (pad_digits 4 y)" "B = map digit_char (pad_digits 2 m)" "C = map digit_char (pad_digits 2 d)"
  note parts = this
  have "d \<le> 31" using assms month_short [of m "is_leap y"] by (simp add: dt valid_date_def)
  then have len: "length A = 4" "length B = 2" "length C = 2"
    using assms by (simp_all add: parts dt valid_date_def length_pad_digits)
  have iso: "date_isoformat dt = A @ ''-'' @ B @ ''-'' @ C" by (simp add: date_isoformat_def dt parts zero_pad_show)
  show l: "length (date_isoformat dt) = 10" by (simp add: iso len)
  have cut: "take 4 (date_isoformat dt) = A" "take 2 (drop 5 (date_isoformat dt)) = B" "drop 8 (date_isoformat dt) = C"
    "date_isoformat dt ! 4 = CHR ''-''" "date_isoformat dt ! 7 = CHR ''-''"
    by (simp_all add: iso len nth_append)
  show t: "is_date_text (date_isoformat dt)" using l cut by (simp add: is_date_text_def parts)
  then show "fromisoformat (date_isoformat dt) = Some dt" using assms cut by (simp add: fromisoformat_def parts dt)
qed

lemma hour_text_parts:
  assumes "hour_ok_key k"
  shows "length (hour_text k) = 2" "list_all is_digit (hour_text k)" "int (digits_value (hour_text k)) = hk_hour k"
proof -
  have "nat (hk_hour k) < 10 ^ 2" "0 \<le> hk_hour k" using assms by (auto simp: hour_ok_key_def HOURS_PER_DAY_def)
  then show "length (hour_text k) = 2" "list_all is_digit (hour_text k)" "int (digits_value (hour_text k)) = hk_hour k"
    using length_pad_digits [of 2 "nat (hk_hour k)"] by (simp_all add: hour_text_def zero_pad_show)
qed

lemma parse_hour_label:
  assumes "hour_ok_key k"
  shows "parse_hour (hour_label k) = Inr k"
  using assms date_text [of "hk_date k"] hour_text_parts [OF assms]
  by (simp add: parse_hour_def hour_label_def nth_append new_hour_key_def hour_ok_key_def)

lemma start_of_ordinal:
  "start_wall_ns k = ((int (toordinal (hk_date k)) - int (toordinal EPOCH)) * 86400 + hk_hour k * 3600) * NS_PER_S"
  by (rule start_wall_ns_def)

lemma seconds_bounds: "t * NS_PER_S \<le> w \<and> w < t * NS_PER_S + NS_PER_HOUR \<longleftrightarrow> t \<le> w div NS_PER_S \<and> w div NS_PER_S < t + 3600"
  unfolding NS_PER_HOUR_def NS_PER_S_def by linarith

lemma instant_in_hour:
  assumes "hour_ok_key k"
  shows "of_wall_ns w = Inr k \<longleftrightarrow> start_wall_ns k \<le> w \<and> w < end_wall_ns k"
proof -
  define D H s where "D = int (toordinal (hk_date k)) - int (toordinal EPOCH)" "H = hk_hour k" "s = w div NS_PER_S"
  note parts = this
  have hk: "valid_date (hk_date k)" "0 \<le> H" "H < 24" using assms by (simp_all add: hour_ok_key_def HOURS_PER_DAY_def parts)
  have "start_wall_ns k \<le> w \<and> w < end_wall_ns k \<longleftrightarrow> D * 86400 + H * 3600 \<le> s \<and> s < D * 86400 + H * 3600 + 3600"
    unfolding start_wall_ns_def end_wall_ns_def seconds_bounds parts ..
  also have "\<dots> \<longleftrightarrow> s div 86400 = D \<and> s mod 86400 div 3600 = H"
  proof
    assume a: "D * 86400 + H * 3600 \<le> s \<and> s < D * 86400 + H * 3600 + 3600"
    then have "s div 86400 = D" using hk by linarith
    moreover from this have "s mod 86400 = s - D * 86400" by (simp add: minus_div_mult_eq_mod [symmetric])
    ultimately show "s div 86400 = D \<and> s mod 86400 div 3600 = H" using a hk by linarith
  next
    assume a: "s div 86400 = D \<and> s mod 86400 div 3600 = H"
    then have "s mod 86400 = s - D * 86400" by (simp add: minus_div_mult_eq_mod [symmetric])
    then show "D * 86400 + H * 3600 \<le> s \<and> s < D * 86400 + H * 3600 + 3600" using a by linarith
  qed
  also have "\<dots> \<longleftrightarrow> of_wall_ns w = Inr k"
  proof
    assume a: "s div 86400 = D \<and> s mod 86400 div 3600 = H"
    have "1 \<le> toordinal (hk_date k)" using hk valid_proper toordinal_pos by blast
    moreover have "int (toordinal (hk_date k)) \<le> MAX_ORDINAL" using hk toordinal_max by blast
    ultimately show "of_wall_ns w = Inr k"
      using a hk fromordinal_toordinal [of "hk_date k"] valid_proper
      by (simp add: of_wall_ns_def Let_def parts [symmetric] new_hour_key_def HOURS_PER_DAY_def)
        (simp add: parts hour_key.expand)
  next
    assume a: "of_wall_ns w = Inr k"
    let ?day = "int (toordinal EPOCH) + s div 86400"
    have d: "1 \<le> ?day" "k = HourKey (fromordinal (nat ?day)) (s mod 86400 div 3600)"
      using a by (auto simp: of_wall_ns_def Let_def parts new_hour_key_def split: if_splits)
    have "toordinal (hk_date k) = nat ?day" using d by (simp add: toordinal_fromordinal)
    then show "s div 86400 = D \<and> s mod 86400 div 3600 = H" using d by (simp add: parts)
  qed
  finally show ?thesis by blast
qed

text \<open>
  C21. An hour is its name and its instants: every hour of the calendar's years is read back from its
  label, and a wall clock reading is given that hour exactly when it lies in the hour, from its
  first nanosecond to the one before the next hour's, leap years and centuries included.
\<close>

theorem hours_name_their_instants:
  assumes "hour_ok_key k"
  shows "parse_hour (hour_label k) = Inr k \<and> (of_wall_ns w = Inr k \<longleftrightarrow> start_wall_ns k \<le> w \<and> w < end_wall_ns k)"
  using parse_hour_label [OF assms] instant_in_hour [OF assms] by simp

theorem hours_name_their_instants_witness:
  "parse_hour (hour_label (HourKey (2024, 2, 29) 23)) = Inr (HourKey (2024, 2, 29) 23) \<and>
   of_wall_ns (start_wall_ns (HourKey (2024, 2, 29) 23) + 5) = Inr (HourKey (2024, 2, 29) 23)"
proof -
  have k: "hour_ok_key (HourKey (2024, 2, 29) 23)"
    by (simp add: hour_ok_key_def valid_date_def days_in_month_def is_leap_def HOURS_PER_DAY_def)
  show ?thesis using hours_name_their_instants [OF k, of "start_wall_ns (HourKey (2024, 2, 29) 23) + 5"]
    by (simp add: end_wall_ns_def NS_PER_HOUR_def NS_PER_S_def)
qed

end
