(* ===== verification/Manifest.thy ===== *)
theory Manifest
  imports Layout Interpret
begin

text \<open>
  \<^verbatim>\<open>tape/bake/manifest.py\<close>: what one day captured, baked and pruned, and the numbers of its
  integrity, derived from the facts of its hours. JSON and files are left to the readers and
  writers of the manifest; the checks are those its structs make when they are built.
\<close>

section \<open>Structs\<close>

definition MANIFEST_VERSION :: int where "MANIFEST_VERSION = 1"
definition SECONDS_PER_DAY :: int where "SECONDS_PER_DAY = 86400"

definition TABLE_NAMES :: "string list" where
  "TABLE_NAMES = [''deltas'', ''snapshots'', ''trades'', ''lifecycle'', ''gaps'', ''audits'']"

record hour_bake =
  hb_hour :: int
  hb_bake_version :: int
  hb_software_version :: string
  hb_accounting :: record_accounting
  hb_integrity :: hour_integrity

record segment_entry =
  se_path :: string
  se_hour :: int
  se_bytes :: int
  se_sha256 :: string
  se_records :: int
  se_first_recv_wall_ns :: "int option"
  se_last_recv_wall_ns :: "int option"
  se_truncated :: bool

record part_entry =
  pt_path :: string
  pt_hour :: int
  pt_rows :: int
  pt_bytes :: int
  pt_sha256 :: string

record table_entry =
  te_rows :: int
  te_files :: "part_entry list"

record uptime =
  up_seconds_recording :: int
  up_seconds_in_day :: int
  up_ratio :: "int \<times> int"

record gap_summary =
  gu_count :: int
  gu_market_seconds_affected :: int
  gu_market_seconds_observed :: int
  gu_share :: "int \<times> int"

record audit_summary =
  au_books_sampled :: int
  au_books_exact :: int
  au_books_consistent :: int
  au_books_inconsistent :: int
  au_books_undecidable :: int
  au_levels_mismatched :: int
  au_exact_ratio :: "int \<times> int"
  au_consistency_ratio :: "int \<times> int"

record clock_section =
  ck_chrony_offset_ms :: "int option"

record pruned_segment =
  pr_path :: string
  pr_bytes :: int
  pr_sha256 :: string
  pr_pruned_wall_ns :: int

record manifest =
  mf_version :: int
  mf_date :: date
  mf_software_version :: string
  mf_segments :: "segment_entry list"
  mf_tables :: "(string, table_entry) dict"
  mf_hours :: "hour_bake list"
  mf_uptime :: uptime
  mf_gaps :: gap_summary
  mf_audits :: audit_summary
  mf_clock :: clock_section
  mf_pruned :: "pruned_segment list"

datatype manifest_error =
    TablesDiffer | NotInOrder string | NotASegmentName string | SegmentElsewhere string | SegmentNotBaked string
  | PartElsewhere string | PartNotBaked string | PrunedUnknown string | RowsDiffer int | HoursNotInOrder
  | HourPruned int | EntryOfOtherHour int

section \<open>Checks\<close>

definition else_error :: "'e option \<Rightarrow> 'e option \<Rightarrow> 'e option" where
  "else_error a b = (case a of None \<Rightarrow> b | Some e \<Rightarrow> Some e)"

primrec first_error :: "('x \<Rightarrow> 'e option) \<Rightarrow> 'x list \<Rightarrow> 'e option" where
  "first_error check [] = None"
| "first_error check (x # xs) = else_error (check x) (first_error check xs)"

definition new_table_entry :: "int \<Rightarrow> part_entry list \<Rightarrow> manifest_error + table_entry" where
  "new_table_entry rows files =
     (if rows \<noteq> sum_list (map pt_rows files) then Inl (RowsDiffer rows) else Inr \<lparr>te_rows = rows, te_files = files\<rparr>)"

definition sorted_unique :: "'k::linorder list \<Rightarrow> bool" where
  "sorted_unique xs \<longleftrightarrow> xs = sort (remdups xs)"

definition new_bake_section :: "hour_bake list \<Rightarrow> manifest_error + hour_bake list" where
  "new_bake_section hours = (if sorted_unique (map hb_hour hours) then Inr hours else Inl HoursNotInOrder)"

definition check_sorted_unique :: "string \<Rightarrow> string list \<Rightarrow> manifest_error option" where
  "check_sorted_unique what paths = (if sorted_unique paths then None else Some (NotInOrder what))"

definition segment_char :: "char \<Rightarrow> bool" where
  "segment_char c \<longleftrightarrow> c \<in> set ''ABCDEFGHIJKLMNOPQRSTUVWXYZabcdefghijklmnopqrstuvwxyz0123456789._-''"

text \<open>The pattern of a segment's name, and the day and hour it gives.\<close>

definition is_segment_name :: "string \<Rightarrow> bool" where
  "is_segment_name name \<longleftrightarrow> is_date_text (take 10 name) \<and> 14 \<le> length name \<and> name ! 10 = CHR ''/'' \<and>
     is_hour_text (take 2 (drop 11 name)) \<and> name ! 13 = CHR ''/'' \<and>
     length SEGMENT_SUFFIX < length (drop 14 name) \<and> ends_with SEGMENT_SUFFIX name \<and> list_all segment_char (drop 14 name)"

definition segment_hour :: "string \<Rightarrow> manifest_error + date \<times> int" where
  "segment_hour name =
     (if is_segment_name name then
        case fromisoformat (take 10 name) of
          None \<Rightarrow> Inl (NotASegmentName name)
        | Some dt \<Rightarrow> Inr (dt, int (digits_value (take 2 (drop 11 name))))
      else Inl (NotASegmentName name))"

definition check_segment :: "date \<Rightarrow> int set \<Rightarrow> segment_entry \<Rightarrow> manifest_error option" where
  "check_segment dt hours s =
     (case segment_hour (se_path s) of
        Inl e \<Rightarrow> Some e
      | Inr place \<Rightarrow>
          if place \<noteq> (dt, se_hour s) then Some (SegmentElsewhere (se_path s))
          else if se_hour s \<notin> hours then Some (SegmentNotBaked (se_path s))
          else None)"

definition two_digits :: "int \<Rightarrow> string" where
  "two_digits n = zero_pad 2 (show_nat (nat n))"

definition check_part :: "date \<Rightarrow> int set \<Rightarrow> string \<Rightarrow> part_entry \<Rightarrow> manifest_error option" where
  "check_part dt hours name p =
     (let prefix = name @ ''/dt='' @ date_isoformat dt @ ''/hour='' @ two_digits (pt_hour p) @ ''/''
      in if take (length prefix) (pt_path p) \<noteq> prefix then Some (PartElsewhere (pt_path p))
         else if pt_hour p \<notin> hours then Some (PartNotBaked (pt_path p))
         else None)"

definition table_files :: "manifest \<Rightarrow> string \<Rightarrow> part_entry list" where
  "table_files m name = (case dict_get (mf_tables m) name of None \<Rightarrow> [] | Some t \<Rightarrow> te_files t)"

definition check_table :: "date \<Rightarrow> int set \<Rightarrow> string \<times> part_entry list \<Rightarrow> manifest_error option" where
  "check_table dt hours table =
     (case table of (name, files) \<Rightarrow>
        else_error (check_sorted_unique name (map pt_path files)) (first_error (check_part dt hours name) files))"

definition check_pruned :: "(string, segment_entry) dict \<Rightarrow> pruned_segment \<Rightarrow> manifest_error option" where
  "check_pruned listed p =
     (case dict_get listed (pr_path p) of
        None \<Rightarrow> Some (PrunedUnknown (pr_path p))
      | Some s \<Rightarrow> if (se_bytes s, se_sha256 s) \<noteq> (pr_bytes p, pr_sha256 p) then Some (PrunedUnknown (pr_path p)) else None)"

definition manifest_error :: "manifest \<Rightarrow> manifest_error option" where
  "manifest_error m =
     (if set (dict_keys (mf_tables m)) \<noteq> set TABLE_NAMES then Some TablesDiffer
      else let hours = set (map hb_hour (mf_hours m))
      in else_error (check_sorted_unique ''segments'' (map se_path (mf_segments m)))
        (else_error (first_error (check_segment (mf_date m) hours) (mf_segments m))
        (else_error (first_error (check_table (mf_date m) hours) (map (\<lambda>name. (name, table_files m name)) TABLE_NAMES))
        (else_error (check_sorted_unique ''pruned'' (map pr_path (mf_pruned m)))
        (first_error (check_pruned (map (\<lambda>s. (se_path s, s)) (rev (mf_segments m)))) (mf_pruned m))))))"

definition new_manifest_struct :: "manifest \<Rightarrow> manifest_error + manifest" where
  "new_manifest_struct m = (case manifest_error m of None \<Rightarrow> Inr m | Some e \<Rightarrow> Inl e)"

definition hour_bake_of :: "manifest \<Rightarrow> int \<Rightarrow> hour_bake option" where
  "hour_bake_of m hour = find (\<lambda>b. hb_hour b = hour) (mf_hours m)"

definition hour_segments :: "manifest \<Rightarrow> int \<Rightarrow> segment_entry list" where
  "hour_segments m hour = filter (\<lambda>s. se_hour s = hour) (mf_segments m)"

definition hour_parts :: "manifest \<Rightarrow> int \<Rightarrow> part_entry list" where
  "hour_parts m hour = concat (map (\<lambda>name. filter (\<lambda>p. pt_hour p = hour) (table_files m name)) TABLE_NAMES)"

section \<open>Intervals\<close>

type_synonym interval = "int \<times> int"

fun join_spans :: "connection_span list \<Rightarrow> int option \<Rightarrow> int \<Rightarrow> bool \<Rightarrow> interval list" where
  "join_spans [] None last_end was_closed = []"
| "join_spans [] (Some begun) last_end was_closed = [(begun, last_end)]"
| "join_spans (sp # sps) begun last_end was_closed =
     (if begun \<noteq> None \<and> \<not> was_closed \<and> \<not> cs_opened sp then
        join_spans sps begun (max last_end (cs_end_wall_ns sp)) (cs_closed sp)
      else (case begun of None \<Rightarrow> [] | Some a \<Rightarrow> [(a, last_end)]) @
           join_spans sps (Some (cs_start_wall_ns sp)) (cs_end_wall_ns sp) (cs_closed sp))"

definition all_spans :: "hour_bake list \<Rightarrow> connection_span list" where
  "all_spans hours = concat (map (\<lambda>b. hi_spans (hb_integrity b)) hours)"

definition spans_by_conn :: "hour_bake list \<Rightarrow> (int, connection_span list) dict" where
  "spans_by_conn hours =
     fold (\<lambda>sp d. dict_put (cs_conn_id sp) (dict_get_or d (cs_conn_id sp) [] @ [sp]) d) (all_spans hours) []"

definition joined_spans :: "hour_bake list \<Rightarrow> interval list" where
  "joined_spans hours =
     concat (map (\<lambda>(_, spans). join_spans (sort_key (\<lambda>sp. (cs_start_wall_ns sp, cs_end_wall_ns sp)) spans) None 0 True)
       (spans_by_conn hours))"

definition union_step :: "interval list \<Rightarrow> interval \<Rightarrow> interval list" where
  "union_step merged x =
     (if merged \<noteq> [] \<and> fst x \<le> snd (last merged)
      then butlast merged @ [(fst (last merged), max (snd (last merged)) (snd x))]
      else merged @ [x])"

definition interval_union :: "interval list \<Rightarrow> interval list" where
  "interval_union xs = foldl union_step [] (sort xs)"

definition interval_clip :: "interval list \<Rightarrow> int \<Rightarrow> int \<Rightarrow> interval list" where
  "interval_clip xs low high =
     map (\<lambda>(a, b). (max a low, min b high)) (filter (\<lambda>(a, b). b > low \<and> a < high) xs)"

definition interval_length :: "interval list \<Rightarrow> int" where
  "interval_length xs = sum_list (map (\<lambda>(a, b). b - a) xs)"

fun interval_overlap :: "interval list \<Rightarrow> interval list \<Rightarrow> int" where
  "interval_overlap (a # as) (b # bs) =
     (let low = max (fst a) (fst b); high = min (snd a) (snd b)
      in (if high > low then high - low else 0) +
         (if snd a < snd b then interval_overlap as (b # bs) else interval_overlap (a # as) bs))"
| "interval_overlap _ _ = 0"

section \<open>Integrity of a day\<close>

definition summarize_uptime :: "date \<Rightarrow> hour_bake list \<Rightarrow> uptime" where
  "summarize_uptime dt hours =
     (let day_start = start_wall_ns (HourKey dt 0);
          day_end = day_start + SECONDS_PER_DAY * NS_PER_S;
          covered = interval_clip (interval_union (joined_spans hours)) day_start day_end;
          asleep = interval_union (concat (map (\<lambda>b. hi_sleeps (hb_integrity b)) hours));
          seconds = (interval_length covered - interval_overlap covered asleep) div NS_PER_S
      in \<lparr>up_seconds_recording = seconds, up_seconds_in_day = SECONDS_PER_DAY, up_ratio = (seconds, SECONDS_PER_DAY)\<rparr>)"

definition over_hours :: "(hour_integrity \<Rightarrow> int) \<Rightarrow> hour_bake list \<Rightarrow> int" where
  "over_hours f hours = sum_list (map (\<lambda>b. f (hb_integrity b)) hours)"

definition summarize_gaps :: "hour_bake list \<Rightarrow> gap_summary" where
  "summarize_gaps hours =
     (let affected = over_hours (gf_stale_market_ns \<circ> hi_gaps) hours div NS_PER_S;
          observed = over_hours (gf_observed_market_ns \<circ> hi_gaps) hours div NS_PER_S
      in \<lparr>gu_count = over_hours (gf_count \<circ> hi_gaps) hours, gu_market_seconds_affected = affected,
          gu_market_seconds_observed = observed, gu_share = (affected, observed)\<rparr>)"

definition summarize_audits :: "hour_bake list \<Rightarrow> audit_summary" where
  "summarize_audits hours =
     (let exact = over_hours (af_exact \<circ> hi_audits) hours;
          consistent = over_hours (af_consistent \<circ> hi_audits) hours;
          inconsistent = over_hours (af_inconsistent \<circ> hi_audits) hours;
          sampled = exact + consistent + inconsistent
      in \<lparr>au_books_sampled = sampled, au_books_exact = exact, au_books_consistent = consistent,
          au_books_inconsistent = inconsistent, au_books_undecidable = over_hours (af_undecidable \<circ> hi_audits) hours,
          au_levels_mismatched = over_hours (af_levels_mismatched \<circ> hi_audits) hours,
          au_exact_ratio = (exact, sampled), au_consistency_ratio = (exact + consistent, sampled)\<rparr>)"

section \<open>Changes of a manifest\<close>

definition assembled_table :: "part_entry list \<Rightarrow> manifest_error + table_entry" where
  "assembled_table parts = (let files = sort_key pt_path parts in new_table_entry (sum_list (map pt_rows files)) files)"

definition assemble ::
  "date \<Rightarrow> string \<Rightarrow> segment_entry list \<Rightarrow> (string \<Rightarrow> part_entry list) \<Rightarrow> hour_bake list \<Rightarrow> clock_section \<Rightarrow> pruned_segment list \<Rightarrow> manifest_error + manifest" where
  "assemble dt software_version segments tables hours clock pruned =
     (let ordered_hours = sort_key hb_hour hours
      in result_bind (result_list (\<lambda>name. result_bind (assembled_table (tables name)) (\<lambda>t. Inr (name, t))) TABLE_NAMES) (\<lambda>entries.
         result_bind (new_bake_section ordered_hours) (\<lambda>section.
         new_manifest_struct
           \<lparr>mf_version = MANIFEST_VERSION, mf_date = dt, mf_software_version = software_version,
            mf_segments = sort_key se_path segments, mf_tables = entries, mf_hours = section,
            mf_uptime = summarize_uptime dt ordered_hours, mf_gaps = summarize_gaps ordered_hours,
            mf_audits = summarize_audits ordered_hours, mf_clock = clock, mf_pruned = sort_key pr_path pruned\<rparr>)))"

definition new_manifest :: "date \<Rightarrow> string \<Rightarrow> manifest_error + manifest" where
  "new_manifest dt software_version = assemble dt software_version [] (\<lambda>_. []) [] \<lparr>ck_chrony_offset_ms = None\<rparr> []"

text \<open>Whether a pruned segment is of the hour; \<open>Inl\<close> when its name is not a segment's.\<close>

fun any_of_hour :: "int \<Rightarrow> pruned_segment list \<Rightarrow> manifest_error + bool" where
  "any_of_hour hour [] = Inr False"
| "any_of_hour hour (p # ps) =
     result_bind (segment_hour (pr_path p)) (\<lambda>place. if snd place = hour then Inr True else any_of_hour hour ps)"

definition with_hour ::
  "manifest \<Rightarrow> hour_bake \<Rightarrow> segment_entry list \<Rightarrow> (string, part_entry list) dict \<Rightarrow> string \<Rightarrow> int option \<Rightarrow> manifest_error + manifest" where
  "with_hour m bake segments parts software_version clock_offset_ms =
     (let hour = hb_hour bake
      in result_bind (any_of_hour hour (mf_pruned m)) (\<lambda>some_pruned.
         if some_pruned then Inl (HourPruned hour)
         else if list_ex (\<lambda>s. se_hour s \<noteq> hour) segments \<or>
                 list_ex (\<lambda>(_, files). list_ex (\<lambda>p. pt_hour p \<noteq> hour) files) parts then Inl (EntryOfOtherHour hour)
         else assemble (mf_date m) software_version
                (filter (\<lambda>s. se_hour s \<noteq> hour) (mf_segments m) @ segments)
                (\<lambda>name. filter (\<lambda>p. pt_hour p \<noteq> hour) (table_files m name) @ dict_get_or parts name [])
                (filter (\<lambda>b. hb_hour b \<noteq> hour) (mf_hours m) @ [bake])
                \<lparr>ck_chrony_offset_ms = clock_offset_ms\<rparr> (mf_pruned m)))"

definition set_default :: "pruned_segment \<Rightarrow> (string, pruned_segment) dict \<Rightarrow> (string, pruned_segment) dict" where
  "set_default p d = (if dict_get d (pr_path p) = None then dict_put (pr_path p) p d else d)"

definition put_recorded :: "pruned_segment \<Rightarrow> (string, pruned_segment) dict \<Rightarrow> (string, pruned_segment) dict" where
  "put_recorded p d = dict_put (pr_path p) p d"

definition with_pruned :: "manifest \<Rightarrow> pruned_segment list \<Rightarrow> manifest_error + manifest" where
  "with_pruned m pruned =
     (let recorded = fold put_recorded (mf_pruned m) []
      in assemble (mf_date m) (mf_software_version m) (mf_segments m) (table_files m) (mf_hours m) (mf_clock m)
           (map snd (fold set_default pruned recorded)))"

section \<open>What decodes\<close>

text \<open>The constraints on the fields of the structs, which msgspec checks when it decodes a manifest.\<close>

definition NonNegative :: "int \<Rightarrow> bool" where "NonNegative n \<longleftrightarrow> 0 \<le> n"
definition HourOfDay :: "int \<Rightarrow> bool" where "HourOfDay n \<longleftrightarrow> 0 \<le> n \<and> n \<le> 23"
definition BakeVersion :: "int \<Rightarrow> bool" where "BakeVersion n \<longleftrightarrow> 1 \<le> n"

definition Sha256 :: "string \<Rightarrow> bool" where
  "Sha256 s \<longleftrightarrow> length s = 64 \<and> list_all (\<lambda>c. c \<in> set ''0123456789abcdef'') s"

definition PartName :: "string \<Rightarrow> bool" where
  "PartName s \<longleftrightarrow>
     (let table = takeWhile (\<lambda>c. c \<noteq> CHR ''/'') s; rest = dropWhile (\<lambda>c. c \<noteq> CHR ''/'') s; file = drop 29 rest
      in table \<noteq> [] \<and> list_all (\<lambda>c. c \<in> set ''abcdefghijklmnopqrstuvwxyz'') table \<and>
         take 4 rest = ''/dt='' \<and> is_date_text (take 10 (drop 4 rest)) \<and> take 6 (drop 14 rest) = ''/hour='' \<and>
         is_hour_text (take 2 (drop 20 rest)) \<and> take 6 (drop 22 rest) = ''/part-'' \<and> drop 28 rest \<noteq> [] \<and>
         is_digit (hd (drop 28 rest)) \<and> dropWhile is_digit file = ''.parquet'')"

definition counts_ok :: "(string, int) dict \<Rightarrow> bool" where
  "counts_ok d \<longleftrightarrow> list_all (\<lambda>(_, n). NonNegative n) d"

definition accounting_decodes :: "record_accounting \<Rightarrow> bool" where
  "accounting_decodes a \<longleftrightarrow> counts_ok (ra_records a) \<and> counts_ok (ra_baked a) \<and> counts_ok (ra_not_baked a) \<and>
     counts_ok (ra_decode_failures a) \<and> NonNegative (ra_corrupt_segments a) \<and> accounting_error a = None"

definition integrity_decodes :: "hour_integrity \<Rightarrow> bool" where
  "integrity_decodes i \<longleftrightarrow>
     list_all (\<lambda>sp. NonNegative (cs_conn_id sp) \<and> span_ok sp) (hi_spans i) \<and> list_all sleep_ok (hi_sleeps i) \<and>
     NonNegative (gf_count (hi_gaps i)) \<and> NonNegative (gf_stale_market_ns (hi_gaps i)) \<and> NonNegative (gf_observed_market_ns (hi_gaps i)) \<and>
     NonNegative (af_exact (hi_audits i)) \<and> NonNegative (af_consistent (hi_audits i)) \<and> NonNegative (af_inconsistent (hi_audits i)) \<and>
     NonNegative (af_undecidable (hi_audits i)) \<and> NonNegative (af_levels_mismatched (hi_audits i)) \<and>
     NonNegative (hi_writer_overflow_dropped i)"

definition bake_decodes :: "hour_bake \<Rightarrow> bool" where
  "bake_decodes b \<longleftrightarrow> HourOfDay (hb_hour b) \<and> BakeVersion (hb_bake_version b) \<and> accounting_decodes (hb_accounting b) \<and>
     integrity_decodes (hb_integrity b)"

definition segment_decodes :: "segment_entry \<Rightarrow> bool" where
  "segment_decodes s \<longleftrightarrow> is_segment_name (se_path s) \<and> HourOfDay (se_hour s) \<and> NonNegative (se_bytes s) \<and>
     Sha256 (se_sha256 s) \<and> NonNegative (se_records s)"

definition part_decodes :: "part_entry \<Rightarrow> bool" where
  "part_decodes p \<longleftrightarrow> PartName (pt_path p) \<and> HourOfDay (pt_hour p) \<and> NonNegative (pt_rows p) \<and> NonNegative (pt_bytes p) \<and>
     Sha256 (pt_sha256 p)"

definition table_decodes :: "table_entry \<Rightarrow> bool" where
  "table_decodes t \<longleftrightarrow> NonNegative (te_rows t) \<and> list_all part_decodes (te_files t) \<and> te_rows t = sum_list (map pt_rows (te_files t))"

definition ratio_ok :: "int \<times> int \<Rightarrow> bool" where
  "ratio_ok r \<longleftrightarrow> NonNegative (fst r) \<and> NonNegative (snd r)"

definition summaries_decode :: "manifest \<Rightarrow> bool" where
  "summaries_decode m \<longleftrightarrow>
     NonNegative (up_seconds_recording (mf_uptime m)) \<and> NonNegative (up_seconds_in_day (mf_uptime m)) \<and> ratio_ok (up_ratio (mf_uptime m)) \<and>
     NonNegative (gu_count (mf_gaps m)) \<and> NonNegative (gu_market_seconds_affected (mf_gaps m)) \<and>
     NonNegative (gu_market_seconds_observed (mf_gaps m)) \<and> ratio_ok (gu_share (mf_gaps m)) \<and>
     NonNegative (au_books_sampled (mf_audits m)) \<and> NonNegative (au_books_exact (mf_audits m)) \<and>
     NonNegative (au_books_consistent (mf_audits m)) \<and> NonNegative (au_books_inconsistent (mf_audits m)) \<and>
     NonNegative (au_books_undecidable (mf_audits m)) \<and> NonNegative (au_levels_mismatched (mf_audits m)) \<and>
     ratio_ok (au_exact_ratio (mf_audits m)) \<and> ratio_ok (au_consistency_ratio (mf_audits m))"

definition pruned_decodes :: "pruned_segment \<Rightarrow> bool" where
  "pruned_decodes p \<longleftrightarrow> is_segment_name (pr_path p) \<and> NonNegative (pr_bytes p) \<and> Sha256 (pr_sha256 p)"

definition decodes :: "manifest \<Rightarrow> bool" where
  "decodes m \<longleftrightarrow> mf_version m = MANIFEST_VERSION \<and> valid_date (mf_date m) \<and> list_all segment_decodes (mf_segments m) \<and>
     list_all (\<lambda>(_, t). table_decodes t) (mf_tables m) \<and> sorted_unique (map hb_hour (mf_hours m)) \<and>
     list_all bake_decodes (mf_hours m) \<and> summaries_decode m \<and> list_all pruned_decodes (mf_pruned m) \<and> manifest_error m = None"

end
