(* ===== verification/Manifested.thy ===== *)
theory Manifested
  imports Manifest
begin

text \<open>
  What holds of a day's manifest: its uptime measures the instants some connection was open and the
  host awake, every change keeps it consistent and its numbers derived from its hours, and an hour
  with a pruned segment is settled.
\<close>

section \<open>Intervals as sets of instants\<close>

definition points :: "interval list \<Rightarrow> int set" where
  "points xs = (\<Union>(a, b)\<in>set xs. {a..<b})"

definition separated :: "interval list \<Rightarrow> bool" where
  "separated xs \<longleftrightarrow> sorted_wrt (\<lambda>x y. snd x < fst y) xs \<and> list_all (\<lambda>x. fst x \<le> snd x) xs"

lemma points_simps [simp]:
  "points [] = {}" "points (x # xs) = {fst x..<snd x} \<union> points xs" "points (xs @ ys) = points xs \<union> points ys"
  by (auto simp: points_def split: prod.splits)

lemma points_cong: "set xs = set ys \<Longrightarrow> points xs = points ys"
  by (simp add: points_def)

lemma separated_Cons:
  "separated (x # xs) \<longleftrightarrow> fst x \<le> snd x \<and> list_all (\<lambda>y. snd x < fst y) xs \<and> separated xs"
  by (auto simp: separated_def list_all_iff)

lemma separated_snoc:
  "separated (xs @ [x]) \<longleftrightarrow> fst x \<le> snd x \<and> list_all (\<lambda>y. snd y < fst x) xs \<and> separated xs"
  by (auto simp: separated_def list_all_iff sorted_wrt_append)

lemma finite_points [simp]: "finite (points xs)"
  by (auto simp: points_def)

lemma points_after:
  assumes "list_all (\<lambda>y. b < fst y) xs"
  shows "points xs \<inter> {a..<b} = {}" "t \<in> points xs \<Longrightarrow> b < t"
  using assms by (auto simp: points_def list_all_iff)

lemma length_card: "separated xs \<Longrightarrow> interval_length xs = int (card (points xs))"
proof (induction xs)
  case (Cons x xs)
  have "card ({fst x..<snd x} \<union> points xs) = card {fst x..<snd x} + card (points xs)"
    using Cons.prems points_after(1) [of "snd x" xs "fst x"] by (intro card_Un_disjoint) (auto simp: separated_Cons)
  with Cons show ?case by (simp add: separated_Cons interval_length_def split_beta)
qed (simp add: interval_length_def)

subsection \<open>Merging\<close>

lemma union_step_points:
  assumes "separated merged" "list_all (\<lambda>y. fst y \<le> fst x) merged" "fst x \<le> snd x"
  shows "separated (union_step merged x) \<and> points (union_step merged x) = points merged \<union> {fst x..<snd x} \<and>
    list_all (\<lambda>y. fst y \<le> fst x) (union_step merged x)"
proof (cases merged rule: rev_cases)
  case Nil
  then show ?thesis using assms by (simp add: union_step_def separated_def)
next
  case (snoc ys y)
  show ?thesis
  proof (cases "fst x \<le> snd y")
    case True
    have "{fst y..<max (snd y) (snd x)} = {fst y..<snd y} \<union> {fst x..<snd x}" using True assms by (auto simp: snoc)
    then show ?thesis using assms True by (auto simp: snoc union_step_def separated_snoc)
  next
    case False
    have "union_step merged x = merged @ [x]" using False by (simp add: snoc union_step_def)
    moreover have "list_all (\<lambda>z. snd z < fst x) merged"
      using False assms(1,2) by (fastforce simp: snoc separated_snoc list_all_iff)
    ultimately show ?thesis using assms by (auto simp: separated_snoc)
  qed
qed

lemma union_fold:
  assumes "sorted xs" "list_all (\<lambda>x. fst x \<le> snd x) xs" "separated merged" "list_all (\<lambda>x. list_all (\<lambda>y. fst y \<le> fst x) merged) xs"
  shows "separated (foldl union_step merged xs) \<and> points (foldl union_step merged xs) = points merged \<union> points xs"
  using assms
proof (induction xs arbitrary: merged)
  case (Cons x xs)
  note one = union_step_points [of merged x]
  have le: "fst x \<le> fst z" if "z \<in> set xs" for z
    using Cons.prems(1) that by (cases x; cases z) (auto simp: less_eq_prod_def)
  have "list_all (\<lambda>z. list_all (\<lambda>y. fst y \<le> fst z) (union_step merged x)) xs"
    using one Cons.prems le by (fastforce simp: list_all_iff)
  with Cons.IH [of "union_step merged x"] one Cons.prems show ?case by auto
qed simp

lemma interval_union:
  assumes "list_all (\<lambda>x. fst x \<le> snd x) xs"
  shows "separated (interval_union xs)" "points (interval_union xs) = points xs"
  using union_fold [of "sort xs" "[]"] assms points_cong [of "sort xs" xs]
  by (simp_all add: interval_union_def list_all_iff separated_def)

subsection \<open>Clipping and overlap\<close>

lemma clip_Cons:
  "interval_clip (x # xs) low high =
     (if low < snd x \<and> fst x < high then [(max (fst x) low, min (snd x) high)] else []) @ interval_clip xs low high"
  by (cases x) (simp add: interval_clip_def)

lemma clip_points: "points (interval_clip xs low high) = points xs \<inter> {low..<high}"
proof (induction xs)
  case (Cons x xs)
  have meet: "{max (fst x) low..<min (snd x) high} = {fst x..<snd x} \<inter> {low..<high}" by auto
  have none: "{fst x..<snd x} \<inter> {low..<high} = {}" if "\<not> (low < snd x \<and> fst x < high)" using that by auto
  have "points (interval_clip (x # xs) low high) = ({fst x..<snd x} \<inter> {low..<high}) \<union> points (interval_clip xs low high)"
  proof (cases "low < snd x \<and> fst x < high")
    case True
    then have "interval_clip (x # xs) low high = (max (fst x) low, min (snd x) high) # interval_clip xs low high" by (simp add: clip_Cons)
    then show ?thesis by (simp only: points_simps fst_conv snd_conv meet)
  next
    case False
    then have "interval_clip (x # xs) low high = interval_clip xs low high" by (auto simp: clip_Cons)
    then show ?thesis by (simp only: none [OF False] Un_empty_left)
  qed
  then show ?case unfolding Cons points_simps by blast
qed (simp add: interval_clip_def)

lemma clip_member: "y \<in> set (interval_clip xs low high) \<Longrightarrow> \<exists>z\<in>set xs. fst z \<le> fst y \<and> snd y \<le> snd z"
  by (clarsimp simp: interval_clip_def) (erule bexI [rotated], simp)

lemma clip_separated:
  assumes "low \<le> high"
  shows "separated xs \<Longrightarrow> separated (interval_clip xs low high)"
proof (induction xs)
  case (Cons x xs)
  have "min (snd x) high < fst y" if y: "y \<in> set (interval_clip xs low high)" for y
    using clip_member [OF y] Cons.prems by (fastforce simp: separated_Cons list_all_iff)
  then show ?case using Cons assms by (auto simp: clip_Cons separated_Cons list_all_iff)
qed (simp add: interval_clip_def separated_def)

lemma positive_part: "(if l < h then h - l else 0) = int (card {l..<h :: int})"
  by simp

lemma overlap_card:
  "separated as \<Longrightarrow> separated bs \<Longrightarrow> interval_overlap as bs = int (card (points as \<inter> points bs))"
proof (induction as bs rule: interval_overlap.induct)
  case (1 a as b bs)
  let ?m = "{max (fst a) (fst b)..<min (snd a) (snd b)}"
  have ab: "fst a \<le> snd a" "list_all (\<lambda>y. snd a < fst y) as" "separated as"
    "fst b \<le> snd b" "list_all (\<lambda>y. snd b < fst y) bs" "separated bs"
    using "1.prems" by (simp_all add: separated_Cons)
  have low: "(if min (snd a) (snd b) > max (fst a) (fst b) then min (snd a) (snd b) - max (fst a) (fst b) else 0) = int (card ?m)"
    by (rule positive_part)
  show ?case
  proof (cases "snd a < snd b")
    case True
    have split: "points (a # as) \<inter> points (b # bs) = ?m \<union> (points as \<inter> points (b # bs))"
      using True by (auto dest: points_after(2) [OF ab(2)] points_after(2) [OF ab(5)])
    have "?m \<inter> (points as \<inter> points (b # bs)) = {}" using points_after(2) [OF ab(2)] by fastforce
    then have "card (points (a # as) \<inter> points (b # bs)) = card ?m + card (points as \<inter> points (b # bs))"
      unfolding split by (intro card_Un_disjoint) auto
    then show ?thesis using "1.IH"(1) [OF refl refl True ab(3) "1.prems"(2)]
      by (simp only: interval_overlap.simps Let_def low if_P [OF True] of_nat_add)
  next
    case False
    have split: "points (a # as) \<inter> points (b # bs) = ?m \<union> (points (a # as) \<inter> points bs)"
      using False by (auto dest: points_after(2) [OF ab(2)] points_after(2) [OF ab(5)])
    have "?m \<inter> (points (a # as) \<inter> points bs) = {}" using points_after(2) [OF ab(5)] by fastforce
    then have "card (points (a # as) \<inter> points (b # bs)) = card ?m + card (points (a # as) \<inter> points bs)"
      unfolding split by (intro card_Un_disjoint) auto
    then show ?thesis using "1.IH"(2) [OF refl refl False "1.prems"(1) ab(6)]
      by (simp only: interval_overlap.simps Let_def low if_not_P [OF False] of_nat_add)
  qed
qed simp_all

section \<open>Uptime\<close>

lemma join_spans_ok:
  assumes "list_all span_ok sps" "\<And>a. fr = Some a \<Longrightarrow> a \<le> e"
  shows "list_all (\<lambda>x. fst x \<le> snd x) (join_spans sps fr e c)"
  using assms by (induction sps fr e c rule: join_spans.induct) (auto simp: span_ok_def max_def split: option.splits)

text \<open>
  When a connection was open, from the spans of the day alone: within one of its spans, or between
  two that follow each other in time when the earlier was not closed and the later did not begin by
  opening the connection again.
\<close>

abbreviation span_order :: "connection_span \<Rightarrow> int \<times> int" where
  "span_order sp \<equiv> (cs_start_wall_ns sp, cs_end_wall_ns sp)"

definition conn_spans :: "hour_bake list \<Rightarrow> int \<Rightarrow> connection_span list" where
  "conn_spans hours c = sort_key span_order (filter (\<lambda>sp. cs_conn_id sp = c) (all_spans hours))"

definition span_covers :: "connection_span \<Rightarrow> int \<Rightarrow> bool" where
  "span_covers sp t \<longleftrightarrow> cs_start_wall_ns sp \<le> t \<and> t < cs_end_wall_ns sp"

fun carried_over :: "connection_span list \<Rightarrow> int \<Rightarrow> bool" where
  "carried_over (a # b # sps) t \<longleftrightarrow>
     cs_start_wall_ns a \<le> t \<and> t < cs_start_wall_ns b \<and> \<not> cs_closed a \<and> \<not> cs_opened b \<or> carried_over (b # sps) t"
| "carried_over _ t \<longleftrightarrow> False"

definition open_at :: "hour_bake list \<Rightarrow> int \<Rightarrow> bool" where
  "open_at hours t \<longleftrightarrow> list_ex (\<lambda>sp. span_covers sp t) (all_spans hours) \<or>
     list_ex (\<lambda>sp. carried_over (conn_spans hours (cs_conn_id sp)) t) (all_spans hours)"

definition asleep_at :: "hour_bake list \<Rightarrow> int \<Rightarrow> bool" where
  "asleep_at hours t \<longleftrightarrow> list_ex (\<lambda>b. list_ex (\<lambda>(a, z). a \<le> t \<and> t < z) (hi_sleeps (hb_integrity b))) hours"

lemma grouped_spans:
  fixes d :: "(int, connection_span list) dict"
  assumes "(c, sps) \<in> set (fold (\<lambda>sp d. dict_put (cs_conn_id sp) (dict_get_or d (cs_conn_id sp) [] @ [sp]) d) xs d)"
  shows "set sps \<subseteq> set xs \<union> \<Union>(set ` snd ` set d)"
  using assms
proof (induction xs arbitrary: d)
  case (Cons x xs)
  have "\<Union>(set ` snd ` set (dict_put (cs_conn_id x) (dict_get_or d (cs_conn_id x) [] @ [x]) d)) \<subseteq> {x} \<union> \<Union>(set ` snd ` set d)"
  proof -
    have "set (dict_put k v d) \<subseteq> insert (k, v) (set d)" for k and v :: "connection_span list"
      by (induction d) auto
    moreover have "set (dict_get_or d k []) \<subseteq> \<Union>(set ` snd ` set d)" for k
      by (cases "dict_get d k") (force simp: dict_get_or_def dest: dict_get_SomeD)+
    ultimately show ?thesis by fastforce
  qed
  with Cons.IH [OF Cons.prems [unfolded fold_simps]] show ?case by auto
qed force

definition integrity_ok :: "hour_bake \<Rightarrow> bool" where
  "integrity_ok b \<longleftrightarrow> list_all span_ok (hi_spans (hb_integrity b)) \<and> list_all sleep_ok (hi_sleeps (hb_integrity b))"

lemma joined_spans_ok:
  assumes "list_all integrity_ok hours"
  shows "list_all (\<lambda>x. fst x \<le> snd x) (joined_spans hours)"
proof -
  have "list_all (\<lambda>x. fst x \<le> snd x) (join_spans (sort_key (\<lambda>sp. (cs_start_wall_ns sp, cs_end_wall_ns sp)) sps) None 0 True)"
    if "(c, sps) \<in> set (spans_by_conn hours)" for c sps
  proof (rule join_spans_ok)
    have "set sps \<subseteq> set (all_spans hours)" using grouped_spans [OF that [unfolded spans_by_conn_def]] by simp
    then show "list_all span_ok (sort_key (\<lambda>sp. (cs_start_wall_ns sp, cs_end_wall_ns sp)) sps)"
      using assms by (fastforce simp: list_all_iff all_spans_def integrity_ok_def)
  qed simp
  then show ?thesis by (fastforce simp: joined_spans_def list_all_iff)
qed

lemma join_begun:
  assumes "sorted (map cs_start_wall_ns (sp # sps))" "list_all span_ok (sp # sps)"
    "begun \<le> cs_start_wall_ns sp" "cs_end_wall_ns sp \<le> last_end"
  shows "t \<in> points (join_spans sps (Some begun) last_end (cs_closed sp)) \<longleftrightarrow>
    begun \<le> t \<and> t < last_end \<or> carried_over (sp # sps) t \<or> list_ex (\<lambda>s. span_covers s t) sps"
  using assms
proof (induction sps arbitrary: sp begun last_end)
  case Nil
  then show ?case by (simp add: points_def)
next
  case (Cons b sps)
  have ok: "cs_start_wall_ns sp \<le> cs_end_wall_ns sp" "cs_start_wall_ns b \<le> cs_end_wall_ns b" "cs_start_wall_ns sp \<le> cs_start_wall_ns b"
    using Cons.prems by (simp_all add: span_ok_def)
  show ?case
  proof (cases "\<not> cs_closed sp \<and> \<not> cs_opened b")
    case True
    then have "t \<in> points (join_spans (b # sps) (Some begun) last_end (cs_closed sp)) \<longleftrightarrow>
        begun \<le> t \<and> t < max last_end (cs_end_wall_ns b) \<or> carried_over (b # sps) t \<or> list_ex (\<lambda>s. span_covers s t) sps"
      using Cons.IH [of b begun "max last_end (cs_end_wall_ns b)"] Cons.prems by simp
    then show ?thesis using True ok Cons.prems(3,4) by (auto simp: span_covers_def)
  next
    case False
    then have "t \<in> points (join_spans (b # sps) (Some begun) last_end (cs_closed sp)) \<longleftrightarrow>
        begun \<le> t \<and> t < last_end \<or> t \<in> points (join_spans sps (Some (cs_start_wall_ns b)) (cs_end_wall_ns b) (cs_closed b))"
      by (auto simp: points_def)
    then show ?thesis using False Cons.IH [of b "cs_start_wall_ns b" "cs_end_wall_ns b"] Cons.prems by (auto simp: span_covers_def)
  qed
qed

lemma join_points:
  assumes "sorted (map cs_start_wall_ns sps)" "list_all span_ok sps"
  shows "t \<in> points (join_spans sps None 0 True) \<longleftrightarrow> carried_over sps t \<or> list_ex (\<lambda>s. span_covers s t) sps"
proof (cases sps)
  case (Cons sp sps')
  then show ?thesis using join_begun [of sp sps' "cs_start_wall_ns sp" "cs_end_wall_ns sp" t] assms by (auto simp: span_covers_def)
qed (simp add: points_def)

lemma grouped_by_conn:
  fixes d :: "(int, connection_span list) dict"
  shows "dict_get_or (fold (\<lambda>sp d. dict_put (cs_conn_id sp) (dict_get_or d (cs_conn_id sp) [] @ [sp]) d) xs d) c [] =
    dict_get_or d c [] @ filter (\<lambda>sp. cs_conn_id sp = c) xs"
  by (induction xs arbitrary: d) (auto simp: dict_get_or_def dict_simps)

lemma grouped_wf:
  fixes d :: "(int, connection_span list) dict"
  shows "dict_wf d \<Longrightarrow> dict_wf (fold (\<lambda>sp d. dict_put (cs_conn_id sp) (dict_get_or d (cs_conn_id sp) [] @ [sp]) d) xs d)"
  by (induction xs arbitrary: d) (simp_all add: dict_simps)

lemma grouped_member: "(c, sps) \<in> set (spans_by_conn hours) \<Longrightarrow> sps = filter (\<lambda>sp. cs_conn_id sp = c) (all_spans hours)"
proof -
  assume a: "(c, sps) \<in> set (spans_by_conn hours)"
  have "dict_wf (spans_by_conn hours)" unfolding spans_by_conn_def by (rule grouped_wf) (simp add: dict_wf_def)
  with a have "dict_get (spans_by_conn hours) c = Some sps" by (simp add: dict_mem_get)
  then show ?thesis using grouped_by_conn [of "all_spans hours" "[]" c]
    by (simp add: spans_by_conn_def dict_get_or_def)
qed

lemma grouped_exists:
  assumes "sp \<in> set (all_spans hours)"
  shows "(cs_conn_id sp, filter (\<lambda>s. cs_conn_id s = cs_conn_id sp) (all_spans hours)) \<in> set (spans_by_conn hours)"
proof -
  have g: "dict_get_or (spans_by_conn hours) (cs_conn_id sp) [] = filter (\<lambda>s. cs_conn_id s = cs_conn_id sp) (all_spans hours)"
    using grouped_by_conn [of "all_spans hours" "[]" "cs_conn_id sp"] by (simp add: spans_by_conn_def dict_get_or_def)
  moreover have "sp \<in> set (filter (\<lambda>s. cs_conn_id s = cs_conn_id sp) (all_spans hours))" using assms by simp
  ultimately have "dict_get (spans_by_conn hours) (cs_conn_id sp) = Some (filter (\<lambda>s. cs_conn_id s = cs_conn_id sp) (all_spans hours))"
    by (cases "dict_get (spans_by_conn hours) (cs_conn_id sp)") (auto simp: dict_get_or_def)
  then show ?thesis by (rule dict_get_SomeD)
qed

lemma sorted_starts: "sorted (map cs_start_wall_ns (sort_key span_order sps))"
proof -
  have "sorted (map fst (map span_order (sort_key span_order sps)))"
    by (rule sorted_map_mono [OF sorted_sort_key]) (auto simp: mono_on_def)
  then show ?thesis by (simp add: comp_def)
qed

lemma points_open:
  assumes "list_all integrity_ok hours"
  shows "points (joined_spans hours) = {t. open_at hours t}"
proof (rule set_eqI)
  fix t
  have ok: "list_all span_ok (sort_key span_order (filter (\<lambda>sp. cs_conn_id sp = c) (all_spans hours)))" for c
    using assms by (fastforce simp: list_all_iff all_spans_def integrity_ok_def)
  have "points (concat xss) = \<Union>(points ` set xss)" for xss by (auto simp: points_def)
  then have "t \<in> points (joined_spans hours) \<longleftrightarrow>
      (\<exists>(c, sps) \<in> set (spans_by_conn hours). t \<in> points (join_spans (sort_key span_order sps) None 0 True))"
    by (simp add: joined_spans_def split_beta image_image)
  also have "\<dots> \<longleftrightarrow> (\<exists>(c, sps) \<in> set (spans_by_conn hours). carried_over (conn_spans hours c) t \<or> list_ex (\<lambda>s. span_covers s t) (conn_spans hours c))"
    using join_points [OF sorted_starts ok] grouped_member by (fastforce simp: conn_spans_def)
  also have "\<dots> \<longleftrightarrow> open_at hours t"
  proof -
    have a: "\<exists>sp\<in>set (all_spans hours). cs_conn_id sp = c" if "(c, sps) \<in> set (spans_by_conn hours)"
        "carried_over (conn_spans hours c) t \<or> list_ex (\<lambda>s. span_covers s t) (conn_spans hours c)" for c sps
    proof (rule ccontr)
      assume "\<not> ?thesis"
      then have "conn_spans hours c = []" by (auto simp: conn_spans_def filter_empty_conv)
      with that show False by simp
    qed
    show ?thesis unfolding open_at_def list_ex_iff
      using grouped_exists a by (fastforce simp: conn_spans_def list_ex_iff)
  qed
  finally show "t \<in> points (joined_spans hours) \<longleftrightarrow> t \<in> {t. open_at hours t}" by simp
qed

lemma points_asleep: "points (concat (map (\<lambda>b. hi_sleeps (hb_integrity b)) hours)) = {t. asleep_at hours t}"
  by (force simp: points_def asleep_at_def list_ex_iff)

lemma uptime_measure:
  assumes "list_all integrity_ok hours"
  shows "up_seconds_recording (summarize_uptime dt hours) =
    int (card {t. start_wall_ns (HourKey dt 0) \<le> t \<and> t < start_wall_ns (HourKey dt 0) + SECONDS_PER_DAY * NS_PER_S \<and>
      open_at hours t \<and> \<not> asleep_at hours t}) div NS_PER_S"
proof -
  define low high where day: "low = start_wall_ns (HourKey dt 0)" "high = low + SECONDS_PER_DAY * NS_PER_S"
  define C where "C = interval_clip (interval_union (joined_spans hours)) low high"
  define A where "A = interval_union (concat (map (\<lambda>b. hi_sleeps (hb_integrity b)) hours))"
  note u = interval_union [OF joined_spans_ok [OF assms]]
  have sl: "list_all (\<lambda>x. fst x \<le> snd x) (concat (map (\<lambda>b. hi_sleeps (hb_integrity b)) hours))"
    using assms by (fastforce simp: list_all_iff integrity_ok_def sleep_ok_def)
  have "low \<le> high" by (simp add: day SECONDS_PER_DAY_def NS_PER_S_def)
  then have C: "separated C" "points C = {t. open_at hours t} \<inter> {low..<high}"
    using u clip_separated clip_points points_open [OF assms] by (simp_all add: C_def)
  have A: "separated A" "points A = {t. asleep_at hours t}" using interval_union [OF sl] points_asleep by (simp_all add: A_def)
  have "card (points C) = card (points C - points A) + card (points C \<inter> points A)"
    by (metis card_Diff_subset_Int card_mono Int_lower1 finite_Int finite_points le_add_diff_inverse2)
  then have "interval_length C - interval_overlap C A = int (card (points C - points A))"
    using length_card [OF C(1)] overlap_card [OF C(1) A(1)] by simp
  moreover have "points C - points A = {t. low \<le> t \<and> t < high \<and> open_at hours t \<and> \<not> asleep_at hours t}"
    unfolding C A by auto
  ultimately show ?thesis by (simp add: summarize_uptime_def Let_def C_def A_def day)
qed

text \<open>
  C15. Uptime is a measure: the seconds a day's manifest reports as recorded are the nanoseconds of
  the day in which some connection was open and the host was not asleep, in whole seconds, however
  the spans and sleeps of the day's hours overlap, repeat or reach beyond the day. A connection
  counts as open within its spans, and between two that follow each other when neither the earlier
  ends with its closing nor the later begins with its opening, so the time between a connection and
  its reopening does not count.
\<close>

theorem uptime_is_measure:
  assumes "list_all integrity_ok hours"
  shows "up_seconds_recording (summarize_uptime dt hours) =
    int (card {t. start_wall_ns (HourKey dt 0) \<le> t \<and> t < start_wall_ns (HourKey dt 0) + SECONDS_PER_DAY * NS_PER_S \<and>
      open_at hours t \<and> \<not> asleep_at hours t}) div NS_PER_S"
  using assms by (rule uptime_measure)

section \<open>What a change makes of a manifest\<close>

lemma else_error_None [simp]: "else_error a b = None \<longleftrightarrow> a = None \<and> b = None"
  by (simp add: else_error_def split: option.split)

lemma first_error_None: "first_error check xs = None \<longleftrightarrow> (\<forall>x\<in>set xs. check x = None)"
  by (induction xs) auto

lemma assembled_table_ok: "assembled_table parts = Inr \<lparr>te_rows = sum_list (map pt_rows (sort_key pt_path parts)), te_files = sort_key pt_path parts\<rparr>"
  by (simp add: assembled_table_def new_table_entry_def Let_def)

lemma result_list_Inr: "(\<And>x. x \<in> set xs \<Longrightarrow> f x = Inr (g x)) \<Longrightarrow> result_list f xs = Inr (map g xs)"
  by (induction xs) auto

lemma sorted_unique_iff: "sorted_unique xs \<longleftrightarrow> sorted xs \<and> distinct xs"
proof
  assume "sorted_unique xs"
  then have "xs = sort (remdups xs)" by (simp add: sorted_unique_def)
  then show "sorted xs \<and> distinct xs" by (metis distinct_remdups distinct_sort sorted_sort)
next
  assume "sorted xs \<and> distinct xs"
  then show "sorted_unique xs" by (simp add: sorted_unique_def distinct_remdups_id sorted_sort_id)
qed

lemma assemble_result:
  assumes "assemble dt v segments tables hours clock pruned = Inr m"
  shows "manifest_error m = None" "mf_date m = dt" "mf_software_version m = v" "mf_clock m = clock"
    "mf_segments m = sort_key se_path segments" "mf_hours m = sort_key hb_hour hours" "mf_pruned m = sort_key pr_path pruned"
    "mf_uptime m = summarize_uptime dt (mf_hours m)" "mf_gaps m = summarize_gaps (mf_hours m)" "mf_audits m = summarize_audits (mf_hours m)"
    "name \<in> set TABLE_NAMES \<Longrightarrow> table_files m name = sort_key pt_path (tables name)"
    "name \<notin> set TABLE_NAMES \<Longrightarrow> table_files m name = []"
    "sorted (map hb_hour (mf_hours m)) \<and> distinct (map hb_hour (mf_hours m))" "mf_version m = MANIFEST_VERSION"
    "mf_tables m = map (\<lambda>name. (name, \<lparr>te_rows = sum_list (map pt_rows (sort_key pt_path (tables name))), te_files = sort_key pt_path (tables name)\<rparr>)) TABLE_NAMES"
proof -
  define te where "te = (\<lambda>name. \<lparr>te_rows = sum_list (map pt_rows (sort_key pt_path (tables name))), te_files = sort_key pt_path (tables name)\<rparr>)"
  have tl: "result_list (\<lambda>name. result_bind (assembled_table (tables name)) (\<lambda>t. Inr (name, t))) TABLE_NAMES = Inr (map (\<lambda>name. (name, te name)) TABLE_NAMES)"
    by (rule result_list_Inr) (simp add: assembled_table_ok te_def)
  define m0 where "m0 = \<lparr>mf_version = MANIFEST_VERSION, mf_date = dt, mf_software_version = v,
            mf_segments = sort_key se_path segments, mf_tables = map (\<lambda>name. (name, te name)) TABLE_NAMES, mf_hours = sort_key hb_hour hours,
            mf_uptime = summarize_uptime dt (sort_key hb_hour hours), mf_gaps = summarize_gaps (sort_key hb_hour hours),
            mf_audits = summarize_audits (sort_key hb_hour hours), mf_clock = clock, mf_pruned = sort_key pr_path pruned\<rparr>"
  have "sorted_unique (map hb_hour (sort_key hb_hour hours)) \<and> manifest_error m0 = None \<and> m = m0"
    using assms by (simp add: assemble_def tl Let_def new_bake_section_def new_manifest_struct_def m0_def split: if_splits option.splits)
  then have ok: "sorted_unique (map hb_hour (sort_key hb_hour hours))" "manifest_error m0 = None" "m = m0" by blast+
  show "manifest_error m = None" "mf_date m = dt" "mf_software_version m = v" "mf_clock m = clock"
    "mf_segments m = sort_key se_path segments" "mf_hours m = sort_key hb_hour hours" "mf_pruned m = sort_key pr_path pruned"
    "mf_uptime m = summarize_uptime dt (mf_hours m)" "mf_gaps m = summarize_gaps (mf_hours m)" "mf_audits m = summarize_audits (mf_hours m)"
    "sorted (map hb_hour (mf_hours m)) \<and> distinct (map hb_hour (mf_hours m))" "mf_version m = MANIFEST_VERSION"
    "mf_tables m = map (\<lambda>name. (name, \<lparr>te_rows = sum_list (map pt_rows (sort_key pt_path (tables name))), te_files = sort_key pt_path (tables name)\<rparr>)) TABLE_NAMES"
    using ok by (simp_all add: m0_def sorted_unique_iff te_def)
  have mt: "mf_tables m = map (\<lambda>name. (name, te name)) TABLE_NAMES" using ok(3) by (simp add: m0_def)
  have tf: "te_files (te name) = sort_key pt_path (tables name)" for name by (simp add: te_def)
  have get: "dict_get (map (\<lambda>name. (name, te name)) ns) name = (if name \<in> set ns then Some (te name) else None)" for ns
    by (induction ns) auto
  show "name \<in> set TABLE_NAMES \<Longrightarrow> table_files m name = sort_key pt_path (tables name)" "name \<notin> set TABLE_NAMES \<Longrightarrow> table_files m name = []"
    using mt tf by (simp_all add: table_files_def get)
qed

text \<open>A consistent manifest.\<close>

definition consistent :: "manifest \<Rightarrow> bool" where
  "consistent m \<longleftrightarrow> manifest_error m = None \<and> sorted (map hb_hour (mf_hours m)) \<and> distinct (map hb_hour (mf_hours m))"

lemma consistent_parts:
  assumes "consistent m"
  shows "sorted (map se_path (mf_segments m))" "distinct (map se_path (mf_segments m))"
    "sorted (map pr_path (mf_pruned m))" "distinct (map pr_path (mf_pruned m))"
    "s \<in> set (mf_segments m) \<Longrightarrow> segment_hour (se_path s) = Inr (mf_date m, se_hour s)"
    "s \<in> set (mf_segments m) \<Longrightarrow> se_hour s \<in> hb_hour ` set (mf_hours m)"
    "p \<in> set (mf_pruned m) \<Longrightarrow> \<exists>s\<in>set (mf_segments m). se_path s = pr_path p \<and> se_bytes s = pr_bytes p \<and> se_sha256 s = pr_sha256 p"
    "name \<in> set TABLE_NAMES \<Longrightarrow> sorted (map pt_path (table_files m name)) \<and> distinct (map pt_path (table_files m name))"
    "distinct (map hb_hour (mf_hours m))"
    "name \<in> set TABLE_NAMES \<Longrightarrow> q \<in> set (table_files m name) \<Longrightarrow> check_part (mf_date m) (hb_hour ` set (mf_hours m)) name q = None"
proof -
  have ok: "check_sorted_unique ''segments'' (map se_path (mf_segments m)) = None"
    "\<And>s. s \<in> set (mf_segments m) \<Longrightarrow> check_segment (mf_date m) (hb_hour ` set (mf_hours m)) s = None"
    "\<And>name. name \<in> set TABLE_NAMES \<Longrightarrow> check_table (mf_date m) (hb_hour ` set (mf_hours m)) (name, table_files m name) = None"
    "check_sorted_unique ''pruned'' (map pr_path (mf_pruned m)) = None"
    "\<And>p. p \<in> set (mf_pruned m) \<Longrightarrow> check_pruned (map (\<lambda>s. (se_path s, s)) (rev (mf_segments m))) p = None"
    using assms by (auto simp: consistent_def manifest_error_def Let_def first_error_None split: if_splits)
  show "sorted (map se_path (mf_segments m))" "distinct (map se_path (mf_segments m))"
    "sorted (map pr_path (mf_pruned m))" "distinct (map pr_path (mf_pruned m))"
    using ok(1,4) by (auto simp: check_sorted_unique_def sorted_unique_iff split: if_splits)
  show "s \<in> set (mf_segments m) \<Longrightarrow> segment_hour (se_path s) = Inr (mf_date m, se_hour s)"
    "s \<in> set (mf_segments m) \<Longrightarrow> se_hour s \<in> hb_hour ` set (mf_hours m)"
    using ok(2) [of s] by (auto simp: check_segment_def split: sum.splits if_splits)
  show "p \<in> set (mf_pruned m) \<Longrightarrow> \<exists>s\<in>set (mf_segments m). se_path s = pr_path p \<and> se_bytes s = pr_bytes p \<and> se_sha256 s = pr_sha256 p"
    using ok(5) [of p] by (auto simp: check_pruned_def dest!: dict_get_SomeD split: option.splits if_splits) metis
  show "name \<in> set TABLE_NAMES \<Longrightarrow> sorted (map pt_path (table_files m name)) \<and> distinct (map pt_path (table_files m name))"
    using ok(3) [of name] by (auto simp: check_table_def check_sorted_unique_def sorted_unique_iff split: if_splits)
  show "name \<in> set TABLE_NAMES \<Longrightarrow> q \<in> set (table_files m name) \<Longrightarrow> check_part (mf_date m) (hb_hour ` set (mf_hours m)) name q = None"
    using ok(3) [of name] by (simp add: check_table_def first_error_None)
  show "distinct (map hb_hour (mf_hours m))" using assms by (simp add: consistent_def)
qed

lemma assemble_consistent: "assemble dt v segments tables hours clock pruned = Inr m \<Longrightarrow> consistent m"
  using assemble_result(1,13) by (simp add: consistent_def)

lemma any_of_hour_no: "any_of_hour hour ps = Inr False \<Longrightarrow> p \<in> set ps \<Longrightarrow> segment_hour (pr_path p) = Inr place \<Longrightarrow> snd place \<noteq> hour"
  by (induction ps) (auto simp: result_simps split: if_splits sum.splits)

lemma consistent_sorts:
  assumes "consistent m"
  shows "sort_key se_path (mf_segments m) = mf_segments m" "sort_key hb_hour (mf_hours m) = mf_hours m"
    "sort_key pr_path (mf_pruned m) = mf_pruned m"
    "name \<in> set TABLE_NAMES \<Longrightarrow> sort_key pt_path (table_files m name) = table_files m name"
  using consistent_parts(1,3,8) [OF assms] assms by (simp_all add: sort_key_id_if_sorted consistent_def)

lemma filter_sort_key_other:
  assumes "\<And>x. x \<in> set new \<Longrightarrow> \<not> P x" "\<And>x. P x \<Longrightarrow> Q x" "sort_key f xs = xs"
  shows "filter P (sort_key f (filter Q xs @ new)) = filter P xs"
proof -
  have "filter P (filter Q xs @ new) = filter P xs" using assms(1,2) by (auto simp: filter_empty_conv intro: filter_cong)
  then show ?thesis using assms(3) by (metis filter_sort)
qed

text \<open>What a manifest says of one hour.\<close>

definition hour_view :: "manifest \<Rightarrow> int \<Rightarrow> hour_bake list \<times> segment_entry list \<times> part_entry list" where
  "hour_view m hour = (filter (\<lambda>b. hb_hour b = hour) (mf_hours m), hour_segments m hour, hour_parts m hour)"

lemma hour_bake_view: "hour_view m hour = hour_view m' hour \<Longrightarrow> hour_bake_of m hour = hour_bake_of m' hour"
proof -
  have "find P xs = (case filter P xs of [] \<Rightarrow> None | x # _ \<Rightarrow> Some x)" for P and xs :: "hour_bake list"
    by (induction xs) auto
  then show "hour_view m hour = hour_view m' hour \<Longrightarrow> hour_bake_of m hour = hour_bake_of m' hour"
    by (simp add: hour_bake_of_def hour_view_def)
qed

lemma hour_parts_cong:
  assumes "\<And>name. name \<in> set TABLE_NAMES \<Longrightarrow> filter (\<lambda>p. pt_hour p = hour) (table_files m name) = filter (\<lambda>p. pt_hour p = hour) (table_files m' name)"
  shows "hour_parts m hour = hour_parts m' hour"
  unfolding hour_parts_def by (rule arg_cong [where f = concat], rule map_cong [OF refl]) (rule assms)

lemma with_hour_assembles:
  assumes "with_hour m bake segments parts v off = Inr m'"
  shows "assemble (mf_date m) v (filter (\<lambda>s. se_hour s \<noteq> hb_hour bake) (mf_segments m) @ segments)
                (\<lambda>name. filter (\<lambda>p. pt_hour p \<noteq> hb_hour bake) (table_files m name) @ dict_get_or parts name [])
                (filter (\<lambda>b. hb_hour b \<noteq> hb_hour bake) (mf_hours m) @ [bake])
                \<lparr>ck_chrony_offset_ms = off\<rparr> (mf_pruned m) = Inr m'"
  using assms by (auto simp: with_hour_def Let_def result_simps split: if_splits)

lemma with_hour_result:
  assumes w: "with_hour m bake segments parts v off = Inr m'" and c: "consistent m"
  shows "consistent m'" "mf_date m' = mf_date m" "mf_pruned m' = mf_pruned m"
    "p \<in> set (mf_pruned m) \<Longrightarrow> segment_hour (pr_path p) = Inr place \<Longrightarrow> snd place \<noteq> hb_hour bake"
    "hour \<noteq> hb_hour bake \<Longrightarrow> hour_view m' hour = hour_view m hour"
    "hour_view m' (hb_hour bake) = ([bake], sort_key se_path segments,
       concat (map (\<lambda>name. sort_key pt_path (dict_get_or parts name [])) TABLE_NAMES))"
proof -
  have no: "any_of_hour (hb_hour bake) (mf_pruned m) = Inr False"
    and own: "\<not> (list_ex (\<lambda>s. se_hour s \<noteq> hb_hour bake) segments \<or> list_ex (\<lambda>(_, files). list_ex (\<lambda>p. pt_hour p \<noteq> hb_hour bake) files) parts)"
    using w by (auto simp: with_hour_def Let_def result_simps split: if_splits)
  note asm = with_hour_assembles [OF w]
  note r = assemble_result [OF asm]
  note srt = consistent_sorts [OF c]
  have segs: "\<And>s. s \<in> set segments \<Longrightarrow> se_hour s = hb_hour bake" using own by (auto simp: list_ex_iff)
  have pts: "q \<in> set (dict_get_or parts name []) \<Longrightarrow> pt_hour q = hb_hour bake" for q name
    using own by (cases "dict_get parts name") (auto simp: list_ex_iff dict_get_or_def dest!: dict_get_SomeD)
  show "consistent m'" by (rule assemble_consistent [OF asm])
  show "mf_date m' = mf_date m" "mf_pruned m' = mf_pruned m" using r(2,7) srt(3) by simp_all
  show "p \<in> set (mf_pruned m) \<Longrightarrow> segment_hour (pr_path p) = Inr place \<Longrightarrow> snd place \<noteq> hb_hour bake"
    using any_of_hour_no [OF no] by blast
  show "hour_view m' hour = hour_view m hour" if "hour \<noteq> hb_hour bake"
  proof -
    have "filter (\<lambda>b. hb_hour b = hour) (mf_hours m') = filter (\<lambda>b. hb_hour b = hour) (mf_hours m)"
      unfolding r(6) using that srt(2) by (intro filter_sort_key_other) auto
    moreover have "hour_segments m' hour = hour_segments m hour"
      unfolding hour_segments_def r(5) using that srt(1) segs by (intro filter_sort_key_other) auto
    moreover have "hour_parts m' hour = hour_parts m hour"
    proof (rule hour_parts_cong)
      fix name assume n: "name \<in> set TABLE_NAMES"
      show "filter (\<lambda>p. pt_hour p = hour) (table_files m' name) = filter (\<lambda>p. pt_hour p = hour) (table_files m name)"
        unfolding r(11) [OF n] using that srt(4) [OF n] pts [of _ name] by (intro filter_sort_key_other) auto
    qed
    ultimately show ?thesis by (simp add: hour_view_def)
  qed
  have own_only: "filter P (sort_key f (filter (\<lambda>x. \<not> P x) xs @ new)) = sort_key f new" if "\<And>x. x \<in> set new \<Longrightarrow> P x" for P and f :: "'y \<Rightarrow> 'k::linorder" and xs new
  proof -
    have "filter P (filter (\<lambda>x. \<not> P x) xs @ new) = new" using that by (simp add: filter_id_conv)
    then show ?thesis by (simp only: filter_sort)
  qed
  show "hour_view m' (hb_hour bake) = ([bake], sort_key se_path segments,
       concat (map (\<lambda>name. sort_key pt_path (dict_get_or parts name [])) TABLE_NAMES))"
  proof -
    have "filter (\<lambda>b. hb_hour b = hb_hour bake) (mf_hours m') = [bake]"
      unfolding r(6) using own_only [of "[bake]" "\<lambda>b. hb_hour b = hb_hour bake"] by simp
    moreover have "hour_segments m' (hb_hour bake) = sort_key se_path segments"
      unfolding hour_segments_def r(5) using segs by (rule own_only)
    moreover have "hour_parts m' (hb_hour bake) = concat (map (\<lambda>name. sort_key pt_path (dict_get_or parts name [])) TABLE_NAMES)"
      unfolding hour_parts_def
    proof (rule arg_cong [where f = concat], rule map_cong [OF refl])
      fix name assume n: "name \<in> set TABLE_NAMES"
      show "filter (\<lambda>p. pt_hour p = hb_hour bake) (table_files m' name) = sort_key pt_path (dict_get_or parts name [])"
        unfolding r(11) [OF n] using pts by (rule own_only)
    qed
    ultimately show ?thesis by (simp add: hour_view_def)
  qed
qed

lemma find_append: "find P (xs @ ys) = (case find P xs of Some x \<Rightarrow> Some x | None \<Rightarrow> find P ys)"
  by (induction xs) auto

lemma find_SomeD: "find P xs = Some x \<Longrightarrow> x \<in> set xs \<and> P x"
  by (induction xs) (auto split: if_splits)

lemma find_distinct: "distinct (map f xs) \<Longrightarrow> x \<in> set xs \<Longrightarrow> find (\<lambda>y. f y = f x) xs = Some x"
  by (induction xs) force+

lemma put_recorded_get:
  "dict_get (fold put_recorded ps d) k = (case find (\<lambda>p. pr_path p = k) (rev ps) of Some p \<Rightarrow> Some p | None \<Rightarrow> dict_get d k)"
  by (induction ps arbitrary: d) (auto simp: put_recorded_def dict_simps find_append split: option.splits)

lemma put_recorded_wf: "dict_wf d \<Longrightarrow> dict_wf (fold put_recorded ps d)"
  by (induction ps arbitrary: d) (simp_all add: put_recorded_def)

lemma set_default_get:
  "dict_get (fold set_default ps d) k = (case dict_get d k of Some v \<Rightarrow> Some v | None \<Rightarrow> find (\<lambda>p. pr_path p = k) ps)"
  by (induction ps arbitrary: d) (auto simp: set_default_def dict_simps split: option.splits)

lemma set_default_wf: "dict_wf d \<Longrightarrow> dict_wf (fold set_default ps d)"
  by (induction ps arbitrary: d) (simp_all add: set_default_def)

lemma with_pruned_result:
  assumes w: "with_pruned m ps = Inr m'" and c: "consistent m"
  shows "consistent m'" "mf_date m' = mf_date m" "set (mf_pruned m) \<subseteq> set (mf_pruned m')"
    "set (mf_pruned m') \<subseteq> set (mf_pruned m) \<union> set ps" "pr_path ` set ps \<subseteq> pr_path ` set (mf_pruned m')"
    "hour_view m' hour = hour_view m hour" "mf_segments m' = mf_segments m" "mf_hours m' = mf_hours m"
proof -
  let ?rec = "fold put_recorded (mf_pruned m) []"
  let ?all = "fold set_default ps ?rec"
  have asm: "assemble (mf_date m) (mf_software_version m) (mf_segments m) (table_files m) (mf_hours m) (mf_clock m) (map snd ?all) = Inr m'"
    using w by (simp add: with_pruned_def Let_def)
  note r = assemble_result [OF asm] and srt = consistent_sorts [OF c]
  have wf: "dict_wf ?all" by (simp add: set_default_wf put_recorded_wf)
  have get: "dict_get ?all k = (case find (\<lambda>p. pr_path p = k) (rev (mf_pruned m)) of Some v \<Rightarrow> Some v | None \<Rightarrow> find (\<lambda>p. pr_path p = k) ps)" for k
    by (simp add: set_default_get put_recorded_get split: option.split)
  have members: "v \<in> set (mf_pruned m') \<longleftrightarrow> (\<exists>k. dict_get ?all k = Some v)" for v
    using wf unfolding r(7) by (force simp: dict_mem_get [symmetric])
  show "consistent m'" by (rule assemble_consistent [OF asm])
  show "mf_date m' = mf_date m" by (rule r(2))
  show "set (mf_pruned m) \<subseteq> set (mf_pruned m')"
  proof
    fix p assume "p \<in> set (mf_pruned m)"
    then have "find (\<lambda>q. pr_path q = pr_path p) (rev (mf_pruned m)) = Some p"
      using consistent_parts(4) [OF c] by (intro find_distinct) (simp_all add: rev_map [symmetric])
    then have "dict_get ?all (pr_path p) = Some p" by (simp add: get)
    then show "p \<in> set (mf_pruned m')" using members by blast
  qed
  show "set (mf_pruned m') \<subseteq> set (mf_pruned m) \<union> set ps"
  proof
    fix v assume "v \<in> set (mf_pruned m')"
    then obtain k where "dict_get ?all k = Some v" using members by blast
    then show "v \<in> set (mf_pruned m) \<union> set ps" unfolding get by (auto dest: find_SomeD split: option.splits)
  qed
  show "pr_path ` set ps \<subseteq> pr_path ` set (mf_pruned m')"
  proof
    fix k assume "k \<in> pr_path ` set ps"
    then have "find (\<lambda>p. pr_path p = k) ps \<noteq> None" by (auto simp: find_None_iff)
    then have "dict_get ?all k \<noteq> None" unfolding get by (simp split: option.split)
    then obtain v where v: "dict_get ?all k = Some v" by blast
    then have "pr_path v = k" unfolding get by (auto dest: find_SomeD split: option.splits)
    then show "k \<in> pr_path ` set (mf_pruned m')" using v members by blast
  qed
  show same: "mf_segments m' = mf_segments m" "mf_hours m' = mf_hours m" using r(5,6) srt by simp_all
  have "hour_parts m' hour = hour_parts m hour" by (rule hour_parts_cong) (simp add: r(11) srt(4))
  then show "hour_view m' hour = hour_view m hour" using same by (simp add: hour_view_def hour_segments_def)
qed

section \<open>A day's manifests\<close>

text \<open>What follows a manifest by bakes of hours and prunes of segments.\<close>

inductive later :: "manifest \<Rightarrow> manifest \<Rightarrow> bool" for m where
  same: "later m m"
| baked: "later m m1 \<Longrightarrow> with_hour m1 bake segments parts v off = Inr m2 \<Longrightarrow> later m m2"
| pruned: "later m m1 \<Longrightarrow> with_pruned m1 ps = Inr m2 \<Longrightarrow> later m m2"

lemma later_consistent: "later m m' \<Longrightarrow> consistent m \<Longrightarrow> consistent m' \<and> mf_date m' = mf_date m"
  by (induction rule: later.induct) (auto simp: with_hour_result with_pruned_result)

lemma pruned_place:
  assumes "consistent m" "p \<in> set (mf_pruned m)"
  shows "\<exists>h. segment_hour (pr_path p) = Inr (mf_date m, h)"
  using consistent_parts(5,7) [OF assms(1)] assms(2) by metis

definition derived :: "manifest \<Rightarrow> bool" where
  "derived m \<longleftrightarrow> mf_uptime m = summarize_uptime (mf_date m) (mf_hours m) \<and> mf_gaps m = summarize_gaps (mf_hours m) \<and>
     mf_audits m = summarize_audits (mf_hours m)"

lemma assemble_derived: "assemble dt v segments tables hours clock pruned = Inr m \<Longrightarrow> derived m"
  using assemble_result(2,8,9,10) by (simp add: derived_def)

lemma with_hour_derived: "with_hour m bake segments parts v off = Inr m' \<Longrightarrow> derived m'"
  by (auto simp: with_hour_def Let_def result_simps intro: assemble_derived split: if_splits)

lemma with_pruned_derived: "with_pruned m ps = Inr m' \<Longrightarrow> derived m'"
  by (auto simp: with_pruned_def Let_def intro: assemble_derived)

lemma later_derived: "later m m' \<Longrightarrow> derived m \<Longrightarrow> derived m'"
  by (induction rule: later.induct) (auto intro: with_hour_derived with_pruned_derived)

lemma later_pruned:
  assumes "later m m'" "consistent m" "p \<in> set (mf_pruned m)" "segment_hour (pr_path p) = Inr (mf_date m, h)"
  shows "p \<in> set (mf_pruned m') \<and> hour_view m' h = hour_view m h"
  using assms(1)
proof (induction rule: later.induct)
  case same
  then show ?case using assms(3) by simp
next
  case (baked m1 bake segments parts v off m2)
  have c: "consistent m1" using later_consistent [OF baked.hyps(1) assms(2)] by blast
  note r = with_hour_result [OF baked.hyps(2) c]
  have "h \<noteq> hb_hour bake" using r(4) [OF _ assms(4)] baked.IH by simp
  then show ?case using r(3,5) baked.IH by simp
next
  case (pruned m1 ps m2)
  have c: "consistent m1" using later_consistent [OF pruned.hyps(1) assms(2)] by blast
  show ?case using with_pruned_result(3,6) [OF pruned.hyps(2) c] pruned.IH by auto
qed

text \<open>
  C13. A day's manifest stays sound and a pruned hour is settled. Whatever bakes and prunes follow,
  a manifest that began with nothing baked passes every check of its struct, and its integrity
  numbers are those of its hours. And once a segment is recorded as pruned, it stays recorded, and
  what the manifest says of its hour never changes again: the bake, the segments with their sizes
  and hashes, and the part files.
\<close>

theorem pruned_hour_is_settled:
  assumes "new_manifest dt v = Inr m0" "later m0 m" "later m m'"
  shows "manifest_error m' = None \<and> mf_date m' = dt \<and> derived m' \<and>
    list_all (\<lambda>p. p \<in> set (mf_pruned m') \<and>
       (\<exists>h. segment_hour (pr_path p) = Inr (dt, h) \<and> hour_bake_of m' h = hour_bake_of m h \<and>
          hour_segments m' h = hour_segments m h \<and> hour_parts m' h = hour_parts m h)) (mf_pruned m)"
proof -
  have c0: "consistent m0" "mf_date m0 = dt" "derived m0"
    using assms(1) assemble_consistent assemble_result(2) assemble_derived by (auto simp: new_manifest_def)
  have c: "consistent m" "mf_date m = dt" "derived m" using later_consistent [OF assms(2) c0(1)] c0 later_derived [OF assms(2)] by auto
  have c': "consistent m'" "mf_date m' = dt" "derived m'" using later_consistent [OF assms(3) c(1)] c later_derived [OF assms(3)] by auto
  have "p \<in> set (mf_pruned m') \<and> (\<exists>h. segment_hour (pr_path p) = Inr (dt, h) \<and> hour_bake_of m' h = hour_bake_of m h \<and>
          hour_segments m' h = hour_segments m h \<and> hour_parts m' h = hour_parts m h)" if p: "p \<in> set (mf_pruned m)" for p
  proof -
    obtain h where s: "segment_hour (pr_path p) = Inr (mf_date m, h)" using pruned_place [OF c(1) p] by blast
    have v: "p \<in> set (mf_pruned m')" "hour_view m' h = hour_view m h"
      using later_pruned [OF assms(3) c(1) p s] by blast+
    have "hour_segments m' h = hour_segments m h" "hour_parts m' h = hour_parts m h"
      using v(2) by (simp_all add: hour_view_def)
    then show ?thesis using s c(2) v hour_bake_view [OF v(2)] by blast
  qed
  then show ?thesis using c' by (simp add: consistent_def list_all_iff)
qed

section \<open>Examples\<close>

definition span_at :: "int \<Rightarrow> int \<Rightarrow> int \<Rightarrow> bool \<Rightarrow> bool \<Rightarrow> connection_span" where
  "span_at c a b begins ends =
     \<lparr>cs_conn_id = c, cs_start_wall_ns = a * NS_PER_S, cs_end_wall_ns = b * NS_PER_S, cs_opened = begins, cs_closed = ends\<rparr>"

definition bake_with :: "int \<Rightarrow> connection_span list \<Rightarrow> (int \<times> int) list \<Rightarrow> hour_bake" where
  "bake_with hour spans sleeps =
     \<lparr>hb_hour = hour, hb_bake_version = 1, hb_software_version = ''1.0'',
      hb_accounting = \<lparr>ra_records = [(''frame'', 2)], ra_baked = [(''trade'', 2)], ra_not_baked = [], ra_decode_failures = [], ra_corrupt_segments = 0\<rparr>,
      hb_integrity = \<lparr>hi_spans = spans, hi_sleeps = map (\<lambda>(a, b). (a * NS_PER_S, b * NS_PER_S)) sleeps,
        hi_gaps = \<lparr>gf_count = 0, gf_stale_market_ns = 0, gf_observed_market_ns = 0\<rparr>,
        hi_audits = \<lparr>af_exact = 0, af_consistent = 0, af_inconsistent = 0, af_undecidable = 0, af_levels_mismatched = 0\<rparr>,
        hi_writer_overflow_dropped = 0\<rparr>\<rparr>"

text \<open>
  Connection 0 is open from 10 to 20 and, not closed, continues from 25 to 40; connection 1 overlaps
  it from 35 to 60, and the host sleeps from 38 to 50: 38 seconds of the first minute are recorded.
\<close>

definition example_hours :: "hour_bake list" where
  "example_hours =
     [bake_with 0 [span_at 0 10 20 True False, span_at 1 35 60 True True] [(38, 50)], bake_with 1 [span_at 0 25 40 False False] []]"

lemma epoch_start: "start_wall_ns (HourKey (1970, 1, 1) 0) = 0"
  by (simp add: start_wall_ns_def EPOCH_def)

lemma example_instants:
  "(let covered = interval_clip (interval_union (joined_spans example_hours)) 0 (SECONDS_PER_DAY * NS_PER_S);
        asleep = interval_union (concat (map (\<lambda>b. hi_sleeps (hb_integrity b)) example_hours))
    in (interval_length covered - interval_overlap covered asleep) div NS_PER_S) = 38"
  by code_simp

lemma example_uptime: "up_seconds_recording (summarize_uptime (1970, 1, 1) example_hours) = 38"
  using example_instants unfolding summarize_uptime_def epoch_start Let_def by simp

theorem uptime_is_measure_witness:
  "int (card {t. start_wall_ns (HourKey (1970, 1, 1) 0) \<le> t \<and> t < start_wall_ns (HourKey (1970, 1, 1) 0) + SECONDS_PER_DAY * NS_PER_S \<and>
      open_at example_hours t \<and> \<not> asleep_at example_hours t}) div NS_PER_S = 38"
proof -
  have "list_all integrity_ok example_hours" by code_simp
  from uptime_is_measure [OF this, of "(1970, 1, 1)"] example_uptime show ?thesis by simp
qed

definition example_digest :: string where "example_digest = replicate 64 (CHR ''a'')"

definition example_segment :: "string \<Rightarrow> int \<Rightarrow> segment_entry" where
  "example_segment name hour =
     \<lparr>se_path = name, se_hour = hour, se_bytes = 7, se_sha256 = example_digest, se_records = 2,
      se_first_recv_wall_ns = Some 1, se_last_recv_wall_ns = Some 2, se_truncated = False\<rparr>"

definition example_pruned :: pruned_segment where
  "example_pruned = \<lparr>pr_path = ''2026-09-11/01/conn-00-a.tape.zst'', pr_bytes = 7, pr_sha256 = example_digest, pr_pruned_wall_ns = 5\<rparr>"

definition example_day :: "manifest_error + manifest \<times> manifest \<times> manifest" where
  "example_day =
     result_bind (new_manifest (2026, 9, 11) ''1.0'') (\<lambda>m0.
     result_bind (with_hour m0 (bake_with 1 [] []) [example_segment (pr_path example_pruned) 1] [] ''1.0'' None) (\<lambda>m1.
     result_bind (with_pruned m1 [example_pruned]) (\<lambda>m.
     result_bind (with_hour m (bake_with 2 [] []) [example_segment ''2026-09-11/02/conn-00-b.tape.zst'' 2] [] ''1.0'' None) (\<lambda>m'.
     Inr (m0, m, m')))))"

definition example_day_ok :: bool where
  "example_day_ok = (case example_day of Inl _ \<Rightarrow> False | Inr (m0, m, m') \<Rightarrow> mf_pruned m = [example_pruned] \<and> length (mf_segments m') = 2)"

lemma example_names:
  "segment_hour ''2026-09-11/01/conn-00-a.tape.zst'' = Inr ((2026, 9, 11), 1)"
  "segment_hour ''2026-09-11/02/conn-00-b.tape.zst'' = Inr ((2026, 9, 11), 2)"
  by (simp_all add: segment_hour_def is_segment_name_def is_date_text_def is_digit_def digit_val_def is_hour_text_def
      SEGMENT_SUFFIX_def ends_with_def segment_char_def fromisoformat_def digits_value_def digits_to_nat_def
      valid_date_def days_in_month_def month_days_def)

lemma example_day_ok: example_day_ok
  by (simp add: example_day_ok_def example_day_def new_manifest_def with_hour_def with_pruned_def assemble_def assembled_table_ok
      TABLE_NAMES_def new_bake_section_def sorted_unique_def new_manifest_struct_def manifest_error_def else_error_def
      check_sorted_unique_def check_table_def check_segment_def check_pruned_def example_segment_def example_pruned_def
      table_files_def bake_with_def example_names put_recorded_def set_default_def dict_get_or_def Let_def)

theorem pruned_hour_is_settled_witness:
  "\<exists>m0 m m'. example_day = Inr (m0, m, m') \<and> derived m' \<and> example_pruned \<in> set (mf_pruned m') \<and> hour_bake_of m' 1 = hour_bake_of m 1"
proof -
  obtain m0 m m' where e: "example_day = Inr (m0, m, m')" "mf_pruned m = [example_pruned]"
    using example_day_ok by (auto simp: example_day_ok_def split: sum.splits)
  obtain m1 where n: "new_manifest (2026, 9, 11) ''1.0'' = Inr m0" and steps:
      "with_hour m0 (bake_with 1 [] []) [example_segment (pr_path example_pruned) 1] [] ''1.0'' None = Inr m1"
      "with_pruned m1 [example_pruned] = Inr m"
      "with_hour m (bake_with 2 [] []) [example_segment ''2026-09-11/02/conn-00-b.tape.zst'' 2] [] ''1.0'' None = Inr m'"
    using e(1) by (auto simp: example_day_def result_simps)
  have "later m0 m1" by (rule later.baked [OF later.same steps(1)])
  then have l: "later m0 m" "later m m'" using later.pruned [OF _ steps(2)] later.baked [OF later.same steps(3)] by blast+
  have h: "segment_hour (pr_path example_pruned) = Inr ((2026, 9, 11), 1)" by (simp add: example_pruned_def example_names)
  from pruned_hour_is_settled [OF n l] e h show ?thesis by auto
qed

section \<open>A changed manifest decodes\<close>

lemma sum_nonneg: "list_all (\<lambda>x. 0 \<le> f x) xs \<Longrightarrow> 0 \<le> sum_list (map f xs :: int list)"
  by (induction xs) auto

lemma over_hours_nonneg: "(\<And>b. b \<in> set hours \<Longrightarrow> 0 \<le> f (hb_integrity b)) \<Longrightarrow> 0 \<le> over_hours f hours"
  unfolding over_hours_def by (rule sum_nonneg) (simp add: list_all_iff)

lemma summaries_nonneg:
  assumes "list_all bake_decodes (mf_hours m)" "derived m"
  shows "summaries_decode m"
proof -
  have i: "integrity_decodes (hb_integrity b)" if "b \<in> set (mf_hours m)" for b
    using assms(1) that by (simp add: list_all_iff bake_decodes_def)
  have nn: "0 \<le> over_hours (gf_count \<circ> hi_gaps) (mf_hours m)" "0 \<le> over_hours (gf_stale_market_ns \<circ> hi_gaps) (mf_hours m)"
    "0 \<le> over_hours (gf_observed_market_ns \<circ> hi_gaps) (mf_hours m)" "0 \<le> over_hours (af_exact \<circ> hi_audits) (mf_hours m)"
    "0 \<le> over_hours (af_consistent \<circ> hi_audits) (mf_hours m)" "0 \<le> over_hours (af_inconsistent \<circ> hi_audits) (mf_hours m)"
    "0 \<le> over_hours (af_undecidable \<circ> hi_audits) (mf_hours m)" "0 \<le> over_hours (af_levels_mismatched \<circ> hi_audits) (mf_hours m)"
    using i by (auto intro!: over_hours_nonneg simp: integrity_decodes_def NonNegative_def)
  have "list_all integrity_ok (mf_hours m)" using i by (auto simp: list_all_iff integrity_decodes_def integrity_ok_def)
  from uptime_measure [OF this] have "0 \<le> up_seconds_recording (mf_uptime m)"
    using assms(2) by (simp add: derived_def NS_PER_S_def)
  moreover have "up_ratio (summarize_uptime dt hours) = (up_seconds_recording (summarize_uptime dt hours), SECONDS_PER_DAY)"
    "up_seconds_in_day (summarize_uptime dt hours) = SECONDS_PER_DAY" for dt hours
    by (simp_all add: summarize_uptime_def Let_def)
  ultimately show ?thesis using assms(2) nn
    by (simp add: derived_def summaries_decode_def NonNegative_def ratio_ok_def summarize_gaps_def summarize_audits_def
        Let_def SECONDS_PER_DAY_def NS_PER_S_def pos_imp_zdiv_nonneg_iff)
qed

lemma decodes_consistent: "decodes m \<Longrightarrow> consistent m"
  by (simp add: decodes_def consistent_def sorted_unique_iff)

lemma table_files_decode:
  assumes "decodes m"
  shows "list_all part_decodes (table_files m name)"
proof (cases "dict_get (mf_tables m) name")
  case (Some t)
  then have "table_decodes t" using assms by (force simp: decodes_def list_all_iff dest: dict_get_SomeD)
  then show ?thesis using Some by (simp add: table_files_def table_decodes_def)
qed (simp add: table_files_def)

lemma assembled_table_decodes:
  assumes "list_all part_decodes parts"
  shows "table_decodes \<lparr>te_rows = sum_list (map pt_rows (sort_key pt_path parts)), te_files = sort_key pt_path parts\<rparr>"
proof -
  have "0 \<le> sum_list (map pt_rows (sort_key pt_path parts))"
    using assms by (intro sum_nonneg) (simp add: list_all_iff part_decodes_def NonNegative_def)
  then show ?thesis using assms by (simp add: table_decodes_def NonNegative_def list_all_iff)
qed

lemma assemble_decodes:
  assumes asm: "assemble dt v segments tables hours clock pruned = Inr m"
    and "valid_date dt" "list_all segment_decodes segments" "\<And>name. list_all part_decodes (tables name)"
      "list_all bake_decodes hours" "list_all pruned_decodes pruned"
  shows "decodes m"
proof -
  note r = assemble_result [OF asm]
  have "list_all bake_decodes (mf_hours m)" using assms(5) r(6) by (simp add: list_all_iff)
  moreover from this have "summaries_decode m" using assemble_derived [OF asm] by (rule summaries_nonneg)
  moreover have "list_all (\<lambda>(_, t). table_decodes t) (mf_tables m)"
    unfolding r(15) using assms(4) assembled_table_decodes by (auto simp: list_all_iff)
  ultimately show ?thesis using r assms by (simp add: decodes_def sorted_unique_iff list_all_iff)
qed

lemma with_pruned_decodes:
  assumes w: "with_pruned m ps = Inr m'" and d: "decodes m"
    and ps: "\<And>p. p \<in> set ps \<Longrightarrow> NonNegative (pr_bytes p) \<and> Sha256 (pr_sha256 p)"
  shows "decodes m'"
proof -
  note r = with_pruned_result [OF w decodes_consistent [OF d]]
  have "is_segment_name (pr_path p)" if "p \<in> set (mf_pruned m')" for p
    using consistent_parts(7) [OF r(1) that] r(7) d by (metis decodes_def list_all_iff segment_decodes_def)
  then have "list_all pruned_decodes (mf_pruned m')"
    using r(4) ps d by (force simp: list_all_iff pruned_decodes_def decodes_def)
  let ?all = "map snd (fold set_default ps (fold put_recorded (mf_pruned m) []))"
  have asm: "assemble (mf_date m) (mf_software_version m) (mf_segments m) (table_files m) (mf_hours m) (mf_clock m) ?all = Inr m'"
    using w by (simp add: with_pruned_def Let_def)
  have "set ?all = set (mf_pruned m')" using assemble_result(7) [OF asm] by simp
  then show ?thesis using \<open>list_all pruned_decodes (mf_pruned m')\<close> d table_files_decode [OF d]
    by (intro assemble_decodes [OF asm]) (simp_all add: decodes_def list_all_iff)
qed

lemma hour_parts_distinct:
  assumes "consistent m"
  shows "distinct (map pt_path (hour_parts m h))"
proof -
  define fs where "fs = (\<lambda>name. filter (\<lambda>p. pt_hour p = h) (table_files m name))"
  have table: "takeWhile (\<lambda>c. c \<noteq> CHR ''/'') (pt_path p) = name" if "name \<in> set TABLE_NAMES" "p \<in> set (fs name)" for name p
  proof -
    define prefix where "prefix = name @ ''/dt='' @ date_isoformat (mf_date m) @ ''/hour='' @ two_digits (pt_hour p) @ ''/''"
    have "check_part (mf_date m) (hb_hour ` set (mf_hours m)) name p = None"
      using consistent_parts(10) [OF assms that(1)] that(2) by (simp add: fs_def)
    then have "take (length prefix) (pt_path p) = prefix" by (simp add: check_part_def Let_def prefix_def split: if_splits)
    then obtain rest where "pt_path p = prefix @ rest" by (metis append_take_drop_id)
    moreover have "takeWhile (\<lambda>c. c \<noteq> CHR ''/'') name = name" "dropWhile (\<lambda>c. c \<noteq> CHR ''/'') name = []"
      using that(1) by (auto simp: TABLE_NAMES_def)
    then have "\<forall>c\<in>set name. c \<noteq> CHR ''/''" by simp
    ultimately show ?thesis by (simp add: prefix_def takeWhile_append)
  qed
  have inj: "distinct (map pt_path (fs name))" if "name \<in> set TABLE_NAMES" for name
    using consistent_parts(8) [OF assms that] by (simp add: fs_def distinct_map_filter)
  have "distinct (map pt_path (concat (map fs ns)))" if "set ns \<subseteq> set TABLE_NAMES" "distinct ns" for ns
    using that
  proof (induction ns)
    case (Cons n ns)
    have "pt_path ` set (fs n) \<inter> pt_path ` set (concat (map fs ns)) = {}"
    proof (rule ccontr)
      assume "\<not> ?thesis"
      then obtain p q n' where "p \<in> set (fs n)" "n' \<in> set ns" "q \<in> set (fs n')" "pt_path p = pt_path q" by auto
      then show False using table [of n p] table [of n' q] Cons.prems by auto
    qed
    then show ?case using Cons inj [of n] by simp
  qed simp
  from this [of TABLE_NAMES] show ?thesis by (simp add: hour_parts_def fs_def [symmetric] TABLE_NAMES_def)
qed

end
