(* ===== verification/Prune.thy ===== *)
theory Prune
  imports Manifest
begin

text \<open>
  \<^verbatim>\<open>tape/bake/prune.py\<close>: which hours of raw segments may be deleted, and their deletion. The archive on
  disk is the tree of raw segments, the directories of part files and the manifests; a deletion is
  the sequence of its writes to disk, so a crash is a prefix of them. A manifest is written whole
  (\<^verbatim>\<open>files.write_atomic\<close>). The JSON codec and the hash are parameters.
\<close>

section \<open>The archive on disk\<close>

record 'b codec =
  cd_encode :: "manifest \<Rightarrow> 'b"
  cd_decode :: "'b \<Rightarrow> manifest option"
  cd_sha256 :: "string \<Rightarrow> string"

record 'b archive =
  ar_raw :: raw_tree
  ar_baked :: "(string, (string, string) dict) dict"
  ar_manifests :: "(date, 'b) dict"

datatype archive_error =
    ManifestCorrupt date | NoManifest date | SegmentUnverified string | PruneRejected date manifest_error
  | HasPrunedSegments hour_key | RejectedBake hour_key manifest_error | SegmentChangedWhileRead string | BadSegmentName string
  | RecordRaised string | TablesRefused | HourNotClosed hour_key | GraceNegative | ArchiveHeld

definition read_manifest :: "('b, 'z) codec_scheme \<Rightarrow> ('b, 'y) archive_scheme \<Rightarrow> date \<Rightarrow> archive_error + manifest option" where
  "read_manifest cd ar dt =
     (case dict_get (ar_manifests ar) dt of
        None \<Rightarrow> Inr None
      | Some b \<Rightarrow> (case cd_decode cd b of None \<Rightarrow> Inl (ManifestCorrupt dt) | Some m \<Rightarrow> Inr (Some m)))"

definition dir_of :: "string \<Rightarrow> string" where
  "dir_of path = rev (tl (dropWhile (\<lambda>c. c \<noteq> CHR ''/'') (rev path)))"

definition file_of :: "string \<Rightarrow> string" where
  "file_of path = rev (takeWhile (\<lambda>c. c \<noteq> CHR ''/'') (rev path))"

definition part_content :: "('b, 'y) archive_scheme \<Rightarrow> string \<Rightarrow> string option" where
  "part_content ar path =
     (case dict_get (ar_baked ar) (dir_of path) of None \<Rightarrow> None | Some files \<Rightarrow> dict_get files (file_of path))"

section \<open>Facts and decisions\<close>

datatype prune_reason =
    InsideRetentionWindow | NotBaked | BakeVersionStale | SegmentAdded | SegmentChanged | SegmentMissing
  | DecodeFailures | BakedFileMissing | BakedFileChanged | Unverified

definition PRUNE_REASONS :: "prune_reason list" where
  "PRUNE_REASONS = [InsideRetentionWindow, NotBaked, BakeVersionStale, SegmentAdded, SegmentChanged, SegmentMissing,
     DecodeFailures, BakedFileMissing, BakedFileChanged, Unverified]"

record segment_on_disk =
  sd_path :: string
  sd_bytes :: int
  sd_sha256 :: "string option"

record part_on_disk =
  pd_path :: string
  pd_exists :: bool
  pd_sha256 :: "string option"

record hour_facts =
  hf_hour :: hour_key
  hf_segments :: "segment_on_disk list"
  hf_parts :: "part_on_disk list"

record prune_decision =
  de_hour :: hour_key
  de_prunable :: bool
  de_reasons :: "prune_reason list"
  de_segments :: "segment_on_disk list"

definition freed_bytes :: "prune_decision \<Rightarrow> int" where
  "freed_bytes d = sum_list (map sd_bytes (de_segments d))"

text \<open>The reasons found so far, and whether a hash that was needed is missing.\<close>

type_synonym verdicts = "prune_reason set \<times> bool"

definition check_segment_on_disk :: "(string, segment_entry) dict \<Rightarrow> segment_on_disk \<Rightarrow> verdicts \<Rightarrow> verdicts" where
  "check_segment_on_disk baked s v =
     (case v of (reasons, unverified) \<Rightarrow>
        case dict_get baked (sd_path s) of
          None \<Rightarrow> (insert SegmentAdded reasons, unverified)
        | Some expected \<Rightarrow>
            if sd_bytes s \<noteq> se_bytes expected then (insert SegmentChanged reasons, unverified)
            else (case sd_sha256 s of
                    None \<Rightarrow> (reasons, True)
                  | Some digest \<Rightarrow> if digest \<noteq> se_sha256 expected then (insert SegmentChanged reasons, unverified) else (reasons, unverified)))"

definition check_segments :: "hour_facts \<Rightarrow> manifest \<Rightarrow> prune_reason set \<Rightarrow> verdicts" where
  "check_segments facts m reasons =
     (let baked = map (\<lambda>s. (se_path s, s)) (rev (hour_segments m (hk_hour (hf_hour facts))));
          pruned = set (map pr_path (mf_pruned m));
          on_disk = set (map sd_path (hf_segments facts));
          (reasons, unverified) = fold (check_segment_on_disk baked) (hf_segments facts) (reasons, False)
      in (if list_ex (\<lambda>path. path \<notin> on_disk \<and> path \<notin> pruned) (dict_keys baked) then insert SegmentMissing reasons else reasons,
          unverified))"

definition check_part_on_disk :: "(string, part_on_disk) dict \<Rightarrow> part_entry \<Rightarrow> verdicts \<Rightarrow> verdicts" where
  "check_part_on_disk found expected v =
     (case v of (reasons, unverified) \<Rightarrow>
        case dict_get found (pt_path expected) of
          None \<Rightarrow> (insert BakedFileMissing reasons, unverified)
        | Some part \<Rightarrow>
            if \<not> pd_exists part then (insert BakedFileMissing reasons, unverified)
            else (case pd_sha256 part of
                    None \<Rightarrow> (reasons, True)
                  | Some digest \<Rightarrow> if digest \<noteq> pt_sha256 expected then (insert BakedFileChanged reasons, unverified) else (reasons, unverified)))"

definition check_parts :: "hour_facts \<Rightarrow> manifest \<Rightarrow> prune_reason set \<Rightarrow> verdicts" where
  "check_parts facts m reasons =
     (let found = map (\<lambda>p. (pd_path p, p)) (rev (hf_parts facts))
      in fold (check_part_on_disk found) (hour_parts m (hk_hour (hf_hour facts))) (reasons, False))"

definition decide :: "hour_facts \<Rightarrow> manifest option \<Rightarrow> int \<Rightarrow> int \<Rightarrow> int \<Rightarrow> prune_decision" where
  "decide facts m now_wall_ns retention_hours bake_version =
     (let hour = hf_hour facts;
          reasons = (if end_wall_ns hour + retention_hours * NS_PER_HOUR \<ge> now_wall_ns then {InsideRetentionWindow} else {});
          entry = (case m of None \<Rightarrow> None | Some m \<Rightarrow> if mf_date m \<noteq> hk_date hour then None else hour_bake_of m (hk_hour hour));
          (reasons, unverified) =
            (case (m, entry) of
               (Some m, Some entry) \<Rightarrow>
                 (let reasons = (if hb_bake_version entry \<noteq> bake_version then insert BakeVersionStale reasons else reasons);
                      reasons = (if accounting_failures (hb_accounting entry) \<noteq> 0 then insert DecodeFailures reasons else reasons);
                      (reasons, u1) = check_segments facts m reasons;
                      (reasons, u2) = check_parts facts m reasons
                  in (reasons, u1 \<or> u2))
             | _ \<Rightarrow> (insert NotBaked reasons, False));
          reasons = (if unverified \<and> reasons = {} then {Unverified} else reasons);
          ordered = filter (\<lambda>r. r \<in> reasons) PRUNE_REASONS
      in \<lparr>de_hour = hour, de_prunable = (ordered = []), de_reasons = ordered,
          de_segments = (if ordered = [] then hf_segments facts else [])\<rparr>)"

section \<open>Survey\<close>

definition part_found :: "('b, 'z) codec_scheme \<Rightarrow> ('b, 'y) archive_scheme \<Rightarrow> bool \<Rightarrow> part_entry \<Rightarrow> part_on_disk" where
  "part_found cd ar hashed p =
     \<lparr>pd_path = pt_path p, pd_exists = part_content ar (pt_path p) \<noteq> None,
      pd_sha256 = (if hashed then map_option (cd_sha256 cd) (part_content ar (pt_path p)) else None)\<rparr>"

definition parts_on_disk :: "('b, 'z) codec_scheme \<Rightarrow> ('b, 'y) archive_scheme \<Rightarrow> manifest option \<Rightarrow> hour_key \<Rightarrow> bool \<Rightarrow> part_on_disk list" where
  "parts_on_disk cd ar m hour hashed =
     (case m of
        None \<Rightarrow> []
      | Some m \<Rightarrow>
          if mf_date m \<noteq> hk_date hour then [] else map (part_found cd ar hashed) (hour_parts m (hk_hour hour)))"

definition segment_found :: "('b, 'z) codec_scheme \<Rightarrow> ('b, 'y) archive_scheme \<Rightarrow> bool \<Rightarrow> string \<Rightarrow> segment_on_disk" where
  "segment_found cd ar hashed name =
     (let content = (case segment_content (ar_raw ar) name of None \<Rightarrow> [] | Some bs \<Rightarrow> bs)
      in \<lparr>sd_path = name, sd_bytes = int (length content), sd_sha256 = (if hashed then Some (cd_sha256 cd content) else None)\<rparr>)"

definition segments_on_disk :: "('b, 'z) codec_scheme \<Rightarrow> ('b, 'y) archive_scheme \<Rightarrow> hour_key \<Rightarrow> bool \<Rightarrow> segment_on_disk list" where
  "segments_on_disk cd ar hour hashed =
     map (segment_found cd ar hashed \<circ> segment_name hour) (segment_files (ar_raw ar) hour)"

definition facts_on_disk :: "('b, 'z) codec_scheme \<Rightarrow> ('b, 'y) archive_scheme \<Rightarrow> manifest option \<Rightarrow> hour_key \<Rightarrow> bool \<Rightarrow> hour_facts" where
  "facts_on_disk cd ar m hour hashed =
     \<lparr>hf_hour = hour, hf_segments = segments_on_disk cd ar hour hashed, hf_parts = parts_on_disk cd ar m hour hashed\<rparr>"

definition survey_hour ::
  "('b, 'z) codec_scheme \<Rightarrow> ('b, 'y) archive_scheme \<Rightarrow> int \<Rightarrow> int \<Rightarrow> int \<Rightarrow> hour_key \<Rightarrow> archive_error + prune_decision" where
  "survey_hour cd ar now_wall_ns retention_hours bake_version hour =
     result_bind (read_manifest cd ar (hk_date hour)) (\<lambda>m.
       let decision = decide (facts_on_disk cd ar m hour False) m now_wall_ns retention_hours bake_version
       in Inr (if de_reasons decision = [Unverified]
               then decide (facts_on_disk cd ar m hour True) m now_wall_ns retention_hours bake_version
               else decision))"

definition survey ::
  "('b, 'z) codec_scheme \<Rightarrow> ('b, 'y) archive_scheme \<Rightarrow> int \<Rightarrow> int \<Rightarrow> int \<Rightarrow> archive_error + prune_decision list" where
  "survey cd ar now_wall_ns retention_hours bake_version =
     result_list (survey_hour cd ar now_wall_ns retention_hours bake_version)
       (filter (\<lambda>hour. segment_files (ar_raw ar) hour \<noteq> []) (raw_hours (ar_raw ar)))"

section \<open>Deletion\<close>

text \<open>What a prune does to the disk, one step at a time.\<close>

datatype 'b disk_op = WriteManifest date 'b | Unlink string | RemoveIfEmpty hour_key

definition unlink_raw :: "string \<Rightarrow> raw_tree \<Rightarrow> raw_tree" where
  "unlink_raw name raw =
     map (\<lambda>(dn, hours).
       (dn, if dn = take 10 name then
              map (\<lambda>(hn, files). (hn, if hn = take 2 (drop 11 name) then dict_pop (drop 14 name) files else files)) hours
            else hours)) raw"

definition remove_if_empty :: "hour_key \<Rightarrow> raw_tree \<Rightarrow> raw_tree" where
  "remove_if_empty k raw =
     (let dn = date_isoformat (hk_date k); hn = hour_text k
      in case raw_dir raw dn hn of
           Some [] \<Rightarrow>
             (let raw = map (\<lambda>(d, hours). (d, if d = dn then dict_pop hn hours else hours)) raw
              in case dict_get raw dn of Some [] \<Rightarrow> dict_pop dn raw | _ \<Rightarrow> raw)
         | _ \<Rightarrow> raw)"

fun run_op :: "'b disk_op \<Rightarrow> 'b archive \<Rightarrow> 'b archive" where
  "run_op (WriteManifest dt b) ar = ar\<lparr>ar_manifests := dict_put dt b (ar_manifests ar)\<rparr>"
| "run_op (Unlink name) ar = ar\<lparr>ar_raw := unlink_raw name (ar_raw ar)\<rparr>"
| "run_op (RemoveIfEmpty k) ar = ar\<lparr>ar_raw := remove_if_empty k (ar_raw ar)\<rparr>"

definition run_ops :: "'b disk_op list \<Rightarrow> 'b archive \<Rightarrow> 'b archive" where
  "run_ops ops ar = fold run_op ops ar"

fun pruned_records :: "int \<Rightarrow> segment_on_disk list \<Rightarrow> archive_error + pruned_segment list" where
  "pruned_records wall_ns [] = Inr []"
| "pruned_records wall_ns (s # ss) =
     (case sd_sha256 s of
        None \<Rightarrow> Inl (SegmentUnverified (sd_path s))
      | Some digest \<Rightarrow> result_bind (pruned_records wall_ns ss) (\<lambda>rs.
          Inr (\<lparr>pr_path = sd_path s, pr_bytes = sd_bytes s, pr_sha256 = digest, pr_pruned_wall_ns = wall_ns\<rparr> # rs)))"

text \<open>The steps of one day and the records of what they delete; an error comes before any step.\<close>

definition prune_day ::
  "('b, 'z) codec_scheme \<Rightarrow> int \<Rightarrow> date \<Rightarrow> prune_decision list \<Rightarrow> 'b archive \<Rightarrow> archive_error + 'b disk_op list \<times> pruned_segment list" where
  "prune_day cd wall_ns dt decisions ar =
     result_bind (read_manifest cd ar dt) (\<lambda>m.
     case m of
       None \<Rightarrow> Inl (NoManifest dt)
     | Some m \<Rightarrow> result_bind (pruned_records wall_ns (concat (map de_segments decisions))) (\<lambda>records.
         case with_pruned m records of
           Inl e \<Rightarrow> Inl (PruneRejected dt e)
         | Inr updated \<Rightarrow>
             Inr (WriteManifest dt (cd_encode cd updated) # map (Unlink \<circ> pr_path) records @ map (RemoveIfEmpty \<circ> de_hour) decisions,
                  records)))"

fun prune_days ::
  "('b, 'z) codec_scheme \<Rightarrow> (date \<Rightarrow> int) \<Rightarrow> (date \<times> prune_decision list) list \<Rightarrow> 'b archive \<Rightarrow> 'b disk_op list \<times> (archive_error + pruned_segment list)" where
  "prune_days cd wall [] ar = ([], Inr [])"
| "prune_days cd wall ((dt, decisions) # days) ar =
     (case prune_day cd (wall dt) dt decisions ar of
        Inl e \<Rightarrow> ([], Inl e)
      | Inr (ops, records) \<Rightarrow>
          (case prune_days cd wall days (run_ops ops ar) of
             (ops', r) \<Rightarrow> (ops @ ops', result_bind r (\<lambda>rs. Inr (records @ rs)))))"

definition by_day :: "prune_decision list \<Rightarrow> (date, prune_decision list) dict" where
  "by_day decisions =
     fold (\<lambda>d days. if de_prunable d \<and> de_segments d \<noteq> []
                      then dict_put (hk_date (de_hour d)) (dict_get_or days (hk_date (de_hour d)) [] @ [d]) days else days)
       decisions []"

text \<open>\<open>wall dt\<close> is the clock's reading when the day \<open>dt\<close> is pruned.\<close>

definition apply_prune ::
  "('b, 'z) codec_scheme \<Rightarrow> (date \<Rightarrow> int) \<Rightarrow> prune_decision list \<Rightarrow> 'b archive \<Rightarrow> 'b disk_op list \<times> (archive_error + pruned_segment list)" where
  "apply_prune cd wall decisions ar = prune_days cd wall (sort_key fst (by_day decisions)) ar"

end
