(* ===== verification/Pruned.thy ===== *)
theory Pruned
  imports Manifested Prune
begin

text \<open>
  What holds of a prune: an hour is prunable exactly under the conditions of ADR 0025, hashing
  lazily loses nothing, and a crash between any two writes leaves no deleted segment unrecorded.
\<close>

section \<open>Decisions\<close>

definition clean :: "verdicts \<Rightarrow> bool" where
  "clean v \<longleftrightarrow> fst v = {} \<and> \<not> snd v"

definition verified :: "(string, segment_entry) dict \<Rightarrow> segment_on_disk \<Rightarrow> bool" where
  "verified baked s = (case dict_get baked (sd_path s) of
     None \<Rightarrow> False | Some e \<Rightarrow> sd_bytes s = se_bytes e \<and> sd_sha256 s = Some (se_sha256 e))"

definition part_verified :: "(string, part_on_disk) dict \<Rightarrow> part_entry \<Rightarrow> bool" where
  "part_verified found e = (case dict_get found (pt_path e) of
     None \<Rightarrow> False | Some p \<Rightarrow> pd_exists p \<and> pd_sha256 p = Some (pt_sha256 e))"

lemma clean_segment: "clean (check_segment_on_disk baked s v) \<longleftrightarrow> clean v \<and> verified baked s"
  by (cases v) (auto simp: clean_def check_segment_on_disk_def verified_def split: option.splits)

lemma clean_part: "clean (check_part_on_disk found e v) \<longleftrightarrow> clean v \<and> part_verified found e"
  by (cases v) (auto simp: clean_def check_part_on_disk_def part_verified_def split: option.splits)

lemma clean_fold:
  assumes "\<And>x v. clean (f x v) \<longleftrightarrow> clean v \<and> ok x"
  shows "clean (fold f xs v) \<longleftrightarrow> clean v \<and> list_all ok xs"
  by (induction xs arbitrary: v) (auto simp: assms)

definition baked_segments :: "manifest \<Rightarrow> int \<Rightarrow> (string, segment_entry) dict" where
  "baked_segments m h = map (\<lambda>s. (se_path s, s)) (rev (hour_segments m h))"

definition none_missing :: "hour_facts \<Rightarrow> manifest \<Rightarrow> bool" where
  "none_missing facts m \<longleftrightarrow>
     list_all (\<lambda>e. se_path e \<in> sd_path ` set (hf_segments facts) \<or> se_path e \<in> pr_path ` set (mf_pruned m))
       (hour_segments m (hk_hour (hf_hour facts)))"

lemma clean_segments:
  "clean (check_segments facts m R) \<longleftrightarrow>
     R = {} \<and> list_all (verified (baked_segments m (hk_hour (hf_hour facts)))) (hf_segments facts) \<and> none_missing facts m"
proof -
  let ?fold = "fold (check_segment_on_disk (baked_segments m (hk_hour (hf_hour facts)))) (hf_segments facts) (R, False)"
  have "clean ?fold \<longleftrightarrow> R = {} \<and> list_all (verified (baked_segments m (hk_hour (hf_hour facts)))) (hf_segments facts)"
    by (subst clean_fold [where ok = "verified (baked_segments m (hk_hour (hf_hour facts)))"]) (simp_all add: clean_segment, simp add: clean_def)
  moreover have "clean (check_segments facts m R) \<longleftrightarrow> clean ?fold \<and> none_missing facts m"
    unfolding check_segments_def baked_segments_def [symmetric] Let_def
    by (cases ?fold) (auto simp: clean_def none_missing_def baked_segments_def list_all_iff list_ex_iff)
  ultimately show ?thesis by blast
qed

lemma clean_parts:
  "clean (check_parts facts m R) \<longleftrightarrow>
     R = {} \<and> list_all (part_verified (map (\<lambda>p. (pd_path p, p)) (rev (hf_parts facts)))) (hour_parts m (hk_hour (hf_hour facts)))"
  unfolding check_parts_def Let_def
  by (subst clean_fold [where ok = "part_verified (map (\<lambda>p. (pd_path p, p)) (rev (hf_parts facts)))"]) (simp_all add: clean_part, simp add: clean_def)

lemma no_reasons: "filter (\<lambda>r. r \<in> R) PRUNE_REASONS = [] \<longleftrightarrow> R = {}"
proof
  assume a: "filter (\<lambda>r. r \<in> R) PRUNE_REASONS = []"
  have "r \<in> set PRUNE_REASONS" for r by (cases r) (simp_all add: PRUNE_REASONS_def)
  then show "R = {}" using a by (auto simp: filter_empty_conv)
qed simp

definition safe_to_prune :: "hour_facts \<Rightarrow> manifest \<Rightarrow> int \<Rightarrow> int \<Rightarrow> int \<Rightarrow> bool" where
  "safe_to_prune facts m now_wall_ns retention_hours bake_version \<longleftrightarrow>
     (let hour = hf_hour facts in
        end_wall_ns hour + retention_hours * NS_PER_HOUR < now_wall_ns \<and> mf_date m = hk_date hour \<and>
        (case hour_bake_of m (hk_hour hour) of None \<Rightarrow> False
         | Some b \<Rightarrow> hb_bake_version b = bake_version \<and> accounting_failures (hb_accounting b) = 0) \<and>
        list_all (\<lambda>s. list_ex (\<lambda>e. se_path e = sd_path s \<and> se_bytes e = sd_bytes s \<and> sd_sha256 s = Some (se_sha256 e))
          (hour_segments m (hk_hour hour))) (hf_segments facts) \<and>
        none_missing facts m \<and>
        list_all (\<lambda>e. list_ex (\<lambda>p. pd_path p = pt_path e \<and> pd_exists p \<and> pd_sha256 p = Some (pt_sha256 e)) (hf_parts facts))
          (hour_parts m (hk_hour hour)))"

lemma dict_get_unique:
  assumes "distinct (map f xs)"
  shows "dict_get (map (\<lambda>x. (f x, x)) (rev xs)) k = Some v \<longleftrightarrow> v \<in> set xs \<and> f v = k"
proof -
  have "dict_wf (map (\<lambda>x. (f x, x)) (rev xs))" using assms by (simp add: dict_wf_def comp_def rev_map [symmetric])
  from dict_mem_get [OF this, of k v] show ?thesis by auto
qed

lemma verified_ex:
  assumes "distinct (map se_path (hour_segments m h))"
  shows "verified (baked_segments m h) s \<longleftrightarrow>
    list_ex (\<lambda>e. se_path e = sd_path s \<and> se_bytes e = sd_bytes s \<and> sd_sha256 s = Some (se_sha256 e)) (hour_segments m h)"
proof -
  have "verified (baked_segments m h) s \<longleftrightarrow> (\<exists>e. dict_get (baked_segments m h) (sd_path s) = Some e \<and> sd_bytes s = se_bytes e \<and> sd_sha256 s = Some (se_sha256 e))"
    by (auto simp: verified_def split: option.splits)
  then show ?thesis using dict_get_unique [OF assms] by (auto simp: baked_segments_def list_ex_iff)
qed

lemma part_verified_ex:
  assumes "distinct (map pd_path ps)"
  shows "part_verified (map (\<lambda>p. (pd_path p, p)) (rev ps)) e \<longleftrightarrow>
    list_ex (\<lambda>p. pd_path p = pt_path e \<and> pd_exists p \<and> pd_sha256 p = Some (pt_sha256 e)) ps"
proof -
  have "part_verified (map (\<lambda>p. (pd_path p, p)) (rev ps)) e \<longleftrightarrow>
      (\<exists>p. dict_get (map (\<lambda>p. (pd_path p, p)) (rev ps)) (pt_path e) = Some p \<and> pd_exists p \<and> pd_sha256 p = Some (pt_sha256 e))"
    by (auto simp: part_verified_def split: option.splits)
  then show ?thesis using dict_get_unique [OF assms] by (auto simp: list_ex_iff)
qed

lemma distinct_hour_segments: "consistent m \<Longrightarrow> distinct (map se_path (hour_segments m h))"
  using consistent_parts(2) by (simp add: hour_segments_def distinct_map_filter)

lemma prunable_parts:
  "de_prunable (decide facts (Some m) now ret ver) \<longleftrightarrow>
     end_wall_ns (hf_hour facts) + ret * NS_PER_HOUR < now \<and> mf_date m = hk_date (hf_hour facts) \<and>
     (case hour_bake_of m (hk_hour (hf_hour facts)) of None \<Rightarrow> False
      | Some b \<Rightarrow> hb_bake_version b = ver \<and> accounting_failures (hb_accounting b) = 0) \<and>
     list_all (verified (baked_segments m (hk_hour (hf_hour facts)))) (hf_segments facts) \<and> none_missing facts m \<and>
     list_all (part_verified (map (\<lambda>p. (pd_path p, p)) (rev (hf_parts facts)))) (hour_parts m (hk_hour (hf_hour facts)))"
proof (cases "mf_date m = hk_date (hf_hour facts) \<and> hour_bake_of m (hk_hour (hf_hour facts)) \<noteq> None")
  case False
  then show ?thesis by (auto simp: decide_def Let_def no_reasons split: option.splits)
next
  case True
  then obtain b where b: "hour_bake_of m (hk_hour (hf_hour facts)) = Some b" by blast
  define R where "R = (let reasons = (if end_wall_ns (hf_hour facts) + ret * NS_PER_HOUR \<ge> now then {InsideRetentionWindow} else {});
                      reasons = (if hb_bake_version b \<noteq> ver then insert BakeVersionStale reasons else reasons)
                  in if accounting_failures (hb_accounting b) \<noteq> 0 then insert DecodeFailures reasons else reasons)"
  obtain R1 u1 where c1: "check_segments facts m R = (R1, u1)" by fastforce
  obtain R2 u2 where c2: "check_parts facts m R1 = (R2, u2)" by fastforce
  have R: "R = {} \<longleftrightarrow> end_wall_ns (hf_hour facts) + ret * NS_PER_HOUR < now \<and> hb_bake_version b = ver \<and> accounting_failures (hb_accounting b) = 0"
    by (auto simp: R_def Let_def)
  have "de_prunable (decide facts (Some m) now ret ver) \<longleftrightarrow> R2 = {} \<and> \<not> u1 \<and> \<not> u2"
    using True b c1 c2 by (auto simp: decide_def Let_def no_reasons R_def split: if_splits)
  moreover have "R2 = {} \<and> \<not> u2 \<longleftrightarrow> R1 = {} \<and> list_all (part_verified (map (\<lambda>p. (pd_path p, p)) (rev (hf_parts facts)))) (hour_parts m (hk_hour (hf_hour facts)))"
    using clean_parts [of facts m R1] c2 by (simp add: clean_def)
  moreover have "R1 = {} \<and> \<not> u1 \<longleftrightarrow> R = {} \<and> list_all (verified (baked_segments m (hk_hour (hf_hour facts)))) (hf_segments facts) \<and> none_missing facts m"
    using clean_segments [of facts m R] c1 by (simp add: clean_def)
  ultimately show ?thesis using R True b by auto
qed

lemma prunable_when_safe:
  assumes "consistent m" "distinct (map pd_path (hf_parts facts))"
  shows "(de_prunable (decide facts (Some m) now ret ver) \<longleftrightarrow> safe_to_prune facts m now ret ver) \<and>
    \<not> de_prunable (decide facts None now ret ver) \<and>
    (de_reasons (decide facts (Some m) now ret ver) = [] \<longleftrightarrow> safe_to_prune facts m now ret ver)"
proof -
  have p: "de_prunable (decide facts (Some m) now ret ver) \<longleftrightarrow> safe_to_prune facts m now ret ver"
    unfolding prunable_parts safe_to_prune_def Let_def ext [OF verified_ex [OF distinct_hour_segments [OF assms(1)]]]
      ext [OF part_verified_ex [OF assms(2)]] ..
  have "de_prunable d \<longleftrightarrow> de_reasons d = []" if "d = decide facts m now ret ver" for d m
    unfolding that decide_def Let_def by (simp split: prod.split)
  moreover have "\<not> de_prunable (decide facts None now ret ver)" by (simp add: decide_def Let_def no_reasons)
  ultimately show ?thesis using p by blast
qed

text \<open>
  C12. An hour is prunable exactly under the conditions of ADR 0025: it ended more than the
  retention window ago, the manifest of its day holds a bake of it by the current version that
  accounted for every record, every segment on disk was baked with the same size and hash and
  every baked one is on disk or recorded as pruned, and every part file of the bake is on disk with
  its hash. A hash not computed counts as one that differs.
\<close>

theorem prunable_exactly_when_safe:
  assumes "consistent m" "distinct (map pd_path (hf_parts facts))"
  shows "(de_prunable (decide facts (Some m) now ret ver) \<longleftrightarrow> safe_to_prune facts m now ret ver) \<and>
    \<not> de_prunable (decide facts None now ret ver) \<and>
    (de_reasons (decide facts (Some m) now ret ver) = [] \<longleftrightarrow> safe_to_prune facts m now ret ver)"
  using assms by (rule prunable_when_safe)

section \<open>Hashing only what is needed\<close>

definition lax_verified :: "(string, segment_entry) dict \<Rightarrow> segment_on_disk \<Rightarrow> bool" where
  "lax_verified baked s = (case dict_get baked (sd_path s) of
     None \<Rightarrow> False | Some e \<Rightarrow> sd_bytes s = se_bytes e \<and> (sd_sha256 s = None \<or> sd_sha256 s = Some (se_sha256 e)))"

definition lax_part :: "(string, part_on_disk) dict \<Rightarrow> part_entry \<Rightarrow> bool" where
  "lax_part found e = (case dict_get found (pt_path e) of
     None \<Rightarrow> False | Some p \<Rightarrow> pd_exists p \<and> (pd_sha256 p = None \<or> pd_sha256 p = Some (pt_sha256 e)))"

lemma fold_fst_empty:
  assumes "\<And>x v. fst (f x v) = {} \<longleftrightarrow> fst v = {} \<and> ok x"
  shows "fst (fold f xs v) = {} \<longleftrightarrow> fst v = {} \<and> list_all ok xs"
  by (induction xs arbitrary: v) (auto simp: assms)

lemma lax_segment: "fst (check_segment_on_disk baked s v) = {} \<longleftrightarrow> fst v = {} \<and> lax_verified baked s"
  by (cases v) (auto simp: check_segment_on_disk_def lax_verified_def split: option.splits)

lemma lax_part_step: "fst (check_part_on_disk found e v) = {} \<longleftrightarrow> fst v = {} \<and> lax_part found e"
  by (cases v) (auto simp: check_part_on_disk_def lax_part_def split: option.splits)

lemma lax_segments:
  "fst (check_segments facts m R) = {} \<longleftrightarrow>
     R = {} \<and> list_all (lax_verified (baked_segments m (hk_hour (hf_hour facts)))) (hf_segments facts) \<and> none_missing facts m"
proof -
  let ?fold = "fold (check_segment_on_disk (baked_segments m (hk_hour (hf_hour facts)))) (hf_segments facts) (R, False)"
  have "fst ?fold = {} \<longleftrightarrow> R = {} \<and> list_all (lax_verified (baked_segments m (hk_hour (hf_hour facts)))) (hf_segments facts)"
    by (subst fold_fst_empty [where ok = "lax_verified (baked_segments m (hk_hour (hf_hour facts)))"]) (simp_all add: lax_segment)
  moreover have "fst (check_segments facts m R) = {} \<longleftrightarrow> fst ?fold = {} \<and> none_missing facts m"
    unfolding check_segments_def baked_segments_def [symmetric] Let_def
    by (cases ?fold) (auto simp: none_missing_def baked_segments_def list_all_iff list_ex_iff)
  ultimately show ?thesis by blast
qed

lemma lax_parts:
  "fst (check_parts facts m R) = {} \<longleftrightarrow>
     R = {} \<and> list_all (lax_part (map (\<lambda>p. (pd_path p, p)) (rev (hf_parts facts)))) (hour_parts m (hk_hour (hf_hour facts)))"
  unfolding check_parts_def Let_def
  by (subst fold_fst_empty [where ok = "lax_part (map (\<lambda>p. (pd_path p, p)) (rev (hf_parts facts)))"]) (simp_all add: lax_part_step)

lemma lax_reasons:
  assumes "end_wall_ns (hf_hour facts) + ret * NS_PER_HOUR < now" "mf_date m = hk_date (hf_hour facts)"
    "hour_bake_of m (hk_hour (hf_hour facts)) = Some b" "hb_bake_version b = ver" "accounting_failures (hb_accounting b) = 0"
    "list_all (lax_verified (baked_segments m (hk_hour (hf_hour facts)))) (hf_segments facts)" "none_missing facts m"
    "list_all (lax_part (map (\<lambda>p. (pd_path p, p)) (rev (hf_parts facts)))) (hour_parts m (hk_hour (hf_hour facts)))"
  shows "de_reasons (decide facts (Some m) now ret ver) = [] \<or> de_reasons (decide facts (Some m) now ret ver) = [Unverified]"
proof -
  obtain u1 where c1: "check_segments facts m {} = ({}, u1)"
    using lax_segments [of facts m "{}"] assms(6,7) by (cases "check_segments facts m {}") auto
  obtain u2 where c2: "check_parts facts m {} = ({}, u2)"
    using lax_parts [of facts m "{}"] assms(8) by (cases "check_parts facts m {}") auto
  show ?thesis using assms(1-5) c1 c2 by (auto simp: decide_def Let_def PRUNE_REASONS_def)
qed

lemma dict_get_find: "dict_get (map (\<lambda>x. (f x, h x)) xs) k = map_option h (find (\<lambda>x. f x = k) xs)"
  by (induction xs) auto

lemma on_disk_fields [simp]:
  "pd_path (part_found cd ar hashed p) = pt_path p" "sd_path (segment_found cd ar hashed name) = name"
  "hf_hour (facts_on_disk cd ar m hour hashed) = hour"
  "hf_segments (facts_on_disk cd ar m hour hashed) = segments_on_disk cd ar hour hashed"
  "hf_parts (facts_on_disk cd ar m hour hashed) = parts_on_disk cd ar m hour hashed"
  by (simp_all add: part_found_def segment_found_def facts_on_disk_def Let_def)

lemma parts_found:
  assumes "mf_date m = hk_date hour"
  shows "dict_get (map (\<lambda>p. (pd_path p, p)) (rev (parts_on_disk cd ar (Some m) hour hashed))) k =
    map_option (part_found cd ar hashed) (find (\<lambda>e. pt_path e = k) (rev (hour_parts m (hk_hour hour))))"
  using assms by (simp add: parts_on_disk_def rev_map comp_def dict_get_find)

lemma part_lax: "part_verified (map (\<lambda>p. (pd_path p, p)) (rev (parts_on_disk cd ar (Some m) hour True))) e \<Longrightarrow> mf_date m = hk_date hour \<Longrightarrow>
    lax_part (map (\<lambda>p. (pd_path p, p)) (rev (parts_on_disk cd ar (Some m) hour False))) e"
  by (auto simp: part_verified_def lax_part_def parts_found part_found_def split: option.splits)

lemma segment_lax: "verified baked (segment_found cd ar True name) \<Longrightarrow> lax_verified baked (segment_found cd ar False name)"
  by (simp add: verified_def lax_verified_def segment_found_def Let_def split: option.splits)

lemma hashed_lax:
  assumes "de_prunable (decide (facts_on_disk cd ar (Some m) hour True) (Some m) now ret ver)"
  shows "de_reasons (decide (facts_on_disk cd ar (Some m) hour False) (Some m) now ret ver) \<in> {[], [Unverified]}"
proof -
  let ?h = "facts_on_disk cd ar (Some m) hour True" and ?f = "facts_on_disk cd ar (Some m) hour False"
  note p = assms [unfolded prunable_parts on_disk_fields]
  have segs: "list_all (lax_verified (baked_segments m (hk_hour hour))) (segments_on_disk cd ar hour False)"
    using p by (auto simp: segments_on_disk_def list_all_iff intro: segment_lax)
  have parts: "list_all (lax_part (map (\<lambda>p. (pd_path p, p)) (rev (parts_on_disk cd ar (Some m) hour False)))) (hour_parts m (hk_hour hour))"
    unfolding list_all_iff using p by (blast intro: part_lax dest: list_all_iff [THEN iffD1])
  have "none_missing ?f m" using p by (simp add: none_missing_def segments_on_disk_def image_comp)
  moreover obtain b where "hour_bake_of m (hk_hour hour) = Some b" "hb_bake_version b = ver" "accounting_failures (hb_accounting b) = 0"
    using p by (auto split: option.splits)
  ultimately show ?thesis using lax_reasons [of ?f ret now m b ver] p segs parts by auto
qed

lemma survey_hour_alike:
  assumes "survey_hour cd ar now ret ver hour = Inr d" "read_manifest cd ar (hk_date hour) = Inr m"
    "segment_files (ar_raw ar) hour \<noteq> []"
  shows "de_prunable d = de_prunable (decide (facts_on_disk cd ar m hour True) m now ret ver) \<and>
    (if de_prunable d then de_segments d = segments_on_disk cd ar hour True else de_segments d = [])"
proof -
  let ?h = "facts_on_disk cd ar m hour True" and ?f = "facts_on_disk cd ar m hour False"
  have d: "d = (if de_reasons (decide ?f m now ret ver) = [Unverified] then decide ?h m now ret ver else decide ?f m now ret ver)"
    using assms(1,2) by (simp add: survey_hour_def Let_def)
  have segs: "de_segments (decide g m now ret ver) = (if de_prunable (decide g m now ret ver) then hf_segments g else [])" for g
    unfolding decide_def Let_def by (simp split: prod.split)
  have iff: "de_prunable (decide g m now ret ver) \<longleftrightarrow> de_reasons (decide g m now ret ver) = []" for g
    unfolding decide_def Let_def by (simp split: prod.split)
  have hs: "hf_segments ?h = segments_on_disk cd ar hour True" by simp
  show ?thesis
  proof (cases "de_reasons (decide ?f m now ret ver) = [Unverified]")
    case True
    then show ?thesis using d segs [of ?h] hs by simp
  next
    case False
    have "\<not> de_prunable (decide ?f m now ret ver)"
    proof (cases m)
      case None
      then show ?thesis by (simp add: decide_def Let_def no_reasons)
    next
      case (Some m')
      have "hf_segments ?f \<noteq> []" "\<And>s. s \<in> set (hf_segments ?f) \<Longrightarrow> sd_sha256 s = None"
        using assms(3) by (auto simp: segments_on_disk_def segment_found_def Let_def)
      then obtain s where "s \<in> set (hf_segments ?f)" "sd_sha256 s = None" by (metis list.set_intros(1) neq_Nil_conv)
      then have "\<not> list_all (verified (baked_segments m' (hk_hour hour))) (hf_segments ?f)"
        unfolding list_all_iff by (intro notI) (drule (1) bspec, simp add: verified_def split: option.splits)
      then show ?thesis unfolding Some prunable_parts by auto
    qed
    moreover have "\<not> de_prunable (decide ?h m now ret ver)"
    proof
      assume h: "de_prunable (decide ?h m now ret ver)"
      then obtain m' where m: "m = Some m'" by (cases m) (auto simp: decide_def Let_def no_reasons)
      have "de_reasons (decide ?f m now ret ver) = []" using hashed_lax [OF h [unfolded m]] False m by auto
      then show False using calculation iff [of ?f] by blast
    qed
    ultimately show ?thesis using d False segs [of ?f] by simp
  qed
qed

text \<open>What rules an hour out without a hash: names, sizes and the manifest.\<close>

definition cheaply_refused :: "('b, 'y) archive_scheme \<Rightarrow> manifest option \<Rightarrow> hour_key \<Rightarrow> int \<Rightarrow> int \<Rightarrow> int \<Rightarrow> bool" where
  "cheaply_refused ar m hour now_wall_ns retention_hours bake_version \<longleftrightarrow>
     now_wall_ns \<le> end_wall_ns hour + retention_hours * NS_PER_HOUR \<or>
     (case m of
        None \<Rightarrow> True
      | Some m \<Rightarrow>
          mf_date m \<noteq> hk_date hour \<or>
          (case hour_bake_of m (hk_hour hour) of None \<Rightarrow> True
           | Some b \<Rightarrow> hb_bake_version b \<noteq> bake_version \<or> accounting_failures (hb_accounting b) \<noteq> 0) \<or>
          list_ex (\<lambda>f. \<not> list_ex (\<lambda>e. se_path e = segment_name hour f \<and>
              se_bytes e = int (length (case segment_content (ar_raw ar) (segment_name hour f) of None \<Rightarrow> [] | Some bs \<Rightarrow> bs)))
            (hour_segments m (hk_hour hour))) (segment_files (ar_raw ar) hour) \<or>
          list_ex (\<lambda>e. se_path e \<notin> segment_name hour ` set (segment_files (ar_raw ar) hour) \<and> se_path e \<notin> pr_path ` set (mf_pruned m))
            (hour_segments m (hk_hour hour)) \<or>
          list_ex (\<lambda>e. part_content ar (pt_path e) = None) (hour_parts m (hk_hour hour)))"

lemma lax_only:
  assumes "set (de_reasons (decide facts (Some m) now ret ver)) \<subseteq> {Unverified}"
  shows "end_wall_ns (hf_hour facts) + ret * NS_PER_HOUR < now" "mf_date m = hk_date (hf_hour facts)"
    "\<exists>b. hour_bake_of m (hk_hour (hf_hour facts)) = Some b \<and> hb_bake_version b = ver \<and> accounting_failures (hb_accounting b) = 0"
    "list_all (lax_verified (baked_segments m (hk_hour (hf_hour facts)))) (hf_segments facts)" "none_missing facts m"
    "list_all (lax_part (map (\<lambda>p. (pd_path p, p)) (rev (hf_parts facts)))) (hour_parts m (hk_hour (hf_hour facts)))"
proof -
  have only: "R \<subseteq> {Unverified}" if "set (filter (\<lambda>r. r \<in> R) PRUNE_REASONS) \<subseteq> {Unverified}" for R
  proof
    fix r assume "r \<in> R"
    moreover have "r \<in> set PRUNE_REASONS" by (cases r) (simp_all add: PRUNE_REASONS_def)
    ultimately have "r \<in> set (filter (\<lambda>r. r \<in> R) PRUNE_REASONS)" by simp
    then show "r \<in> {Unverified}" using that by blast
  qed
  have entry: "mf_date m = hk_date (hf_hour facts) \<and> hour_bake_of m (hk_hour (hf_hour facts)) \<noteq> None"
  proof (rule ccontr)
    assume "\<not> ?thesis"
    then show False using assms by (auto simp: decide_def Let_def PRUNE_REASONS_def split: option.splits if_splits)
  qed
  then obtain b where b: "hour_bake_of m (hk_hour (hf_hour facts)) = Some b" by blast
  define R where "R = (let reasons = (if end_wall_ns (hf_hour facts) + ret * NS_PER_HOUR \<ge> now then {InsideRetentionWindow} else {});
                      reasons = (if hb_bake_version b \<noteq> ver then insert BakeVersionStale reasons else reasons)
                  in if accounting_failures (hb_accounting b) \<noteq> 0 then insert DecodeFailures reasons else reasons)"
  obtain R1 u1 where c1: "check_segments facts m R = (R1, u1)" by fastforce
  obtain R2 u2 where c2: "check_parts facts m R1 = (R2, u2)" by fastforce
  have "de_reasons (decide facts (Some m) now ret ver) =
      filter (\<lambda>r. r \<in> (if (u1 \<or> u2) \<and> R2 = {} then {Unverified} else R2)) PRUNE_REASONS"
    using entry b c1 c2 by (simp add: decide_def Let_def R_def)
  then have "set (filter (\<lambda>r. r \<in> (if (u1 \<or> u2) \<and> R2 = {} then {Unverified} else R2)) PRUNE_REASONS) \<subseteq> {Unverified}"
    using assms by simp
  from only [OF this] have u: "(if (u1 \<or> u2) \<and> R2 = {} then {Unverified} else R2) \<subseteq> {Unverified}" .
  have known: "Unverified \<notin> fst (check_segments facts m R)" "Unverified \<notin> fst (check_parts facts m R1)"
  proof -
    have R: "Unverified \<notin> R" by (simp add: R_def Let_def)
    have fold_known: "Unverified \<notin> fst v \<Longrightarrow> Unverified \<notin> fst (fold f xs v)" if "\<And>x v. Unverified \<notin> fst v \<Longrightarrow> Unverified \<notin> fst (f x v)"
      for f :: "'x \<Rightarrow> verdicts \<Rightarrow> verdicts" and xs v using that by (induction xs arbitrary: v) auto
    have s: "Unverified \<notin> fst v \<Longrightarrow> Unverified \<notin> fst (check_segment_on_disk baked x v)" for baked x v
      by (cases v) (auto simp: check_segment_on_disk_def split: option.splits)
    have p: "Unverified \<notin> fst v \<Longrightarrow> Unverified \<notin> fst (check_part_on_disk found x v)" for found x v
      by (cases v) (auto simp: check_part_on_disk_def split: option.splits)
    have "Unverified \<notin> fst (fold (check_segment_on_disk baked) xs (R, False))" for baked xs
      by (rule fold_known) (simp_all add: s R)
    then show one: "Unverified \<notin> fst (check_segments facts m R)"
      unfolding check_segments_def Let_def split_beta by simp
    have "Unverified \<notin> fst (fold (check_part_on_disk found) xs (R1, False))" for found xs
      by (rule fold_known) (use one c1 in \<open>simp_all add: p\<close>)
    then show "Unverified \<notin> fst (check_parts facts m R1)"
      unfolding check_parts_def Let_def .
  qed
  have "R2 = {}" using u known(2) c2 by (auto split: if_splits)
  then have r1: "R1 = {}" and parts: "list_all (lax_part (map (\<lambda>p. (pd_path p, p)) (rev (hf_parts facts)))) (hour_parts m (hk_hour (hf_hour facts)))"
    using lax_parts [of facts m R1] c2 by simp_all
  then have r: "R = {}" "list_all (lax_verified (baked_segments m (hk_hour (hf_hour facts)))) (hf_segments facts)" "none_missing facts m"
    using lax_segments [of facts m R] c1 by simp_all
  show "mf_date m = hk_date (hf_hour facts)" using entry by blast
  show "end_wall_ns (hf_hour facts) + ret * NS_PER_HOUR < now"
    "\<exists>b. hour_bake_of m (hk_hour (hf_hour facts)) = Some b \<and> hb_bake_version b = ver \<and> accounting_failures (hb_accounting b) = 0"
    using r(1) b by (auto simp: R_def Let_def split: if_splits)
  show "list_all (lax_verified (baked_segments m (hk_hour (hf_hour facts)))) (hf_segments facts)" "none_missing facts m"
    "list_all (lax_part (map (\<lambda>p. (pd_path p, p)) (rev (hf_parts facts)))) (hour_parts m (hk_hour (hf_hour facts)))"
    by (rule r parts)+
qed

lemma refused_without_hashes:
  assumes "cheaply_refused ar m hour now ret ver"
  shows "\<not> set (de_reasons (decide (facts_on_disk cd ar m hour False) m now ret ver)) \<subseteq> {Unverified}"
proof (cases m)
  case None
  then show ?thesis by (auto simp: decide_def Let_def PRUNE_REASONS_def)
next
  case (Some m')
  let ?f = "facts_on_disk cd ar (Some m') hour False"
  show ?thesis
  proof
    assume "set (de_reasons (decide (facts_on_disk cd ar m hour False) m now ret ver)) \<subseteq> {Unverified}"
    then have "set (de_reasons (decide ?f (Some m') now ret ver)) \<subseteq> {Unverified}" by (simp add: Some)
    note lax = lax_only [OF this, unfolded on_disk_fields]
    have "list_ex (\<lambda>e. se_path e = segment_name hour f \<and>
        se_bytes e = int (length (case segment_content (ar_raw ar) (segment_name hour f) of None \<Rightarrow> [] | Some bs \<Rightarrow> bs)))
      (hour_segments m' (hk_hour hour))" if "f \<in> set (segment_files (ar_raw ar) hour)" for f
    proof -
      have "lax_verified (baked_segments m' (hk_hour hour)) (segment_found cd ar False (segment_name hour f))"
        using lax(4) that by (simp add: list_all_iff segments_on_disk_def)
      then obtain e where e: "dict_get (baked_segments m' (hk_hour hour)) (segment_name hour f) = Some e"
        "se_bytes e = sd_bytes (segment_found cd ar False (segment_name hour f))"
        by (auto simp: lax_verified_def split: option.splits)
      then show ?thesis using dict_get_SomeD [OF e(1)]
        by (auto simp: baked_segments_def list_ex_iff segment_found_def Let_def)
    qed
    moreover have "\<forall>e\<in>set (hour_parts m' (hk_hour hour)). part_content ar (pt_path e) \<noteq> None"
    proof
      fix e assume that: "e \<in> set (hour_parts m' (hk_hour hour))"
      have "lax_part (map (\<lambda>p. (pd_path p, p)) (rev (parts_on_disk cd ar (Some m') hour False))) e"
        using lax(6) that by (simp add: list_all_iff)
      then obtain p where p: "dict_get (map (\<lambda>p. (pd_path p, p)) (rev (parts_on_disk cd ar (Some m') hour False))) (pt_path e) = Some p" "pd_exists p"
        by (auto simp: lax_part_def split: option.splits)
      from dict_get_SomeD [OF p(1)] p(2) show "part_content ar (pt_path e) \<noteq> None"
        by (auto simp: parts_on_disk_def part_found_def split: if_splits)
    qed
    moreover have "none_missing ?f m'" by (rule lax)
    then have "\<forall>e\<in>set (hour_segments m' (hk_hour hour)).
        se_path e \<in> segment_name hour ` set (segment_files (ar_raw ar) hour) \<or> se_path e \<in> pr_path ` set (mf_pruned m')"
      by (simp add: none_missing_def list_all_iff segments_on_disk_def image_comp comp_def)
    ultimately show False using assms lax(1-3) by (auto simp: cheaply_refused_def Some list_ex_iff)
  qed
qed

lemma unhashed_facts:
  "facts_on_disk (cd\<lparr>cd_sha256 := f\<rparr>) ar m hour False = facts_on_disk cd ar m hour False"
  "read_manifest (cd\<lparr>cd_sha256 := f\<rparr>) ar dt = read_manifest cd ar dt"
proof -
  have "part_found (cd\<lparr>cd_sha256 := f\<rparr>) ar False = part_found cd ar False"
    "segment_found (cd\<lparr>cd_sha256 := f\<rparr>) ar False = segment_found cd ar False"
    by (simp_all add: fun_eq_iff part_found_def segment_found_def)
  then show "facts_on_disk (cd\<lparr>cd_sha256 := f\<rparr>) ar m hour False = facts_on_disk cd ar m hour False"
    by (simp add: facts_on_disk_def segments_on_disk_def parts_on_disk_def split: option.split)
qed (simp add: read_manifest_def split: option.split)

lemma refused_survey:
  assumes "survey_hour cd ar now ret ver hour = Inr d" "read_manifest cd ar (hk_date hour) = Inr m" "cheaply_refused ar m hour now ret ver"
  shows "survey_hour (cd\<lparr>cd_sha256 := f\<rparr>) ar now ret ver hour = Inr d \<and> \<not> de_prunable d"
proof -
  have n: "\<not> set (de_reasons (decide (facts_on_disk cd ar m hour False) m now ret ver)) \<subseteq> {Unverified}" by (rule refused_without_hashes [OF assms(3)])
  then have "de_reasons (decide (facts_on_disk cd ar m hour False) m now ret ver) \<noteq> [Unverified]" by auto
  then have d: "d = decide (facts_on_disk cd ar m hour False) m now ret ver"
    using assms(1,2) by (auto simp: survey_hour_def Let_def)
  have "de_prunable (decide g m now ret ver) \<longleftrightarrow> de_reasons (decide g m now ret ver) = []" for g
    unfolding decide_def Let_def by (simp split: prod.split)
  then have "\<not> de_prunable d" using n d by auto
  then show ?thesis using assms(2) n d by (auto simp: survey_hour_def unhashed_facts Let_def)
qed

text \<open>
  C20. Hashing lazily decides as hashing everything would. The hours a survey finds prunable, and
  the segments it then hands to deletion with their hashes, are those a decision with every hash
  computed gives. An hour that names, sizes or the manifest already rule out is refused without a
  hash: its decision, the reasons included, is the same whatever hash the files would give.
\<close>

theorem lazy_hashing_decides_alike:
  assumes "survey_hour cd ar now ret ver hour = Inr d" "read_manifest cd ar (hk_date hour) = Inr m"
    "segment_files (ar_raw ar) hour \<noteq> []"
  shows "de_prunable d = de_prunable (decide (facts_on_disk cd ar m hour True) m now ret ver) \<and>
    (if de_prunable d then de_segments d = segments_on_disk cd ar hour True else de_segments d = []) \<and>
    (cheaply_refused ar m hour now ret ver \<longrightarrow>
       \<not> de_prunable d \<and> (\<forall>f. survey_hour (cd\<lparr>cd_sha256 := f\<rparr>) ar now ret ver hour = Inr d))"
  using survey_hour_alike [OF assms] refused_survey [OF assms(1,2)] by blast

section \<open>The disk under a prune\<close>

definition codec_ok :: "('b, 'z) codec_scheme \<Rightarrow> bool" where
  "codec_ok cd \<longleftrightarrow> (\<forall>b m. cd_decode cd b = Some m \<longrightarrow> decodes m) \<and> (\<forall>m. decodes m \<longrightarrow> cd_decode cd (cd_encode cd m) = Some m) \<and>
     (\<forall>bs. Sha256 (cd_sha256 cd bs))"

definition same_place :: "string \<Rightarrow> string \<Rightarrow> bool" where
  "same_place a b \<longleftrightarrow> take 10 a = take 10 b \<and> take 2 (drop 11 a) = take 2 (drop 11 b) \<and> drop 14 a = drop 14 b"

lemma segment_name_split:
  assumes "is_segment_name a"
  shows "a = take 10 a @ CHR ''/'' # take 2 (drop 11 a) @ CHR ''/'' # drop 14 a"
proof -
  have a: "14 \<le> length a" "a ! 10 = CHR ''/''" "a ! 13 = CHR ''/''" using assms by (simp_all add: is_segment_name_def)
  have "a = take 10 a @ a ! 10 # drop 11 a" using a(1) id_take_nth_drop [of 10 a] by simp
  moreover have "drop 11 a = take 2 (drop 11 a) @ drop 11 a ! 2 # drop 3 (drop 11 a)" using a(1) id_take_nth_drop [of 2 "drop 11 a"] by simp
  ultimately show ?thesis using a by simp
qed

lemma same_place_eq: "is_segment_name a \<Longrightarrow> is_segment_name b \<Longrightarrow> same_place a b \<Longrightarrow> a = b"
  using segment_name_split [of a] segment_name_split [of b] by (simp add: same_place_def)

lemma dict_get_mapped: "dict_get (map (\<lambda>(k, v). (k, f k v)) d) k = map_option (f k) (dict_get d k)"
  by (induction d) auto

lemma unlink_content:
  "segment_content (unlink_raw n raw) k = (if same_place k n then None else segment_content raw k)"
proof -
  have e: "unlink_raw n raw = map (\<lambda>(dn, hours). (dn, (if dn = take 10 n then
      map (\<lambda>(hn, files). (hn, (if hn = take 2 (drop 11 n) then dict_pop (drop 14 n) files else files))) hours else hours))) raw"
    by (simp add: unlink_raw_def)
  show ?thesis
    unfolding e segment_content_def raw_dir_def dict_get_mapped
    by (cases "dict_get raw (take 10 k)") (auto simp: same_place_def dict_get_mapped dict_simps split: option.splits)
qed

lemma remove_content: "segment_content (remove_if_empty h raw) n = segment_content raw n"
proof -
  let ?dn = "date_isoformat (hk_date h)" and ?hn = "hour_text h"
  let ?raw = "map (\<lambda>(d, hours). (d, (if d = ?dn then dict_pop ?hn hours else hours))) raw"
  have one: "segment_content ?raw n = segment_content raw n" if "raw_dir raw ?dn ?hn = Some []"
    using that unfolding segment_content_def raw_dir_def dict_get_mapped
    by (cases "dict_get raw (take 10 n)") (auto simp: dict_simps split: option.splits)
  have two: "segment_content (dict_pop ?dn ?raw) n = segment_content ?raw n" if "dict_get ?raw ?dn = Some []"
    using that unfolding segment_content_def raw_dir_def by (auto simp: dict_simps)
  show ?thesis using one two by (auto simp: remove_if_empty_def Let_def split: option.splits list.splits)
qed

lemma run_ops_simps [simp]:
  "run_ops [] ar = ar" "run_ops (x # ops) ar = run_ops ops (run_op x ar)" "run_ops (ops @ ops') ar = run_ops ops' (run_ops ops ar)"
  by (simp_all add: run_ops_def)

lemma run_ops_content:
  "segment_content (ar_raw (run_ops ops ar)) n =
     (if \<exists>k. Unlink k \<in> set ops \<and> same_place n k then None else segment_content (ar_raw ar) n)"
proof (induction ops arbitrary: ar)
  case (Cons x ops)
  then show ?case by (cases x) (auto simp: unlink_content remove_content)
qed simp

lemma run_ops_baked [simp]: "ar_baked (run_ops ops ar) = ar_baked ar"
proof (induction ops arbitrary: ar)
  case (Cons x ops)
  then show ?case by (cases x) simp_all
qed simp

lemma run_ops_unwritten:
  "(\<And>b. WriteManifest dt b \<notin> set ops) \<Longrightarrow> dict_get (ar_manifests (run_ops ops ar)) dt = dict_get (ar_manifests ar) dt"
proof (induction ops arbitrary: ar)
  case (Cons x ops)
  have "dict_get (ar_manifests (run_op x ar)) dt = dict_get (ar_manifests ar) dt"
  proof (cases x)
    case (WriteManifest dt' b)
    then have "dt' \<noteq> dt" using Cons.prems by (metis list.set_intros(1))
    then show ?thesis using WriteManifest by (simp add: dict_simps)
  qed simp_all
  moreover have "dict_get (ar_manifests (run_ops ops (run_op x ar))) dt = dict_get (ar_manifests (run_op x ar)) dt"
    by (rule Cons.IH) (meson Cons.prems list.set_intros(2))
  ultimately show ?case by simp
qed simp

lemma run_ops_written:
  assumes "WriteManifest dt b \<in> set ops" "\<And>b'. WriteManifest dt b' \<in> set ops \<Longrightarrow> b' = b"
  shows "dict_get (ar_manifests (run_ops ops ar)) dt = Some b"
  using assms
proof (induction ops arbitrary: ar)
  case (Cons x ops)
  show ?case
  proof (cases "WriteManifest dt b \<in> set ops")
    case True
    have "dict_get (ar_manifests (run_ops ops (run_op x ar))) dt = Some b"
      by (rule Cons.IH [OF True]) (meson Cons.prems(2) list.set_intros(2))
    then show ?thesis by simp
  next
    case False
    then have "x = WriteManifest dt b" using Cons.prems(1) by simp
    moreover have "\<And>b'. WriteManifest dt b' \<notin> set ops" using False Cons.prems(2) by (metis list.set_intros(2))
    ultimately have "x = WriteManifest dt b" "\<And>b'. WriteManifest dt b' \<notin> set ops" by blast+
    then show ?thesis using run_ops_unwritten [of dt ops "run_op x ar"] by (simp add: dict_simps)
  qed
qed simp

section \<open>The steps of a prune\<close>

definition day_block ::
  "('b, 'z) codec_scheme \<Rightarrow> int \<Rightarrow> date \<Rightarrow> prune_decision list \<Rightarrow> 'b archive \<Rightarrow> manifest \<Rightarrow> pruned_segment list \<Rightarrow> manifest \<Rightarrow> bool" where
  "day_block cd w dt ds ar m recs updated \<longleftrightarrow> read_manifest cd ar dt = Inr (Some m) \<and>
     pruned_records w (concat (map de_segments ds)) = Inr recs \<and> with_pruned m recs = Inr updated"

lemma prune_day_block:
  assumes "prune_day cd w dt ds ar = Inr (ops, recs)"
  obtains m updated where "day_block cd w dt ds ar m recs updated"
    "ops = WriteManifest dt (cd_encode cd updated) # map (Unlink \<circ> pr_path) recs @ map (RemoveIfEmpty \<circ> de_hour) ds"
proof -
  obtain m where m: "read_manifest cd ar dt = Inr (Some m)" using assms by (auto simp: prune_day_def result_simps split: option.splits)
  obtain rs where rs: "pruned_records w (concat (map de_segments ds)) = Inr rs" using assms m by (auto simp: prune_day_def result_simps)
  show ?thesis
  proof (cases "with_pruned m rs")
    case (Inr updated)
    show ?thesis by (rule that [of m updated]) (use assms m rs Inr in \<open>auto simp: prune_day_def day_block_def\<close>)
  qed (use assms m rs in \<open>simp add: prune_day_def\<close>)
qed

lemma prune_days_writes:
  "prune_days cd wall days ar = (ops, r) \<Longrightarrow> WriteManifest dt b \<in> set ops \<Longrightarrow> dt \<in> fst ` set days"
proof (induction days arbitrary: ar ops r)
  case (Cons day days)
  obtain dt' ds where day: "day = (dt', ds)" by fastforce
  show ?case
  proof (cases "prune_day cd (wall dt') dt' ds ar")
    case (Inr p)
    then obtain ops1 recs where p: "prune_day cd (wall dt') dt' ds ar = Inr (ops1, recs)" by (cases p) auto
    obtain ops2 r2 where r2: "prune_days cd wall days (run_ops ops1 ar) = (ops2, r2)" by fastforce
    have "ops = ops1 @ ops2" using Cons.prems(1) by (simp add: day p r2)
    moreover have "WriteManifest dt b \<in> set ops1 \<Longrightarrow> dt = dt'" by (rule prune_day_block [OF p]) auto
    ultimately show ?thesis using Cons.IH [OF r2] Cons.prems(2) by (auto simp: day)
  qed (use Cons.prems in \<open>simp add: day\<close>)
qed simp

lemma prune_days_unlinks:
  assumes "prune_days cd wall days ar = (ops, r)" "distinct (map fst days)" "Unlink k \<in> set (take j ops)"
  shows "\<exists>dt ds m recs updated. (dt, ds) \<in> set days \<and> day_block cd (wall dt) dt ds ar m recs updated \<and> k \<in> pr_path ` set recs \<and>
    WriteManifest dt (cd_encode cd updated) \<in> set (take j ops) \<and> (\<forall>b. WriteManifest dt b \<in> set ops \<longrightarrow> b = cd_encode cd updated)"
  using assms
proof (induction days arbitrary: ar ops r j)
  case (Cons day days)
  obtain dt ds where day: "day = (dt, ds)" by fastforce
  show ?case
  proof (cases "prune_day cd (wall dt) dt ds ar")
    case (Inl e)
    then show ?thesis using Cons.prems by (simp add: day)
  next
    case (Inr p)
    then obtain ops1 recs where p: "prune_day cd (wall dt) dt ds ar = Inr (ops1, recs)" by (cases p) auto
    obtain ops2 r2 where r2: "prune_days cd wall days (run_ops ops1 ar) = (ops2, r2)" by fastforce
    have ops: "ops = ops1 @ ops2" using Cons.prems(1) by (simp add: day p r2)
    obtain m updated where blk: "day_block cd (wall dt) dt ds ar m recs updated"
      "ops1 = WriteManifest dt (cd_encode cd updated) # map (Unlink \<circ> pr_path) recs @ map (RemoveIfEmpty \<circ> de_hour) ds"
      by (rule prune_day_block [OF p])
    have other: "WriteManifest dt b \<notin> set ops2" for b using prune_days_writes [OF r2, of dt b] Cons.prems(2) by (auto simp: day)
    consider "Unlink k \<in> set (take j ops1)" | "Unlink k \<in> set (take (j - length ops1) ops2)"
      using Cons.prems(3) by (auto simp: ops)
    then show ?thesis
    proof cases
      case 1
      then have "k \<in> pr_path ` set recs" using set_take_subset [of j ops1] by (auto simp: blk(2))
      moreover have "WriteManifest dt (cd_encode cd updated) \<in> set (take j ops)"
        using 1 by (cases j) (simp_all add: ops blk(2))
      moreover have "\<forall>b. WriteManifest dt b \<in> set ops \<longrightarrow> b = cd_encode cd updated" using other by (auto simp: ops blk(2))
      ultimately show ?thesis using blk(1) unfolding day by (meson list.set_intros(1))
    next
      case 2
      obtain dt' ds' m' recs' updated' where IH: "(dt', ds') \<in> set days" "day_block cd (wall dt') dt' ds' (run_ops ops1 ar) m' recs' updated'"
        "k \<in> pr_path ` set recs'" "WriteManifest dt' (cd_encode cd updated') \<in> set (take (j - length ops1) ops2)"
        "\<forall>b. WriteManifest dt' b \<in> set ops2 \<longrightarrow> b = cd_encode cd updated'"
        using Cons.IH [OF r2 _ 2] Cons.prems(2) by auto
      have ne: "dt' \<noteq> dt" using IH(1) Cons.prems(2) by (force simp: day)
      then have "WriteManifest dt' b \<notin> set ops1" for b by (auto simp: blk(2))
      then have "read_manifest cd (run_ops ops1 ar) dt' = read_manifest cd ar dt'" "\<forall>b. WriteManifest dt' b \<in> set ops \<longrightarrow> b = cd_encode cd updated'"
        using run_ops_unwritten [of dt' ops1 ar] IH(5) by (simp_all add: read_manifest_def ops)
      moreover have "WriteManifest dt' (cd_encode cd updated') \<in> set (take j ops)" using IH(4) by (simp add: ops)
      ultimately show ?thesis using IH(1-3) unfolding day_block_def by (metis list.set_intros(2))
    qed
  qed
qed simp

lemma result_list_member: "result_list f xs = Inr ys \<Longrightarrow> y \<in> set ys \<Longrightarrow> \<exists>x\<in>set xs. f x = Inr y"
  by (induction xs arbitrary: ys) (auto simp: result_simps)

lemma by_day_groups:
  "dict_wf (by_day ds) \<and> (\<forall>(dt, g)\<in>set (by_day ds). \<forall>d\<in>set g. d \<in> set ds \<and> de_prunable d \<and> hk_date (de_hour d) = dt)"
proof -
  let ?f = "\<lambda>d days. if de_prunable d \<and> de_segments d \<noteq> []
      then dict_put (hk_date (de_hour d)) (dict_get_or days (hk_date (de_hour d)) [] @ [d]) days else days"
  have "dict_wf (fold ?f ds days) \<and> (\<forall>dt g. dict_get (fold ?f ds days) dt = Some g \<longrightarrow> (\<forall>d\<in>set g. d \<in> S \<union> set ds \<and> de_prunable d \<and> hk_date (de_hour d) = dt))"
    if "dict_wf days" "\<forall>dt g. dict_get days dt = Some g \<longrightarrow> (\<forall>d\<in>set g. d \<in> S \<and> de_prunable d \<and> hk_date (de_hour d) = dt)" for days S
    using that
  proof (induction ds arbitrary: days S)
    case (Cons x ds)
    have "\<forall>dt g. dict_get (?f x days) dt = Some g \<longrightarrow> (\<forall>d\<in>set g. d \<in> insert x S \<and> de_prunable d \<and> hk_date (de_hour d) = dt)"
    proof (intro allI impI ballI)
      fix dt g d assume g: "dict_get (?f x days) dt = Some g" and d: "d \<in> set g"
      show "d \<in> insert x S \<and> de_prunable d \<and> hk_date (de_hour d) = dt"
      proof (cases "(de_prunable x \<and> de_segments x \<noteq> []) \<and> dt = hk_date (de_hour x)")
        case True
        then have "g = dict_get_or days dt [] @ [x]" using g by (simp add: dict_simps)
        then consider "d = x" | g' where "dict_get days dt = Some g'" "d \<in> set g'"
          using d by (cases "dict_get days dt") (auto simp: dict_get_or_def)
        then show ?thesis using True Cons.prems(2) by cases blast+
      next
        case False
        then have "dict_get days dt = Some g" using g by (simp add: dict_simps split: if_splits)
        then show ?thesis using Cons.prems(2) d by blast
      qed
    qed
    moreover have "dict_wf (?f x days)" using Cons.prems(1) by simp
    moreover have eq: "insert x S \<union> set ds = S \<union> set (x # ds)" by auto
    ultimately show ?case using Cons.IH [of "?f x days" "insert x S"] unfolding fold_simps eq by blast
  qed simp
  note step = this
  have base: "\<forall>dt g. dict_get [] dt = Some g \<longrightarrow> (\<forall>d\<in>set g. d \<in> {} \<and> de_prunable d \<and> hk_date (de_hour d) = dt)" by simp
  note all = step [OF dict_wf_Nil base, folded by_day_def, unfolded Un_empty_left]
  show ?thesis
  proof (intro conjI ballI)
    show wf: "dict_wf (by_day ds)" using all by (rule conjunct1)
    fix x assume x: "x \<in> set (by_day ds)"
    obtain dt g where p: "x = (dt, g)" by (cases x)
    have "dict_get (by_day ds) dt = Some g" using x wf unfolding p by (simp only: dict_mem_get)
    then show "case x of (dt, g) \<Rightarrow> \<forall>d\<in>set g. d \<in> set ds \<and> de_prunable d \<and> hk_date (de_hour d) = dt"
      using all unfolding p prod.case by blast
  qed
qed

lemma pruned_records_result:
  "pruned_records w ss = Inr recs \<Longrightarrow>
     recs = map (\<lambda>s. \<lparr>pr_path = sd_path s, pr_bytes = sd_bytes s, pr_sha256 = the (sd_sha256 s), pr_pruned_wall_ns = w\<rparr>) ss"
  by (induction ss arbitrary: recs) (auto simp: result_simps split: option.splits)

section \<open>Crashes\<close>

lemma survey_decision:
  assumes s: "survey cd ar now ret ver = Inr ds" and d: "d \<in> set ds" "de_prunable d"
  obtains hour m where "de_hour d = hour" "read_manifest cd ar (hk_date hour) = Inr (Some m)"
    "de_prunable (decide (facts_on_disk cd ar (Some m) hour True) (Some m) now ret ver)"
    "de_segments d = segments_on_disk cd ar hour True"
proof -
  obtain hour where h: "survey_hour cd ar now ret ver hour = Inr d" "segment_files (ar_raw ar) hour \<noteq> []"
    using result_list_member [OF s [unfolded survey_def] d(1)] by auto
  obtain m where m: "read_manifest cd ar (hk_date hour) = Inr m" using h(1) by (auto simp: survey_hour_def result_simps)
  note alike = survey_hour_alike [OF h(1) m h(2)]
  have "de_hour (decide f m now ret ver) = hf_hour f" for f unfolding decide_def Let_def by (simp split: prod.split)
  then have "de_hour d = hour" using h(1) m by (auto simp: survey_hour_def Let_def)
  moreover obtain m' where "m = Some m'" using alike d(2) by (cases m) (simp_all add: decide_def Let_def no_reasons)
  ultimately show ?thesis using alike d(2) m that by auto
qed

lemma segment_hour_name: "segment_hour n = Inr place \<Longrightarrow> is_segment_name n"
  by (simp add: segment_hour_def split: if_splits)

lemma listed_segment:
  assumes c: "consistent m" and p: "de_prunable (decide (facts_on_disk cd ar (Some m) hour True) (Some m) now ret ver)"
    and k: "s \<in> set (segments_on_disk cd ar hour True)"
  obtains e where "e \<in> set (mf_segments m)" "se_path e = sd_path s" "se_bytes e = sd_bytes s" "sd_sha256 s = Some (se_sha256 e)"
    "segment_hour (sd_path s) = Inr (hk_date hour, hk_hour hour)"
proof -
  note q = p [unfolded prunable_parts on_disk_fields]
  have "verified (baked_segments m (hk_hour hour)) s" using q k by (simp add: list_all_iff)
  then obtain e where e: "e \<in> set (hour_segments m (hk_hour hour))" "se_path e = sd_path s" "se_bytes e = sd_bytes s" "sd_sha256 s = Some (se_sha256 e)"
    unfolding verified_ex [OF distinct_hour_segments [OF c]] by (auto simp: list_ex_iff)
  then have "e \<in> set (mf_segments m)" "se_hour e = hk_hour hour" by (simp_all add: hour_segments_def)
  then show ?thesis using that e consistent_parts(5) [OF c] q by metis
qed

lemma safe_iff_prunable:
  assumes "consistent m" "mf_date m = hk_date hour"
  shows "safe_to_prune (facts_on_disk cd ar (Some m) hour True) m now ret ver \<longleftrightarrow>
    de_prunable (decide (facts_on_disk cd ar (Some m) hour True) (Some m) now ret ver)"
proof -
  have "distinct (map pd_path (hf_parts (facts_on_disk cd ar (Some m) hour True)))"
    using hour_parts_distinct [OF assms(1)] assms(2) by (simp add: parts_on_disk_def comp_def)
  from prunable_when_safe [OF assms(1) this] show ?thesis by blast
qed

text \<open>
  C3. Nothing is deleted that is not recorded first. Run \<^verbatim>\<open>tape prune\<close> on any archive and stop it
  after any number of its writes to disk: a segment that is gone was of an hour that met every
  condition for pruning, and the manifest on disk, which still decodes, lists it as pruned with its
  size and hash. The baked tables are untouched.
\<close>

theorem prune_survives_a_crash:
  assumes "codec_ok cd" "survey cd ar now ret ver = Inr ds" "apply_prune cd wall ds ar = (ops, r)"
    "is_segment_name name" "segment_content (ar_raw ar) name = Some content"
    "segment_content (ar_raw (run_ops (take k ops) ar)) name = None"
  shows "\<exists>hour m m'. segment_hour name = Inr (hk_date hour, hk_hour hour) \<and> read_manifest cd ar (hk_date hour) = Inr (Some m) \<and>
    safe_to_prune (facts_on_disk cd ar (Some m) hour True) m now ret ver \<and>
    read_manifest cd (run_ops (take k ops) ar) (hk_date hour) = Inr (Some m') \<and>
    list_ex (\<lambda>p. pr_path p = name \<and> pr_bytes p = int (length content) \<and> pr_sha256 p = cd_sha256 cd content) (mf_pruned m') \<and>
    ar_baked (run_ops (take k ops) ar) = ar_baked ar"
proof -
  obtain key where key: "Unlink key \<in> set (take k ops)" "same_place name key"
    using assms(5,6) by (auto simp: run_ops_content split: if_splits)
  have "distinct (map fst (sort_key fst (by_day ds)))"
    using by_day_groups [of ds] by (simp add: dict_wf_def distinct_map inj_on_def)
  from prune_days_unlinks [OF assms(3) [unfolded apply_prune_def] this key(1)]
  obtain dt g m recs updated where b: "(dt, g) \<in> set (by_day ds)" "day_block cd (wall dt) dt g ar m recs updated" "key \<in> pr_path ` set recs"
      "WriteManifest dt (cd_encode cd updated) \<in> set (take k ops)" "\<forall>b. WriteManifest dt b \<in> set ops \<longrightarrow> b = cd_encode cd updated"
    by auto
  have blk: "read_manifest cd ar dt = Inr (Some m)" "with_pruned m recs = Inr updated"
    and recs: "recs = map (\<lambda>s. \<lparr>pr_path = sd_path s, pr_bytes = sd_bytes s, pr_sha256 = the (sd_sha256 s), pr_pruned_wall_ns = wall dt\<rparr>) (concat (map de_segments g))"
    using b(2) pruned_records_result by (auto simp: day_block_def)
  have dec: "decodes m" using blk(1) assms(1) by (auto simp: read_manifest_def codec_ok_def split: option.splits)
  note c = decodes_consistent [OF dec]
  have member: "\<exists>hour. hk_date hour = dt \<and> s \<in> set (segments_on_disk cd ar hour True) \<and>
      de_prunable (decide (facts_on_disk cd ar (Some m) hour True) (Some m) now ret ver)" if s: "s \<in> set (concat (map de_segments g))" for s
  proof -
    obtain d where d: "d \<in> set g" "s \<in> set (de_segments d)" using s by auto
    then have "d \<in> set ds" "de_prunable d" "hk_date (de_hour d) = dt" using by_day_groups [of ds] b(1) by blast+
    then show ?thesis using survey_decision [OF assms(2)] d(2) blk(1) by (metis option.inject sum.inject(2))
  qed
  have "key \<in> sd_path ` set (concat (map de_segments g))" using b(3) unfolding recs set_map by (simp only: image_image pruned_segment.select_convs)
  then obtain s where s: "s \<in> set (concat (map de_segments g))" "sd_path s = key" by blast
  obtain hour where h: "hk_date hour = dt" "s \<in> set (segments_on_disk cd ar hour True)"
      "de_prunable (decide (facts_on_disk cd ar (Some m) hour True) (Some m) now ret ver)"
    using member [OF s(1)] by blast
  obtain e where e: "e \<in> set (mf_segments m)" "se_path e = key" "se_bytes e = sd_bytes s" "sd_sha256 s = Some (se_sha256 e)"
      "segment_hour key = Inr (dt, hk_hour hour)"
    by (rule listed_segment [OF c h(3,2)]) (use s(2) h(1) that in auto)
  have name: "name = key" using same_place_eq [OF assms(4) segment_hour_name [OF e(5)] key(2)] .
  have sd: "sd_bytes s = int (length content)" "sd_sha256 s = Some (cd_sha256 cd content)"
    using h(2) s(2) assms(5) name by (auto simp: segments_on_disk_def segment_found_def Let_def)
  have "NonNegative (pr_bytes p) \<and> Sha256 (pr_sha256 p)" if pp: "p \<in> set recs" for p
  proof -
    obtain t where t: "t \<in> set (concat (map de_segments g))" "p = \<lparr>pr_path = sd_path t, pr_bytes = sd_bytes t, pr_sha256 = the (sd_sha256 t), pr_pruned_wall_ns = wall dt\<rparr>"
      using pp unfolding recs set_map by blast
    obtain hour' where "t \<in> set (segments_on_disk cd ar hour' True)" using member [OF t(1)] by blast
    then show ?thesis using assms(1) by (auto simp: t(2) segments_on_disk_def segment_found_def Let_def NonNegative_def codec_ok_def)
  qed
  then have dec': "decodes updated" by (rule with_pruned_decodes [OF blk(2) dec])
  note wp = with_pruned_result [OF blk(2) c]
  obtain p where p: "p \<in> set (mf_pruned updated)" "pr_path p = key" using wp(5) b(3) by auto
  obtain e' where e': "e' \<in> set (mf_segments m)" "se_path e' = key" "se_bytes e' = pr_bytes p" "se_sha256 e' = pr_sha256 p"
    using consistent_parts(7) [OF wp(1) p(1)] wp(7) p(2) by auto
  have "e' = e" using consistent_parts(2) [OF c] e(1,2) e'(1,2) by (metis distinct_map inj_onD)
  then have "pr_bytes p = int (length content)" "pr_sha256 p = cd_sha256 cd content" using e(3,4) e' sd by auto
  then have "list_ex (\<lambda>p. pr_path p = name \<and> pr_bytes p = int (length content) \<and> pr_sha256 p = cd_sha256 cd content) (mf_pruned updated)"
    using p name by (auto simp: list_ex_iff)
  moreover have "b' = cd_encode cd updated" if "WriteManifest dt b' \<in> set (take k ops)" for b'
    using that b(5) set_take_subset [of k ops] by blast
  from run_ops_written [OF b(4) this] have "read_manifest cd (run_ops (take k ops) ar) dt = Inr (Some updated)"
    using assms(1) dec' by (simp add: read_manifest_def codec_ok_def)
  moreover have "safe_to_prune (facts_on_disk cd ar (Some m) hour True) m now ret ver"
  proof -
    have "mf_date m = hk_date hour" using h(3) [unfolded prunable_parts on_disk_fields] by blast
    then show ?thesis using h(3) safe_iff_prunable [OF c] by blast
  qed
  ultimately show ?thesis using e(5) name h(1) blk(1) by auto
qed

section \<open>Manifests that decode\<close>

lemma with_hour_decodes:
  assumes w: "with_hour m bake segments parts v off = Inr m'" and d: "decodes m"
    and "bake_decodes bake" "list_all segment_decodes segments" "list_all (\<lambda>(_, files). list_all part_decodes files) parts"
  shows "decodes m'"
proof -
  have "list_all part_decodes (dict_get_or parts name [])" for name
    using assms(5) by (cases "dict_get parts name") (force simp: dict_get_or_def list_all_iff dest: dict_get_SomeD)+
  then show ?thesis using d assms(3,4) table_files_decode [OF d]
    by (intro assemble_decodes [OF with_hour_assembles [OF w]]) (auto simp: decodes_def list_all_iff)
qed

lemma new_manifest_decodes: "new_manifest dt v = Inr m \<Longrightarrow> valid_date dt \<Longrightarrow> decodes m"
  unfolding new_manifest_def by (erule assemble_decodes) simp_all

section \<open>An example archive\<close>

definition example_codec :: "manifest codec" where
  "example_codec = \<lparr>cd_encode = (\<lambda>m. m), cd_decode = (\<lambda>m. if decodes m then Some m else None), cd_sha256 = (\<lambda>_. example_digest)\<rparr>"

definition example_baked :: "manifest_error + manifest" where
  "example_baked =
     result_bind (new_manifest (2026, 9, 11) ''1.0'') (\<lambda>m0.
       with_hour m0 (bake_with 1 [] []) [example_segment (pr_path example_pruned) 1] [] ''1.0'' None)"

definition example_archive :: "manifest \<Rightarrow> manifest archive" where
  "example_archive m =
     \<lparr>ar_raw = [(''2026-09-11'', [(''01'', [(''conn-00-a.tape.zst'', ''0123456'')])])], ar_baked = [],
      ar_manifests = [((2026, 9, 11), m)]\<rparr>"

lemmas example_eval = example_segment_def example_pruned_def bake_with_def example_names Let_def

lemma example_codec_ok: "codec_ok example_codec"
  by (simp add: codec_ok_def example_codec_def Sha256_def example_digest_def numeral_eq_Suc)

lemma example_baked:
  obtains m m2 where "example_baked = Inr m" "with_pruned m [example_pruned] = Inr m2" "mf_date m = (2026, 9, 11)" "mf_hours m = [bake_with 1 [] []]"
    "mf_segments m = [example_segment (pr_path example_pruned) 1]" "mf_pruned m = []" "hour_parts m 1 = []" "decodes m"
proof -
  obtain m0 m m2 where m0: "new_manifest (2026, 9, 11) ''1.0'' = Inr m0" and m2: "with_pruned m [example_pruned] = Inr m2"
    and m: "with_hour m0 (bake_with 1 [] []) [example_segment (pr_path example_pruned) 1] [] ''1.0'' None = Inr m"
    using example_day_ok by (auto simp: example_day_ok_def example_day_def result_simps split: sum.splits)
  note r0 = assemble_result [OF m0 [unfolded new_manifest_def]]
  have c0: "consistent m0" using assemble_consistent m0 by (simp add: new_manifest_def)
  note w = with_hour_result [OF m c0]
  have view: "hour_view m 1 = ([bake_with 1 [] []], [example_segment (pr_path example_pruned) 1], [])"
    using w(6) by (simp add: bake_with_def TABLE_NAMES_def dict_get_or_def)
  note r = assemble_result [OF with_hour_assembles [OF m]]
  have asm: "mf_segments m = [example_segment (pr_path example_pruned) 1]" "mf_hours m = [bake_with 1 [] []]"
    using r(5,6) r0(5,6) by simp_all
  have name: "is_segment_name ''2026-09-11/01/conn-00-a.tape.zst''" by (rule segment_hour_name [OF example_names(1)])
  have "decodes m"
  proof (rule with_hour_decodes [OF m new_manifest_decodes [OF m0]])
    show "valid_date (2026, 9, 11)" by (simp add: valid_date_def days_in_month_def month_days_def)
    show "bake_decodes (bake_with 1 [] [])"
      by (simp add: bake_decodes_def bake_with_def HourOfDay_def BakeVersion_def accounting_decodes_def counts_ok_def NonNegative_def
          accounting_error_def RECORD_KINDS_def counts_total_def integrity_decodes_def)
    show "list_all segment_decodes [example_segment (pr_path example_pruned) 1]"
      using name by (simp add: segment_decodes_def example_segment_def example_pruned_def HourOfDay_def NonNegative_def
          Sha256_def example_digest_def numeral_eq_Suc)
  qed simp
  moreover have "hour_parts m 1 = []" using view by (simp add: hour_view_def)
  ultimately show ?thesis using that [of m m2] asm r0(2,7) w(2,3) m0 m m2 by (simp add: example_baked_def)
qed

definition example_hour_key :: hour_key where "example_hour_key = HourKey (2026, 9, 11) 1"

lemma example_texts:
  "date_isoformat (2026, 9, 11) = ''2026-09-11''" "hour_text example_hour_key = ''01''"
  by (simp_all add: date_isoformat_def hour_text_def example_hour_key_def show_nat_def digits_of_eval zero_pad_def digit_char_def)

lemma example_disk:
  "raw_hours (ar_raw (example_archive m)) = [example_hour_key]"
  "segment_files (ar_raw (example_archive m)) example_hour_key = [''conn-00-a.tape.zst'']"
  "segment_name example_hour_key ''conn-00-a.tape.zst'' = pr_path example_pruned"
  "segment_content (ar_raw (example_archive m)) (pr_path example_pruned) = Some ''0123456''"
proof -
  have k: "hour_ok_key example_hour_key" "hour_label example_hour_key = ''2026-09-11T01''"
    using example_texts by (simp_all add: hour_ok_key_def example_hour_key_def valid_date_def days_in_month_def month_days_def HOURS_PER_DAY_def hour_label_def)
  have "is_date_text ''2026-09-11''" "is_hour_text ''01''"
    by (simp_all add: is_date_text_def is_hour_text_def is_digit_def digit_val_def)
  then show "raw_hours (ar_raw (example_archive m)) = [example_hour_key]"
    using parse_hour_label [OF k(1)] k(2) by (simp add: raw_hours_def example_archive_def)
  show "segment_files (ar_raw (example_archive m)) example_hour_key = [''conn-00-a.tape.zst'']"
    using example_texts by (simp add: segment_files_def raw_dir_def example_archive_def example_hour_key_def ends_with_def SEGMENT_SUFFIX_def)
  show "segment_name example_hour_key ''conn-00-a.tape.zst'' = pr_path example_pruned"
    using example_texts by (simp add: segment_name_def hour_dir_def path_sep_def example_hour_key_def example_pruned_def)
  show "segment_content (ar_raw (example_archive m)) (pr_path example_pruned) = Some ''0123456''"
    by (simp add: segment_content_def raw_dir_def example_archive_def example_pruned_def)
qed

definition example_now :: int where "example_now = end_wall_ns example_hour_key + 72 * NS_PER_HOUR + 1"

lemma example_safe:
  assumes "mf_date m = (2026, 9, 11)" "mf_hours m = [bake_with 1 [] []]"
    "mf_segments m = [example_segment (pr_path example_pruned) 1]" "hour_parts m 1 = []"
  shows "de_prunable (decide (facts_on_disk example_codec (example_archive m) (Some m) example_hour_key True) (Some m) example_now 72 1)"
proof -
  have k: "hk_date example_hour_key = (2026, 9, 11)" "hk_hour example_hour_key = 1" by (simp_all add: example_hour_key_def)
  have segs: "segments_on_disk example_codec (example_archive m) example_hour_key True =
      [\<lparr>sd_path = pr_path example_pruned, sd_bytes = 7, sd_sha256 = Some example_digest\<rparr>]"
    by (simp add: segments_on_disk_def segment_found_def Let_def example_disk example_codec_def)
  have hs: "hour_segments m 1 = [example_segment (pr_path example_pruned) 1]" using assms(3) by (simp add: hour_segments_def example_segment_def)
  show ?thesis
    unfolding prunable_parts on_disk_fields k segs assms(4)
    using assms(1,2) hs by (simp add: example_now_def hour_bake_of_def bake_with_def accounting_failures_def counts_total_def
        baked_segments_def verified_def example_segment_def none_missing_def k segs)
qed

lemma example_survey:
  assumes "mf_date m = (2026, 9, 11)" "mf_hours m = [bake_with 1 [] []]"
    "mf_segments m = [example_segment (pr_path example_pruned) 1]" "hour_parts m 1 = []" "decodes m"
  obtains d where "survey example_codec (example_archive m) example_now 72 1 = Inr [d]" "de_prunable d" "de_hour d = example_hour_key"
    "de_segments d = [\<lparr>sd_path = pr_path example_pruned, sd_bytes = 7, sd_sha256 = Some example_digest\<rparr>]"
proof -
  let ?ar = "example_archive m"
  have rm: "read_manifest example_codec ?ar (hk_date example_hour_key) = Inr (Some m)"
    using assms(5) by (simp add: read_manifest_def example_archive_def example_hour_key_def example_codec_def)
  obtain d where d: "survey_hour example_codec ?ar example_now 72 1 example_hour_key = Inr d" by (simp add: survey_hour_def rm Let_def)
  have "segment_files (ar_raw ?ar) example_hour_key \<noteq> []" by (simp add: example_disk)
  note alike = survey_hour_alike [OF d rm this]
  have p: "de_prunable d" using alike example_safe [OF assms(1-4)] by simp
  have s: "survey example_codec ?ar example_now 72 1 = Inr [d]" by (simp add: survey_def example_disk d)
  have "de_hour (decide f m' now ret ver) = hf_hour f" for f m' now ret ver unfolding decide_def Let_def by (simp split: prod.split)
  then have "de_hour d = example_hour_key" using d rm by (auto simp: survey_hour_def Let_def)
  moreover have "de_segments d = [\<lparr>sd_path = pr_path example_pruned, sd_bytes = 7, sd_sha256 = Some example_digest\<rparr>]"
    using alike p by (simp add: segments_on_disk_def segment_found_def Let_def example_disk example_codec_def)
  ultimately show ?thesis using that s p by blast
qed

theorem prune_survives_a_crash_witness:
  "\<exists>m ds ops r m'. survey example_codec (example_archive m) example_now 72 1 = Inr ds \<and>
     apply_prune example_codec (\<lambda>_. 5) ds (example_archive m) = (ops, r) \<and>
     segment_content (ar_raw (run_ops (take 2 ops) (example_archive m))) (pr_path example_pruned) = None \<and>
     read_manifest example_codec (run_ops (take 2 ops) (example_archive m)) (2026, 9, 11) = Inr (Some m') \<and>
     list_ex (\<lambda>p. pr_path p = pr_path example_pruned) (mf_pruned m')"
proof -
  obtain m m2 where m: "example_baked = Inr m" "with_pruned m [example_pruned] = Inr m2" "mf_date m = (2026, 9, 11)" "mf_hours m = [bake_with 1 [] []]"
    "mf_segments m = [example_segment (pr_path example_pruned) 1]" "mf_pruned m = []" "hour_parts m 1 = []" "decodes m"
    by (rule example_baked)
  let ?ar = "example_archive m"
  obtain d where d: "survey example_codec ?ar example_now 72 1 = Inr [d]" "de_prunable d" "de_hour d = example_hour_key"
    "de_segments d = [\<lparr>sd_path = pr_path example_pruned, sd_bytes = 7, sd_sha256 = Some example_digest\<rparr>]"
    by (rule example_survey [OF m(3,4,5,7,8)])
  have rm: "read_manifest example_codec ?ar (2026, 9, 11) = Inr (Some m)"
    using m(8) by (simp add: read_manifest_def example_archive_def example_codec_def)
  have rec: "\<lparr>pr_path = pr_path example_pruned, pr_bytes = 7, pr_sha256 = example_digest, pr_pruned_wall_ns = 5\<rparr> = example_pruned"
    by (simp add: example_pruned_def)
  have "by_day [d] = [((2026, 9, 11), [d])]" using d(2-4) by (simp add: by_day_def dict_get_or_def example_hour_key_def)
  then have ops: "apply_prune example_codec (\<lambda>_. 5) [d] ?ar =
      ([WriteManifest (2026, 9, 11) m2, Unlink (pr_path example_pruned), RemoveIfEmpty example_hour_key], Inr [example_pruned])"
    using m(2) d(3,4) rm by (simp add: apply_prune_def prune_day_def rec) (simp add: example_codec_def)
  have gone: "segment_content (ar_raw (run_ops (take 2 [WriteManifest (2026, 9, 11) m2, Unlink (pr_path example_pruned), RemoveIfEmpty example_hour_key]) ?ar)) (pr_path example_pruned) = None"
    unfolding run_ops_content by (simp add: same_place_def)
  have name: "is_segment_name (pr_path example_pruned)" using segment_hour_name [OF example_names(1)] by (simp add: example_pruned_def)
  from prune_survives_a_crash [OF example_codec_ok d(1) ops name example_disk(4) gone]
  obtain hour m' where h: "segment_hour (pr_path example_pruned) = Inr (hk_date hour, hk_hour hour)"
    "read_manifest example_codec (run_ops (take 2 [WriteManifest (2026, 9, 11) m2, Unlink (pr_path example_pruned), RemoveIfEmpty example_hour_key]) ?ar) (hk_date hour) = Inr (Some m')"
    "list_ex (\<lambda>p. pr_path p = pr_path example_pruned) (mf_pruned m')"
    by (auto simp: list_ex_iff)
  have "hk_date hour = (2026, 9, 11)" using h(1) by (simp add: example_pruned_def example_names)
  then show ?thesis using h d(1) ops gone by (metis (no_types, lifting))
qed

theorem prunable_exactly_when_safe_witness:
  "\<exists>m. example_baked = Inr m \<and>
     safe_to_prune (facts_on_disk example_codec (example_archive m) (Some m) example_hour_key True) m example_now 72 1"
proof -
  obtain m m2 where m: "example_baked = Inr m" "with_pruned m [example_pruned] = Inr m2" "mf_date m = (2026, 9, 11)" "mf_hours m = [bake_with 1 [] []]"
    "mf_segments m = [example_segment (pr_path example_pruned) 1]" "mf_pruned m = []" "hour_parts m 1 = []" "decodes m"
    by (rule example_baked)
  have "distinct (map pd_path (hf_parts (facts_on_disk example_codec (example_archive m) (Some m) example_hour_key True)))"
    using m(3,7) by (simp add: parts_on_disk_def example_hour_key_def)
  from prunable_exactly_when_safe [OF decodes_consistent [OF m(8)] this] example_safe [OF m(3,4,5,7)] m(1) show ?thesis by blast
qed

theorem lazy_hashing_decides_alike_witness:
  "\<exists>m d. survey example_codec (example_archive m) example_now 72 1 = Inr [d] \<and> de_prunable d \<and>
     de_segments d = segments_on_disk example_codec (example_archive m) example_hour_key True \<and>
     (\<exists>early. \<not> de_prunable early \<and>
        (\<forall>f. survey_hour (example_codec\<lparr>cd_sha256 := f\<rparr>) (example_archive m) (example_now - 1) 72 1 example_hour_key = Inr early))"
proof -
  obtain m m2 where m: "example_baked = Inr m" "with_pruned m [example_pruned] = Inr m2" "mf_date m = (2026, 9, 11)" "mf_hours m = [bake_with 1 [] []]"
    "mf_segments m = [example_segment (pr_path example_pruned) 1]" "mf_pruned m = []" "hour_parts m 1 = []" "decodes m"
    by (rule example_baked)
  let ?ar = "example_archive m"
  have rm: "read_manifest example_codec ?ar (hk_date example_hour_key) = Inr (Some m)"
    using m(8) by (simp add: read_manifest_def example_archive_def example_hour_key_def example_codec_def)
  obtain d where d: "survey_hour example_codec ?ar example_now 72 1 example_hour_key = Inr d" by (simp add: survey_hour_def rm Let_def)
  have s: "survey example_codec ?ar example_now 72 1 = Inr [d]" by (simp add: survey_def example_disk d)
  have "segment_files (ar_raw ?ar) example_hour_key \<noteq> []" by (simp add: example_disk)
  note files = this
  obtain early where early: "survey_hour example_codec ?ar (example_now - 1) 72 1 example_hour_key = Inr early" by (simp add: survey_hour_def rm Let_def)
  have "cheaply_refused ?ar (Some m) example_hour_key (example_now - 1) 72 1"
    by (simp add: cheaply_refused_def example_now_def)
  with lazy_hashing_decides_alike [OF early rm files]
  have e: "\<not> de_prunable early \<and> (\<forall>f. survey_hour (example_codec\<lparr>cd_sha256 := f\<rparr>) ?ar (example_now - 1) 72 1 example_hour_key = Inr early)" by blast
  from lazy_hashing_decides_alike [OF d rm files] example_safe [OF m(3,4,5,7)]
  have "de_prunable d \<and> de_segments d = segments_on_disk example_codec ?ar example_hour_key True" by simp
  with s e show ?thesis by blast
qed

end
