(* ===== verification/Spill.thy ===== *)
theory Spill
  imports Manifest "HOL-Library.Word"
begin

unbundle bit_operations_syntax

text \<open>
  \<^verbatim>\<open>tape/bake/spill.py\<close>: a table's rows, however many, as sorted parts of bounded size. The spill file
  is its batches in order, each of one bucket, its rows with the ordinals they were added at. A
  part file is the list of its rows; Parquet, Arrow's files and the row groups are left out. A row
  has its values as cells, in the order of the table's columns, and is spilled only if Arrow can
  convert each to its column's type; fewer than \<^verbatim>\<open>2^63\<close> rows are added to a table.
  \<^verbatim>\<open>sort_indices\<close> sorts by the keys, nulls last, then by the ordinal.
\<close>

section \<open>Buckets\<close>

definition SPILL_BUCKETS :: nat where "SPILL_BUCKETS = 64"
definition DEFAULT_FLUSH_ROWS :: nat where "DEFAULT_FLUSH_ROWS = 50000"

text \<open>CRC-32 as zlib computes it, bit by bit, and the UTF-8 of a code point below 256.\<close>

definition crc_bit :: "32 word \<Rightarrow> 32 word" where
  "crc_bit c = (if c AND 1 = 1 then drop_bit 1 c XOR 0xEDB88320 else drop_bit 1 c)"

definition crc_byte :: "nat \<Rightarrow> 32 word \<Rightarrow> 32 word" where
  "crc_byte b c = (crc_bit ^^ 8) (c XOR of_nat b)"

definition crc32 :: "nat list \<Rightarrow> nat" where
  "crc32 bytes = unat (NOT (fold crc_byte bytes (NOT 0 :: 32 word)))"

definition utf8_byte :: "char \<Rightarrow> nat list" where
  "utf8_byte ch = (let n = of_char ch :: nat in if n < 128 then [n] else [192 + n div 64, 128 + n mod 64])"

definition bucket_of :: "string \<Rightarrow> nat" where
  "bucket_of t = crc32 (concat (map utf8_byte t)) mod SPILL_BUCKETS"

section \<open>Parts\<close>

type_synonym bucket_range = "nat \<times> nat \<times> nat"

datatype spill_error = PartRowsNotPositive | WriterFinished | WrongWidth | ValueDoesNotFit | NoSuchTable

function cut_bucket :: "nat \<Rightarrow> nat \<Rightarrow> nat \<Rightarrow> nat \<Rightarrow> bucket_range list list \<times> nat" where
  "cut_bucket max_part_rows bucket rows first =
     (if 0 < max_part_rows \<and> rows - first > max_part_rows then
        (case cut_bucket max_part_rows bucket rows (first + max_part_rows) of
           (parts, first') \<Rightarrow> ([(bucket, first, first + max_part_rows)] # parts, first'))
      else ([], first))"
  by pat_completeness auto

termination
  by (relation "measure (\<lambda>(_, _, rows, first). rows - first)") auto

declare cut_bucket.simps [simp del]

fun plan_from :: "nat \<Rightarrow> nat \<Rightarrow> nat list \<Rightarrow> bucket_range list \<Rightarrow> nat \<Rightarrow> bucket_range list list" where
  "plan_from max_part_rows bucket [] current current_rows = (if current \<noteq> [] then [current] else [])"
| "plan_from max_part_rows bucket (rows # rest) current current_rows =
     (if rows = 0 then plan_from max_part_rows (bucket + 1) rest current current_rows
      else let full = (current_rows + rows > max_part_rows \<and> current \<noteq> []);
               done_parts = (if full then [current] else []);
               current = (if full then [] else current);
               current_rows = (if full then 0 else current_rows);
               (cuts, first) = cut_bucket max_part_rows bucket rows 0
           in done_parts @ cuts @
              plan_from max_part_rows (bucket + 1) rest (current @ [(bucket, first, rows)]) (current_rows + (rows - first)))"

definition plan_parts :: "nat list \<Rightarrow> nat \<Rightarrow> spill_error + bucket_range list list" where
  "plan_parts bucket_rows max_part_rows =
     (if max_part_rows = 0 then Inl PartRowsNotPositive else Inr (plan_from max_part_rows 0 bucket_rows [] 0))"

section \<open>The writer\<close>

text \<open>A value in a sort key: nulls after the rest.\<close>

type_synonym sort_cell = "nat \<times> int \<times> string"

definition int_cell :: "int \<Rightarrow> sort_cell" where "int_cell n = (0, n, [])"
definition text_cell :: "string \<Rightarrow> sort_cell" where "text_cell t = (0, 0, t)"
definition opt_cell :: "int option \<Rightarrow> sort_cell" where
  "opt_cell v = (case v of None \<Rightarrow> (1, 0, []) | Some n \<Rightarrow> int_cell n)"

text \<open>A value of a row and the Arrow type of a column; a null converts to any type.\<close>

datatype cell = NullCell | IntCell int | TextCell string | BoolCell bool

datatype column_type = Int8 | Int16 | Int32 | Int64 | TextType | BoolType

fun int_width :: "column_type \<Rightarrow> nat option" where
  "int_width Int8 = Some 8"
| "int_width Int16 = Some 16"
| "int_width Int32 = Some 32"
| "int_width Int64 = Some 64"
| "int_width _ = None"

fun cell_fits :: "column_type \<Rightarrow> cell \<Rightarrow> bool" where
  "cell_fits ty NullCell = True"
| "cell_fits ty (IntCell n) = (case int_width ty of None \<Rightarrow> False | Some w \<Rightarrow> - (2 ^ (w - 1)) \<le> n \<and> n < 2 ^ (w - 1))"
| "cell_fits ty (TextCell _) = (ty = TextType)"
| "cell_fits ty (BoolCell _) = (ty = BoolType)"

record 'r table_spec =
  ts_columns :: "column_type list"
  ts_cells :: "'r \<Rightarrow> cell list"
  ts_sort_keys :: "'r \<Rightarrow> sort_cell list"
  ts_partition_key :: "'r \<Rightarrow> string"

type_synonym 'r spill_batch = "nat \<times> ('r \<times> nat) list"

record 'r table_writer =
  tw_spec :: "'r table_spec"
  tw_max_part_rows :: nat
  tw_flush_rows :: nat
  tw_buffer :: "'r list"
  tw_added :: nat
  tw_bucket_rows :: "nat list"
  tw_batches :: "'r spill_batch list"
  tw_done :: bool

definition new_table_writer :: "'r table_spec \<Rightarrow> nat \<Rightarrow> nat \<Rightarrow> spill_error + 'r table_writer" where
  "new_table_writer spec max_part_rows flush_rows =
     (if max_part_rows = 0 \<or> flush_rows = 0 then Inl PartRowsNotPositive
      else Inr \<lparr>tw_spec = spec, tw_max_part_rows = max_part_rows, tw_flush_rows = flush_rows, tw_buffer = [], tw_added = 0,
                tw_bucket_rows = replicate SPILL_BUCKETS 0, tw_batches = [], tw_done = False\<rparr>)"

definition tw_rows :: "'r table_writer \<Rightarrow> nat" where
  "tw_rows w = tw_added w + length (tw_buffer w)"

definition row_bucket :: "'r table_writer \<Rightarrow> 'r \<Rightarrow> nat" where
  "row_bucket w r = bucket_of (ts_partition_key (tw_spec w) r)"

definition row_width_ok :: "'r table_spec \<Rightarrow> 'r \<Rightarrow> bool" where
  "row_width_ok spec r \<longleftrightarrow> length (ts_cells spec r) = length (ts_columns spec)"

definition row_fits :: "'r table_spec \<Rightarrow> 'r \<Rightarrow> bool" where
  "row_fits spec r \<longleftrightarrow> list_all2 cell_fits (ts_columns spec) (ts_cells spec r)"

text \<open>The rows of a bucket keep their order: the batch is sorted by bucket, stably, and sliced.\<close>

definition spill_buffer :: "'r table_writer \<Rightarrow> 'r table_writer" where
  "spill_buffer w =
     (if tw_buffer w = [] then w
      else let numbered = zip (tw_buffer w) [tw_added w..<tw_added w + length (tw_buffer w)];
               of_bucket = (\<lambda>b. filter (\<lambda>(r, _). row_bucket w r = b) numbered);
               slices = filter (\<lambda>(_, rs). rs \<noteq> []) (map (\<lambda>b. (b, of_bucket b)) [0..<SPILL_BUCKETS])
           in w\<lparr>tw_batches := tw_batches w @ slices,
                tw_bucket_rows := map (\<lambda>b. tw_bucket_rows w ! b + length (of_bucket b)) [0..<SPILL_BUCKETS],
                tw_added := tw_added w + length (tw_buffer w), tw_buffer := []\<rparr>)"

text \<open>Where a value does not fit its column, the conversion raises before anything is moved.\<close>

definition tw_spill :: "'r table_writer \<Rightarrow> 'r table_writer \<times> (spill_error + unit)" where
  "tw_spill w =
     (if list_all (row_fits (tw_spec w)) (tw_buffer w) then (spill_buffer w, Inr ()) else (w, Inl ValueDoesNotFit))"

definition tw_add :: "'r \<Rightarrow> 'r table_writer \<Rightarrow> 'r table_writer \<times> (spill_error + unit)" where
  "tw_add r w =
     (if tw_done w then (w, Inl WriterFinished)
      else if \<not> row_width_ok (tw_spec w) r then (w, Inl WrongWidth)
      else let w = w\<lparr>tw_buffer := tw_buffer w @ [r]\<rparr>
           in if length (tw_buffer w) \<ge> tw_flush_rows w then tw_spill w else (w, Inr ()))"

definition tw_close :: "'r table_writer \<Rightarrow> 'r table_writer" where
  "tw_close w = w\<lparr>tw_done := True, tw_buffer := [], tw_batches := []\<rparr>"

text \<open>The spilled rows a part's ranges cover, in spill order; \<open>seen\<close> counts a bucket's rows so far.\<close>

definition slice_of :: "nat \<Rightarrow> nat \<Rightarrow> nat \<Rightarrow> 'x list \<Rightarrow> 'x list" where
  "slice_of lo_row end_row batch_first xs =
     (let low = max lo_row batch_first; high = min end_row (batch_first + length xs)
      in if low < high then take (high - low) (drop (low - batch_first) xs) else [])"

fun spilled_rows :: "bucket_range list \<Rightarrow> (nat \<Rightarrow> nat) \<Rightarrow> 'r spill_batch list \<Rightarrow> ('r \<times> nat) list" where
  "spilled_rows ranges seen [] = []"
| "spilled_rows ranges seen ((bucket, rows) # batches) =
     concat (map (\<lambda>(_, lo_row, end_row). slice_of lo_row end_row (seen bucket) rows) (filter (\<lambda>(b, _). b = bucket) ranges)) @
     spilled_rows ranges (seen(bucket := seen bucket + length rows)) batches"

definition write_part :: "'r table_writer \<Rightarrow> bucket_range list \<Rightarrow> 'r list" where
  "write_part w ranges =
     map fst (sort_key (\<lambda>(r, n). (ts_sort_keys (tw_spec w) r, n)) (spilled_rows ranges (\<lambda>_. 0) (tw_batches w)))"

definition tw_finish :: "'r table_writer \<Rightarrow> 'r table_writer \<times> (spill_error + 'r list list)" where
  "tw_finish w =
     (if tw_done w then (w, Inl WriterFinished)
      else case tw_spill w of
             (w, Inl e) \<Rightarrow> (w, Inl e)
           | (w, Inr _) \<Rightarrow>
               (tw_close w, result_bind (plan_parts (tw_bucket_rows w) (tw_max_part_rows w)) (\<lambda>parts. Inr (map (write_part w) parts))))"

section \<open>The tables of an hour\<close>

fun table_of :: "table_row \<Rightarrow> string" where
  "table_of (DeltaRow _ _ _ _ _ _ _ _ _ _ _) = ''deltas''"
| "table_of (SnapshotRow _ _ _ _ _ _ _ _ _ _) = ''snapshots''"
| "table_of (TradeRow _ _ _ _ _ _ _ _ _ _) = ''trades''"
| "table_of (LifecycleRow _ _ _ _ _ _ _ _) = ''lifecycle''"
| "table_of (GapRow _ _ _ _ _ _ _) = ''gaps''"
| "table_of (AuditRow _ _ _ _ _ _ _ _ _ _ _ _ _ _ _ _ _ _) = ''audits''"

definition str_int :: "int \<Rightarrow> string" where
  "str_int n = (if n < 0 then ''-'' @ show_nat (nat (- n)) else show_nat (nat n))"

fun partition_key :: "table_row \<Rightarrow> string" where
  "partition_key (DeltaRow t _ _ _ _ _ _ _ _ _ _) = t"
| "partition_key (SnapshotRow t _ _ _ _ _ _ _ _ _) = t"
| "partition_key (TradeRow t _ _ _ _ _ _ _ _ _) = t"
| "partition_key (LifecycleRow t _ _ _ _ _ _ _) = t"
| "partition_key (GapRow conn_id _ _ _ _ _ _) = str_int conn_id"
| "partition_key (AuditRow t _ _ _ _ _ _ _ _ _ _ _ _ _ _ _ _ _) = t"

fun sort_keys :: "table_row \<Rightarrow> sort_cell list" where
  "sort_keys (DeltaRow t ts _ wall _ _ sq _ _ _ _) = [text_cell t, opt_cell ts, opt_cell sq, int_cell wall]"
| "sort_keys (SnapshotRow t wall _ _ _ sq sd price _ _) = [text_cell t, int_cell wall, opt_cell sq, int_cell sd, int_cell price]"
| "sort_keys (TradeRow t trade_id ts _ _ sq _ _ _ _) = [text_cell t, int_cell ts, opt_cell sq, text_cell trade_id]"
| "sort_keys (LifecycleRow t _ _ _ wall _ sq _) = [text_cell t, int_cell wall, opt_cell sq]"
| "sort_keys (GapRow conn_id sid wall _ _ _ _) = [int_cell conn_id, int_cell wall, int_cell sid]"
| "sort_keys (AuditRow t wall _ _ _ _ _ _ _ _ _ _ _ _ _ _ _ _) = [text_cell t, int_cell wall]"

definition opt_int :: "int option \<Rightarrow> cell" where
  "opt_int v = (case v of None \<Rightarrow> NullCell | Some n \<Rightarrow> IntCell n)"

definition opt_text :: "string option \<Rightarrow> cell" where
  "opt_text v = (case v of None \<Rightarrow> NullCell | Some t \<Rightarrow> TextCell t)"

fun row_cells :: "table_row \<Rightarrow> cell list" where
  "row_cells (DeltaRow t ts mono_ns wall_ns conn_id sid sq sd price_e4 delta_e2 own) =
     [TextCell t, opt_int ts, IntCell mono_ns, IntCell wall_ns, IntCell conn_id, IntCell sid, opt_int sq, IntCell sd, IntCell price_e4,
      IntCell delta_e2, opt_text own]"
| "row_cells (SnapshotRow t wall_ns mono_ns conn_id sid sq sd price_e4 count_e2 reason) =
     [TextCell t, IntCell wall_ns, IntCell mono_ns, IntCell conn_id, IntCell sid, opt_int sq, IntCell sd, IntCell price_e4, IntCell count_e2,
      IntCell reason]"
| "row_cells (TradeRow t trade_id ts wall_ns sid sq price_e4 count_e2 sd block) =
     [TextCell t, TextCell trade_id, IntCell ts, IntCell wall_ns, IntCell sid, opt_int sq, IntCell price_e4, IntCell count_e2, IntCell sd,
      BoolCell block]"
| "row_cells (LifecycleRow t msg_type event_type ts_s wall_ns sid sq payload) =
     [TextCell t, TextCell msg_type, opt_text event_type, opt_int ts_s, IntCell wall_ns, IntCell sid, opt_int sq, TextCell payload]"
| "row_cells (GapRow conn_id sid wall_ns mono_ns expected got resolved) =
     [IntCell conn_id, IntCell sid, IntCell wall_ns, IntCell mono_ns, IntCell expected, IntCell got, opt_int resolved]"
| "row_cells (AuditRow t wall_ns conn_id outcome send_wall send_mono recv_mono open_mono close_mono window_events match_index levels_rest
     levels_local mismatched max_diff fault rest_json local_json) =
     [TextCell t, IntCell wall_ns, IntCell conn_id, TextCell outcome, IntCell send_wall, IntCell send_mono, IntCell recv_mono,
      IntCell open_mono, IntCell close_mono, IntCell window_events, opt_int match_index, IntCell levels_rest, opt_int levels_local,
      opt_int mismatched, opt_int max_diff, opt_text fault, opt_text rest_json, opt_text local_json]"

definition columns_of :: "string \<Rightarrow> column_type list" where
  "columns_of name =
     (if name = ''deltas'' then [TextType, Int64, Int64, Int64, Int16, Int32, Int64, Int8, Int32, Int64, TextType]
      else if name = ''snapshots'' then [TextType, Int64, Int64, Int16, Int32, Int64, Int8, Int32, Int64, Int8]
      else if name = ''trades'' then [TextType, TextType, Int64, Int64, Int32, Int64, Int32, Int64, Int8, BoolType]
      else if name = ''lifecycle'' then [TextType, TextType, TextType, Int64, Int64, Int32, Int64, TextType]
      else if name = ''gaps'' then [Int16, Int32, Int64, Int64, Int64, Int64, Int64]
      else if name = ''audits'' then
        [TextType, Int64, Int16, TextType, Int64, Int64, Int64, Int64, Int64, Int32, Int32, Int32, Int32, Int32, Int64, TextType,
         TextType, TextType]
      else [])"

definition TABLES :: "string \<Rightarrow> table_row table_spec" where
  "TABLES name = \<lparr>ts_columns = columns_of name, ts_cells = row_cells, ts_sort_keys = sort_keys, ts_partition_key = partition_key\<rparr>"

type_synonym hour_tables = "(string, table_row table_writer) dict"

definition new_hour_tables :: "nat \<Rightarrow> nat \<Rightarrow> spill_error + hour_tables" where
  "new_hour_tables max_part_rows flush_rows =
     result_list (\<lambda>name. result_bind (new_table_writer (TABLES name) max_part_rows flush_rows) (\<lambda>w. Inr (name, w))) TABLE_NAMES"

definition ht_add :: "table_row \<Rightarrow> hour_tables \<Rightarrow> hour_tables \<times> (spill_error + unit)" where
  "ht_add r ht =
     (case dict_get ht (table_of r) of
        None \<Rightarrow> (ht, Inl NoSuchTable)
      | Some w \<Rightarrow> (case tw_add r w of (w, res) \<Rightarrow> (dict_put (table_of r) w ht, res)))"

text \<open>Rows one after another, up to the first that is refused.\<close>

fun ht_add_all :: "table_row list \<Rightarrow> hour_tables \<Rightarrow> hour_tables \<times> (spill_error + unit)" where
  "ht_add_all [] ht = (ht, Inr ())"
| "ht_add_all (r # rows) ht =
     (case ht_add r ht of (ht, Inl e) \<Rightarrow> (ht, Inl e) | (ht, Inr _) \<Rightarrow> ht_add_all rows ht)"

definition ht_close :: "hour_tables \<Rightarrow> hour_tables" where
  "ht_close ht = map (\<lambda>(name, w). (name, tw_close w)) ht"

text \<open>The parts of the tables in order, up to the first whose rows are refused.\<close>

fun finish_tables :: "hour_tables \<Rightarrow> hour_tables \<times> (string, table_row list list) dict \<times> spill_error option" where
  "finish_tables [] = ([], [], None)"
| "finish_tables ((name, w) # rest) =
     (case tw_finish w of
        (w, Inl e) \<Rightarrow> ((name, w) # rest, [], Some e)
      | (w, Inr parts) \<Rightarrow>
          (case finish_tables rest of (rest, others, err) \<Rightarrow> ((name, w) # rest, (name, parts) # others, err)))"

definition ht_finish :: "hour_tables \<Rightarrow> hour_tables \<times> (string, table_row list list) dict \<times> spill_error option" where
  "ht_finish ht = (case finish_tables ht of (ht, res) \<Rightarrow> (ht_close ht, res))"

end
