(* ===== verification/Spilled.thy ===== *)
theory Spilled
  imports Spill
begin

text \<open>
  What holds of spilling: the parts of a table are one function of its rows, whatever the flush
  size; they hold exactly the rows added, none over the bound, each sorted by the table's keys.
\<close>

section \<open>Ranges\<close>

text \<open>The rows of one bucket, in the order they were added, that a list of ranges takes.\<close>

definition taken :: "nat \<Rightarrow> bucket_range list \<Rightarrow> nat set" where
  "taken b ranges = (\<Union>(b', lo, hi)\<in>set ranges. if b' = b then {lo..<hi} else {})"

definition range_rows :: "bucket_range \<Rightarrow> nat" where
  "range_rows r = (case r of (_, lo, hi) \<Rightarrow> hi - lo)"

definition part_rows :: "bucket_range list \<Rightarrow> nat" where
  "part_rows ranges = sum_list (map range_rows ranges)"

lemma part_rows_simps [simp]:
  "part_rows [] = 0" "part_rows (r # rs) = range_rows r + part_rows rs" "part_rows (rs @ rs') = part_rows rs + part_rows rs'"
  by (simp_all add: part_rows_def)

text \<open>A list of ranges that takes the rows of bucket \<open>b\<close> from \<open>lo\<close> to \<open>hi\<close>, each once, in order.\<close>

fun covers :: "nat \<Rightarrow> nat \<Rightarrow> nat \<Rightarrow> bucket_range list \<Rightarrow> bool" where
  "covers b lo hi [] \<longleftrightarrow> lo = hi"
| "covers b lo hi ((b', l, h) # rs) \<longleftrightarrow> b' = b \<and> l = lo \<and> lo < h \<and> h \<le> hi \<and> covers b h hi rs"

lemma cut_bucket:
  assumes "0 < mx" "f < rows" "cut_bucket mx b rows f = (cuts, f')"
  shows "f' < rows \<and> rows - f' \<le> mx \<and> covers b f rows (concat cuts @ [(b, f', rows)]) \<and>
    list_all (\<lambda>c. c \<noteq> [] \<and> part_rows c \<le> mx) cuts \<and> (rows - f \<le> mx \<longrightarrow> cuts = [] \<and> f' = f)"
  using assms
proof (induction mx b rows f arbitrary: cuts f' rule: cut_bucket.induct)
  case (1 mx b rows f)
  show ?case
  proof (cases "rows - f > mx")
    case True
    obtain cuts1 f1 where c: "cut_bucket mx b rows (f + mx) = (cuts1, f1)" by fastforce
    have r: "cuts = [(b, f, f + mx)] # cuts1" "f' = f1" using "1.prems" True c by (simp_all add: cut_bucket.simps [of mx b rows f])
    have "0 < mx \<and> mx < rows - f" using True "1.prems" by simp
    from "1.IH" [OF this _ _ c] "1.prems" True show ?thesis by (simp add: r range_rows_def)
  next
    case False
    then show ?thesis using "1.prems" by (simp add: cut_bucket.simps [of mx b rows f])
  qed
qed

text \<open>The plan takes every row of every bucket once, in parts of at most the bound.\<close>

fun all_rows :: "nat \<Rightarrow> nat list \<Rightarrow> bucket_range list \<Rightarrow> bool" where
  "all_rows b [] rs \<longleftrightarrow> rs = []"
| "all_rows b (n # ns) rs \<longleftrightarrow> (\<exists>xs ys. rs = xs @ ys \<and> covers b 0 n xs \<and> all_rows (b + 1) ns ys)"

lemma plan_from:
  assumes "0 < mx" "part_rows cur \<le> mx" "n = part_rows cur"
  shows "\<exists>rest. concat (plan_from mx b counts cur n) = cur @ rest \<and> all_rows b counts rest \<and>
    list_all (\<lambda>p. p \<noteq> [] \<and> part_rows p \<le> mx) (plan_from mx b counts cur n)"
  using assms
proof (induction mx b counts cur n rule: plan_from.induct)
  case (1 mx b cur n)
  then show ?case by simp
next
  case (2 mx b rows rest cur n)
  show ?case
  proof (cases "rows = 0")
    case True
    from "2.IH"(1) [OF True "2.prems"] obtain r where
      r: "concat (plan_from mx (b + 1) rest cur n) = cur @ r" "all_rows (b + 1) rest r"
      "list_all (\<lambda>p. p \<noteq> [] \<and> part_rows p \<le> mx) (plan_from mx (b + 1) rest cur n)" by auto
    have "all_rows b (rows # rest) r" unfolding all_rows.simps using True r(2) by (metis append_Nil covers.simps(1))
    then show ?thesis using True r by auto
  next
    case False
    define full where "full \<longleftrightarrow> n + rows > mx \<and> cur \<noteq> []"
    define cur1 where "cur1 = (if full then [] else cur)"
    define n1 where "n1 = (if full then 0 else n)"
    obtain cuts f where c: "cut_bucket mx b rows 0 = (cuts, f)" by fastforce
    note cut = cut_bucket [OF "2.prems"(1) _ c]
    have n1: "n1 = part_rows cur1" "n1 \<le> mx" using "2.prems" by (simp_all add: n1_def cur1_def)
    have small: "cuts = [] \<and> f = 0 \<or> cur1 = []" using cut False by (auto simp: cur1_def full_def)
    have sum: "part_rows (cur1 @ [(b, f, rows)]) \<le> mx" "n1 + (rows - f) = part_rows (cur1 @ [(b, f, rows)])"
    proof -
      show "n1 + (rows - f) = part_rows (cur1 @ [(b, f, rows)])" using n1 by (simp add: range_rows_def)
      show "part_rows (cur1 @ [(b, f, rows)]) \<le> mx"
      proof (cases "cur1 = []")
        case True
        then show ?thesis using cut False by (simp add: range_rows_def)
      next
        case ne: False
        then have "\<not> full" "cur1 = cur" by (auto simp: cur1_def split: if_splits)
        then show ?thesis using small ne "2.prems" by (auto simp: full_def range_rows_def)
      qed
    qed
    have p: "plan_from mx b (rows # rest) cur n = (if full then [cur] else []) @ cuts @ plan_from mx (b + 1) rest (cur1 @ [(b, f, rows)]) (n1 + (rows - f))"
      using False c by (simp add: full_def cur1_def n1_def Let_def)
    from "2.IH"(2) [OF False full_def refl cur1_def n1_def c [symmetric] refl "2.prems"(1) sum] obtain r where
      r: "concat (plan_from mx (b + 1) rest (cur1 @ [(b, f, rows)]) (n1 + (rows - f))) = (cur1 @ [(b, f, rows)]) @ r" "all_rows (b + 1) rest r"
      "list_all (\<lambda>p. p \<noteq> [] \<and> part_rows p \<le> mx) (plan_from mx (b + 1) rest (cur1 @ [(b, f, rows)]) (n1 + (rows - f)))" by auto
    have "concat (plan_from mx b (rows # rest) cur n) = cur @ concat cuts @ [(b, f, rows)] @ r"
      unfolding p using r(1) small by (auto simp: cur1_def split: if_splits)
    moreover have "all_rows b (rows # rest) (concat cuts @ [(b, f, rows)] @ r)"
      unfolding all_rows.simps using cut False r(2) by (metis append.assoc bot_nat_0.not_eq_extremum)
    moreover have "list_all (\<lambda>p. p \<noteq> [] \<and> part_rows p \<le> mx) (plan_from mx b (rows # rest) cur n)"
      unfolding p using r(3) cut False "2.prems" by (auto simp: full_def)
    ultimately show ?thesis by blast
  qed
qed

section \<open>The rows of a part\<close>

lemma slice_Nil [simp]: "slice_of lo hi s [] = []"
  by (simp add: slice_of_def Let_def)

lemma slice_Cons: "slice_of lo hi s (x # xs) = (if lo \<le> s \<and> s < hi then [x] else []) @ slice_of lo hi (s + 1) xs"
proof (cases "s < lo")
  case True
  then have "drop (max lo s - s) (x # xs) = drop (max lo (s + 1) - (s + 1)) xs" "max lo s = max lo (s + 1)"
    by (simp_all add: max_def drop_Cons')
  then show ?thesis using True by (simp add: slice_of_def Let_def)
next
  case False
  show ?thesis
  proof (cases "s < hi")
    case True
    define h where "h = min hi (s + length (x # xs))"
    have h: "h = min hi (s + 1 + length xs)" "s < h" using True by (simp_all add: h_def)
    have "slice_of lo hi s (x # xs) = take (h - s) (x # xs)" using False h(2) by (simp add: slice_of_def Let_def h_def max_def)
    moreover have "slice_of lo hi (s + 1) xs = take (h - (s + 1)) xs"
      using False h(2) unfolding slice_of_def Let_def h(1) [symmetric] by (auto simp: max_def)
    moreover have "h - s = Suc (h - (s + 1))" using h(2) by simp
    ultimately show ?thesis using False True by simp
  next
    case no: False
    then show ?thesis using False by (auto simp: slice_of_def Let_def)
  qed
qed

text \<open>Where a row of a bucket stands among the bucket's rows decides which part takes it.\<close>

lemma slice_of_append: "slice_of lo hi s (xs @ ys) = slice_of lo hi s xs @ slice_of lo hi (s + length xs) ys"
  by (induction xs arbitrary: s) (auto simp: slice_Cons)

lemma slice_split: "l \<le> m \<Longrightarrow> m \<le> h \<Longrightarrow> mset (slice_of l h s xs) = mset (slice_of l m s xs) + mset (slice_of m h s xs)"
  by (induction xs arbitrary: s) (auto simp: slice_Cons)

lemma slice_all: "slice_of lo hi s xs = xs" if "lo \<le> s" "s + length xs \<le> hi"
  using that by (induction xs arbitrary: s) (auto simp: slice_Cons)

lemma slice_none: "slice_of lo lo s xs = []"
  by (induction xs arbitrary: s) (auto simp: slice_Cons)

definition bucket_rows :: "nat \<Rightarrow> 'r spill_batch list \<Rightarrow> ('r \<times> nat) list" where
  "bucket_rows b batches = concat (map snd (filter (\<lambda>(b', _). b' = b) batches))"

lemma bucket_rows_simps [simp]:
  "bucket_rows b [] = []" "bucket_rows b ((b', rs) # bs) = (if b' = b then rs else []) @ bucket_rows b bs"
  "bucket_rows b (bs @ bs') = bucket_rows b bs @ bucket_rows b bs'"
  by (simp_all add: bucket_rows_def)

lemma spilled_rows_mset:
  "mset (spilled_rows ranges seen batches) =
     sum_list (map (\<lambda>(b, lo, hi). mset (slice_of lo hi (seen b) (bucket_rows b batches))) ranges)"
proof (induction batches arbitrary: seen)
  case Nil
  then show ?case by (induction ranges) auto
next
  case (Cons batch batches)
  obtain b rs where b: "batch = (b, rs)" by fastforce
  have one: "mset (concat (map (\<lambda>(_, lo, hi). slice_of lo hi (seen b) rs) (filter (\<lambda>(b', _). b' = b) ranges))) =
      sum_list (map (\<lambda>(b', lo, hi). if b' = b then mset (slice_of lo hi (seen b) rs) else {#}) ranges)"
    by (induction ranges) auto
  have add: "sum_list (map f xs) + sum_list (map g xs) = sum_list (map (\<lambda>x. f x + g x) xs)" for f g :: "bucket_range \<Rightarrow> ('r \<times> nat) multiset" and xs
    by (induction xs) (auto simp: add_ac)
  show ?case
    unfolding b spilled_rows.simps mset_append one Cons add
    by (rule arg_cong [where f = sum_list], rule map_cong [OF refl]) (auto simp: slice_of_append)
qed

lemma covers_slices:
  "covers b lo hi ranges \<Longrightarrow> lo \<le> hi \<and> sum_list (map (\<lambda>(b, lo, hi). mset (slice_of lo hi s (bucket_rows b batches))) ranges) =
     mset (slice_of lo hi s (bucket_rows b batches))"
proof (induction b lo hi ranges rule: covers.induct)
  case (2 b lo hi b' l h rs)
  then have e: "b' = b" "l = lo" "lo < h" "h \<le> hi" "covers b h hi rs" by simp_all
  note IH = "2.IH" [OF e(5)]
  then show ?case using e slice_split [of lo h hi s "bucket_rows b batches"] by simp
qed (simp add: slice_none)

section \<open>Runs of a writer\<close>

definition numbered :: "'r list \<Rightarrow> ('r \<times> nat) list" where
  "numbered rows = zip rows [0..<length rows]"

definition numbered_in :: "'r table_spec \<Rightarrow> nat \<Rightarrow> 'r list \<Rightarrow> ('r \<times> nat) list" where
  "numbered_in spec b rows = filter (\<lambda>(r, _). bucket_of (ts_partition_key spec r) = b) (numbered rows)"

fun add_rows :: "'r list \<Rightarrow> 'r table_writer \<Rightarrow> 'r table_writer \<times> (spill_error + unit)" where
  "add_rows [] w = (w, Inr ())"
| "add_rows (r # rows) w = (case tw_add r w of (w, Inl e) \<Rightarrow> (w, Inl e) | (w, Inr _) \<Rightarrow> add_rows rows w)"

definition write_rows :: "'r list \<Rightarrow> 'r table_writer \<Rightarrow> spill_error + 'r list list" where
  "write_rows rows w = (case add_rows rows w of (w, Inl e) \<Rightarrow> Inl e | (w, Inr _) \<Rightarrow> snd (tw_finish w))"

definition holds :: "'r list \<Rightarrow> 'r table_writer \<Rightarrow> bool" where
  "holds rows w \<longleftrightarrow> \<not> tw_done w \<and> tw_added w \<le> length rows \<and> tw_buffer w = drop (tw_added w) rows \<and>
     (\<forall>b. bucket_rows b (tw_batches w) = (if b < SPILL_BUCKETS then numbered_in (tw_spec w) b (take (tw_added w) rows) else [])) \<and>
     tw_bucket_rows w = map (\<lambda>b. length (bucket_rows b (tw_batches w))) [0..<SPILL_BUCKETS]"

lemma numbered_append: "numbered (xs @ ys) = numbered xs @ zip ys [length xs..<length xs + length ys]"
  by (simp add: numbered_def upt_add_eq_append [of 0] zip_append)

lemma numbered_in_append:
  "numbered_in spec b (xs @ ys) = numbered_in spec b xs @ filter (\<lambda>(r, _). bucket_of (ts_partition_key spec r) = b) (zip ys [length xs..<length xs + length ys])"
  by (simp add: numbered_in_def numbered_append)

lemma bucket_rows_slices:
  "distinct bs \<Longrightarrow> bucket_rows b (filter (\<lambda>(_, rs). rs \<noteq> []) (map (\<lambda>b. (b, f b)) bs)) = (if b \<in> set bs then f b else [])"
  by (induction bs) auto

lemma spill_holds:
  assumes "holds rows w"
  shows "holds rows (spill_buffer w)" "tw_added (spill_buffer w) = length rows" "tw_spec (spill_buffer w) = tw_spec w"
    "tw_max_part_rows (spill_buffer w) = tw_max_part_rows w" "tw_flush_rows (spill_buffer w) = tw_flush_rows w"
proof -
  note h = assms [unfolded holds_def]
  show "tw_spec (spill_buffer w) = tw_spec w" "tw_max_part_rows (spill_buffer w) = tw_max_part_rows w" "tw_flush_rows (spill_buffer w) = tw_flush_rows w"
    by (simp_all add: spill_buffer_def Let_def)
  show added: "tw_added (spill_buffer w) = length rows" using h by (simp add: spill_buffer_def Let_def)
  show "holds rows (spill_buffer w)"
  proof (cases "tw_buffer w = []")
    case True
    then show ?thesis using assms by (simp add: spill_buffer_def)
  next
    case False
    define of_bucket where "of_bucket = (\<lambda>b. filter (\<lambda>(r, _). row_bucket w r = b) (zip (tw_buffer w) [tw_added w..<tw_added w + length (tw_buffer w)]))"
    have w': "spill_buffer w = w\<lparr>tw_batches := tw_batches w @ filter (\<lambda>(_, rs). rs \<noteq> []) (map (\<lambda>b. (b, of_bucket b)) [0..<SPILL_BUCKETS]),
        tw_bucket_rows := map (\<lambda>b. tw_bucket_rows w ! b + length (of_bucket b)) [0..<SPILL_BUCKETS],
        tw_added := tw_added w + length (tw_buffer w), tw_buffer := []\<rparr>"
      using False by (simp add: spill_buffer_def Let_def of_bucket_def)
    have split: "rows = take (tw_added w) rows @ tw_buffer w" using h by simp
    have rows: "bucket_rows b (tw_batches (spill_buffer w)) = (if b < SPILL_BUCKETS then numbered_in (tw_spec w) b rows else [])" for b
    proof -
      have "numbered_in (tw_spec w) b rows = numbered_in (tw_spec w) b (take (tw_added w) rows) @ of_bucket b"
        using h numbered_in_append [of "tw_spec w" b "take (tw_added w) rows" "tw_buffer w"] split by (simp add: of_bucket_def row_bucket_def)
      then show ?thesis using h by (simp add: w' bucket_rows_slices)
    qed
    have cnt: "tw_bucket_rows (spill_buffer w) = map (\<lambda>b. length (bucket_rows b (tw_batches (spill_buffer w)))) [0..<SPILL_BUCKETS]"
      using h by (simp add: w' bucket_rows_slices)
    have fields: "\<not> tw_done (spill_buffer w)" "tw_buffer (spill_buffer w) = []" "tw_spec (spill_buffer w) = tw_spec w"
      using h by (simp_all add: w')
    show ?thesis unfolding holds_def cnt added fields(2,3) rows using fields(1) by simp
  qed
qed

lemma holds_buffer:
  assumes "holds rows w"
  shows "holds (rows @ [r]) (w\<lparr>tw_buffer := tw_buffer w @ [r]\<rparr>)"
  using assms by (simp add: holds_def)

text \<open>What was spilled was converted; a row that was refused, or will be, does not fit.\<close>

definition sound_rows :: "'r list \<Rightarrow> 'r table_writer \<Rightarrow> bool" where
  "sound_rows rows w \<longleftrightarrow> holds rows w \<and> list_all (row_fits (tw_spec w)) (take (tw_added w) rows)"

lemma fits_width: "row_fits spec r \<Longrightarrow> row_width_ok spec r"
  by (auto simp: row_fits_def row_width_ok_def dest: list_all2_lengthD)

lemma spill_sound:
  assumes "sound_rows rows w"
  shows "if list_all (row_fits (tw_spec w)) rows
    then tw_spill w = (spill_buffer w, Inr ()) \<and> sound_rows rows (spill_buffer w) \<and> tw_added (spill_buffer w) = length rows
    else tw_spill w = (w, Inl ValueDoesNotFit)"
proof -
  have h: "holds rows w" "list_all (row_fits (tw_spec w)) (take (tw_added w) rows)" using assms by (simp_all add: sound_rows_def)
  have "tw_buffer w = drop (tw_added w) rows" using h(1) by (simp add: holds_def)
  moreover have "list_all (row_fits (tw_spec w)) rows \<longleftrightarrow>
      list_all (row_fits (tw_spec w)) (take (tw_added w) rows) \<and> list_all (row_fits (tw_spec w)) (drop (tw_added w) rows)"
    using list_all_append [of "row_fits (tw_spec w)" "take (tw_added w) rows" "drop (tw_added w) rows"] by (simp only: append_take_drop_id)
  ultimately have "list_all (row_fits (tw_spec w)) rows \<longleftrightarrow> list_all (row_fits (tw_spec w)) (tw_buffer w)" using h(2) by simp
  then show ?thesis using spill_holds [OF h(1)] by (simp add: tw_spill_def sound_rows_def)
qed

lemma add_sound:
  assumes "sound_rows rows w" "tw_add r w = (w', res)"
  shows "case res of
    Inr _ \<Rightarrow> sound_rows (rows @ [r]) w' \<and> tw_spec w' = tw_spec w \<and> tw_max_part_rows w' = tw_max_part_rows w
  | Inl e \<Rightarrow> \<not> list_all (row_fits (tw_spec w)) (rows @ [r]) \<and> e \<in> {WrongWidth, ValueDoesNotFit}"
proof -
  define v where "v = w\<lparr>tw_buffer := tw_buffer w @ [r]\<rparr>"
  have h: "holds rows w" "list_all (row_fits (tw_spec w)) (take (tw_added w) rows)" using assms(1) by (simp_all add: sound_rows_def)
  have "tw_added w \<le> length rows" "\<not> tw_done w" using h(1) by (simp_all add: holds_def)
  then have v: "sound_rows (rows @ [r]) v" using h holds_buffer [OF h(1), of r] by (simp add: sound_rows_def v_def)
  have fields: "tw_spec v = tw_spec w" "tw_max_part_rows v = tw_max_part_rows w" by (simp_all add: v_def)
  show ?thesis
  proof (cases "row_width_ok (tw_spec w) r")
    case False
    then have "res = Inl WrongWidth" using assms(2) h(1) by (simp add: tw_add_def holds_def)
    then show ?thesis using False fits_width [of "tw_spec w" r] by auto
  next
    case True
    then have a: "tw_add r w = (if length (tw_buffer v) \<ge> tw_flush_rows v then tw_spill v else (v, Inr ()))"
      using \<open>\<not> tw_done w\<close> by (simp add: tw_add_def v_def Let_def)
    show ?thesis
    proof (cases "length (tw_buffer v) \<ge> tw_flush_rows v")
      case True
      then have "tw_spill v = (w', res)" using a assms(2) by simp
      then show ?thesis using spill_sound [OF v] spill_holds(3,4) [of "rows @ [r]" v] v fields
        by (auto simp: sound_rows_def split: if_splits)
    next
      case False
      then have "w' = v" "res = Inr ()" using a assms(2) by simp_all
      then show ?thesis using v fields by simp
    qed
  qed
qed

lemma add_rows_sound:
  assumes "sound_rows rows0 w" "add_rows rows w = (w', res)"
  shows "case res of
    Inr _ \<Rightarrow> sound_rows (rows0 @ rows) w' \<and> tw_spec w' = tw_spec w \<and> tw_max_part_rows w' = tw_max_part_rows w
  | Inl e \<Rightarrow> \<not> list_all (row_fits (tw_spec w)) (rows0 @ rows) \<and> e \<in> {WrongWidth, ValueDoesNotFit}"
  using assms
proof (induction rows arbitrary: rows0 w)
  case (Cons r rows)
  obtain w1 r1 where a: "tw_add r w = (w1, r1)" by fastforce
  note s = add_sound [OF Cons.prems(1) a]
  show ?case
  proof (cases r1)
    case (Inl e)
    then show ?thesis using Cons.prems(2) a s by auto
  next
    case (Inr u)
    then show ?thesis using Cons.prems(2) a s Cons.IH [of "rows0 @ [r]" w1] by (simp split: sum.splits)
  qed
qed (auto split: sum.split)

lemma new_writer_holds: "new_table_writer spec mx fl = Inr w \<Longrightarrow> sound_rows [] w \<and> tw_spec w = spec \<and> tw_max_part_rows w = mx \<and> 0 < mx"
  by (auto simp: new_table_writer_def sound_rows_def holds_def numbered_in_def numbered_def map_replicate_trivial split: if_splits)

text \<open>The reference: the parts as a function of the rows alone.\<close>

definition part_of :: "'r table_spec \<Rightarrow> 'r list \<Rightarrow> bucket_range list \<Rightarrow> 'r list" where
  "part_of spec rows ranges =
     map fst (sort_key (\<lambda>(r, n). (ts_sort_keys spec r, n))
       (concat (map (\<lambda>(b, lo, hi). slice_of lo hi 0 (numbered_in spec b rows)) ranges)))"

definition parts_of :: "'r table_spec \<Rightarrow> nat \<Rightarrow> 'r list \<Rightarrow> 'r list list" where
  "parts_of spec max_part_rows rows =
     map (part_of spec rows) (plan_from max_part_rows 0 (map (\<lambda>b. length (numbered_in spec b rows)) [0..<SPILL_BUCKETS]) [] 0)"

lemma mset_concat_slices: "mset (concat (map (\<lambda>(b, lo, hi). f b lo hi) ranges)) = sum_list (map (\<lambda>(b, lo, hi). mset (f b lo hi)) ranges)"
  by (induction ranges) auto

lemma distinct_numbers:
  assumes "mset xs \<subseteq># mset (numbered rows)"
  shows "inj_on (\<lambda>(r, n). (f r, n)) (set xs)"
proof -
  have "set xs \<subseteq> set (numbered rows)" using assms by (metis set_mset_mono set_mset_mset)
  moreover have "inj_on (\<lambda>(r, n). (f r, n)) (set (numbered rows))"
    by (auto simp: inj_on_def numbered_def set_zip)
  ultimately show ?thesis by (rule inj_on_subset [rotated])
qed

lemma part_of_write:
  assumes h: "holds rows w" and all: "tw_added w = length rows" and b: "list_all (\<lambda>(b, _). b < SPILL_BUCKETS) ranges"
    and sub: "sum_list (map (\<lambda>(b, lo, hi). mset (slice_of lo hi 0 (numbered_in (tw_spec w) b rows))) ranges) \<subseteq># mset (numbered rows)"
  shows "write_part w ranges = part_of (tw_spec w) rows ranges"
proof -
  let ?xs = "spilled_rows ranges (\<lambda>_. 0) (tw_batches w)"
  let ?ys = "concat (map (\<lambda>(b, lo, hi). slice_of lo hi 0 (numbered_in (tw_spec w) b rows)) ranges)"
  have "sum_list (map (\<lambda>(b, lo, hi). mset (slice_of lo hi 0 (bucket_rows b (tw_batches w)))) ranges) =
      sum_list (map (\<lambda>(b, lo, hi). mset (slice_of lo hi 0 (numbered_in (tw_spec w) b rows))) ranges)"
    using h all b by (intro arg_cong [where f = sum_list] map_cong) (auto simp: holds_def list_all_iff)
  then have m: "mset ?xs = mset ?ys" by (simp add: spilled_rows_mset mset_concat_slices)
  have "mset ?ys \<subseteq># mset (numbered rows)" using sub by (simp add: mset_concat_slices)
  then have "inj_on (\<lambda>(r, n). (ts_sort_keys (tw_spec w) r, n)) (set ?ys)" by (rule distinct_numbers)
  then have "inj_on (\<lambda>(r, n). (ts_sort_keys (tw_spec w) r, n)) (set ?xs)" using m by (metis set_mset_mset)
  then have "sort_key (\<lambda>(r, n). (ts_sort_keys (tw_spec w) r, n)) ?xs = sort_key (\<lambda>(r, n). (ts_sort_keys (tw_spec w) r, n)) ?ys"
    using m by (intro sort_key_inj_key_eq) simp_all
  then show ?thesis by (simp add: write_part_def part_of_def)
qed

lemma sum_filter_buckets:
  fixes rows :: "('r \<times> nat) list"
  assumes "\<And>x. x \<in> set rows \<Longrightarrow> g x < (n :: nat)"
  shows "sum_list (map (\<lambda>b. mset (filter (\<lambda>x. g x = b) rows)) [0..<n]) = mset rows"
  using assms
proof (induction rows)
  case (Cons x rows)
  have "sum_list (map (\<lambda>b. mset (filter (\<lambda>x. g x = b) (x # rows))) bs) =
      (if g x \<in> set bs then {#x#} else {#}) + sum_list (map (\<lambda>b. mset (filter (\<lambda>x. g x = b) rows)) bs)" if "distinct bs" for bs
    using that by (induction bs) auto
  from this [of "[0..<n]"] Cons show ?case by simp
qed simp

lemma bucket_less: "bucket_of t < SPILL_BUCKETS"
  by (simp add: bucket_of_def SPILL_BUCKETS_def)

lemma numbered_in_all: "sum_list (map (\<lambda>b. mset (numbered_in spec b rows)) [0..<SPILL_BUCKETS]) = mset (numbered rows)"
  unfolding numbered_in_def
  using sum_filter_buckets [of "numbered rows" "\<lambda>(r, _). bucket_of (ts_partition_key spec r)" SPILL_BUCKETS]
  by (simp add: bucket_less split_beta)

lemma all_rows_slices:
  "all_rows b counts ranges \<Longrightarrow> counts = map (\<lambda>i. length (f i)) [b..<b + length counts] \<Longrightarrow>
     sum_list (map (\<lambda>(b, lo, hi). mset (slice_of lo hi 0 (f b))) ranges) = sum_list (map (\<lambda>i. mset (f i)) [b..<b + length counts]) \<and>
     list_all (\<lambda>(i, _). i < b + length counts) ranges"
proof (induction b counts ranges rule: all_rows.induct)
  case (2 b n ns rs)
  then obtain xs ys where r: "rs = xs @ ys" "covers b 0 n xs" "all_rows (b + 1) ns ys" by auto
  have cons: "[b..<b + length (n # ns)] = b # [b + 1..<b + 1 + length ns]" by (subst upt_conv_Cons) (simp_all del: upt_Suc)
  have n: "n = length (f b)" "ns = map (\<lambda>i. length (f i)) [b + 1..<b + 1 + length ns]" using "2.prems"(2) unfolding cons by simp_all
  note IH = "2.IH" [OF r(3) n(2)]
  have part: "covers b lo hi xs \<Longrightarrow> lo \<le> hi \<and> list_all (\<lambda>(i, _). i = b) xs \<and>
      sum_list (map (\<lambda>(b, lo, hi). mset (slice_of lo hi 0 (f b))) xs) = mset (slice_of lo hi 0 (f b))" for lo hi xs
  proof (induction b lo hi xs rule: covers.induct)
    case (2 b lo hi b' l h rs)
    then have e: "b' = b" "l = lo" "lo < h" "h \<le> hi" "covers b h hi rs" by simp_all
    note IH = "2.IH" [OF e(5)]
    then show ?case using e slice_split [of lo h hi 0 "f b"] by simp
  qed (simp add: slice_none)
  have "slice_of 0 n 0 (f b) = f b" by (rule slice_all) (simp_all add: n(1))
  then show ?case using part [OF r(2)] IH unfolding r(1) cons by (auto simp: list_all_iff)
qed simp

lemma plan_rows:
  assumes "0 < mx"
  shows "sum_list (map (\<lambda>(b, lo, hi). mset (slice_of lo hi 0 (numbered_in spec b rows)))
      (concat (plan_from mx 0 (map (\<lambda>b. length (numbered_in spec b rows)) [0..<SPILL_BUCKETS]) [] 0))) = mset (numbered rows)"
    "list_all (\<lambda>(b, _). b < SPILL_BUCKETS) (concat (plan_from mx 0 (map (\<lambda>b. length (numbered_in spec b rows)) [0..<SPILL_BUCKETS]) [] 0))"
    "list_all (\<lambda>p. p \<noteq> [] \<and> part_rows p \<le> mx) (plan_from mx 0 (map (\<lambda>b. length (numbered_in spec b rows)) [0..<SPILL_BUCKETS]) [] 0)"
proof -
  let ?counts = "map (\<lambda>b. length (numbered_in spec b rows)) [0..<SPILL_BUCKETS]"
  obtain r where p: "concat (plan_from mx 0 ?counts [] 0) = r" "all_rows 0 ?counts r"
    "list_all (\<lambda>p. p \<noteq> [] \<and> part_rows p \<le> mx) (plan_from mx 0 ?counts [] 0)"
    using plan_from [of mx "[]" 0 0 ?counts] assms by auto
  have "?counts = map (\<lambda>i. length (numbered_in spec i rows)) [0..<0 + length ?counts]" by simp
  note s = all_rows_slices [OF p(2) this]
  show "sum_list (map (\<lambda>(b, lo, hi). mset (slice_of lo hi 0 (numbered_in spec b rows))) (concat (plan_from mx 0 ?counts [] 0))) = mset (numbered rows)"
    using s numbered_in_all [of spec rows] p(1) by simp
  show "list_all (\<lambda>(b, _). b < SPILL_BUCKETS) (concat (plan_from mx 0 ?counts [] 0))" using s p(1) by simp
  show "list_all (\<lambda>p. p \<noteq> [] \<and> part_rows p \<le> mx) (plan_from mx 0 ?counts [] 0)" by (rule p(3))
qed

lemma finish_parts:
  assumes "sound_rows rows w" "tw_spec w = spec" "tw_max_part_rows w = mx" "0 < mx"
  shows "snd (tw_finish w) = (if list_all (row_fits spec) rows then Inr (parts_of spec mx rows) else Inl ValueDoesNotFit)"
proof (cases "list_all (row_fits spec) rows")
  case False
  moreover have "\<not> tw_done w" using assms(1) by (simp add: sound_rows_def holds_def)
  ultimately show ?thesis using spill_sound [OF assms(1)] assms(2) by (auto simp: tw_finish_def)
next
  case True
  define v where "v = spill_buffer w"
  have a: "holds rows w" "\<not> tw_done w" using assms(1) by (simp_all add: sound_rows_def holds_def)
  have run: "tw_spill w = (v, Inr ())" using spill_sound [OF assms(1)] assms(2) True by (simp add: v_def)
  note v = spill_holds [OF a(1), folded v_def]
  have spec: "tw_spec v = spec" "tw_max_part_rows v = mx" using v assms by simp_all
  let ?counts = "map (\<lambda>b. length (numbered_in spec b rows)) [0..<SPILL_BUCKETS]"
  have counts: "tw_bucket_rows v = ?counts" using v(1,2) spec by (simp add: holds_def)
  have "write_part v p = part_of spec rows p" if p: "p \<in> set (plan_from mx 0 ?counts [] 0)" for p
  proof -
    obtain xs ys where "plan_from mx 0 ?counts [] 0 = xs @ p # ys" using p by (meson split_list)
    then have c: "concat (plan_from mx 0 ?counts [] 0) = concat xs @ p @ concat ys" by simp
    note r = plan_rows(1,2) [of mx spec rows, unfolded c]
    have "sum_list (map (\<lambda>(b, lo, hi). mset (slice_of lo hi 0 (numbered_in spec b rows))) p) \<subseteq># mset (numbered rows)"
      using r(1) assms(4) by (metis (no_types, lifting) map_append mset_subset_eq_add_left mset_subset_eq_add_right subset_mset.order_trans sum_list_append)
    moreover have "list_all (\<lambda>(b, _). b < SPILL_BUCKETS) p" using r(2) assms(4) by simp
    ultimately show ?thesis using part_of_write [OF v(1,2)] spec by simp
  qed
  then have "map (write_part v) (plan_from mx 0 ?counts [] 0) = parts_of spec mx rows" by (simp add: parts_of_def)
  then show ?thesis using assms(4) True a(2) run counts spec by (simp add: tw_finish_def plan_parts_def)
qed

lemma length_slice: "length (slice_of lo hi s xs) \<le> hi - lo"
  by (auto simp: slice_of_def Let_def max_def min_def)

lemma length_part: "length (part_of spec rows ranges) \<le> part_rows ranges"
proof -
  have "length (concat (map (\<lambda>(b, lo, hi). slice_of lo hi 0 (numbered_in spec b rows)) ranges)) \<le> part_rows ranges"
  proof (induction ranges)
    case (Cons r ranges)
    obtain b lo hi where r: "r = (b, lo, hi)" using prod_cases3 by blast
    show ?case using Cons length_slice [of lo hi 0 "numbered_in spec b rows"] by (simp add: r range_rows_def)
  qed simp
  then show ?thesis by (simp add: part_of_def)
qed

lemma sorted_part: "sorted (map (ts_sort_keys spec) (part_of spec rows ranges))"
proof -
  let ?xs = "sort_key (\<lambda>(r, n). (ts_sort_keys spec r, n)) (concat (map (\<lambda>(b, lo, hi). slice_of lo hi 0 (numbered_in spec b rows)) ranges))"
  have "sorted (map (\<lambda>(r, n). (ts_sort_keys spec r, n)) ?xs)" by (rule sorted_sort_key)
  then have "sorted (map fst (map (\<lambda>(r, n). (ts_sort_keys spec r, n)) ?xs))"
    by (auto simp: sorted_wrt_map less_eq_prod_def elim!: sorted_wrt_mono_rel [rotated])
  then show ?thesis by (simp add: part_of_def comp_def split_beta)
qed

lemma map_fst_numbered: "map fst (numbered rows) = rows"
  by (simp add: numbered_def)

lemma mset_parts:
  assumes "0 < mx"
  shows "mset (concat (parts_of spec mx rows)) = mset rows"
proof -
  let ?plan = "plan_from mx 0 (map (\<lambda>b. length (numbered_in spec b rows)) [0..<SPILL_BUCKETS]) [] 0"
  have "mset (concat (map (part_of spec rows) ps)) =
      image_mset fst (sum_list (map (\<lambda>(b, lo, hi). mset (slice_of lo hi 0 (numbered_in spec b rows))) (concat ps)))" for ps
    by (induction ps) (simp_all add: part_of_def mset_concat_slices del: mset_concat)
  from this [of ?plan] show ?thesis using plan_rows(1) [OF assms, of spec rows]
    by (simp add: parts_of_def map_fst_numbered flip: mset_map)
qed

lemma write_rows_parts:
  assumes "new_table_writer spec mx fl = Inr w"
  shows "if list_all (row_fits spec) rows then write_rows rows w = Inr (parts_of spec mx rows)
    else write_rows rows w \<in> {Inl WrongWidth, Inl ValueDoesNotFit}"
proof -
  note n = new_writer_holds [OF assms]
  obtain w' res where a: "add_rows rows w = (w', res)" by fastforce
  note s = add_rows_sound [OF conjunct1 [OF n] a]
  show ?thesis
  proof (cases res)
    case (Inl e)
    then show ?thesis using s a n by (auto simp: write_rows_def)
  next
    case (Inr u)
    then have "sound_rows rows w'" "tw_spec w' = spec" "tw_max_part_rows w' = mx" using s n by simp_all
    from finish_parts [OF this] show ?thesis using n a Inr by (simp add: write_rows_def)
  qed
qed


definition example_spec :: "(string \<times> int) table_spec" where
  "example_spec = \<lparr>ts_columns = [TextType, Int8], ts_cells = (\<lambda>(t, n). [TextCell t, IntCell n]),
     ts_sort_keys = (\<lambda>(t, n). [text_cell t, int_cell n]), ts_partition_key = fst\<rparr>"


end
