(* ===== verification/Bake.thy ===== *)
theory Bake
  imports Segment Prune Spill
begin

text \<open>
  \<^verbatim>\<open>tape/bake/bake.py\<close> and \<^verbatim>\<open>tape/bake/files.py\<close>: one closed hour baked into its tables, the tables put in
  place of its old ones, and the bake recorded in the manifest of its day; which hours need a bake;
  and the loop of \<^verbatim>\<open>tape bake\<close> and the report of \<^verbatim>\<open>tape prune\<close> (\<^verbatim>\<open>tape/cli.py\<close>).

  The tree under \<^verbatim>\<open>baked/\<close> is its directories by path, each with its files; what a bake does to it
  is a sequence of steps, so a crash is a prefix of them. Parameters: zstandard's decompressor, the
  JSON of a segment's header, Parquet's writer, and whether a segment's file changed between the
  two looks at it. Spill files, logging and the timing of a bake are left out.
\<close>

section \<open>Directories\<close>

type_synonym baked_tree = "(string, (string, string) dict) dict"

definition under :: "string \<Rightarrow> string \<Rightarrow> bool" where
  "under d p \<longleftrightarrow> p = d \<or> take (length d + 1) p = d @ path_sep"

text \<open>\<open>RemoveDir\<close>, \<open>MoveDir\<close> and \<open>RemoveEmpty\<close> do nothing to a directory that is not there.\<close>

datatype dir_op =
    RemoveDir string | MakeDir string | WritePart string string string | MoveDir string string | RemoveEmpty string

fun run_dir_op :: "dir_op \<Rightarrow> baked_tree \<Rightarrow> baked_tree" where
  "run_dir_op (RemoveDir d) t = filter (\<lambda>(p, _). \<not> under d p) t"
| "run_dir_op (MakeDir d) t = (if dict_get t d = None then dict_put d [] t else t)"
| "run_dir_op (WritePart d f content) t = dict_put d (dict_put f content (dict_get_or t d [])) t"
| "run_dir_op (MoveDir src dst) t = map (\<lambda>(p, files). (if under src p then dst @ drop (length src) p else p, files)) t"
| "run_dir_op (RemoveEmpty d) t =
     (if list_all (\<lambda>(p, files). under d p \<longrightarrow> p = d \<and> files = []) t then filter (\<lambda>(p, _). p \<noteq> d) t else t)"

definition run_dir_ops :: "dir_op list \<Rightarrow> baked_tree \<Rightarrow> baked_tree" where
  "run_dir_ops ops t = fold run_dir_op ops t"

definition OLD_SUFFIX :: string where "OLD_SUFFIX = ''.old''"

definition replace_dir :: "string \<Rightarrow> string option \<Rightarrow> dir_op list" where
  "replace_dir target replacement =
     (let old = target @ OLD_SUFFIX
      in [RemoveDir old, MoveDir target old] @
         (case replacement of None \<Rightarrow> [] | Some dir \<Rightarrow> [MoveDir dir target]) @ [RemoveDir old])"

definition STAGING :: string where "STAGING = ''.staging''"

definition staging_dir :: "hour_key \<Rightarrow> string" where
  "staging_dir k = STAGING @ path_sep @ hour_label k"

section \<open>Reading the segments of an hour\<close>

record 'b baker = "'b codec" +
  bx_env :: bake_env
  bx_decompress :: "string \<Rightarrow> fill_chunk list"
  bx_header :: "string \<Rightarrow> (int \<times> bool) option"
  bx_changed :: "string \<Rightarrow> bool"
  bx_parquet :: "string \<Rightarrow> table_row list \<Rightarrow> string"

definition BAKE_VERSION :: int where "BAKE_VERSION = 1"
definition DEFAULT_MAX_PART_ROWS :: nat where "DEFAULT_MAX_PART_ROWS = 500000"

record bake_report =
  rp_hour :: hour_key
  rp_bake :: hour_bake
  rp_segments :: "segment_entry list"
  rp_parts :: "(string, part_entry list) dict"
  rp_failures :: "decode_failure list"

definition report_rows :: "bake_report \<Rightarrow> (string, int) dict" where
  "report_rows rp = map (\<lambda>name. (name, sum_list (map pt_rows (dict_get_or (rp_parts rp) name [])))) TABLE_NAMES"

definition content_of :: "raw_tree \<Rightarrow> string \<Rightarrow> string" where
  "content_of raw name = (case segment_content raw name of None \<Rightarrow> [] | Some bs \<Rightarrow> bs)"

text \<open>\<open>takes\<close> says whether the tables take the rows so far: where they do not, the bake ends there.\<close>

definition bake_segment ::
  "('b, 'z) baker_scheme \<Rightarrow> (table_row list \<Rightarrow> bool) \<Rightarrow> raw_tree \<Rightarrow> hour_key \<Rightarrow> string \<Rightarrow> hour_state \<Rightarrow>
     archive_error + hour_state \<times> segment_entry" where
  "bake_segment bk takes raw hour file h =
     (let name = segment_name hour file; content = content_of raw name
      in result_bind
           (case rd_open (bx_header bk) (bx_decompress bk content) of
              Inl e \<Rightarrow> Inr (corrupt_segment name 0 h, \<lparr>sf_records = 0, sf_first_recv_wall_ns = None, sf_last_recv_wall_ns = None\<rparr>, False)
            | Inr (rd, conn_id, use_yes_price) \<Rightarrow>
                (case rd_records rd of
                   (records, rd, err) \<Rightarrow>
                     case read_segment (bx_env bk) name conn_id use_yes_price records (err \<noteq> None) h of
                       None \<Rightarrow> Inl (RecordRaised name)
                     | Some (h, facts) \<Rightarrow>
                         Inr (if rd_damaged rd then corrupt_segment name (sf_records facts) h else h, facts, rd_truncated rd)))
           (\<lambda>(h, facts, truncated).
              if \<not> takes (ho_rows h) then Inl TablesRefused
              else if bx_changed bk name then Inl (SegmentChangedWhileRead name)
              else Inr (h, \<lparr>se_path = name, se_hour = hk_hour hour, se_bytes = int (length content),
                se_sha256 = cd_sha256 bk content, se_records = sf_records facts,
                se_first_recv_wall_ns = sf_first_recv_wall_ns facts, se_last_recv_wall_ns = sf_last_recv_wall_ns facts,
                se_truncated = truncated\<rparr>)))"

fun bake_segments ::
  "('b, 'z) baker_scheme \<Rightarrow> (table_row list \<Rightarrow> bool) \<Rightarrow> raw_tree \<Rightarrow> hour_key \<Rightarrow> string list \<Rightarrow> hour_state \<Rightarrow>
     archive_error + hour_state \<times> segment_entry list" where
  "bake_segments bk takes raw hour [] h = Inr (h, [])"
| "bake_segments bk takes raw hour (file # files) h =
     result_bind (bake_segment bk takes raw hour file h) (\<lambda>(h, entry).
     result_bind (bake_segments bk takes raw hour files h) (\<lambda>(h, entries). Inr (h, entry # entries)))"

section \<open>Baking an hour\<close>

text \<open>Whether a pruned segment is of the hour.\<close>

fun pruned_of_hour :: "hour_key \<Rightarrow> pruned_segment list \<Rightarrow> archive_error + bool" where
  "pruned_of_hour hour [] = Inr False"
| "pruned_of_hour hour (p # ps) =
     (case segment_hour (pr_path p) of
        Inl e \<Rightarrow> Inl (BadSegmentName (pr_path p))
      | Inr place \<Rightarrow> if place = (hk_date hour, hk_hour hour) then Inr True else pruned_of_hour hour ps)"

definition has_pruned :: "manifest \<Rightarrow> hour_key \<Rightarrow> archive_error + bool" where
  "has_pruned m hour = pruned_of_hour hour (mf_pruned m)"

definition part_file :: "nat \<Rightarrow> string" where
  "part_file index = ''part-'' @ show_nat index @ ''.parquet''"

definition part_files :: "('b, 'z) baker_scheme \<Rightarrow> string \<Rightarrow> table_row list list \<Rightarrow> (string \<times> string) list" where
  "part_files bk name parts = map (\<lambda>(i, rows). (part_file i, bx_parquet bk name rows)) (enumerate 0 parts)"

definition part_entries :: "('b, 'z) baker_scheme \<Rightarrow> hour_key \<Rightarrow> string \<Rightarrow> table_row list list \<Rightarrow> part_entry list" where
  "part_entries bk hour name parts =
     map (\<lambda>(i, rows). \<lparr>pt_path = part_name name hour (part_file i), pt_hour = hk_hour hour, pt_rows = int (length rows),
         pt_bytes = int (length (bx_parquet bk name rows)), pt_sha256 = cd_sha256 bk (bx_parquet bk name rows)\<rparr>)
       (enumerate 0 parts)"

definition staged :: "hour_key \<Rightarrow> string \<Rightarrow> string" where
  "staged hour name = staging_dir hour @ path_sep @ name"

definition write_tables :: "('b, 'z) baker_scheme \<Rightarrow> hour_key \<Rightarrow> (string, table_row list list) dict \<Rightarrow> dir_op list" where
  "write_tables bk hour written =
     map (MakeDir \<circ> staged hour) TABLE_NAMES @
     concat (map (\<lambda>(name, parts). map (\<lambda>(f, content). WritePart (staged hour name) f content) (part_files bk name parts)) written)"

definition swap_tables :: "hour_key \<Rightarrow> (string, table_row list list) dict \<Rightarrow> dir_op list" where
  "swap_tables hour written =
     concat (map (\<lambda>name. replace_dir (partition_dir name hour)
                           (if dict_get_or written name [] \<noteq> [] then Some (staged hour name) else None)) TABLE_NAMES)"

text \<open>What a bake does to the tree under \<^verbatim>\<open>baked/\<close>, and its report; the last steps run whatever was raised.\<close>

definition bake_hour ::
  "('b, 'z) baker_scheme \<Rightarrow> string \<Rightarrow> nat \<Rightarrow> nat \<Rightarrow> hour_key \<Rightarrow> 'b archive \<Rightarrow> dir_op list \<times> (archive_error + bake_report)" where
  "bake_hour bk software_version max_part_rows flush_rows hour ar =
     (case result_bind (read_manifest bk ar (hk_date hour)) (\<lambda>m. case m of None \<Rightarrow> Inr False | Some m \<Rightarrow> has_pruned m hour) of
        Inl e \<Rightarrow> ([], Inl e)
      | Inr True \<Rightarrow> ([], Inl (HasPrunedSegments hour))
      | Inr False \<Rightarrow>
          (let begun = [RemoveDir (staging_dir hour), MakeDir (staging_dir hour)];
               cleaned = [RemoveDir (staging_dir hour), RemoveEmpty STAGING]
           in case new_hour_tables max_part_rows flush_rows of
                Inl e \<Rightarrow> (begun, Inl TablesRefused)
              | Inr tables \<Rightarrow>
                  (case bake_segments bk (\<lambda>rows. snd (ht_add_all rows tables) = Inr ()) (ar_raw ar) hour (segment_files (ar_raw ar) hour) (new_hour (start_wall_ns hour)) of
                     Inl e \<Rightarrow> (begun @ cleaned, Inl e)
                   | Inr (h, segments) \<Rightarrow>
                       (let tables = fst (ht_add_all (ho_rows h) tables);
                            result = finish_hour h
                        in case snd (ht_finish tables) of
                             (written, Some e) \<Rightarrow> (begun @ write_tables bk hour written @ cleaned, Inl TablesRefused)
                           | (written, None) \<Rightarrow>
                               (begun @ write_tables bk hour written @ swap_tables hour written @ cleaned,
                                Inr \<lparr>rp_hour = hour,
                                     rp_bake = \<lparr>hb_hour = hk_hour hour, hb_bake_version = BAKE_VERSION, hb_software_version = software_version,
                                       hb_accounting = hr_accounting result, hb_integrity = hr_integrity result\<rparr>,
                                     rp_segments = segments,
                                     rp_parts = map (\<lambda>name. (name, part_entries bk hour name (dict_get_or written name []))) TABLE_NAMES,
                                     rp_failures = hr_failures result\<rparr>)))))"

definition record_bake ::
  "('b, 'z) baker_scheme \<Rightarrow> string \<Rightarrow> int option \<Rightarrow> bake_report \<Rightarrow> 'b archive \<Rightarrow> archive_error + manifest \<times> 'b archive" where
  "record_bake bk software_version clock_offset_ms report ar =
     (let hour = rp_hour report; rejected = (\<lambda>r. case r of Inl e \<Rightarrow> Inl (RejectedBake hour e) | Inr m \<Rightarrow> Inr m)
      in result_bind (read_manifest bk ar (hk_date hour)) (\<lambda>found.
         result_bind (case found of None \<Rightarrow> rejected (new_manifest (hk_date hour) software_version) | Some m \<Rightarrow> Inr m) (\<lambda>m.
         result_bind (rejected (with_hour m (rp_bake report) (rp_segments report) (rp_parts report) software_version clock_offset_ms)) (\<lambda>updated.
         Inr (updated, ar\<lparr>ar_manifests := dict_put (hk_date hour) (cd_encode bk updated) (ar_manifests ar)\<rparr>)))))"

section \<open>Which hours need a bake\<close>

definition same_dict :: "('k, 'v) dict \<Rightarrow> ('k, 'v) dict \<Rightarrow> bool" where
  "same_dict a b \<longleftrightarrow> list_all (\<lambda>k. dict_get a k = dict_get b k) (dict_keys a @ dict_keys b)"

definition bake_needed :: "manifest option \<Rightarrow> hour_key \<Rightarrow> (string, int) dict \<Rightarrow> bool \<Rightarrow> archive_error + bool" where
  "bake_needed found hour sizes all_present =
     (case found of
        None \<Rightarrow> Inr (sizes \<noteq> [])
      | Some m \<Rightarrow> result_bind (has_pruned m hour) (\<lambda>pruned.
          if pruned then Inr False
          else case hour_bake_of m (hk_hour hour) of
                 None \<Rightarrow> Inr (sizes \<noteq> [])
               | Some entry \<Rightarrow>
                   if hb_bake_version entry \<noteq> BAKE_VERSION \<or> \<not> all_present then Inr True
                   else Inr (\<not> same_dict (map (\<lambda>s. (se_path s, se_bytes s)) (rev (hour_segments m (hk_hour hour)))) sizes)))"

definition sizes_on_disk :: "raw_tree \<Rightarrow> hour_key \<Rightarrow> (string, int) dict" where
  "sizes_on_disk raw hour =
     map (\<lambda>file. (segment_name hour file, int (length (content_of raw (segment_name hour file))))) (segment_files raw hour)"

definition parts_present :: "('b, 'y) archive_scheme \<Rightarrow> manifest option \<Rightarrow> hour_key \<Rightarrow> bool" where
  "parts_present ar found hour =
     (case found of None \<Rightarrow> True | Some m \<Rightarrow> list_all (\<lambda>p. part_content ar (pt_path p) \<noteq> None) (hour_parts m (hk_hour hour)))"

definition hour_needed :: "('b, 'z) codec_scheme \<Rightarrow> 'b archive \<Rightarrow> bool \<Rightarrow> hour_key \<Rightarrow> archive_error + bool" where
  "hour_needed cd ar force hour =
     result_bind (read_manifest cd ar (hk_date hour)) (\<lambda>found.
       if force then
         (if sizes_on_disk (ar_raw ar) hour = [] then Inr False
          else case found of None \<Rightarrow> Inr True | Some m \<Rightarrow> result_bind (has_pruned m hour) (\<lambda>pruned. Inr (\<not> pruned)))
       else bake_needed found hour (sizes_on_disk (ar_raw ar) hour) (parts_present ar found hour))"

definition hours_to_bake ::
  "('b, 'z) codec_scheme \<Rightarrow> 'b archive \<Rightarrow> int \<Rightarrow> int \<Rightarrow> bool \<Rightarrow> hour_key list option \<Rightarrow> archive_error + hour_key list" where
  "hours_to_bake cd ar now_wall_ns grace_ns force candidates =
     (let considered = (case candidates of None \<Rightarrow> raw_hours (ar_raw ar) | Some hours \<Rightarrow> sort (remdups hours))
      in case closed_hours considered now_wall_ns grace_ns of
           Inl e \<Rightarrow> Inl GraceNegative
         | Inr hours \<Rightarrow>
             result_bind (result_list (\<lambda>hour. result_bind (hour_needed cd ar force hour) (\<lambda>needed. Inr (hour, needed))) hours)
               (\<lambda>judged. Inr (map fst (filter snd judged))))"

section \<open>The commands\<close>

text \<open>Errors \<^verbatim>\<open>tape bake\<close> does not catch: they are neither the archive's nor the disk's.\<close>

fun uncaught :: "archive_error \<Rightarrow> bool" where
  "uncaught (RecordRaised _) = True"
| "uncaught TablesRefused = True"
| "uncaught (BadSegmentName _) = True"
| "uncaught GraceNegative = True"
| "uncaught _ = False"

record baked_hour =
  bh_hour :: hour_key
  bh_records :: int
  bh_decode_failures :: int
  bh_rows :: "(string, int) dict"
  bh_raw_bytes :: int
  bh_baked_bytes :: int

type_synonym failed_hour = "hour_key \<times> archive_error"
type_synonym bake_summary = "baked_hour list \<times> failed_hour list"

definition baked_hour_of :: "bake_report \<Rightarrow> baked_hour" where
  "baked_hour_of rp =
     \<lparr>bh_hour = rp_hour rp, bh_records = counts_total (ra_records (hb_accounting (rp_bake rp))),
      bh_decode_failures = accounting_failures (hb_accounting (rp_bake rp)), bh_rows = report_rows rp,
      bh_raw_bytes = sum_list (map se_bytes (rp_segments rp)),
      bh_baked_bytes = sum_list (map (\<lambda>(_, parts). sum_list (map pt_bytes parts)) (rp_parts rp))\<rparr>"

definition bake_and_record ::
  "('b, 'z) baker_scheme \<Rightarrow> string \<Rightarrow> int option \<Rightarrow> nat \<Rightarrow> hour_key \<Rightarrow> 'b archive \<Rightarrow> 'b archive \<times> (archive_error + bake_report)" where
  "bake_and_record bk software_version clock_offset_ms max_part_rows hour ar =
     (case bake_hour bk software_version max_part_rows DEFAULT_FLUSH_ROWS hour ar of
        (ops, res) \<Rightarrow>
          (let ar = ar\<lparr>ar_baked := run_dir_ops ops (ar_baked ar)\<rparr>
           in case res of
                Inl e \<Rightarrow> (ar, Inl e)
              | Inr report \<Rightarrow>
                  (case record_bake bk software_version clock_offset_ms report ar of
                     Inl e \<Rightarrow> (ar, Inl e)
                   | Inr (m, ar) \<Rightarrow> (ar, Inr report))))"

fun bake_each ::
  "('b, 'z) baker_scheme \<Rightarrow> string \<Rightarrow> int option \<Rightarrow> nat \<Rightarrow> hour_key list \<Rightarrow> 'b archive \<Rightarrow> 'b archive \<times> (archive_error + bake_summary)" where
  "bake_each bk software_version clock_offset_ms max_part_rows [] ar = (ar, Inr ([], []))"
| "bake_each bk software_version clock_offset_ms max_part_rows (hour # hours) ar =
     (case bake_and_record bk software_version clock_offset_ms max_part_rows hour ar of
        (ar, res) \<Rightarrow>
          (case res of
             Inl e \<Rightarrow>
               if uncaught e then (ar, Inl e)
               else (case bake_each bk software_version clock_offset_ms max_part_rows hours ar of
                       (ar, rest) \<Rightarrow> (ar, result_bind rest (\<lambda>(baked, failed). Inr (baked, (hour, e) # failed))))
           | Inr report \<Rightarrow>
               (case bake_each bk software_version clock_offset_ms max_part_rows hours ar of
                  (ar, rest) \<Rightarrow> (ar, result_bind rest (\<lambda>(baked, failed). Inr (baked_hour_of report # baked, failed))))))"

text \<open>\<open>held\<close> says whether another bake or prune holds the archive's lock.\<close>

definition bake_archive ::
  "('b, 'z) baker_scheme \<Rightarrow> string \<Rightarrow> int option \<Rightarrow> nat \<Rightarrow> int \<Rightarrow> int \<Rightarrow> bool \<Rightarrow> bool \<Rightarrow> hour_key option \<Rightarrow> 'b archive \<Rightarrow>
     'b archive \<times> (archive_error + bake_summary)" where
  "bake_archive bk software_version clock_offset_ms max_part_rows grace_s now_wall_ns held force hour ar =
     (if held then (ar, Inl ArchiveHeld)
      else let grace_ns = grace_s * NS_PER_S;
               closed = (case hour of None \<Rightarrow> Inr [] | Some k \<Rightarrow> closed_hours [k] now_wall_ns grace_ns)
      in case (hour, closed) of
           (_, Inl e) \<Rightarrow> (ar, Inl GraceNegative)
         | (Some k, Inr []) \<Rightarrow> (ar, Inl (HourNotClosed k))
         | _ \<Rightarrow>
             (case hours_to_bake bk ar now_wall_ns grace_ns force (map_option (\<lambda>k. [k]) hour) of
                Inl e \<Rightarrow> (ar, Inl e)
              | Inr hours \<Rightarrow> bake_each bk software_version clock_offset_ms max_part_rows hours ar))"

record pruned_hour =
  ph_hour :: hour_key
  ph_prunable :: bool
  ph_reasons :: "prune_reason list"
  ph_segments :: int
  ph_bytes :: int

record prune_summary =
  ps_applied :: bool
  ps_retention_hours :: int
  ps_hours :: "pruned_hour list"
  ps_prunable_hours :: int
  ps_prunable_bytes :: int
  ps_pruned_segments :: int
  ps_pruned_bytes :: int

definition prune_archive ::
  "('b, 'z) codec_scheme \<Rightarrow> (date \<Rightarrow> int) \<Rightarrow> int \<Rightarrow> int \<Rightarrow> bool \<Rightarrow> bool \<Rightarrow> 'b archive \<Rightarrow> 'b archive \<times> (archive_error + prune_summary)" where
  "prune_archive cd wall retention_hours now_wall_ns held apply_it ar =
     (if held then (ar, Inl ArchiveHeld)
      else case survey cd ar now_wall_ns retention_hours BAKE_VERSION of
        Inl e \<Rightarrow> (ar, Inl e)
      | Inr decisions \<Rightarrow>
          (case (if apply_it then apply_prune cd wall decisions ar else ([], Inr [])) of
             (ops, res) \<Rightarrow>
               (run_ops ops ar,
                result_bind res (\<lambda>pruned.
                  let prunable = filter de_prunable decisions
                  in Inr \<lparr>ps_applied = apply_it, ps_retention_hours = retention_hours,
                       ps_hours = map (\<lambda>d. \<lparr>ph_hour = de_hour d, ph_prunable = de_prunable d, ph_reasons = de_reasons d,
                         ph_segments = int (length (de_segments d)), ph_bytes = freed_bytes d\<rparr>) decisions,
                       ps_prunable_hours = int (length prunable), ps_prunable_bytes = sum_list (map freed_bytes prunable),
                       ps_pruned_segments = int (length pruned), ps_pruned_bytes = sum_list (map pr_bytes pruned)\<rparr>))))"

end
