(* ===== verification/Baked.thy ===== *)
theory Baked
  imports Bake Pruned Spilled Archive
begin

text \<open>
  What holds of a bake: it replaces the tables of its hour whole, however it is interrupted, and an
  hour \<^verbatim>\<open>tape bake\<close> reports baked needs no bake again and is prunable once its window is over and its
  records were all accounted for.
\<close>

section \<open>Steps on the tree\<close>

lemma get_filtered: "dict_get (filter (\<lambda>(p, _). P p) t) q = (if P q then dict_get t q else None)"
  by (induction t) auto

lemma get_renamed:
  assumes "\<forall>p\<in>set (dict_keys t). f p = q' \<longleftrightarrow> p = q"
  shows "dict_get (map (\<lambda>(p, files). (f p, files)) t) q' = dict_get t q"
  using assms by (induction t) (auto simp: split_beta)

lemma get_renamed_none:
  assumes "\<forall>p\<in>set (dict_keys t). f p \<noteq> q'"
  shows "dict_get (map (\<lambda>(p, files). (f p, files)) t) q' = None"
  using assms by (induction t) (auto simp: split_beta)

lemma get_absent: "q \<notin> set (dict_keys t) \<longleftrightarrow> dict_get t q = None"
  by (simp add: map_of_eq_None_iff)

lemma under_self [simp]: "under d d"
  by (simp add: under_def)

lemma under_append [simp]: "under (d @ a) (d @ b) \<longleftrightarrow> under a b"
  by (auto simp: under_def path_sep_def)

lemma under_ex: "under d p \<longleftrightarrow> p = d \<or> (\<exists>rest. p = d @ path_sep @ rest)"
proof -
  have "take (length d + 1) p = d @ path_sep \<Longrightarrow> p = d @ path_sep @ drop (length d + 1) p"
    by (metis append.assoc append_take_drop_id)
  moreover have "take (length d + 1) (d @ path_sep @ rest) = d @ path_sep" for rest by (simp add: path_sep_def)
  ultimately show ?thesis unfolding under_def by blast
qed

text \<open>A step that leaves a directory as it is.\<close>

fun aside :: "string \<Rightarrow> dir_op \<Rightarrow> bool" where
  "aside q (RemoveDir d) \<longleftrightarrow> \<not> under d q"
| "aside q (MakeDir d) \<longleftrightarrow> d \<noteq> q"
| "aside q (WritePart d f content) \<longleftrightarrow> d \<noteq> q"
| "aside q (MoveDir src dst) \<longleftrightarrow> \<not> under src q \<and> \<not> under dst q"
| "aside q (RemoveEmpty d) \<longleftrightarrow> d \<noteq> q"

lemma under_moved: "under src p \<Longrightarrow> under dst (dst @ drop (length src) p)"
  by (auto simp: under_ex)

lemma moved_eq: "under src p \<Longrightarrow> dst @ drop (length src) p = dst \<longleftrightarrow> p = src"
  by (auto simp: under_ex path_sep_def)

lemma get_move_aside:
  assumes "\<not> under src q" "\<not> under dst q"
  shows "dict_get (run_dir_op (MoveDir src dst) t) q = dict_get t q"
  unfolding run_dir_op.simps by (rule get_renamed) (use assms under_moved in auto)

lemma aside_get: "aside q op \<Longrightarrow> dict_get (run_dir_op op t) q = dict_get t q"
  by (cases op) (simp_all add: get_filtered dict_simps get_move_aside del: run_dir_op.simps(4))

lemma run_dir_ops_simps [simp]:
  "run_dir_ops [] t = t" "run_dir_ops (op # ops) t = run_dir_ops ops (run_dir_op op t)"
  "run_dir_ops (ops @ ops') t = run_dir_ops ops' (run_dir_ops ops t)"
  by (simp_all add: run_dir_ops_def)

lemma ops_aside: "list_all (aside q) ops \<Longrightarrow> dict_get (run_dir_ops ops t) q = dict_get t q"
  by (induction ops arbitrary: t) (simp_all add: aside_get)

lemma moved_away:
  assumes "\<not> under dst q" "under src q"
  shows "dict_get (run_dir_op (MoveDir src dst) t) q = None"
  unfolding run_dir_op.simps by (rule get_renamed_none) (use assms under_moved in auto)

lemma moved_here:
  assumes "dict_get t dst = None" "\<not> under src dst"
  shows "dict_get (run_dir_op (MoveDir src dst) t) dst = dict_get t src"
  unfolding run_dir_op.simps
proof (rule get_renamed, rule ballI)
  fix p assume "p \<in> set (dict_keys t)"
  then have "p \<noteq> dst" using assms(1) get_absent by metis
  then show "(if under src p then dst @ drop (length src) p else p) = dst \<longleftrightarrow> p = src"
    using moved_eq by auto
qed

lemma put_fresh: "k \<notin> set (dict_keys d) \<Longrightarrow> dict_put k v d = d @ [(k, v)]"
  by (induction d) auto

lemma written_parts:
  assumes "distinct (map fst files)" "dict_get t d = Some []"
  shows "dict_get (run_dir_ops (map (\<lambda>(f, content). WritePart d f content) files) t) d = Some files"
proof -
  have "dict_get (run_dir_ops (map (\<lambda>(f, content). WritePart d f content) files) t) d = Some (present @ files)"
    if "dict_get t d = Some present" "distinct (map fst (present @ files))" for present
    using that
  proof (induction files arbitrary: t present)
    case (Cons x files)
    obtain f content where x: "x = (f, content)" by fastforce
    have "dict_put f content present = present @ [(f, content)]"
      using Cons.prems(2) by (intro put_fresh) (auto simp: x)
    then show ?case using Cons.prems Cons.IH [of "run_dir_op (WritePart d f content) t" "present @ [(f, content)]"]
      by (simp add: x dict_get_or_def dict_simps)
  qed simp
  from this [of "[]"] assms show ?thesis by simp
qed

section \<open>Replacing a directory\<close>

text \<open>
  What a table's directory holds, and what the directory beside it holds, as far as a crash goes:
  the old files, the new ones, or none with the old ones aside.
\<close>

definition old_or_new :: "'x option \<Rightarrow> 'x option \<Rightarrow> 'x option \<times> 'x option \<Rightarrow> bool" where
  "old_or_new before after v \<longleftrightarrow> fst v = before \<or> fst v = after \<or> fst v = None \<and> snd v = before"

definition at_target :: "string \<Rightarrow> baked_tree \<Rightarrow> (string, string) dict option \<times> (string, string) dict option" where
  "at_target target t = (dict_get t target, dict_get t (target @ OLD_SUFFIX))"

lemma old_apart [simp]: "\<not> under d (d @ OLD_SUFFIX)" "\<not> under (d @ OLD_SUFFIX) d"
  by (auto simp: under_ex OLD_SUFFIX_def path_sep_def)

lemma replace_steps:
  assumes "\<not> under dir target" "\<not> under target dir" "\<not> under dir (target @ OLD_SUFFIX)" "\<not> under (target @ OLD_SUFFIX) dir"
  shows "old_or_new (dict_get t target) (dict_get t dir) (at_target target (run_dir_ops (take n (replace_dir target (Some dir))) t)) \<and>
    dict_get (run_dir_ops (replace_dir target (Some dir)) t) target = dict_get t dir"
proof -
  let ?old = "target @ OLD_SUFFIX"
  define t1 t2 t3 t4 where "t1 = run_dir_op (RemoveDir ?old) t" "t2 = run_dir_op (MoveDir target ?old) t1"
    "t3 = run_dir_op (MoveDir dir target) t2" "t4 = run_dir_op (RemoveDir ?old) t3"
  note steps = this
  have g1: "dict_get t1 target = dict_get t target" "dict_get t1 ?old = None" "dict_get t1 dir = dict_get t dir"
    using assms by (simp_all add: steps get_filtered)
  have g2: "dict_get t2 target = None" "dict_get t2 ?old = dict_get t target" "dict_get t2 dir = dict_get t dir"
    unfolding steps(2) using g1 assms by (simp_all add: moved_away moved_here get_move_aside del: run_dir_op.simps)
  have g3: "dict_get t3 target = dict_get t dir" unfolding steps(3) using g2 assms by (simp add: moved_here del: run_dir_op.simps)
  have g4: "dict_get t4 target = dict_get t dir" using g3 by (simp add: steps(4) get_filtered)
  have ops: "replace_dir target (Some dir) = [RemoveDir ?old, MoveDir target ?old, MoveDir dir target, RemoveDir ?old]"
    by (simp add: replace_dir_def Let_def)
  consider "n = 0" | "n = 1" | "n = 2" | "n = 3" | "4 \<le> n" by linarith
  then have "at_target target (run_dir_ops (take n (replace_dir target (Some dir))) t) \<in> at_target target ` {t, t1, t2, t3, t4}"
    by cases (simp_all add: ops steps del: run_dir_op.simps)
  moreover have "old_or_new (dict_get t target) (dict_get t dir) (at_target target x)" if "x \<in> {t, t1, t2, t3, t4}" for x
    using that g1 g2 g3 g4 by (auto simp: old_or_new_def at_target_def)
  moreover have "run_dir_ops (replace_dir target (Some dir)) t = t4" by (simp add: ops steps del: run_dir_op.simps)
  ultimately show ?thesis using g4 by fastforce
qed

lemma remove_steps:
  "old_or_new (dict_get t target) None (at_target target (run_dir_ops (take n (replace_dir target None)) t)) \<and>
    dict_get (run_dir_ops (replace_dir target None) t) target = None"
proof -
  let ?old = "target @ OLD_SUFFIX"
  define t1 t2 t3 where "t1 = run_dir_op (RemoveDir ?old) t" "t2 = run_dir_op (MoveDir target ?old) t1"
    "t3 = run_dir_op (RemoveDir ?old) t2"
  note steps = this
  have g1: "dict_get t1 target = dict_get t target" "dict_get t1 ?old = None" by (simp_all add: steps get_filtered)
  have g2: "dict_get t2 target = None" unfolding steps(2) by (simp add: moved_away del: run_dir_op.simps)
  have g3: "dict_get t3 target = None" using g2 by (simp add: steps(3) get_filtered)
  have ops: "replace_dir target None = [RemoveDir ?old, MoveDir target ?old, RemoveDir ?old]"
    by (simp add: replace_dir_def Let_def)
  consider "n = 0" | "n = 1" | "n = 2" | "3 \<le> n" by linarith
  then have "at_target target (run_dir_ops (take n (replace_dir target None)) t) \<in> at_target target ` {t, t1, t2, t3}"
    by cases (simp_all add: ops steps del: run_dir_op.simps)
  moreover have "old_or_new (dict_get t target) None (at_target target x)" if "x \<in> {t, t1, t2, t3}" for x
    using that g1 g2 g3 by (auto simp: old_or_new_def at_target_def)
  moreover have "run_dir_ops (replace_dir target None) t = t3" by (simp add: ops steps del: run_dir_op.simps)
  ultimately show ?thesis using g3 by fastforce
qed

text \<open>A replacement among steps that leave the target aside.\<close>

lemma take_three:
  obtains k where "take n (xs @ ys @ zs) = take n xs" | k where "take n (xs @ ys @ zs) = xs @ take k ys"
  | k where "take n (xs @ ys @ zs) = xs @ ys @ take k zs"
  by (cases "n \<le> length xs"; cases "n - length xs \<le> length ys") auto

lemma replaced_among:
  assumes a: "list_all (aside target) xs" "list_all (aside (target @ OLD_SUFFIX)) xs" "list_all (aside target) zs"
    and r: "\<And>n. old_or_new (dict_get t target) new (at_target target (run_dir_ops (take n ys) (run_dir_ops xs t)))"
      "dict_get (run_dir_ops ys (run_dir_ops xs t)) target = new"
  shows "old_or_new (dict_get t target) new (at_target target (run_dir_ops (take n (xs @ ys @ zs)) t)) \<and>
    dict_get (run_dir_ops (xs @ ys @ zs) t) target = new"
proof -
  have sub: "list_all (aside q) (take k ops)" if "list_all (aside q) ops" for q k ops
    using that by (auto simp: list_all_iff dest: in_set_takeD)
  have fin: "dict_get (run_dir_ops (xs @ ys @ take k zs) t) target = new" for k
    using sub [OF a(3)] r(2) by (simp add: ops_aside)
  have "old_or_new (dict_get t target) new (at_target target (run_dir_ops (take n xs) t))"
    using sub [OF a(1)] by (simp add: old_or_new_def at_target_def ops_aside)
  then have "old_or_new (dict_get t target) new (at_target target (run_dir_ops (take n (xs @ ys @ zs)) t))"
    using r(1) fin by (cases rule: take_three [of n xs ys zs]) (auto simp: old_or_new_def at_target_def)
  then show ?thesis using fin [of "length zs"] by simp
qed

section \<open>The paths of a bake\<close>

definition top_dir :: "string \<Rightarrow> string" where
  "top_dir p = takeWhile (\<lambda>c. c \<noteq> CHR ''/'') p"

lemma top_append: "CHR ''/'' \<in> set d \<Longrightarrow> top_dir (d @ rest) = top_dir d"
  by (auto simp: top_dir_def takeWhile_append)

lemma under_top: "CHR ''/'' \<in> set d \<Longrightarrow> under d p \<Longrightarrow> top_dir p = top_dir d"
  by (auto simp: under_ex top_append)

lemma table_names: "n \<in> set TABLE_NAMES \<Longrightarrow> CHR ''/'' \<notin> set n \<and> n \<noteq> STAGING"
  by (auto simp: TABLE_NAMES_def STAGING_def)

lemma staging_no_slash: "CHR ''/'' \<notin> set STAGING"
  by (simp add: STAGING_def)

lemma slashes [simp]:
  "CHR ''/'' \<in> set (partition_dir n k)" "CHR ''/'' \<in> set (staging_dir k)" "CHR ''/'' \<in> set (staged k n)"
  by (simp_all add: partition_dir_def staging_dir_def staged_def path_sep_def)

lemma tops [simp]:
  "n \<in> set TABLE_NAMES \<Longrightarrow> top_dir (partition_dir n k) = n" "top_dir (staging_dir k) = STAGING" "top_dir (staged k n) = STAGING"
  "n \<in> set TABLE_NAMES \<Longrightarrow> top_dir (partition_dir n k @ OLD_SUFFIX) = n"
proof -
  have cut: "top_dir (n @ CHR ''/'' # rest) = n" if "CHR ''/'' \<notin> set n" for n rest
    using that by (auto simp: top_dir_def takeWhile_append)
  show p: "n \<in> set TABLE_NAMES \<Longrightarrow> top_dir (partition_dir n k) = n" "top_dir (staging_dir k) = STAGING" "top_dir (staged k n) = STAGING"
    using table_names cut unfolding partition_dir_def staging_dir_def staged_def path_sep_def
    by (simp_all add: staging_no_slash)
  show "n \<in> set TABLE_NAMES \<Longrightarrow> top_dir (partition_dir n k @ OLD_SUFFIX) = n" by (simp add: top_append p)
qed

lemma apart_tops: "CHR ''/'' \<in> set d \<Longrightarrow> top_dir p \<noteq> top_dir d \<Longrightarrow> \<not> under d p"
  using under_top by blast

lemma apart [simp]:
  assumes "n \<in> set TABLE_NAMES"
  shows "\<not> under (staging_dir j) (partition_dir n k)" "\<not> under (staging_dir j) (partition_dir n k @ OLD_SUFFIX)"
    "\<not> under (staged j m) (partition_dir n k)" "\<not> under (staged j m) (partition_dir n k @ OLD_SUFFIX)"
    "\<not> under (partition_dir n k) (staged j m)" "\<not> under (partition_dir n k @ OLD_SUFFIX) (staged j m)"
  using assms table_names [OF assms] by (simp_all add: apart_tops not_sym)

lemma other_table [simp]:
  assumes "n \<in> set TABLE_NAMES" "m \<in> set TABLE_NAMES" "m \<noteq> n"
  shows "\<not> under (partition_dir m j) (partition_dir n k)" "\<not> under (partition_dir m j @ OLD_SUFFIX) (partition_dir n k)"
    "\<not> under (partition_dir m j) (partition_dir n k @ OLD_SUFFIX)" "\<not> under (partition_dir m j @ OLD_SUFFIX) (partition_dir n k @ OLD_SUFFIX)"
  using assms by (simp_all add: apart_tops)

lemma staged_under [simp]: "under (staging_dir k) (staged k n)"
  by (simp add: staged_def under_ex)

lemma staged_apart [simp]:
  assumes "n \<in> set TABLE_NAMES" "m \<in> set TABLE_NAMES"
  shows "under (staged k m) (staged k n) \<longleftrightarrow> m = n"
proof -
  have "under m n \<longleftrightarrow> m = n" using table_names [OF assms(1)] by (auto simp: under_ex path_sep_def)
  then show ?thesis by (simp add: staged_def)
qed

lemma staged_eq: "staged k m = staged k n \<longleftrightarrow> m = n"
  by (simp add: staged_def)

lemma not_equal [simp]:
  "n \<in> set TABLE_NAMES \<Longrightarrow> staged j m \<noteq> partition_dir n k" "n \<in> set TABLE_NAMES \<Longrightarrow> staged j m \<noteq> partition_dir n k @ OLD_SUFFIX"
  "n \<in> set TABLE_NAMES \<Longrightarrow> staging_dir j \<noteq> partition_dir n k" "n \<in> set TABLE_NAMES \<Longrightarrow> staging_dir j \<noteq> partition_dir n k @ OLD_SUFFIX"
  "STAGING \<noteq> partition_dir n k" "STAGING \<noteq> partition_dir n k @ OLD_SUFFIX" "staging_dir k \<noteq> staged k n"
  using apart [of n] under_self staging_no_slash slashes by (metis, metis, metis, metis, metis, metis Un_iff set_append, simp add: staged_def path_sep_def)

section \<open>The steps of a bake\<close>

definition begun :: "hour_key \<Rightarrow> dir_op list" where
  "begun k = [RemoveDir (staging_dir k), MakeDir (staging_dir k)]"

definition cleaned :: "hour_key \<Rightarrow> dir_op list" where
  "cleaned k = [RemoveDir (staging_dir k), RemoveEmpty STAGING]"

definition bake_steps :: "('b, 'z) baker_scheme \<Rightarrow> hour_key \<Rightarrow> (string, table_row list list) dict \<Rightarrow> dir_op list" where
  "bake_steps bk k written = begun k @ write_tables bk k written @ swap_tables k written @ cleaned k"

definition swap_table :: "hour_key \<Rightarrow> (string, table_row list list) dict \<Rightarrow> string \<Rightarrow> dir_op list" where
  "swap_table k written name = replace_dir (partition_dir name k) (if dict_get_or written name [] \<noteq> [] then Some (staged k name) else None)"

definition stage_table :: "('b, 'z) baker_scheme \<Rightarrow> hour_key \<Rightarrow> string \<times> table_row list list \<Rightarrow> dir_op list" where
  "stage_table bk k table = map (\<lambda>(f, content). WritePart (staged k (fst table)) f content) (part_files bk (fst table) (snd table))"

lemma write_tables_eq: "write_tables bk k written = map (MakeDir \<circ> staged k) TABLE_NAMES @ concat (map (stage_table bk k) written)"
  by (simp add: write_tables_def stage_table_def [abs_def] case_prod_unfold)

lemma swap_tables_eq: "swap_tables k written = concat (map (swap_table k written) TABLE_NAMES)"
  by (simp add: swap_tables_def swap_table_def [abs_def])

lemma all_concat: "list_all P (concat xss) \<longleftrightarrow> (\<forall>xs\<in>set xss. list_all P xs)"
  by (induction xss) auto

lemma aside_target:
  assumes "n \<in> set TABLE_NAMES" "q = partition_dir n k \<or> q = partition_dir n k @ OLD_SUFFIX"
  shows "list_all (aside q) (begun j)" "list_all (aside q) (cleaned j)" "list_all (aside q) (write_tables bk j written)"
    "m \<in> set TABLE_NAMES \<Longrightarrow> m \<noteq> n \<Longrightarrow> list_all (aside q) (swap_table j written m)"
  using assms
  by (auto simp: begun_def cleaned_def write_tables_eq stage_table_def swap_table_def replace_dir_def Let_def list_all_iff)

lemma aside_staged:
  assumes "n \<in> set TABLE_NAMES" "m \<in> set TABLE_NAMES" "m \<noteq> n"
  shows "list_all (aside (staged k n)) (swap_table k written m)" "list_all (aside (staged k n)) (stage_table bk k (m, parts))"
    "aside (staged k n) (MakeDir (staged k m))"
  using assms staged_apart [OF assms(1,2), of k] staged_eq [of k m n]
  by (auto simp: swap_table_def replace_dir_def Let_def stage_table_def list_all_iff)

lemma part_file_inj: "part_file i = part_file j \<longleftrightarrow> i = j"
proof
  assume "part_file i = part_file j"
  then have "show_nat i = show_nat j" by (simp add: part_file_def)
  moreover have "digits_value (show_nat n) = n" for n
    using zero_pad_show [of 0 n] digits_value_pad [of 0 n] by (simp add: zero_pad_def)
  ultimately show "i = j" by metis
qed simp

lemma part_files_distinct: "distinct (map fst (part_files bk name parts))"
proof -
  have "map fst (part_files bk name parts) = map part_file [0..<length parts]"
    by (simp add: part_files_def comp_def split_beta flip: map_map [of part_file fst, unfolded comp_def])
  then show ?thesis by (simp add: distinct_map inj_on_def part_file_inj)
qed

lemma staged_files:
  assumes n: "n \<in> set TABLE_NAMES" and keys: "dict_keys written = TABLE_NAMES"
  shows "dict_get (run_dir_ops (begun k @ write_tables bk k written) t) (staged k n) = Some (part_files bk n (dict_get_or written n []))"
proof -
  let ?q = "staged k n"
  have dist: "distinct TABLE_NAMES" by (simp add: TABLE_NAMES_def)
  obtain ns1 ns2 where ns: "TABLE_NAMES = ns1 @ n # ns2" using n by (meson split_list)
  then have out: "n \<notin> set ns1" "n \<notin> set ns2" using dist by (simp_all add: ns)
  obtain parts where get: "dict_get written n = Some parts" using n keys by (metis get_absent option.exhaust)
  then obtain w1 w2 where w: "written = w1 @ (n, parts) # w2" using map_of_SomeD split_list by metis
  have wout: "n \<notin> set (dict_keys w1)" "n \<notin> set (dict_keys w2)" "set (dict_keys w1) \<subseteq> set TABLE_NAMES" "set (dict_keys w2) \<subseteq> set TABLE_NAMES"
    using dist unfolding keys [symmetric] by (auto simp: w)
  have stage: "list_all (aside ?q) (concat (map (stage_table bk k) ws))" if "n \<notin> set (dict_keys ws)" "set (dict_keys ws) \<subseteq> set TABLE_NAMES" for ws
    unfolding all_concat using that n by (force intro!: aside_staged(2))
  have make: "list_all (aside ?q) (map (MakeDir \<circ> staged k) ms)" if "n \<notin> set ms" "set ms \<subseteq> set TABLE_NAMES" for ms
    using that n aside_staged(3) [OF n] by (auto simp: list_all_iff)
  have sub: "set ns1 \<subseteq> set TABLE_NAMES" "set ns2 \<subseteq> set TABLE_NAMES" by (auto simp: ns)
  have "dict_get (run_dir_ops (begun k) t) ?q = None"
    by (simp add: begun_def get_filtered dict_simps not_equal(7) [symmetric])
  then have "dict_get (run_dir_ops (map (MakeDir \<circ> staged k) TABLE_NAMES) (run_dir_ops (begun k) t)) ?q = Some []"
    using make [OF out(1) sub(1)] make [OF out(2) sub(2)] by (simp add: ns ops_aside dict_simps)
  then have "dict_get (run_dir_ops (concat (map (stage_table bk k) (w1 @ [(n, parts)])))
      (run_dir_ops (map (MakeDir \<circ> staged k) TABLE_NAMES) (run_dir_ops (begun k) t))) ?q = Some (part_files bk n parts)"
    using stage [OF wout(1,3)] by (simp add: ops_aside stage_table_def written_parts [OF part_files_distinct])
  then show ?thesis using stage [OF wout(2,4)] get
    by (simp add: write_tables_eq w ops_aside dict_get_or_def)
qed

text \<open>The directory of one table, after any number of the steps of a bake, and after all of them.\<close>

definition new_files :: "('b, 'z) baker_scheme \<Rightarrow> string \<Rightarrow> table_row list list \<Rightarrow> (string, string) dict option" where
  "new_files bk name parts = (if parts = [] then None else Some (part_files bk name parts))"

lemma baked_table:
  assumes n: "n \<in> set TABLE_NAMES" and keys: "dict_keys written = TABLE_NAMES"
  shows "old_or_new (dict_get t (partition_dir n k)) (new_files bk n (dict_get_or written n []))
      (at_target (partition_dir n k) (run_dir_ops (take i (bake_steps bk k written)) t)) \<and>
    dict_get (run_dir_ops (bake_steps bk k written) t) (partition_dir n k) = new_files bk n (dict_get_or written n [])"
proof -
  let ?q = "partition_dir n k" and ?parts = "dict_get_or written n []"
  obtain ns1 ns2 where ns: "TABLE_NAMES = ns1 @ n # ns2" using n by (meson split_list)
  have "distinct TABLE_NAMES" by (simp add: TABLE_NAMES_def)
  then have out: "n \<notin> set ns1" "n \<notin> set ns2" by (simp_all add: ns)
  define xs zs where "xs = begun k @ write_tables bk k written @ concat (map (swap_table k written) ns1)"
    "zs = concat (map (swap_table k written) ns2) @ cleaned k"
  note parts = this
  have swaps: "list_all (aside q) (concat (map (swap_table k written) ms))"
    if "q = ?q \<or> q = ?q @ OLD_SUFFIX \<or> q = staged k n" "n \<notin> set ms" "set ms \<subseteq> set TABLE_NAMES" for q ms
    unfolding all_concat using that n by (auto intro!: aside_target(4) aside_staged(1))
  have sub: "set ns1 \<subseteq> set TABLE_NAMES" "set ns2 \<subseteq> set TABLE_NAMES" by (auto simp: ns)
  have a: "list_all (aside ?q) xs" "list_all (aside (?q @ OLD_SUFFIX)) xs" "list_all (aside ?q) zs"
    using swaps [OF _ out(1) sub(1)] swaps [OF _ out(2) sub(2)] by (simp_all add: parts aside_target(1-3) [OF n, where k = k])
  have staged: "dict_get (run_dir_ops xs t) (staged k n) = Some (part_files bk n ?parts)"
    using staged_files [OF n keys, of k bk t] swaps [OF _ out(1) sub(1), of "staged k n"] by (simp add: parts ops_aside)
  have before: "dict_get (run_dir_ops xs t) ?q = dict_get t ?q" using a(1) by (rule ops_aside)
  have steps: "bake_steps bk k written = xs @ swap_table k written n @ zs"
    by (simp add: bake_steps_def swap_tables_eq ns parts)
  have "old_or_new (dict_get t ?q) (new_files bk n ?parts) (at_target ?q (run_dir_ops (take j (swap_table k written n)) (run_dir_ops xs t))) \<and>
      dict_get (run_dir_ops (swap_table k written n) (run_dir_ops xs t)) ?q = new_files bk n ?parts" for j
  proof (cases "?parts = []")
    case True
    then show ?thesis using remove_steps [of "run_dir_ops xs t" ?q j] before by (simp add: swap_table_def new_files_def)
  next
    case False
    then show ?thesis using replace_steps [of "staged k n" ?q "run_dir_ops xs t" j] before staged n
      by (simp add: swap_table_def new_files_def)
  qed
  then show ?thesis unfolding steps using replaced_among [OF a] by blast
qed

section \<open>The tables of an hour\<close>

lemma put_in_row: "distinct ns \<Longrightarrow> k \<in> set ns \<Longrightarrow> dict_put k v (map (\<lambda>n. (n, f n)) ns) = map (\<lambda>n. (n, if n = k then v else f n)) ns"
  by (induction ns) auto

lemma table_of_named: "table_of r \<in> set TABLE_NAMES"
  by (cases r) (simp_all add: TABLE_NAMES_def)

definition rows_of :: "string \<Rightarrow> table_row list \<Rightarrow> table_row list" where
  "rows_of name rows = filter (\<lambda>r. table_of r = name) rows"

text \<open>What the writers of an hour hold, by table.\<close>

definition tables_sound :: "(string \<Rightarrow> table_row list) \<Rightarrow> nat \<Rightarrow> hour_tables \<Rightarrow> bool" where
  "tables_sound f mx ht \<longleftrightarrow> (\<exists>w. ht = map (\<lambda>n. (n, w n)) TABLE_NAMES \<and>
     (\<forall>n. sound_rows (f n) (w n) \<and> tw_spec (w n) = TABLES n \<and> tw_max_part_rows (w n) = mx))"

definition table_row_fits :: "table_row \<Rightarrow> bool" where
  "table_row_fits r \<longleftrightarrow> row_fits (TABLES (table_of r)) r"

definition tables_fit :: "(string \<Rightarrow> table_row list) \<Rightarrow> bool" where
  "tables_fit f \<longleftrightarrow> (\<forall>n. list_all (row_fits (TABLES n)) (f n))"

lemma tables_add:
  assumes "tables_sound f mx ht" "ht_add r ht = (ht', res)"
  shows "case res of Inr _ \<Rightarrow> tables_sound (\<lambda>n. if n = table_of r then f n @ [r] else f n) mx ht'
    | Inl e \<Rightarrow> \<not> list_all (row_fits (TABLES (table_of r))) (f (table_of r) @ [r])"
proof -
  obtain w where w: "ht = map (\<lambda>n. (n, w n)) TABLE_NAMES"
    "\<And>n. sound_rows (f n) (w n) \<and> tw_spec (w n) = TABLES n \<and> tw_max_part_rows (w n) = mx"
    using assms(1) by (auto simp: tables_sound_def)
  have get: "dict_get ht (table_of r) = Some (w (table_of r))"
    using table_of_named [of r] by (simp add: w(1) map_of_map_restrict)
  have "distinct TABLE_NAMES" by (simp add: TABLE_NAMES_def)
  note put = put_in_row [OF this table_of_named]
  obtain w' r' where a: "tw_add r (w (table_of r)) = (w', r')" by fastforce
  have ht': "ht' = map (\<lambda>n. (n, if n = table_of r then w' else w n)) TABLE_NAMES" "res = r'"
    using assms(2) get by (simp_all add: ht_add_def a w(1) put)
  note s = add_sound [OF conjunct1 [OF w(2)] a]
  show ?thesis
  proof (cases r')
    case (Inl e)
    then show ?thesis using s w(2) by (simp add: ht')
  next
    case (Inr u)
    then show ?thesis using s w(2) unfolding ht' tables_sound_def
      by (auto intro!: exI [of _ "\<lambda>n. if n = table_of r then w' else w n"])
  qed
qed

lemma tables_add_all:
  assumes "tables_sound f mx ht" "ht_add_all rows ht = (ht', res)"
  shows "case res of Inr _ \<Rightarrow> tables_sound (\<lambda>n. f n @ rows_of n rows) mx ht'
    | Inl e \<Rightarrow> \<not> tables_fit (\<lambda>n. f n @ rows_of n rows)"
  using assms
proof (induction rows arbitrary: f ht)
  case Nil
  then show ?case by (auto simp: rows_of_def split: sum.split)
next
  case (Cons r rows)
  obtain ht1 r1 where a: "ht_add r ht = (ht1, r1)" by fastforce
  have same: "(\<lambda>n. (if n = table_of r then f n @ [r] else f n) @ rows_of n rows) = (\<lambda>n. f n @ rows_of n (r # rows))"
    by (auto simp: rows_of_def)
  note s = tables_add [OF Cons.prems(1) a]
  show ?case
  proof (cases r1)
    case (Inl e)
    then have "\<not> list_all (row_fits (TABLES (table_of r))) (f (table_of r) @ rows_of (table_of r) (r # rows))"
      using s by (auto simp: rows_of_def)
    then show ?thesis using Cons.prems(2) a Inl by (auto simp: tables_fit_def)
  next
    case (Inr u)
    then have run: "tables_sound (\<lambda>n. if n = table_of r then f n @ [r] else f n) mx ht1" "ht_add_all rows ht1 = (ht', res)"
      using Cons.prems(2) a s by simp_all
    show ?thesis using Cons.IH [OF run] unfolding same .
  qed
qed

definition table_parts :: "nat \<Rightarrow> table_row list \<Rightarrow> (string, table_row list list) dict" where
  "table_parts max_part_rows rows = map (\<lambda>n. (n, parts_of (TABLES n) max_part_rows (rows_of n rows))) TABLE_NAMES"

lemma finish_all:
  assumes "\<And>n. sound_rows (f n) (w n) \<and> tw_spec (w n) = TABLES n \<and> tw_max_part_rows (w n) = mx" "0 < mx"
    "snd (finish_tables (map (\<lambda>n. (n, w n)) ns)) = (written, err)"
  shows "if list_all (\<lambda>n. list_all (row_fits (TABLES n)) (f n)) ns
    then err = None \<and> written = map (\<lambda>n. (n, parts_of (TABLES n) mx (f n))) ns else err \<noteq> None"
  using assms(3)
proof (induction ns arbitrary: written)
  case (Cons n ns)
  obtain w' r where f: "tw_finish (w n) = (w', r)" by fastforce
  have r: "r = (if list_all (row_fits (TABLES n)) (f n) then Inr (parts_of (TABLES n) mx (f n)) else Inl ValueDoesNotFit)"
    using finish_parts [of "f n" "w n" "TABLES n" mx] assms(1) [of n] assms(2) f by simp
  obtain ht' others err' where t: "finish_tables (map (\<lambda>n. (n, w n)) ns) = (ht', others, err')" by (metis prod_cases3)
  show ?case using Cons.IH [of others] Cons.prems f r t by (auto split: if_splits)
qed simp

lemma new_tables_sound:
  assumes "new_hour_tables mx fl = Inr ht"
  shows "tables_sound (\<lambda>_. []) mx ht \<and> 0 < mx \<and> 0 < fl"
proof -
  have pos: "0 < mx" "0 < fl"
    using assms by (auto simp: new_hour_tables_def TABLE_NAMES_def new_table_writer_def split: if_splits)
  then obtain w where w: "\<And>n. new_table_writer (TABLES n) mx fl = Inr (w n)" by (simp add: new_table_writer_def)
  then have "ht = map (\<lambda>n. (n, w n)) TABLE_NAMES"
    using assms by (simp add: new_hour_tables_def TABLE_NAMES_def)
  then show ?thesis using new_writer_holds [OF w] pos by (auto simp: tables_sound_def)
qed

lemma fit_tables: "tables_fit (\<lambda>n. rows_of n rows) \<longleftrightarrow> list_all table_row_fits rows"
  by (auto simp: tables_fit_def table_row_fits_def rows_of_def list_all_iff)

lemma fit_named: "list_all (\<lambda>n. list_all (row_fits (TABLES n)) (rows_of n rows)) TABLE_NAMES \<longleftrightarrow> list_all table_row_fits rows"
proof
  assume a: "list_all (\<lambda>n. list_all (row_fits (TABLES n)) (rows_of n rows)) TABLE_NAMES"
  show "list_all table_row_fits rows"
    unfolding list_all_iff
  proof
    fix r assume "r \<in> set rows"
    then have "r \<in> set (rows_of (table_of r) rows)" by (simp add: rows_of_def)
    then show "table_row_fits r" using a table_of_named [of r] by (auto simp: list_all_iff table_row_fits_def)
  qed
qed (auto simp: table_row_fits_def rows_of_def list_all_iff)

lemma hour_table_parts:
  assumes "new_hour_tables mx fl = Inr ht" "ht_add_all rows ht = (ht', Inr u)" "snd (ht_finish ht') = (written, err)"
  shows "if list_all table_row_fits rows then err = None \<and> written = table_parts mx rows else err \<noteq> None"
proof -
  note n = new_tables_sound [OF assms(1)]
  obtain w where w: "ht' = map (\<lambda>n. (n, w n)) TABLE_NAMES"
    "\<And>n. sound_rows (rows_of n rows) (w n) \<and> tw_spec (w n) = TABLES n \<and> tw_max_part_rows (w n) = mx"
    using tables_add_all [OF conjunct1 [OF n] assms(2)] by (auto simp: tables_sound_def)
  have "snd (finish_tables (map (\<lambda>n. (n, w n)) TABLE_NAMES)) = (written, err)"
    using assms(3) by (simp add: ht_finish_def w(1) split_beta)
  from finish_all [of "\<lambda>n. rows_of n rows", OF w(2) _ this] n show ?thesis by (simp add: fit_named table_parts_def)
qed

lemma hour_tables_take:
  assumes "new_hour_tables mx fl = Inr ht" "list_all table_row_fits rows"
  shows "snd (ht_add_all rows ht) = Inr ()"
proof -
  obtain ht' res where a: "ht_add_all rows ht = (ht', res)" by fastforce
  from tables_add_all [OF conjunct1 [OF new_tables_sound [OF assms(1)]] a] show ?thesis
    using assms(2) a fit_tables [of rows] by (cases res) auto
qed

lemma table_parts_simps:
  "dict_keys (table_parts mx rows) = TABLE_NAMES"
  "n \<in> set TABLE_NAMES \<Longrightarrow> dict_get_or (table_parts mx rows) n [] = parts_of (TABLES n) mx (rows_of n rows)"
  by (simp_all add: table_parts_def comp_def dict_get_or_def map_of_map_restrict)

section \<open>What a bake does\<close>

text \<open>The rows of an hour: those the interpretation of its segments adds.\<close>

definition hour_rows :: "('b, 'z) baker_scheme \<Rightarrow> raw_tree \<Rightarrow> hour_key \<Rightarrow> (hour_state \<times> segment_entry list) option" where
  "hour_rows bk raw hour =
     (case bake_segments bk (\<lambda>_. True) raw hour (segment_files raw hour) (new_hour (start_wall_ns hour)) of Inl e \<Rightarrow> None | Inr x \<Rightarrow> Some x)"

lemma bake_segments_takes:
  "bake_segments bk takes raw hour files h = Inr (h', es) \<Longrightarrow>
    bake_segments bk (\<lambda>_. True) raw hour files h = Inr (h', es) \<and> (files = [] \<and> h' = h \<or> takes (ho_rows h'))"
proof (induction files arbitrary: h es)
  case (Cons f files)
  then obtain h1 e es' where 1: "bake_segment bk takes raw hour f h = Inr (h1, e)" and 2: "bake_segments bk takes raw hour files h1 = Inr (h', es')" "es = e # es'"
    by (auto simp: result_simps)
  have "bake_segment bk (\<lambda>_. True) raw hour f h = Inr (h1, e) \<and> takes (ho_rows h1)"
    using 1 by (auto simp: bake_segment_def Let_def result_simps split: if_splits)
  then show ?case using Cons.IH [OF 2(1)] 2(2) by auto
qed simp

lemma bake_hour_result:
  assumes "bake_hour bk v mx fl hour ar = (ops, Inr rp)"
  obtains h segments where "bake_segments bk (\<lambda>_. True) (ar_raw ar) hour (segment_files (ar_raw ar) hour) (new_hour (start_wall_ns hour)) = Inr (h, segments)"
    "ops = bake_steps bk hour (table_parts mx (ho_rows h))" "0 < mx"
    "rp = \<lparr>rp_hour = hour,
       rp_bake = \<lparr>hb_hour = hk_hour hour, hb_bake_version = BAKE_VERSION, hb_software_version = v,
         hb_accounting = hr_accounting (finish_hour h), hb_integrity = hr_integrity (finish_hour h)\<rparr>,
       rp_segments = segments,
       rp_parts = map (\<lambda>n. (n, part_entries bk hour n (parts_of (TABLES n) mx (rows_of n (ho_rows h))))) TABLE_NAMES,
       rp_failures = hr_failures (finish_hour h)\<rparr>"
    "result_bind (read_manifest bk ar (hk_date hour)) (\<lambda>m. case m of None \<Rightarrow> Inr False | Some m \<Rightarrow> has_pruned m hour) = Inr False"
proof -
  obtain ht where ht: "new_hour_tables mx fl = Inr ht"
    and notpruned: "result_bind (read_manifest bk ar (hk_date hour)) (\<lambda>m. case m of None \<Rightarrow> Inr False | Some m \<Rightarrow> has_pruned m hour) = Inr False"
    using assms by (auto simp: bake_hour_def Let_def split: sum.splits bool.splits)
  let ?takes = "\<lambda>rows. snd (ht_add_all rows ht) = Inr ()"
  obtain h segments where h0: "bake_segments bk ?takes (ar_raw ar) hour (segment_files (ar_raw ar) hour) (new_hour (start_wall_ns hour)) = Inr (h, segments)"
    using assms ht notpruned by (auto simp: bake_hour_def Let_def split: sum.splits)
  note h = conjunct1 [OF bake_segments_takes [OF h0]]
  have "?takes (ho_rows h)" using bake_segments_takes [OF h0] by (auto simp: new_hour_def)
  then obtain ht' where ht': "ht_add_all (ho_rows h) ht = (ht', Inr ())" by (metis prod.collapse)
  obtain written err where fin: "snd (ht_finish ht') = (written, err)" by fastforce
  have "err = None" using assms by (cases err) (simp_all add: bake_hour_def Let_def notpruned ht h0 ht' fin)
  then have parts: "snd (ht_finish ht') = (table_parts mx (ho_rows h), None)" and mx: "0 < mx"
    using hour_table_parts [OF ht ht' fin] fin new_tables_sound [OF ht] by (auto split: if_splits)
  have entries: "map (\<lambda>n. (n, part_entries bk hour n (dict_get_or (table_parts mx (ho_rows h)) n []))) TABLE_NAMES =
      map (\<lambda>n. (n, part_entries bk hour n (parts_of (TABLES n) mx (rows_of n (ho_rows h))))) TABLE_NAMES"
    by (simp add: table_parts_simps)
  from assms show ?thesis
    by (intro that [OF h]) (simp_all add: bake_hour_def Let_def notpruned ht h0 ht' parts mx entries bake_steps_def begun_def cleaned_def)
qed

text \<open>
  The removal of what an earlier swap left beside a table comes first. Where a crash between the two
  renames left the only copy there, it is gone before the new files are in place.
\<close>

lemma replace_drops_the_only_copy:
  "(let t = run_dir_ops (take 1 (replace_dir ''t'' (Some ''s''))) [(''t.old'', [(''part'', ''x'')]), (''s'', [(''part'', ''y'')])]
    in dict_get t ''t'' = None \<and> dict_get t ''t.old'' = None)"
  by code_simp

text \<open>
  C5. Baking an hour replaces its tables whole. Stop a bake after any number of its steps, on any
  tree of baked files, even one an earlier crash left behind: each table's directory holds the files
  it held before or the new ones, never a mixture, or none with the files it held in the directory
  beside it. A bake that completes leaves in each table's directory, whatever was there before and
  however often rows were spilled, exactly the part files of the rows the hour's records add to that
  table, and no directory where there is no row; and the new files are those its report lists.
\<close>

theorem bake_replaces_whole_tables:
  assumes "bake_hour bk v mx fl hour ar = (ops, Inr rp)" "name \<in> set TABLE_NAMES" "hour_rows bk (ar_raw ar) hour = Some (h, segments)"
  shows "old_or_new (dict_get t (partition_dir name hour)) (new_files bk name (parts_of (TABLES name) mx (rows_of name (ho_rows h))))
      (at_target (partition_dir name hour) (run_dir_ops (take i ops) t)) \<and>
    dict_get (run_dir_ops ops t) (partition_dir name hour) = new_files bk name (parts_of (TABLES name) mx (rows_of name (ho_rows h))) \<and>
    mset (concat (parts_of (TABLES name) mx (rows_of name (ho_rows h)))) = mset (rows_of name (ho_rows h)) \<and>
    map (\<lambda>p. (pt_path p, pt_sha256 p)) (dict_get_or (rp_parts rp) name []) =
      map (\<lambda>(f, content). (part_name name hour f, cd_sha256 bk content)) (part_files bk name (parts_of (TABLES name) mx (rows_of name (ho_rows h))))"
proof -
  obtain h' segments' where
    r: "bake_segments bk (\<lambda>_. True) (ar_raw ar) hour (segment_files (ar_raw ar) hour) (new_hour (start_wall_ns hour)) = Inr (h', segments')"
    "ops = bake_steps bk hour (table_parts mx (ho_rows h'))" "0 < mx"
    and parts: "rp_parts rp = map (\<lambda>n. (n, part_entries bk hour n (parts_of (TABLES n) mx (rows_of n (ho_rows h'))))) TABLE_NAMES"
    by (rule bake_hour_result [OF assms(1)]) (simp add: that)
  have h: "h' = h" using assms(3) r(1) by (simp add: hour_rows_def)
  have entries: "dict_get_or (rp_parts rp) name [] = part_entries bk hour name (parts_of (TABLES name) mx (rows_of name (ho_rows h)))"
    using assms(2) by (simp add: parts h dict_get_or_def map_of_map_restrict)
  show ?thesis
    using baked_table [OF assms(2) table_parts_simps(1), of t hour bk mx "ho_rows h" i]
    by (simp add: r(2) h table_parts_simps(2) [OF assms(2)] mset_parts [OF r(3)] entries part_entries_def part_files_def split_beta comp_def)
qed

section \<open>A settled hour\<close>

text \<open>
  An hour whose manifest and tables on disk describe its segments on disk: what a bake leaves, and
  what neither \<^verbatim>\<open>tape bake\<close> nor \<^verbatim>\<open>tape prune\<close> finds fault with.
\<close>

definition describes :: "('b, 'z) codec_scheme \<Rightarrow> 'b archive \<Rightarrow> hour_key \<Rightarrow> string \<Rightarrow> segment_entry \<Rightarrow> bool" where
  "describes cd ar hour file e \<longleftrightarrow> se_path e = segment_name hour file \<and>
     se_bytes e = int (length (content_of (ar_raw ar) (se_path e))) \<and> se_sha256 e = cd_sha256 cd (content_of (ar_raw ar) (se_path e))"

definition part_stands :: "('b, 'z) codec_scheme \<Rightarrow> 'b archive \<Rightarrow> hour_key \<Rightarrow> part_entry \<Rightarrow> bool" where
  "part_stands cd ar hour p \<longleftrightarrow> (\<exists>n\<in>set TABLE_NAMES. dir_of (pt_path p) = partition_dir n hour) \<and>
     map_option (cd_sha256 cd) (part_content ar (pt_path p)) = Some (pt_sha256 p)"

definition describes_hour :: "('b, 'z) codec_scheme \<Rightarrow> 'b archive \<Rightarrow> hour_key \<Rightarrow> hour_bake \<Rightarrow> manifest \<Rightarrow> bool" where
  "describes_hour cd ar hour b m \<longleftrightarrow> consistent m \<and> has_pruned m hour = Inr False \<and>
     hour_bake_of m (hk_hour hour) = Some b \<and> hb_bake_version b = BAKE_VERSION \<and>
     (\<forall>e\<in>set (hour_segments m (hk_hour hour)). \<exists>file\<in>set (segment_files (ar_raw ar) hour). describes cd ar hour file e) \<and>
     (\<forall>file\<in>set (segment_files (ar_raw ar) hour). \<exists>e\<in>set (hour_segments m (hk_hour hour)). se_path e = segment_name hour file) \<and>
     (\<forall>p\<in>set (hour_parts m (hk_hour hour)). part_stands cd ar hour p)"

definition hour_settled :: "('b, 'z) codec_scheme \<Rightarrow> 'b archive \<Rightarrow> hour_key \<Rightarrow> hour_bake \<Rightarrow> bool" where
  "hour_settled cd ar hour b \<longleftrightarrow> (\<exists>m. read_manifest cd ar (hk_date hour) = Inr (Some m) \<and> describes_hour cd ar hour b m)"

lemma sizes_get:
  "dict_get (sizes_on_disk raw hour) path =
     (if path \<in> segment_name hour ` set (segment_files raw hour) then Some (int (length (content_of raw path))) else None)"
proof -
  have "dict_get (map (\<lambda>file. (f file, g (f file))) files) path = (if path \<in> f ` set files then Some (g path) else None)" for f :: "string \<Rightarrow> string" and g :: "string \<Rightarrow> int" and files
    by (induction files) auto
  from this [of "segment_name hour" "\<lambda>n. int (length (content_of raw n))"] show ?thesis by (simp add: sizes_on_disk_def)
qed

lemma settled_not_needed:
  assumes "hour_settled cd ar hour b"
  shows "hour_needed cd ar False hour = Inr False"
proof -
  obtain m where m: "read_manifest cd ar (hk_date hour) = Inr (Some m)" "describes_hour cd ar hour b m"
    using assms by (auto simp: hour_settled_def)
  let ?baked = "map (\<lambda>s. (se_path s, se_bytes s)) (rev (hour_segments m (hk_hour hour)))"
  have eq: "dict_get ?baked path = dict_get (sizes_on_disk (ar_raw ar) hour) path" for path
  proof (cases "path \<in> segment_name hour ` set (segment_files (ar_raw ar) hour)")
    case True
    then obtain e where e: "e \<in> set (hour_segments m (hk_hour hour))" "se_path e = path" using m(2) by (auto simp: describes_hour_def)
    have size: "se_bytes s = int (length (content_of (ar_raw ar) path))" if "s \<in> set (hour_segments m (hk_hour hour))" "se_path s = path" for s
      using m(2) that unfolding describes_hour_def describes_def by blast
    have "find (\<lambda>s. se_path s = path) (rev (hour_segments m (hk_hour hour))) \<noteq> None"
      using e by (auto simp: find_None_iff)
    then obtain s where s: "find (\<lambda>s. se_path s = path) (rev (hour_segments m (hk_hour hour))) = Some s" by blast
    then have "s \<in> set (hour_segments m (hk_hour hour)) \<and> se_path s = path"
      using find_SomeD [OF s] by simp
    then show ?thesis using True size s by (simp add: sizes_get dict_get_find)
  next
    case False
    have "dict_get ?baked path = None"
      using m(2) False by (auto simp: map_of_eq_None_iff describes_hour_def describes_def image_iff)
    then show ?thesis using False by (simp add: sizes_get)
  qed
  then have "same_dict ?baked (sizes_on_disk (ar_raw ar) hour)" by (simp add: same_dict_def list_all_iff)
  moreover have "parts_present ar (Some m) hour"
    using m(2) by (auto simp: parts_present_def describes_hour_def part_stands_def list_all_iff)
  ultimately show ?thesis using m by (simp add: hour_needed_def bake_needed_def describes_hour_def)
qed

lemma segment_name_date:
  assumes "hour_ok_key hour" "segment_hour (segment_name hour f) = Inr place"
  shows "fst place = hk_date hour"
proof -
  have "valid_date (hk_date hour)" using assms(1) by (simp add: hour_ok_key_def)
  note iso = date_text(2,3) [OF this]
  have "take 10 (segment_name hour f) = date_isoformat (hk_date hour)"
    using iso(2) by (simp add: segment_name_def hour_dir_def)
  then show ?thesis using assms(2) iso(1) by (auto simp: segment_hour_def split: if_splits option.splits)
qed

lemma settled_prunable:
  assumes "hour_settled cd ar hour b" "segment_files (ar_raw ar) hour \<noteq> []" "hour_ok_key hour"
  shows "\<exists>d. survey_hour cd ar now ret BAKE_VERSION hour = Inr d \<and>
    (de_prunable d \<longleftrightarrow> end_wall_ns hour + ret * NS_PER_HOUR < now \<and> accounting_failures (hb_accounting b) = 0)"
proof -
  obtain m where m: "read_manifest cd ar (hk_date hour) = Inr (Some m)" "describes_hour cd ar hour b m"
    using assms(1) by (auto simp: hour_settled_def)
  note d = m(2) [unfolded describes_hour_def]
  obtain f e where "f \<in> set (segment_files (ar_raw ar) hour)" "e \<in> set (hour_segments m (hk_hour hour))" "se_path e = segment_name hour f"
    using assms(2) d by (metis list.set_intros(1) neq_Nil_conv)
  then have "segment_hour (segment_name hour f) = Inr (mf_date m, se_hour e)"
    using d consistent_parts(5) [of m e] by (simp add: hour_segments_def)
  then have date: "mf_date m = hk_date hour" using segment_name_date [OF assms(3)] by fastforce
  let ?facts = "facts_on_disk cd ar (Some m) hour True"
  obtain dec where dec: "survey_hour cd ar now ret BAKE_VERSION hour = Inr dec" by (simp add: survey_hour_def m(1) Let_def)
  have "de_prunable dec \<longleftrightarrow> safe_to_prune ?facts m now ret BAKE_VERSION"
    using survey_hour_alike [OF dec m(1) assms(2)] safe_iff_prunable d date by blast
  moreover have "list_all (\<lambda>s. list_ex (\<lambda>e. se_path e = sd_path s \<and> se_bytes e = sd_bytes s \<and> sd_sha256 s = Some (se_sha256 e))
      (hour_segments m (hk_hour hour))) (segments_on_disk cd ar hour True)"
    unfolding list_all_iff list_ex_iff
  proof
    fix s assume "s \<in> set (segments_on_disk cd ar hour True)"
    then obtain f where f: "f \<in> set (segment_files (ar_raw ar) hour)" "s = segment_found cd ar True (segment_name hour f)"
      by (auto simp: segments_on_disk_def)
    then obtain e where e: "e \<in> set (hour_segments m (hk_hour hour))" "se_path e = segment_name hour f" using d by blast
    then obtain f' where "describes cd ar hour f' e" using d by blast
    then have "se_path e = sd_path s \<and> se_bytes e = sd_bytes s \<and> sd_sha256 s = Some (se_sha256 e)"
      using f(2) e(2) by (simp add: describes_def segment_found_def Let_def content_of_def)
    then show "\<exists>e\<in>set (hour_segments m (hk_hour hour)). se_path e = sd_path s \<and> se_bytes e = sd_bytes s \<and> sd_sha256 s = Some (se_sha256 e)"
      using e(1) by blast
  qed
  moreover have "none_missing ?facts m"
    using d by (force simp: none_missing_def segments_on_disk_def list_all_iff describes_def image_iff)
  moreover have "list_all (\<lambda>e. list_ex (\<lambda>p. pd_path p = pt_path e \<and> pd_exists p \<and> pd_sha256 p = Some (pt_sha256 e)) (hf_parts ?facts))
      (hour_parts m (hk_hour hour))"
    using d date by (force simp: list_all_iff list_ex_iff parts_on_disk_def part_found_def part_stands_def)
  ultimately show ?thesis using dec d date by (auto simp: safe_to_prune_def Let_def)
qed

section \<open>A recorded bake settles its hour\<close>

lemma bake_segments_entries:
  "bake_segments bk takes raw hour files h = Inr (h', es) \<Longrightarrow>
    list_all2 (\<lambda>f e. se_path e = segment_name hour f \<and> se_bytes e = int (length (content_of raw (se_path e))) \<and>
      se_sha256 e = cd_sha256 bk (content_of raw (se_path e))) files es"
proof (induction files arbitrary: h es)
  case (Cons f files)
  then obtain h1 e es' where 1: "bake_segment bk takes raw hour f h = Inr (h1, e)" and 2: "bake_segments bk takes raw hour files h1 = Inr (h', es')" "es = e # es'"
    by (auto simp: result_simps)
  have "se_path e = segment_name hour f \<and> se_bytes e = int (length (content_of raw (se_path e))) \<and>
      se_sha256 e = cd_sha256 bk (content_of raw (se_path e))"
    using 1 by (auto simp: bake_segment_def Let_def result_simps split: if_splits)
  then show ?case using Cons.IH [OF 2(1)] 2(2) by simp
qed simp

lemma show_nat_digits: "list_all is_digit (show_nat n)"
  using zero_pad_show [of 0 n] digits_pad [of 0 n] by (simp add: zero_pad_def)

lemma part_file_flat: "CHR ''/'' \<notin> set (part_file i)"
proof
  assume "CHR ''/'' \<in> set (part_file i)"
  then have "CHR ''/'' \<in> set (show_nat i)" by (simp add: part_file_def)
  then have "is_digit (CHR ''/'')" using show_nat_digits [of i] by (auto simp: list_all_iff)
  then show False by (simp add: is_digit_def digit_val_def)
qed

lemma path_split:
  assumes "CHR ''/'' \<notin> set f"
  shows "dir_of (d @ path_sep @ f) = d" "file_of (d @ path_sep @ f) = f"
proof -
  have "\<forall>c\<in>set (rev f). c \<noteq> CHR ''/''" using assms by auto
  then have "takeWhile (\<lambda>c. c \<noteq> CHR ''/'') (rev f @ x) = rev f @ takeWhile (\<lambda>c. c \<noteq> CHR ''/'') x"
    "dropWhile (\<lambda>c. c \<noteq> CHR ''/'') (rev f @ x) = dropWhile (\<lambda>c. c \<noteq> CHR ''/'') x" for x
    using takeWhile_append2 [of "rev f" "\<lambda>c. c \<noteq> CHR ''/''" x] dropWhile_append2 [of "rev f" "\<lambda>c. c \<noteq> CHR ''/''" x] by blast+
  then show "dir_of (d @ path_sep @ f) = d" "file_of (d @ path_sep @ f) = f" by (simp_all add: dir_of_def file_of_def path_sep_def)
qed

lemma entry_stands:
  assumes "n \<in> set TABLE_NAMES" "dict_get (ar_baked ar) (partition_dir n hour) = new_files bk n parts" "p \<in> set (part_entries bk hour n parts)"
  shows "part_stands bk ar hour p"
proof -
  obtain i rows where i: "(i, rows) \<in> set (enumerate 0 parts)" "pt_path p = part_name n hour (part_file i)"
    "pt_sha256 p = cd_sha256 bk (bx_parquet bk n rows)"
    using assms(3) by (auto simp: part_entries_def)
  have "(part_file i, bx_parquet bk n rows) \<in> set (part_files bk n parts)"
    using i(1) by (force simp: part_files_def)
  then have "dict_get (part_files bk n parts) (part_file i) = Some (bx_parquet bk n rows)"
    by (simp add: part_files_distinct)
  moreover have "parts \<noteq> []" using i(1) by auto
  ultimately have "part_content ar (pt_path p) = Some (bx_parquet bk n rows)"
    using assms(2) path_split [OF part_file_flat, of "partition_dir n hour" i]
    by (simp add: part_content_def i(2) part_name_def new_files_def)
  then show ?thesis using assms(1) i path_split(1) [OF part_file_flat, of "partition_dir n hour" i]
    by (auto simp: part_stands_def part_name_def)
qed

lemma no_pruned:
  assumes "consistent m" "\<And>p place. p \<in> set (mf_pruned m) \<Longrightarrow> segment_hour (pr_path p) = Inr place \<Longrightarrow> snd place \<noteq> hk_hour hour"
  shows "has_pruned m hour = Inr False"
proof -
  have "\<exists>place. segment_hour (pr_path p) = Inr place" if "p \<in> set (mf_pruned m)" for p
    using consistent_parts(5,7) [OF assms(1)] that by metis
  then have "pruned_of_hour hour ps = Inr False" if "set ps \<subseteq> set (mf_pruned m)" for ps
    using that assms(2) by (induction ps) fastforce+
  then show ?thesis by (simp add: has_pruned_def)
qed

lemma rejected_Inr: "(case r of Inl e \<Rightarrow> Inl (RejectedBake k e) | Inr m \<Rightarrow> Inr m) = Inr x \<longleftrightarrow> r = Inr x"
  by (cases r) simp_all

lemma record_bake_result:
  assumes "codec_ok bk" "record_bake bk v off rp ar = Inr (m, ar')"
  obtains m0 where "consistent m0" "with_hour m0 (rp_bake rp) (rp_segments rp) (rp_parts rp) v off = Inr m"
    "ar' = ar\<lparr>ar_manifests := dict_put (hk_date (rp_hour rp)) (cd_encode bk m) (ar_manifests ar)\<rparr>"
    "read_manifest bk ar (hk_date (rp_hour rp)) = Inr None \<or> read_manifest bk ar (hk_date (rp_hour rp)) = Inr (Some m0)"
proof -
  obtain found m0 where found: "read_manifest bk ar (hk_date (rp_hour rp)) = Inr found"
    and m0: "(case found of None \<Rightarrow> (case new_manifest (hk_date (rp_hour rp)) v of Inl e \<Rightarrow> Inl (RejectedBake (rp_hour rp) e) | Inr m \<Rightarrow> Inr m) | Some m \<Rightarrow> Inr m) = Inr m0"
    and w: "with_hour m0 (rp_bake rp) (rp_segments rp) (rp_parts rp) v off = Inr m"
      "ar' = ar\<lparr>ar_manifests := dict_put (hk_date (rp_hour rp)) (cd_encode bk m) (ar_manifests ar)\<rparr>"
    using assms(2) unfolding record_bake_def Let_def result_bind_Inr rejected_Inr by blast
  have "consistent m0"
  proof (cases found)
    case None
    then have "new_manifest (hk_date (rp_hour rp)) v = Inr m0" using m0 by (simp split: sum.splits)
    then show ?thesis by (auto simp: new_manifest_def intro: assemble_consistent)
  next
    case (Some m')
    then have "decodes m'" using found assms(1) by (auto simp: read_manifest_def codec_ok_def split: option.splits)
    then show ?thesis using Some m0 decodes_consistent by simp
  qed
  then show ?thesis using that w found m0 by (cases found) auto
qed

lemma read_after:
  assumes "read_manifest cd ar dt = Inr (Some m)" "cd_decode cd (cd_encode cd m') = Some m'"
  shows "read_manifest cd (ar\<lparr>ar_manifests := dict_put dt' (cd_encode cd m') (ar_manifests ar)\<rparr>) dt = Inr (Some (if dt = dt' then m' else m))"
  using assms by (auto simp: read_manifest_def dict_simps split: option.splits)

lemma recorded_settled:
  assumes "codec_ok bk" "bake_hour bk v mx fl hour ar = (ops, Inr rp)"
    "record_bake bk v off rp (ar\<lparr>ar_baked := run_dir_ops ops (ar_baked ar)\<rparr>) = Inr (m, ar')" "cd_decode bk (cd_encode bk m) = Some m"
  shows "hour_settled bk ar' hour (rp_bake rp)"
proof -
  obtain h segments where b: "bake_segments bk (\<lambda>_. True) (ar_raw ar) hour (segment_files (ar_raw ar) hour) (new_hour (start_wall_ns hour)) = Inr (h, segments)"
    "ops = bake_steps bk hour (table_parts mx (ho_rows h))" "0 < mx"
    and rp: "rp = \<lparr>rp_hour = hour,
       rp_bake = \<lparr>hb_hour = hk_hour hour, hb_bake_version = BAKE_VERSION, hb_software_version = v,
         hb_accounting = hr_accounting (finish_hour h), hb_integrity = hr_integrity (finish_hour h)\<rparr>,
       rp_segments = segments,
       rp_parts = map (\<lambda>n. (n, part_entries bk hour n (parts_of (TABLES n) mx (rows_of n (ho_rows h))))) TABLE_NAMES,
       rp_failures = hr_failures (finish_hour h)\<rparr>"
    by (rule bake_hour_result [OF assms(2)])
  obtain m0 where m0: "consistent m0" "with_hour m0 (rp_bake rp) (rp_segments rp) (rp_parts rp) v off = Inr m"
    and ar': "ar' = ar\<lparr>ar_baked := run_dir_ops ops (ar_baked ar), ar_manifests := dict_put (hk_date hour) (cd_encode bk m) (ar_manifests ar)\<rparr>"
    using record_bake_result [OF assms(1,3)] by (auto simp: rp)
  note w = with_hour_result [OF m0(2,1)]
  have fields: "hb_hour (rp_bake rp) = hk_hour hour" "hb_bake_version (rp_bake rp) = BAKE_VERSION" "rp_segments rp = segments" by (simp_all add: rp)
  have hours: "filter (\<lambda>b. hb_hour b = hk_hour hour) (mf_hours m) = [rp_bake rp]"
    and segs: "hour_segments m (hk_hour hour) = sort_key se_path segments"
    and parts: "hour_parts m (hk_hour hour) = concat (map (\<lambda>n. sort_key pt_path (dict_get_or (rp_parts rp) n [])) TABLE_NAMES)"
    using w(6) by (simp_all add: hour_view_def fields)
  have read: "read_manifest bk ar' (hk_date hour) = Inr (Some m)"
    using assms(4) by (simp add: ar' read_manifest_def dict_simps)
  have "has_pruned m hour = Inr False"
    using no_pruned [OF w(1), of hour] w(3,4) by (simp add: fields)
  moreover have "hour_bake_of m (hk_hour hour) = Some (rp_bake rp)"
  proof -
    have "find P xs = (case filter P xs of [] \<Rightarrow> None | x # _ \<Rightarrow> Some x)" for P and xs :: "hour_bake list" by (induction xs) auto
    then show ?thesis by (simp add: hour_bake_of_def hours)
  qed
  moreover note entries = bake_segments_entries [OF b(1)]
  have "\<exists>f\<in>set (segment_files (ar_raw ar') hour). describes bk ar' hour f e" if "e \<in> set (hour_segments m (hk_hour hour))" for e
  proof -
    have "e \<in> set segments" using that by (simp add: segs)
    then obtain i where "i < length segments" "e = segments ! i" by (auto simp: in_set_conv_nth)
    then have "segment_files (ar_raw ar) hour ! i \<in> set (segment_files (ar_raw ar) hour)" "se_path e = segment_name hour (segment_files (ar_raw ar) hour ! i)"
      "se_bytes e = int (length (content_of (ar_raw ar) (se_path e)))" "se_sha256 e = cd_sha256 bk (content_of (ar_raw ar) (se_path e))"
      using entries by (simp_all add: list_all2_conv_all_nth)
    then show ?thesis by (auto simp: describes_def ar')
  qed
  moreover have "\<exists>e\<in>set (hour_segments m (hk_hour hour)). se_path e = segment_name hour f" if f: "f \<in> set (segment_files (ar_raw ar') hour)" for f
  proof -
    obtain i where i: "i < length (segment_files (ar_raw ar) hour)" "f = segment_files (ar_raw ar) hour ! i"
      using f by (auto simp: ar' in_set_conv_nth)
    then have "segments ! i \<in> set segments" "se_path (segments ! i) = segment_name hour f"
      using entries by (auto simp: list_all2_conv_all_nth)
    then show ?thesis by (auto simp: segs)
  qed
  moreover have "part_stands bk ar' hour p" if p: "p \<in> set (hour_parts m (hk_hour hour))" for p
  proof -
    obtain n where n: "n \<in> set TABLE_NAMES" "p \<in> set (part_entries bk hour n (parts_of (TABLES n) mx (rows_of n (ho_rows h))))"
      using p by (auto simp: parts rp dict_get_or_def map_of_map_restrict restrict_map_def)
    have "dict_get (ar_baked ar') (partition_dir n hour) = new_files bk n (parts_of (TABLES n) mx (rows_of n (ho_rows h)))"
      using baked_table [OF n(1) table_parts_simps(1), of "ar_baked ar" hour bk mx "ho_rows h"] n(1) by (simp add: ar' b(2) table_parts_simps)
    from entry_stands [OF n(1) this n(2)] show ?thesis .
  qed
  ultimately show ?thesis using read w(1) fields by (auto simp: hour_settled_def describes_hour_def)
qed

section \<open>A bake leaves the other hours alone\<close>

lemma partition_text:
  assumes "hour_ok_key k"
  shows "length (date_isoformat (hk_date k)) = 10" "length (hour_text k) = 2"
  using date_text(3) [of "hk_date k"] hour_text_parts(1) [OF assms] assms by (simp_all add: hour_ok_key_def)

lemma partition_inj:
  assumes "hour_ok_key j" "hour_ok_key k" "partition_dir n j = partition_dir n k"
  shows "j = k"
proof -
  have "date_isoformat (hk_date j) = date_isoformat (hk_date k) \<and> hour_text j = hour_text k"
    using assms partition_text by (simp add: partition_dir_def)
  then have "hour_label j = hour_label k" by (simp add: hour_label_def)
  then show ?thesis using parse_hour_label assms(1,2) by (metis sum.inject(2))
qed

lemma other_hour:
  assumes "hour_ok_key j" "hour_ok_key k" "j \<noteq> k"
  shows "\<not> under (partition_dir n j) (partition_dir n k)" "\<not> under (partition_dir n j @ OLD_SUFFIX) (partition_dir n k)"
proof -
  have len: "length (partition_dir n j) = length (partition_dir n k)"
    using partition_text [OF assms(1)] partition_text [OF assms(2)] by (simp add: partition_dir_def)
  show "\<not> under (partition_dir n j) (partition_dir n k)"
    using partition_inj [OF assms(1,2), of n] assms(3) len by (auto simp: under_def path_sep_def)
  show "\<not> under (partition_dir n j @ OLD_SUFFIX) (partition_dir n k)"
    using len by (auto simp: under_ex path_sep_def OLD_SUFFIX_def dest: arg_cong [where f = length])
qed

lemma aside_other_hour:
  assumes "n \<in> set TABLE_NAMES" "m \<in> set TABLE_NAMES" "hour_ok_key j" "hour_ok_key k" "j \<noteq> k"
  shows "list_all (aside (partition_dir n k)) (swap_table j written m)"
proof (cases "m = n")
  case True
  then show ?thesis using other_hour [OF assms(3-5)] assms(1) by (auto simp: swap_table_def replace_dir_def Let_def)
next
  case False
  then show ?thesis using aside_target(4) [OF assms(1) _ assms(2), of "partition_dir n k" k] by simp
qed

lemma ops_of_other_hour:
  assumes "bake_hour bk v mx fl j ar = (ops, res)" "n \<in> set TABLE_NAMES" "hour_ok_key j" "hour_ok_key k" "j \<noteq> k"
  shows "list_all (aside (partition_dir n k)) ops"
proof -
  note a = aside_target(1-3) [OF assms(2), where k = k, OF disjI1, OF refl]
  have swaps: "list_all (aside (partition_dir n k)) (swap_tables j written)" for written
    unfolding swap_tables_eq all_concat using aside_other_hour [OF assms(2) _ assms(3-5)] by auto
  have made: "list_all (aside (partition_dir n k)) (map (MakeDir \<circ> staged j) TABLE_NAMES)"
    using assms(2) by (auto simp: list_all_iff)
  note b = a(1) [unfolded begun_def, of j] a(2) [unfolded cleaned_def, of j]
  show ?thesis
    using assms(1) a(3) [of bk j] swaps made b
    by (auto simp: bake_hour_def Let_def split: sum.splits bool.splits prod.splits option.splits)
qed

lemma stands_elsewhere:
  assumes "part_stands cd ar k p" "\<And>n. n \<in> set TABLE_NAMES \<Longrightarrow> dict_get (ar_baked ar') (partition_dir n k) = dict_get (ar_baked ar) (partition_dir n k)"
  shows "part_stands cd ar' k p"
proof -
  obtain n where n: "n \<in> set TABLE_NAMES" "dir_of (pt_path p) = partition_dir n k" using assms(1) by (auto simp: part_stands_def)
  then have "part_content ar' (pt_path p) = part_content ar (pt_path p)" using assms(2) [OF n(1)] by (simp add: part_content_def)
  then show ?thesis using assms(1) by (simp add: part_stands_def)
qed

lemma describes_elsewhere:
  assumes "describes_hour cd ar k b m" "ar_raw ar' = ar_raw ar"
    "\<And>n. n \<in> set TABLE_NAMES \<Longrightarrow> dict_get (ar_baked ar') (partition_dir n k) = dict_get (ar_baked ar) (partition_dir n k)"
    "consistent m'" "mf_pruned m' = mf_pruned m" "hour_view m' (hk_hour k) = hour_view m (hk_hour k)"
  shows "describes_hour cd ar' k b m'"
proof -
  have "hour_segments m' (hk_hour k) = hour_segments m (hk_hour k)" "hour_parts m' (hk_hour k) = hour_parts m (hk_hour k)"
    using assms(6) by (simp_all add: hour_view_def)
  moreover have "hour_bake_of m' (hk_hour k) = hour_bake_of m (hk_hour k)" by (rule hour_bake_view [OF assms(6)])
  moreover have "has_pruned m' k = has_pruned m k" by (simp add: has_pruned_def assms(5))
  moreover have "part_stands cd ar k p \<Longrightarrow> part_stands cd ar' k p" for p by (rule stands_elsewhere [OF _ assms(3)])
  ultimately show ?thesis using assms(1,2,4) by (auto simp: describes_hour_def describes_def)
qed

lemma describes_same:
  assumes "describes_hour cd ar k b m" "ar_raw ar' = ar_raw ar"
    "\<And>n. n \<in> set TABLE_NAMES \<Longrightarrow> dict_get (ar_baked ar') (partition_dir n k) = dict_get (ar_baked ar) (partition_dir n k)"
  shows "describes_hour cd ar' k b m"
  using describes_elsewhere [OF assms _ refl refl] assms(1) by (simp add: describes_hour_def)

section \<open>Baking many hours\<close>

text \<open>
  What the JSON codec gives back of a manifest is that manifest, or nothing: msgspec checks the
  constraints of the fields when it decodes, not when it encodes.
\<close>

definition codec_exact :: "('b, 'z) codec_scheme \<Rightarrow> bool" where
  "codec_exact cd \<longleftrightarrow> codec_ok cd \<and> (\<forall>m. cd_decode cd (cd_encode cd m) \<in> {None, Some m})"

definition settled_or_unreadable :: "('b, 'z) codec_scheme \<Rightarrow> 'b archive \<Rightarrow> hour_key \<Rightarrow> bool" where
  "settled_or_unreadable cd ar k \<longleftrightarrow> (\<exists>b. hour_settled cd ar k b) \<or> (\<exists>e. read_manifest cd ar (hk_date k) = Inl e)"

lemma recorded_good:
  assumes "codec_exact bk" "bake_and_record bk v off mx k ar = (ar', Inr rp)"
  shows "settled_or_unreadable bk ar' k \<and> rp_hour rp = k"
proof -
  obtain ops m where b: "bake_hour bk v mx DEFAULT_FLUSH_ROWS k ar = (ops, Inr rp)"
    "record_bake bk v off rp (ar\<lparr>ar_baked := run_dir_ops ops (ar_baked ar)\<rparr>) = Inr (m, ar')"
    using assms(2) by (auto simp: bake_and_record_def Let_def split: prod.splits sum.splits)
  have ok: "codec_ok bk" using assms(1) by (simp add: codec_exact_def)
  have k: "rp_hour rp = k" by (rule bake_hour_result [OF b(1)]) simp
  show ?thesis
  proof (cases "cd_decode bk (cd_encode bk m) = Some m")
    case True
    then show ?thesis using recorded_settled [OF ok b True] k by (auto simp: settled_or_unreadable_def)
  next
    case False
    then have "cd_decode bk (cd_encode bk m) = None" using assms(1) by (auto simp: codec_exact_def)
    moreover have "dict_get (ar_manifests ar') (hk_date k) = Some (cd_encode bk m)"
      by (rule record_bake_result [OF ok b(2)]) (simp add: k dict_simps)
    ultimately show ?thesis using k by (simp add: settled_or_unreadable_def read_manifest_def)
  qed
qed

lemma other_hour_good:
  assumes "codec_exact bk" "bake_and_record bk v off mx j ar = (ar', res)" "hour_ok_key j" "hour_ok_key k" "j \<noteq> k"
    "settled_or_unreadable bk ar k"
  shows "settled_or_unreadable bk ar' k"
proof -
  have ok: "codec_ok bk" using assms(1) by (simp add: codec_exact_def)
  obtain ops bres where b: "bake_hour bk v mx DEFAULT_FLUSH_ROWS j ar = (ops, bres)" by fastforce
  let ?mid = "ar\<lparr>ar_baked := run_dir_ops ops (ar_baked ar)\<rparr>"
  have same: "dict_get (ar_baked ?mid) (partition_dir n k) = dict_get (ar_baked ar) (partition_dir n k)" if "n \<in> set TABLE_NAMES" for n
    using ops_aside [OF ops_of_other_hour [OF b that assms(3-5)]] by simp
  have read_mid: "read_manifest bk ?mid dt = read_manifest bk ar dt" for dt by (simp add: read_manifest_def)
  have mid: "settled_or_unreadable bk ?mid k"
  proof -
    have "hour_settled bk ?mid k x" if "hour_settled bk ar k x" for x
      using that describes_same [OF _ _ same] unfolding hour_settled_def read_mid by fastforce
    then show ?thesis using assms(6) by (auto simp: settled_or_unreadable_def read_mid)
  qed
  consider "ar' = ?mid" | rp m where "bres = Inr rp" "record_bake bk v off rp ?mid = Inr (m, ar')"
    using assms(2) b by (auto simp: bake_and_record_def Let_def split: sum.splits)
  then show ?thesis
  proof cases
    case 1
    then show ?thesis using mid by simp
  next
    case 2
    have j: "rp_hour rp = j" "hb_hour (rp_bake rp) = hk_hour j"
      by (rule bake_hour_result [OF b [unfolded 2(1)]], simp)+
    obtain m0 where m0: "consistent m0" "with_hour m0 (rp_bake rp) (rp_segments rp) (rp_parts rp) v off = Inr m"
      "ar' = ?mid\<lparr>ar_manifests := dict_put (hk_date j) (cd_encode bk m) (ar_manifests ?mid)\<rparr>"
      "read_manifest bk ?mid (hk_date j) = Inr None \<or> read_manifest bk ?mid (hk_date j) = Inr (Some m0)"
      using record_bake_result [OF ok 2(2)] unfolding j(1) by metis
    show ?thesis
    proof (cases "hk_date j = hk_date k")
      case False
      then have read: "read_manifest bk ar' (hk_date k) = read_manifest bk ?mid (hk_date k)"
        by (simp add: read_manifest_def m0(3) dict_simps)
      have "hour_settled bk ar' k x" if "hour_settled bk ?mid k x" for x
        using that describes_same [of bk ?mid k x _ ar'] unfolding hour_settled_def read by (fastforce simp: m0(3))
      then show ?thesis using mid by (auto simp: settled_or_unreadable_def read)
    next
      case True
      have hour: "hk_hour k \<noteq> hb_hour (rp_bake rp)" using True assms(5) j(2) by (metis hour_key.expand)
      note w = with_hour_result [OF m0(2,1)]
      from mid m0(4) True obtain x where x: "read_manifest bk ?mid (hk_date k) = Inr (Some m0)" "describes_hour bk ?mid k x m0"
        by (auto simp: settled_or_unreadable_def hour_settled_def)
      have "describes_hour bk ar' k x m"
        using describes_elsewhere [OF x(2) _ _ w(1,3) w(5) [OF hour]] by (simp add: m0(3))
      moreover have "cd_decode bk (cd_encode bk m) \<in> {None, Some m}" using assms(1) by (simp add: codec_exact_def)
      ultimately show ?thesis using True
        by (auto simp: settled_or_unreadable_def hour_settled_def read_manifest_def m0(3) dict_simps)
    qed
  qed
qed

lemma bake_each_good:
  assumes "codec_exact bk" "list_all hour_ok_key hours" "hour_ok_key k"
    "bake_each bk v off mx hours ar = (ar', Inr (baked, failed))" "settled_or_unreadable bk ar k \<or> k \<in> bh_hour ` set baked" "k \<notin> fst ` set failed"
  shows "settled_or_unreadable bk ar' k"
  using assms(2,4-)
proof (induction hours arbitrary: ar baked failed)
  case (Cons hour hours)
  obtain ar1 res where one: "bake_and_record bk v off mx hour ar = (ar1, res)" by fastforce
  obtain ar2 rest where more: "bake_each bk v off mx hours ar1 = (ar2, rest)" by fastforce
  have keep: "settled_or_unreadable bk ar k \<Longrightarrow> hour \<noteq> k \<Longrightarrow> settled_or_unreadable bk ar1 k"
    using other_hour_good [OF assms(1) one _ assms(3)] Cons.prems(1) by simp
  show ?case
  proof (cases res)
    case (Inl e)
    then obtain failed' where r: "rest = Inr (baked, failed')" "failed = (hour, e) # failed'" "ar' = ar2"
      using Cons.prems(2) one more by (auto simp: result_simps split: if_splits)
    have "hour \<noteq> k" using Cons.prems(4) r(2) by auto
    then show ?thesis using Cons.IH [of ar1 baked failed'] Cons.prems more keep r by auto
  next
    case (Inr rp)
    then obtain baked' where r: "rest = Inr (baked', failed)" "baked = baked_hour_of rp # baked'" "ar' = ar2"
      using Cons.prems(2) one more by (auto simp: result_simps)
    note good = recorded_good [OF assms(1) one [unfolded Inr]]
    have "settled_or_unreadable bk ar1 k \<or> k \<in> bh_hour ` set baked'"
      using Cons.prems(3) keep good r(2) by (cases "hour = k") (auto simp: baked_hour_of_def)
    then show ?thesis using Cons.IH [of ar1 baked' failed] Cons.prems more r by auto
  qed
qed simp

section \<open>The bake command\<close>

lemma fromisoformat_valid: "fromisoformat s = Some dt \<Longrightarrow> valid_date dt"
  unfolding fromisoformat_def Let_def by (auto split: if_splits)

lemma parse_hour_ok: "parse_hour s = Inr k \<Longrightarrow> hour_ok_key k"
  by (auto simp: parse_hour_def new_hour_key_def hour_ok_key_def dest: fromisoformat_valid split: if_splits option.splits)

lemma mem_concat_map: "x \<in> set (concat (map g xs)) \<longleftrightarrow> (\<exists>y\<in>set xs. x \<in> set (g y))"
  by auto

lemma mem_if: "x \<in> set (if c then xs else []) \<longleftrightarrow> c \<and> x \<in> set xs"
  by simp

lemma raw_hours_ok:
  assumes "k \<in> set (raw_hours raw)"
  shows "hour_ok_key k"
proof -
  have "k \<in> set (case parse_hour t of Inl _ \<Rightarrow> [] | Inr k \<Rightarrow> [k]) \<Longrightarrow> hour_ok_key k" for t
    using parse_hour_ok by (cases "parse_hour t") auto
  then show ?thesis using assms unfolding raw_hours_def set_sort mem_concat_map split_beta mem_if by blast
qed

lemma judged_hours:
  "result_list (\<lambda>hour. result_bind (f hour) (\<lambda>needed. Inr (hour, needed))) hours = Inr judged \<Longrightarrow>
    (k, True) \<in> set judged \<longleftrightarrow> k \<in> set hours \<and> f k = Inr True"
proof (induction hours arbitrary: judged)
  case (Cons hour hours)
  then obtain needed rest where "f hour = Inr needed" "judged = (hour, needed) # rest"
    "result_list (\<lambda>hour. result_bind (f hour) (\<lambda>needed. Inr (hour, needed))) hours = Inr rest"
    by (auto simp: result_simps)
  with Cons.IH [of rest] show ?case by auto
qed simp

lemma hours_to_bake_member:
  assumes "hours_to_bake cd ar now grace force candidates = Inr hours" "k \<in> set hours"
  shows "hour_needed cd ar force k = Inr True \<and> (case candidates of None \<Rightarrow> k \<in> set (raw_hours (ar_raw ar)) | Some ks \<Rightarrow> k \<in> set ks)"
proof -
  define considered where "considered = (case candidates of None \<Rightarrow> raw_hours (ar_raw ar) | Some hours \<Rightarrow> sort (remdups hours))"
  obtain closed judged where c: "closed_hours considered now grace = Inr closed"
    "result_list (\<lambda>hour. result_bind (hour_needed cd ar force hour) (\<lambda>needed. Inr (hour, needed))) closed = Inr judged"
    "hours = map fst (filter snd judged)"
    using assms(1) by (auto simp: hours_to_bake_def considered_def result_simps split: sum.splits)
  then have "(k, True) \<in> set judged" using assms(2) by auto
  then have "k \<in> set closed" "hour_needed cd ar force k = Inr True" using judged_hours [OF c(2)] by simp_all
  moreover have "set closed \<subseteq> set considered" using c(1) by (auto simp: closed_hours_def split: if_splits)
  ultimately show ?thesis by (auto simp: considered_def split: option.splits)
qed

lemma baked_among:
  "codec_exact bk \<Longrightarrow> bake_each bk v off mx hours ar = (ar', Inr (baked, failed)) \<Longrightarrow> bh_hour ` set baked \<subseteq> set hours"
proof (induction hours arbitrary: ar baked failed)
  case (Cons hour hours)
  obtain ar1 res where one: "bake_and_record bk v off mx hour ar = (ar1, res)" by fastforce
  obtain ar2 rest where more: "bake_each bk v off mx hours ar1 = (ar2, rest)" by fastforce
  show ?case
  proof (cases res)
    case (Inl e)
    then obtain failed' where "rest = Inr (baked, failed')" "ar2 = ar'" using Cons.prems(2) one more by (auto simp: result_simps split: if_splits)
    then show ?thesis using Cons.IH [of ar1 baked failed'] Cons.prems(1) more by auto
  next
    case (Inr rp)
    then obtain baked' where r: "rest = Inr (baked', failed)" "baked = baked_hour_of rp # baked'" "ar2 = ar'"
      using Cons.prems(2) one more by (auto simp: result_simps)
    then show ?thesis using Cons.IH [of ar1 baked' failed] Cons.prems(1) more recorded_good [OF Cons.prems(1) one [unfolded Inr]]
      by (auto simp: baked_hour_of_def)
  qed
qed simp

lemma bake_archive_result:
  assumes "bake_archive bk v off mx grace now held force hour ar = (ar', Inr (baked, failed))"
  obtains hours where "hours_to_bake bk ar now (grace * NS_PER_S) force (map_option (\<lambda>k. [k]) hour) = Inr hours"
    "bake_each bk v off mx hours ar = (ar', Inr (baked, failed))"
  using assms by (auto simp: bake_archive_def Let_def split: if_splits option.splits sum.splits list.splits)

lemma good_means:
  assumes "settled_or_unreadable cd ar k" "hour_ok_key k"
  shows "(\<exists>e. read_manifest cd ar (hk_date k) = Inl e) \<or>
    hour_needed cd ar False k = Inr False \<and>
    (segment_files (ar_raw ar) k \<noteq> [] \<longrightarrow>
      (\<exists>m b d. read_manifest cd ar (hk_date k) = Inr (Some m) \<and> hour_bake_of m (hk_hour k) = Some b \<and>
        survey_hour cd ar now ret BAKE_VERSION k = Inr d \<and>
        (de_prunable d \<longleftrightarrow> end_wall_ns k + ret * NS_PER_HOUR < now \<and> accounting_failures (hb_accounting b) = 0)))"
proof (cases "\<exists>e. read_manifest cd ar (hk_date k) = Inl e")
  case False
  then obtain b where b: "hour_settled cd ar k b" using assms(1) by (auto simp: settled_or_unreadable_def)
  then obtain m where "read_manifest cd ar (hk_date k) = Inr (Some m)" "hour_bake_of m (hk_hour k) = Some b"
    by (auto simp: hour_settled_def describes_hour_def)
  then show ?thesis using settled_not_needed [OF b] settled_prunable [OF b _ assms(2), of now ret] by blast
qed blast

text \<open>
  C4. What \<^verbatim>\<open>tape bake\<close> reports baked is settled. Run it over any archive and take an hour it
  reports baked and not also failed: then, whatever the other hours of the run did, the hour's
  manifest and tables still describe its segments, so it needs no bake again, and as long as it has
  segments \<^verbatim>\<open>tape prune\<close> finds it prunable exactly when its retention window is over and its records
  were all accounted for. The one other way is that the manifest of its day can no longer be
  decoded: msgspec writes a manifest with a negative count and refuses to read it.
\<close>

theorem baked_hours_are_settled:
  assumes "codec_exact bk" "case hour of None \<Rightarrow> True | Some k \<Rightarrow> hour_ok_key k"
    "bake_archive bk v off mx grace now0 held force hour ar = (ar', Inr (baked, failed))"
    "k \<in> bh_hour ` set baked" "k \<notin> fst ` set failed"
  shows "(\<exists>e. read_manifest bk ar' (hk_date k) = Inl e) \<or>
    hour_needed bk ar' False k = Inr False \<and>
    (segment_files (ar_raw ar') k \<noteq> [] \<longrightarrow>
      (\<exists>m b d. read_manifest bk ar' (hk_date k) = Inr (Some m) \<and> hour_bake_of m (hk_hour k) = Some b \<and>
        survey_hour bk ar' now ret BAKE_VERSION k = Inr d \<and>
        (de_prunable d \<longleftrightarrow> end_wall_ns k + ret * NS_PER_HOUR < now \<and> accounting_failures (hb_accounting b) = 0)))"
proof -
  obtain hours where h: "hours_to_bake bk ar now0 (grace * NS_PER_S) force (map_option (\<lambda>k. [k]) hour) = Inr hours"
    "bake_each bk v off mx hours ar = (ar', Inr (baked, failed))"
    by (rule bake_archive_result [OF assms(3)])
  have ok: "hour_ok_key j" if "j \<in> set hours" for j
    using hours_to_bake_member [OF h(1) that] assms(2) raw_hours_ok by (auto split: option.splits)
  then have "list_all hour_ok_key hours" by (simp add: list_all_iff)
  moreover have "hour_ok_key k" using baked_among [OF assms(1) h(2)] assms(4) ok by blast
  ultimately have "settled_or_unreadable bk ar' k" using bake_each_good [OF assms(1) _ _ h(2)] assms(4,5) by blast
  then show ?thesis using good_means \<open>hour_ok_key k\<close> by blast
qed

section \<open>An example bake\<close>

definition first_hour :: hour_key where "first_hour = HourKey (1970, 1, 1) 0"

definition example_file :: string where "example_file = ''conn-00-a.tape.zst''"
definition example_name :: string where "example_name = ''1970-01-01/00/conn-00-a.tape.zst''"

definition example_records :: "seg_record list" where
  "example_records = [tape_at CONNECTION 1 ''o'', tape_at FRAME 100 ''b'', tape_at GAP 200 ''g'', tape_at FRAME 300 ''b'']"

text \<open>A segment that reads well, or one that is empty and counts as corrupt.\<close>

definition example_source :: "bool \<Rightarrow> fill_chunk list" where
  "example_source good = (if good then [Chunk (segment_bytes ''{}'' example_records) True False] else [])"

definition example_baker :: "bool \<Rightarrow> manifest baker" where
  "example_baker good = \<lparr>cd_encode = (\<lambda>m. m), cd_decode = (\<lambda>m. if decodes m then Some m else None), cd_sha256 = (\<lambda>_. example_digest),
     bx_env = example_bake, bx_decompress = (\<lambda>_. example_source good), bx_header = (\<lambda>_. Some (0, True)),
     bx_changed = (\<lambda>_. False), bx_parquet = (\<lambda>_ rows. show_nat (length rows))\<rparr>"

definition first_archive :: "manifest archive" where
  "first_archive = \<lparr>ar_raw = [(''1970-01-01'', [(''00'', [(example_file, ''01234'')])])], ar_baked = [], ar_manifests = []\<rparr>"

lemma first_texts:
  "date_isoformat (1970, 1, 1) = ''1970-01-01''" "hour_text first_hour = ''00''" "hk_date first_hour = (1970, 1, 1)" "hk_hour first_hour = 0"
  "start_wall_ns first_hour = 0" "hour_ok_key first_hour"
proof -
  show "start_wall_ns first_hour = 0" unfolding first_hour_def by (rule epoch_start)
qed (simp_all add: date_isoformat_def hour_text_def first_hour_def show_nat_def digits_of_eval zero_pad_def digit_char_def
    hour_ok_key_def HOURS_PER_DAY_def valid_date_def days_in_month_def month_days_def)

lemma first_disk:
  "segment_files (ar_raw first_archive) first_hour = [example_file]" "segment_name first_hour example_file = example_name"
  "content_of (ar_raw first_archive) example_name = ''01234''"
  using first_texts
  by (simp_all add: segment_files_def raw_dir_def first_archive_def example_file_def ends_with_def SEGMENT_SUFFIX_def
      segment_name_def hour_dir_def path_sep_def example_name_def content_of_def segment_content_def)

definition good_read :: bool where
  "good_read = (case rd_open (\<lambda>_. Some (0 :: int, True)) (example_source True) of Inl _ \<Rightarrow> False
     | Inr (rd, c, yes) \<Rightarrow> (case rd_records rd of (rs, rd', err) \<Rightarrow> c = 0 \<and> yes \<and> err = None \<and> \<not> rd_damaged rd' \<and>
         (case read_segment example_bake example_name 0 True rs False (new_hour 0) of None \<Rightarrow> False
          | Some (h, facts) \<Rightarrow> rows_of ''gaps'' (ho_rows h) = [GapRow 0 7 200 200 2 4 (Some 300)] \<and> list_all table_row_fits (ho_rows h))))"

lemma good_read: good_read
  by code_simp


lemma bake_hour_succeeds:
  assumes "read_manifest bk ar (hk_date hour) = Inr None" "0 < mx" "0 < fl"
    "bake_segments bk (\<lambda>_. True) (ar_raw ar) hour (segment_files (ar_raw ar) hour) (new_hour (start_wall_ns hour)) = Inr (h, segments)"
    "segment_files (ar_raw ar) hour = [f]" "list_all table_row_fits (ho_rows h)"
  shows "\<exists>ops rp. bake_hour bk v mx fl hour ar = (ops, Inr rp)"
proof -
  have "new_table_writer (TABLES n) mx fl \<noteq> Inl e" for n e using assms(2,3) by (simp add: new_table_writer_def)
  then have "new_hour_tables mx fl \<noteq> Inl e" for e
    using assms(2,3) by (simp add: new_hour_tables_def TABLE_NAMES_def new_table_writer_def)
  then obtain ht where ht: "new_hour_tables mx fl = Inr ht" by (cases "new_hour_tables mx fl") auto
  let ?takes = "\<lambda>rows. snd (ht_add_all rows ht) = Inr ()"
  have takes: "?takes (ho_rows h)" by (rule hour_tables_take [OF ht assms(6)])
  then obtain ht' where ht': "ht_add_all (ho_rows h) ht = (ht', Inr ())" by (metis prod.collapse)
  obtain written err where fin: "snd (ht_finish ht') = (written, err)" by fastforce
  have "err = None" using hour_table_parts [OF ht ht' fin] assms(6) by simp
  moreover have "bake_segments bk ?takes (ar_raw ar) hour [f] (new_hour (start_wall_ns hour)) = Inr (h, segments)"
    using assms(4) takes by (auto simp: assms(5) bake_segment_def Let_def result_simps split: if_splits)
  ultimately show ?thesis using assms(1,5) fin ht' by (simp add: bake_hour_def Let_def ht)
qed

lemma example_segments:
  obtains h segments where "bake_segments (example_baker True) (\<lambda>_. True) (ar_raw first_archive) first_hour (segment_files (ar_raw first_archive) first_hour)
      (new_hour (start_wall_ns first_hour)) = Inr (h, segments)" "rows_of ''gaps'' (ho_rows h) = [GapRow 0 7 200 200 2 4 (Some 300)]"
    "list_all table_row_fits (ho_rows h)"
proof -
  obtain rd rs rd' where "rd_open (\<lambda>_. Some (0 :: int, True)) (example_source True) = Inr (rd, 0, True)" "rd_records rd = (rs, rd', None)"
    "\<not> rd_damaged rd'" and read: "case read_segment example_bake example_name 0 True rs False (new_hour 0) of None \<Rightarrow> False
          | Some (h, facts) \<Rightarrow> rows_of ''gaps'' (ho_rows h) = [GapRow 0 7 200 200 2 4 (Some 300)] \<and> list_all table_row_fits (ho_rows h)"
    using good_read by (auto simp: good_read_def split: sum.splits prod.splits)
  moreover obtain h facts where "read_segment example_bake example_name 0 True rs False (new_hour 0) = Some (h, facts)"
    "rows_of ''gaps'' (ho_rows h) = [GapRow 0 7 200 200 2 4 (Some 300)]" "list_all table_row_fits (ho_rows h)"
    using read by (auto split: option.splits)
  ultimately show ?thesis using that first_texts(5)
    by (simp add: first_disk bake_segment_def example_baker_def)
qed

theorem bake_replaces_whole_tables_witness:
  "\<exists>ops rp h segments files. bake_hour (example_baker True) ''1.0'' 10 2 first_hour first_archive = (ops, Inr rp) \<and>
     hour_rows (example_baker True) (ar_raw first_archive) first_hour = Some (h, segments) \<and>
     dict_get (run_dir_ops ops [(partition_dir ''gaps'' first_hour, [(''left'', ''over'')])]) (partition_dir ''gaps'' first_hour) = Some files \<and>
     files \<noteq> [] \<and> dict_get files ''left'' = None"
proof -
  obtain h segments where h: "bake_segments (example_baker True) (\<lambda>_. True) (ar_raw first_archive) first_hour (segment_files (ar_raw first_archive) first_hour)
      (new_hour (start_wall_ns first_hour)) = Inr (h, segments)" "rows_of ''gaps'' (ho_rows h) = [GapRow 0 7 200 200 2 4 (Some 300)]"
    "list_all table_row_fits (ho_rows h)"
    by (rule example_segments)
  have "read_manifest (example_baker True) first_archive (hk_date first_hour) = Inr None" by (simp add: read_manifest_def first_archive_def)
  from bake_hour_succeeds [OF this _ _ h(1) first_disk(1) h(3), of 10 2 "''1.0''"] obtain ops rp
    where b: "bake_hour (example_baker True) ''1.0'' 10 2 first_hour first_archive = (ops, Inr rp)" by auto
  have rows: "hour_rows (example_baker True) (ar_raw first_archive) first_hour = Some (h, segments)" by (simp add: hour_rows_def h(1))
  have name: "''gaps'' \<in> set TABLE_NAMES" by (simp add: TABLE_NAMES_def)
  let ?parts = "parts_of (TABLES ''gaps'') 10 (rows_of ''gaps'' (ho_rows h))" and ?t = "[(partition_dir ''gaps'' first_hour, [(''left'', ''over'')])]"
  note r = bake_replaces_whole_tables [OF b name rows, of ?t 0]
  have "?parts \<noteq> []"
  proof
    assume "?parts = []"
    then have "mset (rows_of ''gaps'' (ho_rows h)) = {#}" using r by simp
    then show False unfolding h(2) by simp
  qed
  then have "dict_get (run_dir_ops ops ?t) (partition_dir ''gaps'' first_hour) = Some (part_files (example_baker True) ''gaps'' ?parts)"
    "part_files (example_baker True) ''gaps'' ?parts \<noteq> []"
    using r by (auto simp: new_files_def part_files_def enumerate_eq_zip)
  moreover have "dict_get (part_files (example_baker True) ''gaps'' ?parts) ''left'' = None"
    by (auto simp: map_of_eq_None_iff part_files_def part_file_def)
  ultimately show ?thesis using b rows by blast
qed

lemma example_codec_exact: "codec_exact (example_baker good)"
  by (simp add: codec_exact_def codec_ok_def example_baker_def Sha256_def example_digest_def numeral_eq_Suc)

lemma first_name: "segment_hour example_name = Inr ((1970, 1, 1), 0)"
  by (simp add: segment_hour_def is_segment_name_def is_date_text_def is_digit_def digit_val_def is_hour_text_def
      SEGMENT_SUFFIX_def ends_with_def segment_char_def fromisoformat_def digits_value_def digits_to_nat_def
      valid_date_def days_in_month_def month_days_def example_name_def)

lemma no_rows_no_parts: "parts_of (TABLES n) 10 [] = []"
proof -
  have "plan_from 10 0 (replicate SPILL_BUCKETS 0) [] 0 = []" by code_simp
  moreover have "map (\<lambda>b. length (numbered_in (TABLES n) b [])) [0..<SPILL_BUCKETS] = replicate SPILL_BUCKETS 0"
    by (simp add: numbered_in_def numbered_def map_replicate_trivial)
  ultimately show ?thesis by (simp add: parts_of_def)
qed

definition corrupt_hour :: hour_state where
  "corrupt_hour = corrupt_segment example_name 0 (new_hour 0)"

lemma corrupt_bake:
  "bake_hour (example_baker False) ''1.0'' 10 DEFAULT_FLUSH_ROWS first_hour first_archive =
    (bake_steps (example_baker False) first_hour (table_parts 10 []),
     Inr \<lparr>rp_hour = first_hour,
       rp_bake = \<lparr>hb_hour = 0, hb_bake_version = BAKE_VERSION, hb_software_version = ''1.0'',
         hb_accounting = hr_accounting (finish_hour corrupt_hour), hb_integrity = hr_integrity (finish_hour corrupt_hour)\<rparr>,
       rp_segments = [\<lparr>se_path = example_name, se_hour = 0, se_bytes = 5, se_sha256 = example_digest, se_records = 0,
         se_first_recv_wall_ns = None, se_last_recv_wall_ns = None, se_truncated = False\<rparr>],
       rp_parts = map (\<lambda>n. (n, [])) TABLE_NAMES, rp_failures = hr_failures (finish_hour corrupt_hour)\<rparr>)"
proof -
  have rd: "rd_open (\<lambda>_. Some (0 :: int, True)) [] = Inl ShorterThanHeader" by code_simp
  have segs: "bake_segments (example_baker False) (\<lambda>_. True) (ar_raw first_archive) first_hour (segment_files (ar_raw first_archive) first_hour)
      (new_hour (start_wall_ns first_hour)) = Inr (corrupt_hour, [\<lparr>se_path = example_name, se_hour = 0, se_bytes = 5, se_sha256 = example_digest, se_records = 0,
         se_first_recv_wall_ns = None, se_last_recv_wall_ns = None, se_truncated = False\<rparr>])"
    using first_texts by (simp add: first_disk bake_segment_def example_baker_def example_source_def rd corrupt_hour_def)
  have rows: "ho_rows corrupt_hour = []" by (simp add: corrupt_hour_def corrupt_segment_def new_hour_def)
  have "read_manifest (example_baker False) first_archive (hk_date first_hour) = Inr None" by (simp add: read_manifest_def first_archive_def)
  from bake_hour_succeeds [OF this _ _ segs first_disk(1), of 10 DEFAULT_FLUSH_ROWS "''1.0''"] rows obtain ops rp
    where b: "bake_hour (example_baker False) ''1.0'' 10 DEFAULT_FLUSH_ROWS first_hour first_archive = (ops, Inr rp)"
    by (auto simp: DEFAULT_FLUSH_ROWS_def)
  obtain h segments where r: "bake_segments (example_baker False) (\<lambda>_. True) (ar_raw first_archive) first_hour (segment_files (ar_raw first_archive) first_hour)
      (new_hour (start_wall_ns first_hour)) = Inr (h, segments)" "ops = bake_steps (example_baker False) first_hour (table_parts 10 (ho_rows h))"
    and rp: "rp = \<lparr>rp_hour = first_hour,
       rp_bake = \<lparr>hb_hour = hk_hour first_hour, hb_bake_version = BAKE_VERSION, hb_software_version = ''1.0'',
         hb_accounting = hr_accounting (finish_hour h), hb_integrity = hr_integrity (finish_hour h)\<rparr>,
       rp_segments = segments,
       rp_parts = map (\<lambda>n. (n, part_entries (example_baker False) first_hour n (parts_of (TABLES n) 10 (rows_of n (ho_rows h))))) TABLE_NAMES,
       rp_failures = hr_failures (finish_hour h)\<rparr>"
    by (rule bake_hour_result [OF b])
  have eq: "h = corrupt_hour" "segments = [\<lparr>se_path = example_name, se_hour = 0, se_bytes = 5, se_sha256 = example_digest, se_records = 0,
         se_first_recv_wall_ns = None, se_last_recv_wall_ns = None, se_truncated = False\<rparr>]" using r(1) segs by simp_all
  have none: "part_entries (example_baker False) first_hour n (parts_of (TABLES n) 10 (rows_of n [])) = []" for n
    by (simp add: rows_of_def no_rows_no_parts part_entries_def)
  show ?thesis unfolding b r(2) rp eq rows none first_texts by simp
qed

definition corrupt_report :: bake_report where
  "corrupt_report = (case bake_hour (example_baker False) ''1.0'' 10 DEFAULT_FLUSH_ROWS first_hour first_archive of (_, Inr rp) \<Rightarrow> rp)"

lemma corrupt_recorded:
  obtains m0 m where "new_manifest (1970, 1, 1) ''1.0'' = Inr m0"
    "with_hour m0 (rp_bake corrupt_report) (rp_segments corrupt_report) (rp_parts corrupt_report) ''1.0'' None = Inr m"
proof -
  have "\<exists>m0 m. new_manifest (1970, 1, 1) ''1.0'' = Inr m0 \<and>
      with_hour m0 (rp_bake corrupt_report) (rp_segments corrupt_report) (rp_parts corrupt_report) ''1.0'' None = Inr m"
    by (simp add: corrupt_report_def corrupt_bake new_manifest_def with_hour_def assemble_def assembled_table_ok
      TABLE_NAMES_def new_bake_section_def sorted_unique_def new_manifest_struct_def manifest_error_def else_error_def
      check_sorted_unique_def check_table_def check_segment_def table_files_def first_name dict_get_or_def Let_def)
  then show ?thesis using that by blast
qed

theorem baked_hours_are_settled_witness:
  "\<exists>ar' b. bake_archive (example_baker False) ''1.0'' None 10 0 (end_wall_ns first_hour + 1) False False (Some first_hour) first_archive = (ar', Inr ([b], [])) \<and>
     bh_hour b = first_hour \<and>
     ((\<exists>e. read_manifest (example_baker False) ar' (hk_date first_hour) = Inl e) \<or> hour_needed (example_baker False) ar' False first_hour = Inr False)"
proof -
  obtain m0 m where m: "new_manifest (1970, 1, 1) ''1.0'' = Inr m0"
    "with_hour m0 (rp_bake corrupt_report) (rp_segments corrupt_report) (rp_parts corrupt_report) ''1.0'' None = Inr m"
    by (rule corrupt_recorded)
  let ?bk = "example_baker False" and ?now = "end_wall_ns first_hour + 1"
  obtain ops where b: "bake_hour ?bk ''1.0'' 10 DEFAULT_FLUSH_ROWS first_hour first_archive = (ops, Inr corrupt_report)"
    by (simp add: corrupt_report_def corrupt_bake)
  have hour: "rp_hour corrupt_report = first_hour" by (simp add: corrupt_report_def corrupt_bake)
  have none: "read_manifest ?bk (first_archive\<lparr>ar_baked := t\<rparr>) (hk_date first_hour) = Inr None" "read_manifest ?bk first_archive (hk_date first_hour) = Inr None" for t
    by (simp_all add: read_manifest_def first_archive_def)
  obtain ar' where one: "bake_and_record ?bk ''1.0'' None 10 first_hour first_archive = (ar', Inr corrupt_report)"
    using m unfolding first_texts(3) [symmetric] by (simp add: bake_and_record_def b record_bake_def hour none Let_def)
  have "sizes_on_disk (ar_raw first_archive) first_hour \<noteq> []" by (simp add: sizes_on_disk_def first_disk)
  then have "hour_needed ?bk first_archive False first_hour = Inr True"
    by (simp add: hour_needed_def none bake_needed_def)
  then have hours: "hours_to_bake ?bk first_archive ?now 0 False (Some [first_hour]) = Inr [first_hour]"
    by (simp add: hours_to_bake_def closed_hours_def)
  have run: "bake_archive ?bk ''1.0'' None 10 0 ?now False False (Some first_hour) first_archive = (ar', Inr ([baked_hour_of corrupt_report], []))"
    using hours one by (simp add: bake_archive_def closed_hours_def)
  have "bh_hour (baked_hour_of corrupt_report) = first_hour" by (simp add: baked_hour_of_def hour)
  then show ?thesis
    using baked_hours_are_settled [OF example_codec_exact _ run, of first_hour] run first_texts(6) by auto
qed

end
