(* ===== verification/Spec2Isabelle.thy ===== *)
theory Spec2Isabelle
  imports Fixedpoint Timeutil Events Book Gaps Ratelimit Convert Bus Livebooks Tap Auditor Planner Universe Reconciled Supervised Segment Interpret Interpreted Archive Layout Manifest Manifested Prune Pruned Spill Spilled Bake Baked
begin

text \<open>
  A model of the core of the package \<^verbatim>\<open>src/tape\<close>: a recorder of an exchange's market data, and the
  archive it fills. Each definition is translated from the Python it stands for and keeps its name.

  \<^bold>\<open>How the parts interact.\<close> One supervisor per connection (\<^verbatim>\<open>recorder/supervisor.py\<close>) subscribes to the
  markets its group of the plan names, hands every frame to the tape before it interprets it, checks
  the numbers of each subscription, applies snapshots and deltas to its books, and emits an event
  for each applied one. The recorder numbers the events and publishes them (\<^verbatim>\<open>bus/\<close>); a consumer
  that may lose messages keeps copies of the books (\<^verbatim>\<open>bus/livebooks.py\<close>). The auditor compares a book
  against REST through a tap, a window of the book's changes (\<^verbatim>\<open>recorder/tap.py\<close>,
  \<^verbatim>\<open>recorder/auditor.py\<close>). Which markets are recorded is chosen by \<^verbatim>\<open>recorder/universe.py\<close> and dealt to
  connections by \<^verbatim>\<open>recorder/planner.py\<close>. The tape is raw segments (\<^verbatim>\<open>segment/segment.py\<close>), one
  directory an hour. Offline, \<^verbatim>\<open>tape bake\<close> reads a closed hour's segments (\<^verbatim>\<open>bake/interpret.py\<close>), spills
  the rows into sorted parts (\<^verbatim>\<open>bake/spill.py\<close>), swaps them in and records them in the manifest of the
  day (\<^verbatim>\<open>bake/bake.py\<close>, \<^verbatim>\<open>bake/manifest.py\<close>); \<^verbatim>\<open>tape prune\<close> deletes the raw segments the manifest proves
  baked (\<^verbatim>\<open>bake/prune.py\<close>).

  \<^bold>\<open>Theories and sources.\<close>
    \<^item> \<open>Prelude\<close>: Python dictionaries as association lists in insertion order, results of code that
      raises, and the dictionary interface as the locale \<open>keyed_store\<close>.
    \<^item> \<open>Fixedpoint\<close>, \<open>Timeutil\<close>, \<open>Events\<close>: \<^verbatim>\<open>fixedpoint.py\<close>, \<^verbatim>\<open>timeutil.py\<close>, \<^verbatim>\<open>events.py\<close>. Decimal parsing
      and formatting invert each other within the 28 digits of the decimal context.
    \<^item> \<open>Book\<close>: \<^verbatim>\<open>book/book.py\<close>. The book of level dictionaries refines a map from prices to sizes;
      keyframe rows read back as the books they were written from.
    \<^item> \<open>Gaps\<close>: \<^verbatim>\<open>recorder/gaps.py\<close>. Every gap is reported once, and the numbers covered are exact.
    \<^item> \<open>Ratelimit\<close>: \<^verbatim>\<open>client/ratelimit.py\<close>. The locale \<open>metered\<close> (operations that pay out of a potential)
      gives the rate bound; a waiting acquisition returns.
    \<^item> \<open>Convert\<close>: \<^verbatim>\<open>wire/convert.py\<close> and the structs of \<^verbatim>\<open>wire/ws.py\<close> it reads. Both wire forms of a book
      convert alike.
    \<^item> \<open>Bus\<close>, \<open>Livebooks\<close>: \<^verbatim>\<open>bus/envelope.py\<close>, \<^verbatim>\<open>bus/ports.py\<close>, the publisher of \<^verbatim>\<open>bus/sockets.py\<close>,
      \<^verbatim>\<open>bus/livebooks.py\<close>. The publisher accounts for every envelope; a consumer's fresh book is the
      publisher's as of the last number it followed, whatever was lost before.
    \<^item> \<open>Tap\<close>, \<open>Auditor\<close>: \<^verbatim>\<open>recorder/tap.py\<close>, \<^verbatim>\<open>recorder/auditor.py\<close>. A window replays to the states the book
      had (locale \<open>replayable\<close>); the verdict on a REST reply is the nearest matching state, and an
      honest reply passes; a round ends early at a reply that does not decode, and only there.
    \<^item> \<open>Planner\<close>, \<open>Universe\<close>: \<^verbatim>\<open>recorder/planner.py\<close>, \<^verbatim>\<open>recorder/universe.py\<close>. Plans respect capacity, move
      the fewest markets, and their differences reach the plan; selection counts every market once.
    \<^item> \<open>Supervisor\<close>, \<open>Supervision\<close>, \<open>Reconciled\<close>, \<open>Supervised\<close>: \<^verbatim>\<open>recorder/supervisor.py\<close> with the sending half of
      \<^verbatim>\<open>client/ws.py\<close>. The locales \<open>sup_handlers\<close> and \<open>sup_life\<close> carry a relation between states through
      every handler, every step of a connection's life and every run; each is interpreted for
      publishing, watching, taping, ordering, counting and a healthy session, and the properties rest
      on those. \<open>Reconciled\<close> follows a reconciliation through the replies it waits for.
    \<^item> \<open>Segment\<close>: \<^verbatim>\<open>segment/segment.py\<close>. The incremental reader equals a reference parser of the whole
      stream; what was flushed before a crash is read back.
    \<^item> \<open>Interpret\<close>, \<open>Interpreted\<close>, \<open>Archive\<close>: \<^verbatim>\<open>bake/interpret.py\<close> and the rows of \<^verbatim>\<open>bake/tables.py\<close>. Every
      record is counted under one outcome (locale \<open>hour_rel\<close>); the rows of a frame are those of the event
      the recorder emitted for it.
    \<^item> \<open>Layout\<close>: \<^verbatim>\<open>bake/layout.py\<close>, with the calendar of Python's \<^verbatim>\<open>datetime\<close>. An hour's label and its
      instants name it and no other.
    \<^item> \<open>Manifest\<close>, \<open>Manifested\<close>: \<^verbatim>\<open>bake/manifest.py\<close>. Uptime is the measure of the instants some
      connection was open and the host awake; a pruned hour is never baked again.
    \<^item> \<open>Prune\<close>, \<open>Pruned\<close>: \<^verbatim>\<open>bake/prune.py\<close>. An hour is prunable exactly under the conditions of ADR 0025,
      and no segment is deleted before the manifest records it.
    \<^item> \<open>Spill\<close>, \<open>Spilled\<close>: \<^verbatim>\<open>bake/spill.py\<close>, \<^verbatim>\<open>TABLES\<close> of \<^verbatim>\<open>bake/tables.py\<close>. A row is checked
      against its table's width and column types as Arrow does; the parts of rows that pass are a
      function of the rows alone and hold each row once.
    \<^item> \<open>Bake\<close>, \<open>Baked\<close>: \<^verbatim>\<open>bake/bake.py\<close>, \<^verbatim>\<open>bake/files.py\<close> and the \<^verbatim>\<open>bake\<close> and \<^verbatim>\<open>prune\<close> loops of \<^verbatim>\<open>cli.py\<close>. A bake
      replaces tables whole, however it is interrupted; what it reports baked is settled.

  \<^bold>\<open>How code is rendered.\<close> A class is a record, a method a function from the state to the state it
  leaves, with the error it raises as \<open>Inl\<close> beside what it did before raising. Python integers are
  \<open>int\<close> and wrap nowhere; the one fixed width is the 32-bit word of the CRC in \<open>Spill\<close>. A coroutine
  is one step: others run before or after it, except that a frame's sequence check and its dispatch
  are two definitions. Clocks, timers, sockets and the answers of the exchange are arguments,
  indexed by how often they were asked where the code asks repeatedly. A crash is a prefix of the
  writes to disk: \<open>disk_op\<close> for a prune, \<open>dir_op\<close> for a bake, and the flushed prefix of a segment.

  \<^bold>\<open>Termination and fuel.\<close> Loops recurse on their data or have a measure (the source of a reader, the
  rows left of a bucket, the queue of a window). \<open>run_attempts\<close>, which may go on for ever, recurses on
  the list of what its connections did, and \<open>acquire_on\<close> on the list of clock readings; that enough
  readings end the wait is a property (\<open>acquire_returns\<close>). There is no other fuel.

  \<^bold>\<open>Parameters.\<close> JSON and MessagePack decoding (msgspec), zstandard (a segment's file gives a list of
  chunks), SHA-256, Parquet's writer, the ZeroMQ socket. Their hypotheses are named where used: the
  manifest's codec decodes only what its structs accept and gives back what it was given, or nothing
  (\<open>codec_ok\<close>, \<open>codec_exact\<close>); the recorder and the baker decode alike (\<open>same_decoders\<close>).

  \<^bold>\<open>Not modelled.\<close> The recorder process (\<^verbatim>\<open>recorder/recorder.py\<close>) and the live API (\<^verbatim>\<open>api/\<close>) are wiring of
  asyncio tasks, queues and routes around the modelled parts; the segment sink (\<^verbatim>\<open>recorder/writer.py\<close>)
  is a thread around the modelled segment writer; the REST client, listing and signing make HTTP
  calls; the catalog queries Parquet through pyarrow; \<^verbatim>\<open>config.py\<close> declares settings. Logging, metrics
  and the file lock are left out of the modelled parts, and text is limited to the code points up to
  255, the characters of \<open>string\<close>.
\<close>

end
